(* ===== verification/Prelude.thy ===== *)
theory Prelude
  imports Main "HOL-Library.Word" "HOL-Library.Monad_Syntax"
begin

unbundle bit_operations_syntax

text \<open>
  Prelude of the development: the machine types of the consumer agent (an LP64 Linux build), the
  outcome type of C code (\<open>None\<close> is undefined behaviour: a read of an unallocated cell, of an
  uninitialised variable or outside an array, a division by zero), and the generic facts on
  lists, maps and words that the component theories share.
\<close>

section \<open>Machine types\<close>

type_synonym u8 = "8 word"
type_synonym u32 = "32 word"
type_synonym u64 = "64 word"
type_synonym s32 = "32 word"

text \<open>An address of the C heap; \<open>NULL\<close> is the address 0.\<close>

type_synonym addr = nat

abbreviation (input) NULL :: addr where
  "NULL \<equiv> 0"

section \<open>Collections of facts\<close>

named_theorems field_simps_c \<open>effect of a field read or write on the heap of a component\<close>
named_theorems ring_intros \<open>introduction rules for circular lists and ring queues\<close>

section \<open>Lists indexed by a small range\<close>

text \<open>An array of \<open>n\<close> cells is a list; reading out of range is undefined behaviour.\<close>

definition nth_opt :: "'a list \<Rightarrow> nat \<Rightarrow> 'a option" where
  "nth_opt xs i = (if i < length xs then Some (xs ! i) else None)"

definition upd_opt :: "'a list \<Rightarrow> nat \<Rightarrow> 'a \<Rightarrow> 'a list option" where
  "upd_opt xs i v = (if i < length xs then Some (xs[i := v]) else None)"

lemma nth_opt_in [simp]: "i < length xs \<Longrightarrow> nth_opt xs i = Some (xs ! i)"
  by (simp add: nth_opt_def)

lemma upd_opt_in [simp]: "i < length xs \<Longrightarrow> upd_opt xs i v = Some (xs[i := v])"
  by (simp add: upd_opt_def)

lemma nth_opt_SomeD: "nth_opt xs i = Some v \<Longrightarrow> i < length xs \<and> xs ! i = v"
  by (auto simp: nth_opt_def split: if_splits)

lemma upd_opt_SomeD: "upd_opt xs i v = Some ys \<Longrightarrow> i < length xs \<and> ys = xs[i := v]"
  by (auto simp: upd_opt_def split: if_splits)

lemma sum_fun_upd:
  fixes f :: "nat \<Rightarrow> 'b \<Rightarrow> nat"
  assumes "finite A" and "i \<in> A"
  shows "(\<Sum>k\<in>A. f k ((g(i := v)) k)) + f i (g i) = (\<Sum>k\<in>A. f k (g k)) + f i v"
proof -
  have "(\<Sum>k\<in>A. f k ((g(i := v)) k)) = f i v + (\<Sum>k\<in>A - {i}. f k ((g(i := v)) k))"
    using assms by (subst sum.remove [of A i]) auto
  moreover have "(\<Sum>k\<in>A - {i}. f k ((g(i := v)) k)) = (\<Sum>k\<in>A - {i}. f k (g k))"
    by (rule sum.cong) auto
  moreover have "(\<Sum>k\<in>A. f k (g k)) = f i (g i) + (\<Sum>k\<in>A - {i}. f k (g k))"
    using assms by (subst sum.remove [of A i]) auto
  ultimately show ?thesis by simp
qed

section \<open>Words and natural numbers\<close>

lemma of_nat_diff_word:
  "b \<le> a \<Longrightarrow> (of_nat a :: 'a::len word) - of_nat b = of_nat (a - b)"
  by (simp add: of_nat_diff)

lemma unat_of_nat_u32 [simp]: "n < 4294967296 \<Longrightarrow> unat (of_nat n :: u32) = n"
  by (simp add: unat_of_nat)

lemma unat_of_nat_u64 [simp]: "n < 18446744073709551616 \<Longrightarrow> unat (of_nat n :: u64) = n"
  by (simp add: unat_of_nat)

lemma unat_of_nat_u64_pow: "n < 2 ^ 64 \<Longrightarrow> unat (of_nat n :: u64) = n"
  by simp

lemma unat_Suc: "unat (x :: u64) + 1 < 2 ^ 64 \<Longrightarrow> unat (x + 1) = Suc (unat x)"
  by (simp add: unat_word_ariths)

lemma unat_Suc_below: "unat (x :: u64) < unat (y :: u64) \<Longrightarrow> unat (x + 1) = Suc (unat x)"
proof -
  assume "unat x < unat y"
  moreover have "unat y < 2 ^ LENGTH(64)" by (rule unsigned_less)
  ultimately show ?thesis by (intro unat_Suc) simp
qed

lemma word_less_unat: "(x :: 'a::len word) < y \<longleftrightarrow> unat x < unat y"
  by (rule word_less_nat_alt)

lemma word_of_nat_sint:
  assumes "0 \<le> sint (w :: 'a::len word)"
  shows "w = of_nat (nat (sint w))"
proof -
  have "of_nat (nat (sint w)) = (of_int (sint w) :: 'a word)" using assms by simp
  also have "\<dots> = w" by simp
  finally show ?thesis by simp
qed

text \<open>Rounding a word down to a multiple of a power of two.\<close>

lemma and_not_mask: "x AND NOT (mask k) = push_bit k (drop_bit k (x :: 'a::len word))"
  by (rule bit_word_eqI) (auto simp: bit_simps)

lemma unat_and_not_mask: "unat (x AND NOT (mask k)) = unat (x :: 'a::len word) div 2 ^ k * 2 ^ k"
proof -
  have "unat x div 2 ^ k * 2 ^ k \<le> unat x" by simp
  then have "unat x div 2 ^ k * 2 ^ k < 2 ^ LENGTH('a)" using unsigned_less [of x] by (rule le_less_trans)
  moreover have "unat (x AND NOT (mask k)) = take_bit LENGTH('a) (push_bit k (drop_bit k (unat x)))"
    by (simp only: and_not_mask unsigned_push_bit_eq unsigned_drop_bit_eq) (simp add: take_bit_nat_eq_self)
  ultimately show ?thesis by (simp add: drop_bit_eq_div push_bit_eq_mult take_bit_nat_eq_self)
qed

lemma unat_mask_u32:
  assumes "k < 32"
  shows "unat (mask k :: u32) = 2 ^ k - 1"
proof -
  have e: "(mask k :: u32) = of_nat (2 ^ k - 1)" by (simp add: mask_eq_exp_minus_1 of_nat_diff)
  have "(2::nat) ^ k < 2 ^ 32" using assms by (intro power_strict_increasing) auto
  then show ?thesis by (simp only: e unat_of_nat) simp
qed

end
