(* ===== verification/Cstr.thy ===== *)
theory Cstr
  imports Prelude
begin

text \<open>
  What the sources use of the C library's string functions, on byte arrays. A string inside an
  array ends at the first zero byte; reading on to the end of the array without finding one is
  undefined behaviour.
\<close>

section \<open>Strings in arrays\<close>

definition ascii :: "string \<Rightarrow> u8 list" where
  "ascii = map of_char"

definition c_str :: "u8 list \<Rightarrow> nat \<Rightarrow> u8 list option" where
  "c_str buf i = (let s = takeWhile (\<lambda>c. c \<noteq> 0) (drop i buf) in if i + length s < length buf then Some s else None)"

lemma c_str_zero:
  assumes "length p = i" and "0 \<notin> set s"
  shows "c_str (p @ s @ 0 # r) i = Some s"
proof -
  have "takeWhile (\<lambda>c. c \<noteq> 0) (s @ 0 # r) = s" using assms(2) by (subst takeWhile_append2) auto
  then show ?thesis using assms(1) by (simp add: c_str_def)
qed

text \<open>The C-string of an array cell by cell.\<close>

lemma c_str_prefix:
  assumes "c_str buf i = Some s"
  shows "take (length s) (drop i buf) = s" "i + length s < length buf" "buf ! (i + length s) = 0" "0 \<notin> set s"
proof -
  have s: "s = takeWhile (\<lambda>c. c \<noteq> 0) (drop i buf)" and l: "i + length s < length buf"
    using assms by (auto simp: c_str_def Let_def split: if_splits)
  show "i + length s < length buf" by (rule l)
  show "take (length s) (drop i buf) = s" unfolding s by (metis takeWhile_eq_take)
  show "0 \<notin> set s" unfolding s by (auto dest: set_takeWhileD)
  have "length s < length (drop i buf)" using l by simp
  then have "(drop i buf) ! length s = 0" unfolding s using nth_length_takeWhile by fastforce
  then show "buf ! (i + length s) = 0" using l by simp
qed

text \<open>\<open>tolower\<close> in the C locale.\<close>

definition c_tolower :: "u8 \<Rightarrow> u8" where
  "c_tolower c = (if 65 \<le> c \<and> c \<le> 90 then c + 32 else c)"

lemma c_tolower_zero [simp]: "c_tolower c = 0 \<longleftrightarrow> c = 0"
proof
  assume h: "c_tolower c = 0"
  show "c = 0"
  proof (cases "65 \<le> c \<and> c \<le> 90")
    case True
    then have "c = - 32" using h by (simp add: c_tolower_def eq_neg_iff_add_eq_0)
    with True show ?thesis by simp
  qed (use h in \<open>auto simp: c_tolower_def\<close>)
qed (simp add: c_tolower_def)

section \<open>Decimal numbers\<close>

definition c_isspace :: "u8 \<Rightarrow> bool" where
  "c_isspace c \<longleftrightarrow> c = 32 \<or> 9 \<le> c \<and> c \<le> 13"

definition c_isdigit :: "u8 \<Rightarrow> bool" where
  "c_isdigit c \<longleftrightarrow> 48 \<le> c \<and> c \<le> 57"

definition c_number :: "u8 list \<Rightarrow> int" where
  "c_number ds = foldl (\<lambda>v d. 10 * v + (uint d - 48)) 0 ds"

text \<open>\<open>atoi\<close>; a value that is not an \<open>int\<close> is undefined behaviour.\<close>

definition c_atoi :: "u8 list \<Rightarrow> int option" where
  "c_atoi s = (let t = dropWhile c_isspace s;
     neg = (case t of c # _ \<Rightarrow> c = 45 | [] \<Rightarrow> False);
     u = (case t of c # r \<Rightarrow> if c = 45 \<or> c = 43 then r else t | [] \<Rightarrow> []);
     n = c_number (takeWhile c_isdigit u);
     v = (if neg then - n else n) in
     if - (2 ^ 31) \<le> v \<and> v < 2 ^ 31 then Some v else None)"

text \<open>The conversion \<open>%d\<close> of \<open>sprintf\<close>.\<close>

fun c_digits :: "nat \<Rightarrow> u8 list" where
  "c_digits n = (if n < 10 then [of_nat (48 + n)] else c_digits (n div 10) @ [of_nat (48 + n mod 10)])"

declare c_digits.simps [simp del]

definition c_itoa :: "int \<Rightarrow> u8 list" where
  "c_itoa i = (if i < 0 then 45 # c_digits (nat (- i)) else c_digits (nat i))"

lemma unat_digit: "n < 10 \<Longrightarrow> unat (of_nat (48 + n) :: u8) = 48 + n"
  by (simp add: unat_of_nat take_bit_nat_eq_self del: of_nat_add)

lemma c_isdigit_of_nat [simp]: "n < 10 \<Longrightarrow> c_isdigit (of_nat (48 + n))"
  unfolding c_isdigit_def word_le_nat_alt by (simp only: unat_digit) simp

lemma c_digits_isdigit: "c \<in> set (c_digits n) \<Longrightarrow> c_isdigit c"
proof (induction n rule: c_digits.induct)
  case (1 n)
  then show ?case by (subst (asm) (2) c_digits.simps) (auto split: if_splits simp del: of_nat_add)
qed

lemma c_digits_hd: "c_digits n \<noteq> [] \<and> c_isdigit (hd (c_digits n))"
proof -
  have ne: "c_digits n \<noteq> []" by (subst c_digits.simps) simp
  then show ?thesis using c_digits_isdigit [of "hd (c_digits n)" n] by simp
qed

lemma c_number_digits: "c_number (c_digits n) = int n"
proof (induction n rule: c_digits.induct)
  case (1 n)
  have u: "uint (of_nat (48 + k) :: u8) = 48 + int k" if "k < 10" for k
    using unat_digit [OF that] by (metis of_nat_add of_nat_numeral uint_nat)
  show ?case
  proof (cases "n < 10")
    case True
    then show ?thesis using u [OF True] by (subst c_digits.simps) (simp add: c_number_def)
  next
    case False
    with 1 have "c_number (c_digits (n div 10)) = int (n div 10)" by simp
    moreover have "uint (of_nat (48 + n mod 10) :: u8) = 48 + int (n mod 10)" by (rule u) simp
    ultimately show ?thesis using False by (subst c_digits.simps) (simp add: c_number_def zdiv_int zmod_int)
  qed
qed

lemma digit_not_space: "c_isdigit c \<Longrightarrow> \<not> c_isspace c \<and> c \<noteq> 45 \<and> c \<noteq> 43"
  by (auto simp: c_isdigit_def c_isspace_def word_le_nat_alt)

text \<open>Reading back what \<open>sprintf\<close> printed, also behind spaces and before other characters.\<close>

lemma c_atoi_itoa:
  assumes "- (2 ^ 31) \<le> i" and "i < 2 ^ 31" and "\<And>c. c \<in> set sp \<Longrightarrow> c_isspace c"
    and "r \<noteq> [] \<Longrightarrow> \<not> c_isdigit (hd r)"
  shows "c_atoi (sp @ c_itoa i @ r) = Some i"
proof -
  have tw: "takeWhile c_isdigit (c_digits n @ r) = c_digits n" for n
    using assms(4) by (subst takeWhile_append2) (auto simp: c_digits_isdigit takeWhile_eq_Nil_iff)
  obtain d ds where d: "c_digits (nat i) = d # ds" "c_isdigit d" using c_digits_hd [of "nat i"] by (cases "c_digits (nat i)") auto
  have sp: "dropWhile c_isspace (sp @ c_itoa i @ r) = c_itoa i @ r"
  proof -
    have "\<not> c_isspace (hd (c_itoa i @ r)) \<and> c_itoa i \<noteq> []"
      using d digit_not_space [of d] by (auto simp: c_itoa_def c_isspace_def)
    then show ?thesis using assms(3) by (subst dropWhile_append2) (auto simp: dropWhile_eq_self_iff)
  qed
  show ?thesis
  proof (cases "i < 0")
    case True
    then show ?thesis using assms(1,2) by (simp add: c_atoi_def sp) (simp add: c_itoa_def tw c_number_digits)
  next
    case False
    have "c_atoi (sp @ c_itoa i @ r) =
        (let n = c_number (takeWhile c_isdigit (c_digits (nat i) @ r)) in if - (2 ^ 31) \<le> n \<and> n < 2 ^ 31 then Some n else None)"
      using False d digit_not_space [OF d(2)] by (simp add: c_atoi_def sp) (simp add: c_itoa_def)
    then show ?thesis using False assms(1,2) by (simp add: tw c_number_digits)
  qed
qed

lemma c_itoa_nonzero: "0 \<notin> set (c_itoa i)"
proof -
  have "0 \<notin> set (c_digits n)" for n using c_digits_isdigit [of 0 n] by (auto simp: c_isdigit_def)
  then show ?thesis by (simp add: c_itoa_def)
qed

text \<open>An \<open>int\<close> is printed with at most eleven characters.\<close>

lemma c_digits_length: "n < 10 ^ k \<Longrightarrow> 0 < k \<Longrightarrow> length (c_digits n) \<le> k"
proof (induction n arbitrary: k rule: c_digits.induct)
  case (1 n)
  show ?case
  proof (cases "n < 10")
    case True
    then show ?thesis using 1(3) by (simp add: c_digits.simps [of n])
  next
    case False
    then obtain j where k: "k = Suc j" "0 < j" using 1(2,3) by (cases k; cases "k - 1") auto
    have "n div 10 < 10 ^ j" using 1(2) k by (simp add: less_mult_imp_div_less mult.commute)
    then have "length (c_digits (n div 10)) \<le> j" using 1(1) False k(2) by simp
    then show ?thesis using False k by (simp add: c_digits.simps [of n])
  qed
qed

lemma c_itoa_length:
  assumes "- (2 ^ 31) \<le> i" and "i < 2 ^ 31"
  shows "length (c_itoa i) \<le> 11"
proof (cases "i < 0")
  case True
  then show ?thesis using c_digits_length [of "nat (- i)" 10] assms by (simp add: c_itoa_def)
next
  case False
  then have "nat i < 10 ^ 10" using assms by simp
  then show ?thesis using False c_digits_length [of "nat i" 10] by (simp add: c_itoa_def)
qed

section \<open>Hexadecimal digits and percent-encoding\<close>

definition c_hex2dec :: "u8 \<Rightarrow> int" where
  "c_hex2dec c =
     (if 48 \<le> c \<and> c \<le> 57 then uint c - 48
      else if 97 \<le> c \<and> c \<le> 102 then uint c - 97 + 10
      else if 65 \<le> c \<and> c \<le> 70 then uint c - 65 + 10
      else - 1)"

text \<open>
  \<open>pct_encodes stop s e\<close>: the text \<open>e\<close> is a percent-encoding of \<open>s\<close>. A byte other than the percent sign
  and those of \<open>stop\<close> may stand for itself, and every byte may be given by two hexadecimal digits.
\<close>

inductive pct_encodes :: "u8 set \<Rightarrow> u8 list \<Rightarrow> u8 list \<Rightarrow> bool" for stop where
  pct_nil: "pct_encodes stop [] []"
| pct_raw: "c \<noteq> 37 \<Longrightarrow> c \<notin> stop \<Longrightarrow> pct_encodes stop s e \<Longrightarrow> pct_encodes stop (c # s) (c # e)"
| pct_hex: "0 \<le> c_hex2dec h1 \<Longrightarrow> 0 \<le> c_hex2dec h0 \<Longrightarrow> uint c = c_hex2dec h1 * 16 + c_hex2dec h0 \<Longrightarrow>
    pct_encodes stop s e \<Longrightarrow> pct_encodes stop (c # s) (37 # h1 # h0 # e)"

lemma c_hex2dec_stop: "0 \<le> c_hex2dec c \<Longrightarrow> c \<notin> {0, 37, 38, 61}"
  by (auto simp: c_hex2dec_def)

lemma pct_nonzero: "pct_encodes stop s e \<Longrightarrow> 0 \<in> stop \<Longrightarrow> 0 \<notin> set e"
  by (induction rule: pct_encodes.induct) (auto dest: c_hex2dec_stop)

lemma pct_length: "pct_encodes stop s e \<Longrightarrow> length s \<le> length e"
  by (induction rule: pct_encodes.induct) auto

end
