(* ===== verification/Io.thy ===== *)
theory Io
  imports Prelude
begin

unbundle bit_operations_syntax

text \<open>
  The non-blocking socket calls the agent makes. What the kernel does is an oracle: the list of
  the outcomes it has in store, consumed one call at a time. A call to \<open>recv\<close> finds the next
  segment of the incoming stream and takes at most the bytes asked for (an empty segment is the
  end of the stream), or it finds nothing, or it fails; an exhausted oracle means that nothing is
  there. A call to \<open>send\<close> finds room for some bytes, or none, or it fails.
\<close>

text \<open>Event flags of epoll.\<close>

abbreviation (input) EPOLLIN :: u32 where "EPOLLIN \<equiv> 0x1"
abbreviation (input) EPOLLOUT :: u32 where "EPOLLOUT \<equiv> 0x4"
abbreviation (input) EPOLLERR :: u32 where "EPOLLERR \<equiv> 0x8"
abbreviation (input) EPOLLRDHUP :: u32 where "EPOLLRDHUP \<equiv> 0x2000"
abbreviation (input) EPOLLONESHOT :: u32 where "EPOLLONESHOT \<equiv> 0x40000000"
abbreviation (input) EPOLLET :: u32 where "EPOLLET \<equiv> 0x80000000"

text \<open>The outcome of a call.\<close>

datatype 'a io = Io_ok 'a | Io_again | Io_err

datatype rx = Rx_data "u8 list" | Rx_again | Rx_err

datatype tx = Tx_room nat | Tx_again | Tx_err

fun os_recv :: "rx list \<Rightarrow> nat \<Rightarrow> u8 list io \<times> rx list" where
  "os_recv [] n = (Io_again, [])"
| "os_recv (Rx_data bs # r) n = (Io_ok (take n bs), if length bs \<le> n then r else Rx_data (drop n bs) # r)"
| "os_recv (Rx_again # r) n = (Io_again, r)"
| "os_recv (Rx_err # r) n = (Io_err, r)"

text \<open>The number of bytes sent; they are the first ones of the buffer.\<close>

fun os_send :: "tx list \<Rightarrow> u8 list \<Rightarrow> nat io \<times> tx list" where
  "os_send [] bs = (Io_again, [])"
| "os_send (Tx_room k # t) bs = (Io_ok (min k (length bs)), t)"
| "os_send (Tx_again # t) bs = (Io_again, t)"
| "os_send (Tx_err # t) bs = (Io_err, t)"

text \<open>The bytes still to come, for a stream that arrives in non-empty segments without errors.\<close>

fun rx_bytes :: "rx list \<Rightarrow> u8 list" where
  "rx_bytes [] = []"
| "rx_bytes (Rx_data bs # r) = bs @ rx_bytes r"
| "rx_bytes (_ # r) = rx_bytes r"

fun rx_clean :: "rx list \<Rightarrow> bool" where
  "rx_clean [] = True"
| "rx_clean (Rx_data bs # r) = (bs \<noteq> [] \<and> rx_clean r)"
| "rx_clean (Rx_again # r) = rx_clean r"
| "rx_clean (Rx_err # r) = False"

text \<open>What a call takes from a clean stream is the beginning of it.\<close>

lemma os_recv_clean:
  assumes "rx_clean r" and "os_recv r n = (x, r')"
  shows "rx_clean r'" and "x \<noteq> Io_err" and "x = Io_again \<Longrightarrow> rx_bytes r' = rx_bytes r"
    and "x = Io_ok bs \<Longrightarrow> bs @ rx_bytes r' = rx_bytes r \<and> length bs \<le> n \<and> (0 < n \<longrightarrow> bs \<noteq> [])"
  using assms by (induction r n rule: os_recv.induct; auto split: if_splits)+

text \<open>A call that asks for at least what is there takes the whole next segment.\<close>

lemma os_recv_shorter:
  assumes "rx_bytes r \<noteq> []" and "length (rx_bytes r) \<le> n" and "os_recv r n = (x, r')"
  shows "length r' < length r"
  using assms by (cases "(r, n)" rule: os_recv.cases) auto

lemma os_send_le: "os_send t bs = (Io_ok k, t') \<Longrightarrow> k \<le> length bs"
  by (cases "(t, bs)" rule: os_send.cases) auto

lemma os_send_shorter: "t \<noteq> [] \<Longrightarrow> os_send t bs = (x, t') \<Longrightarrow> length t' < length t"
  by (cases "(t, bs)" rule: os_send.cases) auto

lemma os_send_empty: "os_send [] bs = (x, t') \<Longrightarrow> x = Io_again \<and> t' = []"
  by simp

text \<open>\<open>htons\<close> on a little-endian machine.\<close>

definition c_htons :: "s32 \<Rightarrow> 16 word" where
  "c_htons port = push_bit 8 (ucast port) OR drop_bit 8 (ucast port)"

text \<open>The remainder of signed division in C, which has the sign of the dividend.\<close>

definition c_rem :: "int \<Rightarrow> int \<Rightarrow> int option" where
  "c_rem a b = (if b = 0 then None else if 0 \<le> a then Some (a mod \<bar>b\<bar>) else Some (- ((- a) mod \<bar>b\<bar>)))"

lemma c_rem_neg:
  assumes "0 < d" and "0 < m" and "\<not> m dvd d"
  shows "\<exists>k < 0. c_rem (- int d) (int m) = Some k"
proof -
  have "int d mod int m = int (d mod m)" by (simp add: zmod_int)
  moreover have "0 < d mod m" using assms(2,3) by (simp add: dvd_eq_mod_eq_0)
  ultimately show ?thesis using assms(1,2) by (simp add: c_rem_def)
qed

text \<open>An \<open>int\<close> as a \<open>size_t\<close>: a negative one becomes huge.\<close>

definition c_size_t :: "int \<Rightarrow> nat" where
  "c_size_t n = unat (of_int n :: u64)"

lemma c_size_t_pos:
  assumes "0 \<le> n" and "n < 2 ^ 31"
  shows "c_size_t n = nat n"
proof -
  have "nat n < 2 ^ 64" "n = int (nat n)" using assms by auto
  then show ?thesis unfolding c_size_t_def by (metis of_int_of_nat_eq unat_of_nat_u64_pow)
qed

lemma c_rem_pos: "0 \<le> a \<Longrightarrow> 0 < b \<Longrightarrow> c_rem a b = Some (a mod b)"
  by (simp add: c_rem_def)

end
