(* ===== verification/Ring_Queue.thy ===== *)
theory Ring_Queue
  imports Prelude
begin

text \<open>
  Ring queues. The agent has two of them with the same layout: the call queue of a thread pool
  (\<^verbatim>\<open>tdpool.c\<close>) and the write queue of a channel (\<^verbatim>\<open>agent-client-manager.c\<close>). Both keep an array of
  \<open>n\<close> slots and two counters that only grow; the entries in the queue are those numbered
  \<open>head + 1 .. tail - 1\<close>, entry \<open>i\<close> in the slot \<open>i mod n\<close>, so a new queue has \<open>head = 0\<close> and
  \<open>tail = 1\<close>. The first part is about the array, the locale about a structure that embeds it.
\<close>

section \<open>The array and its counters\<close>

definition ring_contents :: "'e list \<Rightarrow> nat \<Rightarrow> nat \<Rightarrow> nat \<Rightarrow> 'e list" where
  "ring_contents xs n h t = map (\<lambda>i. xs ! (i mod n)) [Suc h..<t]"

definition ring_wf :: "'e list \<Rightarrow> nat \<Rightarrow> nat \<Rightarrow> nat \<Rightarrow> bool" where
  "ring_wf xs n h t \<longleftrightarrow> 0 < n \<and> length xs = n \<and> h < t \<and> t \<le> Suc h + n"

lemma mod_neq_within:
  fixes i t n :: nat
  assumes "i < t" and "t < i + n"
  shows "i mod n \<noteq> t mod n"
proof
  assume "i mod n = t mod n"
  then have "n dvd t - i" using assms(1) by (metis less_imp_le mod_eq_dvd_iff_nat)
  with assms show False by (auto dest: dvd_imp_le)
qed

lemma ring_length [simp]: "length (ring_contents xs n h t) = t - Suc h"
  by (simp add: ring_contents_def)

lemma ring_empty [simp]: "ring_contents xs n h (Suc h) = []"
  by (simp add: ring_contents_def)

lemma ring_nil_iff: "h < t \<Longrightarrow> ring_contents xs n h t = [] \<longleftrightarrow> t = Suc h"
  by (auto simp: ring_contents_def)

lemma ring_cons:
  assumes "Suc h < t"
  shows "ring_contents xs n h t = xs ! (Suc h mod n) # ring_contents xs n (Suc h) t"
  using assms by (simp add: ring_contents_def upt_conv_Cons)

text \<open>A slot that holds no entry of the queue may be written.\<close>

lemma ring_slot_frame:
  assumes "\<And>i. h < i \<Longrightarrow> i < t \<Longrightarrow> i mod n \<noteq> k"
  shows "ring_contents (xs[k := e]) n h t = ring_contents xs n h t"
  unfolding ring_contents_def
proof (rule map_cong [OF refl])
  fix i assume "i \<in> set [Suc h..<t]"
  then have "i mod n \<noteq> k" using assms [of i] by (simp add: Suc_le_eq)
  then show "xs[k := e] ! (i mod n) = xs ! (i mod n)" by simp
qed

lemma ring_put:
  assumes "ring_wf xs n h t" and "t - Suc h < n"
  shows "ring_contents (xs[t mod n := e]) n h (Suc t) = ring_contents xs n h t @ [e]"
    and "ring_wf (xs[t mod n := e]) n h (Suc t)"
proof -
  have wf: "0 < n" "length xs = n" "h < t" using assms(1) by (auto simp: ring_wf_def)
  have "ring_contents (xs[t mod n := e]) n h t = ring_contents xs n h t"
    by (rule ring_slot_frame) (rule mod_neq_within, use assms(2) in auto)
  moreover have "ring_contents ys n h (Suc t) = ring_contents ys n h t @ [ys ! (t mod n)]" for ys :: "'a list"
    using wf by (simp add: ring_contents_def)
  ultimately show "ring_contents (xs[t mod n := e]) n h (Suc t) = ring_contents xs n h t @ [e]"
    using wf by simp
  show "ring_wf (xs[t mod n := e]) n h (Suc t)" using wf assms(2) by (auto simp: ring_wf_def)
qed

lemma ring_pop:
  assumes "ring_wf xs n h t" and "ring_contents xs n h t = e # es"
  shows "ring_contents xs n (Suc h) t = es" and "xs ! (Suc h mod n) = e" and "ring_wf xs n (Suc h) t"
proof -
  have "Suc h < t" using assms by (metis length_Cons ring_length zero_less_Suc zero_less_diff)
  with ring_cons [of h t xs n] assms show "ring_contents xs n (Suc h) t = es" "xs ! (Suc h mod n) = e"
    "ring_wf xs n (Suc h) t" by (auto simp: ring_wf_def)
qed

text \<open>The oldest entry may be updated in place.\<close>

lemma ring_set_front:
  assumes "ring_wf xs n h t" and "ring_contents xs n h t = e # es"
  shows "ring_contents (xs[Suc h mod n := e']) n h t = e' # es" and "ring_wf (xs[Suc h mod n := e']) n h t"
proof -
  have wf: "0 < n" "length xs = n" "h < t" "t \<le> Suc h + n" using assms(1) by (auto simp: ring_wf_def)
  have lt: "Suc h < t" using assms by (metis length_Cons ring_length zero_less_Suc zero_less_diff)
  have "ring_contents (xs[Suc h mod n := e']) n (Suc h) t = ring_contents xs n (Suc h) t"
    by (rule ring_slot_frame, rule not_sym, rule mod_neq_within) (use wf(4) in auto)
  then show "ring_contents (xs[Suc h mod n := e']) n h t = e' # es"
    using ring_cons [OF lt, of "xs[Suc h mod n := e']" n] ring_pop(1) [OF assms] wf(1,2) by simp
  show "ring_wf (xs[Suc h mod n := e']) n h t" using wf by (simp add: ring_wf_def)
qed

text \<open>A write into a full queue replaces its oldest entry, which then appears twice.\<close>

lemma ring_overwrite:
  assumes "ring_wf xs n h t" and "t = Suc h + n"
  shows "ring_contents (xs[t mod n := e]) n h (Suc t) = e # tl (ring_contents xs n h t) @ [e]"
proof -
  have wf: "0 < n" "length xs = n" using assms(1) by (auto simp: ring_wf_def)
  have t: "t mod n = Suc h mod n" using assms(2) by (simp only: mod_add_self2)
  have "ring_contents (xs[t mod n := e]) n (Suc h) t = ring_contents xs n (Suc h) t"
    by (rule ring_slot_frame) (simp only: t, rule not_sym, rule mod_neq_within, use assms(2) in auto)
  moreover have split: "[Suc h..<Suc t] = Suc h # [Suc (Suc h)..<t] @ [t]"
  proof -
    have "Suc h \<le> t" "Suc h < t" using wf(1) assms(2) by auto
    then show ?thesis by (simp only: upt_Suc if_True upt_conv_Cons append_Cons)
  qed
  moreover have "ring_contents ys n h (Suc t) = ys ! (Suc h mod n) # ring_contents ys n (Suc h) t @ [ys ! (t mod n)]"
    for ys :: "'a list"
    unfolding ring_contents_def split by simp
  moreover have "tl (ring_contents xs n h t) = ring_contents xs n (Suc h) t"
    using ring_cons [of h t xs n] wf assms(2) by simp
  moreover have "Suc h mod n < n" using wf by simp
  ultimately show ?thesis using wf t by simp
qed

text \<open>
  The slot of entry \<open>i\<close>: \<open>i % period\<close> in C, with an \<open>unsigned long\<close> \<open>i\<close> and an \<open>int\<close> period. The period is
  converted to \<open>unsigned long\<close>, so a negative one becomes a huge modulus; zero is undefined.
\<close>

definition ring_slot :: "u64 \<Rightarrow> s32 \<Rightarrow> nat option" where
  "ring_slot i period = (if period = 0 then None else Some (unat (i mod scast period)))"

lemma unat_scast_pos: "0 < sint (p :: s32) \<Longrightarrow> unat (scast p :: u64) = nat (sint p)"
proof -
  assume p: "0 < sint p"
  have "sint p < 2 ^ 31" using sint_less [of p] by simp
  then have "take_bit 64 (sint p) = sint p" using p by (simp add: take_bit_int_eq_self_iff)
  moreover have "unat (word_of_int k :: u64) = nat (take_bit 64 k)" for k by (simp add: unsigned_of_int)
  ultimately show ?thesis by (simp only: scast_eq)
qed

lemma ring_slot_pos: "0 < sint p \<Longrightarrow> ring_slot i p = Some (unat i mod nat (sint p))"
  by (auto simp: ring_slot_def unat_mod_distrib unat_scast_pos)

lemma sint_pos_less: "nat (sint (p :: s32)) < 2 ^ 31"
  using sint_less [of p] by simp

section \<open>A structure with a ring queue\<close>

text \<open>
  The interface: \<open>put\<close> stores an entry and advances the tail, \<open>pop\<close> advances the head, and both
  leave the rest of the queue's fields alone. The counters are 64-bit words; the laws are about
  queues whose counters have not wrapped.
\<close>

locale ring_queue =
  fixes slots :: "'s \<Rightarrow> 'e list" and period :: "'s \<Rightarrow> nat" and head tail :: "'s \<Rightarrow> u64"
    and put :: "'s \<Rightarrow> 'e \<Rightarrow> 's option" and pop :: "'s \<Rightarrow> 's"
  assumes put_law: "\<lbrakk>0 < period s; period s < 2 ^ 31; length (slots s) = period s; head s \<noteq> tail s\<rbrakk> \<Longrightarrow>
      \<exists>s'. put s e = Some s' \<and> slots s' = (slots s)[unat (tail s) mod period s := e] \<and> period s' = period s \<and>
        head s' = head s \<and> tail s' = tail s + 1"
    and pop_law: "slots (pop s) = slots s" "period (pop s) = period s" "head (pop s) = head s + 1" "tail (pop s) = tail s"
begin

definition contents :: "'s \<Rightarrow> 'e list" where
  "contents s = ring_contents (slots s) (period s) (unat (head s)) (unat (tail s))"

definition ok :: "'s \<Rightarrow> bool" where
  "ok s \<longleftrightarrow> period s < 2 ^ 31 \<and> ring_wf (slots s) (period s) (unat (head s)) (unat (tail s))"

lemma okD: "ok s \<Longrightarrow> ring_wf (slots s) (period s) (unat (head s)) (unat (tail s))" "ok s \<Longrightarrow> period s < 2 ^ 31"
  "ok s \<Longrightarrow> unat (head s + 1) = Suc (unat (head s))" "ok s \<Longrightarrow> head s \<noteq> tail s"
  by (auto simp: ok_def ring_wf_def intro: unat_Suc_below)

lemma empty_iff: "ok s \<Longrightarrow> contents s = [] \<longleftrightarrow> head s + 1 = tail s"
  using okD [of s] unfolding contents_def word_unat_eq_iff
  by (subst ring_nil_iff) (auto simp: ring_wf_def)

lemma length_le: "ok s \<Longrightarrow> length (contents s) \<le> period s"
  by (auto simp: contents_def ok_def ring_wf_def)

lemma put_contents:
  assumes "ok s" and "length (contents s) < period s" and "unat (tail s) + 1 < 2 ^ 64"
  shows "\<exists>s'. put s e = Some s' \<and> ok s' \<and> contents s' = contents s @ [e] \<and> period s' = period s \<and>
    head s' = head s \<and> tail s' = tail s + 1"
proof -
  let ?h = "unat (head s)" and ?t = "unat (tail s)"
  note wf = okD [OF assms(1)]
  then obtain s' where s': "put s e = Some s'" "slots s' = (slots s)[?t mod period s := e]" "period s' = period s"
      "head s' = head s" "tail s' = tail s + 1"
    using put_law [of s e] by (auto simp: ring_wf_def)
  moreover have "unat (tail s') = Suc ?t" using assms(3) unat_Suc [of "tail s"] s' by simp
  ultimately show ?thesis
    using ring_put [OF wf(1), of e] assms(2) wf(2) by (auto simp: contents_def ok_def)
qed

lemma put_overwrites:
  assumes "ok s" and "length (contents s) = period s" and "unat (tail s) + 1 < 2 ^ 64"
  shows "\<exists>s'. put s e = Some s' \<and> contents s' = e # tl (contents s) @ [e]"
proof -
  let ?h = "unat (head s)" and ?t = "unat (tail s)"
  note wf = okD [OF assms(1)]
  then obtain s' where s': "put s e = Some s'" "slots s' = (slots s)[?t mod period s := e]" "period s' = period s"
      "head s' = head s" "tail s' = tail s + 1"
    using put_law [of s e] by (auto simp: ring_wf_def)
  moreover have "unat (tail s') = Suc ?t" using assms(3) unat_Suc [of "tail s"] s' by simp
  moreover have "?t = Suc ?h + period s" using assms(2) wf by (auto simp: contents_def ring_wf_def)
  ultimately show ?thesis
    using ring_overwrite [OF wf(1), of e] by (auto simp: contents_def)
qed

lemma pop_contents:
  assumes "ok s" and "contents s = e # es"
  shows "ok (pop s)" and "contents (pop s) = es" and "slots s ! (unat (head s + 1) mod period s) = e"
proof -
  let ?h = "unat (head s)" and ?t = "unat (tail s)"
  note wf = okD [OF assms(1)]
  show "ok (pop s)" "contents (pop s) = es"
    "slots s ! (unat (head s + 1) mod period s) = e"
    using ring_pop [OF wf(1)] assms(2) wf(2,3) by (auto simp: contents_def ok_def pop_law)
qed

end

end
