(* ===== verification/Circ_List.thy ===== *)
theory Circ_List
  imports Prelude
begin

text \<open>
  Circular doubly linked lists on the C heap. The memory pool chains its free blocks, and the
  service discovery its endpoints, in such lists; a list is seen through the two maps that give
  the next and the previous address of an allocated node. The interfaces \<open>circ_link\<close> and \<open>circ_heap\<close> state what
  a component's link and unlink operations do to those maps, and the facts about whole lists are
  proved once from it.
\<close>

section \<open>Segments and rings\<close>

text \<open>
  \<open>seg nx pv a xs b\<close>: following \<open>nx\<close> from \<open>a\<close> visits exactly \<open>xs\<close> and then \<open>b\<close>, and \<open>pv\<close>
  leads back. A ring is a segment from its first node to that node again, with no repetition.
\<close>

primrec seg :: "(addr \<Rightarrow> addr option) \<Rightarrow> (addr \<Rightarrow> addr option) \<Rightarrow> addr \<Rightarrow> addr list \<Rightarrow> addr \<Rightarrow> bool" where
  "seg nx pv a [] b \<longleftrightarrow> nx a = Some b \<and> pv b = Some a"
| "seg nx pv a (x # xs) b \<longleftrightarrow> nx a = Some x \<and> pv x = Some a \<and> seg nx pv x xs b"

fun ring :: "(addr \<Rightarrow> addr option) \<Rightarrow> (addr \<Rightarrow> addr option) \<Rightarrow> addr list \<Rightarrow> bool" where
  "ring nx pv [] \<longleftrightarrow> False"
| "ring nx pv (p # ps) \<longleftrightarrow> seg nx pv p ps p \<and> distinct (p # ps)"

lemma seg_append:
  "seg nx pv a (xs @ x # ys) b \<longleftrightarrow> seg nx pv a xs x \<and> seg nx pv x ys b"
  by (induction xs arbitrary: a) auto

lemma seg_cong:
  assumes "\<And>q. q \<in> insert a (set xs) \<Longrightarrow> nx' q = nx q"
    and "\<And>q. q \<in> insert b (set xs) \<Longrightarrow> pv' q = pv q"
  shows "seg nx' pv' a xs b \<longleftrightarrow> seg nx pv a xs b"
  using assms by (induction xs arbitrary: a) auto

lemma seg_nodes: "seg nx pv a xs b \<Longrightarrow> q \<in> insert a (set xs) \<Longrightarrow> nx q \<noteq> None"
  by (induction xs arbitrary: a) auto

lemma seg_nodes_prev: "seg nx pv a xs b \<Longrightarrow> q \<in> insert b (set xs) \<Longrightarrow> pv q \<noteq> None"
  by (induction xs arbitrary: a) auto

lemma ring_nodes: "ring nx pv ps \<Longrightarrow> q \<in> set ps \<Longrightarrow> nx q \<noteq> None \<and> pv q \<noteq> None"
  by (cases ps) (auto dest: seg_nodes seg_nodes_prev)

lemma ring_distinct: "ring nx pv ps \<Longrightarrow> distinct ps"
  by (cases ps) auto

lemma ring_cong:
  assumes "\<And>q. q \<in> set ps \<Longrightarrow> nx' q = nx q" and "\<And>q. q \<in> set ps \<Longrightarrow> pv' q = pv q"
  shows "ring nx' pv' ps \<longleftrightarrow> ring nx pv ps"
  using assms seg_cong [of _ _ nx' nx _ pv' pv] by (cases ps) auto

lemma ring_frame [ring_intros]:
  assumes "ring nx pv ps" and "\<And>q. q \<in> set ps \<Longrightarrow> nx' q = nx q"
    and "\<And>q. q \<in> set ps \<Longrightarrow> pv' q = pv q"
  shows "ring nx' pv' ps"
  using assms ring_cong by blast

lemma ring_single: "ring nx pv [p] \<longleftrightarrow> nx p = Some p \<and> pv p = Some p"
  by simp

lemma ring_next: "ring nx pv (p # q # qs) \<Longrightarrow> nx p = Some q \<and> q \<noteq> p"
  by auto

lemma ring_prev_last:
  assumes "ring nx pv (p # q # qs)"
  shows "pv p = Some (last (q # qs))"
proof (cases "q # qs" rule: rev_cases)
  case (snoc ys y)
  then show ?thesis using assms by (simp add: seg_append del: seg.simps(2))
qed simp

text \<open>A ring can be entered at any of its nodes.\<close>

lemma ring_rotate: "ring nx pv (p # x # xs) \<longleftrightarrow> ring nx pv (x # xs @ [p])"
  by (auto simp: seg_append)

lemma ring_rotate_at: "ring nx pv (xs @ p # ps) \<longleftrightarrow> ring nx pv (p # ps @ xs)"
proof (induction xs arbitrary: p ps rule: rev_induct)
  case (snoc x xs)
  have "ring nx pv ((xs @ [x]) @ p # ps) \<longleftrightarrow> ring nx pv (x # (p # ps) @ xs)" using snoc.IH [of x "p # ps"] by simp
  also have "\<dots> \<longleftrightarrow> ring nx pv (p # (ps @ xs) @ [x])" using ring_rotate [of nx pv x p "ps @ xs"] by simp
  finally show ?case by simp
qed simp

section \<open>Linking and unlinking a node\<close>

lemma ring_link:
  assumes "ring nx pv (p # ps)" and "n \<notin> set (p # ps)" and "nx p = Some b"
  shows "ring (nx(n \<mapsto> b, p \<mapsto> n)) (pv(n \<mapsto> p, b \<mapsto> n)) (p # n # ps)"
proof (cases ps)
  case Nil
  with assms show ?thesis by auto
next
  case (Cons x xs)
  with assms have b: "b = x" and s: "seg nx pv x xs p" and d: "distinct (p # x # xs)"
    and n: "n \<noteq> p" "n \<noteq> x" "n \<notin> set xs"
    by simp_all
  have "seg (nx(n \<mapsto> x, p \<mapsto> n)) (pv(n \<mapsto> p, x \<mapsto> n)) x xs p"
    using s seg_cong [of x xs "nx(n \<mapsto> x, p \<mapsto> n)" nx p "pv(n \<mapsto> p, x \<mapsto> n)" pv] d n
    by fastforce
  with d n b Cons show ?thesis by simp
qed

lemma ring_unlink_head:
  assumes "ring nx pv (p # q # qs)" and "pv p = Some a"
  shows "ring (nx(a \<mapsto> q)) (pv(q \<mapsto> a)) (q # qs)"
proof -
  have a: "a = last (q # qs)" using assms(2) ring_prev_last [OF assms(1)] by simp
  show ?thesis
  proof (cases qs rule: rev_cases)
    case Nil
    with a show ?thesis by simp
  next
    case (snoc ys y)
    with a have ay: "a = y" by simp
    from assms(1) snoc have s: "seg nx pv q ys y" and d: "distinct (q # ys @ [y])"
      by (auto simp: seg_append)
    have "seg (nx(a \<mapsto> q)) (pv(q \<mapsto> a)) q ys y \<longleftrightarrow> seg nx pv q ys y"
      by (rule seg_cong) (use d ay in auto)
    with s d ay snoc show ?thesis by (auto simp: seg_append)
  qed
qed

section \<open>The interface of a component's list operations\<close>

text \<open>Components that only insert nodes provide \<open>circ_link\<close>, those that also take nodes out \<open>circ_heap\<close>.\<close>

locale circ_link =
  fixes nx pv :: "'h \<Rightarrow> addr \<Rightarrow> addr option"
    and link :: "'h \<Rightarrow> addr \<Rightarrow> addr \<Rightarrow> 'h option"
  assumes link_maps:
    "nx h a = Some b \<Longrightarrow> pv h b \<noteq> None \<Longrightarrow> nx h n \<noteq> None \<Longrightarrow> n \<noteq> a \<Longrightarrow> n \<noteq> b \<Longrightarrow> a \<noteq> NULL \<Longrightarrow> n \<noteq> NULL \<Longrightarrow>
      \<exists>h'. link h a n = Some h' \<and> nx h' = (nx h)(n \<mapsto> b, a \<mapsto> n) \<and> pv h' = (pv h)(n \<mapsto> a, b \<mapsto> n)"
begin

lemma link_ring:
  assumes "ring (nx h) (pv h) (p # ps)" and "n \<notin> set (p # ps)" and "nx h n \<noteq> None"
    and "p \<noteq> NULL" and "n \<noteq> NULL"
  shows "\<exists>h'. link h p n = Some h' \<and> ring (nx h') (pv h') (p # n # ps) \<and>
    (\<forall>q. q \<notin> set (p # n # ps) \<longrightarrow> nx h' q = nx h q \<and> pv h' q = pv h q)"
proof -
  obtain b where b: "nx h p = Some b" "b \<in> set (p # ps)"
    using assms(1) by (cases ps) auto
  then have "pv h b \<noteq> None" using ring_nodes [OF assms(1)] by blast
  with b assms link_maps [of h p b n] obtain h' where
    h': "link h p n = Some h'" "nx h' = (nx h)(n \<mapsto> b, p \<mapsto> n)" "pv h' = (pv h)(n \<mapsto> p, b \<mapsto> n)"
    by auto
  moreover have "ring (nx h') (pv h') (p # n # ps)"
    unfolding h'(2,3) by (rule ring_link [OF assms(1,2) b(1)])
  ultimately show ?thesis using b by auto
qed

text \<open>Linking behind any node of the ring.\<close>

lemma link_ring_at:
  assumes "ring (nx h) (pv h) (xs @ p # ps)" and "n \<notin> set (xs @ p # ps)" and "nx h n \<noteq> None"
    and "p \<noteq> NULL" and "n \<noteq> NULL"
  shows "\<exists>h'. link h p n = Some h' \<and> ring (nx h') (pv h') (xs @ p # n # ps) \<and>
    (\<forall>q. q \<notin> set (xs @ p # n # ps) \<longrightarrow> nx h' q = nx h q \<and> pv h' q = pv h q)"
proof -
  have "ring (nx h) (pv h) (p # ps @ xs)" using assms(1) ring_rotate_at [of "nx h" "pv h" xs p ps] by simp
  from link_ring [OF this _ assms(3-5)] assms(2) obtain h' where h': "link h p n = Some h'" "ring (nx h') (pv h') (p # n # ps @ xs)"
      "\<forall>q. q \<notin> set (p # n # ps @ xs) \<longrightarrow> nx h' q = nx h q \<and> pv h' q = pv h q"
    by auto
  moreover have "ring (nx h') (pv h') (xs @ p # n # ps)" using h'(2) ring_rotate_at [of "nx h'" "pv h'" xs p "n # ps"] by simp
  ultimately show ?thesis by auto
qed

end

locale circ_heap = circ_link +
  fixes unlink :: "'h \<Rightarrow> addr \<Rightarrow> 'h option"
  assumes unlink_maps:
    "nx h x = Some b \<Longrightarrow> pv h x = Some a \<Longrightarrow> b \<noteq> x \<Longrightarrow> nx h a \<noteq> None \<Longrightarrow> pv h b \<noteq> None \<Longrightarrow>
      \<exists>h'. unlink h x = Some h' \<and> nx h' = (nx h)(a \<mapsto> b) \<and> pv h' = (pv h)(b \<mapsto> a)"
begin

lemma unlink_ring:
  assumes "ring (nx h) (pv h) (p # q # qs)"
  shows "\<exists>h'. unlink h p = Some h' \<and> ring (nx h') (pv h') (q # qs) \<and>
    (\<forall>x. x \<notin> set (q # qs) \<longrightarrow> nx h' x = nx h x \<and> pv h' x = pv h x)"
proof -
  have n: "nx h p = Some q" "q \<noteq> p" using ring_next [OF assms] by auto
  have a: "pv h p = Some (last (q # qs))" using ring_prev_last [OF assms] .
  have l: "last (q # qs) \<in> set (q # qs)" by (rule last_in_set) simp
  then have "nx h (last (q # qs)) \<noteq> None" "pv h q \<noteq> None"
    using ring_nodes [OF assms] by auto
  then obtain h' where h': "unlink h p = Some h'" "nx h' = (nx h)(last (q # qs) \<mapsto> q)"
      "pv h' = (pv h)(q \<mapsto> last (q # qs))"
    using unlink_maps [OF n(1) a n(2)] by blast
  moreover have "ring (nx h') (pv h') (q # qs)"
    unfolding h'(2,3) by (rule ring_unlink_head [OF assms a])
  ultimately show ?thesis using l by auto
qed

end

end
