(* ===== verification/Mmpool.thy ===== *)
theory Mmpool
  imports Circ_List
begin

unbundle bit_operations_syntax

text \<open>
  The memory pool of \<^verbatim>\<open>src/com/mmpool.c\<close> and \<^verbatim>\<open>inc/com/mmpool.h\<close>. A pool keeps, for each size class
  \<open>1..10\<close>, a circular doubly linked list of free blocks. Blocks live on a heap shared by all pools;
  the heap is the map \<open>cells\<close> from addresses to block headers together with the number of bytes
  \<open>malloc\<close> gave for each address. An operation returns \<open>None\<close> when the code's behaviour is
  undefined (a header that is not allocated, an uninitialised array cell, a division by zero).
  The operations change the pool under its mutex and are one step of its state each; only the tests of \<open>mmpl_rlsmem\<close> that
  look at the released block alone (in use, its size class) stand before the lock.
\<close>

section \<open>Data\<close>

abbreviation (input) MMPL_MAX_INDEX :: nat where "MMPL_MAX_INDEX \<equiv> 10"
abbreviation (input) MMPL_OLDEST_RANGE :: nat where "MMPL_OLDEST_RANGE \<equiv> 3"
abbreviation (input) MMPL_MAX_FREE_INDEX_DEFAULT :: u32 where "MMPL_MAX_FREE_INDEX_DEFAULT \<equiv> 200"
abbreviation (input) MMPL_BOUNDARY_DEFAULT :: u32 where "MMPL_BOUNDARY_DEFAULT \<equiv> 2048"

text \<open>\<open>sizeof(struct mm_node)\<close> on LP64: 4 + 4 (padding) + 8 + 8 + 4 + 4 (padding).\<close>

abbreviation (input) SIZEOF_MM_NODE :: nat where "SIZEOF_MM_NODE \<equiv> 32"

record mm_node =
  mn_use_flg :: s32
  mn_next :: addr
  mn_pre :: addr
  mn_index :: u32

record mm_mem =
  cells :: "addr \<Rightarrow> mm_node option"
  msize :: "addr \<Rightarrow> nat"

text \<open>The \<open>use_head\<close> node is embedded in the pool structure: its cell is at the pool's address.\<close>

record mm_pool_s =
  mp_max_free_index :: u32
  mp_boundary :: u32
  mp_current_free_index :: u32
  mp_get_cnt :: u64
  mp_latest_get_cnt :: "u64 list"
  mp_use_head :: addr
  mp_free :: "addr list"
  mp_free_size :: "u32 list"

record mmpl_opt =
  mo_boundary :: u32
  mo_max_free_index :: u32

section \<open>Fields of a block header\<close>

definition mn_upd :: "mm_mem \<Rightarrow> addr \<Rightarrow> (mm_node \<Rightarrow> mm_node) \<Rightarrow> mm_mem option" where
  "mn_upd m p f = (case cells m p of None \<Rightarrow> None | Some n \<Rightarrow> Some (m\<lparr>cells := (cells m)(p \<mapsto> f n)\<rparr>))"

abbreviation set_next :: "mm_mem \<Rightarrow> addr \<Rightarrow> addr \<Rightarrow> mm_mem option" where
  "set_next m p v \<equiv> mn_upd m p (mn_next_update (\<lambda>_. v))"

abbreviation set_pre :: "mm_mem \<Rightarrow> addr \<Rightarrow> addr \<Rightarrow> mm_mem option" where
  "set_pre m p v \<equiv> mn_upd m p (mn_pre_update (\<lambda>_. v))"

abbreviation set_use_flg :: "mm_mem \<Rightarrow> addr \<Rightarrow> s32 \<Rightarrow> mm_mem option" where
  "set_use_flg m p v \<equiv> mn_upd m p (mn_use_flg_update (\<lambda>_. v))"

text \<open>\<open>malloc\<close> gave the address \<open>a\<close>; the header's contents are overwritten before they are read.\<close>

definition malloc_at :: "mm_mem \<Rightarrow> addr \<Rightarrow> nat \<Rightarrow> mm_mem" where
  "malloc_at m a sz = m\<lparr>
     cells := (cells m)(a \<mapsto> \<lparr>mn_use_flg = 0, mn_next = NULL, mn_pre = NULL, mn_index = 0\<rparr>),
     msize := (msize m)(a := sz)\<rparr>"

definition c_free :: "mm_mem \<Rightarrow> addr \<Rightarrow> mm_mem option" where
  "c_free m p = (case cells m p of None \<Rightarrow> None | Some _ \<Rightarrow> Some (m\<lparr>cells := (cells m)(p := None)\<rparr>))"

section \<open>List operations\<close>

definition mmpl_list_insert :: "mm_mem \<Rightarrow> addr \<Rightarrow> addr \<Rightarrow> (mm_mem \<times> int) option" where
  "mmpl_list_insert m p_pre_n p_insert_n =
     (if p_pre_n = NULL \<or> p_insert_n = NULL then Some (m, - 1)
      else do {
        pre_n \<leftarrow> cells m p_pre_n;
        m1 \<leftarrow> set_next m p_insert_n (mn_next pre_n);
        m2 \<leftarrow> set_pre m1 p_insert_n p_pre_n;
        pre_n2 \<leftarrow> cells m2 p_pre_n;
        m3 \<leftarrow> set_pre m2 (mn_next pre_n2) p_insert_n;
        m4 \<leftarrow> set_next m3 p_pre_n p_insert_n;
        Some (m4, 1)
      })"

definition mmpl_list_remove :: "mm_mem \<Rightarrow> addr \<Rightarrow> (mm_mem \<times> int) option" where
  "mmpl_list_remove m p_rm_node = do {
     n \<leftarrow> cells m p_rm_node;
     if mn_next n = p_rm_node then Some (m, - 1)
     else do {
       m1 \<leftarrow> set_pre m (mn_next n) (mn_pre n);
       n1 \<leftarrow> cells m1 p_rm_node;
       m2 \<leftarrow> set_next m1 (mn_pre n1) (mn_next n1);
       Some (m2, 1)
     }
   }"

section \<open>Creation and destruction\<close>

text \<open>
  \<open>a\<close> is what \<open>malloc\<close> returned; the code does not test it, and \<open>memset\<close> on \<open>NULL\<close> is undefined.
\<close>

definition mmpl_create :: "mm_mem \<Rightarrow> mmpl_opt option \<Rightarrow> addr \<Rightarrow> (mm_mem \<times> mm_pool_s) option" where
  "mmpl_create m popt a =
     (if a = NULL then None
      else Some (
        m\<lparr>cells := (cells m)(a \<mapsto> \<lparr>mn_use_flg = 0, mn_next = a, mn_pre = a, mn_index = 0\<rparr>)\<rparr>,
        \<lparr>mp_max_free_index = (case popt of None \<Rightarrow> MMPL_MAX_FREE_INDEX_DEFAULT | Some p \<Rightarrow> mo_max_free_index p),
         mp_boundary = (case popt of None \<Rightarrow> MMPL_BOUNDARY_DEFAULT | Some p \<Rightarrow> mo_boundary p),
         mp_current_free_index = 0,
         mp_get_cnt = 0,
         mp_latest_get_cnt = replicate (MMPL_MAX_INDEX + 1) 0,
         mp_use_head = a,
         mp_free = replicate (MMPL_MAX_INDEX + 1) NULL,
         mp_free_size = replicate (MMPL_MAX_INDEX + 1) 0\<rparr>))"

text \<open>The loop \<open>while (h->next != h) { p = h->next; remove p; free p; }\<close>.\<close>

partial_function (option) mmpl_drain :: "mm_mem \<Rightarrow> addr \<Rightarrow> mm_mem option" where
  "mmpl_drain m h = do {
     n \<leftarrow> cells m h;
     if mn_next n = h then Some m
     else do {
       mr \<leftarrow> mmpl_list_remove m (mn_next n);
       m' \<leftarrow> c_free (fst mr) (mn_next n);
       mmpl_drain m' h
     }
   }"

fun mmpl_destroy_free :: "mm_mem \<Rightarrow> addr list \<Rightarrow> mm_mem option" where
  "mmpl_destroy_free m [] = Some m"
| "mmpl_destroy_free m (p_free_h # hs) =
     (if p_free_h = NULL then mmpl_destroy_free m hs
      else do {
        m1 \<leftarrow> mmpl_drain m p_free_h;
        m2 \<leftarrow> c_free m1 p_free_h;
        mmpl_destroy_free m2 hs
      })"

definition mmpl_destroy :: "mm_mem \<Rightarrow> mm_pool_s option \<Rightarrow> (mm_mem \<times> int) option" where
  "mmpl_destroy m pool = (case pool of
     None \<Rightarrow> Some (m, - 1)
   | Some P \<Rightarrow> do {
       m1 \<leftarrow> mmpl_drain m (mp_use_head P);
       m2 \<leftarrow> mmpl_destroy_free m1 (tl (mp_free P));
       m3 \<leftarrow> c_free m2 (mp_use_head P);
       Some (m3, 1)
     })"

section \<open>Releasing the size classes that were requested longest ago\<close>

text \<open>The inner loop of the sort: the position of the least \<open>latest_get_cnt\<close> from \<open>i\<close> on.\<close>

definition sort_min_k :: "u64 list \<Rightarrow> nat list \<Rightarrow> nat \<Rightarrow> nat" where
  "sort_min_k lat arr i =
     snd (fold (\<lambda>j (min_getcnt, min_k).
            if lat ! (arr ! j) < min_getcnt then (lat ! (arr ! j), j) else (min_getcnt, min_k))
          [i + 1..<MMPL_MAX_INDEX] (lat ! (arr ! i), i))"

definition sort_swap :: "u64 list \<Rightarrow> nat \<Rightarrow> nat list \<Rightarrow> nat list" where
  "sort_swap lat i arr = (let k = sort_min_k lat arr i in arr[i := arr ! k, k := arr ! i])"

definition inc_getcnt_array :: "u64 list \<Rightarrow> nat list" where
  "inc_getcnt_array lat = fold (sort_swap lat) [0..<MMPL_MAX_INDEX] (map Suc [0..<MMPL_MAX_INDEX])"

text \<open>The inner \<open>while\<close>: the next class, in that order, with a free block; \<open>None\<close> when there is none.\<close>

function pick_scan :: "u32 list \<Rightarrow> nat list \<Rightarrow> nat \<Rightarrow> nat option \<times> nat" where
  "pick_scan fs arr j =
     (if j < MMPL_MAX_INDEX
      then if 0 < fs ! (arr ! j) then (Some (arr ! j), j + 1) else pick_scan fs arr (j + 1)
      else (None, j))"
  by pat_completeness auto
termination
  by (relation "measure (\<lambda>(fs, arr, j). MMPL_MAX_INDEX - j)") auto

declare pick_scan.simps [simp del]

text \<open>
  One round \<open>i > 0\<close> of the \<open>for\<close> loop. A cell \<open>None\<close> of the array is one the code has not written:
  when the scan runs to the end without a hit, \<open>oldest_index_array[i]\<close> stays uninitialised.
\<close>

definition pick_step :: "u32 list \<Rightarrow> nat list \<Rightarrow> nat \<Rightarrow> nat \<times> nat option list \<Rightarrow> nat \<times> nat option list" where
  "pick_step fs arr i s = (case s of (j, old) \<Rightarrow>
     if j = MMPL_MAX_INDEX then (j, old @ [old ! (i - 1)])
     else (case pick_scan fs arr j of (r, j') \<Rightarrow> (j', old @ [r])))"

definition oldest_index_array :: "u32 list \<Rightarrow> nat list \<Rightarrow> nat option list option" where
  "oldest_index_array fs arr = (case pick_scan fs arr 0 of
     (None, _) \<Rightarrow> None
   | (Some x, j) \<Rightarrow> Some (snd (fold (pick_step fs arr) [1..<MMPL_OLDEST_RANGE] (j, [Some x]))))"

text \<open>One round of the innermost release loop.\<close>

definition rls_head :: "nat \<Rightarrow> mm_mem \<times> mm_pool_s \<Rightarrow> (mm_mem \<times> mm_pool_s) option" where
  "rls_head index s = (case s of (m, P) \<Rightarrow> do {
     p \<leftarrow> nth_opt (mp_free P) index;
     n \<leftarrow> cells m p;
     if mn_next n = p then do {
       m1 \<leftarrow> c_free m p;
       Some (m1, P\<lparr>mp_free := (mp_free P)[index := NULL],
                  mp_free_size := (mp_free_size P)[index := 0],
                  mp_current_free_index := mp_current_free_index P - of_nat index\<rparr>)
     } else do {
       mr \<leftarrow> mmpl_list_remove m p;
       m1 \<leftarrow> c_free (fst mr) p;
       Some (m1, P\<lparr>mp_free := (mp_free P)[index := mn_next n],
                  mp_free_size := (mp_free_size P)[index := mp_free_size P ! index - of_nat index],
                  mp_current_free_index := mp_current_free_index P - of_nat index\<rparr>)
     }
   })"

fun rls_heads :: "nat \<Rightarrow> nat \<Rightarrow> mm_mem \<times> mm_pool_s \<Rightarrow> (mm_mem \<times> mm_pool_s) option" where
  "rls_heads 0 index s = Some s"
| "rls_heads (Suc k) index s = do { s' \<leftarrow> rls_head index s; rls_heads k index s' }"

fun rls_classes :: "nat option list \<Rightarrow> mm_mem \<times> mm_pool_s \<Rightarrow> (mm_mem \<times> mm_pool_s) option" where
  "rls_classes [] s = Some s"
| "rls_classes (None # is) s = None"
| "rls_classes (Some index # is) s = do {
     fsz \<leftarrow> nth_opt (mp_free_size (snd s)) index;
     if index = 0 then None
     else (let free_node_num = fsz div of_nat index in
       if free_node_num = 0 then rls_classes is s
       else do {
         s' \<leftarrow> rls_heads (unat (free_node_num div 2 + 1)) index s;
         rls_classes is s'
       })
   }"

definition mmpl_rls_oldestfree :: "mm_mem \<Rightarrow> mm_pool_s \<Rightarrow> (mm_mem \<times> mm_pool_s \<times> int) option" where
  "mmpl_rls_oldestfree m P =
     (case oldest_index_array (mp_free_size P) (inc_getcnt_array (mp_latest_get_cnt P)) of
        None \<Rightarrow> Some (m, P, - 1)
      | Some old \<Rightarrow> do { (m', P') \<leftarrow> rls_classes old (m, P); Some (m', P', 1) })"

section \<open>Getting and releasing memory\<close>

definition mmpl_align :: "u32 \<Rightarrow> u32 \<Rightarrow> u32" where
  "mmpl_align sz bnd = (sz + (bnd - 1)) AND NOT (bnd - 1)"

text \<open>The size class of a request: 0 for a block taken straight from the system.\<close>

definition mmpl_index :: "u32 \<Rightarrow> u32 \<Rightarrow> nat" where
  "mmpl_index sz bnd =
     (let index = mmpl_align sz bnd div bnd in if index > of_nat MMPL_MAX_INDEX then 0 else unat index)"

definition getmem_finish :: "mm_mem \<Rightarrow> mm_pool_s \<Rightarrow> nat \<Rightarrow> addr \<Rightarrow> (mm_mem \<times> mm_pool_s \<times> addr) option" where
  "getmem_finish m P index p = do {
     m1 \<leftarrow> set_use_flg m p 1;
     Some (m1, P\<lparr>mp_get_cnt := mp_get_cnt P + 1,
                mp_latest_get_cnt := (mp_latest_get_cnt P)[index := mp_get_cnt P + 1]\<rparr>,
           p + SIZEOF_MM_NODE)
   }"

text \<open>\<open>a\<close> is what \<open>malloc\<close> returns should the code call it (\<open>NULL\<close> for a failure).\<close>

definition mmpl_getmem :: "mm_mem \<Rightarrow> mm_pool_s \<Rightarrow> u32 \<Rightarrow> addr \<Rightarrow> (mm_mem \<times> mm_pool_s \<times> addr) option" where
  "mmpl_getmem m P sz a =
     (if mp_boundary P = 0 then None
      else (let align_size = mmpl_align sz (mp_boundary P); index = mmpl_index sz (mp_boundary P) in do {
        p \<leftarrow> nth_opt (mp_free P) index;
        if p = NULL \<or> index = 0 then
          (if a = NULL then Some (m, P, NULL)
           else do {
             let m1 = malloc_at m a (unat align_size + SIZEOF_MM_NODE);
             m2 \<leftarrow> set_next m1 a a;
             m3 \<leftarrow> set_pre m2 a a;
             m4 \<leftarrow> mn_upd m3 a (mn_index_update (\<lambda>_. of_nat index));
             getmem_finish m4 P index a
           })
        else do {
          n \<leftarrow> cells m p;
          if mn_next n = p then
            getmem_finish m (P\<lparr>mp_free := (mp_free P)[index := NULL],
                               mp_free_size := (mp_free_size P)[index := 0],
                               mp_current_free_index := mp_current_free_index P - of_nat index\<rparr>) index p
          else do {
            mr \<leftarrow> mmpl_list_remove m p;
            getmem_finish (fst mr) (P\<lparr>mp_free := (mp_free P)[index := mn_next n],
                               mp_free_size := (mp_free_size P)[index := mp_free_size P ! index - of_nat index],
                               mp_current_free_index := mp_current_free_index P - of_nat index\<rparr>) index p
          }
        }
      }))"

definition mmpl_rlsmem :: "mm_mem \<Rightarrow> mm_pool_s \<Rightarrow> addr \<Rightarrow> (mm_mem \<times> mm_pool_s \<times> int) option" where
  "mmpl_rlsmem m P rls_mmaddr = (let p = rls_mmaddr - SIZEOF_MM_NODE in do {
     n \<leftarrow> cells m p;
     if mn_use_flg n = 0 then Some (m, P, - 1)
     else (let index = mn_index n; i = unat index in do {
       m1 \<leftarrow> set_use_flg m p 0;
       if index = 0 then do { m2 \<leftarrow> c_free m1 p; Some (m2, P, 1) }
       else if mp_current_free_index P + index > mp_max_free_index P then do {
         m2 \<leftarrow> c_free m1 p;
         (m3, P3, r) \<leftarrow> mmpl_rls_oldestfree m2 P;
         if r < 0 then Some (m3, P3, - 2) else Some (m3, P3, 1)
       } else do {
         q \<leftarrow> nth_opt (mp_free P) i;
         mf \<leftarrow> (if q = NULL then do {
                  m2 \<leftarrow> set_next m1 p p;
                  m3 \<leftarrow> set_pre m2 p p;
                  Some (m3, (mp_free P)[i := p])
                } else do {
                  mr \<leftarrow> mmpl_list_insert m1 q p;
                  Some (fst mr, mp_free P)
                });
         Some (fst mf, P\<lparr>mp_free := snd mf,
                        mp_free_size := (mp_free_size P)[i := mp_free_size P ! i + index],
                        mp_current_free_index := mp_current_free_index P + index\<rparr>, 1)
       }
     })
   })"

end
