(* ===== verification/Tdpool.thy ===== *)
theory Tdpool
  imports Ring_Queue Mmpool
begin

text \<open>
  The thread pool of \<^verbatim>\<open>src/com/tdpool.c\<close> and \<^verbatim>\<open>inc/com/tdpool.h\<close>. Callers put a function and its argument
  into a ring queue under a spin lock and then post the semaphore \<open>call_wait_n\<close>; a worker waits
  for the semaphore, takes the next index with an atomic increment of \<open>call_queue_head\<close> and reads
  the slot outside every lock. The operations come first, each at the grain at which the code is
  atomic; the step relation \<open>tdpl_step\<close> interleaves them.
\<close>

section \<open>Data\<close>

text \<open>Function pointers and arguments are addresses; the pool does not look at what they point to.\<close>

record tdpl_call_node =
  cn_arg :: addr
  cn_call_func :: addr

text \<open>A worker's handle is named by its index in \<open>td_handle_array\<close>. A semaphore is its value.\<close>

record tdpl_s =
  tp_thread_num :: s32
  tp_max_wait_n :: s32
  tp_avali_queue :: "nat list"
  tp_call_queue :: "tdpl_call_node list"
  tp_call_queue_period :: s32
  tp_call_queue_head :: u64
  tp_call_queue_tail :: u64
  tp_avali_queue_period :: s32
  tp_avali_queue_head :: u64
  tp_avali_queue_tail :: u64
  tp_ready_n :: nat
  tp_call_wait_n :: nat

section \<open>Creation\<close>

text \<open>
  \<open>tdpl_create\<close> returns the pool or \<open>NULL\<close>, or it waits forever for a worker that never starts.
\<close>

datatype tdpl_created = Pool tdpl_s | Pool_NULL | Pool_blocks

text \<open>
  The loop that starts the workers \<open>is\<close>; \<open>rc i\<close> is what \<open>pthread_create\<close> returns for worker \<open>i\<close>
  (0, or a positive error number). A worker that runs posts \<open>ready_n\<close> once. The result says whether
  the loop reached its end.
\<close>

fun create_workers :: "(nat \<Rightarrow> int) \<Rightarrow> nat list \<Rightarrow> tdpl_s \<Rightarrow> (tdpl_s \<times> bool) option" where
  "create_workers rc [] s = Some (s, True)"
| "create_workers rc (i # is) s = do {
     k \<leftarrow> ring_slot (tp_avali_queue_tail s) (tp_avali_queue_period s);
     q \<leftarrow> upd_opt (tp_avali_queue s) k i;
     let s1 = s\<lparr>tp_avali_queue := q, tp_avali_queue_tail := tp_avali_queue_tail s + 1\<rparr>;
     if rc i = - 1 then Some (s1, False)
     else create_workers rc is (if rc i = 0 then s1\<lparr>tp_ready_n := tp_ready_n s1 + 1\<rparr> else s1)
   }"

text \<open>
  What the system gives to a creation: the results of the four calls of \<open>malloc\<close>, the contents of
  the two arrays as \<open>malloc\<close> gives them, and the results of \<open>pthread_create\<close>.
\<close>

record tdpl_env =
  te_s :: addr
  te_handles :: addr
  te_avali :: addr
  te_call :: addr
  te_raw_avali :: "nat \<Rightarrow> nat"
  te_raw_call :: "nat \<Rightarrow> tdpl_call_node"
  te_rc :: "nat \<Rightarrow> int"

text \<open>
  The code tests the first two results of \<open>malloc\<close> only; a null \<open>avali_queue\<close> is dereferenced for the
  first worker, and a null \<open>call_queue\<close> with the first call.
\<close>

definition tdpl_create :: "tdpl_env \<Rightarrow> s32 \<Rightarrow> s32 \<Rightarrow> tdpl_created option" where
  "tdpl_create e thread_num max_wait_n =
     (if te_s e = NULL then Some Pool_NULL
      else if te_handles e = NULL then Some Pool_NULL
      else if sint thread_num = 2 ^ 31 - 1 \<or> sint max_wait_n = 2 ^ 31 - 1 then None
      else do {
        (s, started) \<leftarrow> create_workers (te_rc e) [0..<nat (sint thread_num)]
          \<lparr>tp_thread_num = thread_num, tp_max_wait_n = max_wait_n,
           tp_avali_queue = (if te_avali e = NULL then [] else map (te_raw_avali e) [0..<nat (sint (thread_num + 1))]),
           tp_call_queue = (if te_call e = NULL then [] else map (te_raw_call e) [0..<nat (sint (max_wait_n + 1))]),
           tp_call_queue_period = max_wait_n + 1, tp_call_queue_head = 0, tp_call_queue_tail = 1,
           tp_avali_queue_period = thread_num + 1, tp_avali_queue_head = 0, tp_avali_queue_tail = 1,
           tp_ready_n = 0, tp_call_wait_n = 0\<rparr>;
        if \<not> started then Some Pool_NULL
        else if tp_ready_n s < nat (sint thread_num) then Some Pool_blocks
        else Some (Pool (s\<lparr>tp_ready_n := tp_ready_n s - nat (sint thread_num)\<rparr>))
      })"

section \<open>Submitting a call\<close>

text \<open>The section under \<open>call_queue_write_spinlock\<close>.\<close>

definition tdpl_enqueue :: "tdpl_s \<Rightarrow> tdpl_call_node \<Rightarrow> (tdpl_s \<times> int) option" where
  "tdpl_enqueue pts n =
     (if tp_call_queue_head pts = tp_call_queue_tail pts then Some (pts, - 2)
      else do {
        k \<leftarrow> ring_slot (tp_call_queue_tail pts) (tp_call_queue_period pts);
        q \<leftarrow> upd_opt (tp_call_queue pts) k n;
        Some (pts\<lparr>tp_call_queue := q, tp_call_queue_tail := tp_call_queue_tail pts + 1\<rparr>, 1)
      })"

definition tdpl_post :: "tdpl_s \<Rightarrow> tdpl_s" where
  "tdpl_post pts = pts\<lparr>tp_call_wait_n := tp_call_wait_n pts + 1\<rparr>"

definition tdpl_call_func :: "tdpl_s \<Rightarrow> addr \<Rightarrow> addr \<Rightarrow> (tdpl_s \<times> int) option" where
  "tdpl_call_func pts call_func arg =
     (if call_func = NULL then Some (pts, - 1)
      else do {
        (pts1, r) \<leftarrow> tdpl_enqueue pts \<lparr>cn_arg = arg, cn_call_func = call_func\<rparr>;
        if r < 0 then Some (pts1, r) else Some (tdpl_post pts1, 1)
      })"

section \<open>A worker\<close>

text \<open>Each worker has a memory pool of its own, with blocks of 1 KiB.\<close>

definition worker_mmpl :: "mm_mem \<Rightarrow> addr \<Rightarrow> (mm_mem \<times> mm_pool_s) option" where
  "worker_mmpl m a = mmpl_create m (Some \<lparr>mo_boundary = 1024, mo_max_free_index = 512000\<rparr>) a"

definition worker_claim :: "tdpl_s \<Rightarrow> tdpl_s \<times> u64" where
  "worker_claim pts =
     (pts\<lparr>tp_call_queue_head := tp_call_queue_head pts + 1\<rparr>, tp_call_queue_head pts + 1)"

definition worker_read :: "tdpl_s \<Rightarrow> u64 \<Rightarrow> tdpl_call_node option" where
  "worker_read pts i = do {
     k \<leftarrow> ring_slot i (tp_call_queue_period pts);
     nth_opt (tp_call_queue pts) k
   }"

text \<open>
  The loop of a worker between two calls, when no other thread runs in between; \<open>None\<close> also when
  the semaphore is zero and the worker would wait.
\<close>

definition worker_take :: "tdpl_s \<Rightarrow> (tdpl_s \<times> tdpl_call_node) option" where
  "worker_take pts =
     (if tp_call_wait_n pts = 0 then None
      else do {
        let (pts1, i) = worker_claim (pts\<lparr>tp_call_wait_n := tp_call_wait_n pts - 1\<rparr>);
        n \<leftarrow> worker_read pts1 i;
        Some (pts1, n)
      })"

section \<open>Workers and callers interleaved\<close>

text \<open>
  Where a worker is in its loop: waiting for the semaphore, past it, with an index, with the
  function of the slot read and its argument not yet, and running the call.
\<close>

datatype worker_pc = W_wait | W_granted | W_claimed u64 | W_func u64 addr | W_run tdpl_call_node

text \<open>
  \<open>ts_posting\<close> counts the callers between the unlock and \<open>sem_post\<close>. The last two fields are
  history: the calls in the order of their indices, and the calls that workers have started.
\<close>

record tdpl_sys =
  ts_pool :: tdpl_s
  ts_posting :: nat
  ts_worker :: "nat \<Rightarrow> worker_pc"
  ts_submitted :: "tdpl_call_node list"
  ts_started :: "(nat \<times> tdpl_call_node) list"

inductive tdpl_step :: "nat \<Rightarrow> tdpl_sys \<Rightarrow> tdpl_sys \<Rightarrow> bool" for n where
  submit: "cn_call_func c \<noteq> NULL \<Longrightarrow> tdpl_enqueue (ts_pool s) c = Some (p, 1) \<Longrightarrow>
    tdpl_step n s (s\<lparr>ts_pool := p, ts_posting := ts_posting s + 1, ts_submitted := ts_submitted s @ [c]\<rparr>)"
| post: "ts_posting s = Suc k \<Longrightarrow>
    tdpl_step n s (s\<lparr>ts_pool := tdpl_post (ts_pool s), ts_posting := k\<rparr>)"
| sem_wait: "w < n \<Longrightarrow> ts_worker s w = W_wait \<Longrightarrow> tp_call_wait_n (ts_pool s) = Suc k \<Longrightarrow>
    tdpl_step n s (s\<lparr>ts_pool := (ts_pool s)\<lparr>tp_call_wait_n := k\<rparr>, ts_worker := (ts_worker s)(w := W_granted)\<rparr>)"
| claim: "w < n \<Longrightarrow> ts_worker s w = W_granted \<Longrightarrow> worker_claim (ts_pool s) = (p, i) \<Longrightarrow>
    tdpl_step n s (s\<lparr>ts_pool := p, ts_worker := (ts_worker s)(w := W_claimed i)\<rparr>)"
| read_func: "w < n \<Longrightarrow> ts_worker s w = W_claimed i \<Longrightarrow> worker_read (ts_pool s) i = Some c \<Longrightarrow>
    tdpl_step n s (s\<lparr>ts_worker := (ts_worker s)(w := W_func i (cn_call_func c))\<rparr>)"
| read_arg: "w < n \<Longrightarrow> ts_worker s w = W_func i f \<Longrightarrow> worker_read (ts_pool s) i = Some c \<Longrightarrow>
    d = \<lparr>cn_arg = cn_arg c, cn_call_func = f\<rparr> \<Longrightarrow>
    tdpl_step n s (s\<lparr>ts_worker := (ts_worker s)(w := W_run d), ts_started := ts_started s @ [(unat i, d)]\<rparr>)"
| finish: "w < n \<Longrightarrow> ts_worker s w = W_run c \<Longrightarrow>
    tdpl_step n s (s\<lparr>ts_worker := (ts_worker s)(w := W_wait)\<rparr>)"

inductive_cases tdpl_stepE: "tdpl_step n s s'"

definition tdpl_sys_init :: "tdpl_s \<Rightarrow> tdpl_sys" where
  "tdpl_sys_init p = \<lparr>ts_pool = p, ts_posting = 0, ts_worker = (\<lambda>_. W_wait), ts_submitted = [], ts_started = []\<rparr>"

text \<open>The index a worker has claimed and not yet read completely.\<close>

fun pc_index :: "worker_pc \<Rightarrow> nat option" where
  "pc_index (W_claimed i) = Some (unat i)"
| "pc_index (W_func i f) = Some (unat i)"
| "pc_index _ = None"

text \<open>
  Room for one more call: every call not yet read completely is less than \<open>period\<close> indices behind
  the new one, and the counter does not wrap.
\<close>

definition has_room :: "nat \<Rightarrow> tdpl_sys \<Rightarrow> bool" where
  "has_room n s \<longleftrightarrow>
     (let p = ts_pool s; t = unat (tp_call_queue_tail p); per = nat (sint (tp_call_queue_period p)) in
      t + 1 < 2 ^ 64 \<and> t < Suc (unat (tp_call_queue_head p)) + per \<and>
      (\<forall>w < n. case pc_index (ts_worker s w) of None \<Rightarrow> True | Some i \<Rightarrow> t < i + per))"

inductive tdpl_reach :: "nat \<Rightarrow> tdpl_sys \<Rightarrow> bool" for n where
  create: "tdpl_create e tn mx = Some (Pool p) \<Longrightarrow> te_call e \<noteq> NULL \<Longrightarrow> 0 \<le> sint mx \<Longrightarrow>
    n = nat (sint tn) \<Longrightarrow> tdpl_reach n (tdpl_sys_init p)"
| step: "tdpl_reach n s \<Longrightarrow> tdpl_step n s s' \<Longrightarrow> (ts_submitted s' \<noteq> ts_submitted s \<Longrightarrow> has_room n s) \<Longrightarrow> tdpl_reach n s'"

end
