(* ===== verification/Http.thy ===== *)
theory Http
  imports Cstr Io Tdpool
begin

unbundle bit_operations_syntax

text \<open>
  The HTTP server of \<^verbatim>\<open>src/core/http-server.c\<close>: it accepts the consumer's connections, reads each
  request into the buffer of its channel, decodes it in place while it arrives, hands the body to
  the content handler, and sends the response from the same buffer. An index into the buffer that
  is out of range is undefined behaviour, \<open>None\<close>.
\<close>

section \<open>Data\<close>

abbreviation (input) MAX_EPOLL_EVENT_LOOP_NUM :: nat where "MAX_EPOLL_EVENT_LOOP_NUM \<equiv> 64"
abbreviation (input) HTTP_URL_DECODE_BUFSIZE :: nat where "HTTP_URL_DECODE_BUFSIZE \<equiv> 2048"

definition HTTP_SERVER_RESPONSE_OK :: "u8 list" where
  "HTTP_SERVER_RESPONSE_OK = ascii ''HTTP/1.1 200 OK'' @ [0x0D, 0x0A]"

text \<open>\<open>sizeof\<close> on LP64 of \<open>struct hs_channel\<close> and \<open>struct hs_connection_entry\<close>.\<close>

abbreviation (input) SIZEOF_HS_CHANNEL :: nat where "SIZEOF_HS_CHANNEL \<equiv> 136"
abbreviation (input) SIZEOF_CONNECTION_ENTRY :: nat where "SIZEOF_CONNECTION_ENTRY \<equiv> 16"

text \<open>
  A channel lives in a block of a memory pool, with its buffer right behind it. \<open>hc_addr\<close> is the
  address the pool gave, \<open>hc_buffer\<close> is all that the block holds behind the structure: at least
  \<open>hc_buffer_size\<close> bytes, and what the pool's rounding adds. \<open>hc_events\<close> is what epoll has registered
  for the socket. The semaphore \<open>processing_mutex\<close> is initialised and never used.
\<close>

record hs_channel =
  hc_addr :: addr
  hc_socket :: int
  hc_epoll_fd :: int
  hc_is_processing :: int
  hc_is_line :: int
  hc_is_head :: int
  hc_is_body :: int
  hc_is_read_done :: int
  hc_is_key :: int
  hc_is_content_length :: int
  hc_key_start :: int
  hc_value_start :: int
  hc_processing_index :: int
  hc_processing_index_now :: int
  hc_decode_index :: int
  hc_body_size :: int
  hc_body_start :: int
  hc_read_index :: int
  hc_write_index :: int
  hc_write_size :: int
  hc_buffer_size :: int
  hc_buffer :: "u8 list"
  hc_events :: u32

text \<open>
  A content handler gets the channel, the size of the body and the index in the buffer where the
  body begins; it may change the channel and the state \<open>'s\<close> of the program. No handler is \<open>NULL\<close>.
\<close>

type_synonym 's content_handler = "('s \<Rightarrow> hs_channel \<Rightarrow> int \<Rightarrow> int \<Rightarrow> ('s \<times> hs_channel) option) option"

section \<open>Registering events and the initial state of a channel\<close>

definition hs_epoll_mod :: "int \<Rightarrow> hs_channel \<Rightarrow> u32 \<Rightarrow> hs_channel \<times> int" where
  "hs_epoll_mod rc ch events =
     (if rc = - 1 then (ch, - 1) else (ch\<lparr>hc_events := events OR EPOLLET OR EPOLLONESHOT\<rparr>, 1))"

definition hs_init_channel :: "hs_channel \<Rightarrow> hs_channel" where
  "hs_init_channel ch = ch\<lparr>hc_decode_index := 0, hc_is_line := 1, hc_is_head := 1, hc_is_body := 1,
     hc_is_read_done := 0, hc_is_key := 1, hc_is_content_length := 0, hc_body_size := 0,
     hc_key_start := - 1, hc_value_start := - 1, hc_processing_index := - 1, hc_write_index := 0,
     hc_read_index := 0, hc_processing_index_now := - 1, hc_is_processing := 0\<rparr>"

section \<open>Decoding a request\<close>

text \<open>The loop of \<open>hs_tolower\<close> over the string that begins at index \<open>k\<close>.\<close>

definition hs_tolower :: "u8 list \<Rightarrow> nat \<Rightarrow> u8 list option" where
  "hs_tolower buf k = do {
     str \<leftarrow> c_str buf k;
     Some (fold (\<lambda>i b. b[k + i := c_tolower (b ! (k + i))]) [0..<length str] buf)
   }"

text \<open>The zero byte is written behind the last byte received, which may be behind the buffer.\<close>

definition hs_content_handler_thread :: "'s content_handler \<Rightarrow> 's \<Rightarrow> hs_channel \<Rightarrow> ('s \<times> hs_channel) option" where
  "hs_content_handler_thread hdl s ch =
     (if hc_processing_index_now ch + 1 < 0 then None
      else do {
        b \<leftarrow> upd_opt (hc_buffer ch) (nat (hc_processing_index_now ch + 1)) 0;
        (case hdl of None \<Rightarrow> None | Some f \<Rightarrow> f s (ch\<lparr>hc_buffer := b\<rparr>) (hc_body_size ch) (hc_body_start ch))
      })"

text \<open>The request line: at a carriage return the first three bytes decide whether it is a GET.\<close>

definition decode_line :: "'s content_handler \<Rightarrow> 's \<Rightarrow> hs_channel \<Rightarrow> u8 \<Rightarrow> ('s \<times> hs_channel) option" where
  "decode_line hdl s ch c =
     (if c = 0x0D then do {
        b1 \<leftarrow> upd_opt (hc_buffer ch) (nat (hc_decode_index ch)) 0;
        b2 \<leftarrow> upd_opt b1 3 0;
        str \<leftarrow> c_str b2 0;
        if str = ascii ''GET'' then hs_content_handler_thread hdl s (ch\<lparr>hc_buffer := b2\<rparr>)
        else Some (s, ch\<lparr>hc_buffer := b2\<rparr>)
      } else if c = 0x0A then Some (s, ch\<lparr>hc_is_line := 0, hc_key_start := hc_decode_index ch + 1\<rparr>)
      else Some (s, ch))"

definition decode_key :: "hs_channel \<Rightarrow> u8 \<Rightarrow> hs_channel option" where
  "decode_key ch c =
     (if c = 0x3A then do {
        b1 \<leftarrow> upd_opt (hc_buffer ch) (nat (hc_decode_index ch)) 0;
        if hc_key_start ch < 0 then None
        else do {
          b2 \<leftarrow> hs_tolower b1 (nat (hc_key_start ch));
          str \<leftarrow> c_str b2 (nat (hc_key_start ch));
          Some (ch\<lparr>hc_is_key := 0, hc_buffer := b2, hc_value_start := hc_decode_index ch + 1,
            hc_is_content_length := if str = ascii ''content-length'' then 1 else hc_is_content_length ch\<rparr>)
        }
      } else if c = 0x0D then Some ch
      else if c = 0x0A then Some (ch\<lparr>hc_is_head := 0, hc_body_start := hc_decode_index ch + 1\<rparr>)
      else Some ch)"

definition decode_value :: "hs_channel \<Rightarrow> u8 \<Rightarrow> hs_channel option" where
  "decode_value ch c =
     (if c = 0x0D then
        if hc_is_content_length ch = 1 then do {
          b1 \<leftarrow> upd_opt (hc_buffer ch) (nat (hc_decode_index ch)) 0;
          if hc_value_start ch < 0 then None
          else do {
            str \<leftarrow> c_str b1 (nat (hc_value_start ch));
            v \<leftarrow> c_atoi str;
            Some (ch\<lparr>hc_is_content_length := 0, hc_buffer := b1, hc_body_size := v\<rparr>)
          }
        } else Some ch
      else if c = 0x0A then Some (ch\<lparr>hc_is_key := 1, hc_key_start := hc_decode_index ch + 1\<rparr>)
      else Some ch)"

text \<open>The body is not looked at: the loop jumps to the last byte received and counts.\<close>

definition decode_body :: "hs_channel \<Rightarrow> hs_channel" where
  "decode_body ch =
     (let ch1 = ch\<lparr>hc_decode_index := hc_processing_index_now ch\<rparr> in
      if hc_processing_index_now ch1 - hc_body_start ch1 + 1 = hc_body_size ch1
      then ch1\<lparr>hc_is_body := 0, hc_is_read_done := 1\<rparr> else ch1)"

definition decode_char :: "'s content_handler \<Rightarrow> 's \<Rightarrow> hs_channel \<Rightarrow> ('s \<times> hs_channel) option" where
  "decode_char hdl s ch =
     (if hc_decode_index ch < 0 then None
      else do {
        c \<leftarrow> nth_opt (hc_buffer ch) (nat (hc_decode_index ch));
        if hc_is_line ch = 1 then decode_line hdl s ch c
        else if hc_is_head ch = 1 then
          do { ch1 \<leftarrow> (if hc_is_key ch = 1 then decode_key ch c else decode_value ch c); Some (s, ch1) }
        else if hc_is_body ch = 1 then Some (s, decode_body ch)
        else Some (s, ch)
      })"

partial_function (option) decode_loop :: "'s content_handler \<Rightarrow> 's \<Rightarrow> hs_channel \<Rightarrow> ('s \<times> hs_channel) option" where
  "decode_loop hdl s ch =
     (if hc_decode_index ch \<le> hc_processing_index_now ch then do {
        (s1, ch1) \<leftarrow> decode_char hdl s ch;
        decode_loop hdl s1 (ch1\<lparr>hc_decode_index := hc_decode_index ch1 + 1\<rparr>)
      } else Some (s, ch))"

definition hs_decoder :: "'s content_handler \<Rightarrow> 's \<Rightarrow> hs_channel \<Rightarrow> ('s \<times> hs_channel) option" where
  "hs_decoder hdl s ch = do {
     (s1, ch1) \<leftarrow> decode_loop hdl s ch;
     if hc_is_read_done ch1 = 1 then
       (if hdl \<noteq> None then hs_content_handler_thread hdl s1 ch1 else Some (s1, ch1))
     else Some (s1, ch1)
   }"

section \<open>Responding\<close>

text \<open>\<open>sprintf\<close> prints into an array of 32 bytes; sums are those of \<open>int\<close>.\<close>

definition mem_copy :: "u8 list \<Rightarrow> nat \<Rightarrow> u8 list \<Rightarrow> u8 list option" where
  "mem_copy dst off src =
     (if off + length src \<le> length dst then Some (take off dst @ src @ drop (off + length src) dst) else None)"

definition response_head :: "int \<Rightarrow> u8 list" where
  "response_head body_size = ascii ''content-length:'' @ c_itoa body_size @ [0x0D, 0x0A, 0x0D, 0x0A]"

definition hs_response_ok :: "int \<Rightarrow> hs_channel \<Rightarrow> u8 list \<Rightarrow> int \<Rightarrow> (hs_channel \<times> int) option" where
  "hs_response_ok rc ch response_body body_size =
     (let line_length = length HTTP_SERVER_RESPONSE_OK; head = response_head body_size in
      if 32 \<le> length head then None
      else do {
        b1 \<leftarrow> mem_copy (hc_buffer ch) 0 HTTP_SERVER_RESPONSE_OK;
        b2 \<leftarrow> mem_copy b1 line_length head;
        let write_index = int (line_length + length head);
        if 2 ^ 31 \<le> write_index + body_size then None
        else if hc_buffer_size ch \<le> write_index + body_size then Some (ch\<lparr>hc_buffer := b2\<rparr>, - 1)
        else if body_size < 0 \<or> int (length response_body) < body_size then None
        else do {
          b3 \<leftarrow> mem_copy b2 (nat write_index) (take (nat body_size) response_body);
          Some (fst (hs_epoll_mod rc (ch\<lparr>hc_buffer := b3, hc_write_index := 0, hc_write_size := write_index + body_size\<rparr>)
                   (EPOLLOUT OR EPOLLRDHUP)), 1)
        }
      })"

section \<open>Reading and writing a channel\<close>

text \<open>What an I/O thread works with besides the channel: the heap, its memory pool and the socket.\<close>

record hs_io =
  hi_mem :: mm_mem
  hi_pool :: mm_pool_s
  hi_rx :: "rx list"
  hi_tx :: "tx list"
  hi_open :: bool
  hi_out :: "u8 list"

text \<open>\<open>close(socket)\<close> and \<open>mmpl_rlsmem(thread_mmpl, p_channel)\<close>.\<close>

definition hs_close :: "hs_channel \<Rightarrow> hs_io \<Rightarrow> hs_io option" where
  "hs_close ch io = do {
     (m, P, _) \<leftarrow> mmpl_rlsmem (hi_mem io) (hi_pool io) (hc_addr ch);
     Some (io\<lparr>hi_mem := m, hi_pool := P, hi_open := False\<rparr>)
   }"

definition hs_close_channel_thread :: "mm_mem \<Rightarrow> mm_pool_s \<Rightarrow> hs_channel \<Rightarrow> (mm_mem \<times> mm_pool_s) option" where
  "hs_close_channel_thread m P ch = do { (m', P', _) \<leftarrow> mmpl_rlsmem m P (hc_addr ch); Some (m', P') }"

text \<open>The end of a write: the channel is made ready for the next request.\<close>

definition hs_write_done :: "int \<Rightarrow> hs_channel \<Rightarrow> hs_io \<Rightarrow> (hs_channel \<times> hs_io) option" where
  "hs_write_done rc ch io =
     (case hs_epoll_mod rc (hs_init_channel ch) (EPOLLIN OR EPOLLRDHUP) of
        (ch1, r) \<Rightarrow> if r < 0 then do { io1 \<leftarrow> hs_close ch1 io; Some (ch1, io1) } else Some (ch1, io))"

text \<open>
  \<open>rc1\<close> and \<open>rc2\<close> are what \<open>epoll_ctl\<close> returns at the two places. After the first block the code goes on
  in every case, also with a channel it has just released: that is defined as long as the block is
  allocated; \<open>send\<close> on the closed socket fails.
\<close>

definition hs_io_write :: "int \<Rightarrow> int \<Rightarrow> hs_channel \<Rightarrow> hs_io \<Rightarrow> (hs_channel \<times> hs_io) option" where
  "hs_io_write rc1 rc2 ch0 io0 = do {
     (ch, io) \<leftarrow> (if hc_write_size ch0 \<le> hc_write_index ch0 then hs_write_done rc1 ch0 io0 else Some (ch0, io0));
     if cells (hi_mem io) (hc_addr ch - SIZEOF_MM_NODE) = None then None
     else (let n = c_size_t (hc_write_size ch - hc_write_index ch) in
       if hc_write_index ch < 0 \<or> length (hc_buffer ch) < nat (hc_write_index ch) + n then None
       else (let bs = take n (drop (nat (hc_write_index ch)) (hc_buffer ch)) in
         case (if hi_open io then os_send (hi_tx io) bs else (Io_err, hi_tx io)) of
           (Io_ok k, txs) \<Rightarrow>
             (let ch1 = ch\<lparr>hc_write_index := hc_write_index ch + int k\<rparr>;
                  io1 = io\<lparr>hi_tx := txs, hi_out := hi_out io @ take k bs\<rparr> in
              if hc_write_size ch1 \<le> hc_write_index ch1 then hs_write_done rc2 ch1 io1
              else (case hs_epoll_mod rc2 ch1 (EPOLLOUT OR EPOLLRDHUP) of
                 (ch2, r) \<Rightarrow> if r < 0 then do { io2 \<leftarrow> hs_close ch2 io1; Some (ch2, io2) } else Some (ch2, io1)))
         | (_, txs) \<Rightarrow> do { io1 \<leftarrow> hs_close ch (io\<lparr>hi_tx := txs\<rparr>); Some (ch, io1) }))
   }"

text \<open>
  Reading. \<open>rc1\<close> is the result of \<open>epoll_ctl\<close> before the decoder runs, \<open>rc2\<close> the one after it. The
  handle's \<open>buffer_size\<close> is that of the channel. An error is to be answered by closing the connection
  with the next writable event.
\<close>

definition hs_io_read ::
  "'s content_handler \<Rightarrow> int \<Rightarrow> int \<Rightarrow> 's \<Rightarrow> hs_channel \<Rightarrow> hs_io \<Rightarrow> ('s \<times> hs_channel \<times> hs_io) option"
where
  "hs_io_read hdl rc1 rc2 s ch io =
     (if hc_read_index ch < 0 then None
      else case os_recv (hi_rx io) (c_size_t (hc_buffer_size ch - hc_read_index ch)) of
       (Io_again, r) \<Rightarrow> Some (s, fst (hs_epoll_mod rc1 ch (EPOLLIN OR EPOLLRDHUP)), io\<lparr>hi_rx := r\<rparr>)
     | (Io_err, r) \<Rightarrow>
         (case hs_epoll_mod rc1 (ch\<lparr>hc_write_index := 0, hc_write_size := 0\<rparr>) (EPOLLOUT OR EPOLLRDHUP) of
            (ch1, e) \<Rightarrow> if e < 0 then do { io1 \<leftarrow> hs_close ch1 (io\<lparr>hi_rx := r\<rparr>); Some (s, ch1, io1) }
                        else Some (s, ch1, io\<lparr>hi_rx := r\<rparr>))
     | (Io_ok bs, r) \<Rightarrow> do {
         b \<leftarrow> mem_copy (hc_buffer ch) (nat (hc_read_index ch)) bs;
         let ch1 = ch\<lparr>hc_buffer := b, hc_read_index := hc_read_index ch + int (length bs)\<rparr>;
         let ch2 = (if hc_buffer_size ch1 \<le> hc_read_index ch1 then ch1\<lparr>hc_is_read_done := 1\<rparr> else ch1);
         (s1, ch3) \<leftarrow> hs_decoder hdl s (ch2\<lparr>hc_processing_index := hc_read_index ch2 - 1,
                                         hc_processing_index_now := hc_read_index ch2 - 1\<rparr>);
         Some (s1, if hc_is_read_done ch3 \<noteq> 1 then fst (hs_epoll_mod rc2 ch3 (EPOLLIN OR EPOLLRDHUP)) else ch3, io\<lparr>hi_rx := r\<rparr>)
       })"

section \<open>Url decoding\<close>

definition hs_hex2dec :: "u8 \<Rightarrow> int" where
  "hs_hex2dec c =
     (if 48 \<le> c \<and> c \<le> 57 then uint c - 48
      else if 97 \<le> c \<and> c \<le> 102 then uint c - 97 + 10
      else if 65 \<le> c \<and> c \<le> 70 then uint c - 65 + 10
      else - 1)"

text \<open>The loop of \<open>hs_url_decode\<close>, with the bytes written to \<open>res\<close> so far.\<close>

function url_decode_loop :: "u8 list \<Rightarrow> nat \<Rightarrow> nat \<Rightarrow> u8 list \<Rightarrow> u8 list option" where
  "url_decode_loop url len i res =
     (if len \<le> i then Some res
      else do {
        c \<leftarrow> nth_opt url i;
        if HTTP_URL_DECODE_BUFSIZE \<le> length res then None
        else if c \<noteq> 0x25 then url_decode_loop url len (i + 1) (res @ [c])
        else do {
          c1 \<leftarrow> nth_opt url (i + 1);
          c0 \<leftarrow> nth_opt url (i + 2);
          url_decode_loop url len (i + 3) (res @ [of_int (hs_hex2dec c1 * 16 + hs_hex2dec c0)])
        }
      })"
  by pat_completeness auto
termination
  by (relation "measure (\<lambda>(url, len, i, res). len - i)") auto

declare url_decode_loop.simps [simp del]

definition hs_url_decode :: "u8 list \<Rightarrow> u8 list option" where
  "hs_url_decode url = do {
     str \<leftarrow> c_str url 0;
     res \<leftarrow> url_decode_loop url (length str) 0 [];
     if HTTP_URL_DECODE_BUFSIZE \<le> length res then None
     else mem_copy url 0 (takeWhile (\<lambda>c. c \<noteq> 0) res @ [0])
   }"

end
