(* ===== verification/Http_Server.thy ===== *)
theory Http_Server
  imports Http
begin

unbundle bit_operations_syntax

text \<open>
  Starting the HTTP server, accepting connections and the event loop. What the system does (\<open>malloc\<close>,
  sockets, epoll, threads) is given by arguments; a pointer to a function is a non-zero address.
\<close>

section \<open>Data\<close>

record hs_connection_entry =
  ce_p_handle :: addr
  ce_socket_fd :: int

record hs_handle =
  hh_addr :: addr
  hh_tdpl_io :: tdpl_s
  hh_tdpl_worker :: tdpl_s
  hh_tdpl_accept :: tdpl_s
  hh_tdpl_close :: tdpl_s
  hh_mmpl :: mm_pool_s
  hh_max_connection :: s32
  hh_buffer_size :: s32
  hh_sockfd :: int
  hh_epoll_fd :: "int list"
  hh_event_loop_num :: s32
  hh_content_handler :: addr
  hh_new_connection_map :: "hs_connection_entry list"
  hh_map_addr :: addr
  hh_new_connection_map_size :: s32
  hh_connection_id :: u64

record hs_bootstrap =
  bt_server_port :: s32
  bt_io_thread_num :: s32
  bt_event_loop_num :: s32
  bt_worker_thread_num :: s32
  bt_max_connection :: s32
  bt_buffer_size :: s32
  bt_content_handler :: addr

text \<open>The functions that are given to thread pools.\<close>

abbreviation (input) FN_hs_event_loop :: addr where "FN_hs_event_loop \<equiv> 1"
abbreviation (input) FN_hs_accept_thread :: addr where "FN_hs_accept_thread \<equiv> 2"
abbreviation (input) FN_hs_new_connection :: addr where "FN_hs_new_connection \<equiv> 3"
abbreviation (input) FN_hs_io_read :: addr where "FN_hs_io_read \<equiv> 4"
abbreviation (input) FN_hs_io_write :: addr where "FN_hs_io_write \<equiv> 5"

text \<open>Offset of \<open>epoll_fd\<close> in \<open>struct hs_handle\<close>: five pointers and three \<open>int\<close>s come before it.\<close>

abbreviation (input) OFFSET_EPOLL_FD :: nat where "OFFSET_EPOLL_FD \<equiv> 52"

section \<open>Starting\<close>

record bind_env =
  be_socket :: int
  be_reuseaddr :: int
  be_nodelay :: int
  be_bind :: "16 word \<Rightarrow> int"

definition hs_bind :: "bind_env \<Rightarrow> s32 \<Rightarrow> int" where
  "hs_bind e port =
     (if be_socket e = - 1 then - 1
      else if be_reuseaddr e < 0 then - 2
      else if be_nodelay e < 0 then - 3
      else if be_bind e (c_htons port) = - 1 then - 3
      else be_socket e)"

record hs_env =
  he_handle :: addr
  he_worker :: tdpl_env
  he_io :: tdpl_env
  he_close :: tdpl_env
  he_accept :: tdpl_env
  he_mmpl :: addr
  he_bind :: bind_env
  he_epoll :: "nat \<Rightarrow> int"
  he_raw_epoll :: "nat \<Rightarrow> int"
  he_map :: addr
  he_raw_map :: "nat \<Rightarrow> hs_connection_entry"

text \<open>\<open>hs_start\<close> returns a handle or \<open>NULL\<close>, or it waits in \<open>tdpl_create\<close> for a worker that never starts.\<close>

datatype hs_started = Hs_handle mm_mem hs_handle | Hs_NULL | Hs_blocks

definition with_tdpl :: "tdpl_created option \<Rightarrow> (tdpl_s \<Rightarrow> hs_started option) \<Rightarrow> hs_started option" where
  "with_tdpl c k = (case c of None \<Rightarrow> None | Some Pool_NULL \<Rightarrow> Some Hs_NULL | Some Pool_blocks \<Rightarrow> Some Hs_blocks | Some (Pool p) \<Rightarrow> k p)"

text \<open>
  The loop that creates the epoll descriptors, from index \<open>i\<close> on; the array has 64 cells. The flag
  says that all of them were created.
\<close>

fun create_epolls :: "(nat \<Rightarrow> int) \<Rightarrow> nat list \<Rightarrow> int list \<Rightarrow> (int list \<times> bool) option" where
  "create_epolls ep [] fds = Some (fds, True)"
| "create_epolls ep (i # is) fds = do {
     fds1 \<leftarrow> upd_opt fds i (ep i);
     if ep i = - 1 then Some (fds1, False) else create_epolls ep is fds1
   }"

text \<open>The loop that starts the event loops on the pool; the argument is the address of the descriptor.\<close>

fun start_loops :: "addr \<Rightarrow> nat list \<Rightarrow> tdpl_s \<Rightarrow> (tdpl_s \<times> bool) option" where
  "start_loops h [] p = Some (p, True)"
| "start_loops h (i # is) p = do {
     (p1, r) \<leftarrow> tdpl_call_func p FN_hs_event_loop (h + OFFSET_EPOLL_FD + 4 * i);
     if r < 0 then Some (p1, False) else start_loops h is p1
   }"

text \<open>
  The rest of \<open>hs_start\<close>, with the four thread pools. The result of \<open>mmpl_getmem\<close> for the table of new
  connections is not tested, and the table is not cleared.
\<close>

definition hs_start_loops ::
  "hs_env \<Rightarrow> mm_mem \<Rightarrow> hs_bootstrap \<Rightarrow> hs_handle \<Rightarrow> hs_started option"
where
  "hs_start_loops e m bt h = do {
     (fds, created) \<leftarrow> create_epolls (he_epoll e) [0..<nat (sint (bt_event_loop_num bt))] (hh_epoll_fd h);
     if \<not> created then Some Hs_NULL
     else do {
       (io, started) \<leftarrow> start_loops (hh_addr h) [0..<nat (sint (bt_event_loop_num bt))] (hh_tdpl_io h);
       if \<not> started then Some Hs_NULL
       else do {
         (m1, P, map_addr) \<leftarrow> mmpl_getmem m (hh_mmpl h) (bt_max_connection bt * 20 * of_nat SIZEOF_CONNECTION_ENTRY) (he_map e);
         (io1, r) \<leftarrow> tdpl_call_func io FN_hs_accept_thread (hh_addr h);
         if r < 0 then Some Hs_NULL
         else Some (Hs_handle m1 (h\<lparr>hh_epoll_fd := fds, hh_tdpl_io := io1, hh_mmpl := P, hh_map_addr := map_addr,
           hh_new_connection_map := (if map_addr = NULL then [] else map (he_raw_map e) [0..<nat (sint (bt_max_connection bt * 20))]),
           hh_new_connection_map_size := bt_max_connection bt * 20, hh_connection_id := 0\<rparr>))
       }
     }
   }"

definition hs_start :: "hs_env \<Rightarrow> mm_mem \<Rightarrow> hs_bootstrap \<Rightarrow> hs_started option" where
  "hs_start e m bt =
     (if he_handle e = NULL then Some Hs_NULL
      else with_tdpl (tdpl_create (he_worker e) (bt_worker_thread_num bt) 51200) (\<lambda>worker.
           with_tdpl (tdpl_create (he_io e) (bt_io_thread_num bt + bt_event_loop_num bt + 1) 51200) (\<lambda>io.
           with_tdpl (tdpl_create (he_close e) 8 51200) (\<lambda>close.
           with_tdpl (tdpl_create (he_accept e) 8 51200) (\<lambda>accept. do {
             (m1, P) \<leftarrow> mmpl_create m (Some \<lparr>mo_boundary = 2048, mo_max_free_index = 51200\<rparr>) (he_mmpl e);
             let sockfd = hs_bind (he_bind e) (bt_server_port bt);
             if sockfd < 0 then Some Hs_NULL
             else hs_start_loops e m1 bt
               \<lparr>hh_addr = he_handle e, hh_tdpl_io = io, hh_tdpl_worker = worker, hh_tdpl_accept = accept, hh_tdpl_close = close,
                hh_mmpl = P, hh_max_connection = bt_max_connection bt, hh_buffer_size = bt_buffer_size bt, hh_sockfd = sockfd,
                hh_epoll_fd = map (he_raw_epoll e) [0..<MAX_EPOLL_EVENT_LOOP_NUM], hh_event_loop_num = bt_event_loop_num bt, hh_content_handler = bt_content_handler bt,
                hh_new_connection_map = [], hh_map_addr = NULL, hh_new_connection_map_size = 0, hh_connection_id = 0\<rparr>
           })))))"

section \<open>Accepting a connection\<close>

text \<open>
  One round of the loop of \<open>hs_accept_thread\<close>; \<open>fd\<close> is what \<open>accept\<close> returned. The result says whether
  the socket was closed again. An entry whose function could not be handed to the pool stays taken.
\<close>

definition hs_accept_round :: "int \<Rightarrow> hs_handle \<Rightarrow> (hs_handle \<times> bool) option" where
  "hs_accept_round fd h =
     (if fd < 0 then Some (h, False)
      else do {
        k \<leftarrow> ring_slot (hh_connection_id h) (hh_new_connection_map_size h);
        let h1 = h\<lparr>hh_connection_id := hh_connection_id h + 1\<rparr>;
        e \<leftarrow> nth_opt (hh_new_connection_map h1) k;
        if ce_p_handle e \<noteq> NULL then Some (h1, True)
        else do {
          let h2 = h1\<lparr>hh_new_connection_map := (hh_new_connection_map h1)[k := \<lparr>ce_p_handle = hh_addr h1, ce_socket_fd = fd\<rparr>]\<rparr>;
          (io, r) \<leftarrow> tdpl_call_func (hh_tdpl_io h2) FN_hs_new_connection (hh_map_addr h2 + SIZEOF_CONNECTION_ENTRY * k);
          Some (h2\<lparr>hh_tdpl_io := io\<rparr>, r < 0)
        }
      })"

text \<open>
  \<open>hs_new_connection\<close> on entry \<open>k\<close>: \<open>epoll_i\<close> is the static counter, \<open>m\<close> and \<open>P\<close> the heap and the memory
  pool of the thread, \<open>a\<close> what \<open>malloc\<close> gives, \<open>raw\<close> and \<open>rawb\<close> the contents of the block as a channel and
  the bytes behind it, and \<open>rc\<close> the result of \<open>epoll_ctl\<close>. A failure leaves the socket open.
\<close>

record hs_conn_state =
  cs_handle :: hs_handle
  cs_epoll_i :: u64
  cs_mem :: mm_mem
  cs_pool :: mm_pool_s

definition free_entry :: "nat \<Rightarrow> hs_handle \<Rightarrow> hs_handle" where
  "free_entry k h = h\<lparr>hh_new_connection_map := (hh_new_connection_map h)[k := (hh_new_connection_map h ! k)\<lparr>ce_p_handle := NULL\<rparr>]\<rparr>"

definition hs_new_connection ::
  "nat \<Rightarrow> addr \<Rightarrow> hs_channel \<Rightarrow> (nat \<Rightarrow> u8) \<Rightarrow> int \<Rightarrow> hs_conn_state \<Rightarrow> (hs_conn_state \<times> hs_channel option) option"
where
  "hs_new_connection k a raw rawb rc s = (let h = cs_handle s in do {
     e \<leftarrow> nth_opt (hh_new_connection_map h) k;
     (m, P, p) \<leftarrow> mmpl_getmem (cs_mem s) (cs_pool s) (of_nat SIZEOF_HS_CHANNEL + hh_buffer_size h) a;
     if p = NULL then Some (s\<lparr>cs_mem := m, cs_pool := P, cs_handle := free_entry k h\<rparr>, None)
     else do {
       j \<leftarrow> ring_slot (cs_epoll_i s) (hh_event_loop_num h);
       fd \<leftarrow> nth_opt (hh_epoll_fd h) j;
       let ch = (hs_init_channel (raw\<lparr>hc_addr := p, hc_epoll_fd := fd, hc_socket := ce_socket_fd e\<rparr>))
                  \<lparr>hc_buffer_size := sint (hh_buffer_size h),
                    hc_buffer := map rawb [0..<msize m (p - SIZEOF_MM_NODE) - SIZEOF_MM_NODE - SIZEOF_HS_CHANNEL]\<rparr>;
       let s1 = s\<lparr>cs_mem := m, cs_pool := P, cs_epoll_i := cs_epoll_i s + 1, cs_handle := free_entry k h\<rparr>;
       if rc = - 1 then do {
         (m1, P1, _) \<leftarrow> mmpl_rlsmem m P p;
         Some (s1\<lparr>cs_mem := m1, cs_pool := P1\<rparr>, None)
       } else Some (s1, Some (ch\<lparr>hc_events := EPOLLIN OR EPOLLRDHUP OR EPOLLET\<rparr>))
     }
   })"

section \<open>The event loop\<close>

definition hs_io_do_write :: "addr \<Rightarrow> tdpl_s \<Rightarrow> (tdpl_s \<times> int) option" where
  "hs_io_do_write channel io = do {
     (io1, r) \<leftarrow> tdpl_call_func io FN_hs_io_write channel;
     Some (io1, if r < 0 then - 1 else 1)
   }"

definition hs_io_do_read :: "addr \<Rightarrow> tdpl_s \<Rightarrow> (tdpl_s \<times> int) option" where
  "hs_io_do_read channel io = do {
     (io1, r) \<leftarrow> tdpl_call_func io FN_hs_io_read channel;
     Some (io1, if r < 0 then - 1 else 1)
   }"

text \<open>
  One event of \<open>hs_event_loop\<close>: its flags and its channel. The result is the pool and whether the
  socket was taken out of epoll.
\<close>

definition hs_handle_event :: "u32 \<Rightarrow> addr \<Rightarrow> tdpl_s \<Rightarrow> (tdpl_s \<times> bool) option" where
  "hs_handle_event events channel io =
     (if events AND EPOLLERR \<noteq> 0 then Some (io, False)
      else if events AND EPOLLRDHUP \<noteq> 0 then Some (io, True)
      else do {
        (io1, _) \<leftarrow> (if events AND EPOLLIN \<noteq> 0 then hs_io_do_read channel io else Some (io, 0));
        (io2, _) \<leftarrow> (if events AND EPOLLOUT \<noteq> 0 then hs_io_do_write channel io1 else Some (io1, 0));
        Some (io2, False)
      })"

text \<open>The events of one return of \<open>epoll_wait\<close>; the channels taken out of epoll are collected.\<close>

fun hs_handle_events :: "(u32 \<times> addr) list \<Rightarrow> tdpl_s \<Rightarrow> (tdpl_s \<times> addr list) option" where
  "hs_handle_events [] io = Some (io, [])"
| "hs_handle_events ((events, channel) # es) io = do {
     (io1, gone) \<leftarrow> hs_handle_event events channel io;
     (io2, cs) \<leftarrow> hs_handle_events es io1;
     Some (io2, if gone then channel # cs else cs)
   }"

end
