(* ===== verification/Acm.thy ===== *)
theory Acm
  imports Io Tdpool
begin

unbundle bit_operations_syntax

text \<open>
  The agent client manager of \<^verbatim>\<open>src/core/agent-client-manager.c\<close>: it keeps a connection (channel) to each
  provider agent, numbers the requests, remembers who waits for which response in a table indexed
  by the request number, writes requests to the sockets as frames of a 12-byte head and the data,
  and cuts the incoming streams back into frames. Sockets are the oracles of theory \<open>Io\<close>.
\<close>

section \<open>Data\<close>

abbreviation (input) ACM_MSG_HEAD_SIZE :: nat where "ACM_MSG_HEAD_SIZE \<equiv> 12"

text \<open>\<open>sizeof\<close> on LP64 of \<open>struct acm_msg\<close>, \<open>acm_request_map_entry\<close>, \<open>acm_write_task\<close> and \<open>acm_channel\<close>.\<close>

abbreviation (input) SIZEOF_ACM_MSG :: nat where "SIZEOF_ACM_MSG \<equiv> 32"
abbreviation (input) SIZEOF_MAP_ENTRY :: nat where "SIZEOF_MAP_ENTRY \<equiv> 24"
abbreviation (input) SIZEOF_WRITE_TASK :: nat where "SIZEOF_WRITE_TASK \<equiv> 32"
abbreviation (input) SIZEOF_ACM_CHANNEL :: nat where "SIZEOF_ACM_CHANNEL \<equiv> 112"

record acm_request_map_entry =
  me_req_id :: u64
  me_listening :: addr
  me_arg :: addr

record acm_handle =
  ah_tdpl_io :: tdpl_s
  ah_tdpl_worker :: tdpl_s
  ah_mmpl :: mm_pool_s
  ah_epoll_write_fd :: int
  ah_epoll_read_fd :: int
  ah_max_write_queue_len :: s32
  ah_max_hold_req_num :: s32
  ah_request_map :: "acm_request_map_entry list"
  ah_request_id :: u64

text \<open>The \<open>long\<close> request number is kept as its 64 bits and read with \<open>sint\<close>.\<close>

record acm_msg_head =
  mh_req_id :: u64
  mh_data_size :: s32

text \<open>A message under construction: its block in the memory pool and the data received so far.\<close>

record acm_msg =
  am_addr :: addr
  am_head :: acm_msg_head
  am_data :: "u8 list"

text \<open>\<open>wt_data\<close> is what the caller's buffer holds; the task itself has only a pointer to it.\<close>

record acm_write_task =
  wt_write_index :: int
  wt_head :: acm_msg_head
  wt_data :: "u8 list"

record acm_channel =
  ac_socket_fd :: int
  ac_write_queue :: "acm_write_task list"
  ac_write_queue_head :: u64
  ac_write_queue_tail :: u64
  ac_recv_msg :: "acm_msg option"
  ac_head :: "u8 list"
  ac_is_head :: int
  ac_head_read_index :: int
  ac_data_read_index :: int
  ac_request_num :: u64
  ac_consume_locked :: bool
  ac_reading_locked :: bool
  ac_write_armed :: bool
  ac_read_armed :: bool

record acm_opt =
  ao_max_write_queue_len :: s32
  ao_max_hold_req_num :: s32
  ao_io_thread_num :: s32
  ao_worker_thread_num :: s32

section \<open>Encoding of the frame head\<close>

definition acm_int2bytes :: "u32 \<Rightarrow> u8 list \<Rightarrow> nat \<Rightarrow> u8 list option" where
  "acm_int2bytes value buf offset =
     (if offset + 3 < length buf
      then Some (buf[offset + 3 := ucast value, offset + 2 := ucast (drop_bit 8 value),
                     offset + 1 := ucast (drop_bit 16 value), offset := ucast (drop_bit 24 value)])
      else None)"

text \<open>A \<open>char\<close> is signed: it is widened with its sign, and the mask takes the low byte again.\<close>

definition acm_bytes2int :: "u8 list \<Rightarrow> nat \<Rightarrow> u32 option" where
  "acm_bytes2int buf offset =
     (if offset + 3 < length buf
      then Some ((scast (buf ! (offset + 3)) AND 0xFF) OR
                 push_bit 8 (scast (buf ! (offset + 2)) AND 0xFF) OR
                 push_bit 16 (scast (buf ! (offset + 1)) AND 0xFF) OR
                 push_bit 24 (scast (buf ! offset) AND 0xFF))
      else None)"

definition acm_long2bytes :: "u64 \<Rightarrow> u8 list \<Rightarrow> nat \<Rightarrow> u8 list option" where
  "acm_long2bytes value buf offset =
     (if offset + 7 < length buf
      then Some (buf[offset + 7 := ucast value, offset + 6 := ucast (drop_bit 8 value),
                     offset + 5 := ucast (drop_bit 16 value), offset + 4 := ucast (drop_bit 24 value),
                     offset + 3 := ucast (drop_bit 32 value), offset + 2 := ucast (drop_bit 40 value),
                     offset + 1 := ucast (drop_bit 48 value), offset := ucast (drop_bit 56 value)])
      else None)"

definition acm_bytes2long :: "u8 list \<Rightarrow> nat \<Rightarrow> u64 option" where
  "acm_bytes2long buf offset =
     (if offset + 7 < length buf
      then Some ((scast (buf ! (offset + 7)) AND 0xFF) OR
                 push_bit 8 (scast (buf ! (offset + 6)) AND 0xFF) OR
                 push_bit 16 (scast (buf ! (offset + 5)) AND 0xFF) OR
                 push_bit 24 (scast (buf ! (offset + 4)) AND 0xFF) OR
                 push_bit 32 (scast (buf ! (offset + 3)) AND 0xFF) OR
                 push_bit 40 (scast (buf ! (offset + 2)) AND 0xFF) OR
                 push_bit 48 (scast (buf ! (offset + 1)) AND 0xFF) OR
                 push_bit 56 (scast (buf ! offset) AND 0xFF))
      else None)"

section \<open>The table of waiting requests\<close>

definition acm_hold_request :: "acm_handle \<Rightarrow> u64 \<Rightarrow> addr \<Rightarrow> addr \<Rightarrow> (acm_handle \<times> int) option" where
  "acm_hold_request h req_id listening arg = do {
     k \<leftarrow> ring_slot req_id (ah_max_hold_req_num h);
     e \<leftarrow> nth_opt (ah_request_map h) k;
     if me_req_id e \<noteq> 0 then Some (h, - 2)
     else Some (h\<lparr>ah_request_map := (ah_request_map h)[k := \<lparr>me_req_id = req_id, me_listening = listening, me_arg = arg\<rparr>]\<rparr>, 1)
   }"

section \<open>Sending a request\<close>

text \<open>Registering interest in events; the result of \<open>epoll_ctl\<close> is the argument \<open>rc\<close>.\<close>

definition acm_epoll_mod_write :: "int \<Rightarrow> acm_channel \<Rightarrow> acm_channel \<times> int" where
  "acm_epoll_mod_write rc ch = (if rc = - 1 then (ch, - 1) else (ch\<lparr>ac_write_armed := True\<rparr>, 1))"

definition acm_epoll_mod_read :: "int \<Rightarrow> acm_channel \<Rightarrow> acm_channel \<times> int" where
  "acm_epoll_mod_read rc ch = (if rc = - 1 then (ch, - 1) else (ch\<lparr>ac_read_armed := True\<rparr>, 1))"

text \<open>The section under \<open>write_queue_spinlock\<close>; the flag says that the queue was empty.\<close>

definition acm_enqueue :: "s32 \<Rightarrow> acm_channel \<Rightarrow> acm_write_task \<Rightarrow> (acm_channel \<times> bool) option" where
  "acm_enqueue max_len ch task = do {
     k \<leftarrow> ring_slot (ac_write_queue_tail ch) max_len;
     q \<leftarrow> upd_opt (ac_write_queue ch) k task;
     Some (ch\<lparr>ac_write_queue := q, ac_write_queue_tail := ac_write_queue_tail ch + 1\<rparr>,
           ac_write_queue_head ch + 1 = ac_write_queue_tail ch)
   }"

text \<open>
  The number is taken from a 64-bit counter into an \<open>int\<close>, and widened with its sign for the
  table and for the head of the frame. The result of \<open>acm_hold_request\<close> is not looked at.
\<close>

definition acm_request ::
  "acm_handle \<Rightarrow> acm_channel option \<Rightarrow> u8 list \<Rightarrow> s32 \<Rightarrow> addr \<Rightarrow> addr \<Rightarrow> int \<Rightarrow> (acm_handle \<times> acm_channel option \<times> int) option"
where
  "acm_request h p_channel buf buf_size listening arg rc = (case p_channel of
     None \<Rightarrow> Some (h, None, - 1)
   | Some ch \<Rightarrow> do {
       let rid = ah_request_id h + 1;
       let request_id = (ucast rid :: s32);
       (h1, _) \<leftarrow> acm_hold_request (h\<lparr>ah_request_id := rid\<rparr>) (scast request_id) listening arg;
       (ch1, is_queue_empty) \<leftarrow> acm_enqueue (ah_max_write_queue_len h1) ch
          \<lparr>wt_write_index = 0, wt_head = \<lparr>mh_req_id = scast request_id, mh_data_size = buf_size\<rparr>, wt_data = buf\<rparr>;
       if is_queue_empty then
         (case acm_epoll_mod_write rc (ch1\<lparr>ac_consume_locked := False\<rparr>) of (ch2, r) \<Rightarrow>
            if r < 0 then Some (h1, Some ch2, - 2) else Some (h1, Some ch2, 1))
       else Some (h1, Some ch1, 1)
     })"

section \<open>Writing\<close>

text \<open>How a round of the write loop ends: with the next task, with a break, or with an error.\<close>

datatype wr_end = Wr_next | Wr_break | Wr_err

definition frame_head :: "acm_msg_head \<Rightarrow> u8 list option" where
  "frame_head mh = do {
     b \<leftarrow> acm_long2bytes (mh_req_id mh) (replicate ACM_MSG_HEAD_SIZE 0) 0;
     acm_int2bytes (mh_data_size mh) b 8
   }"

text \<open>
  The data part of a round. A buffer shorter than the announced size is read past its end. After
  \<open>EAGAIN\<close> the loop goes on with the result \<open>-1\<close> of \<open>send\<close>.
\<close>

definition write_data :: "tx list \<Rightarrow> acm_write_task \<Rightarrow> (acm_write_task \<times> u8 list \<times> tx list \<times> wr_end) option" where
  "write_data txs t =
     (let off = wt_write_index t - int ACM_MSG_HEAD_SIZE; n = sint (mh_data_size (wt_head t)) - off in
      if off < 0 \<or> n < 0 \<or> int (length (wt_data t)) < off + n then None
      else (let bs = take (nat n) (drop (nat off) (wt_data t)) in
        case os_send txs bs of
          (Io_err, txs') \<Rightarrow> Some (t, [], txs', Wr_err)
        | (r, txs') \<Rightarrow>
            (let have_write_size = (case r of Io_ok k \<Rightarrow> int k | _ \<Rightarrow> - 1);
                 t' = t\<lparr>wt_write_index := wt_write_index t + have_write_size\<rparr> in
             Some (t', take (nat have_write_size) bs, txs',
               if 0 < sint (mh_data_size (wt_head t)) - (wt_write_index t' - int ACM_MSG_HEAD_SIZE) then Wr_break else Wr_next))))"

text \<open>One round of the loop on the task at the head of the queue, with the bytes it sent.\<close>

definition write_task :: "tx list \<Rightarrow> acm_write_task \<Rightarrow> (acm_write_task \<times> u8 list \<times> tx list \<times> wr_end) option" where
  "write_task txs t =
     (if wt_write_index t < int ACM_MSG_HEAD_SIZE then
        if wt_write_index t < 0 then None
        else do {
          head \<leftarrow> frame_head (wt_head t);
          let bs = drop (nat (wt_write_index t)) head;
          (case os_send txs bs of
             (Io_err, txs') \<Rightarrow> Some (t, [], txs', Wr_err)
           | (Io_again, txs') \<Rightarrow> Some (t, [], txs', Wr_break)
           | (Io_ok k, txs') \<Rightarrow>
               (let t' = t\<lparr>wt_write_index := wt_write_index t + int k\<rparr> in
                if 0 < int ACM_MSG_HEAD_SIZE - wt_write_index t' then Some (t', take k bs, txs', Wr_break)
                else do {
                  (t'', out, txs'', e) \<leftarrow> write_data txs' t';
                  Some (t'', take k bs @ out, txs'', e)
                }))
        }
      else write_data txs t)"

text \<open>
  A round on the channel: the queue's head advances, under the lock, when the task is complete.
\<close>

definition write_round :: "s32 \<Rightarrow> tx list \<Rightarrow> acm_channel \<Rightarrow> (acm_channel \<times> u8 list \<times> tx list \<times> wr_end) option" where
  "write_round max_len txs ch = do {
     k \<leftarrow> ring_slot (ac_write_queue_head ch + 1) max_len;
     t \<leftarrow> nth_opt (ac_write_queue ch) k;
     (t', out, txs', e) \<leftarrow> write_task txs t;
     let ch1 = ch\<lparr>ac_write_queue := (ac_write_queue ch)[k := t']\<rparr>;
     Some (if e = Wr_next then ch1\<lparr>ac_write_queue_head := ac_write_queue_head ch1 + 1\<rparr> else ch1, out, txs', e)
   }"

partial_function (option) write_loop :: "s32 \<Rightarrow> tx list \<Rightarrow> acm_channel \<Rightarrow> (acm_channel \<times> u8 list \<times> tx list \<times> wr_end) option"
where
  "write_loop max_len txs ch = do {
     (ch1, out, txs', e) \<leftarrow> write_round max_len txs ch;
     if e \<noteq> Wr_next \<or> ac_write_queue_head ch1 + 1 = ac_write_queue_tail ch1 then Some (ch1, out, txs', e)
     else do {
       (ch2, out', txs'', e') \<leftarrow> write_loop max_len txs' ch1;
       Some (ch2, out @ out', txs'', e')
     }
   }"

text \<open>
  The write thread. It runs with \<open>write_queue_consume_spinlock\<close> held; after a break it releases the
  lock and registers for the next writable event, after an empty queue or an error it keeps it.
\<close>

definition acm_io_write_thread ::
  "acm_handle \<Rightarrow> tx list \<Rightarrow> int \<Rightarrow> acm_channel \<Rightarrow> (acm_channel \<times> u8 list \<times> tx list) option"
where
  "acm_io_write_thread h txs rc ch =
     (if ac_write_queue_head ch + 1 = ac_write_queue_tail ch then Some (ch, [], txs)
      else do {
        (ch1, out, txs', e) \<leftarrow> write_loop (ah_max_write_queue_len h) txs ch;
        if e = Wr_break
        then Some (fst (acm_epoll_mod_write rc (ch1\<lparr>ac_consume_locked := False\<rparr>)), out, txs')
        else Some (ch1, out, txs')
      })"

section \<open>Reading\<close>

text \<open>
  The state of a read thread: the handle and the channel, the heap and the worker's memory pool,
  what the socket and \<open>malloc\<close> will give, and the listeners called so far with their arguments and
  the data of the response.
\<close>

record acm_reader =
  rd_handle :: acm_handle
  rd_channel :: acm_channel
  rd_mem :: mm_mem
  rd_pool :: mm_pool_s
  rd_rx :: "rx list"
  rd_malloc :: "addr list"
  rd_calls :: "(addr \<times> addr \<times> u8 list) list"

text \<open>The head is complete: a block for the message is taken from the worker's pool.\<close>

definition read_head_done :: "acm_reader \<Rightarrow> acm_reader option" where
  "read_head_done s = (let ch = rd_channel s in do {
     data_size \<leftarrow> acm_bytes2int (ac_head ch) 8;
     req_id \<leftarrow> acm_bytes2long (ac_head ch) 0;
     (case rd_malloc s of
        [] \<Rightarrow> None
      | a # as \<Rightarrow> do {
          (m, P, p) \<leftarrow> mmpl_getmem (rd_mem s) (rd_pool s) (of_nat SIZEOF_ACM_MSG + data_size) a;
          if p = NULL then None
          else Some (s\<lparr>rd_mem := m, rd_pool := P, rd_malloc := as,
            rd_channel := ch\<lparr>ac_is_head := 0, ac_data_read_index := 0,
              ac_recv_msg := Some \<lparr>am_addr = p, am_head = \<lparr>mh_req_id = req_id, mh_data_size = data_size\<rparr>, am_data = []\<rparr>\<rparr>\<rparr>)
        })
   })"

text \<open>The receipt of the head; the flag says whether the loop goes on to the data.\<close>

definition read_head :: "acm_reader \<Rightarrow> (acm_reader \<times> bool) option" where
  "read_head s = (let ch = rd_channel s; i = nat (ac_head_read_index ch) in
     case os_recv (rd_rx s) (ACM_MSG_HEAD_SIZE - i) of
       (Io_ok bs, r) \<Rightarrow>
         (let j = ac_head_read_index ch + int (length bs);
              s1 = s\<lparr>rd_rx := r, rd_channel := ch\<lparr>ac_head := take i (ac_head ch) @ bs @ drop (i + length bs) (ac_head ch),
                                             ac_head_read_index := j\<rparr>\<rparr> in
          if j < int ACM_MSG_HEAD_SIZE then Some (s1, False)
          else do { s2 \<leftarrow> read_head_done s1; Some (s2, True) })
     | (_, r) \<Rightarrow> Some (s\<lparr>rd_rx := r\<rparr>, False))"

text \<open>
  The response is complete. The entry is found by the remainder of the signed request number;
  neither its \<open>req_id\<close> nor its \<open>listening\<close> is tested, so a call through \<open>NULL\<close> is undefined.
\<close>

definition read_dispatch :: "acm_reader \<Rightarrow> acm_msg \<Rightarrow> acm_reader option" where
  "read_dispatch s msg = (let h = rd_handle s; ch = rd_channel s in do {
     k \<leftarrow> c_rem (sint (mh_req_id (am_head msg))) (sint (ah_max_hold_req_num h));
     if k < 0 then None
     else do {
       e \<leftarrow> nth_opt (ah_request_map h) (nat k);
       if me_listening e = NULL then None
       else do {
         (m, P, _) \<leftarrow> mmpl_rlsmem (rd_mem s) (rd_pool s) (am_addr msg);
         Some (s\<lparr>rd_mem := m, rd_pool := P,
           rd_calls := rd_calls s @ [(me_listening e, me_arg e, am_data msg)],
           rd_handle := h\<lparr>ah_request_map := (ah_request_map h)[nat k := e\<lparr>me_listening := NULL, me_req_id := 0\<rparr>]\<rparr>,
           rd_channel := ch\<lparr>ac_request_num := ac_request_num ch - 1, ac_is_head := 1, ac_head_read_index := 0\<rparr>\<rparr>)
       }
     }
   })"

text \<open>
  The receipt of data. The number of bytes asked for is the \<open>int\<close> that remains, converted to
  \<open>size_t\<close>; bytes beyond the block of the message are a buffer overflow.
\<close>

definition read_data :: "acm_reader \<Rightarrow> (acm_reader \<times> bool) option" where
  "read_data s = (let ch = rd_channel s in
     case ac_recv_msg ch of
       None \<Rightarrow> None
     | Some msg \<Rightarrow>
         (let i = ac_data_read_index ch; n = sint (mh_data_size (am_head msg)) - i in
          case os_recv (rd_rx s) (c_size_t n) of
            (Io_ok bs, r) \<Rightarrow>
              if int (msize (rd_mem s) (am_addr msg - SIZEOF_MM_NODE)) < int SIZEOF_MM_NODE + int SIZEOF_ACM_MSG + i + int (length bs)
              then None
              else (let msg' = msg\<lparr>am_data := take (nat i) (am_data msg) @ bs\<rparr>;
                        s1 = s\<lparr>rd_rx := r, rd_channel := ch\<lparr>ac_recv_msg := Some msg', ac_data_read_index := i + int (length bs)\<rparr>\<rparr> in
                    if i + int (length bs) < sint (mh_data_size (am_head msg)) then Some (s1, False)
                    else do { s2 \<leftarrow> read_dispatch s1 msg'; Some (s2, True) })
          | (_, r) \<Rightarrow> Some (s\<lparr>rd_rx := r\<rparr>, False)))"

definition read_round :: "acm_reader \<Rightarrow> (acm_reader \<times> bool) option" where
  "read_round s =
     (if ac_is_head (rd_channel s) = 1 then do {
        (s1, go) \<leftarrow> read_head s;
        if go then read_data s1 else Some (s1, False)
      } else read_data s)"

partial_function (option) read_loop :: "acm_reader \<Rightarrow> acm_reader option" where
  "read_loop s = do {
     (s1, go) \<leftarrow> read_round s;
     if go then read_loop s1 else Some s1
   }"

definition acm_io_read_thread :: "int \<Rightarrow> acm_reader \<Rightarrow> acm_reader option" where
  "acm_io_read_thread rc s = do {
     s1 \<leftarrow> read_loop s;
     Some (s1\<lparr>rd_channel := fst (acm_epoll_mod_read rc ((rd_channel s1)\<lparr>ac_reading_locked := False\<rparr>))\<rparr>)
   }"

text \<open>\<open>acm_response\<close>, the variant for a worker thread, which the code does not call any more.\<close>

definition acm_response :: "acm_handle \<Rightarrow> mm_mem \<Rightarrow> acm_msg \<Rightarrow> (acm_handle \<times> mm_mem \<times> (addr \<times> addr \<times> u8 list) option) option" where
  "acm_response h m msg = do {
     k \<leftarrow> ring_slot (mh_req_id (am_head msg)) (ah_max_hold_req_num h);
     e \<leftarrow> nth_opt (ah_request_map h) k;
     if me_listening e = NULL
     then Some (h\<lparr>ah_request_map := (ah_request_map h)[k := e\<lparr>me_req_id := 0\<rparr>]\<rparr>, m, None)
     else do {
       (m', P, _) \<leftarrow> mmpl_rlsmem m (ah_mmpl h) (am_addr msg);
       Some (h\<lparr>ah_request_map := (ah_request_map h)[k := e\<lparr>me_req_id := 0, me_listening := NULL\<rparr>], ah_mmpl := P\<rparr>, m',
             Some (me_listening e, me_arg e, am_data msg))
     }
   }"

end
