(* ===== verification/Acm_Conn.thy ===== *)
theory Acm_Conn
  imports Acm
begin

unbundle bit_operations_syntax

text \<open>
  The agent client manager continued: starting it, connecting to a provider agent, and the event loop that
  hands channels to the I/O threads.
\<close>

abbreviation (input) FN_acm_io_read_thread :: addr where "FN_acm_io_read_thread \<equiv> 6"
abbreviation (input) FN_acm_io_write_thread :: addr where "FN_acm_io_write_thread \<equiv> 7"

section \<open>Starting\<close>

text \<open>What the system gives: the results of \<open>malloc\<close>, of \<open>epoll_create\<close> and of \<open>pthread_create\<close>.\<close>

record acm_env =
  ae_handle :: addr
  ae_io :: tdpl_env
  ae_worker :: tdpl_env
  ae_mmpl :: addr
  ae_map :: addr
  ae_raw_map :: "nat \<Rightarrow> acm_request_map_entry"
  ae_epoll_write :: int
  ae_epoll_read :: int
  ae_thread_read :: int
  ae_thread_write :: int

datatype acm_started = Acm_handle mm_mem acm_handle | Acm_NULL mm_mem | Acm_blocks

definition acm_with_tdpl :: "mm_mem \<Rightarrow> tdpl_created option \<Rightarrow> (tdpl_s \<Rightarrow> acm_started option) \<Rightarrow> acm_started option" where
  "acm_with_tdpl m c k = (case c of None \<Rightarrow> None | Some Pool_NULL \<Rightarrow> Some (Acm_NULL m) | Some Pool_blocks \<Rightarrow> Some Acm_blocks | Some (Pool p) \<Rightarrow> k p)"

text \<open>
  The handle is written before the test for \<open>NULL\<close>. The table of requests is not cleared. The errors of
  \<open>pthread_create\<close> are positive and so not seen.
\<close>

definition acm_start :: "acm_env \<Rightarrow> mm_mem \<Rightarrow> acm_opt \<Rightarrow> acm_started option" where
  "acm_start e m opt =
     (if ae_handle e = NULL then None
      else acm_with_tdpl m (tdpl_create (ae_io e) (ao_io_thread_num opt) 51200) (\<lambda>io.
           acm_with_tdpl m (tdpl_create (ae_worker e) (ao_worker_thread_num opt) 51200) (\<lambda>worker. do {
             (m1, P) \<leftarrow> mmpl_create m (Some \<lparr>mo_boundary = 2048, mo_max_free_index = 51200\<rparr>) (ae_mmpl e);
             (m2, P2, p) \<leftarrow> mmpl_getmem m1 P (ao_max_hold_req_num opt * of_nat SIZEOF_MAP_ENTRY) (ae_map e);
             if p = NULL then Some (Acm_NULL m2)
             else if ae_epoll_write e = - 1 then Some (Acm_NULL m2)
             else if ae_epoll_read e = - 1 then Some (Acm_NULL m2)
             else if ae_thread_read e = - 1 then Some (Acm_NULL m2)
             else if ae_thread_write e = - 1 then Some (Acm_NULL m2)
             else Some (Acm_handle m2
               \<lparr>ah_tdpl_io = io, ah_tdpl_worker = worker, ah_mmpl = P2, ah_epoll_write_fd = ae_epoll_write e,
                ah_epoll_read_fd = ae_epoll_read e, ah_max_write_queue_len = ao_max_write_queue_len opt,
                ah_max_hold_req_num = ao_max_hold_req_num opt,
                ah_request_map = map (ae_raw_map e) [0..<nat (sint (ao_max_hold_req_num opt))], ah_request_id = 0\<rparr>)
           })))"

section \<open>Connecting\<close>

text \<open>
  The results of \<open>socket\<close>, of \<open>connect\<close> (for an address and a port in network order), of \<open>malloc\<close> for the
  channel and its write queue, their contents, and of the two calls of \<open>epoll_ctl\<close>.
\<close>

record conn_env =
  ce_socket :: int
  ce_connect :: "u8 list \<Rightarrow> 16 word \<Rightarrow> int"
  ce_chan :: addr
  ce_raw :: acm_channel
  ce_queue :: addr
  ce_raw_queue :: "nat \<Rightarrow> acm_write_task"
  ce_epoll_read :: int
  ce_epoll_write :: int

text \<open>
  The result is the new channel with its address, or \<open>NULL\<close>. The pointer to the channel is not tested;
  a failure to create the socket is only logged. The consume lock of the write queue is taken.
\<close>

definition acm_connect ::
  "conn_env \<Rightarrow> mm_mem \<Rightarrow> acm_handle option \<Rightarrow> u8 list \<Rightarrow> s32 \<Rightarrow> (mm_mem \<times> acm_handle option \<times> (addr \<times> acm_channel) option) option"
where
  "acm_connect e m p_acm_handle ip port = (case p_acm_handle of
     None \<Rightarrow> Some (m, None, None)
   | Some h \<Rightarrow>
       if ce_connect e ip (c_htons port) = - 1 then Some (m, Some h, None)
       else do {
         (m1, P1, p) \<leftarrow> mmpl_getmem m (ah_mmpl h) (of_nat SIZEOF_ACM_CHANNEL) (ce_chan e);
         if p = NULL then None
         else do {
           (m2, P2, q) \<leftarrow> mmpl_getmem m1 P1 (ah_max_write_queue_len h * of_nat SIZEOF_WRITE_TASK) (ce_queue e);
           if q = NULL then do {
             (m3, P3, _) \<leftarrow> mmpl_rlsmem m2 P2 p;
             Some (m3, Some (h\<lparr>ah_mmpl := P3\<rparr>), None)
           } else if ce_epoll_read e = - 1 \<or> ce_epoll_write e = - 1 then do {
             (m3, P3, _) \<leftarrow> mmpl_rlsmem m2 P2 q;
             (m4, P4, _) \<leftarrow> mmpl_rlsmem m3 P3 p;
             Some (m4, Some (h\<lparr>ah_mmpl := P4\<rparr>), None)
           } else
             Some (m2, Some (h\<lparr>ah_mmpl := P2\<rparr>), Some (p, (ce_raw e)\<lparr>ac_socket_fd := ce_socket e,
               ac_write_queue := map (ce_raw_queue e) [0..<nat (sint (ah_max_write_queue_len h))],
               ac_write_queue_head := 0, ac_write_queue_tail := 1, ac_is_head := 1, ac_head_read_index := 0,
               ac_consume_locked := True, ac_reading_locked := False, ac_request_num := 0,
               ac_read_armed := True, ac_write_armed := True\<rparr>))
         }
       })"

section \<open>The event loop\<close>

text \<open>The pointer is tested by the code, hence the option; \<open>p\<close> is its address.\<close>

definition acm_io_do_read :: "addr \<Rightarrow> tdpl_s \<Rightarrow> (tdpl_s \<times> int) option" where
  "acm_io_do_read p io =
     (if p = NULL then Some (io, - 1)
      else do {
        (io1, r) \<leftarrow> tdpl_call_func io FN_acm_io_read_thread p;
        Some (io1, if r < 0 then - 2 else 1)
      })"

definition acm_io_do_write :: "addr \<Rightarrow> tdpl_s \<Rightarrow> (tdpl_s \<times> int) option" where
  "acm_io_do_write p io =
     (if p = NULL then Some (io, - 1)
      else do {
        (io1, r) \<leftarrow> tdpl_call_func io FN_acm_io_write_thread p;
        Some (io1, if r < 0 then - 2 else 1)
      })"

text \<open>
  One event for the channel at \<open>p\<close>. A lock that cannot be had drops the event; the flag says whether the
  socket was taken out of epoll.
\<close>

definition acm_handle_event :: "u32 \<Rightarrow> addr \<Rightarrow> acm_channel \<Rightarrow> tdpl_s \<Rightarrow> (acm_channel \<times> tdpl_s \<times> bool) option" where
  "acm_handle_event events p ch io =
     (if events AND EPOLLERR \<noteq> 0 then Some (ch, io, False)
      else if events AND EPOLLRDHUP \<noteq> 0 then Some (ch, io, True)
      else do {
        (ch1, io1) \<leftarrow>
          (if events AND EPOLLIN \<noteq> 0 \<and> \<not> ac_reading_locked ch
           then do { (io', _) \<leftarrow> acm_io_do_read p io; Some (ch\<lparr>ac_reading_locked := True\<rparr>, io') }
           else Some (ch, io));
        (ch2, io2) \<leftarrow>
          (if events AND EPOLLOUT \<noteq> 0 \<and> \<not> ac_consume_locked ch1
           then do { (io', _) \<leftarrow> acm_io_do_write p io1; Some (ch1\<lparr>ac_consume_locked := True\<rparr>, io') }
           else Some (ch1, io1));
        Some (ch2, io2, False)
      })"

end
