(* ===== verification/Cjson.thy ===== *)
theory Cjson
  imports Prelude
begin

unbundle bit_operations_syntax

text \<open>
  The part of the JSON library \<^verbatim>\<open>src/com/cJSON.c\<close> with which the service discovery reads etcd's
  answers. An item is a tree: the chain of its children is a list. The numeric values of an item stand
  as the characters of the text that \<open>strtod\<close> converts to them, none for an item without a number.
\<close>

datatype cJSON = CJSON (cj_type: u32) (cj_valuestring: "u8 list option") (cj_number: "u8 list") (cj_string: "u8 list option") (cj_child: "cJSON list")

abbreviation (input) cJSON_NULL :: u32 where "cJSON_NULL \<equiv> 0x4"
abbreviation (input) cJSON_String :: u32 where "cJSON_String \<equiv> 0x10"
abbreviation (input) cJSON_Array :: u32 where "cJSON_Array \<equiv> 0x20"
abbreviation (input) cJSON_Object :: u32 where "cJSON_Object \<equiv> 0x40"

text \<open>The loop over the chain; a child without a name makes \<open>strcmp\<close> read through a null pointer.\<close>

fun object_scan :: "u8 list \<Rightarrow> cJSON list \<Rightarrow> cJSON option option" where
  "object_scan name [] = Some None"
| "object_scan name (c # cs) = (case cj_string c of
     None \<Rightarrow> None
   | Some s \<Rightarrow> if s = name then Some (Some c) else object_scan name cs)"

definition cJSON_GetObjectItemCaseSensitive :: "cJSON option \<Rightarrow> u8 list \<Rightarrow> cJSON option option" where
  "cJSON_GetObjectItemCaseSensitive object name = (case object of None \<Rightarrow> Some None | Some ob \<Rightarrow> object_scan name (cj_child ob))"

definition cJSON_IsNull :: "cJSON option \<Rightarrow> bool" where
  "cJSON_IsNull item = (case item of None \<Rightarrow> False | Some it \<Rightarrow> cj_type it AND 0xFF = cJSON_NULL)"

lemma object_scan_first:
  assumes "\<forall>c\<in>set xs. \<exists>s. cj_string c = Some s \<and> s \<noteq> name" and "cj_string c = Some name"
  shows "object_scan name (xs @ c # ys) = Some (Some c)"
  using assms by (induction xs) auto

end
