(* ===== verification/Cjson_Parse.thy ===== *)
theory Cjson_Parse
  imports Cjson Cstr
begin

unbundle bit_operations_syntax

text \<open>
  The parser of \<^verbatim>\<open>src/com/cJSON.c\<close>. The buffer is the text with its terminating zero. Every read goes through
  \<open>nth_opt\<close> and every write of a string is checked against the size of its allocation, so that \<open>None\<close> is an
  access outside of an array; \<open>ok k\<close> says whether the allocation number \<open>k\<close> succeeds. A function that
  fails gives no item; the offset it leaves is the position of the error.
\<close>

section \<open>Data\<close>

abbreviation (input) CJSON_NESTING_LIMIT :: nat where "CJSON_NESTING_LIMIT \<equiv> 1000"
abbreviation (input) cJSON_False :: u32 where "cJSON_False \<equiv> 0x1"
abbreviation (input) cJSON_True :: u32 where "cJSON_True \<equiv> 0x2"
abbreviation (input) cJSON_Number :: u32 where "cJSON_Number \<equiv> 0x8"

record parse_buffer =
  pb_content :: "u8 list"
  pb_offset :: nat
  pb_allocs :: nat

text \<open>The outer option is undefined behaviour, the inner one the result of the function.\<close>

type_synonym 'a parsed = "(parse_buffer \<times> 'a option) option"

definition can_access :: "parse_buffer \<Rightarrow> bool" where
  "can_access b \<longleftrightarrow> pb_offset b < length (pb_content b)"

definition at_offset :: "parse_buffer \<Rightarrow> u8 \<Rightarrow> bool" where
  "at_offset b c \<longleftrightarrow> can_access b \<and> pb_content b ! pb_offset b = c"

definition advance :: "nat \<Rightarrow> parse_buffer \<Rightarrow> parse_buffer" where
  "advance n b = b\<lparr>pb_offset := pb_offset b + n\<rparr>"

definition step_back :: "parse_buffer \<Rightarrow> parse_buffer" where
  "step_back b = b\<lparr>pb_offset := pb_offset b - 1\<rparr>"

text \<open>\<open>cJSON_New_Item\<close>: whether the allocation succeeds.\<close>

definition cJSON_New_Item :: "(nat \<Rightarrow> bool) \<Rightarrow> parse_buffer \<Rightarrow> parse_buffer \<times> bool" where
  "cJSON_New_Item ok b = (b\<lparr>pb_allocs := pb_allocs b + 1\<rparr>, ok (pb_allocs b))"

section \<open>White space\<close>

function skip_loop :: "u8 list \<Rightarrow> nat \<Rightarrow> nat" where
  "skip_loop cs i = (if i < length cs \<and> cs ! i \<le> 32 then skip_loop cs (i + 1) else i)"
  by pat_completeness auto
termination
  by (relation "measure (\<lambda>(cs, i). length cs - i)") auto

declare skip_loop.simps [simp del]

definition buffer_skip_whitespace :: "parse_buffer \<Rightarrow> parse_buffer" where
  "buffer_skip_whitespace b = (let i = skip_loop (pb_content b) (pb_offset b) in
     b\<lparr>pb_offset := (if i = length (pb_content b) then i - 1 else i)\<rparr>)"

section \<open>Numbers\<close>

text \<open>The characters that are copied for \<open>strtod\<close>; the decimal point of the C locale is the point.\<close>

definition number_char :: "u8 \<Rightarrow> bool" where
  "number_char c \<longleftrightarrow> c_isdigit c \<or> c \<in> {0x2B, 0x2D, 0x65, 0x45, 0x2E}"

text \<open>What \<open>strtod\<close> takes of a text of such characters: a sign, digits with a point, an exponent.\<close>

definition strtod_sign :: "u8 list \<Rightarrow> nat" where
  "strtod_sign s = (case s of c # _ \<Rightarrow> if c = 0x2B \<or> c = 0x2D then 1 else 0 | [] \<Rightarrow> 0)"

definition strtod_exponent :: "u8 list \<Rightarrow> nat" where
  "strtod_exponent s = (case s of [] \<Rightarrow> 0
     | c # r \<Rightarrow> if c = 0x65 \<or> c = 0x45
         then (let k = strtod_sign r; n = length (takeWhile c_isdigit (drop k r)) in if n = 0 then 0 else 1 + k + n)
         else 0)"

definition strtod_length :: "u8 list \<Rightarrow> nat" where
  "strtod_length s = (let k = strtod_sign s; t = drop k s; n = length (takeWhile c_isdigit t); u = drop n t;
     p = (case u of c # _ \<Rightarrow> c = 0x2E | [] \<Rightarrow> False);
     m = (if p then length (takeWhile c_isdigit (tl u)) else 0);
     v = (if p then drop m (tl u) else u) in
     if n + m = 0 then 0 else k + n + (if p then 1 + m else 0) + strtod_exponent v)"

text \<open>
  The array \<open>number_c_string\<close>, of 64 bytes of which \<open>None\<close> was never written; a write outside of it is undefined, and so is
  reading a string from it that does not end.
\<close>

function copy_number :: "u8 list \<Rightarrow> nat \<Rightarrow> nat \<Rightarrow> u8 option list \<Rightarrow> u8 option list option" where
  "copy_number content offset i number_c_string =
     (if i < 63 \<and> offset + i < length content \<and> number_char (content ! (offset + i)) then
        (if i < length number_c_string then copy_number content offset (i + 1) (number_c_string[i := Some (content ! (offset + i))]) else None)
      else if i < length number_c_string then Some (number_c_string[i := Some 0]) else None)"
  by pat_completeness auto
termination
  by (relation "measure (\<lambda>(cs, k, i, s). 63 - i)") auto

declare copy_number.simps [simp del]

definition string_in :: "u8 option list \<Rightarrow> u8 list option" where
  "string_in a = (let s = takeWhile (\<lambda>c. c \<noteq> Some 0) a in if length s < length a \<and> None \<notin> set s then Some (map the s) else None)"

definition parse_number :: "parse_buffer \<Rightarrow> cJSON parsed" where
  "parse_number b = do {
     number_c_string \<leftarrow> copy_number (pb_content b) (pb_offset b) 0 (replicate 64 None);
     s \<leftarrow> string_in number_c_string;
     (let n = strtod_length s in
      if n = 0 then Some (b, None) else Some (advance n b, Some (CJSON cJSON_Number None (take n s) None [])))
   }"

text \<open>What the code does with numbers: the number whose bytes are zero, the limits and the conversion of a saturating assignment, and the conversion of an \<open>int\<close>.\<close>

record 'n numconv =
  nc_zero :: 'n
  nc_ge_max :: "'n \<Rightarrow> bool"
  nc_le_min :: "'n \<Rightarrow> bool"
  nc_trunc :: "'n \<Rightarrow> int"
  nc_of_int :: "int \<Rightarrow> 'n"

definition saturated :: "'n numconv \<Rightarrow> 'n \<Rightarrow> int" where
  "saturated nc num = (if nc_ge_max nc num then 2147483647 else if nc_le_min nc num then - 2147483648 else nc_trunc nc num)"

text \<open>
  The numeric values of an item that was parsed, for the number \<open>strtod t\<close> that \<open>strtod\<close> makes of the characters \<open>t\<close>: those of a new item are zero,
  \<open>true\<close> sets \<open>valueint\<close>, a number sets both.
\<close>

definition cj_valuedouble :: "'n numconv \<Rightarrow> (u8 list \<Rightarrow> 'n) \<Rightarrow> cJSON \<Rightarrow> 'n" where
  "cj_valuedouble nc strtod item = (if cj_type item = cJSON_Number then strtod (cj_number item) else nc_zero nc)"

definition cj_valueint :: "'n numconv \<Rightarrow> (u8 list \<Rightarrow> 'n) \<Rightarrow> cJSON \<Rightarrow> int" where
  "cj_valueint nc strtod item =
     (if cj_type item = cJSON_Number then saturated nc (strtod (cj_number item)) else if cj_type item = cJSON_True then 1 else 0)"

section \<open>Strings\<close>

text \<open>Four hexadecimal digits; anything else gives 0.\<close>

definition hex_digit :: "u8 \<Rightarrow> u32 option" where
  "hex_digit c =
     (if 48 \<le> c \<and> c \<le> 57 then Some (ucast c - 48)
      else if 65 \<le> c \<and> c \<le> 70 then Some (10 + ucast c - 65)
      else if 97 \<le> c \<and> c \<le> 102 then Some (10 + ucast c - 97)
      else None)"

fun hex_loop :: "nat \<Rightarrow> u8 list \<Rightarrow> u32 \<Rightarrow> u32" where
  "hex_loop i [] h = h"
| "hex_loop i (c # cs) h = (case hex_digit c of
     None \<Rightarrow> 0
   | Some d \<Rightarrow> hex_loop (i + 1) cs (if i < 3 then push_bit 4 (h + d) else h + d))"

definition parse_hex4 :: "u8 list \<Rightarrow> nat \<Rightarrow> u32 option" where
  "parse_hex4 cs i = (if i + 4 \<le> length cs then Some (hex_loop 0 (take 4 (drop i cs)) 0) else None)"

text \<open>The bytes behind the first, written from the last one to the front.\<close>

fun utf8_tail :: "nat \<Rightarrow> u64 \<Rightarrow> u8 list \<Rightarrow> u64 \<times> u8 list" where
  "utf8_tail 0 cp out = (cp, out)"
| "utf8_tail (Suc n) cp out = utf8_tail n (drop_bit 6 cp) (ucast ((cp OR 0x80) AND 0xBF) # out)"

definition utf8_encode :: "u64 \<Rightarrow> u8 list option" where
  "utf8_encode codepoint =
     (if codepoint < 0x80 then Some [ucast (codepoint AND 0x7F)]
      else if codepoint < 0x800 then (case utf8_tail 1 codepoint [] of (cp, out) \<Rightarrow> Some (ucast ((cp OR 0xC0) AND 0xFF) # out))
      else if codepoint < 0x10000 then (case utf8_tail 2 codepoint [] of (cp, out) \<Rightarrow> Some (ucast ((cp OR 0xE0) AND 0xFF) # out))
      else if codepoint \<le> 0x10FFFF then (case utf8_tail 3 codepoint [] of (cp, out) \<Rightarrow> Some (ucast ((cp OR 0xF0) AND 0xFF) # out))
      else None)"

text \<open>
  The code point of the literal at \<open>p\<close> with the length of the literal, for a string that ends at \<open>input_end\<close>;
  a high surrogate needs a low one behind it.
\<close>

definition utf16_codepoint :: "u8 list \<Rightarrow> nat \<Rightarrow> nat \<Rightarrow> (u64 \<times> nat) option option" where
  "utf16_codepoint cs p input_end =
     (if input_end < p + 6 then Some None
      else do {
        first_code \<leftarrow> parse_hex4 cs (p + 2);
        if 0xDC00 \<le> first_code \<and> first_code \<le> 0xDFFF then Some None
        else if 0xD800 \<le> first_code \<and> first_code \<le> 0xDBFF then
          (if input_end < p + 12 then Some None
           else do {
             c0 \<leftarrow> nth_opt cs (p + 6);
             c1 \<leftarrow> nth_opt cs (p + 7);
             if c0 \<noteq> 0x5C \<or> c1 \<noteq> 0x75 then Some None
             else do {
               second_code \<leftarrow> parse_hex4 cs (p + 8);
               if second_code < 0xDC00 \<or> 0xDFFF < second_code then Some None
               else Some (Some (0x10000 + ucast (push_bit 10 (first_code AND 0x3FF) OR (second_code AND 0x3FF)), 12))
             }
           })
        else Some (Some (ucast first_code, 6))
      })"

definition utf16_literal_to_utf8 :: "u8 list \<Rightarrow> nat \<Rightarrow> nat \<Rightarrow> (u8 list \<times> nat) option option" where
  "utf16_literal_to_utf8 cs p input_end = do {
     r \<leftarrow> utf16_codepoint cs p input_end;
     Some (case r of None \<Rightarrow> None
       | Some (cp, n) \<Rightarrow> map_option (\<lambda>out. (out, n)) (utf8_encode cp))
   }"

text \<open>The first loop of \<open>parse_string\<close>: the index of the closing quote and the number of escapes before it.\<close>

function string_end :: "u8 list \<Rightarrow> nat \<Rightarrow> nat \<Rightarrow> (nat \<times> nat) option" where
  "string_end cs i skipped_bytes =
     (if i < length cs \<and> cs ! i \<noteq> 0x22 then
        (if cs ! i = 0x5C then
           (if length cs \<le> i + 1 then None else string_end cs (i + 2) (skipped_bytes + 1))
         else string_end cs (i + 1) skipped_bytes)
      else if length cs \<le> i then None else Some (i, skipped_bytes))"
  by pat_completeness auto
termination
  by (relation "measure (\<lambda>(cs, i, k). length cs - i)") auto

declare string_end.simps [simp del]

text \<open>The character behind a backslash: the bytes it stands for and the length of the sequence.\<close>

definition unescape :: "u8 list \<Rightarrow> nat \<Rightarrow> nat \<Rightarrow> u8 \<Rightarrow> (u8 list \<times> nat) option option" where
  "unescape cs p input_end c =
     (if c = 0x62 then Some (Some ([0x08], 2))
      else if c = 0x66 then Some (Some ([0x0C], 2))
      else if c = 0x6E then Some (Some ([0x0A], 2))
      else if c = 0x72 then Some (Some ([0x0D], 2))
      else if c = 0x74 then Some (Some ([0x09], 2))
      else if c = 0x22 \<or> c = 0x5C \<or> c = 0x2F then Some (Some ([c], 2))
      else if c = 0x75 then utf16_literal_to_utf8 cs p input_end
      else Some None)"

text \<open>
  The second loop; \<open>cap\<close> is the size of the allocation. The result is the output, or the position of
  an escape that is wrong.
\<close>

partial_function (option) copy_string :: "u8 list \<Rightarrow> nat \<Rightarrow> nat \<Rightarrow> nat \<Rightarrow> u8 list \<Rightarrow> (nat + u8 list) option" where
  "copy_string cs p input_end cap out =
     (if input_end \<le> p then (if length out < cap then Some (Inr out) else None)
      else do {
        c \<leftarrow> nth_opt cs p;
        if c \<noteq> 0x5C then (if length out < cap then copy_string cs (p + 1) input_end cap (out @ [c]) else None)
        else do {
          c1 \<leftarrow> nth_opt cs (p + 1);
          r \<leftarrow> unescape cs p input_end c1;
          (case r of
             None \<Rightarrow> Some (Inl p)
           | Some (bs, n) \<Rightarrow> if length out + length bs \<le> cap then copy_string cs (p + n) input_end cap (out @ bs) else None)
        }
      })"

text \<open>The string that begins at the offset: its bytes up to the terminating zero.\<close>

definition parse_string :: "(nat \<Rightarrow> bool) \<Rightarrow> parse_buffer \<Rightarrow> u8 list parsed" where
  "parse_string ok b = do {
     let cs = pb_content b;
     let i = pb_offset b;
     let failed = advance 1 b;
     c \<leftarrow> nth_opt cs i;
     if c \<noteq> (0x22 :: u8) then Some (failed, None)
     else (case string_end cs (i + 1) 0 of
         None \<Rightarrow> Some (failed, None)
       | Some (input_end, skipped_bytes) \<Rightarrow>
           (let allocation_length = input_end - i - skipped_bytes; b1 = b\<lparr>pb_allocs := pb_allocs b + 1\<rparr> in
            if \<not> ok (pb_allocs b) then Some (advance 1 b1, None)
            else do {
              r \<leftarrow> copy_string cs (i + 1) input_end (allocation_length + 1) [];
              Some (case r of
                  Inl p \<Rightarrow> (b1\<lparr>pb_offset := p\<rparr>, None)
                | Inr out \<Rightarrow> (b1\<lparr>pb_offset := input_end + 1\<rparr>, Some (takeWhile (\<lambda>c. c \<noteq> 0) out)))
            }))
   }"

section \<open>Arrays and objects\<close>

text \<open>
  The loops over the elements, with the parser of the elements as an argument; \<open>items\<close> are those
  parsed so far. In an object the name is parsed first.
\<close>

partial_function (option) array_loop ::
  "(nat \<Rightarrow> bool) \<Rightarrow> (parse_buffer \<Rightarrow> cJSON parsed) \<Rightarrow> parse_buffer \<Rightarrow> cJSON list \<Rightarrow> cJSON list parsed"
where
  "array_loop ok value b items =
     (case cJSON_New_Item ok b of (b0, allocated) \<Rightarrow>
        if \<not> allocated then Some (b0, None)
        else do {
          (b2, r) \<leftarrow> value (buffer_skip_whitespace (advance 1 b0));
          (case r of
             None \<Rightarrow> Some (b2, None)
           | Some item \<Rightarrow> (let b3 = buffer_skip_whitespace b2 in
               if at_offset b3 0x2C then array_loop ok value b3 (items @ [item])
               else if at_offset b3 0x5D then Some (b3, Some (items @ [item]))
               else Some (b3, None)))
        })"

definition parse_array :: "(nat \<Rightarrow> bool) \<Rightarrow> (parse_buffer \<Rightarrow> cJSON parsed) \<Rightarrow> parse_buffer \<Rightarrow> cJSON parsed" where
  "parse_array ok value b = do {
     c \<leftarrow> nth_opt (pb_content b) (pb_offset b);
     if c \<noteq> 0x5B then Some (b, None)
     else (let b1 = buffer_skip_whitespace (advance 1 b) in
       if at_offset b1 0x5D then Some (advance 1 b1, Some (CJSON cJSON_Array None [] None []))
       else if \<not> can_access b1 then Some (step_back b1, None)
       else do {
         (b2, r) \<leftarrow> array_loop ok value (step_back b1) [];
         Some (case r of None \<Rightarrow> (b2, None) | Some items \<Rightarrow> (advance 1 b2, Some (CJSON cJSON_Array None [] None items)))
       })
   }"

definition with_name :: "u8 list \<Rightarrow> cJSON \<Rightarrow> cJSON" where
  "with_name name item = CJSON (cj_type item) (cj_valuestring item) (cj_number item) (Some name) (cj_child item)"

partial_function (option) object_loop ::
  "(nat \<Rightarrow> bool) \<Rightarrow> (parse_buffer \<Rightarrow> cJSON parsed) \<Rightarrow> parse_buffer \<Rightarrow> cJSON list \<Rightarrow> cJSON list parsed"
where
  "object_loop ok value b items =
     (case cJSON_New_Item ok b of (b0, allocated) \<Rightarrow>
        if \<not> allocated then Some (b0, None)
        else do {
          (b1, s) \<leftarrow> parse_string ok (buffer_skip_whitespace (advance 1 b0));
          (case s of
             None \<Rightarrow> Some (b1, None)
           | Some name \<Rightarrow> (let b2 = buffer_skip_whitespace b1 in
               if \<not> at_offset b2 0x3A then Some (b2, None)
               else do {
                 (b3, r) \<leftarrow> value (buffer_skip_whitespace (advance 1 b2));
                 (case r of
                    None \<Rightarrow> Some (b3, None)
                  | Some item \<Rightarrow> (let b4 = buffer_skip_whitespace b3 in
                      if at_offset b4 0x2C then object_loop ok value b4 (items @ [with_name name item])
                      else if at_offset b4 0x7D then Some (b4, Some (items @ [with_name name item]))
                      else Some (b4, None)))
               }))
        })"

definition parse_object :: "(nat \<Rightarrow> bool) \<Rightarrow> (parse_buffer \<Rightarrow> cJSON parsed) \<Rightarrow> parse_buffer \<Rightarrow> cJSON parsed" where
  "parse_object ok value b =
     (if \<not> at_offset b 0x7B then Some (b, None)
      else (let b1 = buffer_skip_whitespace (advance 1 b) in
        if at_offset b1 0x7D then Some (advance 1 b1, Some (CJSON cJSON_Object None [] None []))
        else if \<not> can_access b1 then Some (step_back b1, None)
        else do {
          (b2, r) \<leftarrow> object_loop ok value (step_back b1) [];
          Some (case r of None \<Rightarrow> (b2, None) | Some items \<Rightarrow> (advance 1 b2, Some (CJSON cJSON_Object None [] None items)))
        }))"

section \<open>Values\<close>

definition literal_at :: "u8 list \<Rightarrow> parse_buffer \<Rightarrow> bool" where
  "literal_at s b \<longleftrightarrow> take (length s) (drop (pb_offset b) (pb_content b)) = s"

definition parse_scalar ::
  "(nat \<Rightarrow> bool) \<Rightarrow> (parse_buffer \<Rightarrow> cJSON parsed) \<Rightarrow> (parse_buffer \<Rightarrow> cJSON parsed) \<Rightarrow> parse_buffer \<Rightarrow> cJSON parsed"
where
  "parse_scalar ok arr obj b =
     (if literal_at (ascii ''null'') b then Some (advance 4 b, Some (CJSON cJSON_NULL None [] None []))
      else if literal_at (ascii ''false'') b then Some (advance 5 b, Some (CJSON cJSON_False None [] None []))
      else if literal_at (ascii ''true'') b then Some (advance 4 b, Some (CJSON cJSON_True None [] None []))
      else if at_offset b 0x22 then do {
        (b1, s) \<leftarrow> parse_string ok b;
        Some (b1, map_option (\<lambda>v. CJSON cJSON_String (Some v) [] None []) s)
      }
      else if can_access b \<and> (at_offset b 0x2D \<or> c_isdigit (pb_content b ! pb_offset b)) then parse_number b
      else if at_offset b 0x5B then arr b
      else if at_offset b 0x7B then obj b
      else Some (b, None))"

text \<open>The argument is how deep arrays and objects may still be nested: \<open>CJSON_NESTING_LIMIT\<close> less \<open>depth\<close>.\<close>

fun parse_value :: "(nat \<Rightarrow> bool) \<Rightarrow> nat \<Rightarrow> parse_buffer \<Rightarrow> cJSON parsed" where
  "parse_value ok 0 b = parse_scalar ok (\<lambda>b. Some (b, None)) (\<lambda>b. Some (b, None)) b"
| "parse_value ok (Suc d) b = parse_scalar ok (parse_array ok (parse_value ok d)) (parse_object ok (parse_value ok d)) b"

text \<open>
  What a call leaves: the item, the offset stored through \<open>return_parse_end\<close> (\<open>None\<close> when nothing is stored) and the position in \<open>global_error\<close> (\<open>None\<close>
  when it is reset to no text). An item that was begun is a value, so deleting it on a failure is that it is not returned.
\<close>

record parse_outcome =
  po_item :: "cJSON option"
  po_end :: "nat option"
  po_error :: "nat option"

definition parse_fail :: "bool \<Rightarrow> parse_buffer \<Rightarrow> parse_outcome" where
  "parse_fail wants_end b = (let position = (if can_access b then pb_offset b else length (pb_content b) - 1) in
     \<lparr>po_item = None, po_end = (if wants_end then Some position else None), po_error = Some position\<rparr>)"

text \<open>\<open>value\<close> is the memory from the text on, or \<open>None\<close> for \<open>NULL\<close>; the item is the first allocation.\<close>

definition cJSON_ParseWithOpts :: "(nat \<Rightarrow> bool) \<Rightarrow> u8 list option \<Rightarrow> bool \<Rightarrow> bool \<Rightarrow> parse_outcome option" where
  "cJSON_ParseWithOpts ok value wants_end require_null_terminated = (case value of
     None \<Rightarrow> Some \<lparr>po_item = None, po_end = None, po_error = None\<rparr>
   | Some memory \<Rightarrow> do {
       text \<leftarrow> c_str memory 0;
       (case cJSON_New_Item ok \<lparr>pb_content = text @ [0], pb_offset = 0, pb_allocs = 0\<rparr> of (b, allocated) \<Rightarrow>
          if \<not> allocated then Some (parse_fail wants_end b)
          else do {
            (b1, r) \<leftarrow> parse_value ok CJSON_NESTING_LIMIT (buffer_skip_whitespace b);
            (case r of
               None \<Rightarrow> Some (parse_fail wants_end b1)
             | Some item \<Rightarrow> (let b2 = (if require_null_terminated then buffer_skip_whitespace b1 else b1) in
                 if require_null_terminated \<and> \<not> at_offset b2 0 then Some (parse_fail wants_end b2)
                 else Some \<lparr>po_item = Some item, po_end = (if wants_end then Some (pb_offset b2) else None), po_error = None\<rparr>))
          })
     })"

definition cJSON_Parse :: "(nat \<Rightarrow> bool) \<Rightarrow> u8 list \<Rightarrow> cJSON option option" where
  "cJSON_Parse ok value = map_option po_item (cJSON_ParseWithOpts ok (Some value) False False)"

lemma cJSON_Parse_value:
  "cJSON_Parse ok value = do {
     text \<leftarrow> c_str value 0;
     (case cJSON_New_Item ok \<lparr>pb_content = text @ [0], pb_offset = 0, pb_allocs = 0\<rparr> of (b, allocated) \<Rightarrow>
        if \<not> allocated then Some None
        else do {
          (_, r) \<leftarrow> parse_value ok CJSON_NESTING_LIMIT (buffer_skip_whitespace b);
          Some r
        })
   }"
  by (cases "c_str value 0") (auto simp: cJSON_Parse_def cJSON_ParseWithOpts_def parse_fail_def Let_def split: prod.splits option.splits bind_splits)

end
