(* ===== verification/F32.thy ===== *)
theory F32
  imports Complex_Main
begin

text \<open>
  Single-precision arithmetic as the load balancer uses it: the conversion of an \<open>int\<close> and one
  division, rounded to 24 bits of significand, to the nearest and to even in the middle. The
  exponents that occur are far from the ends of the range.
\<close>

section \<open>Definitions\<close>

text \<open>Scaling \<open>a / b\<close> by a power of two so that its integer part has 24 bits.\<close>

function f32_scale :: "nat \<Rightarrow> nat \<Rightarrow> int \<Rightarrow> nat \<times> nat \<times> int" where
  "f32_scale a b k =
     (if a = 0 \<or> b = 0 then (a, b, k)
      else if a < 2 ^ 23 * b then f32_scale (2 * a) b (k - 1)
      else if 2 ^ 24 * b \<le> a then f32_scale a (2 * b) (k + 1)
      else (a, b, k))"
  by pat_completeness auto
termination
  by (relation "measure (\<lambda>(a, b, k). (2 ^ 23 * b - a) + (a + 1 - 2 ^ 24 * b))") auto

declare f32_scale.simps [simp del]

definition round_even :: "nat \<Rightarrow> nat \<Rightarrow> nat" where
  "round_even a b = (let q = a div b; r = a mod b in if 2 * r < b \<or> 2 * r = b \<and> even q then q else q + 1)"

definition f32_nat_div :: "nat \<Rightarrow> nat \<Rightarrow> real" where
  "f32_nat_div a b = (case f32_scale a b 0 of (a', b', k) \<Rightarrow> real (round_even a' b') * 2 powi k)"

text \<open>The conversion of an \<open>int\<close>; the result is an integer again.\<close>

definition f32_int :: "int \<Rightarrow> int" where
  "f32_int n = (if \<bar>n\<bar> < 2 ^ 24 then n
     else case f32_scale (nat \<bar>n\<bar>) 1 0 of (a', b', k) \<Rightarrow> sgn n * int (round_even a' b') * 2 ^ nat k)"

datatype f32 = F32 real | F32_inf | F32_neg_inf | F32_nan

definition f32_div :: "int \<Rightarrow> int \<Rightarrow> f32" where
  "f32_div a b =
     (if b = 0 then if a = 0 then F32_nan else if 0 < a then F32_inf else F32_neg_inf
      else F32 (if a = 0 then 0 else of_int (sgn a * sgn b) * f32_nat_div (nat \<bar>a\<bar>) (nat \<bar>b\<bar>)))"

fun f32_less :: "f32 \<Rightarrow> f32 \<Rightarrow> bool" where
  "f32_less (F32 x) (F32 y) \<longleftrightarrow> x < y"
| "f32_less F32_neg_inf (F32 y) \<longleftrightarrow> True"
| "f32_less F32_neg_inf F32_inf \<longleftrightarrow> True"
| "f32_less (F32 x) F32_inf \<longleftrightarrow> True"
| "f32_less _ _ \<longleftrightarrow> False"

section \<open>The rounding error\<close>

lemma f32_scale_value:
  assumes "0 < a" and "0 < b" and "f32_scale a b k = (a', b', k')"
  shows "0 < b' \<and> 2 ^ 23 * b' \<le> a' \<and> real a' / real b' * 2 powi k' = real a / real b * 2 powi k"
  using assms
proof (induction a b k rule: f32_scale.induct)
  case (1 a b k)
  have p1: "(2 :: real) powi (k - 1) * 2 = 2 powi k" by (simp add: power_int_diff)
  have p2: "(2 :: real) powi (k + 1) = 2 powi k * 2" by (simp add: power_int_add)
  consider "a < 2 ^ 23 * b" | "2 ^ 24 * b \<le> a" | "2 ^ 23 * b \<le> a" "a < 2 ^ 24 * b" by linarith
  then show ?case
  proof cases
    case 1
    then have "f32_scale (2 * a) b (k - 1) = (a', b', k')" using "1.prems" by (simp add: f32_scale.simps [of a])
    then have "0 < b' \<and> 2 ^ 23 * b' \<le> a' \<and> real a' / real b' * 2 powi k' = real (2 * a) / real b * 2 powi (k - 1)"
      using "1.IH"(1) 1 "1.prems"(1,2) by simp
    then show ?thesis using p1 by (simp add: field_simps)
  next
    case 2
    then have "f32_scale a (2 * b) (k + 1) = (a', b', k')" using "1.prems" by (simp add: f32_scale.simps [of a])
    then have "0 < b' \<and> 2 ^ 23 * b' \<le> a' \<and> real a' / real b' * 2 powi k' = real a / real (2 * b) * 2 powi (k + 1)"
      using "1.IH"(2) 2 "1.prems"(1,2) by simp
    then show ?thesis using p2 by simp
  next
    case 3
    then show ?thesis using "1.prems" by (simp add: f32_scale.simps [of a])
  qed
qed

lemma round_even_error:
  assumes "0 < b"
  shows "\<bar>real (round_even a b) - real a / real b\<bar> \<le> 1 / 2"
proof -
  define q r where "q = a div b" and "r = a mod b"
  have a: "real a = real b * real q + real r" unfolding q_def r_def by (metis mult_div_mod_eq of_nat_add of_nat_mult)
  have r: "real r < real b" unfolding r_def using assms by simp
  have b: "0 < real b" using assms by simp
  then have d: "real a / real b = real q + real r / real b" using a by (simp add: field_simps)
  have "round_even a b = (if 2 * r < b \<or> 2 * r = b \<and> even q then q else q + 1)"
    by (simp add: round_even_def Let_def q_def r_def)
  moreover have "2 * r \<le> b \<Longrightarrow> real r / real b \<le> 1 / 2" "b \<le> 2 * r \<Longrightarrow> 1 / 2 \<le> real r / real b" "real r / real b \<le> 1" "0 \<le> real r / real b"
    using b r by (simp_all add: field_simps)
  ultimately show ?thesis unfolding d by (auto split: if_splits)
qed

text \<open>The quotient is exact up to a relative error of \<open>2 ^ - 24\<close>.\<close>

lemma f32_nat_div_error:
  assumes "0 < a" and "0 < b"
  shows "\<bar>f32_nat_div a b - real a / real b\<bar> \<le> real a / real b / 2 ^ 24"
proof -
  obtain a' b' k where s: "f32_scale a b 0 = (a', b', k)" by (cases "f32_scale a b 0") auto
  have v: "0 < b'" "2 ^ 23 * b' \<le> a'" "real a' / real b' * 2 powi k = real a / real b"
    using f32_scale_value [OF assms s] by auto
  have "2 ^ 23 * real b' \<le> real a'" using v(2) by (metis of_nat_le_iff of_nat_mult of_nat_numeral of_nat_power)
  then have h: "1 / 2 \<le> real a' / real b' / 2 ^ 24" using v(1) by (simp add: field_simps)
  have "f32_nat_div a b - real a / real b = (real (round_even a' b') - real a' / real b') * 2 powi k"
    using v(3) by (simp add: f32_nat_div_def s left_diff_distrib)
  also have "\<bar>\<dots>\<bar> \<le> (real a' / real b' / 2 ^ 24) * 2 powi k"
  proof -
    have "\<bar>real (round_even a' b') - real a' / real b'\<bar> \<le> real a' / real b' / 2 ^ 24"
      using round_even_error [OF v(1), of a'] h by linarith
    then show ?thesis unfolding abs_mult by (simp add: mult_right_mono del: times_divide_eq_left divide_divide_eq_left)
  qed
  also have "\<dots> = real a / real b / 2 ^ 24" unfolding v(3) [symmetric] by simp
  finally show ?thesis .
qed

text \<open>So small quotients are compared as if they were exact.\<close>

lemma f32_nat_div_order:
  assumes "0 < b" and "0 < d" and "0 < a" and "0 < c" and "a * d + c * b < 2 ^ 24" and "f32_nat_div a b \<le> f32_nat_div c d"
  shows "a * d \<le> c * b"
proof (rule ccontr)
  assume "\<not> a * d \<le> c * b"
  then have "c * b + 1 \<le> a * d" by simp
  then have gt: "real c * real b + 1 \<le> real a * real d" by (metis of_nat_1 of_nat_add of_nat_le_iff of_nat_mult)
  have "real a / real b - real a / real b / 2 ^ 24 \<le> real c / real d + real c / real d / 2 ^ 24"
    using f32_nat_div_error [OF assms(3,1)] f32_nat_div_error [OF assms(4,2)] assms(6) by linarith
  then have "(real a * real d) * (1 - 1 / 2 ^ 24) \<le> (real c * real b) * (1 + 1 / 2 ^ 24)"
    using assms(1,2) by (simp add: field_simps)
  then have "real a * real d - real c * real b \<le> (real a * real d + real c * real b) / 2 ^ 24" by (simp add: field_simps)
  moreover have "real a * real d + real c * real b < 2 ^ 24" using assms(5) by (metis of_nat_add of_nat_less_iff of_nat_mult of_nat_numeral of_nat_power)
  then have "(real a * real d + real c * real b) / 2 ^ 24 < 1" by simp
  ultimately show False using gt by linarith
qed

lemma f32_nat_div_pos: "0 < a \<Longrightarrow> 0 < b \<Longrightarrow> 0 < f32_nat_div a b"
proof -
  assume p: "0 < a" "0 < b"
  have q: "0 < real a / real b" using p by simp
  then have "real a / real b / 2 ^ 24 < real a / real b" by simp
  then show ?thesis using f32_nat_div_error [OF p] by linarith
qed

end
