(* ===== verification/Sd.thy ===== *)
theory Sd
  imports Acm_Conn Cstr Cjson_Parse F32
begin

text \<open>
  The service discovery of \<^verbatim>\<open>src/core/service-discovery.c\<close> and the etcd client of \<^verbatim>\<open>src/core/etcdctl.c\<close>: a hash
  table of services, for each service a circular list of its endpoints sorted by load level, filled from
  etcd's answer, and the choice of the endpoint with the fewest open requests per unit of load level.
\<close>

section \<open>Data\<close>

abbreviation (input) SERVICE_DISCOVERY_MAX_SERVICE_NUM :: nat where "SERVICE_DISCOVERY_MAX_SERVICE_NUM \<equiv> 1024"
abbreviation (input) SERVICE_DISCOVERY_MAX_KEY_LEN :: nat where "SERVICE_DISCOVERY_MAX_KEY_LEN \<equiv> 1024"
abbreviation (input) SERVICE_DISCOVERY_MAX_LOAD_BALANCE_LIST_LEN :: nat where "SERVICE_DISCOVERY_MAX_LOAD_BALANCE_LIST_LEN \<equiv> 10000"
abbreviation (input) ETCD_MAX_CURL_URL_LEN :: nat where "ETCD_MAX_CURL_URL_LEN \<equiv> 1024"

record sd_endpoint =
  ep_p_agent_channel :: addr
  ep_load_level :: int
  ep_remain :: u64
  ep_prev :: addr
  ep_next :: addr

record sd_service_node =
  sn_service_name :: "u8 list"
  sn_hash_code :: u32
  sn_endpoints_num :: int
  sn_p_next_req_endpoint :: addr
  sn_comsuming_list :: addr
  sn_saturated_list :: addr
  sn_load_balance_list :: "addr list"
  sn_lb_list_len :: int
  sn_next_select_ep :: u64
  sn_next :: addr

text \<open>Offsets of the two list heads in \<open>struct sd_service_node\<close> on LP64.\<close>

abbreviation (input) OFFSET_LIST1 :: nat where "OFFSET_LIST1 \<equiv> 80056"
abbreviation (input) OFFSET_LIST2 :: nat where "OFFSET_LIST2 \<equiv> 80096"

record etcdctl_handle =
  et_etcd_url :: "u8 list"
  et_port :: int

record sd_handle =
  sh_etcd_handle :: etcdctl_handle
  sh_service_tb :: "addr list"
  sh_service_tb_size :: s32

text \<open>
  The memory the service discovery works on: endpoints and list heads, which of them \<open>malloc\<close> gave (the
  heads lie inside their service node), service nodes, channels, and what the agent client manager owns.
\<close>

record sd_mem =
  sm_eps :: "addr \<Rightarrow> sd_endpoint option"
  sm_malloced :: "addr \<Rightarrow> bool"
  sm_nodes :: "addr \<Rightarrow> sd_service_node option"
  sm_chans :: "addr \<Rightarrow> acm_channel option"
  sm_mem :: mm_mem
  sm_acm :: "acm_handle option"

definition ep_upd :: "sd_mem \<Rightarrow> addr \<Rightarrow> (sd_endpoint \<Rightarrow> sd_endpoint) \<Rightarrow> sd_mem option" where
  "ep_upd m p f = (case sm_eps m p of None \<Rightarrow> None | Some e \<Rightarrow> Some (m\<lparr>sm_eps := (sm_eps m)(p \<mapsto> f e)\<rparr>))"

definition ep_free :: "sd_mem \<Rightarrow> addr \<Rightarrow> sd_mem option" where
  "ep_free m p = (if sm_malloced m p \<and> sm_eps m p \<noteq> None
     then Some (m\<lparr>sm_eps := (sm_eps m)(p := None), sm_malloced := (sm_malloced m)(p := False)\<rparr>) else None)"

section \<open>The list of endpoints\<close>

text \<open>The search for the place: the last node with a larger load level, and its successor.\<close>

partial_function (option) sd_find_place :: "sd_mem \<Rightarrow> addr \<Rightarrow> int \<Rightarrow> addr \<Rightarrow> addr \<Rightarrow> (addr \<times> addr) option" where
  "sd_find_place m p_head load pre now =
     (if now = p_head then Some (pre, now)
      else do {
        e \<leftarrow> sm_eps m now;
        if load \<ge> ep_load_level e then Some (pre, now)
        else sd_find_place m p_head load now (ep_next e)
      })"

text \<open>The assignments that link the new node between \<open>pre\<close> and its successor \<open>now\<close>.\<close>

definition sd_link :: "sd_mem \<Rightarrow> addr \<Rightarrow> addr \<Rightarrow> addr \<Rightarrow> sd_mem option" where
  "sd_link m pre now p_will_add = do {
     m1 \<leftarrow> ep_upd m p_will_add (\<lambda>e. e\<lparr>ep_remain := of_int (ep_load_level e)\<rparr>);
     m2 \<leftarrow> ep_upd m1 p_will_add (ep_next_update (\<lambda>_. now));
     m3 \<leftarrow> ep_upd m2 pre (ep_next_update (\<lambda>_. p_will_add));
     m4 \<leftarrow> ep_upd m3 p_will_add (ep_prev_update (\<lambda>_. pre));
     ep_upd m4 now (ep_prev_update (\<lambda>_. p_will_add))
   }"

definition sd_insert_endpoint :: "sd_mem \<Rightarrow> addr \<Rightarrow> addr \<Rightarrow> (sd_mem \<times> int) option" where
  "sd_insert_endpoint m p_head p_will_add =
     (if p_head = NULL \<or> p_will_add = NULL then Some (m, - 1)
      else do {
        h \<leftarrow> sm_eps m p_head;
        n \<leftarrow> sm_eps m p_will_add;
        (pre, now) \<leftarrow> sd_find_place m p_head (ep_load_level n) p_head (ep_next h);
        m1 \<leftarrow> sd_link m pre now p_will_add;
        Some (m1, 1)
      })"

text \<open>The release loop, which ends only at a node that is its own successor.\<close>

partial_function (option) sd_rls_list :: "sd_mem \<Rightarrow> addr \<Rightarrow> (sd_mem \<times> addr) option" where
  "sd_rls_list m p_ep = do {
     e \<leftarrow> sm_eps m p_ep;
     if ep_next e = p_ep then Some (m, p_ep)
     else do {
       m1 \<leftarrow> ep_free m p_ep;
       sd_rls_list m1 (ep_next e)
     }
   }"

definition sd_rls_endpoints :: "sd_mem \<Rightarrow> addr \<Rightarrow> (sd_mem \<times> int) option" where
  "sd_rls_endpoints m p_service_node = do {
     sn \<leftarrow> sm_nodes m p_service_node;
     h1 \<leftarrow> sm_eps m (sn_comsuming_list sn);
     (m1, p1) \<leftarrow> sd_rls_list m (ep_next h1);
     m2 \<leftarrow> ep_upd m1 p1 (ep_prev_update (\<lambda>_. p1));
     h2 \<leftarrow> sm_eps m2 (sn_saturated_list sn);
     (m3, p2) \<leftarrow> sd_rls_list m2 (ep_next h2);
     m4 \<leftarrow> ep_upd m3 p2 (ep_prev_update (\<lambda>_. p2));
     Some (m4\<lparr>sm_nodes := (sm_nodes m4)(p_service_node \<mapsto> sn\<lparr>sn_p_next_req_endpoint := sn_comsuming_list sn, sn_endpoints_num := 0\<rparr>)\<rparr>, 1)
   }"

section \<open>The table of services\<close>

text \<open>Strings are given without their terminating zero.\<close>

definition sd_hash_code :: "u8 list \<Rightarrow> u32" where
  "sd_hash_code str = fold (\<lambda>c h. 31 * h + ucast c) str 0"

definition sd_tb_index :: "sd_handle \<Rightarrow> u8 list \<Rightarrow> nat option" where
  "sd_tb_index h service_name =
     (let n = sh_service_tb_size h in if n = 0 then None else Some (unat (sd_hash_code service_name mod n)))"

partial_function (option) sd_chain_find :: "sd_mem \<Rightarrow> u8 list \<Rightarrow> addr \<Rightarrow> addr option" where
  "sd_chain_find m service_name p =
     (if p = NULL then Some NULL
      else do {
        sn \<leftarrow> sm_nodes m p;
        if sn_service_name sn = service_name then Some p else sd_chain_find m service_name (sn_next sn)
      })"

text \<open>
  \<open>a\<close> and \<open>b\<close> are what \<open>malloc\<close> returns for the node and for the copy of the name; neither is tested.
  \<open>raw\<close> is the uninitialised load balancing array.
\<close>

definition sd_add_and_init_service ::
  "addr \<Rightarrow> addr \<Rightarrow> (nat \<Rightarrow> addr) \<Rightarrow> sd_mem \<Rightarrow> sd_handle \<Rightarrow> u8 list \<Rightarrow> (sd_mem \<times> sd_handle \<times> addr) option"
where
  "sd_add_and_init_service a b raw m h service_name = do {
     i \<leftarrow> sd_tb_index h service_name;
     first \<leftarrow> nth_opt (sh_service_tb h) i;
     p \<leftarrow> sd_chain_find m service_name first;
     if p \<noteq> NULL then do {
       (m1, _) \<leftarrow> sd_rls_endpoints m p;
       Some (m1, h, p)
     }
     else if a = NULL \<or> b = NULL then None
     else (let h1 = a + OFFSET_LIST1; h2 = a + OFFSET_LIST2;
               sn = \<lparr>sn_service_name = service_name, sn_hash_code = sd_hash_code service_name, sn_endpoints_num = 0,
                 sn_p_next_req_endpoint = h1, sn_comsuming_list = h1, sn_saturated_list = h2,
                 sn_load_balance_list = map raw [0..<SERVICE_DISCOVERY_MAX_LOAD_BALANCE_LIST_LEN],
                 sn_lb_list_len = 0, sn_next_select_ep = 0, sn_next = first\<rparr> in
       Some (m\<lparr>sm_nodes := (sm_nodes m)(a \<mapsto> sn),
              sm_eps := (sm_eps m)(h1 \<mapsto> \<lparr>ep_p_agent_channel = NULL, ep_load_level = 0, ep_remain = 0, ep_prev = h1, ep_next = h1\<rparr>,
                                   h2 \<mapsto> \<lparr>ep_p_agent_channel = NULL, ep_load_level = 0, ep_remain = 0, ep_prev = h2, ep_next = h2\<rparr>)\<rparr>,
             h\<lparr>sh_service_tb := (sh_service_tb h)[i := a]\<rparr>, a))
   }"

text \<open>The lookup takes the first node of the chain; the comparison of the name is commented out.\<close>

definition sd_get_service_node :: "sd_handle \<Rightarrow> u8 list \<Rightarrow> addr option" where
  "sd_get_service_node h service_name = do {
     i \<leftarrow> sd_tb_index h service_name;
     nth_opt (sh_service_tb h) i
   }"

section \<open>Etcd\<close>

definition etcd_init :: "u8 list option \<Rightarrow> int \<Rightarrow> addr \<Rightarrow> addr \<Rightarrow> etcdctl_handle option option" where
  "etcd_init etcd_url port a b = (case etcd_url of
     None \<Rightarrow> Some None
   | Some url \<Rightarrow> if a = NULL \<or> b = NULL then None else Some (Some \<lparr>et_etcd_url = url, et_port = port\<rparr>))"

text \<open>
  The transfer: \<open>chunks\<close> is what the server sends for a url, piece by piece. The callback parses a piece and
  returns 0, which tells libcurl to stop: only the first piece is seen. libcurl does not put a zero behind
  a piece: \<open>behind\<close> is the memory there, into which \<open>cJSON_Parse\<close> reads.
\<close>

definition etcd_process_get_data :: "(nat \<Rightarrow> bool) \<Rightarrow> u8 list \<Rightarrow> u8 list \<Rightarrow> (cJSON option \<times> nat) option" where
  "etcd_process_get_data ok behind buffer = do {
     ret_json \<leftarrow> cJSON_Parse ok (buffer @ behind);
     Some (ret_json, 0)
   }"

fun curl_perform :: "(nat \<Rightarrow> bool) \<Rightarrow> u8 list \<Rightarrow> u8 list list \<Rightarrow> cJSON option \<Rightarrow> cJSON option option" where
  "curl_perform ok behind [] ret = Some ret"
| "curl_perform ok behind (c # cs) ret = do {
     (ret1, n) \<leftarrow> etcd_process_get_data ok behind c;
     if n = length c then curl_perform ok behind cs ret1 else Some ret1
   }"

record etcd_env =
  ee_global_init :: int
  ee_easy_init :: bool
  ee_chunks :: "u8 list \<Rightarrow> u8 list list"
  ee_alloc :: "nat \<Rightarrow> bool"
  ee_behind :: "u8 list"

definition etcd_get :: "etcd_env \<Rightarrow> etcdctl_handle \<Rightarrow> u8 list \<Rightarrow> cJSON option option" where
  "etcd_get e h key_or_dir =
     (if ee_global_init e \<noteq> 0 then Some None
      else if \<not> ee_easy_init e then Some None
      else (let curl_url = et_etcd_url h @ ascii ''/v2/keys'' @ key_or_dir in
        if ETCD_MAX_CURL_URL_LEN \<le> length curl_url then None
        else curl_perform (ee_alloc e) (ee_behind e) (ee_chunks e curl_url) None))"

section \<open>Initialisation\<close>

record sd_init_env =
  ie_handle :: addr
  ie_etcd :: addr
  ie_url :: addr

definition sd_init :: "sd_init_env \<Rightarrow> u8 list option \<Rightarrow> sd_handle option option" where
  "sd_init e etcd_url =
     (if etcd_url = None then Some None
      else if ie_handle e = NULL then Some None
      else do {
        etcd \<leftarrow> etcd_init etcd_url 0 (ie_etcd e) (ie_url e);
        (case etcd of None \<Rightarrow> Some None
         | Some et \<Rightarrow> Some (Some \<lparr>sh_etcd_handle = et, sh_service_tb = replicate SERVICE_DISCOVERY_MAX_SERVICE_NUM NULL,
             sh_service_tb_size = of_nat SERVICE_DISCOVERY_MAX_SERVICE_NUM\<rparr>))
      })"

section \<open>Finding a service\<close>

text \<open>
  The loop of \<open>sd_parse_ip_and_port\<close>: it goes from the terminating zero at index \<open>strlen(src)\<close> down to
  index 1. \<open>src\<close> is the string with its zero; the results are what was written to \<open>ip_buf\<close>, an array of
  16 bytes, and to \<open>port\<close>.
\<close>

function parse_ip_port :: "u8 list \<Rightarrow> nat \<Rightarrow> int option \<Rightarrow> (u8 list option \<times> int option) option" where
  "parse_ip_port src i port =
     (if i = 0 then Some (None, port)
      else do {
        c \<leftarrow> nth_opt src i;
        (src1, port1) \<leftarrow>
          (if c = 0x3A then do {
             s \<leftarrow> c_str src (i + 1);
             v \<leftarrow> c_atoi s;
             src' \<leftarrow> upd_opt src i 0;
             Some (src', Some v)
           } else Some (src, port));
        if c = 0x2F then do {
          ip \<leftarrow> c_str src1 (i + 1);
          if 16 \<le> length ip then None else Some (Some ip, port1)
        } else parse_ip_port src1 (i - 1) port1
      })"
  by pat_completeness auto
termination
  by (relation "measure (\<lambda>(src, i, port). i)") auto

declare parse_ip_port.simps [simp del]

text \<open>For the empty string the loop begins at index 0 and runs below the array.\<close>

definition sd_parse_ip_and_port :: "u8 list \<Rightarrow> (u8 list option \<times> int option) option" where
  "sd_parse_ip_and_port src = (if src = [] then None else parse_ip_port (src @ [0]) (length src) None)"

text \<open>The entries for one endpoint in the load balancing array of 10000 cells.\<close>

fun lb_fill :: "nat \<Rightarrow> addr \<Rightarrow> sd_service_node \<Rightarrow> sd_service_node option" where
  "lb_fill 0 ep sn = Some sn"
| "lb_fill (Suc n) ep sn = do {
     l \<leftarrow> upd_opt (sn_load_balance_list sn) (nat (sn_lb_list_len sn)) ep;
     lb_fill n ep (sn\<lparr>sn_load_balance_list := l, sn_lb_list_len := sn_lb_list_len sn + 1\<rparr>)
   }"

text \<open>
  One entry of etcd's answer. The key and the value are used before they are tested; an uninitialised
  address or port is undefined. \<open>ce\<close> is what the system gives to the connection and \<open>a\<close> to the endpoint.
  The result says whether the loop goes on; \<open>-5\<close> ends it.
\<close>

definition sd_add_endpoint :: "conn_env \<Rightarrow> addr \<Rightarrow> addr \<Rightarrow> sd_mem \<Rightarrow> cJSON \<Rightarrow> (sd_mem \<times> int) option" where
  "sd_add_endpoint ce a p_service_node m node = do {
     key \<leftarrow> cJSON_GetObjectItemCaseSensitive (Some node) (ascii ''key'');
     val \<leftarrow> cJSON_GetObjectItemCaseSensitive (Some node) (ascii ''value'');
     (case (key, val) of
        (Some k, Some v) \<Rightarrow>
          if cJSON_IsNull key \<or> cJSON_IsNull val then Some (m, - 5)
          else do {
            ks \<leftarrow> cj_valuestring k;
            (ip, port) \<leftarrow> sd_parse_ip_and_port ks;
            ip' \<leftarrow> ip;
            port' \<leftarrow> port;
            (mm, acm, ch) \<leftarrow> acm_connect ce (sm_mem m) (sm_acm m) ip' (of_int port');
            (let m1 = m\<lparr>sm_mem := mm, sm_acm := acm\<rparr> in
             case ch of
               None \<Rightarrow> Some (m1, 1)
             | Some (p, chan) \<Rightarrow>
                 if a = NULL then None
                 else do {
                   vs \<leftarrow> cj_valuestring v;
                   load \<leftarrow> c_atoi vs;
                   let m2 = m1\<lparr>sm_chans := (sm_chans m1)(p \<mapsto> chan),
                     sm_eps := (sm_eps m1)(a \<mapsto> \<lparr>ep_p_agent_channel = p, ep_load_level = load, ep_remain = of_int load, ep_prev = NULL, ep_next = NULL\<rparr>),
                     sm_malloced := (sm_malloced m1)(a := True)\<rparr>;
                   sn \<leftarrow> sm_nodes m2 p_service_node;
                   (m3, _) \<leftarrow> sd_insert_endpoint m2 (sn_comsuming_list sn) a;
                   sn1 \<leftarrow> sm_nodes m3 p_service_node;
                   sn2 \<leftarrow> lb_fill (nat load) a sn1;
                   Some (m3\<lparr>sm_nodes := (sm_nodes m3)(p_service_node \<mapsto> sn2)\<rparr>, 1)
                 })
          }
      | _ \<Rightarrow> None)
   }"

fun sd_add_endpoints :: "(conn_env \<times> addr) list \<Rightarrow> addr \<Rightarrow> sd_mem \<Rightarrow> cJSON list \<Rightarrow> (sd_mem \<times> int) option" where
  "sd_add_endpoints es sn m [] = Some (m, 1)"
| "sd_add_endpoints [] sn m (node # nodes) = None"
| "sd_add_endpoints ((ce, a) # es) sn m (node # nodes) = do {
     (m1, r) \<leftarrow> sd_add_endpoint ce a sn m node;
     if r < 0 then Some (m1, r) else sd_add_endpoints es sn m1 nodes
   }"

text \<open>What the system gives to one search for a service.\<close>

record find_env =
  fe_node :: addr
  fe_name :: addr
  fe_raw :: "nat \<Rightarrow> addr"
  fe_etcd :: etcd_env
  fe_conns :: "(conn_env \<times> addr) list"

text \<open>
  \<open>sd_service_find\<close>; the key is printed into an array of 1024 bytes. Whatever fails, the node of the
  service stays in the table.
\<close>

definition sd_service_find :: "find_env \<Rightarrow> sd_mem \<Rightarrow> sd_handle \<Rightarrow> u8 list \<Rightarrow> (sd_mem \<times> sd_handle \<times> int) option" where
  "sd_service_find e m h service_name = do {
     (m1, h1, sn) \<leftarrow> sd_add_and_init_service (fe_node e) (fe_name e) (fe_raw e) m h service_name;
     let etcd_key = ascii ''/dubbomesh/'' @ service_name;
     if SERVICE_DISCOVERY_MAX_KEY_LEN \<le> length etcd_key then None
     else do {
       json \<leftarrow> etcd_get (fe_etcd e) (sh_etcd_handle h1) etcd_key;
       if json = None then Some (m1, h1, - 1)
       else do {
         node \<leftarrow> cJSON_GetObjectItemCaseSensitive json (ascii ''node'');
         if node = None then Some (m1, h1, - 2)
         else do {
           nodes \<leftarrow> cJSON_GetObjectItemCaseSensitive node (ascii ''nodes'');
           (case nodes of
              None \<Rightarrow> Some (m1, h1, - 3)
            | Some ns \<Rightarrow> do {
                (m2, r) \<leftarrow> sd_add_endpoints (fe_conns e) sn m1 (cj_child ns);
                if r < 0 then Some (m2, h1, r)
                else do {
                  n \<leftarrow> sm_nodes m2 sn;
                  hd1 \<leftarrow> sm_eps m2 (sn_comsuming_list n);
                  Some (m2\<lparr>sm_nodes := (sm_nodes m2)(sn \<mapsto> n\<lparr>sn_p_next_req_endpoint := ep_next hd1\<rparr>)\<rparr>, h1, 1)
                }
              })
         }
       }
     }
   }"

section \<open>Choosing an endpoint\<close>

text \<open>The number of open requests is cut to an \<open>int\<close>; \<open>opt\<close> is \<open>None\<close> while the pointer is uninitialised.\<close>

partial_function (option) sd_select :: "sd_mem \<Rightarrow> addr \<Rightarrow> addr \<Rightarrow> f32 \<Rightarrow> addr option \<Rightarrow> addr option option" where
  "sd_select m head p_endpoint min_ppl opt =
     (if p_endpoint = head then Some opt
      else do {
        e \<leftarrow> sm_eps m p_endpoint;
        ch \<leftarrow> sm_chans m (ep_p_agent_channel e);
        let cur_req_num = sint (ucast (ac_request_num ch) :: s32);
        let cur_ppl = f32_div (f32_int cur_req_num) (f32_int (ep_load_level e));
        if f32_less cur_ppl min_ppl \<and> cur_req_num < 200
        then sd_select m head (ep_next e) cur_ppl (Some p_endpoint)
        else sd_select m head (ep_next e) min_ppl opt
      })"

text \<open>The section under \<open>ep_link_spinlock\<close>, which also counts the new request.\<close>

definition sd_choose :: "sd_mem \<Rightarrow> addr \<Rightarrow> (sd_mem \<times> addr) option" where
  "sd_choose m p_service_node = do {
     sn \<leftarrow> sm_nodes m p_service_node;
     hd1 \<leftarrow> sm_eps m (sn_comsuming_list sn);
     opt \<leftarrow> sd_select m (sn_comsuming_list sn) (ep_next hd1) (F32 (of_int (f32_int 999999999))) None;
     p \<leftarrow> opt;
     e \<leftarrow> sm_eps m p;
     ch \<leftarrow> sm_chans m (ep_p_agent_channel e);
     Some (m\<lparr>sm_chans := (sm_chans m)(ep_p_agent_channel e \<mapsto> ch\<lparr>ac_request_num := ac_request_num ch + 1\<rparr>)\<rparr>, ep_p_agent_channel e)
   }"

text \<open>The whole operation; the result is the address of the channel, or \<open>NULL\<close>.\<close>

definition sd_get_optimal_endpoint ::
  "find_env \<Rightarrow> sd_mem \<Rightarrow> sd_handle \<Rightarrow> u8 list \<Rightarrow> (sd_mem \<times> sd_handle \<times> addr) option"
where
  "sd_get_optimal_endpoint e m h service_name = do {
     p \<leftarrow> sd_get_service_node h service_name;
     if p \<noteq> NULL then do { (m1, ch) \<leftarrow> sd_choose m p; Some (m1, h, ch) }
     else do {
       (m1, h1, r) \<leftarrow> sd_service_find e m h service_name;
       if r < 0 then Some (m1, h1, NULL)
       else do {
         q \<leftarrow> sd_get_service_node h1 service_name;
         (m2, ch) \<leftarrow> sd_choose m1 q;
         Some (m2, h1, ch)
       }
     }
   }"

end
