(* ===== verification/Consumer.thy ===== *)
theory Consumer
  imports Http_Server Sd
begin

unbundle bit_operations_syntax

text \<open>
  The agent itself, \<^verbatim>\<open>src/core/consumer-agent.c\<close>: the handler of HTTP requests, which chooses a provider by
  the name of the service in the form and forwards the form to it, the listener that sends the
  provider's answer back, and the start of all parts.
\<close>

section \<open>Reading the form\<close>

fun param_start :: "u8 list \<Rightarrow> nat \<Rightarrow> nat \<Rightarrow> nat option" where
  "param_start [] i k = None"
| "param_start (c # cs) i k = (if c = 0 then Some k else param_start cs (i + 1) (if c = 0x3D then i + 1 else k))"

definition get_parameter_start_index :: "u8 list \<Rightarrow> nat option" where
  "get_parameter_start_index str = param_start str 0 0"

text \<open>\<open>char\<close> is signed, and an overflow of the signed \<open>int\<close> is undefined.\<close>

fun hash_loop :: "u8 list \<Rightarrow> int \<Rightarrow> int option" where
  "hash_loop [] h = None"
| "hash_loop (c # cs) h =
     (if c = 0 then Some h
      else (let v = 31 * h + sint c in
        if 31 * h < - (2 ^ 31) \<or> 2 ^ 31 \<le> 31 * h \<or> v < - (2 ^ 31) \<or> 2 ^ 31 \<le> v then None else hash_loop cs v))"

definition hash_code :: "u8 list \<Rightarrow> int option" where
  "hash_code str = hash_loop str 0"

definition hex2dec :: "u8 \<Rightarrow> int" where
  "hex2dec c =
     (if 48 \<le> c \<and> c \<le> 57 then uint c - 48
      else if 97 \<le> c \<and> c \<le> 102 then uint c - 97 + 10
      else if 65 \<le> c \<and> c \<le> 70 then uint c - 65 + 10
      else - 1)"

text \<open>The loop of \<open>get_service_name\<close>, with \<open>i\<close>, \<open>is_param_start\<close>, the array \<open>dst_buf\<close> and \<open>dst_index\<close>.\<close>

function service_name_loop :: "u8 list \<Rightarrow> nat \<Rightarrow> bool \<Rightarrow> u8 list \<Rightarrow> nat \<Rightarrow> (u8 list \<times> nat) option" where
  "service_name_loop src i is_param_start dst dst_index = do {
     c \<leftarrow> nth_opt src i;
     if c = 0 \<or> c = 0x26 then Some (dst, dst_index)
     else if c = 0x3D then service_name_loop src (i + 1) True dst dst_index
     else if \<not> is_param_start then service_name_loop src (i + 1) is_param_start dst dst_index
     else if c \<noteq> 0x25 then do {
       dst1 \<leftarrow> upd_opt dst dst_index c;
       service_name_loop src (i + 1) is_param_start dst1 (dst_index + 1)
     } else do {
       c1 \<leftarrow> nth_opt src (i + 1);
       c0 \<leftarrow> nth_opt src (i + 2);
       dst1 \<leftarrow> upd_opt dst dst_index (of_int (hex2dec c1 * 16 + hex2dec c0));
       service_name_loop src (i + 3) is_param_start dst1 (dst_index + 1)
     }
   }"
  by pat_completeness auto
termination
  by (relation "measure (\<lambda>(src, i, _). length src - i)") (auto dest!: nth_opt_SomeD)

declare service_name_loop.simps [simp del]

definition get_service_name :: "u8 list \<Rightarrow> u8 list \<Rightarrow> u8 list option" where
  "get_service_name src dst_buf = do {
     (dst, dst_index) \<leftarrow> service_name_loop src 0 False dst_buf 0;
     upd_opt dst dst_index 0
   }"

section \<open>Handling requests\<close>

abbreviation (input) FN_acm_listening :: addr where "FN_acm_listening \<equiv> 8"
abbreviation (input) FN_content_handler :: addr where "FN_content_handler \<equiv> 9"

text \<open>
  The globals of the agent, and what the system gives to one request: what the search for a service
  needs, the uninitialised array \<open>service_name\<close> of 128 bytes, and the results of \<open>epoll_ctl\<close>.
\<close>

record agent =
  ag_mem :: sd_mem
  ag_sd_handle :: sd_handle

record agent_env =
  ge_find :: find_env
  ge_raw :: "u8 list"
  ge_hs_rc :: int
  ge_acm_rc :: int

definition response_failed :: "int \<Rightarrow> hs_channel \<Rightarrow> hs_channel option" where
  "response_failed rc ch = map_option fst (hs_response_ok rc ch (ascii ''Failed!'') 7)"

text \<open>
  \<open>content\<close> is the index of the content in the buffer of the channel, as the HTTP server passes it. The
  content is not copied for the request.
\<close>

definition content_handler :: "agent_env \<Rightarrow> agent \<Rightarrow> hs_channel \<Rightarrow> int \<Rightarrow> int \<Rightarrow> (agent \<times> hs_channel) option" where
  "content_handler e s ch content_size content =
     (if content < 0 then None
      else do {
        let text = drop (nat content) (hc_buffer ch);
        dst \<leftarrow> get_service_name text (ge_raw e);
        service_name \<leftarrow> c_str dst 0;
        (m, h, p) \<leftarrow> sd_get_optimal_endpoint (ge_find e) (ag_mem s) (ag_sd_handle s) service_name;
        if p = NULL then do {
          ch1 \<leftarrow> response_failed (ge_hs_rc e) ch;
          Some (\<lparr>ag_mem = m, ag_sd_handle = h\<rparr>, ch1)
        } else do {
          ac \<leftarrow> sm_chans m p;
          ah \<leftarrow> sm_acm m;
          (ah1, ac1, r) \<leftarrow> acm_request ah (Some ac) (take (nat content_size) text) (of_int content_size) FN_acm_listening (hc_addr ch) (ge_acm_rc e);
          let s1 = \<lparr>ag_mem = m\<lparr>sm_acm := Some ah1, sm_chans := (sm_chans m)(p := ac1)\<rparr>, ag_sd_handle = h\<rparr>;
          if r < 0 then do {
            ch1 \<leftarrow> response_failed (ge_hs_rc e) ch;
            Some (s1, ch1)
          } else Some (s1, ch)
        }
      })"

text \<open>
  The listener: \<open>data\<close> is the block behind the head of the message, \<open>data_size\<close> the size of the message in it.
  The zero is written behind the message; \<open>response_body\<close> has 64 bytes.
\<close>

definition acm_listening :: "int \<Rightarrow> hs_channel \<Rightarrow> u8 list \<Rightarrow> int \<Rightarrow> hs_channel option" where
  "acm_listening rc ch data data_size =
     (if data_size < 1 then None
      else do {
        d1 \<leftarrow> upd_opt data (nat data_size) 0;
        d2 \<leftarrow> upd_opt d1 (nat data_size - 1) 0;
        body \<leftarrow> c_str d2 2;
        if 64 \<le> length body then None
        else map_option fst (hs_response_ok rc ch body (int (length body)))
      })"

definition test_response :: "int \<Rightarrow> hs_channel \<Rightarrow> hs_channel option" where
  "test_response rc ch = map_option fst (hs_response_ok rc ch (ascii ''OK'') 2)"

section \<open>Starting\<close>

definition cagent_acm_opt :: acm_opt where
  "cagent_acm_opt = \<lparr>ao_max_write_queue_len = 51200, ao_max_hold_req_num = 51200, ao_io_thread_num = 3, ao_worker_thread_num = 8\<rparr>"

definition cagent_hs_bt :: hs_bootstrap where
  "cagent_hs_bt = \<lparr>bt_server_port = 20000, bt_io_thread_num = 3, bt_event_loop_num = 1, bt_worker_thread_num = 1, bt_max_connection = 512,
     bt_buffer_size = 2048, bt_content_handler = FN_content_handler\<rparr>"

text \<open>
  The parts are started one after the other, and no result is looked at: when the agent client manager
  could not be started, its handle is \<open>NULL\<close> for the service discovery. \<open>argv\<close> is the argument vector
  with its terminating null pointer. The result has what was started, or says that the start waits
  for a thread that never runs.
\<close>

datatype cagent_started = Cagent "acm_handle option" "sd_handle option" "(mm_mem \<times> hs_handle) option" | Cagent_blocks

definition cagent_start_rest ::
  "sd_init_env \<Rightarrow> hs_env \<Rightarrow> mm_mem \<Rightarrow> acm_handle option \<Rightarrow> u8 list option list \<Rightarrow> cagent_started option"
where
  "cagent_start_rest ie he m p_acm_handle argv = do {
     etcd_url \<leftarrow> nth_opt argv 1;
     sd \<leftarrow> sd_init ie etcd_url;
     hs \<leftarrow> hs_start he m cagent_hs_bt;
     Some (case hs of Hs_blocks \<Rightarrow> Cagent_blocks | Hs_NULL \<Rightarrow> Cagent p_acm_handle sd None | Hs_handle m1 h \<Rightarrow> Cagent p_acm_handle sd (Some (m1, h)))
   }"

definition cagent_start :: "acm_env \<Rightarrow> sd_init_env \<Rightarrow> hs_env \<Rightarrow> mm_mem \<Rightarrow> u8 list option list \<Rightarrow> cagent_started option" where
  "cagent_start ae ie he m argv = do {
     a \<leftarrow> acm_start ae m cagent_acm_opt;
     (case a of
        Acm_blocks \<Rightarrow> Some Cagent_blocks
      | Acm_NULL m1 \<Rightarrow> cagent_start_rest ie he m1 None argv
      | Acm_handle m1 ah \<Rightarrow> cagent_start_rest ie he m1 (Some ah) argv)
   }"

end
