(* ===== verification/Sd_List.thy ===== *)
theory Sd_List
  imports Sd Circ_List "HOL-Library.Multiset"
begin

text \<open>
  The list of endpoints of a service: it provides the interface \<open>circ_link\<close>, an insertion keeps it a
  ring sorted by falling load level, and the selection runs over it to its end.
\<close>

section \<open>The interface of circular lists\<close>

definition sd_nx :: "sd_mem \<Rightarrow> addr \<Rightarrow> addr option" where
  "sd_nx m p = map_option ep_next (sm_eps m p)"

definition sd_pv :: "sd_mem \<Rightarrow> addr \<Rightarrow> addr option" where
  "sd_pv m p = map_option ep_prev (sm_eps m p)"

lemma sd_maps_None [simp]: "sd_nx m p = None \<longleftrightarrow> sm_eps m p = None" "sd_pv m p = None \<longleftrightarrow> sm_eps m p = None"
  by (simp_all add: sd_nx_def sd_pv_def)

lemma sd_link_maps:
  assumes "sd_nx m a = Some b" and "sm_eps m b \<noteq> None" and "sm_eps m n \<noteq> None" and "n \<noteq> a" and "n \<noteq> b"
  shows "\<exists>m'. sd_link m a b n = Some m' \<and> sd_nx m' = (sd_nx m)(n \<mapsto> b, a \<mapsto> n) \<and> sd_pv m' = (sd_pv m)(n \<mapsto> a, b \<mapsto> n)"
proof -
  obtain ea eb en where e: "sm_eps m a = Some ea" "sm_eps m b = Some eb" "sm_eps m n = Some en" "ep_next ea = b"
    using assms(1-3) by (auto simp: sd_nx_def)
  then show ?thesis using assms(4,5) by (cases "a = b") (auto simp: sd_link_def ep_upd_def sd_nx_def sd_pv_def fun_eq_iff)
qed

interpretation sl: circ_link sd_nx sd_pv "\<lambda>m a n. do { b \<leftarrow> sd_nx m a; sd_link m a b n }"
proof
  fix m a b n
  assume "sd_nx m a = Some b" "sd_pv m b \<noteq> None" "sd_nx m n \<noteq> None" "n \<noteq> a" "n \<noteq> b"
  then show "\<exists>m'. (do { b \<leftarrow> sd_nx m a; sd_link m a b n }) = Some m' \<and>
      sd_nx m' = (sd_nx m)(n \<mapsto> b, a \<mapsto> n) \<and> sd_pv m' = (sd_pv m)(n \<mapsto> a, b \<mapsto> n)"
    using sd_link_maps [of m a b n] by simp
qed

text \<open>What linking does not touch.\<close>

definition same_data :: "sd_mem \<Rightarrow> sd_mem \<Rightarrow> bool" where
  "same_data m m' \<longleftrightarrow> (\<forall>p. map_option ep_load_level (sm_eps m' p) = map_option ep_load_level (sm_eps m p) \<and>
       map_option ep_p_agent_channel (sm_eps m' p) = map_option ep_p_agent_channel (sm_eps m p)) \<and>
     sm_malloced m' = sm_malloced m \<and> sm_nodes m' = sm_nodes m \<and> sm_chans m' = sm_chans m \<and> sm_mem m' = sm_mem m \<and> sm_acm m' = sm_acm m"

lemma ep_upd_same_data:
  assumes "ep_upd m p f = Some m'" and "\<And>e. ep_load_level (f e) = ep_load_level e" and "\<And>e. ep_p_agent_channel (f e) = ep_p_agent_channel e"
  shows "same_data m m'"
  using assms by (auto simp: ep_upd_def same_data_def split: option.splits)

lemma same_data_trans: "same_data a b \<Longrightarrow> same_data b c \<Longrightarrow> same_data a c"
  by (simp add: same_data_def)

lemma sd_link_same_data:
  assumes "sd_link m a b n = Some m'"
  shows "same_data m m'"
proof -
  obtain m1 m2 m3 m4 where u: "ep_upd m n (\<lambda>e. e\<lparr>ep_remain := of_int (ep_load_level e)\<rparr>) = Some m1"
      "ep_upd m1 n (ep_next_update (\<lambda>_. b)) = Some m2" "ep_upd m2 a (ep_next_update (\<lambda>_. n)) = Some m3"
      "ep_upd m3 n (ep_prev_update (\<lambda>_. a)) = Some m4" "ep_upd m4 b (ep_prev_update (\<lambda>_. n)) = Some m'"
    using assms by (auto simp: sd_link_def split: bind_splits)
  have "same_data m m1" "same_data m1 m2" "same_data m2 m3" "same_data m3 m4" "same_data m4 m'"
    by (rule ep_upd_same_data [OF u(1)] ep_upd_same_data [OF u(2)] ep_upd_same_data [OF u(3)] ep_upd_same_data [OF u(4)]
        ep_upd_same_data [OF u(5)]; simp)+
  then show ?thesis using same_data_trans by metis
qed

section \<open>Sorted insertion\<close>

definition level :: "sd_mem \<Rightarrow> addr \<Rightarrow> int" where
  "level m p = (case sm_eps m p of None \<Rightarrow> 0 | Some e \<Rightarrow> ep_load_level e)"

definition endpoints :: "sd_mem \<Rightarrow> addr \<Rightarrow> addr list \<Rightarrow> bool" where
  "endpoints m h ps \<longleftrightarrow> ring (sd_nx m) (sd_pv m) (h # ps) \<and> NULL \<notin> set (h # ps)"

text \<open>A ring determines its list.\<close>

lemma seg_unique:
  assumes "seg nx pv a xs b" and "seg nx pv a ys b" and "b \<notin> set xs" and "b \<notin> set ys"
  shows "xs = ys"
  using assms
proof (induction xs arbitrary: a ys)
  case Nil
  then show ?case by (cases ys) auto
next
  case (Cons x xs)
  then show ?case by (cases ys) auto
qed

lemma endpoints_unique: "endpoints m h ps \<Longrightarrow> endpoints m h qs \<Longrightarrow> ps = qs"
  unfolding endpoints_def using seg_unique [of "sd_nx m" "sd_pv m" h ps h qs] by simp

text \<open>The place of a new endpoint in the abstract list: before the first one with no larger load level.\<close>

definition insert_level :: "(addr \<Rightarrow> int) \<Rightarrow> addr \<Rightarrow> addr list \<Rightarrow> addr list" where
  "insert_level lv n ps = takeWhile (\<lambda>q. lv n < lv q) ps @ n # dropWhile (\<lambda>q. lv n < lv q) ps"

lemma level_same_data: "same_data m m' \<Longrightarrow> level m' = level m"
proof
  fix p assume "same_data m m'"
  then have "map_option ep_load_level (sm_eps m' p) = map_option ep_load_level (sm_eps m p)" by (simp add: same_data_def)
  then show "level m' p = level m p" by (auto simp: level_def split: option.splits)
qed

lemma find_place_seg:
  assumes "seg (sd_nx m) (sd_pv m) pre rest h" and "h \<notin> set rest" and "sd_nx m pre = Some now"
  shows "sd_find_place m h load pre now =
    Some (last (pre # takeWhile (\<lambda>q. load < level m q) rest), hd (dropWhile (\<lambda>q. load < level m q) rest @ [h]))"
  using assms
proof (induction rest arbitrary: pre now)
  case Nil
  then show ?case by (subst sd_find_place.simps) simp
next
  case (Cons x xs)
  then have now: "now = x" "x \<noteq> h" and s: "seg (sd_nx m) (sd_pv m) x xs h" by auto
  obtain e where e: "sm_eps m x = Some e" using seg_nodes [OF s, of x] by auto
  show ?case
  proof (cases "load < level m x")
    case True
    then have "sd_find_place m h load pre now = sd_find_place m h load x (ep_next e)"
      using now e by (subst sd_find_place.simps) (simp add: level_def)
    moreover have "sd_nx m x = Some (ep_next e)" using e by (simp add: sd_nx_def)
    ultimately show ?thesis using Cons.IH [OF s] Cons.prems(2) True by simp
  next
    case False
    then show ?thesis using now e by (subst sd_find_place.simps) (simp add: level_def)
  qed
qed

lemma insert_endpoint_ring:
  assumes "endpoints m h ps" and "n \<notin> set (h # ps)" and "n \<noteq> NULL" and "sm_eps m n \<noteq> None"
  shows "\<exists>m'. sd_insert_endpoint m h n = Some (m', 1) \<and> endpoints m' h (insert_level (level m) n ps) \<and> same_data m m' \<and>
    (\<forall>q. q \<notin> set (h # n # ps) \<longrightarrow> sd_nx m' q = sd_nx m q \<and> sd_pv m' q = sd_pv m q)"
proof -
  define bef aft where "bef = takeWhile (\<lambda>q. level m n < level m q) ps" and "aft = dropWhile (\<lambda>q. level m n < level m q) ps"
  have ps: "ps = bef @ aft" by (simp add: bef_def aft_def)
  have r: "ring (sd_nx m) (sd_pv m) (h # ps)" and nn: "NULL \<notin> set (h # ps)" using assms(1) by (auto simp: endpoints_def)
  obtain eh en where eh: "sm_eps m h = Some eh" and en: "sm_eps m n = Some en" using ring_nodes [OF r, of h] assms(4) by auto
  have s: "seg (sd_nx m) (sd_pv m) h ps h" "h \<notin> set ps" using r by auto
  obtain xs pre where xs: "h # bef = xs @ [pre]" by (metis append_butlast_last_id list.discI)
  have l: "h # ps = xs @ pre # aft" using xs ps by (metis append.assoc append_Cons append_Nil)
  have place: "sd_find_place m h (ep_load_level en) h (ep_next eh) = Some (pre, hd (aft @ [h]))"
    using find_place_seg [OF s, of "ep_next eh" "ep_load_level en"] eh en xs
    by (metis bef_def aft_def last_snoc level_def option.simps(5) option.simps(9) sd_nx_def)
  have rx: "ring (sd_nx m) (sd_pv m) (xs @ pre # aft)" "n \<notin> set (xs @ pre # aft)" "pre \<noteq> NULL"
    using r assms(2) nn unfolding l by auto
  have nxpre: "sd_nx m pre = Some (hd (aft @ [h]))"
  proof -
    have "ring (sd_nx m) (sd_pv m) (pre # aft @ xs)" using rx(1) ring_rotate_at by metis
    moreover have "xs = [] \<Longrightarrow> pre = h" "xs \<noteq> [] \<Longrightarrow> hd xs = h" using xs by (auto simp: Cons_eq_append_conv)
    ultimately show ?thesis by (cases aft; cases xs) auto
  qed
  obtain m' where m': "sd_link m pre (hd (aft @ [h])) n = Some m'" "ring (sd_nx m') (sd_pv m') (xs @ pre # n # aft)"
      "\<forall>q. q \<notin> set (xs @ pre # n # aft) \<longrightarrow> sd_nx m' q = sd_nx m q \<and> sd_pv m' q = sd_pv m q"
    using sl.link_ring_at [OF rx(1,2) _ rx(3) assms(3)] assms(4) nxpre by auto
  have e: "xs @ pre # n # aft = h # insert_level (level m) n ps"
    using arg_cong [OF xs, of "\<lambda>ys. ys @ n # aft"] by (simp add: insert_level_def bef_def aft_def)
  have st: "set (h # insert_level (level m) n ps) = set (h # n # ps)" unfolding e [symmetric] using arg_cong [OF l, of set] by auto
  have "sd_insert_endpoint m h n = Some (m', 1)"
    using m'(1) place eh en nn assms(3) by (simp add: sd_insert_endpoint_def)
  moreover have "endpoints m' h (insert_level (level m) n ps)"
    using m'(2) st nn assms(3) unfolding e endpoints_def by auto
  ultimately show ?thesis using m'(3) sd_link_same_data [OF m'(1)] unfolding e st by blast
qed

lemma insert_level_sorted:
  assumes "sorted_wrt (\<lambda>p q. lv p \<ge> lv q) ps"
  shows "sorted_wrt (\<lambda>p q. lv p \<ge> lv q) (insert_level lv n ps)"
proof -
  let ?bef = "takeWhile (\<lambda>q. lv n < lv q) ps" and ?aft = "dropWhile (\<lambda>q. lv n < lv q) ps"
  have s: "sorted_wrt (\<lambda>p q. lv p \<ge> lv q) (?bef @ ?aft)" using assms by simp
  have "lv q \<le> lv n" if "q \<in> set ?aft" for q
  proof (cases ?aft)
    case (Cons x xs)
    then have "\<not> lv n < lv x" using hd_dropWhile [of "\<lambda>q. lv n < lv q" ps] by simp
    moreover have "\<forall>y\<in>set xs. lv y \<le> lv x" using s Cons by (simp add: sorted_wrt_append)
    ultimately show ?thesis using that Cons by auto
  qed (use that in \<open>simp del: dropWhile_eq_Nil_conv\<close>)
  moreover have "\<forall>q\<in>set ?bef. lv n \<le> lv q" by (auto dest: set_takeWhileD)
  ultimately show ?thesis using s [unfolded sorted_wrt_append] unfolding insert_level_def by (simp add: sorted_wrt_append)
qed

lemma insert_level_mset: "mset (insert_level lv n ps) = add_mset n (mset ps)"
proof -
  have "mset ps = mset (takeWhile (\<lambda>q. lv n < lv q) ps) + mset (dropWhile (\<lambda>q. lv n < lv q) ps)"
    by (metis mset_append takeWhile_dropWhile_id)
  then show ?thesis unfolding insert_level_def by simp
qed

end
