(* ===== verification/Sd_Select.thy ===== *)
theory Sd_Select
  imports Sd_List
begin

text \<open>The choice of an endpoint against the exact quotients of open requests and load level.\<close>

section \<open>The loop as a function of the list\<close>

definition open_requests :: "sd_mem \<Rightarrow> addr \<Rightarrow> int" where
  "open_requests m p = (case sm_eps m p of None \<Rightarrow> 0 | Some e \<Rightarrow>
     (case sm_chans m (ep_p_agent_channel e) of None \<Rightarrow> 0 | Some ch \<Rightarrow> sint (ucast (ac_request_num ch) :: s32)))"

definition has_channel :: "sd_mem \<Rightarrow> addr \<Rightarrow> bool" where
  "has_channel m p \<longleftrightarrow> (\<exists>e. sm_eps m p = Some e \<and> sm_chans m (ep_p_agent_channel e) \<noteq> None)"

fun pick :: "sd_mem \<Rightarrow> addr list \<Rightarrow> f32 \<Rightarrow> addr option \<Rightarrow> addr option" where
  "pick m [] v opt = opt"
| "pick m (p # ps) v opt =
     (let w = f32_div (f32_int (open_requests m p)) (f32_int (level m p)) in
      if f32_less w v \<and> open_requests m p < 200 then pick m ps w (Some p) else pick m ps v opt)"

lemma select_seg:
  assumes "seg (sd_nx m) (sd_pv m) pre ps h" and "h \<notin> set ps" and "sd_nx m pre = Some now" and "\<forall>p\<in>set ps. has_channel m p"
  shows "sd_select m h now v opt = Some (pick m ps v opt)"
  using assms
proof (induction ps arbitrary: pre now v opt)
  case Nil
  then show ?case by (subst sd_select.simps) simp
next
  case (Cons x xs)
  then have now: "now = x" "x \<noteq> h" and s: "seg (sd_nx m) (sd_pv m) x xs h" by auto
  obtain e ch where e: "sm_eps m x = Some e" "sm_chans m (ep_p_agent_channel e) = Some ch" using Cons.prems(4) by (auto simp: has_channel_def)
  have lv: "level m x = ep_load_level e" "open_requests m x = sint (ucast (ac_request_num ch) :: s32)" "sd_nx m x = Some (ep_next e)"
    using e by (simp_all add: level_def open_requests_def sd_nx_def)
  have "sd_select m h now v opt = (let w = f32_div (f32_int (open_requests m x)) (f32_int (level m x)) in
      if f32_less w v \<and> open_requests m x < 200 then sd_select m h (ep_next e) w (Some x) else sd_select m h (ep_next e) v opt)"
    using now e lv(1,2) by (subst sd_select.simps) (simp add: Let_def)
  then show ?case using Cons.IH [OF s _ lv(3)] Cons.prems(2,4) by (simp add: Let_def)
qed

section \<open>The least loaded endpoint\<close>

definition balanced :: "sd_mem \<Rightarrow> addr \<Rightarrow> bool" where
  "balanced m p \<longleftrightarrow> 0 \<le> open_requests m p \<and> 0 < level m p \<and> level m p \<le> int SERVICE_DISCOVERY_MAX_LOAD_BALANCE_LIST_LEN"

definition load_of :: "sd_mem \<Rightarrow> addr \<Rightarrow> real" where
  "load_of m p = (if open_requests m p = 0 then 0 else f32_nat_div (nat (open_requests m p)) (nat (level m p)))"

lemma balanced_div:
  assumes "balanced m p" and "open_requests m p < 200"
  shows "f32_div (f32_int (open_requests m p)) (f32_int (level m p)) = F32 (load_of m p)"
  using assms by (auto simp: balanced_def f32_div_def f32_int_def load_of_def)

text \<open>A rounded load is below the first value of the minimum.\<close>

lemma load_of_bound:
  assumes "balanced m p" and "open_requests m p < 200"
  shows "load_of m p < of_int (f32_int 999999999)"
proof -
  have c: "f32_int 999999999 = 1000000000"
    by (simp add: f32_int_def f32_scale.simps round_even_def)
  show ?thesis
  proof (cases "open_requests m p = 0")
    case False
    define a b where "a = nat (open_requests m p)" and "b = nat (level m p)"
    have ab: "0 < a" "0 < b" "a < 200" using assms False by (auto simp: balanced_def a_def b_def)
    have "real a / real b \<le> real a / 1" using ab by (intro divide_left_mono) auto
    then have "real a / real b < 200" using ab(3) by simp
    moreover define q where "q = real a / real b"
    ultimately have q: "q < 200" "\<bar>f32_nat_div a b - q\<bar> \<le> q / 2 ^ 24" using f32_nat_div_error [OF ab(1,2)] by simp_all
    then have "f32_nat_div a b - q \<le> q / 2 ^ 24" by (metis abs_le_D1)
    moreover have "q / 2 ^ 24 < 200" using q(1) by simp
    ultimately have "f32_nat_div a b < 1000" using q(1) by linarith
    then show ?thesis using False c by (simp add: load_of_def a_def b_def)
  qed (simp add: load_of_def c)
qed

lemma load_order:
  assumes "balanced m p" and "open_requests m p < 200" and "balanced m q" and "open_requests m q < 200" and "load_of m p \<le> load_of m q"
  shows "open_requests m p * level m q \<le> open_requests m q * level m p"
proof -
  define a b c d where "a = nat (open_requests m p)" and "b = nat (level m p)" and "c = nat (open_requests m q)" and "d = nat (level m q)"
  have i: "open_requests m p = int a" "level m p = int b" "open_requests m q = int c" "level m q = int d"
      and pos: "0 < b" "0 < d" and le: "a < 200" "c < 200" "b \<le> 10000" "d \<le> 10000"
    using assms(1-4) by (auto simp: balanced_def a_def b_def c_def d_def)
  have "a * d \<le> c * b"
  proof (cases "a = 0")
    case False
    have "c \<noteq> 0"
    proof
      assume "c = 0"
      then have "f32_nat_div a b \<le> 0" using assms(5) False by (simp add: load_of_def i)
      then show False using f32_nat_div_pos [of a b] False pos by linarith
    qed
    moreover have "a * d \<le> 200 * 10000" "c * b \<le> 200 * 10000" using le by (intro mult_le_mono; simp)+
    then have "a * d + c * b < 2 ^ 24" by simp
    ultimately show ?thesis using assms(5) False pos by (intro f32_nat_div_order) (simp_all add: load_of_def i)
  qed simp
  then show ?thesis unfolding i by (metis of_nat_le_iff of_nat_mult)
qed

lemma pick_least:
  assumes "\<forall>p\<in>set ps. balanced m p"
  shows "(pick m ps (F32 v) opt = opt \<and> (\<forall>q\<in>set ps. open_requests m q < 200 \<longrightarrow> v \<le> load_of m q)) \<or>
    (\<exists>p\<in>set ps. pick m ps (F32 v) opt = Some p \<and> open_requests m p < 200 \<and> load_of m p < v \<and>
       (\<forall>q\<in>set ps. open_requests m q < 200 \<longrightarrow> load_of m p \<le> load_of m q))"
  using assms
proof (induction ps arbitrary: v opt)
  case (Cons x xs)
  show ?case
  proof (cases "open_requests m x < 200 \<and> load_of m x < v")
    case True
    then have "pick m (x # xs) (F32 v) opt = pick m xs (F32 (load_of m x)) (Some x)"
      using balanced_div [of m x] Cons.prems by (simp add: Let_def)
    then show ?thesis using Cons.IH [of "load_of m x" "Some x"] Cons.prems True by fastforce
  next
    case False
    then have "pick m (x # xs) (F32 v) opt = pick m xs (F32 v) opt"
      using balanced_div [of m x] Cons.prems by (auto simp: Let_def)
    then show ?thesis using Cons.IH [of v opt] Cons.prems False by fastforce
  qed
qed simp

text \<open>The choice on a valid list: defined exactly when some endpoint has fewer than 200 open requests.\<close>

lemma choose_least:
  assumes "sm_nodes m s = Some sn" and "endpoints m (sn_comsuming_list sn) ps" and "\<forall>p\<in>set ps. has_channel m p \<and> balanced m p"
  shows "if \<exists>q\<in>set ps. open_requests m q < 200
    then \<exists>p e ch. p \<in> set ps \<and> open_requests m p < 200 \<and> sm_eps m p = Some e \<and> sm_chans m (ep_p_agent_channel e) = Some ch \<and>
      (\<forall>q\<in>set ps. open_requests m q < 200 \<longrightarrow> open_requests m p * level m q \<le> open_requests m q * level m p) \<and>
      sd_choose m s = Some (m\<lparr>sm_chans := (sm_chans m)(ep_p_agent_channel e \<mapsto> ch\<lparr>ac_request_num := ac_request_num ch + 1\<rparr>)\<rparr>, ep_p_agent_channel e)
    else sd_choose m s = None"
proof -
  let ?h = "sn_comsuming_list sn" and ?v = "of_int (f32_int 999999999) :: real"
  have r: "seg (sd_nx m) (sd_pv m) ?h ps ?h" "?h \<notin> set ps" using assms(2) by (auto simp: endpoints_def)
  obtain eh where eh: "sm_eps m ?h = Some eh" using seg_nodes [OF r(1), of ?h] by auto
  have sel: "sd_select m ?h (ep_next eh) (F32 ?v) None = Some (pick m ps (F32 ?v) None)"
    using select_seg [OF r, of "ep_next eh"] eh assms(3) by (simp add: sd_nx_def)
  note pl = pick_least [of ps m ?v None]
  have bound: "load_of m q < ?v" if "q \<in> set ps" "open_requests m q < 200" for q
    using load_of_bound that assms(3) by blast
  show ?thesis
  proof (cases "\<exists>q\<in>set ps. open_requests m q < 200")
    case True
    then obtain p where p: "p \<in> set ps" "pick m ps (F32 ?v) None = Some p" "open_requests m p < 200"
        "\<forall>q\<in>set ps. open_requests m q < 200 \<longrightarrow> load_of m p \<le> load_of m q"
      using pl assms(3) bound by fastforce
    have ord: "\<forall>q\<in>set ps. open_requests m q < 200 \<longrightarrow> open_requests m p * level m q \<le> open_requests m q * level m p"
      using p assms(3) load_order by blast
    obtain e ch where e: "sm_eps m p = Some e" "sm_chans m (ep_p_agent_channel e) = Some ch"
      using assms(3) p(1) by (auto simp: has_channel_def)
    have "sd_choose m s = Some (m\<lparr>sm_chans := (sm_chans m)(ep_p_agent_channel e \<mapsto> ch\<lparr>ac_request_num := ac_request_num ch + 1\<rparr>)\<rparr>, ep_p_agent_channel e)"
      using assms(1) eh sel p(2) e by (simp add: sd_choose_def)
    then show ?thesis using True p(1,3) ord e by auto
  next
    case False
    then have "pick m ps (F32 ?v) None = None" using pl assms(3) by auto
    then show ?thesis using False assms(1) eh sel by (simp add: sd_choose_def)
  qed
qed

end
