(* ===== verification/Sd_Find.thy ===== *)
theory Sd_Find
  imports Sd_Select
begin

text \<open>
  Finding a service: the invariant of a service node that the search builds up, the release of
  endpoints, and the parsing of etcd's keys.
\<close>

section \<open>The invariant of a service node\<close>

definition node_ok :: "sd_mem \<Rightarrow> addr \<Rightarrow> u8 list \<Rightarrow> addr list \<Rightarrow> bool" where
  "node_ok m s name ps \<longleftrightarrow> (\<exists>sn. sm_nodes m s = Some sn \<and> sn_service_name sn = name \<and> endpoints m (sn_comsuming_list sn) ps) \<and>
     sorted_wrt (\<lambda>p q. level m p \<ge> level m q) ps \<and> (\<forall>p\<in>set ps. has_channel m p)"

lemma lb_fill_keeps:
  assumes "lb_fill n ep sn = Some sn'"
  shows "sn_comsuming_list sn' = sn_comsuming_list sn \<and> sn_service_name sn' = sn_service_name sn"
  using assms by (induction n ep sn rule: lb_fill.induct) (auto split: bind_splits)

lemma has_channel_same_data: "same_data m m' \<Longrightarrow> has_channel m p \<Longrightarrow> has_channel m' p"
proof -
  assume s: "same_data m m'" and "has_channel m p"
  then obtain e where e: "sm_eps m p = Some e" "sm_chans m (ep_p_agent_channel e) \<noteq> None" by (auto simp: has_channel_def)
  have "map_option ep_p_agent_channel (sm_eps m' p) = Some (ep_p_agent_channel e)" "sm_chans m' = sm_chans m"
    using s e(1) by (simp_all add: same_data_def)
  then show ?thesis using e(2) by (auto simp: has_channel_def)
qed

lemma same_data_dom: "same_data m m' \<Longrightarrow> sm_eps m' q = None \<longleftrightarrow> sm_eps m q = None"
  by (metis map_option_is_None same_data_def)

text \<open>A new cell outside the list, and new channels, do not disturb it.\<close>

lemma endpoints_frame:
  assumes "endpoints m h ps" and "\<And>q. q \<in> set (h # ps) \<Longrightarrow> sm_eps m' q = sm_eps m q"
  shows "endpoints m' h ps"
  using assms unfolding endpoints_def by (auto simp: sd_nx_def sd_pv_def intro!: ring_frame [of "sd_nx m" "sd_pv m"] simp del: ring.simps)

text \<open>The list depends on the cells and the channels only.\<close>

lemma node_views:
  assumes "sm_eps m' = sm_eps m" and "sm_chans m' = sm_chans m"
  shows "level m' = level m" "has_channel m' = has_channel m" "endpoints m' = endpoints m"
proof -
  have "sd_nx m' = sd_nx m" "sd_pv m' = sd_pv m" using assms by (simp_all add: sd_nx_def sd_pv_def fun_eq_iff)
  then show "endpoints m' = endpoints m" by (intro ext) (simp only: endpoints_def)
qed (use assms in \<open>simp_all add: level_def has_channel_def fun_eq_iff\<close>)

lemma endpoints_alloc: "endpoints m h ps \<Longrightarrow> q \<in> set (h # ps) \<Longrightarrow> sm_eps m q \<noteq> None"
  unfolding endpoints_def using ring_nodes [of "sd_nx m" "sd_pv m" "h # ps" q] by (simp del: ring.simps)

lemma add_endpoint_node:
  assumes "node_ok m s name ps" and "sm_eps m a = None" and "sd_add_endpoint ce a s m node = Some (m', r)"
  shows "\<exists>ps'. node_ok m' s name ps' \<and> set ps' \<subseteq> insert a (set ps) \<and> (\<forall>q. q \<noteq> a \<longrightarrow> sm_eps m q = None \<longrightarrow> sm_eps m' q = None)"
proof -
  obtain sn where sn: "sm_nodes m s = Some sn" "sn_service_name sn = name" "endpoints m (sn_comsuming_list sn) ps"
      and srt: "sorted_wrt (\<lambda>p q. level m p \<ge> level m q) ps" and hc: "\<forall>p\<in>set ps. has_channel m p"
    using assms(1) by (auto simp: node_ok_def)
  have noch: ?thesis if "sm_eps m' = sm_eps m" "sm_nodes m' = sm_nodes m" "sm_chans m' = sm_chans m"
  proof -
    have "node_ok m' s name ps" using assms(1) that(2) node_views [OF that(1,3)] by (simp add: node_ok_def)
    then show ?thesis using that(1) by auto
  qed
  consider "m' = m" | mm acm where "m' = m\<lparr>sm_mem := mm, sm_acm := acm\<rparr>"
    | mm acm p chan load m3 c sn1 sn2 where "a \<noteq> NULL"
      "sd_insert_endpoint (m\<lparr>sm_mem := mm, sm_acm := acm, sm_chans := (sm_chans m)(p \<mapsto> chan),
         sm_eps := (sm_eps m)(a \<mapsto> \<lparr>ep_p_agent_channel = p, ep_load_level = load, ep_remain = of_int load, ep_prev = NULL, ep_next = NULL\<rparr>),
         sm_malloced := (sm_malloced m)(a := True)\<rparr>) (sn_comsuming_list sn) a = Some (m3, c)"
      "sm_nodes m3 s = Some sn1" "lb_fill (nat load) a sn1 = Some sn2" "m' = m3\<lparr>sm_nodes := (sm_nodes m3)(s \<mapsto> sn2)\<rparr>"
    using assms(3) sn(1) unfolding sd_add_endpoint_def by (auto split: bind_splits option.splits if_splits simp: Let_def)
  then show ?thesis
  proof cases
    case 1
    then show ?thesis by (intro noch) simp_all
  next
    case 2
    then show ?thesis by (intro noch) simp_all
  next
    case 3
    let ?m = "m\<lparr>sm_mem := mm, sm_acm := acm, sm_chans := (sm_chans m)(p \<mapsto> chan),
         sm_eps := (sm_eps m)(a \<mapsto> \<lparr>ep_p_agent_channel = p, ep_load_level = load, ep_remain = of_int load, ep_prev = NULL, ep_next = NULL\<rparr>),
         sm_malloced := (sm_malloced m)(a := True)\<rparr>"
    have fr: "a \<notin> set (sn_comsuming_list sn # ps)" using endpoints_alloc [OF sn(3)] assms(2) by blast
    then have ep: "endpoints ?m (sn_comsuming_list sn) ps" by (intro endpoints_frame [OF sn(3)]) auto
    have lv: "level ?m q = level m q" if "q \<noteq> a" for q using that by (simp add: level_def)
    have srt': "sorted_wrt (\<lambda>p q. level ?m p \<ge> level ?m q) ps"
    proof (rule sorted_wrt_mono_rel [OF _ srt])
      fix x y assume xy: "x \<in> set ps" "y \<in> set ps" "level m y \<le> level m x"
      then have "x \<noteq> a" "y \<noteq> a" using fr by auto
      then show "level ?m y \<le> level ?m x" using lv [of x] lv [of y] xy(3) by simp
    qed
    have hc': "\<forall>q\<in>set (insert_level (level ?m) a ps). has_channel ?m q"
    proof
      fix q assume "q \<in> set (insert_level (level ?m) a ps)"
      then have "q = a \<or> q \<in> set ps" using arg_cong [OF insert_level_mset [of "level ?m" a ps], of set_mset] by auto
      then show "has_channel ?m q"
      proof (cases "q = a")
        case False
        then obtain e where "sm_eps m q = Some e" "sm_chans m (ep_p_agent_channel e) \<noteq> None"
          using hc \<open>q = a \<or> q \<in> set ps\<close> by (auto simp: has_channel_def)
        then have "sm_eps ?m q = Some e" "sm_chans ?m (ep_p_agent_channel e) \<noteq> None" using False by auto
        then show ?thesis unfolding has_channel_def by blast
      qed (simp add: has_channel_def)
    qed
    obtain m1 where m1: "sd_insert_endpoint ?m (sn_comsuming_list sn) a = Some (m1, 1)"
        "endpoints m1 (sn_comsuming_list sn) (insert_level (level ?m) a ps)" "same_data ?m m1"
      using insert_endpoint_ring [OF ep fr 3(1)] by auto
    then have m3: "m3 = m1" using 3(2) by simp
    have sn1: "sn1 = sn" using 3(3) m1(3) sn(1) m3 by (simp add: same_data_def)
    have k: "sn_comsuming_list sn2 = sn_comsuming_list sn" "sn_service_name sn2 = name" using lb_fill_keeps [OF 3(4)] sn1 sn(2) by auto
    have e: "sm_eps m' = sm_eps m1" "sm_chans m' = sm_chans m1" using 3(5) m3 by simp_all
    note same = node_views [OF e]
    have "node_ok m' s name (insert_level (level ?m) a ps)"
      unfolding node_ok_def same level_same_data [OF m1(3)]
      using 3(5) k m1(2) insert_level_sorted [OF srt', of a] hc' has_channel_same_data [OF m1(3)] by auto
    moreover have "set (insert_level (level ?m) a ps) \<subseteq> insert a (set ps)"
      using arg_cong [OF insert_level_mset [of "level ?m" a ps], of set_mset] by auto
    moreover have "sm_eps m' q = None" if "q \<noteq> a" "sm_eps m q = None" for q
      using that e(1) same_data_dom [OF m1(3), of q] by simp
    ultimately show ?thesis by blast
  qed
qed

lemma add_endpoints_node:
  assumes "node_ok m s name ps" and "\<forall>a\<in>snd ` set es. sm_eps m a = None" and "distinct (map snd es)"
    and "sd_add_endpoints es s m nodes = Some (m', r)"
  shows "\<exists>ps'. node_ok m' s name ps'"
  using assms
proof (induction es s m nodes arbitrary: ps rule: sd_add_endpoints.induct)
  case (3 ce a es s m node nodes)
  obtain m1 r1 where m1: "sd_add_endpoint ce a s m node = Some (m1, r1)"
      "if r1 < 0 then m' = m1 else sd_add_endpoints es s m1 nodes = Some (m', r)"
    using "3.prems"(4) by (auto split: bind_splits if_splits)
  obtain ps1 where ps1: "node_ok m1 s name ps1" "\<forall>q. q \<noteq> a \<longrightarrow> sm_eps m q = None \<longrightarrow> sm_eps m1 q = None"
    using add_endpoint_node [OF "3.prems"(1) _ m1(1)] "3.prems"(2) by auto
  show ?case
  proof (cases "r1 < 0")
    case False
    have "\<forall>b\<in>snd ` set es. sm_eps m1 b = None" "distinct (map snd es)" using "3.prems"(2,3) ps1(2) by force+
    then show ?thesis using "3.IH" [OF m1(1) refl False ps1(1)] m1(2) False by simp
  qed (use m1 ps1 in auto)
qed auto

lemma add_endpoint_result: "sd_add_endpoint ce a s m node = Some (m', r) \<Longrightarrow> r = 1 \<or> r = - 5"
  unfolding sd_add_endpoint_def by (auto simp: Let_def split: bind_splits if_splits option.splits prod.splits)

lemma add_endpoints_result: "sd_add_endpoints es s m nodes = Some (m', r) \<Longrightarrow> r = 1 \<or> r = - 5"
  by (induction es s m nodes rule: sd_add_endpoints.induct) (auto split: bind_splits if_splits dest: add_endpoint_result)

text \<open>The node right after it was put into an empty slot of the table.\<close>

lemma add_service_node:
  assumes "sd_tb_index h name = Some i" and "i < length (sh_service_tb h)" and "sh_service_tb h ! i = NULL"
    and "a \<noteq> NULL" and "b \<noteq> NULL"
  shows "\<exists>m1. sd_add_and_init_service a b raw m h name = Some (m1, h\<lparr>sh_service_tb := (sh_service_tb h)[i := a]\<rparr>, a) \<and> node_ok m1 a name [] \<and>
    (\<forall>q. q \<noteq> a + OFFSET_LIST1 \<longrightarrow> q \<noteq> a + OFFSET_LIST2 \<longrightarrow> sm_eps m1 q = sm_eps m q)"
proof -
  have "sd_chain_find m name NULL = Some NULL" by (subst sd_chain_find.simps) simp
  then show ?thesis using assms
    by (auto simp: sd_add_and_init_service_def Let_def node_ok_def endpoints_def sd_nx_def sd_pv_def)
qed

section \<open>Releasing endpoints\<close>

lemma rls_list_undefined:
  assumes "seg (sd_nx m) (sd_pv m) x xs h" and "distinct (x # xs)" and "h \<notin> set (x # xs)" and "\<forall>q\<in>set (x # xs). sm_malloced m q"
    and "\<not> sm_malloced m h" and "sm_eps m h = Some eh" and "ep_next eh \<noteq> h"
  shows "sd_rls_list m x = None"
  using assms
proof (induction xs arbitrary: m x)
  case Nil
  obtain e where e: "sm_eps m x = Some e" "ep_next e = h" using Nil.prems(1) by (auto simp: sd_nx_def)
  let ?m = "m\<lparr>sm_eps := (sm_eps m)(x := None), sm_malloced := (sm_malloced m)(x := False)\<rparr>"
  have "sd_rls_list m x = sd_rls_list ?m h" using e Nil.prems(3,4) by (subst sd_rls_list.simps) (auto simp: ep_free_def)
  also have "\<dots> = None" using Nil.prems(3,5-7) by (subst sd_rls_list.simps) (auto simp: ep_free_def)
  finally show ?case .
next
  case (Cons y ys)
  obtain e where e: "sm_eps m x = Some e" "ep_next e = y" using Cons.prems(1) by (auto simp: sd_nx_def)
  let ?m = "m\<lparr>sm_eps := (sm_eps m)(x := None), sm_malloced := (sm_malloced m)(x := False)\<rparr>"
  have "sd_rls_list m x = sd_rls_list ?m y" using e Cons.prems(2,4) by (subst sd_rls_list.simps) (auto simp: ep_free_def)
  moreover have "seg (sd_nx ?m) (sd_pv ?m) y ys h"
  proof -
    have "seg (sd_nx ?m) (sd_pv ?m) y ys h \<longleftrightarrow> seg (sd_nx m) (sd_pv m) y ys h"
      by (rule seg_cong) (use Cons.prems(2,3) in \<open>auto simp: sd_nx_def sd_pv_def\<close>)
    then show ?thesis using Cons.prems(1) by simp
  qed
  then have "sd_rls_list ?m y = None" using Cons.prems(2-7) by (intro Cons.IH) auto
  ultimately show ?case by simp
qed

section \<open>Parsing an address\<close>

text \<open>Characters that mean nothing to the loop are passed.\<close>

lemma parse_skip:
  assumes "i \<le> j" and "j < length src" and "\<And>k. i < k \<Longrightarrow> k \<le> j \<Longrightarrow> src ! k \<noteq> 0x3A \<and> src ! k \<noteq> 0x2F"
  shows "parse_ip_port src j port = parse_ip_port src i port"
  using assms
proof (induction "j - i" arbitrary: j)
  case (Suc n)
  then have j: "i < j" "src ! j \<noteq> 0x3A" "src ! j \<noteq> 0x2F" by auto
  then have "parse_ip_port src j port = parse_ip_port src (j - 1) port"
    using Suc.prems(2) by (subst parse_ip_port.simps) simp
  also have "\<dots> = parse_ip_port src i port" using Suc.hyps(2) Suc.prems j(1) by (intro Suc.hyps(1)) auto
  finally show ?case .
qed simp

lemma parse_address:
  assumes "pre \<noteq> []" and "0 \<notin> set ip" and "0x3A \<notin> set ip" and "0x2F \<notin> set ip" and "length ip < 16"
    and "0 \<le> port" and "port < 2 ^ 31"
  shows "sd_parse_ip_and_port (pre @ 0x2F # ip @ 0x3A # c_itoa port) = Some (Some ip, Some port)"
proof -
  let ?ds = "c_itoa port" and ?s = "length pre" and ?c = "Suc (length pre + length ip)"
  let ?src = "(pre @ 0x2F # ip @ 0x3A # c_itoa port) @ [0]"
  have dg: "c \<in> set ?ds \<Longrightarrow> c_isdigit c" for c using assms(6) c_digits_isdigit by (auto simp: c_itoa_def)
  have len: "length ?src = Suc (Suc (?c + length ?ds))" by simp
  have sk: "?src ! k \<noteq> 0x3A \<and> ?src ! k \<noteq> 0x2F" if "?c < k" "k \<le> Suc (?c + length ?ds)" for k
  proof -
    have "?src ! k = (?ds @ [0]) ! (k - Suc ?c)" using that(1) by (auto simp: nth_append)
    moreover have "(?ds @ [0]) ! (k - Suc ?c) \<in> set (?ds @ [0])" using that by (intro nth_mem) auto
    ultimately have "?src ! k \<in> insert 0 (set ?ds)" by auto
    moreover have "0x3A \<notin> set ?ds" "0x2F \<notin> set ?ds" using dg [of "0x3A"] dg [of "0x2F"] by (auto simp: c_isdigit_def)
    ultimately show ?thesis by auto
  qed
  have "parse_ip_port ?src (Suc (?c + length ?ds)) None = parse_ip_port ?src ?c None"
    by (rule parse_skip) (use len sk in auto)
  moreover have "?src ! ?c = 0x3A" by (simp add: nth_append)
  moreover have "c_str ?src (?c + 1) = Some ?ds"
    using c_str_zero [of "pre @ 0x2F # ip @ [0x3A]" "?c + 1" ?ds "[]"] c_itoa_nonzero by simp
  moreover have "c_atoi ?ds = Some port" using c_atoi_itoa [of port "[]" "[]"] assms(6,7) by simp
  ultimately have a: "parse_ip_port ?src (Suc (?c + length ?ds)) None = parse_ip_port (?src[?c := 0]) (length pre + length ip) (Some port)"
    by (subst (asm) (2) parse_ip_port.simps) (simp add: nth_append)
  have u: "?src[?c := 0] = pre @ 0x2F # ip @ 0 # ?ds @ [0]" by (simp add: list_update_append)
  have "parse_ip_port (pre @ 0x2F # ip @ 0 # ?ds @ [0]) (length pre + length ip) (Some port) =
      parse_ip_port (pre @ 0x2F # ip @ 0 # ?ds @ [0]) ?s (Some port)"
  proof (rule parse_skip)
    fix k assume k: "?s < k" "k \<le> length pre + length ip"
    then have "(pre @ 0x2F # ip @ 0 # ?ds @ [0]) ! k = ip ! (k - Suc ?s)" by (auto simp: nth_append nth_Cons')
    moreover have "ip ! (k - Suc ?s) \<in> set ip" using k by (intro nth_mem) auto
    ultimately show "(pre @ 0x2F # ip @ 0 # ?ds @ [0]) ! k \<noteq> 0x3A \<and> (pre @ 0x2F # ip @ 0 # ?ds @ [0]) ! k \<noteq> 0x2F"
      using assms(3,4) by metis
  qed simp_all
  also have "\<dots> = Some (Some ip, Some port)"
    using assms(1,5) c_str_zero [of "pre @ [0x2F]" "Suc ?s" ip "?ds @ [0]"] assms(2) by (subst parse_ip_port.simps) (simp add: nth_append)
  finally show ?thesis using a u by (simp add: sd_parse_ip_and_port_def add.assoc)
qed

end
