(* ===== verification/Sd_Register.thy ===== *)
theory Sd_Register
  imports Sd_Find
begin

text \<open>A search that succeeds: every endpoint that etcd announces and that accepts a connection is registered.\<close>

section \<open>What etcd announces\<close>

text \<open>The address, the port and the load level of one entry of the answer.\<close>

definition announced :: "cJSON \<Rightarrow> ((u8 list \<times> int) \<times> int) option" where
  "announced node = (case (cJSON_GetObjectItemCaseSensitive (Some node) (ascii ''key''), cJSON_GetObjectItemCaseSensitive (Some node) (ascii ''value'')) of
     (Some (Some k), Some (Some v)) \<Rightarrow>
       if cJSON_IsNull (Some k) \<or> cJSON_IsNull (Some v) then None
       else (case (Option.bind (cj_valuestring k) sd_parse_ip_and_port, Option.bind (cj_valuestring v) c_atoi) of
         (Some (Some ip, Some port), Some load) \<Rightarrow> Some ((ip, port), load) | _ \<Rightarrow> None)
   | _ \<Rightarrow> None)"

text \<open>Every connection of the sequence is established.\<close>

fun connects :: "(conn_env \<times> addr) list \<Rightarrow> mm_mem \<Rightarrow> acm_handle option \<Rightarrow> (u8 list \<times> int) list \<Rightarrow> bool" where
  "connects es mm acm [] \<longleftrightarrow> True"
| "connects [] mm acm (x # xs) \<longleftrightarrow> False"
| "connects ((ce, a) # es) mm acm ((ip, port) # xs) \<longleftrightarrow> a \<noteq> NULL \<and>
     (case acm_connect ce mm acm ip (of_int port) of Some (mm', acm', Some _) \<Rightarrow> connects es mm' acm' xs | _ \<Rightarrow> False)"

lemma those_eq_Some: "those xs = Some ys \<longleftrightarrow> xs = map Some ys"
  by (induction xs arbitrary: ys) (auto split: option.splits)

text \<open>Room for \<open>n\<close> more entries in the load balancing array.\<close>

definition lb_room :: "sd_mem \<Rightarrow> addr \<Rightarrow> nat \<Rightarrow> bool" where
  "lb_room m s n \<longleftrightarrow> (case sm_nodes m s of None \<Rightarrow> False
     | Some sn \<Rightarrow> 0 \<le> sn_lb_list_len sn \<and> nat (sn_lb_list_len sn) + n \<le> length (sn_load_balance_list sn))"

lemma lb_fill_ok:
  assumes "0 \<le> sn_lb_list_len sn" and "nat (sn_lb_list_len sn) + n \<le> length (sn_load_balance_list sn)"
  shows "\<exists>sn'. lb_fill n ep sn = Some sn' \<and> sn_lb_list_len sn' = sn_lb_list_len sn + int n \<and>
    length (sn_load_balance_list sn') = length (sn_load_balance_list sn)"
  using assms
proof (induction n ep sn rule: lb_fill.induct)
  case (2 n ep sn)
  let ?l = "(sn_load_balance_list sn)[nat (sn_lb_list_len sn) := ep]"
  have u: "upd_opt (sn_load_balance_list sn) (nat (sn_lb_list_len sn)) ep = Some ?l" using "2.prems" by simp
  have "nat (sn_lb_list_len sn + 1) + n \<le> length ?l" "0 \<le> sn_lb_list_len sn + 1" using "2.prems" by auto
  then show ?case using "2.IH" [OF u] u by auto
qed simp

lemma add_service_room:
  assumes "sd_tb_index h name = Some i" and "i < length (sh_service_tb h)" and "sh_service_tb h ! i = NULL"
    and "a \<noteq> NULL" and "b \<noteq> NULL"
  shows "\<exists>m1. sd_add_and_init_service a b raw m h name = Some (m1, h\<lparr>sh_service_tb := (sh_service_tb h)[i := a]\<rparr>, a) \<and> node_ok m1 a name [] \<and>
    (\<forall>q. q \<noteq> a + OFFSET_LIST1 \<longrightarrow> q \<noteq> a + OFFSET_LIST2 \<longrightarrow> sm_eps m1 q = sm_eps m q) \<and>
    sm_mem m1 = sm_mem m \<and> sm_acm m1 = sm_acm m \<and> lb_room m1 a SERVICE_DISCOVERY_MAX_LOAD_BALANCE_LIST_LEN"
proof -
  obtain m1 where m1: "sd_add_and_init_service a b raw m h name = Some (m1, h\<lparr>sh_service_tb := (sh_service_tb h)[i := a]\<rparr>, a)" "node_ok m1 a name []"
      "\<forall>q. q \<noteq> a + OFFSET_LIST1 \<longrightarrow> q \<noteq> a + OFFSET_LIST2 \<longrightarrow> sm_eps m1 q = sm_eps m q"
    using add_service_node [OF assms] by blast
  have "sd_chain_find m name NULL = Some NULL" by (subst sd_chain_find.simps) simp
  then have "sm_mem m1 = sm_mem m" "sm_acm m1 = sm_acm m" "lb_room m1 a SERVICE_DISCOVERY_MAX_LOAD_BALANCE_LIST_LEN"
    using m1(1) assms by (auto simp: sd_add_and_init_service_def Let_def lb_room_def simp del: upt_rec_numeral)
  then show ?thesis using m1 by blast
qed

section \<open>One endpoint\<close>

lemma add_endpoint_registers:
  assumes "node_ok m s name ps" and "sm_eps m a = None" and "a \<noteq> NULL" and "announced node = Some ((ip, port), load)"
    and "acm_connect ce (sm_mem m) (sm_acm m) ip (of_int port) = Some (mm, acm, Some (p, chan))"
    and "lb_room m s (nat load + k)"
  shows "\<exists>m' ps'. sd_add_endpoint ce a s m node = Some (m', 1) \<and> node_ok m' s name ps' \<and> mset ps' = add_mset a (mset ps) \<and>
    level m' a = load \<and> (\<forall>q. q \<noteq> a \<longrightarrow> level m' q = level m q \<and> (sm_eps m q = None \<longrightarrow> sm_eps m' q = None)) \<and>
    sm_mem m' = mm \<and> sm_acm m' = acm \<and> lb_room m' s k"
proof -
  let ?m = "m\<lparr>sm_mem := mm, sm_acm := acm, sm_chans := (sm_chans m)(p \<mapsto> chan),
         sm_eps := (sm_eps m)(a \<mapsto> \<lparr>ep_p_agent_channel = p, ep_load_level = load, ep_remain = of_int load, ep_prev = NULL, ep_next = NULL\<rparr>),
         sm_malloced := (sm_malloced m)(a := True)\<rparr>"
  obtain sn where sn: "sm_nodes m s = Some sn" "endpoints m (sn_comsuming_list sn) ps"
    using assms(1) by (auto simp: node_ok_def)
  have fr: "a \<notin> set (sn_comsuming_list sn # ps)" using endpoints_alloc [OF sn(2)] assms(2) by blast
  then have ep: "endpoints ?m (sn_comsuming_list sn) ps" by (intro endpoints_frame [OF sn(2)]) auto
  obtain m3 where m3: "sd_insert_endpoint ?m (sn_comsuming_list sn) a = Some (m3, 1)"
      "endpoints m3 (sn_comsuming_list sn) (insert_level (level ?m) a ps)" "same_data ?m m3"
    using insert_endpoint_ring [OF ep fr assms(3)] by auto
  have n3: "sm_nodes m3 s = Some sn" "sm_mem m3 = mm" "sm_acm m3 = acm" using m3(3) sn(1) by (simp_all add: same_data_def)
  obtain sn2 where sn2: "lb_fill (nat load) a sn = Some sn2" "sn_lb_list_len sn2 = sn_lb_list_len sn + int (nat load)"
      "length (sn_load_balance_list sn2) = length (sn_load_balance_list sn)" "0 \<le> sn_lb_list_len sn"
      "nat (sn_lb_list_len sn) + (nat load + k) \<le> length (sn_load_balance_list sn)"
    using lb_fill_ok [of sn "nat load" a] assms(6) sn(1) by (auto simp: lb_room_def)
  define m' where "m' = m3\<lparr>sm_nodes := (sm_nodes m3)(s \<mapsto> sn2)\<rparr>"
  have add: "sd_add_endpoint ce a s m node = Some (m', 1)"
    using assms(3-5) sn(1) m3(1) n3(1) sn2(1) unfolding sd_add_endpoint_def announced_def m'_def
    by (auto split: option.splits if_splits bind_splits prod.splits simp: Let_def)
  have kk: "sn_comsuming_list sn2 = sn_comsuming_list sn" using lb_fill_keeps [OF sn2(1)] by simp
  have v: "level m' = level ?m" "endpoints m' = endpoints m3"
    using node_views [of m' m3] level_same_data [OF m3(3)] by (simp_all add: m'_def)
  obtain ps' where ps': "node_ok m' s name ps'" using add_endpoint_node [OF assms(1,2) add] by blast
  moreover have "endpoints m' (sn_comsuming_list sn) ps'" using ps' kk by (auto simp: node_ok_def m'_def)
  then have "ps' = insert_level (level ?m) a ps" using m3(2) v(2) endpoints_unique by metis
  then have "mset ps' = add_mset a (mset ps)" by (simp add: insert_level_mset)
  moreover have "sm_eps m' q = None" if "q \<noteq> a" "sm_eps m q = None" for q
    using that same_data_dom [OF m3(3), of q] by (simp add: m'_def)
  moreover have "level m' a = load" "\<And>q. q \<noteq> a \<Longrightarrow> level m' q = level m q" unfolding v by (simp_all add: level_def)
  moreover have "sm_mem m' = mm" "sm_acm m' = acm" using n3 by (simp_all add: m'_def)
  moreover have "lb_room m' s k" using sn2 by (simp add: lb_room_def m'_def nat_add_distrib)
  ultimately show ?thesis using add by blast
qed

section \<open>All endpoints\<close>

lemma add_endpoints_register:
  assumes "node_ok m s name ps" and "\<forall>a\<in>snd ` set es. sm_eps m a = None" and "distinct (map snd es)"
    and "map announced nodes = map Some anns" and "connects es (sm_mem m) (sm_acm m) (map fst anns)"
    and "lb_room m s (sum_list (map (\<lambda>x. nat (snd x)) anns))"
  shows "\<exists>m' ps'. sd_add_endpoints es s m nodes = Some (m', 1) \<and> node_ok m' s name ps' \<and>
    image_mset (level m') (mset ps') = image_mset (level m) (mset ps) + mset (map snd anns)"
  using assms
proof (induction es s m nodes arbitrary: ps anns rule: sd_add_endpoints.induct)
  case (1 es s m)
  then show ?case by auto
next
  case (2 s m node nodes)
  then show ?case by (cases anns) auto
next
  case (3 ce a es s m node nodes)
  obtain ip port load anns' where an: "anns = ((ip, port), load) # anns'" "announced node = Some ((ip, port), load)"
      "map announced nodes = map Some anns'"
    using "3.prems"(4) by (cases anns) auto
  obtain mm acm p chan where c: "a \<noteq> NULL" "acm_connect ce (sm_mem m) (sm_acm m) ip (of_int port) = Some (mm, acm, Some (p, chan))"
      "connects es mm acm (map fst anns')"
    using "3.prems"(5) an(1) by (auto split: option.splits)
  have nin: "sm_eps m a = None" using "3.prems"(2) by simp
  have room: "lb_room m s (nat load + sum_list (map (\<lambda>x. nat (snd x)) anns'))" using "3.prems"(6) an(1) by simp
  obtain m1 ps1 where m1: "sd_add_endpoint ce a s m node = Some (m1, 1)" "node_ok m1 s name ps1" "mset ps1 = add_mset a (mset ps)"
      "level m1 a = load" "\<forall>q. q \<noteq> a \<longrightarrow> level m1 q = level m q \<and> (sm_eps m q = None \<longrightarrow> sm_eps m1 q = None)"
      "sm_mem m1 = mm" "sm_acm m1 = acm" "lb_room m1 s (sum_list (map (\<lambda>x. nat (snd x)) anns'))"
    using add_endpoint_registers [OF "3.prems"(1) nin c(1) an(2) c(2) room] by blast
  have fr: "\<forall>b\<in>snd ` set es. sm_eps m1 b = None" "distinct (map snd es)" using "3.prems"(2,3) m1(5) by force+
  have ih: "connects es (sm_mem m1) (sm_acm m1) (map fst anns')" using c(3) m1(6,7) by simp
  obtain m' ps' where m': "sd_add_endpoints es s m1 nodes = Some (m', 1)" "node_ok m' s name ps'"
      "image_mset (level m') (mset ps') = image_mset (level m1) (mset ps1) + mset (map snd anns')"
    using "3.IH" [OF m1(1) refl _ m1(2) fr an(3) ih m1(8)] by auto
  have "a \<notin> set ps"
    using "3.prems"(1) nin endpoints_alloc by (fastforce simp: node_ok_def)
  then have "image_mset (level m1) (mset ps) = image_mset (level m) (mset ps)" using m1(5) by (intro image_mset_cong) auto
  then have "image_mset (level m') (mset ps') = image_mset (level m) (mset ps) + mset (map snd anns)"
    unfolding m'(3) m1(3) an(1) using m1(4) by simp
  then show ?case using m1(1) m'(1,2) by auto
qed

end
