(* ===== verification/Acm_Codec.thy ===== *)
theory Acm_Codec
  imports Acm
begin

unbundle bit_operations_syntax

text \<open>
  The encoding of frame heads: the big-endian conversions are inverse to each other in both
  directions, and the head of a frame determines the request number and the size.
\<close>

section \<open>Integers and bytes\<close>

lemma u8_bit_high: "8 \<le> m \<Longrightarrow> \<not> bit (a :: u8) m"
  using bit_imp_le_length [of a m] by auto

lemma scast_mask_u32: "(scast (b :: u8) :: u32) AND 0xFF = ucast b"
proof -
  have "(scast b :: u32) AND mask 8 = ucast b"
  proof (rule bit_word_eqI)
    fix n assume "n < LENGTH(32)"
    then show "bit ((scast b :: u32) AND mask 8) n = bit (ucast b :: u32) n"
      by (cases "n \<le> 7") (auto simp: bit_simps u8_bit_high min_absorb2)
  qed
  then show ?thesis by (simp add: mask_eq_exp_minus_1)
qed

lemma scast_mask_u64: "(scast (b :: u8) :: u64) AND 0xFF = ucast b"
proof -
  have "(scast b :: u64) AND mask 8 = ucast b"
  proof (rule bit_word_eqI)
    fix n assume "n < LENGTH(64)"
    then show "bit ((scast b :: u64) AND mask 8) n = bit (ucast b :: u64) n"
      by (cases "n \<le> 7") (auto simp: bit_simps u8_bit_high min_absorb2)
  qed
  then show ?thesis by (simp add: mask_eq_exp_minus_1)
qed

text \<open>A word is put together from its bytes, and the bytes are read off the word.\<close>

lemma u32_of_bytes: "(ucast (ucast v :: u8) :: u32) OR push_bit 8 (ucast (ucast (drop_bit 8 v) :: u8)) OR
    push_bit 16 (ucast (ucast (drop_bit 16 v) :: u8)) OR push_bit 24 (ucast (ucast (drop_bit 24 v) :: u8)) = (v :: u32)"
proof (rule bit_word_eqI)
  fix n assume "n < LENGTH(32)"
  then consider "n < 8" | "8 \<le> n" "n < 16" | "16 \<le> n" "n < 24" | "24 \<le> n" "n < 32" by fastforce
  then show "bit ((ucast (ucast v :: u8) :: u32) OR push_bit 8 (ucast (ucast (drop_bit 8 v) :: u8)) OR
    push_bit 16 (ucast (ucast (drop_bit 16 v) :: u8)) OR push_bit 24 (ucast (ucast (drop_bit 24 v) :: u8))) n = bit v n"
    by cases (simp_all add: bit_simps less_diff_conv2)
qed

lemma u64_of_bytes: "(ucast (ucast v :: u8) :: u64) OR push_bit 8 (ucast (ucast (drop_bit 8 v) :: u8)) OR
    push_bit 16 (ucast (ucast (drop_bit 16 v) :: u8)) OR push_bit 24 (ucast (ucast (drop_bit 24 v) :: u8)) OR
    push_bit 32 (ucast (ucast (drop_bit 32 v) :: u8)) OR push_bit 40 (ucast (ucast (drop_bit 40 v) :: u8)) OR
    push_bit 48 (ucast (ucast (drop_bit 48 v) :: u8)) OR push_bit 56 (ucast (ucast (drop_bit 56 v) :: u8)) = (v :: u64)" (is "?w = v")
proof (rule bit_word_eqI)
  fix n assume "n < LENGTH(64)"
  then consider "n < 8" | "8 \<le> n" "n < 16" | "16 \<le> n" "n < 24" | "24 \<le> n" "n < 32"
    | "32 \<le> n" "n < 40" | "40 \<le> n" "n < 48" | "48 \<le> n" "n < 56" | "56 \<le> n" "n < 64" by fastforce
  then show "bit ?w n = bit v n"
    by cases (simp_all add: bit_simps less_diff_conv2)
qed

lemma bytes_of_u32:
  fixes a b c d :: u8
  defines "v \<equiv> (ucast a :: u32) OR push_bit 8 (ucast b) OR push_bit 16 (ucast c) OR push_bit 24 (ucast d)"
  shows "ucast v = a" "ucast (drop_bit 8 v) = b" "ucast (drop_bit 16 v) = c" "ucast (drop_bit 24 v) = d"
  unfolding v_def by (rule bit_word_eqI, simp add: bit_simps u8_bit_high)+

lemma bytes_of_u64:
  fixes a b c d e f g h :: u8
  defines "v \<equiv> (ucast a :: u64) OR push_bit 8 (ucast b) OR push_bit 16 (ucast c) OR push_bit 24 (ucast d) OR
    push_bit 32 (ucast e) OR push_bit 40 (ucast f) OR push_bit 48 (ucast g) OR push_bit 56 (ucast h)"
  shows "ucast v = a" "ucast (drop_bit 8 v) = b" "ucast (drop_bit 16 v) = c" "ucast (drop_bit 24 v) = d"
    "ucast (drop_bit 32 v) = e" "ucast (drop_bit 40 v) = f" "ucast (drop_bit 48 v) = g" "ucast (drop_bit 56 v) = h"
  unfolding v_def by (rule bit_word_eqI, simp add: bit_simps u8_bit_high)+

lemma int_bytes_int:
  assumes "acm_int2bytes v buf off = Some buf'"
  shows "acm_bytes2int buf' off = Some v" and "length buf' = length buf"
    and "\<And>i. i < off \<or> off + 4 \<le> i \<Longrightarrow> buf' ! i = buf ! i"
  using assms u32_of_bytes [of v]
  by (auto simp: acm_int2bytes_def acm_bytes2int_def scast_mask_u32 nth_list_update split: if_splits)

lemma long_bytes_long:
  assumes "acm_long2bytes v buf off = Some buf'"
  shows "acm_bytes2long buf' off = Some v" and "length buf' = length buf"
    and "\<And>i. i < off \<or> off + 8 \<le> i \<Longrightarrow> buf' ! i = buf ! i"
  using assms u64_of_bytes [of v]
  by (auto simp: acm_long2bytes_def acm_bytes2long_def scast_mask_u64 nth_list_update split: if_splits)

lemma bytes_int_bytes:
  assumes "acm_bytes2int buf off = Some v"
  shows "acm_int2bytes v buf off = Some buf"
proof -
  have l: "off + 3 < length buf" and v: "v = (ucast (buf ! (off + 3)) :: u32) OR push_bit 8 (ucast (buf ! (off + 2))) OR
      push_bit 16 (ucast (buf ! (off + 1))) OR push_bit 24 (ucast (buf ! off))"
    using assms by (auto simp: acm_bytes2int_def scast_mask_u32 split: if_splits)
  note b = bytes_of_u32 [of "buf ! (off + 3)" "buf ! (off + 2)" "buf ! (off + 1)" "buf ! off", folded v]
  show ?thesis unfolding acm_int2bytes_def b using l by (simp only: list_update_id if_True)
qed

lemma bytes_long_bytes:
  assumes "acm_bytes2long buf off = Some v"
  shows "acm_long2bytes v buf off = Some buf"
proof -
  have l: "off + 7 < length buf" and v: "v = (ucast (buf ! (off + 7)) :: u64) OR push_bit 8 (ucast (buf ! (off + 6))) OR
      push_bit 16 (ucast (buf ! (off + 5))) OR push_bit 24 (ucast (buf ! (off + 4))) OR
      push_bit 32 (ucast (buf ! (off + 3))) OR push_bit 40 (ucast (buf ! (off + 2))) OR
      push_bit 48 (ucast (buf ! (off + 1))) OR push_bit 56 (ucast (buf ! off))"
    using assms by (auto simp: acm_bytes2long_def scast_mask_u64 split: if_splits)
  note b = bytes_of_u64 [of "buf ! (off + 7)" "buf ! (off + 6)" "buf ! (off + 5)" "buf ! (off + 4)"
      "buf ! (off + 3)" "buf ! (off + 2)" "buf ! (off + 1)" "buf ! off", folded v]
  show ?thesis unfolding acm_long2bytes_def b using l by (simp only: list_update_id if_True)
qed

section \<open>Frames\<close>

lemma frame_head_defined: "\<exists>b. frame_head mh = Some b"
  by (simp add: frame_head_def acm_long2bytes_def acm_int2bytes_def)

lemma frame_head_decode:
  assumes "frame_head mh = Some b"
  shows "length b = ACM_MSG_HEAD_SIZE" and "acm_bytes2long b 0 = Some (mh_req_id mh)" and "acm_bytes2int b 8 = Some (mh_data_size mh)"
proof -
  obtain c where c: "acm_long2bytes (mh_req_id mh) (replicate 12 0) 0 = Some c" "acm_int2bytes (mh_data_size mh) c 8 = Some b"
    using assms by (auto simp: frame_head_def split: bind_splits)
  note l = long_bytes_long [OF c(1)] and i = int_bytes_int [OF c(2)]
  have "acm_bytes2long b 0 = acm_bytes2long c 0"
    using i(2,3) by (simp add: acm_bytes2long_def)
  with l i show "length b = ACM_MSG_HEAD_SIZE" "acm_bytes2long b 0 = Some (mh_req_id mh)" "acm_bytes2int b 8 = Some (mh_data_size mh)"
    by simp_all
qed

text \<open>A frame: the head and the data. Frames are told apart by their heads.\<close>

definition frame :: "acm_msg_head \<Rightarrow> u8 list \<Rightarrow> u8 list" where
  "frame mh data = the (frame_head mh) @ data"

lemma frame_head_the: "frame_head mh = Some (the (frame_head mh))"
  using frame_head_defined [of mh] by auto

lemma frame_take: "take ACM_MSG_HEAD_SIZE (frame mh data) = the (frame_head mh)"
  "drop ACM_MSG_HEAD_SIZE (frame mh data) = data" "length (frame mh data) = ACM_MSG_HEAD_SIZE + length data"
  using frame_head_decode(1) [OF frame_head_the, of mh] by (simp_all add: frame_def)

end
