(* ===== verification/Acm_Write.thy ===== *)
theory Acm_Write
  imports Acm_Codec "HOL-Library.Sublist"
begin

text \<open>
  The write side of a channel. A round of the write loop sends the next bytes of the frame at the
  head of the queue; the threads that send requests, the event loop and the write thread hand a
  single token to each other (the lock \<open>write_queue_consume_spinlock\<close>), so that a queue with something
  to send always has someone who will send it.
\<close>

section \<open>The write queue as a ring queue\<close>

lemma enqueue_write:
  assumes "0 < nat (sint max_len)" and "length (ac_write_queue ch) = nat (sint max_len)"
  shows "acm_enqueue max_len ch t = Some (ch\<lparr>ac_write_queue := (ac_write_queue ch)[unat (ac_write_queue_tail ch) mod nat (sint max_len) := t],
    ac_write_queue_tail := ac_write_queue_tail ch + 1\<rparr>, ac_write_queue_head ch + 1 = ac_write_queue_tail ch)"
  using assms by (simp add: acm_enqueue_def ring_slot_pos)

interpretation wq: ring_queue ac_write_queue "\<lambda>_. nat (sint max_len)" ac_write_queue_head ac_write_queue_tail
  "\<lambda>ch t. map_option fst (acm_enqueue max_len ch t)" "\<lambda>ch. ch\<lparr>ac_write_queue_head := ac_write_queue_head ch + 1\<rparr>"
  for max_len
  by unfold_locales (auto simp: enqueue_write)

section \<open>One task\<close>

definition task_size :: "acm_write_task \<Rightarrow> nat" where
  "task_size t = nat (sint (mh_data_size (wt_head t)))"

text \<open>A task as \<open>acm_request\<close> makes it, with a buffer that has the announced bytes, at any point of its sending.\<close>

definition task_ok :: "acm_write_task \<Rightarrow> bool" where
  "task_ok t \<longleftrightarrow> 0 \<le> wt_write_index t \<and> 0 \<le> sint (mh_data_size (wt_head t)) \<and> task_size t \<le> length (wt_data t) \<and>
     wt_write_index t \<le> int (ACM_MSG_HEAD_SIZE + task_size t)"

definition task_frame :: "acm_write_task \<Rightarrow> u8 list" where
  "task_frame t = frame (wt_head t) (take (task_size t) (wt_data t))"

definition task_rest :: "acm_write_task \<Rightarrow> u8 list" where
  "task_rest t = drop (nat (wt_write_index t)) (task_frame t)"

text \<open>\<open>send\<close> would find no room.\<close>

fun tx_blocked :: "tx list \<Rightarrow> bool" where
  "tx_blocked [] = True"
| "tx_blocked (Tx_again # _) = True"
| "tx_blocked _ = False"

text \<open>In this round the data part meets \<open>EAGAIN\<close>.\<close>

definition data_again :: "tx list \<Rightarrow> acm_write_task \<Rightarrow> bool" where
  "data_again txs t =
     (if wt_write_index t < int ACM_MSG_HEAD_SIZE then
        (case txs of Tx_room k # txs' \<Rightarrow> int ACM_MSG_HEAD_SIZE - wt_write_index t \<le> int k \<and> tx_blocked txs' | _ \<Rightarrow> False)
      else tx_blocked txs)"

lemma send_again: "fst (os_send txs bs) = Io_again \<longleftrightarrow> tx_blocked txs"
  by (cases "(txs, bs)" rule: os_send.cases) auto

lemma frame_length: "length (task_frame t) = ACM_MSG_HEAD_SIZE + min (task_size t) (length (wt_data t))"
  by (simp add: task_frame_def frame_take(3) min.commute)

text \<open>What a part of a round that meets no \<open>EAGAIN\<close> in the data does to its task.\<close>

definition sends :: "acm_write_task \<Rightarrow> acm_write_task \<times> u8 list \<times> tx list \<times> wr_end \<Rightarrow> bool" where
  "sends t r \<longleftrightarrow> (case r of (t', out, txs', e) \<Rightarrow>
     task_ok t' \<and> task_frame t' = task_frame t \<and> wt_write_index t' = wt_write_index t + int (length out) \<and>
     (e = Wr_next \<longrightarrow> task_rest t' = []) \<and> task_rest t = out @ task_rest t')"

lemma rest_length: "task_ok t \<Longrightarrow> int (length (task_rest t)) = int (ACM_MSG_HEAD_SIZE + task_size t) - wt_write_index t"
  by (auto simp: task_rest_def frame_length task_ok_def)

lemma rest_data:
  assumes "task_ok t" and "int ACM_MSG_HEAD_SIZE \<le> wt_write_index t"
  shows "task_rest t = take (nat (int (task_size t) - (wt_write_index t - int ACM_MSG_HEAD_SIZE)))
    (drop (nat (wt_write_index t - int ACM_MSG_HEAD_SIZE)) (wt_data t))"
proof -
  have "nat (wt_write_index t) = ACM_MSG_HEAD_SIZE + nat (wt_write_index t - int ACM_MSG_HEAD_SIZE)" using assms(2) by simp
  then have "task_rest t = drop (nat (wt_write_index t - int ACM_MSG_HEAD_SIZE)) (drop ACM_MSG_HEAD_SIZE (task_frame t))"
    by (simp add: task_rest_def add.commute)
  moreover have "task_size t - nat (wt_write_index t - int ACM_MSG_HEAD_SIZE) =
      nat (int (task_size t) - (wt_write_index t - int ACM_MSG_HEAD_SIZE))" using assms by (simp add: task_ok_def)
  ultimately show ?thesis by (simp add: task_frame_def frame_take(2) drop_take)
qed

lemma frame_index [simp]: "task_frame (t\<lparr>wt_write_index := i\<rparr>) = task_frame t" "task_size (t\<lparr>wt_write_index := i\<rparr>) = task_size t"
  by (simp_all add: task_frame_def task_size_def)

lemma rest_advance:
  assumes "0 \<le> wt_write_index t"
  shows "task_rest (t\<lparr>wt_write_index := wt_write_index t + int k\<rparr>) = drop k (task_rest t)"
  using assms by (simp add: task_rest_def nat_add_distrib add.commute)

lemma write_data_cases:
  assumes "task_ok t" and "int ACM_MSG_HEAD_SIZE \<le> wt_write_index t"
  shows "write_data txs t = (case os_send txs (task_rest t) of
      (Io_err, txs') \<Rightarrow> Some (t, [], txs', Wr_err)
    | (Io_again, txs') \<Rightarrow> Some (t\<lparr>wt_write_index := wt_write_index t - 1\<rparr>, [], txs', Wr_break)
    | (Io_ok k, txs') \<Rightarrow> Some (t\<lparr>wt_write_index := wt_write_index t + int k\<rparr>, take k (task_rest t), txs',
        if k < length (task_rest t) then Wr_break else Wr_next))"
proof -
  have sz: "sint (mh_data_size (wt_head t)) = int (task_size t)" using assms(1) by (simp add: task_ok_def task_size_def)
  show ?thesis
    using assms rest_length [OF assms(1)] unfolding write_data_def Let_def sz rest_data [OF assms, symmetric]
    by (auto simp: task_ok_def split: prod.split io.split)
qed

lemma write_data_sends:
  assumes "task_ok t" and "int ACM_MSG_HEAD_SIZE \<le> wt_write_index t" and "\<not> tx_blocked txs"
  shows "\<exists>r. write_data txs t = Some r \<and> sends t r"
proof -
  note len = rest_length [OF assms(1)]
  obtain x txs' where x: "os_send txs (task_rest t) = (x, txs')" by (cases "os_send txs (task_rest t)")
  then have "x \<noteq> Io_again" using send_again [of txs "task_rest t"] assms(3) by auto
  moreover have "k \<le> length (task_rest t)" if "x = Io_ok k" for k using os_send_le x that by blast
  ultimately show ?thesis
    using assms(1,2) len x rest_advance [of t]
    by (cases x) (auto simp: write_data_cases [OF assms(1,2)] sends_def task_ok_def)
qed

lemma write_data_blocked:
  assumes "task_ok t" and "int ACM_MSG_HEAD_SIZE \<le> wt_write_index t" and "tx_blocked txs"
  shows "\<exists>txs'. write_data txs t = Some (t\<lparr>wt_write_index := wt_write_index t - 1\<rparr>, [], txs', Wr_break)"
proof -
  obtain txs' where "os_send txs (task_rest t) = (Io_again, txs')"
    using send_again [of txs "task_rest t"] assms(3) by (cases "os_send txs (task_rest t)") auto
  then show ?thesis by (simp add: write_data_cases [OF assms(1,2)])
qed

text \<open>The head part of a round, and then the whole round.\<close>

lemma write_task_head:
  assumes "task_ok t" and "wt_write_index t < int ACM_MSG_HEAD_SIZE"
  shows "write_task txs t = (case os_send txs (drop (nat (wt_write_index t)) (the (frame_head (wt_head t)))) of
      (Io_err, txs') \<Rightarrow> Some (t, [], txs', Wr_err)
    | (Io_again, txs') \<Rightarrow> Some (t, [], txs', Wr_break)
    | (Io_ok k, txs') \<Rightarrow>
        (let t' = t\<lparr>wt_write_index := wt_write_index t + int k\<rparr>; out = take k (task_rest t) in
         if wt_write_index t' < int ACM_MSG_HEAD_SIZE then Some (t', out, txs', Wr_break)
         else map_option (\<lambda>(t'', out', r). (t'', out @ out', r)) (write_data txs' t')))"
proof -
  let ?hd = "the (frame_head (wt_head t))"
  have "length ?hd = ACM_MSG_HEAD_SIZE" using frame_head_decode(1) frame_head_the by blast
  then have "take k (task_rest t) = take k (drop (nat (wt_write_index t)) ?hd)" if "k \<le> ACM_MSG_HEAD_SIZE - nat (wt_write_index t)" for k
    using that assms(2) by (simp add: task_rest_def task_frame_def frame_def)
  moreover have "k \<le> ACM_MSG_HEAD_SIZE - nat (wt_write_index t)"
    if "os_send txs (drop (nat (wt_write_index t)) ?hd) = (Io_ok k, txs')" for k txs'
    using os_send_le [OF that] \<open>length ?hd = ACM_MSG_HEAD_SIZE\<close> by simp
  ultimately show ?thesis
    using assms frame_head_the [of "wt_head t"]
    by (auto simp: write_task_def task_ok_def Let_def map_option_case
        split: prod.split io.split option.split bind_splits)
qed

lemma advance_ok:
  assumes "task_ok t" and "k \<le> length (task_rest t)"
  shows "task_ok (t\<lparr>wt_write_index := wt_write_index t + int k\<rparr>)"
  using assms rest_length [OF assms(1)] by (auto simp: task_ok_def)

lemma sends_after:
  assumes "task_ok t" and "k \<le> length (task_rest t)" and "sends (t\<lparr>wt_write_index := wt_write_index t + int k\<rparr>) (t', out, r)"
  shows "sends t (t', take k (task_rest t) @ out, r)"
proof -
  have "task_rest (t\<lparr>wt_write_index := wt_write_index t + int k\<rparr>) = out @ task_rest t'" using assms(3) by (auto simp: sends_def)
  then have "drop k (task_rest t) = out @ task_rest t'" using rest_advance [of t k] assms(1) by (simp add: task_ok_def)
  then have "task_rest t = take k (task_rest t) @ out @ task_rest t'" by (metis append_take_drop_id)
  with assms(2,3) show ?thesis by (auto simp: sends_def)
qed

text \<open>
  What every round does, and what it does when the data part meets no \<open>EAGAIN\<close>.
\<close>

definition round_ok :: "tx list \<Rightarrow> acm_write_task \<Rightarrow> acm_write_task \<times> u8 list \<times> tx list \<times> wr_end \<Rightarrow> bool" where
  "round_ok txs t r \<longleftrightarrow> (case r of (t', out, txs', e) \<Rightarrow>
     task_ok t' \<and> task_frame t' = task_frame t \<and> (e = Wr_next \<longrightarrow> task_rest t' = []) \<and> (\<not> data_again txs t \<longrightarrow> sends t r))"

lemma sends_round: "sends t r \<Longrightarrow> round_ok txs t r"
  by (auto simp: sends_def round_ok_def)

lemma blocked_round:
  assumes "task_ok t" and "k \<le> length (task_rest t)" and "int ACM_MSG_HEAD_SIZE \<le> wt_write_index t + int k" and "data_again txs t"
  shows "round_ok txs t (t\<lparr>wt_write_index := wt_write_index t + int k - 1\<rparr>, out, txs', Wr_break)"
  using assms advance_ok [OF assms(1,2)] by (auto simp: round_ok_def task_ok_def)

lemma head_send:
  assumes "os_send txs (drop (nat (wt_write_index t)) (the (frame_head (wt_head t)))) = (Io_ok k, txs')"
    and "task_ok t" and "wt_write_index t < int ACM_MSG_HEAD_SIZE"
  shows "k \<le> length (task_rest t)" and "wt_write_index t + int k \<le> int ACM_MSG_HEAD_SIZE"
    and "wt_write_index t + int k = int ACM_MSG_HEAD_SIZE \<Longrightarrow> data_again txs t \<longleftrightarrow> tx_blocked txs'"
proof -
  have l: "length (the (frame_head (wt_head t))) = ACM_MSG_HEAD_SIZE" using frame_head_decode(1) frame_head_the by blast
  obtain j where j: "txs = Tx_room j # txs'" "k = min j (ACM_MSG_HEAD_SIZE - nat (wt_write_index t))"
    using assms(1) l by (cases "(txs, drop (nat (wt_write_index t)) (the (frame_head (wt_head t))))" rule: os_send.cases) auto
  show "k \<le> length (task_rest t)" "wt_write_index t + int k \<le> int ACM_MSG_HEAD_SIZE"
    "wt_write_index t + int k = int ACM_MSG_HEAD_SIZE \<Longrightarrow> data_again txs t \<longleftrightarrow> tx_blocked txs'"
    using assms(2,3) j rest_length [OF assms(2)] by (auto simp: task_ok_def data_again_def)
qed

lemma write_task_round:
  assumes "task_ok t"
  shows "\<exists>r. write_task txs t = Some r \<and> round_ok txs t r"
proof (cases "wt_write_index t < int ACM_MSG_HEAD_SIZE")
  case False
  then have eq: "write_task txs t = write_data txs t" by (simp add: write_task_def)
  show ?thesis
  proof (cases "tx_blocked txs")
    case True
    with False have "data_again txs t" by (simp add: data_again_def)
    with True False show ?thesis
      using write_data_blocked [OF assms _ True] blocked_round [OF assms, of 0 txs] eq by fastforce
  next
    case nb: False
    with False show ?thesis using write_data_sends [OF assms _ nb] eq sends_round by fastforce
  qed
next
  case True
  obtain x txs' where x: "os_send txs (drop (nat (wt_write_index t)) (the (frame_head (wt_head t)))) = (x, txs')"
    by (cases "os_send txs (drop (nat (wt_write_index t)) (the (frame_head (wt_head t))))")
  show ?thesis
  proof (cases x)
    case (Io_ok k)
    note k = head_send [OF x [unfolded Io_ok] assms True] and t1 = advance_ok [OF assms head_send(1) [OF x [unfolded Io_ok] assms True]]
    let ?t1 = "t\<lparr>wt_write_index := wt_write_index t + int k\<rparr>"
    consider "wt_write_index ?t1 < int ACM_MSG_HEAD_SIZE" | "wt_write_index ?t1 = int ACM_MSG_HEAD_SIZE" "tx_blocked txs'"
      | "wt_write_index ?t1 = int ACM_MSG_HEAD_SIZE" "\<not> tx_blocked txs'" using k(2) by fastforce
    then show ?thesis
    proof cases
      case 1
      then have "sends t (?t1, take k (task_rest t), txs', Wr_break)"
        using t1 k(1) rest_advance [of t k] assms by (auto simp: sends_def task_ok_def)
      with 1 x Io_ok show ?thesis by (auto simp: write_task_head [OF assms True] intro: sends_round)
    next
      case 2
      then show ?thesis
        using x Io_ok write_data_blocked [OF t1] blocked_round [OF assms k(1)] k(3)
        by (fastforce simp: write_task_head [OF assms True])
    next
      case 3
      then obtain t2 out r where d: "write_data txs' ?t1 = Some (t2, out, r)" "sends ?t1 (t2, out, r)"
        using write_data_sends [OF t1] by (metis order_refl prod_cases3)
      have "write_task txs t = Some (t2, take k (task_rest t) @ out, r)"
        using 3 x Io_ok d(1) by (simp add: write_task_head [OF assms True])
      then show ?thesis using sends_round [OF sends_after [OF assms k(1) d(2)]] by blast
    qed
  qed (use x assms in \<open>auto simp: write_task_head [OF assms True] sends_def intro!: sends_round\<close>)
qed

section \<open>A round on the channel\<close>

abbreviation queue_of :: "s32 \<Rightarrow> acm_channel \<Rightarrow> acm_write_task list" where
  "queue_of max_len ch \<equiv> ring_contents (ac_write_queue ch) (nat (sint max_len)) (unat (ac_write_queue_head ch)) (unat (ac_write_queue_tail ch))"

abbreviation queue_wf :: "s32 \<Rightarrow> acm_channel \<Rightarrow> bool" where
  "queue_wf max_len ch \<equiv> ring_wf (ac_write_queue ch) (nat (sint max_len)) (unat (ac_write_queue_head ch)) (unat (ac_write_queue_tail ch))"

lemma queue_contents: "queue_of max_len ch = wq.contents max_len ch" "queue_wf max_len ch = wq.ok max_len ch"
  using sint_pos_less [of max_len] by (simp_all add: wq.contents_def wq.ok_def)

lemma queue_set_front:
  assumes "wq.ok max_len ch" and "wq.contents max_len ch = t # ts"
  shows "wq.ok max_len (ch\<lparr>ac_write_queue := (ac_write_queue ch)[unat (ac_write_queue_head ch + 1) mod nat (sint max_len) := t']\<rparr>)"
    and "wq.contents max_len (ch\<lparr>ac_write_queue := (ac_write_queue ch)[unat (ac_write_queue_head ch + 1) mod nat (sint max_len) := t']\<rparr>) = t' # ts"
  using ring_set_front [of "ac_write_queue ch" _ _ _ t ts t'] assms wq.okD(3) [OF assms(1)]
  by (simp_all add: wq.ok_def wq.contents_def)

lemma write_round_front:
  assumes "wq.ok max_len ch" and "wq.contents max_len ch = t # ts" and "write_task txs t = Some (t', out, txs', e)"
  shows "\<exists>ch'. write_round max_len txs ch = Some (ch', out, txs', e) \<and> wq.ok max_len ch' \<and>
    wq.contents max_len ch' = (if e = Wr_next then ts else t' # ts) \<and>
    ac_consume_locked ch' = ac_consume_locked ch \<and> ac_write_armed ch' = ac_write_armed ch"
proof -
  let ?k = "unat (ac_write_queue_head ch + 1) mod nat (sint max_len)"
  let ?ch1 = "ch\<lparr>ac_write_queue := (ac_write_queue ch)[?k := t']\<rparr>"
  have n: "0 < nat (sint max_len)" "length (ac_write_queue ch) = nat (sint max_len)"
    using wq.okD(1) [OF assms(1)] by (auto simp: ring_wf_def)
  have t: "ac_write_queue ch ! ?k = t" using wq.pop_contents(3) [OF assms(1,2)] .
  have r: "write_round max_len txs ch =
      Some (if e = Wr_next then ?ch1\<lparr>ac_write_queue_head := ac_write_queue_head ?ch1 + 1\<rparr> else ?ch1, out, txs', e)"
    using n t assms(3) by (simp add: write_round_def ring_slot_pos)
  note f = queue_set_front [OF assms(1,2), of t']
  show ?thesis
    using wq.pop_contents(1,2) [OF f] f unfolding r by (cases "e = Wr_next") simp_all
qed

section \<open>Requesters, event loop and write thread interleaved\<close>

text \<open>
  The state: the channel; whether a write thread is in its loop; the threads that are about to
  release the consume lock, and to register for writable events; writable events that the event
  loop has taken from \<open>epoll_wait\<close> and not handled. History: the tasks that were queued, the bytes
  sent, whether the loop met an error, and whether no data part met \<open>EAGAIN\<close> so far.
\<close>

record acm_wsys =
  ws_ch :: acm_channel
  ws_writer :: bool
  ws_unlocking :: nat
  ws_arming :: nat
  ws_events :: nat
  ws_tasks :: "acm_write_task list"
  ws_out :: "u8 list"
  ws_dead :: bool
  ws_clean :: bool

text \<open>
  The steps: a request enters the queue (\<open>acm_request\<close>, under the queue's lock), the consume lock is
  released and the event registered (end of \<open>acm_request\<close> and of the write thread), an event is
  delivered (registered ones, and the edge of the first registration at any time), the event loop
  tries the lock and starts the write thread, and the write thread does a round of its loop.
\<close>

inductive acm_wstep :: "s32 \<Rightarrow> acm_wsys \<Rightarrow> acm_wsys \<Rightarrow> bool" for max_len where
  enqueue: "task_ok t \<Longrightarrow> wt_write_index t = 0 \<Longrightarrow> acm_enqueue max_len (ws_ch s) t = Some (ch, emp) \<Longrightarrow>
    acm_wstep max_len s (s\<lparr>ws_ch := ch, ws_tasks := ws_tasks s @ [t], ws_unlocking := ws_unlocking s + (if emp then 1 else 0)\<rparr>)"
| unlock: "ws_unlocking s = Suc k \<Longrightarrow>
    acm_wstep max_len s (s\<lparr>ws_ch := (ws_ch s)\<lparr>ac_consume_locked := False\<rparr>, ws_unlocking := k, ws_arming := ws_arming s + 1\<rparr>)"
| arm: "ws_arming s = Suc k \<Longrightarrow>
    acm_wstep max_len s (s\<lparr>ws_ch := fst (acm_epoll_mod_write 0 (ws_ch s)), ws_arming := k\<rparr>)"
| deliver: "ac_write_armed (ws_ch s) \<Longrightarrow>
    acm_wstep max_len s (s\<lparr>ws_ch := (ws_ch s)\<lparr>ac_write_armed := False\<rparr>, ws_events := ws_events s + 1\<rparr>)"
| edge: "acm_wstep max_len s (s\<lparr>ws_events := ws_events s + 1\<rparr>)"
| try_busy: "ws_events s = Suc k \<Longrightarrow> ac_consume_locked (ws_ch s) \<Longrightarrow> acm_wstep max_len s (s\<lparr>ws_events := k\<rparr>)"
| try_start: "ws_events s = Suc k \<Longrightarrow> \<not> ac_consume_locked (ws_ch s) \<Longrightarrow>
    acm_wstep max_len s (s\<lparr>ws_ch := (ws_ch s)\<lparr>ac_consume_locked := True\<rparr>, ws_events := k, ws_writer := True\<rparr>)"
| round: "ws_writer s \<Longrightarrow> write_round max_len txs (ws_ch s) = Some (ch, out, txs', e) \<Longrightarrow>
    again = data_again txs (hd (queue_of max_len (ws_ch s))) \<Longrightarrow>
    acm_wstep max_len s (s\<lparr>ws_ch := ch, ws_out := ws_out s @ out, ws_clean := (ws_clean s \<and> \<not> again),
      ws_writer := (e = Wr_next \<and> ac_write_queue_head ch + 1 \<noteq> ac_write_queue_tail ch),
      ws_unlocking := ws_unlocking s + (if e = Wr_break then 1 else 0), ws_dead := (ws_dead s \<or> e = Wr_err)\<rparr>)"

text \<open>A new channel: the lock is taken, since there is nothing to consume.\<close>

definition acm_wsys_init :: "acm_channel \<Rightarrow> acm_wsys" where
  "acm_wsys_init ch = \<lparr>ws_ch = ch, ws_writer = False, ws_unlocking = 0, ws_arming = 0, ws_events = 0, ws_tasks = [],
     ws_out = [], ws_dead = False, ws_clean = True\<rparr>"

text \<open>Runs in which a request enters the queue only when the ring has a free slot.\<close>

inductive acm_wreach :: "s32 \<Rightarrow> acm_wsys \<Rightarrow> bool" for max_len where
  init: "queue_wf max_len ch \<Longrightarrow> queue_of max_len ch = [] \<Longrightarrow> ac_consume_locked ch \<Longrightarrow> acm_wreach max_len (acm_wsys_init ch)"
| step: "acm_wreach max_len s \<Longrightarrow> acm_wstep max_len s s' \<Longrightarrow>
    (ws_tasks s' \<noteq> ws_tasks s \<Longrightarrow> length (queue_of max_len (ws_ch s)) < nat (sint max_len) \<and>
       unat (ac_write_queue_tail (ws_ch s)) + 1 < 2 ^ 64) \<Longrightarrow>
    acm_wreach max_len s'"

text \<open>
  The invariant. As long as there was no error, exactly one holder has the token when the queue has
  tasks (the write thread, a thread about to release the lock, or the lock itself, free) and none
  when it is empty; a free lock comes with an event that is or will be there. What was sent and what
  remains are the frames of all tasks.
\<close>

definition token_inv :: "s32 \<Rightarrow> acm_wsys \<Rightarrow> bool" where
  "token_inv max_len s \<longleftrightarrow>
     (if ws_writer s then 1 else 0) + ws_unlocking s + (if ac_consume_locked (ws_ch s) then 0 else 1) =
       (if queue_of max_len (ws_ch s) = [] then 0 else 1 :: nat) \<and>
     (\<not> ac_consume_locked (ws_ch s) \<longrightarrow> ac_write_armed (ws_ch s) \<or> 0 < ws_arming s \<or> 0 < ws_events s)"

definition stream_inv :: "s32 \<Rightarrow> acm_wsys \<Rightarrow> bool" where
  "stream_inv max_len s \<longleftrightarrow>
     ws_out s @ concat (map task_rest (queue_of max_len (ws_ch s))) = concat (map task_frame (ws_tasks s))"

definition wsys_inv :: "s32 \<Rightarrow> acm_wsys \<Rightarrow> bool" where
  "wsys_inv max_len s \<longleftrightarrow> queue_wf max_len (ws_ch s) \<and> (\<forall>t\<in>set (queue_of max_len (ws_ch s)). task_ok t) \<and>
     (\<not> ws_dead s \<longrightarrow> token_inv max_len s) \<and> (ws_clean s \<longrightarrow> stream_inv max_len s) \<and>
     (ws_dead s \<longrightarrow> \<not> ws_writer s \<and> ws_unlocking s = 0 \<and> ac_consume_locked (ws_ch s) \<and> queue_of max_len (ws_ch s) \<noteq> [])"

lemma enqueue_inv:
  assumes inv: "wsys_inv max_len s" and t: "task_ok t" "wt_write_index t = 0" and enq: "acm_enqueue max_len (ws_ch s) t = Some (ch, emp)"
    and room: "length (queue_of max_len (ws_ch s)) < nat (sint max_len)" "unat (ac_write_queue_tail (ws_ch s)) + 1 < 2 ^ 64"
    and s': "s' = s\<lparr>ws_ch := ch, ws_tasks := ws_tasks s @ [t], ws_unlocking := ws_unlocking s + (if emp then 1 else 0)\<rparr>"
  shows "wsys_inv max_len s'"
proof -
  have ok: "wq.ok max_len (ws_ch s)" using inv by (simp add: wsys_inv_def queue_contents)
  have c: "wq.ok max_len ch" "wq.contents max_len ch = wq.contents max_len (ws_ch s) @ [t]"
    using wq.put_contents [OF ok _ room(2), of t] room(1) enq by (auto simp: queue_contents)
  have e: "emp \<longleftrightarrow> queue_of max_len (ws_ch s) = []" "ac_consume_locked ch = ac_consume_locked (ws_ch s)"
      "ac_write_armed ch = ac_write_armed (ws_ch s)"
    using enq wq.empty_iff [OF ok] by (auto simp: acm_enqueue_def queue_contents split: bind_splits)
  have "task_rest t = task_frame t" using t(2) by (simp add: task_rest_def)
  moreover have "queue_of max_len ch = queue_of max_len (ws_ch s) @ [t]" using c(2) by (simp only: queue_contents)
  ultimately have "ws_clean s \<longrightarrow> stream_inv max_len s'" using inv by (auto simp: wsys_inv_def stream_inv_def s')
  moreover have q: "queue_of max_len ch = queue_of max_len (ws_ch s) @ [t]" using c(2) by (simp only: queue_contents)
  moreover have "\<not> ws_dead s' \<longrightarrow> token_inv max_len s'"
    using inv e q unfolding wsys_inv_def token_inv_def by (cases emp) (simp_all add: s')
  moreover have "ws_dead s \<longrightarrow> \<not> emp" using inv e(1) by (simp add: wsys_inv_def)
  ultimately show ?thesis
    using inv c(1) e(2) t(1) unfolding wsys_inv_def by (simp add: s' queue_contents(2) ball_Un)
qed

lemma round_inv:
  assumes inv: "wsys_inv max_len s" and w: "ws_writer s" and r: "write_round max_len txs (ws_ch s) = Some (ch, out, txs', e)"
    and s': "s' = s\<lparr>ws_ch := ch, ws_out := ws_out s @ out,
      ws_clean := (ws_clean s \<and> \<not> data_again txs (hd (queue_of max_len (ws_ch s)))),
      ws_writer := (e = Wr_next \<and> ac_write_queue_head ch + 1 \<noteq> ac_write_queue_tail ch),
      ws_unlocking := ws_unlocking s + (if e = Wr_break then 1 else 0), ws_dead := (ws_dead s \<or> e = Wr_err)\<rparr>"
  shows "wsys_inv max_len s'"
proof -
  have ok: "wq.ok max_len (ws_ch s)" and nd: "\<not> ws_dead s" using inv w by (auto simp: wsys_inv_def queue_contents)
  then have tok: "token_inv max_len s" using inv by (simp add: wsys_inv_def)
  then have "queue_of max_len (ws_ch s) \<noteq> []" using w by (auto simp: token_inv_def split: if_splits)
  then obtain t ts where q: "queue_of max_len (ws_ch s) = t # ts" by (cases "queue_of max_len (ws_ch s)") auto
  then have "task_ok t" using inv by (simp add: wsys_inv_def)
  then obtain t' out1 txs1 e1 where wt: "write_task txs t = Some (t', out1, txs1, e1)" "round_ok txs t (t', out1, txs1, e1)"
    using write_task_round [of t txs] by auto
  have c: "wq.ok max_len ch" "queue_of max_len ch = (if e = Wr_next then ts else t' # ts)" "out1 = out" "e1 = e"
      "ac_consume_locked ch = ac_consume_locked (ws_ch s)" "ac_write_armed ch = ac_write_armed (ws_ch s)"
    using write_round_front [OF ok q [unfolded queue_contents] wt(1)] r by (auto simp: queue_contents)
  have ro: "task_ok t'" "e = Wr_next \<Longrightarrow> task_rest t' = []" "\<not> data_again txs t \<Longrightarrow> task_rest t = out @ task_rest t'"
    using wt(2) c(3,4) by (auto simp: round_ok_def sends_def)
  have wr: "ws_writer s' \<longleftrightarrow> e = Wr_next \<and> ts \<noteq> []"
    using wq.empty_iff [OF c(1)] c(2) by (auto simp: s' queue_contents)
  have "ws_clean s' \<longrightarrow> stream_inv max_len s'"
    using inv q c(2) ro by (cases "e = Wr_next") (auto simp: wsys_inv_def stream_inv_def s')
  moreover have "\<not> ws_dead s' \<longrightarrow> token_inv max_len s'"
    using tok w q wr c nd by (cases e) (auto simp: token_inv_def s' split: if_splits)
  moreover have "ws_dead s' \<longrightarrow> \<not> ws_writer s' \<and> ws_unlocking s' = 0 \<and> ac_consume_locked (ws_ch s') \<and> queue_of max_len (ws_ch s') \<noteq> []"
    using tok w q c nd by (auto simp: token_inv_def s' split: if_splits)
  moreover have "\<forall>u\<in>set (queue_of max_len ch). task_ok u" using inv q c(2) ro(1) by (auto simp: wsys_inv_def)
  ultimately show ?thesis using c(1) by (simp add: wsys_inv_def s' queue_contents(2))
qed

lemma wstep_inv:
  assumes inv: "wsys_inv max_len s" and st: "acm_wstep max_len s s'"
    and room: "ws_tasks s' \<noteq> ws_tasks s \<Longrightarrow> length (queue_of max_len (ws_ch s)) < nat (sint max_len) \<and>
       unat (ac_write_queue_tail (ws_ch s)) + 1 < 2 ^ 64"
  shows "wsys_inv max_len s'"
  using st
proof cases
  case (enqueue t ch emp)
  with room show ?thesis by (intro enqueue_inv [OF inv enqueue(2-4)]) auto
next
  case (round txs ch out txs' e again)
  then show ?thesis using round_inv [OF inv round(2,3)] by simp
qed (use inv in \<open>auto simp: wsys_inv_def token_inv_def stream_inv_def acm_epoll_mod_write_def split: if_splits\<close>)

lemma wreach_inv: "acm_wreach max_len s \<Longrightarrow> wsys_inv max_len s"
proof (induction rule: acm_wreach.induct)
  case (init ch)
  then show ?case by (simp add: wsys_inv_def token_inv_def stream_inv_def acm_wsys_init_def)
next
  case (step s s')
  then show ?case using wstep_inv by blast
qed

end
