(* ===== verification/Mmpool_Correct.thy ===== *)
theory Mmpool_Correct
  imports Mmpool "HOL-Library.Multiset"
begin

text \<open>
  Correctness of the memory pool. \<open>pool_ok\<close> is the representation invariant: it relates the heap
  and the pool structure to the abstract pool, a list of free blocks per size class.
\<close>

section \<open>The header fields as maps\<close>

definition mm_nx :: "mm_mem \<Rightarrow> addr \<Rightarrow> addr option" where
  "mm_nx m = (\<lambda>p. map_option mn_next (cells m p))"

definition mm_pv :: "mm_mem \<Rightarrow> addr \<Rightarrow> addr option" where
  "mm_pv m = (\<lambda>p. map_option mn_pre (cells m p))"

definition mm_data :: "mm_mem \<Rightarrow> addr \<Rightarrow> (u32 \<times> s32) option" where
  "mm_data m = (\<lambda>p. map_option (\<lambda>n. (mn_index n, mn_use_flg n)) (cells m p))"

lemmas mm_maps = mm_nx_def mm_pv_def mm_data_def

lemma mm_alloc_iff:
  "mm_nx m p = None \<longleftrightarrow> cells m p = None" "mm_pv m p = None \<longleftrightarrow> cells m p = None"
  "mm_data m p = None \<longleftrightarrow> cells m p = None"
  by (simp_all add: mm_maps)

lemma mn_upd_alloc: "cells m p = Some n \<Longrightarrow> mn_upd m p f = Some (m\<lparr>cells := (cells m)(p \<mapsto> f n)\<rparr>)"
  by (simp add: mn_upd_def)

lemma mmpl_list_insert_maps:
  assumes "mm_nx m a = Some b" and "mm_pv m b \<noteq> None" and "mm_nx m n \<noteq> None"
    and "n \<noteq> a" and "n \<noteq> b" and "a \<noteq> NULL" and "n \<noteq> NULL"
  shows "\<exists>m'. mmpl_list_insert m a n = Some (m', 1) \<and> mm_nx m' = (mm_nx m)(n \<mapsto> b, a \<mapsto> n) \<and>
    mm_pv m' = (mm_pv m)(n \<mapsto> a, b \<mapsto> n) \<and> mm_data m' = mm_data m \<and> msize m' = msize m"
proof -
  obtain na nb nn where c: "cells m a = Some na" "mn_next na = b" "cells m b = Some nb" "cells m n = Some nn"
    using assms(1,2,3) by (auto simp: mm_maps)
  then show ?thesis
    using assms(4-7) by (cases "b = a") (auto simp: mmpl_list_insert_def mn_upd_def mm_maps fun_eq_iff)
qed

lemma mmpl_list_remove_maps:
  assumes "mm_nx m x = Some b" and "mm_pv m x = Some a" and "b \<noteq> x"
    and "mm_nx m a \<noteq> None" and "mm_pv m b \<noteq> None"
  shows "\<exists>m'. mmpl_list_remove m x = Some (m', 1) \<and> mm_nx m' = (mm_nx m)(a \<mapsto> b) \<and>
    mm_pv m' = (mm_pv m)(b \<mapsto> a) \<and> mm_data m' = mm_data m \<and> msize m' = msize m"
proof -
  obtain nx na nb where c: "cells m x = Some nx" "mn_next nx = b" "mn_pre nx = a"
      "cells m b = Some nb" "cells m a = Some na"
    using assms by (auto simp: mm_maps)
  then show ?thesis
    using assms(3) by (cases "b = a"; cases "a = x") (auto simp: mmpl_list_remove_def mn_upd_def mm_maps fun_eq_iff)
qed

lemma mmpl_list_remove_single:
  "mm_nx m x = Some x \<Longrightarrow> mmpl_list_remove m x = Some (m, - 1)"
  by (auto simp: mmpl_list_remove_def mm_maps)

interpretation mm: circ_heap mm_nx mm_pv
  "\<lambda>m a n. map_option fst (mmpl_list_insert m a n)" "\<lambda>m x. map_option fst (mmpl_list_remove m x)"
proof (unfold_locales, goal_cases)
  case (1 h a b n)
  show ?case using mmpl_list_insert_maps [OF 1] by auto
next
  case (2 h x b a)
  show ?case using mmpl_list_remove_maps [OF 2] by auto
qed

section \<open>The representation invariant\<close>

text \<open>A free block of class \<open>i\<close> and the list of the free blocks of class \<open>i\<close>.\<close>

definition blk_ok :: "mm_mem \<Rightarrow> u32 \<Rightarrow> nat \<Rightarrow> addr \<Rightarrow> bool" where
  "blk_ok m bnd i p \<longleftrightarrow> p \<noteq> NULL \<and> mm_data m p = Some (of_nat i, 0) \<and> SIZEOF_MM_NODE + i * unat bnd \<le> msize m p"

definition class_ok :: "mm_mem \<Rightarrow> u32 \<Rightarrow> nat \<Rightarrow> addr list \<Rightarrow> bool" where
  "class_ok m bnd i xs \<longleftrightarrow> (xs \<noteq> [] \<longrightarrow> ring (mm_nx m) (mm_pv m) xs) \<and> (\<forall>p\<in>set xs. blk_ok m bnd i p)"

text \<open>The abstract pool: the free blocks of each class. Its free space, in units of the boundary.\<close>

type_synonym apool = "nat \<Rightarrow> addr list"

definition free_total :: "apool \<Rightarrow> nat" where
  "free_total L = (\<Sum>i\<in>{1..MMPL_MAX_INDEX}. i * length (L i))"

definition head_of :: "addr list \<Rightarrow> addr" where
  "head_of xs = (case xs of [] \<Rightarrow> NULL | p # _ \<Rightarrow> p)"

text \<open>
  The counters of the code are words: they are the abstract numbers modulo \<open>2 ^ 32\<close>, and the bound
  on the total says that none of them wraps.
\<close>

definition counters_ok :: "mm_pool_s \<Rightarrow> apool \<Rightarrow> bool" where
  "counters_ok P L \<longleftrightarrow>
     length (mp_latest_get_cnt P) = 11 \<and> length (mp_free P) = 11 \<and> length (mp_free_size P) = 11 \<and>
     mp_boundary P \<noteq> 0 \<and> unat (mp_max_free_index P) + MMPL_MAX_INDEX < 2 ^ 32 \<and>
     mp_current_free_index P = of_nat (free_total L) \<and> free_total L \<le> unat (mp_max_free_index P) \<and>
     (\<forall>i\<le>MMPL_MAX_INDEX. mp_free P ! i = head_of (L i) \<and> mp_free_size P ! i = of_nat (i * length (L i)))"

definition lists_ok :: "mm_mem \<Rightarrow> u32 \<Rightarrow> apool \<Rightarrow> bool" where
  "lists_ok m bnd L \<longleftrightarrow> cells m NULL = None \<and> (\<forall>i. i \<notin> {1..MMPL_MAX_INDEX} \<longrightarrow> L i = []) \<and>
     (\<forall>i\<in>{1..MMPL_MAX_INDEX}. class_ok m bnd i (L i)) \<and>
     (\<forall>i j. i \<noteq> j \<longrightarrow> set (L i) \<inter> set (L j) = {})"

definition pool_ok :: "mm_mem \<Rightarrow> mm_pool_s \<Rightarrow> apool \<Rightarrow> bool" where
  "pool_ok m P L \<longleftrightarrow> counters_ok P L \<and> lists_ok m (mp_boundary P) L"

section \<open>Size classes under the heap operations\<close>

lemma class_frame:
  assumes "class_ok m bnd i xs"
    and "\<And>q. q \<in> set xs \<Longrightarrow> mm_nx m' q = mm_nx m q \<and> mm_pv m' q = mm_pv m q \<and> mm_data m' q = mm_data m q \<and> msize m' q = msize m q"
  shows "class_ok m' bnd i xs"
  using assms ring_frame [of "mm_nx m" "mm_pv m" xs "mm_nx m'" "mm_pv m'"]
  by (auto simp: class_ok_def blk_ok_def)

lemma class_pop:
  assumes "class_ok m bnd i (p # q # qs)"
  shows "\<exists>m'. mmpl_list_remove m p = Some (m', 1) \<and> mm_nx m p = Some q \<and> q \<noteq> p \<and> class_ok m' bnd i (q # qs) \<and>
    (\<forall>x. x \<notin> set (q # qs) \<longrightarrow> mm_nx m' x = mm_nx m x \<and> mm_pv m' x = mm_pv m x) \<and>
    mm_data m' = mm_data m \<and> msize m' = msize m"
proof -
  have r: "ring (mm_nx m) (mm_pv m) (p # q # qs)" using assms by (simp add: class_ok_def)
  have n: "mm_nx m p = Some q" "q \<noteq> p" using ring_next [OF r] by auto
  have a: "mm_pv m p = Some (last (q # qs))" using ring_prev_last [OF r] .
  have "mm_nx m (last (q # qs)) \<noteq> None" "mm_pv m q \<noteq> None"
    using ring_nodes [OF r, of q] ring_nodes [OF r, of "last (q # qs)"] by auto
  then obtain m' where m': "mmpl_list_remove m p = Some (m', 1)" "mm_data m' = mm_data m" "msize m' = msize m"
    using mmpl_list_remove_maps [OF n(1) a n(2)] by blast
  obtain m'' where "map_option fst (mmpl_list_remove m p) = Some m''" "ring (mm_nx m'') (mm_pv m'') (q # qs)"
      "\<forall>x. x \<notin> set (q # qs) \<longrightarrow> mm_nx m'' x = mm_nx m x \<and> mm_pv m'' x = mm_pv m x"
    using mm.unlink_ring [OF r] by blast
  moreover from this m' have "m'' = m'" by simp
  ultimately show ?thesis using m' n assms by (auto simp: class_ok_def blk_ok_def)
qed

lemma class_push:
  assumes "class_ok m bnd i (p # ps)" and "n \<notin> set (p # ps)" and "blk_ok m bnd i n"
  shows "\<exists>m'. mmpl_list_insert m p n = Some (m', 1) \<and> class_ok m' bnd i (p # n # ps) \<and>
    (\<forall>x. x \<notin> set (p # n # ps) \<longrightarrow> mm_nx m' x = mm_nx m x \<and> mm_pv m' x = mm_pv m x) \<and>
    mm_data m' = mm_data m \<and> msize m' = msize m"
proof -
  have r: "ring (mm_nx m) (mm_pv m) (p # ps)" using assms by (simp add: class_ok_def)
  have nz: "p \<noteq> NULL" "n \<noteq> NULL" "mm_nx m n \<noteq> None"
    using assms by (auto simp: class_ok_def blk_ok_def mm_maps)
  obtain b where b: "mm_nx m p = Some b" "b \<in> set (p # ps)" using r by (cases ps) auto
  then have "mm_pv m b \<noteq> None" "n \<noteq> b" using ring_nodes [OF r] assms(2) by auto
  then obtain m' where m': "mmpl_list_insert m p n = Some (m', 1)" "mm_data m' = mm_data m" "msize m' = msize m"
    using mmpl_list_insert_maps [OF b(1)] nz assms(2) by auto
  obtain m'' where "map_option fst (mmpl_list_insert m p n) = Some m''" "ring (mm_nx m'') (mm_pv m'') (p # n # ps)"
      "\<forall>x. x \<notin> set (p # n # ps) \<longrightarrow> mm_nx m'' x = mm_nx m x \<and> mm_pv m'' x = mm_pv m x"
    using mm.link_ring [OF r assms(2) nz(3,1,2)] by blast
  moreover from this m' have "m'' = m'" by simp
  ultimately show ?thesis using m' assms by (auto simp: class_ok_def blk_ok_def)
qed

section \<open>The abstract pool and the counters\<close>

definition a_get :: "apool \<Rightarrow> nat \<Rightarrow> apool" where
  "a_get L i = L(i := tl (L i))"

definition a_put :: "apool \<Rightarrow> nat \<Rightarrow> addr \<Rightarrow> apool" where
  "a_put L i p = L(i := (case L i of [] \<Rightarrow> [p] | q # qs \<Rightarrow> q # p # qs))"

definition blocks :: "apool \<Rightarrow> addr set" where
  "blocks L = (\<Union>i. set (L i))"

lemma blocks_upd_subset: "set xs \<subseteq> set (L i) \<Longrightarrow> blocks (L(i := xs)) \<subseteq> blocks L"
  unfolding blocks_def by (auto split: if_splits) blast+

lemma total_upd:
  assumes "1 \<le> i" and "i \<le> MMPL_MAX_INDEX"
  shows "free_total (L(i := xs)) + i * length (L i) = free_total L + i * length xs"
  using sum_fun_upd [of "{1..MMPL_MAX_INDEX}" i "\<lambda>k ys. k * length ys" L xs] assms
  by (simp add: free_total_def)

lemma total_pop:
  "1 \<le> i \<Longrightarrow> i \<le> MMPL_MAX_INDEX \<Longrightarrow> L i = p # xs \<Longrightarrow> free_total L = free_total (L(i := xs)) + i"
  using total_upd [of i L xs] by simp

lemma total_push:
  "1 \<le> i \<Longrightarrow> i \<le> MMPL_MAX_INDEX \<Longrightarrow> free_total (a_put L i p) = free_total L + i"
  using total_upd [of i L "case L i of [] \<Rightarrow> [p] | q # qs \<Rightarrow> q # p # qs"]
  by (auto simp: a_put_def split: list.splits)

lemma counters_pop:
  assumes "counters_ok P L" and "1 \<le> i" and "i \<le> MMPL_MAX_INDEX" and "L i = p # xs"
  shows "counters_ok (P\<lparr>mp_free := (mp_free P)[i := head_of xs],
    mp_free_size := (mp_free_size P)[i := mp_free_size P ! i - of_nat i],
    mp_current_free_index := mp_current_free_index P - of_nat i\<rparr>) (L(i := xs))"
proof -
  have t: "free_total L = free_total (L(i := xs)) + i" using assms total_pop by blast
  have "(of_nat (i * length (p # xs)) :: u32) - of_nat i = of_nat (i * length xs)"
    by (simp add: algebra_simps)
  then have "mp_free_size P ! i - of_nat i = of_nat (i * length xs)"
    using assms by (simp add: counters_ok_def algebra_simps)
  with t assms show ?thesis by (auto simp: counters_ok_def nth_list_update)
qed

lemma counters_push:
  assumes "counters_ok P L" and "1 \<le> i" and "i \<le> MMPL_MAX_INDEX"
    and "free_total L + i \<le> unat (mp_max_free_index P)"
  shows "counters_ok (P\<lparr>mp_free := (mp_free P)[i := head_of (a_put L i p i)],
    mp_free_size := (mp_free_size P)[i := mp_free_size P ! i + of_nat i],
    mp_current_free_index := mp_current_free_index P + of_nat i\<rparr>) (a_put L i p)"
proof -
  have t: "free_total (a_put L i p) = free_total L + i" using assms total_push by blast
  have "mp_free_size P ! i + of_nat i = of_nat (i * length (a_put L i p i))"
    using assms by (auto simp: counters_ok_def a_put_def algebra_simps split: list.splits)
  with t assms show ?thesis
    by (auto simp: counters_ok_def nth_list_update) (auto simp: a_put_def)
qed

lemma counters_stat [simp]:
  "length (mp_latest_get_cnt P) = 11 \<Longrightarrow>
    counters_ok (P\<lparr>mp_get_cnt := c, mp_latest_get_cnt := (mp_latest_get_cnt P)[j := d]\<rparr>) L \<longleftrightarrow> counters_ok P L"
  by (simp add: counters_ok_def)

section \<open>The lists under the heap operations\<close>

lemma lists_block: "lists_ok m bnd L \<Longrightarrow> p \<in> set (L i) \<Longrightarrow> i \<in> {1..MMPL_MAX_INDEX} \<Longrightarrow> blk_ok m bnd i p"
  by (auto simp: lists_ok_def class_ok_def)

lemma lists_class: "lists_ok m bnd L \<Longrightarrow> i \<in> {1..MMPL_MAX_INDEX} \<Longrightarrow> class_ok m bnd i (L i)"
  unfolding lists_ok_def by blast

lemma lists_fresh:
  assumes "lists_ok m bnd L" and "cells m a = None"
  shows "a \<notin> blocks L"
proof
  assume "a \<in> blocks L"
  then obtain i where i: "a \<in> set (L i)" by (auto simp: blocks_def)
  then have "i \<in> {1..MMPL_MAX_INDEX}" using assms(1) unfolding lists_ok_def by force
  then have "blk_ok m bnd i a" using lists_block [OF assms(1) i] by simp
  then show False using assms(2) by (simp add: blk_ok_def mm_data_def)
qed

lemma lists_frame:
  assumes "lists_ok m bnd L" and "cells m' NULL = None"
    and "\<And>q. q \<in> blocks L \<Longrightarrow> mm_nx m' q = mm_nx m q \<and> mm_pv m' q = mm_pv m q \<and> mm_data m' q = mm_data m q \<and> msize m' q = msize m q"
  shows "lists_ok m' bnd L"
proof -
  have "class_ok m' bnd i (L i)" if "i \<in> {1..MMPL_MAX_INDEX}" for i
    by (rule class_frame [OF lists_class [OF assms(1) that]]) (use assms(3) in \<open>auto simp: blocks_def\<close>)
  with assms(1,2) show ?thesis unfolding lists_ok_def by blast
qed

text \<open>A class gets a new list: the blocks it had, some of them, and blocks of no list before.\<close>

lemma lists_replace:
  assumes "lists_ok m bnd L" and "i \<in> {1..MMPL_MAX_INDEX}" and "class_ok m' bnd i ys" and "cells m' NULL = None"
    and "set ys \<subseteq> set (L i) \<union> N" and "N \<inter> blocks L = {}"
    and "\<And>q. q \<in> blocks L \<Longrightarrow> q \<notin> set (L i) \<Longrightarrow>
      mm_nx m' q = mm_nx m q \<and> mm_pv m' q = mm_pv m q \<and> mm_data m' q = mm_data m q \<and> msize m' q = msize m q"
  shows "lists_ok m' bnd (L(i := ys))"
proof -
  have dj: "set (L j) \<inter> set (L k) = {}" if "j \<noteq> k" for j k
    using assms(1) that by (simp add: lists_ok_def)
  have sb: "set (L j) \<subseteq> blocks L" for j by (auto simp: blocks_def)
  have "class_ok m' bnd j (L j)" if "j \<in> {1..MMPL_MAX_INDEX}" "j \<noteq> i" for j
  proof (rule class_frame [OF lists_class [OF assms(1) that(1)]])
    fix q assume q: "q \<in> set (L j)"
    with dj [OF that(2)] have "q \<notin> set (L i)" by auto
    with q sb assms(7) show "mm_nx m' q = mm_nx m q \<and> mm_pv m' q = mm_pv m q \<and> mm_data m' q = mm_data m q \<and> msize m' q = msize m q"
      by blast
  qed
  moreover have ys: "set ys \<inter> set (L k) = {}" if "k \<noteq> i" for k
    using dj [OF that] sb [of k] assms(5,6) by blast
  then have "set ((L(i := ys)) j) \<inter> set ((L(i := ys)) k) = {}" if "j \<noteq> k" for j k
    using dj [OF that] ys [of j] ys [of k] that by (cases "j = i"; cases "k = i") (simp_all add: Int_commute)
  moreover have "\<forall>j. j \<notin> {1..MMPL_MAX_INDEX} \<longrightarrow> L j = []" using assms(1) by (simp add: lists_ok_def)
  ultimately show ?thesis using assms(2,3,4) unfolding lists_ok_def by auto
qed

lemma lists_single_pop:
  assumes "lists_ok m bnd L" and "L i = p # xs" and "i \<in> {1..MMPL_MAX_INDEX}" and "class_ok m' bnd i xs"
    and "\<And>q. q \<notin> set xs \<Longrightarrow> mm_nx m' q = mm_nx m q \<and> mm_pv m' q = mm_pv m q"
    and "mm_data m' = mm_data m" and "msize m' = msize m"
  shows "lists_ok m' bnd (L(i := xs))" and "p \<notin> blocks (L(i := xs))"
proof -
  have "cells m' NULL = None" using assms(1,6) mm_alloc_iff(3) by (metis lists_ok_def)
  then show "lists_ok m' bnd (L(i := xs))"
    by (rule lists_replace [OF assms(1,3,4), where N = "{}"]) (use assms(2,5,6,7) in auto)
  have "class_ok m bnd i (p # xs)" using lists_class [OF assms(1,3)] assms(2) by simp
  then have d: "p \<notin> set xs" using ring_distinct by (fastforce simp: class_ok_def)
  have "p \<notin> set (L j)" if "j \<noteq> i" for j
    using assms(1,2) that unfolding lists_ok_def by (metis disjoint_iff list.set_intros(1))
  with d show "p \<notin> blocks (L(i := xs))" by (auto simp: blocks_def)
qed

text \<open>
  Taking the first block of a class: the two branches of the code (last block, or more) both end
  in a pool whose class is the tail of the list.
\<close>

lemma pool_pop:
  assumes "pool_ok m P L" and "1 \<le> i" and "i \<le> MMPL_MAX_INDEX" and "L i = p # xs"
  shows "\<exists>n m'. cells m p = Some n \<and> (mn_next n = p \<longleftrightarrow> xs = []) \<and>
    (xs = [] \<longrightarrow> m' = m) \<and>
    (xs \<noteq> [] \<longrightarrow> mn_next n = head_of xs \<and> mmpl_list_remove m p = Some (m', 1)) \<and>
    lists_ok m' (mp_boundary P) (L(i := xs)) \<and> p \<notin> blocks (L(i := xs)) \<and>
    mm_data m' = mm_data m \<and> msize m' = msize m"
proof -
  have lo: "lists_ok m (mp_boundary P) L" using assms by (simp add: pool_ok_def)
  have ii: "i \<in> {1..MMPL_MAX_INDEX}" using assms by simp
  have ci: "class_ok m (mp_boundary P) i (p # xs)" using lists_class [OF lo ii] assms(4) by simp
  obtain n where n: "cells m p = Some n"
    using ci by (auto simp: class_ok_def blk_ok_def mm_data_def)
  show ?thesis
  proof (cases xs)
    case Nil
    with ci n have "mn_next n = p" by (auto simp: class_ok_def mm_maps)
    moreover have "class_ok m (mp_boundary P) i []" by (simp add: class_ok_def)
    ultimately show ?thesis
      using Nil n lists_single_pop [OF lo assms(4) ii, of m] by auto
  next
    case (Cons q qs)
    obtain m' where m': "mmpl_list_remove m p = Some (m', 1)" "mm_nx m p = Some q" "q \<noteq> p"
        "class_ok m' (mp_boundary P) i (q # qs)"
        "\<forall>x. x \<notin> set (q # qs) \<longrightarrow> mm_nx m' x = mm_nx m x \<and> mm_pv m' x = mm_pv m x"
        "mm_data m' = mm_data m" "msize m' = msize m"
      using class_pop ci Cons by blast
    moreover have "mn_next n = q" using m'(2) n by (simp add: mm_nx_def)
    ultimately show ?thesis
      using Cons n lists_single_pop [OF lo assms(4) ii, of m'] by (auto simp: head_of_def)
  qed
qed

section \<open>Getting memory\<close>

lemma mmpl_index_le: "mmpl_index sz bnd \<le> MMPL_MAX_INDEX"
  by (auto simp: mmpl_index_def Let_def word_le_nat_alt not_less)

lemma mmpl_index_fits: "mmpl_index sz bnd * unat bnd \<le> unat (mmpl_align sz bnd)"
  by (simp add: mmpl_index_def Let_def unat_div)

lemma mm_data_upd [simp]:
  "mm_nx (m\<lparr>cells := (cells m)(p \<mapsto> n)\<rparr>) = (mm_nx m)(p \<mapsto> mn_next n)"
  "mm_pv (m\<lparr>cells := (cells m)(p \<mapsto> n)\<rparr>) = (mm_pv m)(p \<mapsto> mn_pre n)"
  "mm_data (m\<lparr>cells := (cells m)(p \<mapsto> n)\<rparr>) = (mm_data m)(p \<mapsto> (mn_index n, mn_use_flg n))"
  "mm_nx (m\<lparr>cells := (cells m)(p := None)\<rparr>) = (mm_nx m)(p := None)"
  "mm_pv (m\<lparr>cells := (cells m)(p := None)\<rparr>) = (mm_pv m)(p := None)"
  "mm_data (m\<lparr>cells := (cells m)(p := None)\<rparr>) = (mm_data m)(p := None)"
  by (auto simp: mm_maps fun_eq_iff)

text \<open>Writing a header that belongs to no free list, or freeing it, leaves the lists alone.\<close>

lemma lists_write:
  assumes "lists_ok m bnd L" and "p \<notin> blocks L" and "p \<noteq> NULL"
  shows "lists_ok (m\<lparr>msize := (msize m)(p := k), cells := (cells m)(p := c)\<rparr>) bnd L"
    and "lists_ok (m\<lparr>cells := (cells m)(p := c)\<rparr>) bnd L"
proof -
  have "cells m NULL = None" using assms(1) by (simp add: lists_ok_def)
  then show "lists_ok (m\<lparr>msize := (msize m)(p := k), cells := (cells m)(p := c)\<rparr>) bnd L"
    and "lists_ok (m\<lparr>cells := (cells m)(p := c)\<rparr>) bnd L"
    using assms(2,3) by (auto simp: mm_maps intro!: lists_frame [OF assms(1)])
qed

lemma getmem_finish_ok:
  assumes "counters_ok P L" and "lists_ok m (mp_boundary P) L" and "cells m p = Some n"
    and "p \<notin> blocks L"
  shows "\<exists>m' P'. getmem_finish m P i p = Some (m', P', p + SIZEOF_MM_NODE) \<and> pool_ok m' P' L \<and>
    mm_data m' = (mm_data m)(p \<mapsto> (mn_index n, 1)) \<and> msize m' = msize m \<and> mp_boundary P' = mp_boundary P"
proof -
  have "p \<noteq> NULL" using assms(2,3) by (cases "p = 0") (simp_all add: lists_ok_def)
  then have "lists_ok (m\<lparr>cells := (cells m)(p \<mapsto> n\<lparr>mn_use_flg := 1\<rparr>)\<rparr>) (mp_boundary P) L"
    using assms(2,4) lists_write(2) by blast
  moreover have "length (mp_latest_get_cnt P) = 11" using assms(1) by (simp add: counters_ok_def)
  ultimately show ?thesis
    using assms(1,3) by (simp add: getmem_finish_def mn_upd_def pool_ok_def)
qed

definition got_block :: "mm_mem \<Rightarrow> mm_mem \<Rightarrow> nat \<Rightarrow> nat \<Rightarrow> addr \<Rightarrow> bool" where
  "got_block m m' i sz p \<longleftrightarrow> p \<noteq> NULL \<and> mm_data m' p = Some (of_nat i, 1) \<and> SIZEOF_MM_NODE + sz \<le> msize m' p \<and>
     (\<forall>q. q \<noteq> p \<longrightarrow> mm_data m' q = mm_data m q \<and> msize m' q = msize m q)"

lemma getmem_reuse:
  assumes "pool_ok m P L" and "i = mmpl_index sz (mp_boundary P)" and "L i = p # xs"
  shows "\<exists>m' P'. mmpl_getmem m P sz a = Some (m', P', p + SIZEOF_MM_NODE) \<and> pool_ok m' P' (L(i := xs)) \<and>
    p \<notin> blocks (L(i := xs)) \<and> got_block m m' i (i * unat (mp_boundary P)) p \<and> mp_boundary P' = mp_boundary P"
proof -
  let ?P = "P\<lparr>mp_free := (mp_free P)[i := head_of xs],
    mp_free_size := (mp_free_size P)[i := mp_free_size P ! i - of_nat i],
    mp_current_free_index := mp_current_free_index P - of_nat i\<rparr>"
  have c: "counters_ok P L" and lo: "lists_ok m (mp_boundary P) L" using assms(1) by (auto simp: pool_ok_def)
  have i1: "1 \<le> i" using lo assms(3) by (cases "i = 0") (auto simp: lists_ok_def)
  have i10: "i \<le> MMPL_MAX_INDEX" using mmpl_index_le assms(2) by simp
  obtain n m' where n: "cells m p = Some n" "mn_next n = p \<longleftrightarrow> xs = []" "xs = [] \<longrightarrow> m' = m"
      "xs \<noteq> [] \<longrightarrow> mn_next n = head_of xs \<and> mmpl_list_remove m p = Some (m', 1)"
      and lo': "lists_ok m' (mp_boundary P) (L(i := xs))" and nb: "p \<notin> blocks (L(i := xs))"
      and dat: "mm_data m' = mm_data m" "msize m' = msize m"
    using pool_pop [OF assms(1) i1 i10 assms(3)] by blast
  have b: "blk_ok m (mp_boundary P) i p" using lists_block [OF lo, of p i] assms(3) i1 i10 by simp
  have cp: "counters_ok ?P (L(i := xs))" using counters_pop [OF c i1 i10 assms(3)] .
  have ix: "mn_index n = of_nat i" using b n(1) by (simp add: blk_ok_def mm_data_def)
  obtain n' where n': "cells m' p = Some n'" "mn_index n' = mn_index n"
    using fun_cong [OF dat(1), of p] n(1) by (auto simp: mm_data_def)
  obtain m2 P2 where f: "getmem_finish m' ?P i p = Some (m2, P2, p + SIZEOF_MM_NODE)" "pool_ok m2 P2 (L(i := xs))"
      "mm_data m2 = (mm_data m')(p \<mapsto> (mn_index n', 1))" "msize m2 = msize m'" "mp_boundary P2 = mp_boundary P"
    using getmem_finish_ok [OF cp _ n'(1) nb, of i] lo' by auto
  have "mp_free P ! i = p" "length (mp_free P) = 11" "mp_boundary P \<noteq> 0" "mp_free_size P ! i = of_nat (i * Suc (length xs))"
    using c i10 assms(3) by (auto simp: counters_ok_def head_of_def algebra_simps)
  moreover have "p \<noteq> NULL" using b by (simp add: blk_ok_def)
  ultimately have "mmpl_getmem m P sz a = Some (m2, P2, p + SIZEOF_MM_NODE)"
    using f(1) n i1 i10 assms(2)
    by (cases xs) (auto simp: mmpl_getmem_def Let_def head_of_def)
  moreover have "got_block m m2 i (i * unat (mp_boundary P)) p"
    using b dat f(3,4) n'(2) ix by (auto simp: got_block_def blk_ok_def)
  ultimately show ?thesis using f(2,5) nb by blast
qed

lemma getmem_malloc:
  assumes "pool_ok m P L" and "i = mmpl_index sz (mp_boundary P)" and "L i = []"
    and "a \<noteq> NULL" and "cells m a = None"
  shows "\<exists>m' P'. mmpl_getmem m P sz a = Some (m', P', a + SIZEOF_MM_NODE) \<and> pool_ok m' P' L \<and>
    a \<notin> blocks L \<and> got_block m m' i (unat (mmpl_align sz (mp_boundary P))) a \<and> mp_boundary P' = mp_boundary P"
proof -
  let ?n = "\<lparr>mn_use_flg = 0, mn_next = a, mn_pre = a, mn_index = of_nat i\<rparr>"
  let ?m = "m\<lparr>msize := (msize m)(a := unat (mmpl_align sz (mp_boundary P)) + SIZEOF_MM_NODE), cells := (cells m)(a \<mapsto> ?n)\<rparr>"
  have c: "counters_ok P L" and lo: "lists_ok m (mp_boundary P) L" using assms(1) by (auto simp: pool_ok_def)
  have i10: "i \<le> MMPL_MAX_INDEX" using mmpl_index_le assms(2) by simp
  have nb: "a \<notin> blocks L" by (rule lists_fresh [OF lo assms(5)])
  have "lists_ok ?m (mp_boundary P) L" by (rule lists_write(1) [OF lo nb assms(4)])
  then obtain m2 P2 where f: "getmem_finish ?m P i a = Some (m2, P2, a + SIZEOF_MM_NODE)" "pool_ok m2 P2 L"
      "mm_data m2 = (mm_data ?m)(a \<mapsto> (of_nat i, 1))" "msize m2 = msize ?m" "mp_boundary P2 = mp_boundary P"
    using getmem_finish_ok [OF c, of ?m a ?n i] nb by auto
  have "mp_free P ! i = NULL" "length (mp_free P) = 11" "mp_boundary P \<noteq> 0"
    using c i10 assms(3) by (auto simp: counters_ok_def head_of_def)
  then have "mmpl_getmem m P sz a = Some (m2, P2, a + SIZEOF_MM_NODE)"
    using f(1) assms(2,4) i10 by (simp add: mmpl_getmem_def Let_def malloc_at_def mn_upd_def)
  moreover have "got_block m m2 i (unat (mmpl_align sz (mp_boundary P))) a"
    using f(3,4) assms(4) by (auto simp: got_block_def mm_data_def)
  ultimately show ?thesis using f(2,5) nb by blast
qed

lemma getmem_fail:
  assumes "pool_ok m P L" and "L (mmpl_index sz (mp_boundary P)) = []"
  shows "mmpl_getmem m P sz NULL = Some (m, P, NULL)"
proof -
  have "mp_free P ! mmpl_index sz (mp_boundary P) = NULL" "length (mp_free P) = 11" "mp_boundary P \<noteq> 0"
    using assms mmpl_index_le [of sz "mp_boundary P"] by (auto simp: pool_ok_def counters_ok_def head_of_def)
  then show ?thesis using mmpl_index_le [of sz "mp_boundary P"] by (simp add: mmpl_getmem_def Let_def)
qed

section \<open>Releasing memory\<close>

lemma lists_push_empty:
  assumes "lists_ok m bnd L" and "i \<in> {1..MMPL_MAX_INDEX}" and "p \<notin> blocks L" and "blk_ok m bnd i p"
    and "L i = []" and "cells m p = Some n"
  shows "lists_ok (m\<lparr>cells := (cells m)(p \<mapsto> n\<lparr>mn_next := p, mn_pre := p\<rparr>)\<rparr>) bnd (a_put L i p)"
proof -
  let ?m = "m\<lparr>cells := (cells m)(p \<mapsto> n\<lparr>mn_next := p, mn_pre := p\<rparr>)\<rparr>"
  have "class_ok ?m bnd i [p]" using assms(4,6) by (simp add: class_ok_def blk_ok_def mm_data_def)
  moreover have "cells ?m NULL = None" using assms(1,4) by (simp add: lists_ok_def blk_ok_def)
  ultimately have "lists_ok ?m bnd (L(i := [p]))"
    by (rule lists_replace [OF assms(1,2), where N = "{p}"]) (use assms(3) in \<open>auto simp: blocks_def\<close>)
  with assms(5) show ?thesis by (simp add: a_put_def)
qed

lemma lists_push:
  assumes "lists_ok m bnd L" and "i \<in> {1..MMPL_MAX_INDEX}" and "p \<notin> blocks L" and "blk_ok m bnd i p"
    and "L i = q # qs"
  shows "\<exists>m'. mmpl_list_insert m q p = Some (m', 1) \<and> lists_ok m' bnd (a_put L i p) \<and> mm_data m' = mm_data m \<and> msize m' = msize m"
proof -
  have "class_ok m bnd i (q # qs)" using lists_class [OF assms(1,2)] assms(5) by simp
  moreover have "p \<notin> set (q # qs)" using assms(3,5) unfolding blocks_def by (metis UN_iff UNIV_I)
  ultimately obtain m' where m': "mmpl_list_insert m q p = Some (m', 1)" "class_ok m' bnd i (q # p # qs)"
      "\<forall>x. x \<notin> set (q # p # qs) \<longrightarrow> mm_nx m' x = mm_nx m x \<and> mm_pv m' x = mm_pv m x"
      "mm_data m' = mm_data m" "msize m' = msize m"
    using class_push assms(4) by blast
  have "cells m' NULL = None" using assms(1) m'(4) mm_alloc_iff(3) by (metis lists_ok_def)
  then have "lists_ok m' bnd (L(i := q # p # qs))"
    by (rule lists_replace [OF assms(1,2) m'(2), where N = "{p}"]) (use m' assms(3,5) in auto)
  with m' assms(5) show ?thesis by (simp add: a_put_def)
qed

lemma over_limit:
  assumes "counters_ok P L" and "unat i \<le> MMPL_MAX_INDEX"
  shows "mp_current_free_index P + i > mp_max_free_index P \<longleftrightarrow> unat (mp_max_free_index P) < free_total L + unat i"
proof -
  have lt: "free_total L + unat i < 4294967296" using assms by (simp add: counters_ok_def)
  have "mp_current_free_index P + i = of_nat (free_total L + unat i)"
    using assms(1) by (simp add: counters_ok_def)
  then have "unat (mp_current_free_index P + i) = free_total L + unat i"
    by (simp only: unat_of_nat_u32 [OF lt])
  then show ?thesis by (simp add: word_less_nat_alt)
qed

lemma rlsmem_put:
  assumes "pool_ok m P L" and "i \<in> {1..MMPL_MAX_INDEX}" and "p \<notin> blocks L"
    and "mm_data m p = Some (of_nat i, 1)" and "SIZEOF_MM_NODE + i * unat (mp_boundary P) \<le> msize m p"
    and "free_total L + i \<le> unat (mp_max_free_index P)"
  shows "\<exists>m' P'. mmpl_rlsmem m P (p + SIZEOF_MM_NODE) = Some (m', P', 1) \<and> pool_ok m' P' (a_put L i p) \<and>
    mm_data m' = (mm_data m)(p \<mapsto> (of_nat i, 0)) \<and> msize m' = msize m \<and> mp_boundary P' = mp_boundary P"
proof -
  have c: "counters_ok P L" and lo: "lists_ok m (mp_boundary P) L" using assms(1) by (auto simp: pool_ok_def)
  obtain n where n: "cells m p = Some n" "mn_index n = of_nat i" "mn_use_flg n = 1"
    using assms(4) by (auto simp: mm_data_def)
  have pz: "p \<noteq> NULL" using lo n(1) by (cases "p = 0") (simp_all add: lists_ok_def)
  let ?n = "n\<lparr>mn_use_flg := 0\<rparr>" and ?m = "m\<lparr>cells := (cells m)(p \<mapsto> n\<lparr>mn_use_flg := 0\<rparr>)\<rparr>"
  have lo1: "lists_ok ?m (mp_boundary P) L" by (rule lists_write(2) [OF lo assms(3) pz])
  have b: "blk_ok ?m (mp_boundary P) i p" using n(2) assms(5) pz by (simp add: blk_ok_def)
  have w: "unat (of_nat i :: u32) = i" "(of_nat i :: u32) \<noteq> 0" using assms(2) by (auto simp: word_of_nat_eq_0_iff)
  have big: "\<not> mp_current_free_index P + of_nat i > mp_max_free_index P"
    using over_limit [OF c, of "of_nat i"] w(1) assms(2,6) by simp
  have arr: "mp_free P ! i = head_of (L i)" "length (mp_free P) = 11" "i < 11"
    using c assms(2) by (auto simp: counters_ok_def)
  have cp: "counters_ok (P\<lparr>mp_free := (mp_free P)[i := head_of (a_put L i p i)],
    mp_free_size := (mp_free_size P)[i := mp_free_size P ! i + of_nat i],
    mp_current_free_index := mp_current_free_index P + of_nat i\<rparr>) (a_put L i p)"
    using counters_push [OF c _ _ assms(6)] assms(2) by auto
  show ?thesis
  proof (cases "L i")
    case Nil
    then have "a_put L i p i = [p]" by (simp add: a_put_def)
    moreover have "lists_ok (?m\<lparr>cells := (cells ?m)(p \<mapsto> ?n\<lparr>mn_next := p, mn_pre := p\<rparr>)\<rparr>) (mp_boundary P) (a_put L i p)"
      by (rule lists_push_empty [OF lo1 assms(2,3) b Nil]) simp
    ultimately show ?thesis
      using n w big arr Nil cp by (simp add: mmpl_rlsmem_def mn_upd_def pool_ok_def head_of_def Let_def)
  next
    case (Cons q qs)
    then obtain m' where m': "mmpl_list_insert ?m q p = Some (m', 1)" "lists_ok m' (mp_boundary P) (a_put L i p)"
        "mm_data m' = mm_data ?m" "msize m' = msize ?m"
      using lists_push [OF lo1 assms(2,3) b] by blast
    have "q \<noteq> NULL" using lists_block [OF lo, of q i] Cons assms(2) by (auto simp: blk_ok_def)
    moreover have "head_of (a_put L i p i) = q" "(mp_free P)[i := q] = mp_free P"
      using Cons arr list_update_id [of "mp_free P" i] by (auto simp: a_put_def head_of_def)
    ultimately show ?thesis
      using n w big arr Cons cp m' by (simp add: mmpl_rlsmem_def mn_upd_def pool_ok_def head_of_def Let_def)
  qed
qed

text \<open>The branches that give the block back to the system.\<close>

lemma in_use_not_free:
  assumes "lists_ok m bnd L" and "mm_data m p = Some (i, 1)"
  shows "p \<notin> blocks L"
proof
  assume "p \<in> blocks L"
  then obtain j where j: "p \<in> set (L j)" by (auto simp: blocks_def)
  then have "j \<in> {1..MMPL_MAX_INDEX}" using assms(1) unfolding lists_ok_def by force
  then have "blk_ok m bnd j p" using lists_block [OF assms(1) j] by simp
  then show False using assms(2) by (simp add: blk_ok_def)
qed

definition freed :: "mm_mem \<Rightarrow> addr \<Rightarrow> mm_mem" where
  "freed m p = m\<lparr>cells := (cells m)(p := None)\<rparr>"

lemma freed_simps [simp]: "mm_data (freed m p) = (mm_data m)(p := None)" "msize (freed m p) = msize m"
  by (simp_all add: freed_def)

lemma pool_freed:
  assumes "pool_ok m P L" and "mm_data m p = Some (i, 1)"
  shows "pool_ok (freed m p) P L"
proof -
  have lo: "lists_ok m (mp_boundary P) L" using assms(1) by (simp add: pool_ok_def)
  have "p \<noteq> NULL" using lo assms(2) by (cases "p = 0") (simp_all add: lists_ok_def mm_data_def)
  then show ?thesis
    using assms lists_write(2) [OF lo in_use_not_free [OF lo assms(2)]] by (simp add: pool_ok_def freed_def)
qed

lemma rlsmem_large:
  "mm_data m p = Some (0, 1) \<Longrightarrow> mmpl_rlsmem m P (p + SIZEOF_MM_NODE) = Some (freed m p, P, 1)"
  by (auto simp: mmpl_rlsmem_def mm_data_def mn_upd_def c_free_def freed_def Let_def)

lemma rlsmem_over:
  assumes "pool_ok m P L" and "mm_data m p = Some (i, 1)" and "i \<noteq> 0" and "unat i \<le> MMPL_MAX_INDEX"
    and "unat (mp_max_free_index P) < free_total L + unat i"
  shows "mmpl_rlsmem m P (p + SIZEOF_MM_NODE) =
    map_option (\<lambda>(m3, P3, r). (m3, P3, if r < 0 then - 2 else 1)) (mmpl_rls_oldestfree (freed m p) P)"
proof -
  obtain n where n: "cells m p = Some n" "mn_index n = i" "mn_use_flg n = 1"
    using assms(2) by (auto simp: mm_data_def)
  have "mp_current_free_index P + i > mp_max_free_index P"
    using over_limit [of P L i] assms by (simp add: pool_ok_def)
  with n assms(3) show ?thesis
    by (cases "mmpl_rls_oldestfree (freed m p) P")
       (auto simp: mmpl_rlsmem_def mn_upd_def c_free_def Let_def freed_def)
qed

section \<open>The order of the size classes\<close>

lemma sort_min_k_fold:
  "\<exists>k \<in> insert k0 (set js). fold (\<lambda>j (mg, mk). if key j < mg then (key j, j) else (mg, mk)) js (key k0, k0) = (key k, k) \<and>
     (\<forall>j \<in> insert k0 (set js). key k \<le> (key j :: u64))"
proof (induction js arbitrary: k0)
  case Nil
  then show ?case by simp
next
  case (Cons j js)
  show ?case
  proof (cases "key j < key k0")
    case True
    obtain k where "k \<in> insert j (set js)" "\<forall>x \<in> insert j (set js). key k \<le> key x"
        "fold (\<lambda>j (mg, mk). if key j < mg then (key j, j) else (mg, mk)) js (key j, j) = (key k, k)"
      using Cons.IH [of j] by blast
    with True show ?thesis by (intro bexI [of _ k]) (auto intro: order_trans less_imp_le)
  next
    case False
    obtain k where "k \<in> insert k0 (set js)" "\<forall>x \<in> insert k0 (set js). key k \<le> key x"
        "fold (\<lambda>j (mg, mk). if key j < mg then (key j, j) else (mg, mk)) js (key k0, k0) = (key k, k)"
      using Cons.IH [of k0] by blast
    with False show ?thesis by (intro bexI [of _ k]) (auto intro: order_trans simp: not_less)
  qed
qed

lemma sort_min_k_least:
  assumes "i < MMPL_MAX_INDEX"
  shows "i \<le> sort_min_k lat arr i \<and> sort_min_k lat arr i < MMPL_MAX_INDEX \<and>
    (\<forall>j. i \<le> j \<and> j < MMPL_MAX_INDEX \<longrightarrow> lat ! (arr ! sort_min_k lat arr i) \<le> lat ! (arr ! j))"
proof -
  obtain k where "k \<in> insert i {i + 1..<MMPL_MAX_INDEX}" "sort_min_k lat arr i = k"
      "\<forall>j \<in> insert i {i + 1..<MMPL_MAX_INDEX}. lat ! (arr ! k) \<le> lat ! (arr ! j)"
    using sort_min_k_fold [of i "[i + 1..<MMPL_MAX_INDEX]" "\<lambda>j. lat ! (arr ! j)"]
    by (auto simp: sort_min_k_def)
  then show ?thesis using assms by (auto simp: le_less Suc_le_eq)
qed

definition sorted_upto :: "u64 list \<Rightarrow> nat \<Rightarrow> nat list \<Rightarrow> bool" where
  "sorted_upto lat i arr \<longleftrightarrow> (\<forall>a b. a < i \<and> a < b \<and> b < length arr \<longrightarrow> lat ! (arr ! a) \<le> lat ! (arr ! b))"

lemma sort_swap_step:
  assumes "sorted_upto lat i arr" and "length arr = MMPL_MAX_INDEX" and "i < MMPL_MAX_INDEX"
  shows "sorted_upto lat (Suc i) (sort_swap lat i arr) \<and> mset (sort_swap lat i arr) = mset arr"
proof -
  define k where "k = sort_min_k lat arr i"
  have k: "i \<le> k" "k < MMPL_MAX_INDEX" "\<And>j. i \<le> j \<Longrightarrow> j < MMPL_MAX_INDEX \<Longrightarrow> lat ! (arr ! k) \<le> lat ! (arr ! j)"
    using sort_min_k_least [OF assms(3)] by (auto simp: k_def)
  have e: "sort_swap lat i arr = arr[i := arr ! k, k := arr ! i]" by (simp add: sort_swap_def k_def Let_def)
  have "mset (arr[i := arr ! k, k := arr ! i]) = mset arr"
    using mset_swap [of k arr i] assms k by simp
  moreover have "lat ! (arr[i := arr ! k, k := arr ! i] ! a) \<le> lat ! (arr[i := arr ! k, k := arr ! i] ! b)"
    if "a < Suc i" "a < b" "b < MMPL_MAX_INDEX" for a b
  proof (cases "a = i")
    case True
    with that k assms show ?thesis by (auto simp: nth_list_update)
  next
    case False
    with that have "a < i" by simp
    with that k assms show ?thesis by (auto simp: nth_list_update sorted_upto_def)
  qed
  ultimately show ?thesis using assms(2) by (auto simp: e sorted_upto_def)
qed

lemma sort_fold:
  assumes "n \<le> MMPL_MAX_INDEX" and "length arr = MMPL_MAX_INDEX"
  shows "sorted_upto lat n (fold (sort_swap lat) [0..<n] arr) \<and> mset (fold (sort_swap lat) [0..<n] arr) = mset arr"
  using assms(1)
proof (induction n)
  case 0
  then show ?case by (simp add: sorted_upto_def)
next
  case (Suc n)
  then have "length (fold (sort_swap lat) [0..<n] arr) = MMPL_MAX_INDEX"
    using assms(2) by (metis Suc_leD mset_eq_length)
  with Suc sort_swap_step show ?case by simp
qed

lemma inc_getcnt_perm:
  "mset (inc_getcnt_array lat) = mset [1..<11] \<and> sorted_upto lat MMPL_MAX_INDEX (inc_getcnt_array lat)"
proof -
  have "map Suc [0..<MMPL_MAX_INDEX] = [1..<11]" by (simp add: map_Suc_upt)
  then show ?thesis
    using sort_fold [of MMPL_MAX_INDEX "[1..<11]" lat] by (simp add: inc_getcnt_array_def)
qed

lemma inc_getcnt_set: "set (inc_getcnt_array lat) = {1..MMPL_MAX_INDEX}" "length (inc_getcnt_array lat) = 10"
  "distinct (inc_getcnt_array lat)"
proof -
  have m: "mset (inc_getcnt_array lat) = mset [1..<11]" using inc_getcnt_perm by blast
  have "set [1..<11] = {1..MMPL_MAX_INDEX}" by auto
  then show "set (inc_getcnt_array lat) = {1..MMPL_MAX_INDEX}" by (simp only: mset_eq_setD [OF m])
  show "length (inc_getcnt_array lat) = 10" using mset_eq_length [OF m] by simp
  show "distinct (inc_getcnt_array lat)" using m by (metis distinct_upt mset_eq_imp_distinct_iff)
qed

lemma inc_getcnt_sorted: "sorted (map (\<lambda>i. lat ! i) (inc_getcnt_array lat))"
proof -
  let ?arr = "inc_getcnt_array lat"
  have s: "sorted_upto lat MMPL_MAX_INDEX ?arr" using inc_getcnt_perm by blast
  have "map (\<lambda>i. lat ! i) ?arr ! a \<le> map (\<lambda>i. lat ! i) ?arr ! b" if "a < b" "b < length ?arr" for a b
  proof -
    have "lat ! (?arr ! a) \<le> lat ! (?arr ! b)"
      using s that inc_getcnt_set(2) [of lat] unfolding sorted_upto_def by (metis order_less_trans)
    with that show ?thesis by simp
  qed
  then show ?thesis unfolding sorted_iff_nth_mono_less length_map by blast
qed

section \<open>The classes to release\<close>

definition nonempty :: "u32 list \<Rightarrow> nat list \<Rightarrow> nat list" where
  "nonempty fs arr = filter (\<lambda>i. 0 < fs ! i) arr"

lemma pick_scan_spec:
  assumes "length arr = MMPL_MAX_INDEX" and "j \<le> MMPL_MAX_INDEX"
  shows "(case pick_scan fs arr j of
     (None, j') \<Rightarrow> j' = MMPL_MAX_INDEX \<and> nonempty fs (drop j arr) = []
   | (Some x, j') \<Rightarrow> j < j' \<and> j' \<le> MMPL_MAX_INDEX \<and> x = arr ! (j' - 1) \<and> nonempty fs (drop j arr) = x # nonempty fs (drop j' arr))"
  using assms
proof (induction fs arr j rule: pick_scan.induct)
  case (1 fs arr j)
  show ?case
  proof (cases "j < MMPL_MAX_INDEX")
    case True
    then have d: "drop j arr = arr ! j # drop (Suc j) arr"
      using "1.prems"(1) by (simp add: Cons_nth_drop_Suc)
    show ?thesis
    proof (cases "0 < fs ! (arr ! j)")
      case True
      with \<open>j < MMPL_MAX_INDEX\<close> d show ?thesis
        by (simp add: pick_scan.simps [of fs arr j] nonempty_def)
    next
      case False
      with \<open>j < MMPL_MAX_INDEX\<close> d "1.prems" "1.IH" show ?thesis
        by (auto simp: pick_scan.simps [of fs arr j] nonempty_def split: prod.splits option.splits)
    qed
  next
    case False
    with "1.prems"(2) have "j = MMPL_MAX_INDEX" by simp
    with "1.prems"(1) show ?thesis by (simp add: pick_scan.simps [of fs arr MMPL_MAX_INDEX] nonempty_def)
  qed
qed

lemma pick_scan_None:
  "length arr = MMPL_MAX_INDEX \<Longrightarrow> j \<le> MMPL_MAX_INDEX \<Longrightarrow> nonempty fs (drop j arr) = [] \<Longrightarrow>
    pick_scan fs arr j = (None, MMPL_MAX_INDEX)"
  using pick_scan_spec [of arr j fs] by (auto split: prod.splits option.splits)

lemma pick_scan_Some:
  assumes "length arr = MMPL_MAX_INDEX" and "j \<le> MMPL_MAX_INDEX" and "nonempty fs (drop j arr) = x # xs"
  obtains j' where "pick_scan fs arr j = (Some x, j')" and "j < j'" and "j' \<le> MMPL_MAX_INDEX"
    and "x = arr ! (j' - 1)" and "nonempty fs (drop j' arr) = xs"
proof -
  obtain r j' where e: "pick_scan fs arr j = (r, j')" by fastforce
  have "r = Some x \<and> j < j' \<and> j' \<le> MMPL_MAX_INDEX \<and> x = arr ! (j' - 1) \<and> nonempty fs (drop j' arr) = xs"
    using pick_scan_spec [OF assms(1,2), of fs] assms(3) e by (cases r) auto
  with e that show ?thesis by blast
qed

lemma oldest_none:
  "length arr = MMPL_MAX_INDEX \<Longrightarrow> oldest_index_array fs arr = None \<longleftrightarrow> nonempty fs arr = []"
  using pick_scan_spec [of arr 0 fs] by (auto simp: oldest_index_array_def split: prod.splits option.splits)

lemma upt_1_3: "[1..<MMPL_OLDEST_RANGE] = [1, 2]" "[Suc 0..<MMPL_OLDEST_RANGE] = [1, 2]"
  by (simp_all add: upt_rec)

lemma oldest_three:
  assumes "length arr = MMPL_MAX_INDEX" and "nonempty fs arr = x # y # z # zs"
  shows "oldest_index_array fs arr = Some [Some x, Some y, Some z]"
proof -
  obtain j where j: "pick_scan fs arr 0 = (Some x, j)" "j \<le> MMPL_MAX_INDEX" "nonempty fs (drop j arr) = y # z # zs"
    using pick_scan_Some [OF assms(1), of 0 fs x "y # z # zs"] assms(2) by auto
  obtain k where k: "pick_scan fs arr j = (Some y, k)" "k \<le> MMPL_MAX_INDEX" "nonempty fs (drop k arr) = z # zs"
    using pick_scan_Some [OF assms(1) j(2,3)] by auto
  obtain l where l: "pick_scan fs arr k = (Some z, l)"
    using pick_scan_Some [OF assms(1) k(2,3)] by auto
  have "j \<noteq> MMPL_MAX_INDEX" "k \<noteq> MMPL_MAX_INDEX"
    using j(3) k(3) assms(1) by (auto simp: nonempty_def)
  with j k l show ?thesis by (simp add: oldest_index_array_def upt_1_3 pick_step_def)
qed

text \<open>
  With one or two classes left, the array is complete only when the last class of the order, the
  one requested last, is one of them; otherwise a cell keeps an indeterminate value.
\<close>

lemma scan_done:
  assumes "length arr = MMPL_MAX_INDEX" and "j \<le> MMPL_MAX_INDEX" and "nonempty fs (drop j arr) = []"
    and "x = arr ! (j - 1)" and "x \<in> set (nonempty fs arr)"
  shows "0 < fs ! (arr ! 9) \<longleftrightarrow> j = MMPL_MAX_INDEX"
proof (cases "j = MMPL_MAX_INDEX")
  case True
  with assms show ?thesis by (simp add: nonempty_def)
next
  case False
  with assms(1,2) have "drop j arr ! (9 - j) = arr ! 9" "9 - j < length (drop j arr)" by auto
  then have "arr ! 9 \<in> set (drop j arr)" by (metis nth_mem)
  with assms(3) False show ?thesis by (simp add: nonempty_def filter_empty_conv)
qed

lemma oldest_few:
  assumes "length arr = MMPL_MAX_INDEX" and "nonempty fs arr = x # xs" and "length xs \<le> 1"
  shows "oldest_index_array fs arr = Some (map Some (x # xs) @
     replicate (2 - length xs) (if 0 < fs ! (arr ! 9) then Some (last (x # xs)) else None))"
proof -
  obtain j where j: "pick_scan fs arr 0 = (Some x, j)" "j \<le> MMPL_MAX_INDEX" "x = arr ! (j - 1)" "nonempty fs (drop j arr) = xs"
    using pick_scan_Some [OF assms(1), of 0 fs x xs] assms(2) by auto
  show ?thesis
  proof (cases xs)
    case Nil
    with j have "0 < fs ! (arr ! 9) \<longleftrightarrow> j = MMPL_MAX_INDEX"
      using scan_done [OF assms(1) j(2) _ j(3), of fs] assms(2) by simp
    with j Nil show ?thesis using pick_scan_None [OF assms(1) j(2), of fs]
      by (simp add: oldest_index_array_def upt_1_3 pick_step_def numeral_2_eq_2)
  next
    case (Cons y ys)
    with assms(3) have ys: "xs = [y]" by simp
    obtain k where k: "pick_scan fs arr j = (Some y, k)" "k \<le> MMPL_MAX_INDEX" "y = arr ! (k - 1)" "nonempty fs (drop k arr) = []"
      using pick_scan_Some [OF assms(1) j(2), of fs y "[]"] j(4) ys by auto
    have "0 < fs ! (arr ! 9) \<longleftrightarrow> k = MMPL_MAX_INDEX"
      using scan_done [OF assms(1) k(2,4,3)] assms(2) ys by simp
    moreover have "j \<noteq> MMPL_MAX_INDEX" using j(4) ys assms(1) by (auto simp: nonempty_def)
    ultimately show ?thesis using j k ys pick_scan_None [OF assms(1) k(2), of fs]
      by (simp add: oldest_index_array_def upt_1_3 pick_step_def)
  qed
qed

section \<open>Releasing the oldest classes\<close>

lemma c_free_alloc: "cells m p = Some n \<Longrightarrow> c_free m p = Some (m\<lparr>cells := (cells m)(p := None)\<rparr>)"
  by (simp add: c_free_def)

text \<open>One round: the first block leaves its class and its header is given back to the system.\<close>

lemma rls_head_ok:
  assumes "pool_ok m P L" and "1 \<le> i" and "i \<le> MMPL_MAX_INDEX" and "L i = p # xs"
  shows "\<exists>m' P'. rls_head i (m, P) = Some (m', P') \<and> pool_ok m' P' (L(i := xs)) \<and>
    mm_data m' = (mm_data m)(p := None) \<and> msize m' = msize m \<and> mp_boundary P' = mp_boundary P \<and>
    mp_max_free_index P' = mp_max_free_index P"
proof -
  let ?P = "P\<lparr>mp_free := (mp_free P)[i := head_of xs],
    mp_free_size := (mp_free_size P)[i := mp_free_size P ! i - of_nat i],
    mp_current_free_index := mp_current_free_index P - of_nat i\<rparr>"
  have c: "counters_ok P L" and lo: "lists_ok m (mp_boundary P) L" using assms(1) by (auto simp: pool_ok_def)
  obtain n m' where n: "cells m p = Some n" "mn_next n = p \<longleftrightarrow> xs = []" "xs = [] \<longrightarrow> m' = m"
      "xs \<noteq> [] \<longrightarrow> mn_next n = head_of xs \<and> mmpl_list_remove m p = Some (m', 1)"
      and lo': "lists_ok m' (mp_boundary P) (L(i := xs))" and nb: "p \<notin> blocks (L(i := xs))"
      and dat: "mm_data m' = mm_data m" "msize m' = msize m"
    using pool_pop [OF assms] by blast
  have cp: "counters_ok ?P (L(i := xs))" by (rule counters_pop [OF c assms(2-4)])
  obtain n' where n': "cells m' p = Some n'"
    using fun_cong [OF dat(1), of p] n(1) by (auto simp: mm_data_def)
  have pz: "p \<noteq> NULL" using lo n(1) by (cases "p = 0") (simp_all add: lists_ok_def)
  have "pool_ok (m'\<lparr>cells := (cells m')(p := None)\<rparr>) ?P (L(i := xs))"
    using cp lists_write(2) [OF lo' nb pz] by (simp add: pool_ok_def)
  moreover have "rls_head i (m, P) = Some (m'\<lparr>cells := (cells m')(p := None)\<rparr>, ?P)"
  proof -
    have "mp_free P ! i = p" "i < length (mp_free P)" "mp_free_size P ! i = of_nat (i * length (p # xs))"
      using c assms by (auto simp: counters_ok_def head_of_def algebra_simps)
    then show ?thesis using n n' by (cases xs) (auto simp: rls_head_def c_free_def head_of_def)
  qed
  ultimately show ?thesis
    using dat by (intro exI [of _ "m'\<lparr>cells := (cells m')(p := None)\<rparr>"] exI [of _ ?P]) simp
qed

lemma rls_heads_ok:
  assumes "pool_ok m P L" and "1 \<le> i" and "i \<le> MMPL_MAX_INDEX" and "k \<le> length (L i)"
  shows "\<exists>m' P'. rls_heads k i (m, P) = Some (m', P') \<and> pool_ok m' P' (L(i := drop k (L i))) \<and>
    (\<forall>q. mm_data m' q = (if q \<in> set (take k (L i)) then None else mm_data m q)) \<and> msize m' = msize m \<and>
    mp_boundary P' = mp_boundary P \<and> mp_max_free_index P' = mp_max_free_index P"
  using assms(1,4)
proof (induction k arbitrary: m P L)
  case 0
  then show ?case by simp
next
  case (Suc k)
  then obtain p xs where L: "L i = p # xs" and k: "k \<le> length xs" by (cases "L i") auto
  obtain m1 P1 where s1: "rls_head i (m, P) = Some (m1, P1)" "pool_ok m1 P1 (L(i := xs))"
      "mm_data m1 = (mm_data m)(p := None)" "msize m1 = msize m" "mp_boundary P1 = mp_boundary P"
      "mp_max_free_index P1 = mp_max_free_index P"
    using rls_head_ok [OF Suc.prems(1) assms(2,3) L] by blast
  obtain m' P' where h: "rls_heads k i (m1, P1) = Some (m', P')" "pool_ok m' P' (L(i := drop k xs))"
      "\<forall>q. mm_data m' q = (if q \<in> set (take k xs) then None else mm_data m1 q)" "msize m' = msize m1"
      "mp_boundary P' = mp_boundary P1" "mp_max_free_index P' = mp_max_free_index P1"
    using Suc.IH [OF s1(2), unfolded fun_upd_same fun_upd_upd] k by blast
  have "drop (Suc k) (L i) = drop k xs" "take (Suc k) (L i) = p # take k xs" using L by simp_all
  moreover have "rls_heads (Suc k) i (m, P) = Some (m', P')" using s1(1) h(1) by simp
  ultimately show ?case using h s1(3-6) by (intro exI [of _ m'] exI [of _ P']) (simp del: fun_upd_apply, simp)
qed

text \<open>The abstract release: half of the free blocks of a class, and one more.\<close>

definition a_rls :: "nat \<Rightarrow> apool \<Rightarrow> apool" where
  "a_rls i L = (if L i = [] then L else L(i := drop (length (L i) div 2 + 1) (L i)))"

text \<open>Headers change only by being given back, and only those of free blocks.\<close>

definition released :: "mm_mem \<Rightarrow> mm_mem \<Rightarrow> apool \<Rightarrow> bool" where
  "released m m' L \<longleftrightarrow> (\<forall>q. mm_data m' q = mm_data m q \<or> q \<in> blocks L \<and> mm_data m' q = None)"

lemma released_refl [simp]: "released m m L"
  by (simp add: released_def)

lemma released_trans: "released m m1 L \<Longrightarrow> released m1 m2 L' \<Longrightarrow> blocks L' \<subseteq> blocks L \<Longrightarrow> released m m2 L"
  unfolding released_def by (metis subsetD)

lemma class_count:
  assumes "pool_ok m P L" and "1 \<le> i" and "i \<le> MMPL_MAX_INDEX"
  shows "unat (mp_free_size P ! i) = i * length (L i)" and "mp_free_size P ! i div of_nat i = of_nat (length (L i))"
    and "length (L i) < 2 ^ 32"
proof -
  have c: "counters_ok P L" using assms(1) by (simp add: pool_ok_def)
  have "i * length (L i) \<le> free_total L"
    unfolding free_total_def using assms(2,3) member_le_sum [of i "{1..MMPL_MAX_INDEX}" "\<lambda>i. i * length (L i)"] by simp
  then have lt: "i * length (L i) < 4294967296" using c by (simp add: counters_ok_def)
  moreover have e: "mp_free_size P ! i = of_nat (i * length (L i))" using c assms(3) unfolding counters_ok_def by blast
  ultimately show u: "unat (mp_free_size P ! i) = i * length (L i)" by (simp only: unat_of_nat_u32)
  have "length (L i) \<le> i * length (L i)" using assms(2) by simp
  then have "length (L i) < 4294967296" using lt by (rule le_less_trans)
  then show l: "length (L i) < 2 ^ 32" by simp
  have "unat (mp_free_size P ! i div of_nat i) = unat (of_nat (length (L i)) :: u32)"
    using u l assms(2,3) by (simp add: unat_div)
  then show "mp_free_size P ! i div of_nat i = of_nat (length (L i))" by (simp only: word_unat_eq_iff)
qed

lemma rls_class_step:
  assumes "pool_ok m P L" and "1 \<le> i" and "i \<le> MMPL_MAX_INDEX"
  shows "\<exists>m' P'. rls_classes (Some i # is) (m, P) = rls_classes is (m', P') \<and> pool_ok m' P' (a_rls i L) \<and>
    released m m' L \<and> msize m' = msize m \<and> mp_boundary P' = mp_boundary P"
proof -
  have c: "counters_ok P L" using assms(1) by (simp add: pool_ok_def)
  have len: "i < length (mp_free_size P)" using c assms(3) by (simp add: counters_ok_def)
  note cc = class_count [OF assms]
  show ?thesis
  proof (cases "L i = []")
    case True
    then show ?thesis using assms cc len by (intro exI [of _ m] exI [of _ P]) (simp add: a_rls_def)
  next
    case False
    let ?n = "length (L i)"
    have nz: "(of_nat ?n :: u32) \<noteq> 0" using cc(3) False by (simp add: word_of_nat_eq_0_iff nat_dvd_not_less)
    have "unat ((of_nat ?n :: u32) div 2 + 1) = ?n div 2 + 1"
    proof -
      have "(of_nat ?n :: u32) div 2 + 1 = of_nat (?n div 2 + 1)"
        using cc(3) by (simp add: word_unat_eq_iff unat_word_ariths unat_div)
      moreover have "?n div 2 + 1 < 4294967296" using cc(3) by simp
      ultimately show ?thesis by (simp only: unat_of_nat_u32)
    qed
    moreover have "?n div 2 + 1 \<le> ?n" using False by (cases "L i") auto
    moreover obtain m' P' where "rls_heads (?n div 2 + 1) i (m, P) = Some (m', P')" "pool_ok m' P' (L(i := drop (?n div 2 + 1) (L i)))"
        "\<forall>q. mm_data m' q = (if q \<in> set (take (?n div 2 + 1) (L i)) then None else mm_data m q)" "msize m' = msize m"
        "mp_boundary P' = mp_boundary P"
      using rls_heads_ok [OF assms] calculation(2) by blast
    ultimately show ?thesis using False assms(2) cc len nz
      by (intro exI [of _ m'] exI [of _ P']) (auto simp: a_rls_def blocks_def released_def dest: in_set_takeD)
  qed
qed

lemma rls_classes_ok:
  assumes "pool_ok m P L" and "set is \<subseteq> {1..MMPL_MAX_INDEX}"
  shows "\<exists>m' P'. rls_classes (map Some is) (m, P) = Some (m', P') \<and> pool_ok m' P' (fold a_rls is L) \<and>
    released m m' L \<and> msize m' = msize m \<and> mp_boundary P' = mp_boundary P"
  using assms
proof (induction "is" arbitrary: m P L)
  case Nil
  then show ?case by simp
next
  case (Cons i "is")
  then have i: "1 \<le> i" "i \<le> MMPL_MAX_INDEX" by auto
  obtain m1 P1 where s1: "rls_classes (Some i # map Some is) (m, P) = rls_classes (map Some is) (m1, P1)" "pool_ok m1 P1 (a_rls i L)"
      "released m m1 L" "msize m1 = msize m" "mp_boundary P1 = mp_boundary P"
    using rls_class_step [OF Cons.prems(1) i] by blast
  have "blocks (a_rls i L) \<subseteq> blocks L"
    by (simp add: a_rls_def blocks_upd_subset set_drop_subset)
  moreover obtain m2 P2 where "rls_classes (map Some is) (m1, P1) = Some (m2, P2)" "pool_ok m2 P2 (fold a_rls is (a_rls i L))"
      "released m1 m2 (a_rls i L)" "msize m2 = msize m1" "mp_boundary P2 = mp_boundary P1"
    using Cons.IH [OF s1(2)] Cons.prems(2) by auto
  ultimately show ?case using s1 released_trans [of m m1 L m2 "a_rls i L"] by simp
qed

lemma rls_classes_uninit:
  "pool_ok m P L \<Longrightarrow> set is \<subseteq> {1..MMPL_MAX_INDEX} \<Longrightarrow> rls_classes (map Some is @ None # js) (m, P) = None"
proof (induction "is" arbitrary: m P L)
  case Nil
  then show ?case by simp
next
  case (Cons i "is")
  then have "1 \<le> i" "i \<le> MMPL_MAX_INDEX" by auto
  then obtain m1 P1 where "rls_classes (Some i # map Some is @ None # js) (m, P) = rls_classes (map Some is @ None # js) (m1, P1)"
      "pool_ok m1 P1 (a_rls i L)"
    using rls_class_step [OF Cons.prems(1), of i "map Some is @ None # js"] by blast
  with Cons show ?case by simp
qed

text \<open>The classes with free blocks, the one requested longest ago first.\<close>

definition lru_classes :: "mm_pool_s \<Rightarrow> apool \<Rightarrow> nat list" where
  "lru_classes P L = filter (\<lambda>i. L i \<noteq> []) (inc_getcnt_array (mp_latest_get_cnt P))"

lemma free_size_pos:
  assumes "pool_ok m P L" and "1 \<le> i" and "i \<le> MMPL_MAX_INDEX"
  shows "0 < mp_free_size P ! i \<longleftrightarrow> L i \<noteq> []"
proof -
  have "0 < mp_free_size P ! i \<longleftrightarrow> 0 < unat (mp_free_size P ! i)" by (simp add: word_less_nat_alt)
  then show ?thesis using class_count(1) [OF assms] assms(2) by simp
qed

lemma nonempty_lru:
  assumes "pool_ok m P L"
  shows "nonempty (mp_free_size P) (inc_getcnt_array (mp_latest_get_cnt P)) = lru_classes P L"
  unfolding nonempty_def lru_classes_def
  by (rule filter_cong) (use free_size_pos [OF assms] inc_getcnt_set(1) in auto)

lemma lru_set: "set (lru_classes P L) \<subseteq> {1..MMPL_MAX_INDEX}"
  using inc_getcnt_set(1) by (auto simp: lru_classes_def)

lemma oldestfree_none:
  assumes "pool_ok m P L" and "lru_classes P L = []"
  shows "mmpl_rls_oldestfree m P = Some (m, P, - 1)"
proof -
  have "oldest_index_array (mp_free_size P) (inc_getcnt_array (mp_latest_get_cnt P)) = None"
    using nonempty_lru [OF assms(1)] assms(2) by (simp add: oldest_none inc_getcnt_set(2))
  then show ?thesis by (simp add: mmpl_rls_oldestfree_def)
qed

lemma oldestfree_array:
  assumes "pool_ok m P L" and "set is \<subseteq> {1..MMPL_MAX_INDEX}"
    and "oldest_index_array (mp_free_size P) (inc_getcnt_array (mp_latest_get_cnt P)) = Some (map Some is)"
  shows "\<exists>m' P'. mmpl_rls_oldestfree m P = Some (m', P', 1) \<and> pool_ok m' P' (fold a_rls is L) \<and>
    released m m' L \<and> msize m' = msize m \<and> mp_boundary P' = mp_boundary P"
  using rls_classes_ok [OF assms(1,2)] assms(3) by (auto simp: mmpl_rls_oldestfree_def)

lemma oldestfree_three:
  assumes "pool_ok m P L" and "lru_classes P L = x # y # z # zs"
  shows "\<exists>m' P'. mmpl_rls_oldestfree m P = Some (m', P', 1) \<and> pool_ok m' P' (fold a_rls [x, y, z] L) \<and>
    released m m' L \<and> msize m' = msize m \<and> mp_boundary P' = mp_boundary P"
  by (rule oldestfree_array [OF assms(1)])
    (use oldest_three [OF inc_getcnt_set(2)] nonempty_lru [OF assms(1)] assms(2) lru_set [of P L] in auto)

text \<open>The class requested last, at the end of the order.\<close>

definition newest_class :: "mm_pool_s \<Rightarrow> nat" where
  "newest_class P = inc_getcnt_array (mp_latest_get_cnt P) ! 9"

lemma newest_range: "1 \<le> newest_class P" "newest_class P \<le> MMPL_MAX_INDEX"
proof -
  have "newest_class P \<in> set (inc_getcnt_array (mp_latest_get_cnt P))"
    unfolding newest_class_def by (rule nth_mem) (simp add: inc_getcnt_set)
  then show "1 \<le> newest_class P" "newest_class P \<le> MMPL_MAX_INDEX" by (simp_all add: inc_getcnt_set)
qed

lemma oldest_few_pool:
  assumes "pool_ok m P L" and "lru_classes P L = x # xs" and "length xs \<le> 1"
  shows "oldest_index_array (mp_free_size P) (inc_getcnt_array (mp_latest_get_cnt P)) =
    Some (map Some (x # xs) @ replicate (2 - length xs) (if L (newest_class P) \<noteq> [] then Some (last (x # xs)) else None))"
  using oldest_few [OF inc_getcnt_set(2), of "mp_free_size P" "mp_latest_get_cnt P" x xs]
    nonempty_lru [OF assms(1)] assms(2,3) free_size_pos [OF assms(1) newest_range]
  by (simp add: newest_class_def)

lemma oldestfree_few:
  assumes "pool_ok m P L" and "lru_classes P L = x # xs" and "length xs \<le> 1" and "L (newest_class P) \<noteq> []"
  shows "\<exists>m' P'. mmpl_rls_oldestfree m P = Some (m', P', 1) \<and>
    pool_ok m' P' (fold a_rls (x # xs @ replicate (2 - length xs) (last (x # xs))) L) \<and>
    released m m' L \<and> msize m' = msize m \<and> mp_boundary P' = mp_boundary P"
proof (rule oldestfree_array [OF assms(1)])
  have "set (x # xs) \<subseteq> {1..MMPL_MAX_INDEX}" using lru_set [of P L] assms(2) by simp
  moreover have "last (x # xs) \<in> set (x # xs)" by (rule last_in_set) simp
  ultimately show "set (x # xs @ replicate (2 - length xs) (last (x # xs))) \<subseteq> {1..MMPL_MAX_INDEX}" by auto
  show "oldest_index_array (mp_free_size P) (inc_getcnt_array (mp_latest_get_cnt P)) =
      Some (map Some (x # xs @ replicate (2 - length xs) (last (x # xs))))"
    using oldest_few_pool [OF assms(1-3)] assms(4) by simp
qed

lemma oldestfree_undefined:
  assumes "pool_ok m P L" and "lru_classes P L = x # xs" and "length xs \<le> 1" and "L (newest_class P) = []"
  shows "mmpl_rls_oldestfree m P = None"
proof -
  have "replicate (2 - length xs) (None :: nat option) = None # replicate (1 - length xs) None"
    using assms(3) by (cases xs) (simp_all add: numeral_2_eq_2)
  moreover have "set (x # xs) \<subseteq> {1..MMPL_MAX_INDEX}" using lru_set [of P L] assms(2) by simp
  ultimately show ?thesis
    using oldest_few_pool [OF assms(1-3)] assms(4) rls_classes_uninit [OF assms(1), of "x # xs"]
    by (simp add: mmpl_rls_oldestfree_def)
qed

end
