(* ===== verification/Mmpool_Props.thy ===== *)
theory Mmpool_Props
  imports Mmpool_Correct
begin

text \<open>
  The properties of the memory pool: what \<open>mmpl_getmem\<close> and \<open>mmpl_rlsmem\<close> do to the abstract pool, the
  size of the blocks handed out, the release of the oldest classes, destruction, and the
  invariant of all states reachable through the pool's operations.
\<close>

section \<open>Alignment\<close>

lemma unat_align:
  assumes "k < 32"
  shows "unat (mmpl_align sz (2 ^ k)) = (unat sz + (2 ^ k - 1)) mod 2 ^ 32 div 2 ^ k * 2 ^ k"
proof -
  have "(2 ^ k - 1 :: u32) = mask k" by (simp add: mask_eq_exp_minus_1)
  then show ?thesis
    using assms by (simp add: mmpl_align_def unat_and_not_mask unat_word_ariths(1) unat_mask_u32)
qed

lemma unat_pow2_u32: "k < 32 \<Longrightarrow> unat (2 ^ k :: u32) = 2 ^ k"
proof -
  assume "k < 32"
  then have "(2::nat) ^ k < 2 ^ 32" by (intro power_strict_increasing) auto
  moreover have "(2 ^ k :: u32) = of_nat (2 ^ k)" by simp
  ultimately show ?thesis by (simp only: unat_of_nat) simp
qed

lemma round_up_ge: "0 < b \<Longrightarrow> s \<le> (s + (b - 1)) div b * (b :: nat)"
  using div_mult_mod_eq [of "s + (b - 1)" b] mod_less_divisor [of b "s + (b - 1)"] by linarith

lemma align_ge:
  assumes "k < 32" and "unat sz + (2 ^ k - 1) < 2 ^ 32"
  shows "unat sz \<le> unat (mmpl_align sz (2 ^ k))" and "2 ^ k dvd unat (mmpl_align sz (2 ^ k))"
proof -
  have "unat sz \<le> (unat sz + (2 ^ k - 1)) div 2 ^ k * 2 ^ k"
    by (rule round_up_ge) simp
  then show "unat sz \<le> unat (mmpl_align sz (2 ^ k))" "2 ^ k dvd unat (mmpl_align sz (2 ^ k))"
    using assms by (simp_all add: unat_align)
qed

lemma align_wrap:
  assumes "k < 32" and "2 ^ 32 \<le> unat sz + (2 ^ k - 1)"
  shows "mmpl_align sz (2 ^ k) = 0"
proof -
  have "unat sz < 2 ^ 32" using unsigned_less [of sz] by simp
  then have "(unat sz + (2 ^ k - 1)) mod 2 ^ 32 = unat sz + (2 ^ k - 1) - 2 ^ 32"
    using assms power_strict_increasing [of k 32 "2::nat"] by (subst mod_if) simp
  also have "\<dots> < 2 ^ k" using \<open>unat sz < 2 ^ 32\<close> zero_less_power [of "2::nat" k] by linarith
  finally have "(unat sz + (2 ^ k - 1)) mod 2 ^ 32 div 2 ^ k = 0" by simp
  then have "unat (mmpl_align sz (2 ^ k)) = 0" using assms(1) by (simp add: unat_align)
  then show ?thesis by (simp add: unat_eq_zero)
qed

lemma index_exact:
  assumes "k < 32" and "unat sz + (2 ^ k - 1) < 2 ^ 32" and "0 < mmpl_index sz (2 ^ k)"
  shows "mmpl_index sz (2 ^ k) * unat (2 ^ k :: u32) = unat (mmpl_align sz (2 ^ k))"
proof -
  have "mmpl_index sz (2 ^ k) = unat (mmpl_align sz (2 ^ k) div 2 ^ k)"
    using assms(3) by (simp add: mmpl_index_def Let_def split: if_splits)
  then show ?thesis using align_ge(2) [OF assms(1,2)] assms(1) by (simp add: unat_div unat_pow2_u32)
qed

section \<open>Destruction\<close>

lemma ring_snoc: "ring nx pv (xs @ [h]) \<longleftrightarrow> ring nx pv (h # xs)"
  by (cases xs) (simp_all add: ring_rotate [symmetric] del: ring.simps)

lemma cells_eqI:
  "mm_nx m' q = mm_nx m q \<Longrightarrow> mm_pv m' q = mm_pv m q \<Longrightarrow> mm_data m' q = mm_data m q \<Longrightarrow> cells m' q = cells m q"
  by (cases "cells m q"; cases "cells m' q") (auto simp: mm_maps)

lemma remove_ring:
  assumes "ring (mm_nx m) (mm_pv m) (x # y # ys)"
  shows "\<exists>m'. mmpl_list_remove m x = Some (m', 1) \<and> ring (mm_nx m') (mm_pv m') (y # ys) \<and>
    (\<forall>q. q \<notin> set (y # ys) \<longrightarrow> cells m' q = cells m q) \<and> mm_data m' = mm_data m \<and> msize m' = msize m"
proof -
  have n: "mm_nx m x = Some y" "y \<noteq> x" using ring_next [OF assms] by auto
  have a: "mm_pv m x = Some (last (y # ys))" using ring_prev_last [OF assms] .
  have "mm_nx m (last (y # ys)) \<noteq> None" "mm_pv m y \<noteq> None"
    using ring_nodes [OF assms, of y] ring_nodes [OF assms, of "last (y # ys)"] by auto
  then obtain m' where m': "mmpl_list_remove m x = Some (m', 1)" "mm_data m' = mm_data m" "msize m' = msize m"
    using mmpl_list_remove_maps [OF n(1) a n(2)] by blast
  moreover obtain m'' where m'': "map_option fst (mmpl_list_remove m x) = Some m''" "ring (mm_nx m'') (mm_pv m'') (y # ys)"
      "\<forall>q. q \<notin> set (y # ys) \<longrightarrow> mm_nx m'' q = mm_nx m q \<and> mm_pv m'' q = mm_pv m q"
    using mm.unlink_ring [OF assms] by blast
  moreover from m' m'' have "m'' = m'" by simp
  ultimately show ?thesis by (auto intro: cells_eqI)
qed

lemma drain_ring:
  assumes "ring (mm_nx m) (mm_pv m) (h # xs)"
  shows "\<exists>m'. mmpl_drain m h = Some m' \<and> cells m' h \<noteq> None \<and>
    (\<forall>q. q \<noteq> h \<longrightarrow> cells m' q = (if q \<in> set xs then None else cells m q)) \<and> msize m' = msize m"
  using assms
proof (induction xs arbitrary: m)
  case Nil
  then have "mm_nx m h = Some h" by simp
  then show ?case by (subst mmpl_drain.simps) (auto simp: mm_nx_def)
next
  case (Cons x xs)
  then obtain y ys where y: "xs @ [h] = y # ys" "ring (mm_nx m) (mm_pv m) (x # y # ys)"
    using ring_rotate [of "mm_nx m" "mm_pv m" h x xs] by (cases "xs @ [h]") auto
  obtain m1 where m1: "mmpl_list_remove m x = Some (m1, 1)" "ring (mm_nx m1) (mm_pv m1) (y # ys)"
      "\<forall>q. q \<notin> set (y # ys) \<longrightarrow> cells m1 q = cells m q" "mm_data m1 = mm_data m" "msize m1 = msize m"
    using remove_ring [OF y(2)] by blast
  have d: "x \<notin> set (y # ys)" "set (y # ys) = insert h (set xs)" using y ring_distinct [OF y(2)] by (auto simp flip: y(1))
  have nx: "mm_nx m h = Some x" "x \<noteq> h" using Cons.prems by auto
  then obtain n where n: "cells m h = Some n" "mn_next n = x" by (auto simp: mm_nx_def)
  obtain nx1 where "cells m x = Some nx1" using ring_nodes [OF y(2), of x] by (auto simp: mm_nx_def)
  then have cx: "cells m1 x = Some nx1" using m1(3) d(1) by simp
  let ?m2 = "m1\<lparr>cells := (cells m1)(x := None)\<rparr>"
  have "ring (mm_nx m1) (mm_pv m1) (h # xs)"
    using m1(2) unfolding y(1) [symmetric] by (rule ring_snoc [THEN iffD1])
  then have "ring (mm_nx ?m2) (mm_pv ?m2) (h # xs)"
    by (rule ring_frame) (use d in auto)
  then obtain m' where m': "mmpl_drain ?m2 h = Some m'" "cells m' h \<noteq> None"
      "\<forall>q. q \<noteq> h \<longrightarrow> cells m' q = (if q \<in> set xs then None else cells ?m2 q)" "msize m' = msize ?m2"
    using Cons.IH by blast
  have "mmpl_drain m h = Some m'"
    using n m1(1) cx m'(1) nx(2) by (subst mmpl_drain.simps) (simp add: c_free_def)
  moreover have "cells m' q = (if q \<in> set (x # xs) then None else cells m q)" if "q \<noteq> h" for q
    using m'(3) m1(3) d that by auto
  ultimately show ?case using m' m1(5) by (intro exI [of _ m']) simp
qed

lemma class_drain:
  assumes "class_ok m bnd i (h # xs)"
  shows "\<exists>m1 m2. mmpl_drain m h = Some m1 \<and> c_free m1 h = Some m2 \<and>
    (\<forall>q. cells m2 q = (if q \<in> set (h # xs) then None else cells m q)) \<and> msize m2 = msize m"
proof -
  have "ring (mm_nx m) (mm_pv m) (h # xs)" using assms by (simp add: class_ok_def)
  then obtain m1 where "mmpl_drain m h = Some m1" "cells m1 h \<noteq> None"
      "\<forall>q. q \<noteq> h \<longrightarrow> cells m1 q = (if q \<in> set xs then None else cells m q)" "msize m1 = msize m"
    using drain_ring by blast
  then show ?thesis by (auto simp: c_free_def)
qed

lemma class_same_cells:
  assumes "class_ok m bnd i xs" and "\<And>q. q \<in> set xs \<Longrightarrow> cells m' q = cells m q" and "msize m' = msize m"
  shows "class_ok m' bnd i xs"
  by (rule class_frame [OF assms(1)]) (simp add: mm_maps assms(2,3))

lemma destroy_free_ok:
  assumes "\<forall>i \<in> set is. class_ok m bnd i (L i)"
    and "\<forall>i \<in> set is. \<forall>j \<in> set is. i \<noteq> j \<longrightarrow> set (L i) \<inter> set (L j) = {}" and "distinct is"
  shows "\<exists>m'. mmpl_destroy_free m (map (\<lambda>i. head_of (L i)) is) = Some m' \<and>
    (\<forall>q. cells m' q = (if q \<in> (\<Union>i\<in>set is. set (L i)) then None else cells m q))"
  using assms
proof (induction "is" arbitrary: m)
  case Nil
  then show ?case by simp
next
  case (Cons i "is")
  show ?case
  proof (cases "L i")
    case Nil
    with Cons show ?thesis by (simp add: head_of_def)
  next
    case (Cons h xs)
    have ci: "class_ok m bnd i (h # xs)" using Cons.prems(1) Cons by simp
    obtain m1 m2 where m2: "mmpl_drain m h = Some m1" "c_free m1 h = Some m2"
        "\<forall>q. cells m2 q = (if q \<in> set (h # xs) then None else cells m q)" "msize m2 = msize m"
      using class_drain [OF ci] by blast
    have "class_ok m2 bnd j (L j)" if "j \<in> set is" for j
    proof (rule class_same_cells)
      show "class_ok m bnd j (L j)" using Cons.prems(1) that by simp
      have "set (L j) \<inter> set (L i) = {}" using Cons.prems(2,3) that by auto
      then show "\<And>q. q \<in> set (L j) \<Longrightarrow> cells m2 q = cells m q" using m2(3) Cons by auto
      show "msize m2 = msize m" by (rule m2(4))
    qed
    then obtain m' where "mmpl_destroy_free m2 (map (\<lambda>i. head_of (L i)) is) = Some m'"
        "\<forall>q. cells m' q = (if q \<in> (\<Union>i\<in>set is. set (L i)) then None else cells m2 q)"
      using Cons.IH [of m2] Cons.prems(2,3) by auto
    moreover have "h \<noteq> NULL" using ci by (simp add: class_ok_def blk_ok_def)
    ultimately show ?thesis using m2 Cons by (intro exI [of _ m']) (simp add: head_of_def)
  qed
qed

lemma destroy_ok:
  assumes "pool_ok m P L" and "mm_nx m (mp_use_head P) = Some (mp_use_head P)"
    and "mp_use_head P \<notin> blocks L"
  shows "\<exists>m'. mmpl_destroy m (Some P) = Some (m', 1) \<and>
    (\<forall>q. cells m' q = (if q \<in> insert (mp_use_head P) (blocks L) then None else cells m q))"
proof -
  let ?h = "mp_use_head P"
  have c: "counters_ok P L" and lo: "lists_ok m (mp_boundary P) L" using assms(1) by (auto simp: pool_ok_def)
  obtain n where n: "cells m ?h = Some n" "mn_next n = ?h" using assms(2) by (auto simp: mm_nx_def)
  have d1: "mmpl_drain m ?h = Some m" using n by (subst mmpl_drain.simps) simp
  have set_is: "set [1..<11] = {1..MMPL_MAX_INDEX}" by auto
  have heads: "tl (mp_free P) = map (\<lambda>i. head_of (L i)) [1..<11]"
    by (rule nth_equalityI) (use c in \<open>auto simp: counters_ok_def nth_tl\<close>)
  have bl: "(\<Union>i\<in>{1..MMPL_MAX_INDEX}. set (L i)) = blocks L"
  proof -
    have "\<forall>i. i \<notin> {1..MMPL_MAX_INDEX} \<longrightarrow> L i = []" using lo unfolding lists_ok_def by blast
    then have "q \<in> set (L i) \<Longrightarrow> i \<in> {1..MMPL_MAX_INDEX}" for q i by force
    then show ?thesis unfolding blocks_def by blast
  qed
  obtain m' where m': "mmpl_destroy_free m (tl (mp_free P)) = Some m'"
      "\<forall>q. cells m' q = (if q \<in> blocks L then None else cells m q)"
  proof -
    have "\<forall>i \<in> set [1..<11]. class_ok m (mp_boundary P) i (L i)"
      "\<forall>i \<in> set [1..<11]. \<forall>j \<in> set [1..<11]. i \<noteq> j \<longrightarrow> set (L i) \<inter> set (L j) = {}"
      using lo unfolding set_is lists_ok_def by blast+
    from destroy_free_ok [OF this distinct_upt] show ?thesis
      using that unfolding heads set_is bl by blast
  qed
  have "cells m' ?h = Some n" using m'(2) n(1) assms(3) by simp
  then have "mmpl_destroy m (Some P) = Some (m'\<lparr>cells := (cells m')(?h := None)\<rparr>, 1)"
    using d1 m'(1) by (simp add: mmpl_destroy_def c_free_def)
  with m'(2) show ?thesis by auto
qed

section \<open>All reachable states of a pool\<close>

text \<open>
  The pool is created, and then used: a client asks for memory (\<open>malloc\<close>, should it be called,
  fails or gives an address that is not allocated) or releases a block it holds.
\<close>

inductive pool_reach :: "mm_mem \<Rightarrow> mm_pool_s \<Rightarrow> bool" where
  create: "mmpl_create m popt a = Some (m', P) \<Longrightarrow> (\<forall>p i. mm_data m p \<noteq> Some (i, 1)) \<Longrightarrow> cells m NULL = None \<Longrightarrow>
     mp_boundary P \<noteq> 0 \<Longrightarrow> unat (mp_max_free_index P) + MMPL_MAX_INDEX < 2 ^ 32 \<Longrightarrow> pool_reach m' P"
| get: "pool_reach m P \<Longrightarrow> a = NULL \<or> cells m a = None \<Longrightarrow> mmpl_getmem m P sz a = Some (m', P', r) \<Longrightarrow> pool_reach m' P'"
| rls: "pool_reach m P \<Longrightarrow> mm_data m p = Some (i, 1) \<Longrightarrow> mmpl_rlsmem m P (p + SIZEOF_MM_NODE) = Some (m', P', r) \<Longrightarrow>
     pool_reach m' P'"

definition in_use_ok :: "mm_mem \<Rightarrow> u32 \<Rightarrow> bool" where
  "in_use_ok m bnd \<longleftrightarrow> (\<forall>p i. mm_data m p = Some (i, 1) \<longrightarrow>
     unat i \<le> MMPL_MAX_INDEX \<and> SIZEOF_MM_NODE + unat i * unat bnd \<le> msize m p)"

lemma word_index: "unat (i :: u32) \<le> MMPL_MAX_INDEX \<Longrightarrow> i \<noteq> 0 \<Longrightarrow> unat i \<in> {1..MMPL_MAX_INDEX} \<and> of_nat (unat i) = i"
  by (auto simp: unat_gt_0 Suc_le_eq)

lemma reach_get:
  assumes "pool_ok m P L" and "in_use_ok m (mp_boundary P)" and "a = NULL \<or> cells m a = None"
    and "mmpl_getmem m P sz a = Some (m', P', r)"
  shows "(\<exists>L'. pool_ok m' P' L') \<and> in_use_ok m' (mp_boundary P')"
proof -
  let ?i = "mmpl_index sz (mp_boundary P)"
  have w: "unat (of_nat ?i :: u32) = ?i" using mmpl_index_le [of sz "mp_boundary P"] by simp
  have use: "in_use_ok m2 (mp_boundary P)" if "got_block m m2 ?i b p" "?i * unat (mp_boundary P) \<le> b" for m2 b p
    unfolding in_use_ok_def
  proof (intro allI impI)
    fix q j assume q: "mm_data m2 q = Some (j, 1)"
    show "unat j \<le> MMPL_MAX_INDEX \<and> SIZEOF_MM_NODE + unat j * unat (mp_boundary P) \<le> msize m2 q"
    proof (cases "q = p")
      case True
      with q that w mmpl_index_le [of sz "mp_boundary P"] show ?thesis by (auto simp: got_block_def)
    next
      case False
      with q that(1) assms(2) show ?thesis by (auto simp: got_block_def in_use_ok_def)
    qed
  qed
  show ?thesis
  proof (cases "L ?i")
    case Nil
    show ?thesis
    proof (cases "a = NULL")
      case True
      with getmem_fail [OF assms(1) Nil] assms show ?thesis by auto
    next
      case False
      with getmem_malloc [OF assms(1) refl Nil False] assms(3,4) use mmpl_index_fits show ?thesis by fastforce
    qed
  next
    case (Cons p xs)
    with getmem_reuse [OF assms(1) refl Cons, of a] assms(4) use show ?thesis by fastforce
  qed
qed

lemma oldestfree_cases:
  assumes "pool_ok m P L" and "mmpl_rls_oldestfree m P = Some (m', P', r)"
  shows "(\<exists>L'. pool_ok m' P' L') \<and> released m m' L \<and> msize m' = msize m \<and> mp_boundary P' = mp_boundary P"
proof (cases "lru_classes P L")
  case Nil
  with oldestfree_none [OF assms(1)] assms show ?thesis by auto
next
  case (Cons x xs)
  show ?thesis
  proof (cases "length xs \<le> 1")
    case True
    with oldestfree_few [OF assms(1) Cons] oldestfree_undefined [OF assms(1) Cons] assms(2)
    show ?thesis by (cases "L (newest_class P) = []") auto
  next
    case False
    then obtain y z zs where "xs = y # z # zs" by (cases xs; cases "tl xs") auto
    with oldestfree_three [OF assms(1)] Cons assms(2) show ?thesis by fastforce
  qed
qed

lemma reach_rls:
  assumes "pool_ok m P L" and "in_use_ok m (mp_boundary P)" and "mm_data m p = Some (i, 1)"
    and "mmpl_rlsmem m P (p + SIZEOF_MM_NODE) = Some (m', P', r)"
  shows "(\<exists>L'. pool_ok m' P' L') \<and> in_use_ok m' (mp_boundary P')"
proof -
  have i: "unat i \<le> MMPL_MAX_INDEX" "SIZEOF_MM_NODE + unat i * unat (mp_boundary P) \<le> msize m p"
    using assms(2,3) by (auto simp: in_use_ok_def)
  have lo: "lists_ok m (mp_boundary P) L" using assms(1) by (simp add: pool_ok_def)
  have nb: "p \<notin> blocks L" by (rule in_use_not_free [OF lo assms(3)])
  have pf: "pool_ok (freed m p) P L" by (rule pool_freed [OF assms(1,3)])
  have fu: "in_use_ok (freed m p) (mp_boundary P)" using assms(2) by (auto simp: in_use_ok_def)
  consider "i = 0" | "i \<noteq> 0" "unat (mp_max_free_index P) < free_total L + unat i"
    | "i \<noteq> 0" "free_total L + unat i \<le> unat (mp_max_free_index P)" by linarith
  then show ?thesis
  proof cases
    case 1
    with rlsmem_large [of m p P] assms(3,4) pf fu show ?thesis by auto
  next
    case 2
    then obtain r' where "mmpl_rls_oldestfree (freed m p) P = Some (m', P', r')"
      using rlsmem_over [OF assms(1,3) 2(1) i(1) 2(2)] assms(4)
      by (cases "mmpl_rls_oldestfree (freed m p) P") auto
    from oldestfree_cases [OF pf this] fu show ?thesis
      by (auto simp: in_use_ok_def released_def) (metis option.discI)+
  next
    case 3
    note wi = word_index [OF i(1) 3(1)]
    obtain m2 P2 where "mmpl_rlsmem m P (p + SIZEOF_MM_NODE) = Some (m2, P2, 1)" "pool_ok m2 P2 (a_put L (unat i) p)"
        "mm_data m2 = (mm_data m)(p \<mapsto> (i, 0))" "msize m2 = msize m" "mp_boundary P2 = mp_boundary P"
      using rlsmem_put [OF assms(1) _ nb, of "unat i"] assms(3) i(2) 3(2) wi by auto
    with assms(2,4) show ?thesis by (auto simp: in_use_ok_def split: if_splits)
  qed
qed

lemma create_ok:
  assumes "mmpl_create m popt a = Some (m', P)" and "cells m NULL = None"
    and "mp_boundary P \<noteq> 0" and "unat (mp_max_free_index P) + MMPL_MAX_INDEX < 2 ^ 32"
  shows "pool_ok m' P (\<lambda>_. [])"
  using assms by (auto simp: mmpl_create_def pool_ok_def counters_ok_def lists_ok_def class_ok_def free_total_def
      head_of_def split: if_splits)

lemma pool_reach_inv: "pool_reach m P \<Longrightarrow> (\<exists>L. pool_ok m P L) \<and> in_use_ok m (mp_boundary P)"
proof (induction rule: pool_reach.induct)
  case (create m popt a m' P)
  then have "pool_ok m' P (\<lambda>_. [])" using create_ok by blast
  moreover have "in_use_ok m' (mp_boundary P)"
    using create(1,2) by (auto simp: mmpl_create_def in_use_ok_def split: if_splits)
  ultimately show ?case by blast
next
  case (get m P a sz m' P' r)
  then show ?case using reach_get by blast
next
  case (rls m P p i m' P' r)
  then show ?case using reach_rls by blast
qed

section \<open>A concrete pool\<close>

text \<open>
  A run of the code: a pool with the boundary 2048 and room for one free unit is created at
  address 1000, blocks of the classes 1 and 2 are requested, and the first is released.
\<close>

definition hdr :: "s32 \<Rightarrow> addr \<Rightarrow> u32 \<Rightarrow> mm_node" where
  "hdr f p i = \<lparr>mn_use_flg = f, mn_next = p, mn_pre = p, mn_index = i\<rparr>"

definition demo_pool :: "u32 \<Rightarrow> u64 \<Rightarrow> u64 \<Rightarrow> addr \<Rightarrow> u32 \<Rightarrow> mm_pool_s" where
  "demo_pool mx c1 c2 p cur = \<lparr>mp_max_free_index = mx, mp_boundary = 2048, mp_current_free_index = cur,
     mp_get_cnt = max c1 c2, mp_latest_get_cnt = [0, c1, c2, 0, 0, 0, 0, 0, 0, 0, 0], mp_use_head = 1000,
     mp_free = [0, p, 0, 0, 0, 0, 0, 0, 0, 0, 0], mp_free_size = [0, cur, 0, 0, 0, 0, 0, 0, 0, 0, 0]\<rparr>"

definition demo0 :: mm_mem where
  "demo0 = \<lparr>cells = Map.empty, msize = (\<lambda>_. 0)\<rparr>"

definition demo1 :: mm_mem where
  "demo1 = \<lparr>cells = [1000 \<mapsto> hdr 0 1000 0], msize = (\<lambda>_. 0)\<rparr>"

definition demo2 :: mm_mem where
  "demo2 = \<lparr>cells = [1000 \<mapsto> hdr 0 1000 0, 2000 \<mapsto> hdr 1 2000 1], msize = (\<lambda>_. 0)(2000 := 2080)\<rparr>"

definition demo3 :: "s32 \<Rightarrow> mm_mem" where
  "demo3 f = \<lparr>cells = [1000 \<mapsto> hdr 0 1000 0, 2000 \<mapsto> hdr f 2000 1, 6000 \<mapsto> hdr 1 6000 2],
     msize = (\<lambda>_. 0)(2000 := 2080, 6000 := 4128)\<rparr>"

lemmas demo_defs = demo0_def demo1_def demo2_def demo3_def demo_pool_def hdr_def

lemma demo_index: "mmpl_index 100 2048 = 1" "mmpl_index 3000 2048 = 2" "mmpl_align 100 2048 = 2048" "mmpl_align 3000 2048 = 4096"
  by (simp_all add: mmpl_index_def mmpl_align_def Let_def)

lemma replicate_eq_11: "replicate 11 x = [x, x, x, x, x, x, x, x, x, x, x]"
  by (simp add: eval_nat_numeral)

lemma demo_create: "mmpl_create demo0 (Some \<lparr>mo_boundary = 2048, mo_max_free_index = mx\<rparr>) 1000 = Some (demo1, demo_pool mx 0 0 NULL 0)"
  by (simp add: mmpl_create_def demo_defs replicate_eq_11)

lemma demo_get1: "mmpl_getmem demo1 (demo_pool mx 0 0 NULL 0) 100 2000 = Some (demo2, demo_pool mx 1 0 NULL 0, 2032)"
  by (simp add: mmpl_getmem_def demo_index demo_defs getmem_finish_def malloc_at_def mn_upd_def)

lemma demo_get2: "mmpl_getmem demo2 (demo_pool mx 1 0 NULL 0) 3000 6000 = Some (demo3 1, demo_pool mx 1 2 NULL 0, 6032)"
  by (simp add: mmpl_getmem_def demo_index demo_defs getmem_finish_def malloc_at_def mn_upd_def)

lemma demo_rls1: "mx \<noteq> 0 \<Longrightarrow> mmpl_rlsmem (demo3 1) (demo_pool mx 1 2 NULL 0) 2032 = Some (demo3 0, demo_pool mx 1 2 2000 1, 1)"
  by (simp add: mmpl_rlsmem_def demo_defs mn_upd_def Let_def fun_upd_twist [of 2000 6000])

lemma demo_sort: "inc_getcnt_array [0, 1, 2, 0, 0, 0, 0, 0, 0, 0, 0] = [3, 4, 5, 6, 7, 8, 9, 10, 1, 2]"
proof -
  have "[0..<10] = [0, 1, 2, 3, 4, 5, 6, 7, 8, 9 :: nat]" by (simp add: upt_rec)
  then show ?thesis by (simp add: inc_getcnt_array_def sort_swap_def sort_min_k_def upt_rec Let_def)
qed

lemma demo_rls2: "mmpl_rlsmem (demo3 0) (demo_pool 1 1 2 2000 1) 6032 = None"
  by (simp add: mmpl_rlsmem_def demo_defs mn_upd_def Let_def c_free_def mmpl_rls_oldestfree_def demo_sort
      oldest_index_array_def pick_scan.simps upt_1_3 pick_step_def)

lemma demo_reach: "mx \<in> {1, 200} \<Longrightarrow> pool_reach (demo3 0) (demo_pool mx 1 2 2000 1)"
proof -
  assume mx: "mx \<in> {1, 200}"
  have r1: "pool_reach demo1 (demo_pool mx 0 0 NULL 0)"
    by (rule pool_reach.create [OF demo_create]) (use mx in \<open>auto simp: demo_defs mm_data_def\<close>)
  have r2: "pool_reach demo2 (demo_pool mx 1 0 NULL 0)"
    by (rule pool_reach.get [OF r1 _ demo_get1]) (simp add: demo_defs)
  have r3: "pool_reach (demo3 1) (demo_pool mx 1 2 NULL 0)"
    by (rule pool_reach.get [OF r2 _ demo_get2]) (simp add: demo_defs)
  have "mm_data (demo3 1) 2000 = Some (1, 1)" by (simp add: demo_defs mm_data_def)
  moreover have "mmpl_rlsmem (demo3 1) (demo_pool mx 1 2 NULL 0) (2000 + SIZEOF_MM_NODE) = Some (demo3 0, demo_pool mx 1 2 2000 1, 1)"
    using demo_rls1 [of mx] mx by auto
  ultimately show ?thesis by (rule pool_reach.rls [OF r3])
qed

lemma demo_pool_ok:
  assumes "mx \<in> {1, 200}"
  shows "pool_ok (demo3 0) (demo_pool mx 1 2 2000 1) ((\<lambda>_. [])(1 := [2000]))"
proof -
  let ?L = "(\<lambda>_. [])(1 := [2000]) :: apool"
  have "free_total ?L = 1" using total_pop [of 1 ?L 2000 "[]"] by (simp add: free_total_def)
  moreover have "mp_free (demo_pool mx 1 2 2000 1) ! i = head_of (?L i) \<and>
      mp_free_size (demo_pool mx 1 2 2000 1) ! i = of_nat (i * length (?L i))" if "i \<le> 10" for i
  proof -
    have "i = 0 \<or> i = 1 \<or> i = 2 \<or> i = 3 \<or> i = 4 \<or> i = 5 \<or> i = 6 \<or> i = 7 \<or> i = 8 \<or> i = 9 \<or> i = 10"
      using that by arith
    then show ?thesis by (elim disjE) (simp_all add: demo_pool_def head_of_def)
  qed
  ultimately have "counters_ok (demo_pool mx 1 2 2000 1) ?L"
    using assms unfolding counters_ok_def by (auto simp: demo_pool_def)
  moreover have "class_ok (demo3 0) 2048 1 [2000]"
    by (simp add: class_ok_def blk_ok_def demo_defs mm_maps)
  then have "lists_ok (demo3 0) 2048 ?L"
    unfolding lists_ok_def by (auto simp: demo3_def class_ok_def)
  ultimately show ?thesis by (simp add: pool_ok_def demo_pool_def)
qed

section \<open>Properties\<close>

text \<open>
  C10 (invariant). In every state a pool can reach from its creation through requests and releases
  of blocks in use, the representation invariant holds for some abstract pool, the counter
  \<open>current_free_index\<close> is the free space of the abstract pool, and it is at most
  \<open>max_free_index\<close>.
\<close>

theorem pool_reach_safe:
  assumes "pool_reach m P"
  shows "\<exists>L. pool_ok m P L \<and> unat (mp_current_free_index P) = free_total L \<and>
    mp_current_free_index P \<le> mp_max_free_index P"
proof -
  obtain L where L: "pool_ok m P L" using pool_reach_inv [OF assms] by blast
  then have c: "mp_current_free_index P = of_nat (free_total L)" "free_total L \<le> unat (mp_max_free_index P)"
    "free_total L < 4294967296"
    by (auto simp: pool_ok_def counters_ok_def)
  then have "unat (mp_current_free_index P) = free_total L" by simp
  with L c(2) show ?thesis by (auto simp: word_le_nat_alt)
qed

theorem pool_reach_safe_witness:
  "\<exists>L. pool_ok (demo3 0) (demo_pool 200 1 2 2000 1) L \<and>
    unat (mp_current_free_index (demo_pool 200 1 2 2000 1)) = free_total L \<and>
    mp_current_free_index (demo_pool 200 1 2 2000 1) \<le> mp_max_free_index (demo_pool 200 1 2 2000 1)"
  by (rule pool_reach_safe) (simp add: demo_reach)

text \<open>
  C4 (refinement). \<open>mmpl_getmem\<close> never fails to be defined on a valid pool and implements the abstract
  request: it takes the first free block of the request's class; with no free block it hands out
  the block \<open>malloc\<close> gave, or \<open>NULL\<close> when \<open>malloc\<close> failed. The block is marked in use and is in no
  free list, and no other header changes its class or its mark.
\<close>

theorem getmem_refines:
  assumes "pool_ok m P L" and "a = NULL \<or> cells m a = None"
    and "i = mmpl_index sz (mp_boundary P)"
    and "r = (if L i \<noteq> [] then hd (L i) + SIZEOF_MM_NODE else if a = NULL then NULL else a + SIZEOF_MM_NODE)"
  shows "\<exists>m' P'. mmpl_getmem m P sz a = Some (m', P', r) \<and> pool_ok m' P' (a_get L i) \<and>
    (r \<noteq> NULL \<longrightarrow> mm_data m' (r - SIZEOF_MM_NODE) = Some (of_nat i, 1) \<and> r - SIZEOF_MM_NODE \<notin> blocks (a_get L i) \<and>
       (\<forall>q. q \<noteq> r - SIZEOF_MM_NODE \<longrightarrow> mm_data m' q = mm_data m q))"
proof (cases "L i")
  case Nil
  then have "a_get L i = L" by (auto simp: a_get_def)
  with Nil assms show ?thesis
    using getmem_fail [OF assms(1)] getmem_malloc [OF assms(1,3) Nil, of a]
    by (cases "a = NULL") (auto simp: got_block_def)
next
  case (Cons p xs)
  with assms(4) have "r = p + SIZEOF_MM_NODE" "a_get L i = L(i := xs)" by (auto simp: a_get_def)
  with getmem_reuse [OF assms(1,3) Cons, of a] show ?thesis by (auto simp: got_block_def)
qed

theorem getmem_refines_witness:
  "\<exists>m' P'. mmpl_getmem (demo3 0) (demo_pool 200 1 2 2000 1) 100 9000 = Some (m', P', 2032) \<and>
    pool_ok m' P' (a_get ((\<lambda>_. [])(1 := [2000])) 1) \<and>
    ((2032 :: nat) \<noteq> NULL \<longrightarrow> mm_data m' (2032 - SIZEOF_MM_NODE) = Some (of_nat 1, 1) \<and>
       2032 - SIZEOF_MM_NODE \<notin> blocks (a_get ((\<lambda>_. [])(1 := [2000])) 1) \<and>
       (\<forall>q. q \<noteq> 2032 - SIZEOF_MM_NODE \<longrightarrow> mm_data m' q = mm_data (demo3 0) q))"
  by (rule getmem_refines [OF demo_pool_ok]) (simp_all add: demo_defs demo_index del: One_nat_def)

text \<open>
  When the boundary is a power of two and the rounding of the request does not pass
  \<open>2 ^ 32\<close>, a block handed out by \<open>mmpl_getmem\<close>, reused or new, has room for the requested number of
  bytes behind its header.
\<close>

lemma getmem_fits:
  assumes "pool_ok m P L" and "a = NULL \<or> cells m a = None" and "mp_boundary P = 2 ^ k" and "k < 32"
    and "unat sz + (2 ^ k - 1) < 2 ^ 32" and "mmpl_getmem m P sz a = Some (m', P', r)" and "r \<noteq> NULL"
  shows "SIZEOF_MM_NODE + unat sz \<le> msize m' (r - SIZEOF_MM_NODE)"
proof -
  let ?i = "mmpl_index sz (mp_boundary P)"
  have ge: "unat sz \<le> unat (mmpl_align sz (mp_boundary P))" using align_ge(1) assms(3-5) by simp
  show ?thesis
  proof (cases "L ?i")
    case Nil
    have "a \<noteq> NULL" using getmem_fail [OF assms(1) Nil] assms(6,7) by (cases "a = NULL") auto
    with getmem_malloc [OF assms(1) refl Nil, of a] assms(2,6) ge show ?thesis by (auto simp: got_block_def)
  next
    case (Cons p xs)
    have "L 0 = []" using assms(1) by (simp add: pool_ok_def lists_ok_def)
    with Cons have "0 < ?i" by (cases "?i = 0") auto
    then have "?i * unat (mp_boundary P) = unat (mmpl_align sz (mp_boundary P))"
      using index_exact assms(3-5) by simp
    with getmem_reuse [OF assms(1) refl Cons, of a] assms(6) ge show ?thesis by (auto simp: got_block_def)
  qed
qed

text \<open>
  A request whose rounding passes \<open>2 ^ 32\<close> wraps to zero: for such a size the pool asks
  \<open>malloc\<close> for a bare header, so the block it hands out has no usable byte at all.
\<close>

lemma getmem_wraps:
  assumes "pool_ok m P L" and "a \<noteq> NULL" and "cells m a = None" and "mp_boundary P = 2 ^ k" and "k < 32"
    and "2 ^ 32 \<le> unat sz + (2 ^ k - 1)"
  shows "\<exists>m' P'. mmpl_getmem m P sz a = Some (m', P', a + SIZEOF_MM_NODE) \<and> msize m' a = SIZEOF_MM_NODE"
proof -
  have z: "mmpl_align sz (mp_boundary P) = 0" using align_wrap assms(4-6) by simp
  then have i: "mmpl_index sz (mp_boundary P) = 0" by (simp add: mmpl_index_def)
  have f: "length (mp_free P) = 11" "mp_boundary P \<noteq> 0" using assms(1) by (auto simp: pool_ok_def counters_ok_def)
  show ?thesis
    using f assms(2) by (simp add: mmpl_getmem_def z i malloc_at_def mn_upd_def getmem_finish_def)
qed

text \<open>
  C11 (refinement). Releasing a block in use of class \<open>i\<close> when the pool has room for it stores it in the
  list of its class, behind the first block, clears its mark and keeps the invariant.
\<close>

theorem rlsmem_refines:
  assumes "pool_ok m P L" and "mm_data m p = Some (of_nat i, 1)" and "1 \<le> i" and "i \<le> MMPL_MAX_INDEX"
    and "SIZEOF_MM_NODE + i * unat (mp_boundary P) \<le> msize m p" and "free_total L + i \<le> unat (mp_max_free_index P)"
  shows "\<exists>m' P'. mmpl_rlsmem m P (p + SIZEOF_MM_NODE) = Some (m', P', 1) \<and> pool_ok m' P' (a_put L i p) \<and>
    mm_data m' = (mm_data m)(p \<mapsto> (of_nat i, 0))"
proof -
  have "p \<notin> blocks L" using in_use_not_free assms(1,2) by (auto simp: pool_ok_def)
  then show ?thesis using rlsmem_put [OF assms(1) _ _ assms(2) assms(5,6)] assms(3,4) by auto
qed

theorem rlsmem_refines_witness:
  "\<exists>m' P'. mmpl_rlsmem (demo3 0) (demo_pool 200 1 2 2000 1) (6000 + SIZEOF_MM_NODE) = Some (m', P', 1) \<and>
    pool_ok m' P' (a_put ((\<lambda>_. [])(1 := [2000])) 2 6000) \<and>
    mm_data m' = (mm_data (demo3 0))(6000 \<mapsto> (of_nat 2, 0))"
proof (rule rlsmem_refines [OF demo_pool_ok])
  have "free_total ((\<lambda>_. [])(1 := [2000]) :: apool) = 1"
    using total_pop [of 1 "(\<lambda>_. [])(1 := [2000]) :: apool" 2000 "[]"] by (simp add: free_total_def)
  then show "free_total ((\<lambda>_. [])(1 := [2000])) + 2 \<le> unat (mp_max_free_index (demo_pool 200 1 2 2000 1))"
    by (simp add: demo_defs)
qed (simp_all add: demo_defs mm_data_def)

text \<open>
  Releasing a block that is already in a free list is refused with \<open>-1\<close> and changes nothing.
\<close>

lemma rlsmem_double_release:
  assumes "pool_ok m P L" and "p \<in> blocks L"
  shows "mmpl_rlsmem m P (p + SIZEOF_MM_NODE) = Some (m, P, - 1)"
proof -
  obtain j where j: "p \<in> set (L j)" using assms(2) by (auto simp: blocks_def)
  have lo: "lists_ok m (mp_boundary P) L" using assms(1) by (simp add: pool_ok_def)
  then have "j \<in> {1..MMPL_MAX_INDEX}" using j unfolding lists_ok_def by force
  then have "blk_ok m (mp_boundary P) j p" using lists_block [OF lo j] by simp
  then show ?thesis by (auto simp: mmpl_rlsmem_def blk_ok_def mm_data_def)
qed

text \<open>
  The order in which the classes are considered for release is a permutation of
  the classes \<open>1..10\<close> sorted by the number of their latest request.
\<close>

lemma lru_order_sorted:
  "mset (inc_getcnt_array lat) = mset [1..<11] \<and> sorted (map (\<lambda>i. lat ! i) (inc_getcnt_array lat))"
  using inc_getcnt_perm inc_getcnt_sorted by blast

text \<open>
  When at least three classes have free blocks, the release of the oldest is defined:
  half of the free blocks, and one more, of each of the three classes requested longest ago go back
  to the system, the invariant is kept and no other header is touched.
\<close>

lemma rls_oldestfree_three:
  assumes "pool_ok m P L" and "lru_classes P L = x # y # z # zs"
  shows "\<exists>m' P'. mmpl_rls_oldestfree m P = Some (m', P', 1) \<and> pool_ok m' P' (fold a_rls [x, y, z] L) \<and> released m m' L"
  using oldestfree_three [OF assms] by blast

definition demo4 :: mm_mem where
  "demo4 = \<lparr>cells = [1000 \<mapsto> hdr 0 1000 0, 2000 \<mapsto> hdr 0 2000 1, 6000 \<mapsto> hdr 0 6000 2, 11000 \<mapsto> hdr 0 11000 3],
     msize = (\<lambda>_. 0)(2000 := 2080, 6000 := 4128, 11000 := 6176)\<rparr>"

definition demo_pool4 :: mm_pool_s where
  "demo_pool4 = \<lparr>mp_max_free_index = 200, mp_boundary = 2048, mp_current_free_index = 6, mp_get_cnt = 3,
     mp_latest_get_cnt = [0, 1, 3, 2, 0, 0, 0, 0, 0, 0, 0], mp_use_head = 1000,
     mp_free = [0, 2000, 6000, 11000, 0, 0, 0, 0, 0, 0, 0], mp_free_size = [0, 1, 2, 3, 0, 0, 0, 0, 0, 0, 0]\<rparr>"

abbreviation demo_lists4 :: apool where
  "demo_lists4 \<equiv> (\<lambda>_. [])(1 := [2000], 2 := [6000], 3 := [11000])"

lemma demo4_ok: "pool_ok demo4 demo_pool4 demo_lists4"
proof -
  have s: "{Suc 0..10} = {1, 2, 3, 4, 5, 6, 7, 8, 9, 10}" by (simp add: eval_nat_numeral atLeastAtMostSuc_conv) blast
  have "free_total demo_lists4 = 6" by (simp add: free_total_def s)
  moreover have "mp_free demo_pool4 ! i = head_of (demo_lists4 i) \<and>
      mp_free_size demo_pool4 ! i = of_nat (i * length (demo_lists4 i))" if "i \<le> 10" for i
  proof -
    have "i = 0 \<or> i = 1 \<or> i = 2 \<or> i = 3 \<or> i = 4 \<or> i = 5 \<or> i = 6 \<or> i = 7 \<or> i = 8 \<or> i = 9 \<or> i = 10"
      using that by arith
    then show ?thesis by (elim disjE) (simp_all add: demo_pool4_def head_of_def)
  qed
  ultimately have "counters_ok demo_pool4 demo_lists4"
    unfolding counters_ok_def by (auto simp: demo_pool4_def)
  moreover have "class_ok demo4 2048 1 [2000]" "class_ok demo4 2048 2 [6000]" "class_ok demo4 2048 3 [11000]"
    by (simp_all add: class_ok_def blk_ok_def demo4_def hdr_def mm_maps)
  then have "lists_ok demo4 2048 demo_lists4"
    unfolding lists_ok_def by (auto simp: demo4_def class_ok_def)
  ultimately show ?thesis by (simp add: pool_ok_def demo_pool4_def)
qed

lemma demo4_lru: "lru_classes demo_pool4 demo_lists4 = [1, 3, 2]"
proof -
  have "[0..<10] = [0, 1, 2, 3, 4, 5, 6, 7, 8, 9 :: nat]" by (simp add: upt_rec)
  then show ?thesis
    by (simp add: lru_classes_def demo_pool4_def inc_getcnt_array_def sort_swap_def sort_min_k_def upt_rec Let_def)
qed

text \<open>
  C28 (safety). With free blocks in only one or two classes the release reads a cell of
  \<open>oldest_index_array\<close> that was never written, exactly when the class requested last has no free
  block.
\<close>

theorem rls_oldestfree_uninitialised:
  assumes "pool_ok m P L" and "lru_classes P L = x # xs" and "length xs \<le> 1"
  shows "mmpl_rls_oldestfree m P = None \<longleftrightarrow> L (newest_class P) = []"
proof (cases "L (newest_class P) = []")
  case True
  then show ?thesis using oldestfree_undefined [OF assms] by auto
next
  case False
  then show ?thesis using oldestfree_few [OF assms] by auto
qed

lemma demo_lru: "lru_classes (demo_pool 1 1 2 2000 1) ((\<lambda>_. [])(1 := [2000])) = [1]"
  "newest_class (demo_pool 1 1 2 2000 1) = 2"
  by (simp_all add: lru_classes_def newest_class_def demo_pool_def demo_sort)

theorem rls_oldestfree_uninitialised_witness:
  "mmpl_rls_oldestfree (demo3 0) (demo_pool 1 1 2 2000 1) = None \<longleftrightarrow>
    ((\<lambda>_. [])(1 := [2000]) :: apool) (newest_class (demo_pool 1 1 2 2000 1)) = []"
  by (rule rls_oldestfree_uninitialised [OF demo_pool_ok demo_lru(1)]) simp_all

text \<open>
  That state is reachable: after a pool with room for one unit has handed out blocks of
  two classes and taken the smaller one back, releasing the other block is undefined.
\<close>

lemma rlsmem_undefined_reachable:
  "\<exists>m P p i. pool_reach m P \<and> mm_data m p = Some (i, 1) \<and> mmpl_rlsmem m P (p + SIZEOF_MM_NODE) = None"
proof (intro exI conjI)
  show "pool_reach (demo3 0) (demo_pool 1 1 2 2000 1)" by (simp add: demo_reach)
  show "mm_data (demo3 0) 6000 = Some (2, 1)" by (simp add: demo_defs mm_data_def)
  show "mmpl_rlsmem (demo3 0) (demo_pool 1 1 2 2000 1) (6000 + SIZEOF_MM_NODE) = None" using demo_rls2 by simp
qed

text \<open>
  C29 (functional). Destroying a valid pool is defined and terminates: the header of the pool and every
  free block go back to the system exactly once, and nothing else changes.
\<close>

theorem destroy_releases_all:
  assumes "pool_ok m P L" and "mm_nx m (mp_use_head P) = Some (mp_use_head P)" and "mp_use_head P \<notin> blocks L"
  shows "\<exists>m'. mmpl_destroy m (Some P) = Some (m', 1) \<and>
    (\<forall>q. cells m' q = (if q \<in> insert (mp_use_head P) (blocks L) then None else cells m q))"
  by (rule destroy_ok [OF assms])

theorem destroy_releases_all_witness:
  "\<exists>m'. mmpl_destroy (demo3 0) (Some (demo_pool 200 1 2 2000 1)) = Some (m', 1) \<and>
    (\<forall>q. cells m' q = (if q \<in> insert (mp_use_head (demo_pool 200 1 2 2000 1)) (blocks ((\<lambda>_. [])(1 := [2000])))
       then None else cells (demo3 0) q))"
  by (rule destroy_releases_all [OF demo_pool_ok]) (auto simp: demo_defs mm_maps blocks_def)

end
