(* ===== verification/Mmpool_Worker.thy ===== *)
theory Mmpool_Worker
  imports Mmpool_Props Tdpool
begin

text \<open>
  The memory pool of a worker thread as its one client uses it: one block at a time is requested
  and given back. Then each size class never has more than the one block in its list that it had
  or that came back, so the pool never reaches its limit and the release is always defined.
\<close>

definition reserve :: "apool \<Rightarrow> nat" where
  "reserve L = (\<Sum>i\<in>{1..MMPL_MAX_INDEX}. i * max 1 (length (L i)))"

lemma reserve_upd_same: "max 1 (length xs) = max 1 (length (L i)) \<Longrightarrow> reserve (L(i := xs)) = reserve L"
  unfolding reserve_def by (rule sum.cong) auto

lemma total_le_reserve: "free_total L \<le> reserve L"
  unfolding reserve_def free_total_def by (rule sum_mono) simp

text \<open>The pool with no block in use by the client, and with the block \<open>p\<close> in use.\<close>

definition worker_idle :: "mm_mem \<Rightarrow> mm_pool_s \<Rightarrow> bool" where
  "worker_idle m P \<longleftrightarrow> mp_boundary P = 1024 \<and> (\<exists>L. pool_ok m P L \<and> reserve L \<le> unat (mp_max_free_index P))"

definition worker_holds :: "mm_mem \<Rightarrow> mm_pool_s \<Rightarrow> addr \<Rightarrow> bool" where
  "worker_holds m P p \<longleftrightarrow> mp_boundary P = 1024 \<and> (\<exists>L i. pool_ok m P L \<and> p \<notin> blocks L \<and>
     mm_data m p = Some (of_nat i, 1) \<and> i \<le> MMPL_MAX_INDEX \<and> SIZEOF_MM_NODE + i * 1024 \<le> msize m p \<and>
     reserve (if i = 0 then L else a_put L i p) \<le> unat (mp_max_free_index P))"

lemma getmem_limit: "mmpl_getmem m P sz a = Some (m', P', r) \<Longrightarrow> mp_max_free_index P' = mp_max_free_index P"
  by (auto simp: mmpl_getmem_def getmem_finish_def Let_def split: bind_splits if_splits)

lemma rlsmem_limit:
  assumes "pool_ok m P L" and "i \<in> {1..MMPL_MAX_INDEX}" and "mm_data m p = Some (of_nat i, 1)"
    and "free_total L + i \<le> unat (mp_max_free_index P)" and "mmpl_rlsmem m P (p + SIZEOF_MM_NODE) = Some (m', P', r)"
  shows "mp_max_free_index P' = mp_max_free_index P"
proof -
  have w: "unat (of_nat i :: u32) = i" "(of_nat i :: u32) \<noteq> 0" using assms(2) by (auto simp: word_of_nat_eq_0_iff)
  then have "\<not> mp_current_free_index P + of_nat i > mp_max_free_index P"
    using over_limit [of P L "of_nat i"] assms(1,2,4) by (simp add: pool_ok_def)
  then show ?thesis
    using assms(3,5) w by (auto simp: mmpl_rlsmem_def mm_data_def mn_upd_def Let_def split: bind_splits if_splits)
qed

lemma align_room:
  assumes "unat sz + 1023 < 2 ^ 32"
  shows "unat sz \<le> unat (mmpl_align sz 1024)"
    and "0 < mmpl_index sz 1024 \<Longrightarrow> mmpl_index sz 1024 * 1024 = unat (mmpl_align sz 1024)"
  using align_ge(1) [of 10 sz] index_exact [of 10 sz] assms by simp_all

lemma worker_get:
  assumes "worker_idle m P" and "a \<noteq> NULL" and "cells m a = None" and "unat sz + 1023 < 2 ^ 32"
  shows "\<exists>m' P' p. mmpl_getmem m P sz a = Some (m', P', p + SIZEOF_MM_NODE) \<and> worker_holds m' P' p \<and>
    SIZEOF_MM_NODE + unat sz \<le> msize m' p \<and> (\<forall>q. q \<noteq> a \<longrightarrow> cells m q = None \<longrightarrow> cells m' q = None)"
proof -
  obtain L where L: "pool_ok m P L" "reserve L \<le> unat (mp_max_free_index P)" "mp_boundary P = 1024"
    using assms(1) by (auto simp: worker_idle_def)
  let ?i = "mmpl_index sz 1024"
  note al = align_room [OF assms(4)] and i10 = mmpl_index_le [of sz 1024]
  have fit: "?i * 1024 \<le> unat (mmpl_align sz 1024)" using mmpl_index_fits [of sz 1024] by simp
  show ?thesis
  proof (cases "L ?i")
    case Nil
    obtain m' P' where g: "mmpl_getmem m P sz a = Some (m', P', a + SIZEOF_MM_NODE)" "pool_ok m' P' L" "a \<notin> blocks L"
        "got_block m m' ?i (unat (mmpl_align sz 1024)) a" "mp_boundary P' = 1024"
      using getmem_malloc [OF L(1) refl, of sz a] Nil assms(2,3) L(3) by auto
    have "reserve (a_put L ?i a) = reserve L" using Nil by (simp add: a_put_def reserve_upd_same)
    then have "worker_holds m' P' a"
      unfolding worker_holds_def using g L(2) fit i10 getmem_limit [OF g(1)]
      by (intro conjI exI [of _ L] exI [of _ ?i]) (auto simp: got_block_def)
    moreover have "q \<noteq> a \<Longrightarrow> cells m q = None \<Longrightarrow> cells m' q = None" for q
      using g(4) mm_alloc_iff(3) unfolding got_block_def by metis
    ultimately show ?thesis using g(1,4) al(1) by (intro exI [of _ m'] exI [of _ P'] exI [of _ a]) (auto simp: got_block_def)
  next
    case (Cons p xs)
    obtain m' P' where g: "mmpl_getmem m P sz a = Some (m', P', p + SIZEOF_MM_NODE)" "pool_ok m' P' (L(?i := xs))"
        "p \<notin> blocks (L(?i := xs))" "got_block m m' ?i (?i * 1024) p" "mp_boundary P' = 1024"
      using getmem_reuse [OF L(1) refl, of sz p xs a] Cons L(3) by auto
    have i0: "0 < ?i" using L(1) Cons by (cases "?i = 0") (auto simp: pool_ok_def lists_ok_def)
    have "a_put (L(?i := xs)) ?i p = L(?i := (a_put (L(?i := xs)) ?i p) ?i)" by (auto simp: a_put_def split: list.split)
    moreover have "length (a_put (L(?i := xs)) ?i p ?i) = length (L ?i)" using Cons by (simp add: a_put_def split: list.split)
    ultimately have "reserve (a_put (L(?i := xs)) ?i p) = reserve L" by (metis reserve_upd_same)
    then have "worker_holds m' P' p"
      unfolding worker_holds_def using g L(2) i0 i10 getmem_limit [OF g(1)]
      by (intro conjI exI [of _ "L(?i := xs)"] exI [of _ ?i]) (auto simp: got_block_def)
    moreover have "cells m p \<noteq> None"
      using lists_block [of m 1024 L p ?i] L Cons i0 i10 by (auto simp: pool_ok_def blk_ok_def mm_data_def)
    then have "cells m q = None \<Longrightarrow> cells m' q = None" for q
      using g(4) mm_alloc_iff(3) unfolding got_block_def by metis
    ultimately show ?thesis using g(1,4) al i0 by (intro exI [of _ m'] exI [of _ P'] exI [of _ p]) (auto simp: got_block_def)
  qed
qed

lemma worker_rls:
  assumes "worker_holds m P p"
  shows "\<exists>m' P'. mmpl_rlsmem m P (p + SIZEOF_MM_NODE) = Some (m', P', 1) \<and> worker_idle m' P' \<and>
    (\<forall>q. cells m q = None \<longrightarrow> cells m' q = None)"
proof -
  obtain L i where L: "pool_ok m P L" "p \<notin> blocks L" "mm_data m p = Some (of_nat i, 1)" "i \<le> MMPL_MAX_INDEX"
      "SIZEOF_MM_NODE + i * 1024 \<le> msize m p" "reserve (if i = 0 then L else a_put L i p) \<le> unat (mp_max_free_index P)" "mp_boundary P = 1024"
    using assms by (auto simp: worker_holds_def)
  show ?thesis
  proof (cases "i = 0")
    case True
    have "mmpl_rlsmem m P (p + SIZEOF_MM_NODE) = Some (freed m p, P, 1)" using rlsmem_large [of m p P] L(3) True by simp
    moreover have "pool_ok (freed m p) P L" by (rule pool_freed [OF L(1,3)])
    ultimately show ?thesis using L(6,7) True by (auto simp: worker_idle_def freed_def)
  next
    case False
    then have i: "i \<in> {1..MMPL_MAX_INDEX}" using L(4) by auto
    then have tot: "free_total L + i = free_total (a_put L i p)" using total_push [of i L p] by auto
    then have lim: "free_total L + i \<le> unat (mp_max_free_index P)" using total_le_reserve [of "a_put L i p"] L(6) False by simp
    obtain m' P' where r: "mmpl_rlsmem m P (p + SIZEOF_MM_NODE) = Some (m', P', 1)" "pool_ok m' P' (a_put L i p)"
        "mm_data m' = (mm_data m)(p \<mapsto> (of_nat i, 0))" "mp_boundary P' = mp_boundary P"
      using rlsmem_put [OF L(1) i L(2,3) _ lim] L(5,7) by auto
    have "cells m q = None \<Longrightarrow> cells m' q = None" for q
      using r(3) L(3) mm_alloc_iff(3) [of m q] mm_alloc_iff(3) [of m' q] by (auto split: if_splits)
    then show ?thesis
      using r L(6,7) False rlsmem_limit [OF L(1) i L(3) lim r(1)] by (auto simp: worker_idle_def)
  qed
qed

lemma worker_mmpl_idle:
  assumes "worker_mmpl m a = Some (m', P)" and "cells m NULL = None"
  shows "worker_idle m' P"
proof -
  have c: "mp_boundary P = 1024" "mp_max_free_index P = 512000"
    using assms(1) by (auto simp: worker_mmpl_def mmpl_create_def split: if_splits)
  have "pool_ok m' P (\<lambda>_. [])" by (rule create_ok [OF assms(1) [unfolded worker_mmpl_def] assms(2)]) (simp_all add: c)
  moreover have "reserve (\<lambda>_. []) \<le> 512000"
  proof -
    have "reserve (\<lambda>_. []) \<le> (\<Sum>i\<in>{1..MMPL_MAX_INDEX}. 10)" unfolding reserve_def by (rule sum_mono) simp
    then show ?thesis by simp
  qed
  ultimately show ?thesis using c by (auto simp: worker_idle_def)
qed

end
