(* ===== verification/Acm_Read.thy ===== *)
theory Acm_Read
  imports Acm_Codec Mmpool_Worker
begin

text \<open>
  The read side of a channel. However the stream of response frames is cut into segments, the read
  thread hands the responses to the listeners one by one and in order, as the reference dispatcher
  does on the list of messages; its memory pool stays valid, and no step of it is undefined.
\<close>

section \<open>The reference dispatcher\<close>

type_synonym acm_message = "acm_msg_head \<times> u8 list"

text \<open>A response with data of the announced size.\<close>

definition msg_ok :: "acm_message \<Rightarrow> bool" where
  "msg_ok x \<longleftrightarrow> snd x \<noteq> [] \<and> sint (mh_data_size (fst x)) = int (length (snd x))"

definition msg_frame :: "acm_message \<Rightarrow> u8 list" where
  "msg_frame x = frame (fst x) (snd x)"

text \<open>The entry of the table for a response: its listener is called, and the entry is free again.\<close>

definition table_dispatch :: "acm_handle \<Rightarrow> acm_message \<Rightarrow> (acm_handle \<times> (addr \<times> addr \<times> u8 list)) option" where
  "table_dispatch h x = do {
     k \<leftarrow> c_rem (sint (mh_req_id (fst x))) (sint (ah_max_hold_req_num h));
     if k < 0 then None
     else do {
       e \<leftarrow> nth_opt (ah_request_map h) (nat k);
       if me_listening e = NULL then None
       else Some (h\<lparr>ah_request_map := (ah_request_map h)[nat k := e\<lparr>me_listening := NULL, me_req_id := 0\<rparr>]\<rparr>,
                  (me_listening e, me_arg e, snd x))
     }
   }"

fun dispatch_all :: "acm_handle \<Rightarrow> acm_message list \<Rightarrow> (acm_handle \<times> (addr \<times> addr \<times> u8 list) list) option" where
  "dispatch_all h [] = Some (h, [])"
| "dispatch_all h (x # xs) = do {
     (h1, c) \<leftarrow> table_dispatch h x;
     (h2, cs) \<leftarrow> dispatch_all h1 xs;
     Some (h2, c # cs)
   }"

section \<open>The weight of what is in the socket\<close>

fun rx_weight :: "rx list \<Rightarrow> nat" where
  "rx_weight [] = 0"
| "rx_weight (Rx_data bs # r) = length bs + 1 + rx_weight r"
| "rx_weight (_ # r) = 1 + rx_weight r"

lemma os_recv_weight:
  assumes "rx_clean r" and "r \<noteq> []" and "0 < n" and "os_recv r n = (x, r')"
  shows "rx_weight r' < rx_weight r"
  using assms by (cases "(r, n)" rule: os_recv.cases) (auto split: if_splits)

lemma os_recv_weight_le: "os_recv r n = (x, r') \<Longrightarrow> rx_weight r' \<le> rx_weight r"
  by (cases "(r, n)" rule: os_recv.cases) (auto split: if_splits)

section \<open>The invariant of the read thread\<close>

text \<open>\<open>xs\<close> are the responses not yet dispatched, the first one perhaps received in part.\<close>

definition supply_ok :: "acm_reader \<Rightarrow> nat \<Rightarrow> bool" where
  "supply_ok s n \<longleftrightarrow> n \<le> length (rd_malloc s) \<and> distinct (rd_malloc s) \<and>
     (\<forall>a\<in>set (rd_malloc s). a \<noteq> NULL \<and> cells (rd_mem s) a = None)"

definition in_head :: "acm_reader \<Rightarrow> acm_message list \<Rightarrow> bool" where
  "in_head s xs \<longleftrightarrow> (let ch = rd_channel s; i = ac_head_read_index ch in
     ac_is_head ch = 1 \<and> 0 \<le> i \<and> i < int ACM_MSG_HEAD_SIZE \<and> worker_idle (rd_mem s) (rd_pool s) \<and> supply_ok s (length xs) \<and>
     take (nat i) (ac_head ch) @ rx_bytes (rd_rx s) = concat (map msg_frame xs))"

definition in_data :: "acm_reader \<Rightarrow> acm_message list \<Rightarrow> bool" where
  "in_data s xs \<longleftrightarrow> (let ch = rd_channel s; i = ac_data_read_index ch in
     \<exists>x ys p. xs = x # ys \<and> ac_is_head ch \<noteq> 1 \<and> 0 \<le> i \<and> i < int (length (snd x)) \<and>
       ac_recv_msg ch = Some \<lparr>am_addr = p + SIZEOF_MM_NODE, am_head = fst x, am_data = take (nat i) (snd x)\<rparr> \<and>
       worker_holds (rd_mem s) (rd_pool s) p \<and> SIZEOF_MM_NODE + SIZEOF_ACM_MSG + length (snd x) \<le> msize (rd_mem s) p \<and>
       supply_ok s (length ys) \<and> drop (nat i) (snd x) @ concat (map msg_frame ys) = rx_bytes (rd_rx s))"

definition reader_inv :: "acm_reader \<Rightarrow> acm_message list \<Rightarrow> bool" where
  "reader_inv s xs \<longleftrightarrow> rx_clean (rd_rx s) \<and> length (ac_head (rd_channel s)) = ACM_MSG_HEAD_SIZE \<and> list_all msg_ok xs \<and>
     (in_head s xs \<or> in_data s xs)"

text \<open>What the thread has done and still will do, against the reference dispatcher.\<close>

definition reader_rel :: "acm_handle \<times> (addr \<times> addr \<times> u8 list) list \<Rightarrow> u64 \<Rightarrow> acm_reader \<Rightarrow> acm_message list \<Rightarrow> bool" where
  "reader_rel res req s xs \<longleftrightarrow> reader_inv s xs \<and>
     ac_request_num (rd_channel s) + of_nat (length (rd_calls s)) = req \<and>
     (\<exists>cs. dispatch_all (rd_handle s) xs = Some (fst res, cs) \<and> rd_calls s @ cs = snd res)"

section \<open>The parts of a round\<close>

lemma rx_empty_done:
  assumes "reader_inv s xs" and "rd_rx s = []"
  shows "xs = []"
proof (rule ccontr)
  assume ne: "xs \<noteq> []"
  then obtain x ys where x: "xs = x # ys" by (cases xs) auto
  have l: "ACM_MSG_HEAD_SIZE \<le> length (msg_frame x)" by (simp add: msg_frame_def frame_take(3))
  from assms(1) consider "in_head s xs" | "in_data s xs" by (auto simp: reader_inv_def)
  then show False
  proof cases
    case 1
    then have "ac_head_read_index (rd_channel s) < int ACM_MSG_HEAD_SIZE" "0 \<le> ac_head_read_index (rd_channel s)"
      and eq: "take (nat (ac_head_read_index (rd_channel s))) (ac_head (rd_channel s)) = msg_frame x @ concat (map msg_frame ys)"
      using assms(2) x by (auto simp: in_head_def Let_def)
    then have "length (msg_frame x @ concat (map msg_frame ys)) < ACM_MSG_HEAD_SIZE" unfolding eq [symmetric] by simp
    with l show False by simp
  next
    case 2
    then show False using assms(2) x by (auto simp: in_data_def Let_def)
  qed
qed

lemma read_dispatch_table:
  assumes "table_dispatch (rd_handle s) (am_head msg, am_data msg) = Some (h1, c)"
    and "am_addr msg = p + SIZEOF_MM_NODE" and "worker_holds (rd_mem s) (rd_pool s) p"
  shows "\<exists>m' P'. worker_idle m' P' \<and> (\<forall>q. cells (rd_mem s) q = None \<longrightarrow> cells m' q = None) \<and>
    read_dispatch s msg = Some (s\<lparr>rd_mem := m', rd_pool := P', rd_calls := rd_calls s @ [c], rd_handle := h1,
      rd_channel := (rd_channel s)\<lparr>ac_request_num := ac_request_num (rd_channel s) - 1, ac_is_head := 1, ac_head_read_index := 0\<rparr>\<rparr>)"
proof -
  obtain m' P' where r: "mmpl_rlsmem (rd_mem s) (rd_pool s) (p + SIZEOF_MM_NODE) = Some (m', P', 1)" "worker_idle m' P'"
      "\<forall>q. cells (rd_mem s) q = None \<longrightarrow> cells m' q = None"
    using worker_rls [OF assms(3)] by blast
  show ?thesis
    by (rule exI [of _ m'], rule exI [of _ P'])
      (use assms(1,2) r in \<open>auto simp: read_dispatch_def table_dispatch_def Let_def split: bind_splits if_splits\<close>)
qed

lemma size_left:
  assumes "msg_ok x" and "0 \<le> i" and "i < int (length (snd x))"
  shows "c_size_t (int (length (snd x)) - i) = length (snd x) - nat i"
proof -
  have "sint (mh_data_size (fst x)) < 2 ^ 31" using sint_less [of "mh_data_size (fst x)"] by simp
  with assms show ?thesis using c_size_t_pos [of "int (length (snd x)) - i"] by (simp add: msg_ok_def nat_diff_distrib)
qed

text \<open>The segment that \<open>recv\<close> returns is the next piece of the data.\<close>

lemma next_piece:
  assumes "drop (nat i) d @ rest = bs @ tl0" and "length bs \<le> length d - nat i" and "0 \<le> i" and "i < int (length d)"
  shows "take (nat i) d @ bs = take (nat (i + int (length bs))) d" and "drop (nat (i + int (length bs))) d @ rest = tl0"
proof -
  have n: "nat (i + int (length bs)) = nat i + length bs" using assms(3) by simp
  have l: "length bs \<le> length (drop (nat i) d)" using assms(2) by simp
  have "bs = take (length bs) (drop (nat i) d)" using arg_cong [OF assms(1), of "take (length bs)"] l by simp
  then show "take (nat i) d @ bs = take (nat (i + int (length bs))) d" unfolding n take_add by simp
  have "tl0 = drop (length bs) (drop (nat i) d) @ rest" using arg_cong [OF assms(1), of "drop (length bs)"] l by simp
  then show "drop (nat (i + int (length bs))) d @ rest = tl0" unfolding n by (simp add: add.commute)
qed

definition advances :: "acm_handle \<times> (addr \<times> addr \<times> u8 list) list \<Rightarrow> u64 \<Rightarrow> acm_reader \<Rightarrow> acm_reader \<times> bool \<Rightarrow> bool" where
  "advances res req s r \<longleftrightarrow> (\<exists>xs'. reader_rel res req (fst r) xs') \<and>
     rx_weight (rd_rx (fst r)) \<le> rx_weight (rd_rx s) \<and>
     (rd_rx s \<noteq> [] \<or> snd r \<longrightarrow> rx_weight (rd_rx (fst r)) < rx_weight (rd_rx s))"

lemma read_data_advances:
  assumes rel: "reader_rel res req s xs" and dat: "in_data s xs"
  shows "\<exists>r. read_data s = Some r \<and> advances res req s r"
proof -
  let ?ch = "rd_channel s" and ?i = "ac_data_read_index (rd_channel s)"
  obtain x ys p where x: "xs = x # ys" "ac_is_head ?ch \<noteq> 1" "0 \<le> ?i" "?i < int (length (snd x))"
      "ac_recv_msg ?ch = Some \<lparr>am_addr = p + SIZEOF_MM_NODE, am_head = fst x, am_data = take (nat ?i) (snd x)\<rparr>"
      "worker_holds (rd_mem s) (rd_pool s) p" "SIZEOF_MM_NODE + SIZEOF_ACM_MSG + length (snd x) \<le> msize (rd_mem s) p"
      "supply_ok s (length ys)" "drop (nat ?i) (snd x) @ concat (map msg_frame ys) = rx_bytes (rd_rx s)"
    using dat by (auto simp: in_data_def Let_def)
  have inv: "rx_clean (rd_rx s)" "length (ac_head ?ch) = ACM_MSG_HEAD_SIZE" "list_all msg_ok xs"
    using rel by (auto simp: reader_rel_def reader_inv_def)
  then have ok: "msg_ok x" by (simp add: x(1))
  obtain y rx' where y: "os_recv (rd_rx s) (length (snd x) - nat ?i) = (y, rx')" by (cases "os_recv (rd_rx s) (length (snd x) - nat ?i)")
  have pos: "0 < length (snd x) - nat ?i" using x(3,4) by simp
  note clean = os_recv_clean [OF inv(1) y] and le = os_recv_weight_le [OF y] and lt = os_recv_weight [OF inv(1) _ pos y]
  note sz = size_left [OF ok x(3,4)]
  show ?thesis
  proof (cases y)
    case Io_again
    then have "read_data s = Some (s\<lparr>rd_rx := rx'\<rparr>, False)" using x(5) y sz ok by (simp add: read_data_def Let_def msg_ok_def)
    moreover have "reader_rel res req (s\<lparr>rd_rx := rx'\<rparr>) xs"
      using rel x(9) clean(1,3) Io_again inv dat
      by (auto simp: reader_rel_def reader_inv_def in_data_def supply_ok_def Let_def)
    ultimately show ?thesis using le lt by (auto simp: advances_def)
  next
    case Io_err
    then show ?thesis using clean(2) by simp
  next
    case (Io_ok bs)
    note bs = clean(4) [OF Io_ok]
    let ?j = "?i + int (length bs)"
    have piece: "take (nat ?i) (snd x) @ bs = take (nat ?j) (snd x)" "drop (nat ?j) (snd x) @ concat (map msg_frame ys) = rx_bytes rx'"
      using next_piece [of ?i "snd x" "concat (map msg_frame ys)" bs "rx_bytes rx'"] bs x(3,4,9) by auto
    let ?msg = "\<lparr>am_addr = p + SIZEOF_MM_NODE, am_head = fst x, am_data = take (nat ?j) (snd x)\<rparr>"
    let ?s1 = "s\<lparr>rd_rx := rx', rd_channel := ?ch\<lparr>ac_recv_msg := Some ?msg, ac_data_read_index := ?j\<rparr>\<rparr>"
    have fits: "?j \<le> int (length (snd x))" using bs x(3,4) by linarith
    have wl: "rx_weight rx' < rx_weight (rd_rx s)" using lt bs pos y Io_ok by (cases "rd_rx s") auto
    have rd: "read_data s = (if ?j < int (length (snd x)) then Some (?s1, False) else do { s2 \<leftarrow> read_dispatch ?s1 ?msg; Some (s2, True) })"
      using x(5,7) y sz Io_ok fits ok piece(1) by (simp add: read_data_def Let_def msg_ok_def)
    show ?thesis
    proof (cases "?j < int (length (snd x))")
      case True
      have "reader_rel res req ?s1 xs"
        using rel x True piece inv clean(1) by (auto simp: reader_rel_def reader_inv_def in_data_def supply_ok_def Let_def)
      with True rd wl show ?thesis by (auto simp: advances_def)
    next
      case False
      then have d: "take (nat ?j) (snd x) = snd x" "?j = int (length (snd x))" using fits by simp_all
      obtain h1 c h2 cs where t: "table_dispatch (rd_handle s) x = Some (h1, c)" "dispatch_all h1 ys = Some (h2, cs)"
          "h2 = fst res" "rd_calls s @ c # cs = snd res"
        using rel x(1) by (auto simp: reader_rel_def split: bind_splits)
      obtain m' P' where m: "worker_idle m' P'" "\<forall>q. cells (rd_mem s) q = None \<longrightarrow> cells m' q = None"
          "read_dispatch ?s1 ?msg = Some (?s1\<lparr>rd_mem := m', rd_pool := P', rd_calls := rd_calls s @ [c], rd_handle := h1,
             rd_channel := (rd_channel ?s1)\<lparr>ac_request_num := ac_request_num ?ch - 1, ac_is_head := 1, ac_head_read_index := 0\<rparr>\<rparr>)"
        using read_dispatch_table [of ?s1 ?msg h1 c p] t(1) d(1) x(6) by auto
      let ?s2 = "?s1\<lparr>rd_mem := m', rd_pool := P', rd_calls := rd_calls s @ [c], rd_handle := h1,
        rd_channel := (rd_channel ?s1)\<lparr>ac_request_num := ac_request_num ?ch - 1, ac_is_head := 1, ac_head_read_index := 0\<rparr>\<rparr>"
      have "in_head ?s2 ys" using m x(8) piece(2) d(2) by (auto simp: in_head_def supply_ok_def)
      then have "reader_rel res req ?s2 ys"
        using rel inv clean(1) x(1) t by (auto simp: reader_rel_def reader_inv_def algebra_simps)
      with False rd m(3) wl show ?thesis by (auto simp: advances_def)
    qed
  qed
qed

lemma read_head_done_ok:
  assumes "worker_idle (rd_mem s) (rd_pool s)" and "supply_ok s (Suc (length ys))" and "msg_ok x" and "ac_head (rd_channel s) = the (frame_head (fst x))"
  shows "\<exists>m P p as. read_head_done s = Some (s\<lparr>rd_mem := m, rd_pool := P, rd_malloc := as,
      rd_channel := (rd_channel s)\<lparr>ac_is_head := 0, ac_data_read_index := 0,
        ac_recv_msg := Some \<lparr>am_addr = p + SIZEOF_MM_NODE, am_head = fst x, am_data = []\<rparr>\<rparr>\<rparr>) \<and>
    worker_holds m P p \<and> SIZEOF_MM_NODE + SIZEOF_ACM_MSG + length (snd x) \<le> msize m p \<and>
    length ys \<le> length as \<and> distinct as \<and> (\<forall>a\<in>set as. a \<noteq> NULL \<and> cells m a = None)"
proof -
  note dec = frame_head_decode(2,3) [OF frame_head_the, of "fst x"]
  let ?sz = "32 + mh_data_size (fst x)"
  have "sint (mh_data_size (fst x)) < 2 ^ 31" using sint_less [of "mh_data_size (fst x)"] by simp
  then have "length (snd x) < 2 ^ 31" using assms(3) by (simp add: msg_ok_def)
  moreover have "mh_data_size (fst x) = of_nat (length (snd x))"
    using assms(3) unfolding msg_ok_def by (metis of_int_of_nat_eq scast_eq scast_id)
  ultimately have sz: "unat ?sz = 32 + length (snd x)" "unat ?sz + 1023 < 2 ^ 32"
    using unat_of_nat_u32 [of "32 + length (snd x)"] by simp_all
  obtain a as where a: "rd_malloc s = a # as" "a \<noteq> NULL" "cells (rd_mem s) a = None" "length ys \<le> length as" "distinct as" "a \<notin> set as"
      "\<forall>a\<in>set as. a \<noteq> NULL \<and> cells (rd_mem s) a = None"
    using assms(2) by (cases "rd_malloc s") (auto simp: supply_ok_def)
  obtain m P p where g: "mmpl_getmem (rd_mem s) (rd_pool s) ?sz a = Some (m, P, p + SIZEOF_MM_NODE)" "worker_holds m P p"
      "SIZEOF_MM_NODE + unat ?sz \<le> msize m p" "\<forall>q. q \<noteq> a \<longrightarrow> cells (rd_mem s) q = None \<longrightarrow> cells m q = None"
    using worker_get [OF assms(1) a(2,3) sz(2)] by auto
  have "read_head_done s = Some (s\<lparr>rd_mem := m, rd_pool := P, rd_malloc := as,
      rd_channel := (rd_channel s)\<lparr>ac_is_head := 0, ac_data_read_index := 0,
        ac_recv_msg := Some \<lparr>am_addr = p + SIZEOF_MM_NODE, am_head = fst x, am_data = []\<rparr>\<rparr>\<rparr>)"
    using dec a(1) g(1) assms(4) by (simp add: read_head_done_def Let_def)
  moreover have "\<forall>b\<in>set as. b \<noteq> NULL \<and> cells m b = None" using a(6,7) g(4) by auto
  ultimately show ?thesis using g a(4,5) sz(1) by auto
qed

text \<open>The head that is being received is the head of the first remaining message.\<close>

lemma head_piece:
  assumes "take (nat i) hd0 @ bs @ more0 = concat (map msg_frame xs)" and "0 \<le> i" and "i + int (length bs) = int ACM_MSG_HEAD_SIZE"
    and "length hd0 = ACM_MSG_HEAD_SIZE"
  shows "\<exists>x ys. xs = x # ys \<and> take (nat i) hd0 @ bs = the (frame_head (fst x)) \<and> more0 = snd x @ concat (map msg_frame ys)"
proof -
  have l: "length (take (nat i) hd0 @ bs) = ACM_MSG_HEAD_SIZE" using assms(2-4) by simp
  obtain x ys where x: "xs = x # ys" using assms(1) l by (cases xs) auto
  have e: "(take (nat i) hd0 @ bs) @ more0 = the (frame_head (fst x)) @ snd x @ concat (map msg_frame ys)"
    using assms(1) by (simp add: x msg_frame_def frame_def)
  have "length (the (frame_head (fst x))) = ACM_MSG_HEAD_SIZE" using frame_head_decode(1) frame_head_the by blast
  with e l have "take (nat i) hd0 @ bs = the (frame_head (fst x)) \<and> more0 = snd x @ concat (map msg_frame ys)"
    by (metis append_eq_append_conv)
  with x show ?thesis by blast
qed

lemma read_head_advances:
  assumes rel: "reader_rel res req s xs" and hd: "in_head s xs"
  shows "\<exists>s' go xs'. read_head s = Some (s', go) \<and> reader_rel res req s' xs' \<and> (go \<longrightarrow> in_data s' xs') \<and>
    rx_weight (rd_rx s') \<le> rx_weight (rd_rx s) \<and> (rd_rx s \<noteq> [] \<or> go \<longrightarrow> rx_weight (rd_rx s') < rx_weight (rd_rx s))"
proof -
  let ?ch = "rd_channel s" and ?i = "ac_head_read_index (rd_channel s)"
  have h: "ac_is_head ?ch = 1" "0 \<le> ?i" "?i < int ACM_MSG_HEAD_SIZE" "worker_idle (rd_mem s) (rd_pool s)" "supply_ok s (length xs)"
      "take (nat ?i) (ac_head ?ch) @ rx_bytes (rd_rx s) = concat (map msg_frame xs)"
    using hd by (auto simp: in_head_def Let_def)
  have inv: "rx_clean (rd_rx s)" "length (ac_head ?ch) = ACM_MSG_HEAD_SIZE" "list_all msg_ok xs"
    using rel by (auto simp: reader_rel_def reader_inv_def)
  obtain y rx' where y: "os_recv (rd_rx s) (ACM_MSG_HEAD_SIZE - nat ?i) = (y, rx')" by (cases "os_recv (rd_rx s) (ACM_MSG_HEAD_SIZE - nat ?i)")
  have pos: "0 < ACM_MSG_HEAD_SIZE - nat ?i" using h(2,3) by simp
  note clean = os_recv_clean [OF inv(1) y] and le = os_recv_weight_le [OF y] and lt = os_recv_weight [OF inv(1) _ pos y]
  show ?thesis
  proof (cases y)
    case Io_again
    then have "read_head s = Some (s\<lparr>rd_rx := rx'\<rparr>, False)" using y by (simp add: read_head_def Let_def)
    moreover have "reader_rel res req (s\<lparr>rd_rx := rx'\<rparr>) xs"
      using rel h clean(1,3) Io_again inv by (auto simp: reader_rel_def reader_inv_def in_head_def supply_ok_def Let_def)
    ultimately show ?thesis using le lt by auto
  next
    case Io_err
    then show ?thesis using clean(2) by simp
  next
    case (Io_ok bs)
    note bs = clean(4) [OF Io_ok]
    let ?j = "?i + int (length bs)" and ?hd = "take (nat ?i) (ac_head ?ch) @ bs @ drop (nat ?i + length bs) (ac_head ?ch)"
    let ?s1 = "s\<lparr>rd_rx := rx', rd_channel := ?ch\<lparr>ac_head := ?hd, ac_head_read_index := ?j\<rparr>\<rparr>"
    have fits: "?j \<le> int ACM_MSG_HEAD_SIZE" using bs h(2,3) by linarith
    have wl: "rx_weight rx' < rx_weight (rd_rx s)" using lt bs pos y Io_ok by (cases "rd_rx s") auto
    have rd: "read_head s = (if ?j < int ACM_MSG_HEAD_SIZE then Some (?s1, False) else do { s2 \<leftarrow> read_head_done ?s1; Some (s2, True) })"
      using y Io_ok by (simp add: read_head_def Let_def)
    have len: "length ?hd = ACM_MSG_HEAD_SIZE" "take (nat ?j) ?hd = take (nat ?i) (ac_head ?ch) @ bs"
      using fits h(2,3) inv(2) by (auto simp: nat_add_distrib)
    show ?thesis
    proof (cases "?j < int ACM_MSG_HEAD_SIZE")
      case True
      have "in_head ?s1 xs" using h bs True len(2) by (auto simp: in_head_def supply_ok_def Let_def)
      then have "reader_rel res req ?s1 xs" using rel inv clean(1) len(1) by (auto simp: reader_rel_def reader_inv_def)
      with True rd wl show ?thesis by auto
    next
      case False
      then have j: "?j = int ACM_MSG_HEAD_SIZE" using fits by simp
      obtain x ys where x: "xs = x # ys" "take (nat ?i) (ac_head ?ch) @ bs = the (frame_head (fst x))"
          "rx_bytes rx' = snd x @ concat (map msg_frame ys)"
        using head_piece [of ?i "ac_head ?ch" bs "rx_bytes rx'" xs] h(2,6) bs j inv(2) by auto
      have ok: "msg_ok x" using inv(3) by (simp add: x(1))
      have full: "?hd = the (frame_head (fst x))" using x(2) j h(2) inv(2) by auto
      have "worker_idle (rd_mem ?s1) (rd_pool ?s1)" "supply_ok ?s1 (Suc (length ys))" "ac_head (rd_channel ?s1) = the (frame_head (fst x))"
        using h(4,5) x(1) full by (simp_all add: supply_ok_def)
      then obtain m P p as where d: "read_head_done ?s1 = Some (?s1\<lparr>rd_mem := m, rd_pool := P, rd_malloc := as,
          rd_channel := (rd_channel ?s1)\<lparr>ac_is_head := 0, ac_data_read_index := 0,
            ac_recv_msg := Some \<lparr>am_addr = p + SIZEOF_MM_NODE, am_head = fst x, am_data = []\<rparr>\<rparr>\<rparr>)"
          "worker_holds m P p" "SIZEOF_MM_NODE + SIZEOF_ACM_MSG + length (snd x) \<le> msize m p"
          "length ys \<le> length as" "distinct as" "\<forall>a\<in>set as. a \<noteq> NULL \<and> cells m a = None"
        using read_head_done_ok [OF _ _ ok, of ?s1 ys] by blast
      let ?s2 = "?s1\<lparr>rd_mem := m, rd_pool := P, rd_malloc := as,
          rd_channel := (rd_channel ?s1)\<lparr>ac_is_head := 0, ac_data_read_index := 0,
            ac_recv_msg := Some \<lparr>am_addr = p + SIZEOF_MM_NODE, am_head = fst x, am_data = []\<rparr>\<rparr>\<rparr>"
      have dat: "in_data ?s2 xs" using d(2-6) x(1,3) ok by (auto simp: in_data_def supply_ok_def msg_ok_def)
      then have "reader_rel res req ?s2 xs" using rel inv clean(1) len(1) by (auto simp: reader_rel_def reader_inv_def)
      moreover have "read_head s = Some (?s2, True)" using rd False d(1) by simp
      ultimately show ?thesis using dat wl by auto
    qed
  qed
qed

section \<open>The round, the loop and the thread\<close>

lemma read_round_advances:
  assumes "reader_rel res req s xs"
  shows "\<exists>r. read_round s = Some r \<and> advances res req s r"
proof -
  from assms consider "in_head s xs" | "in_data s xs" by (auto simp: reader_rel_def reader_inv_def)
  then show ?thesis
  proof cases
    case 1
    then have head1: "ac_is_head (rd_channel s) = 1" by (simp add: in_head_def Let_def)
    obtain s' go xs' where h: "read_head s = Some (s', go)" "reader_rel res req s' xs'" "go \<longrightarrow> in_data s' xs'"
        "rx_weight (rd_rx s') \<le> rx_weight (rd_rx s)" "rd_rx s \<noteq> [] \<or> go \<longrightarrow> rx_weight (rd_rx s') < rx_weight (rd_rx s)"
      using read_head_advances [OF assms 1] by blast
    show ?thesis
    proof (cases go)
      case True
      with h(2,3) obtain r where "read_data s' = Some r" "advances res req s' r" using read_data_advances by blast
      then show ?thesis using True h(1,5) head1 by (auto simp: read_round_def advances_def)
    next
      case False
      then show ?thesis using h head1 by (auto simp: read_round_def advances_def)
    qed
  next
    case 2
    then have "ac_is_head (rd_channel s) \<noteq> 1" by (auto simp: in_data_def Let_def)
    then show ?thesis using read_data_advances [OF assms 2] by (simp add: read_round_def)
  qed
qed

lemma read_loop_total:
  assumes "reader_rel res req s xs"
  shows "\<exists>s' xs'. read_loop s = Some s' \<and> reader_rel res req s' xs' \<and>
    (rd_rx s \<noteq> [] \<longrightarrow> rx_weight (rd_rx s') < rx_weight (rd_rx s)) \<and> rx_weight (rd_rx s') \<le> rx_weight (rd_rx s)"
  using assms
proof (induction "rx_weight (rd_rx s)" arbitrary: s xs rule: less_induct)
  case less
  obtain s1 go xs1 where r: "read_round s = Some (s1, go)" "reader_rel res req s1 xs1" "rx_weight (rd_rx s1) \<le> rx_weight (rd_rx s)"
      "rd_rx s \<noteq> [] \<or> go \<longrightarrow> rx_weight (rd_rx s1) < rx_weight (rd_rx s)"
    using read_round_advances [OF less.prems] by (auto simp: advances_def)
  show ?case
  proof (cases go)
    case True
    obtain s' xs' where "read_loop s1 = Some s'" "reader_rel res req s' xs'" "rx_weight (rd_rx s') \<le> rx_weight (rd_rx s1)"
      using less.hyps [OF _ r(2)] r(4) True by blast
    then show ?thesis using True r(1,4) by (auto simp: read_loop.simps [of s])
  next
    case False
    then show ?thesis using r by (auto simp: read_loop.simps [of s])
  qed
qed

lemma reader_rel_unlock:
  "reader_rel res req (s\<lparr>rd_channel := (rd_channel s)\<lparr>ac_reading_locked := b, ac_read_armed := c\<rparr>\<rparr>) xs = reader_rel res req s xs"
  by (simp add: reader_rel_def reader_inv_def in_head_def in_data_def supply_ok_def Let_def)

text \<open>
  The event loop starts the thread again, with \<open>reading_spinlock\<close> taken, while the socket has
  something to read; \<open>rcs\<close> are the results of the calls of \<open>epoll_ctl\<close>.
\<close>

fun read_runs :: "int list \<Rightarrow> acm_reader \<Rightarrow> acm_reader option" where
  "read_runs [] s = Some s"
| "read_runs (rc # rcs) s = do {
     s1 \<leftarrow> acm_io_read_thread rc s;
     read_runs rcs s1
   }"

lemma read_thread_total:
  assumes "reader_rel res req s xs"
  shows "\<exists>s' xs'. acm_io_read_thread rc s = Some s' \<and> reader_rel res req s' xs' \<and>
    (rd_rx s \<noteq> [] \<longrightarrow> rx_weight (rd_rx s') < rx_weight (rd_rx s)) \<and> rx_weight (rd_rx s') \<le> rx_weight (rd_rx s)"
proof -
  obtain s1 xs1 where r: "read_loop s = Some s1" "reader_rel res req s1 xs1"
      "rd_rx s \<noteq> [] \<longrightarrow> rx_weight (rd_rx s1) < rx_weight (rd_rx s)" "rx_weight (rd_rx s1) \<le> rx_weight (rd_rx s)"
    using read_loop_total [OF assms] by blast
  have "\<exists>c. fst (acm_epoll_mod_read rc ((rd_channel s1)\<lparr>ac_reading_locked := False\<rparr>)) =
      (rd_channel s1)\<lparr>ac_reading_locked := False, ac_read_armed := c\<rparr>"
    by (cases "rc = - 1") (auto simp: acm_epoll_mod_read_def intro: exI [of _ "ac_read_armed (rd_channel s1)"])
  then obtain c where "acm_io_read_thread rc s =
      Some (s1\<lparr>rd_channel := (rd_channel s1)\<lparr>ac_reading_locked := False, ac_read_armed := c\<rparr>\<rparr>)"
    using r(1) by (auto simp: acm_io_read_thread_def)
  moreover have "reader_rel res req (s1\<lparr>rd_channel := (rd_channel s1)\<lparr>ac_reading_locked := False, ac_read_armed := c\<rparr>\<rparr>) xs1"
    using r(2) by (simp only: reader_rel_unlock)
  ultimately show ?thesis
    using r(3,4)
    by (intro exI [of _ "s1\<lparr>rd_channel := (rd_channel s1)\<lparr>ac_reading_locked := False, ac_read_armed := c\<rparr>\<rparr>"] exI [of _ xs1] conjI)
      simp_all
qed

lemma read_runs_total:
  assumes "reader_rel res req s xs" and "rx_weight (rd_rx s) \<le> length rcs"
  shows "\<exists>s'. read_runs rcs s = Some s' \<and> reader_rel res req s' [] \<and> rd_rx s' = []"
  using assms
proof (induction rcs arbitrary: s xs)
  case Nil
  then have "rd_rx s = []" by (cases "rd_rx s" rule: rx_weight.cases) auto
  then have "xs = []" using Nil(1) rx_empty_done by (auto simp: reader_rel_def)
  with Nil \<open>rd_rx s = []\<close> show ?case by auto
next
  case (Cons rc rcs)
  obtain s' xs' where r: "acm_io_read_thread rc s = Some s'" "reader_rel res req s' xs'"
      "rd_rx s \<noteq> [] \<longrightarrow> rx_weight (rd_rx s') < rx_weight (rd_rx s)" "rx_weight (rd_rx s') \<le> rx_weight (rd_rx s)"
    using read_thread_total [OF Cons.prems(1)] by blast
  have "rx_weight (rd_rx s') \<le> length rcs"
    using r(3,4) Cons.prems(2) by (cases "rd_rx s = []") auto
  with Cons.IH [OF r(2)] r(1) show ?case by auto
qed

end
