(* ===== verification/Acm_Requests.thy ===== *)
theory Acm_Requests
  imports Acm_Write Acm_Read
begin

text \<open>
  Numbering requests and finding who waits for a response. A request takes the next number and the
  entry of the table that belongs to it; the response with that number is handed to the listener
  of this entry. The table is the map from the numbers of the waiting requests to their listeners
  as long as no two of them share an entry.
\<close>

section \<open>Request numbers\<close>

lemma sint_ucast: "sint (ucast (w :: u64) :: s32) = signed_take_bit 31 (uint w)"
  using signed_ucast_eq [of w, where ?'a = int and ?'c = 32] by simp

lemma uint_unat: "uint w = int (unat w)"
  by simp

lemma rid_small:
  assumes "unat (w :: u64) < 2 ^ 31"
  shows "(scast (ucast w :: s32) :: u64) = w" and "sint w = int (unat w)"
proof -
  define n where "n = unat w"
  define k where "k = int n"
  have "uint w = k" by (simp add: n_def k_def)
  moreover have "n < 2 ^ 31" using assms by (simp add: n_def)
  ultimately have k: "uint w = k" "- (2 ^ 31) \<le> k" "k < 2 ^ 31" "- (2 ^ 63) \<le> k" "k < 2 ^ 63" by (simp_all add: k_def)
  have "sint (ucast w :: s32) = uint w" unfolding sint_ucast k(1) using k(2,3) by (rule signed_take_bit_int_eq_self)
  then show "(scast (ucast w :: s32) :: u64) = w" by (simp add: scast_eq)
  have "sint w = signed_take_bit 63 (uint w)" by (simp add: sint_uint)
  also have "\<dots> = k" unfolding k(1) using k(4,5) by (rule signed_take_bit_int_eq_self)
  finally show "sint w = int (unat w)" by (simp add: k_def n_def)
qed

text \<open>After \<open>2 ^ 31\<close> requests the numbers in the frames are negative.\<close>

lemma rid_large:
  assumes "2 ^ 31 \<le> unat (w :: u64)" and "unat w < 2 ^ 32"
  shows "sint (scast (ucast w :: s32) :: u64) = int (unat w) - 2 ^ 32"
proof -
  define n where "n = unat w"
  define k where "k = int n"
  have "uint w = k" by (simp add: n_def k_def)
  moreover have "n < 2 ^ 32" "2 ^ 31 \<le> n" using assms by (simp_all add: n_def)
  ultimately have k: "uint w = k" "2 ^ 31 \<le> k" "k < 2 ^ 32" by (simp_all add: k_def)
  have "(k + 2 ^ 31) mod 2 ^ 32 = (k + 2 ^ 31 - 2 ^ 32) mod 2 ^ 32" by (rule mod_pos_geq) (use k in auto)
  also have "\<dots> = k - 2 ^ 31" using k(2,3) by (subst mod_pos_pos_trivial) auto
  finally have "signed_take_bit 31 k = k - 2 ^ 32"
    by (simp add: signed_take_bit_eq_take_bit_shift take_bit_eq_mod)
  then have s: "sint (ucast w :: s32) = k - 2 ^ 32" by (simp add: sint_ucast k(1))
  have "sint (scast (ucast w :: s32) :: u64) = sint (ucast w :: s32)" by (rule sint_up_scast) (simp add: is_up)
  then show ?thesis using s by (simp add: k_def n_def)
qed

section \<open>The table\<close>

abbreviation map_size :: "acm_handle \<Rightarrow> nat" where
  "map_size h \<equiv> nat (sint (ah_max_hold_req_num h))"

definition table_ok :: "acm_handle \<Rightarrow> bool" where
  "table_ok h \<longleftrightarrow> 0 < map_size h \<and> length (ah_request_map h) = map_size h \<and>
     (\<forall>k < map_size h. me_req_id (ah_request_map h ! k) \<noteq> 0 \<longrightarrow>
        unat (me_req_id (ah_request_map h ! k)) mod map_size h = k \<and> me_listening (ah_request_map h ! k) \<noteq> NULL)"

text \<open>The numbers of the requests that wait for a response.\<close>

definition waiting :: "acm_handle \<Rightarrow> nat set" where
  "waiting h = {unat (me_req_id e) | e. e \<in> set (ah_request_map h) \<and> me_req_id e \<noteq> 0}"

lemma entry_free:
  assumes "table_ok h" and "\<forall>w\<in>waiting h. w < rid \<and> rid < w + map_size h"
  shows "me_req_id (ah_request_map h ! (rid mod map_size h)) = 0"
proof (rule ccontr)
  let ?k = "rid mod map_size h" and ?e = "ah_request_map h ! (rid mod map_size h)"
  assume ne: "me_req_id ?e \<noteq> 0"
  have k: "?k < map_size h" "length (ah_request_map h) = map_size h" using assms(1) by (auto simp: table_ok_def)
  then have "unat (me_req_id ?e) \<in> waiting h" using ne by (auto simp: waiting_def)
  then have "unat (me_req_id ?e) mod map_size h \<noteq> rid mod map_size h" using assms(2) by (intro mod_neq_within) auto
  moreover have "unat (me_req_id ?e) mod map_size h = ?k" using assms(1) k(1) ne unfolding table_ok_def by blast
  ultimately show False by simp
qed

lemma dispatch_slot:
  assumes "0 < map_size h" and "length (ah_request_map h) = map_size h" and "unat rid < 2 ^ 31"
    and "mh_req_id mh = rid" and "e = ah_request_map h ! (unat rid mod map_size h)"
  shows "table_dispatch h (mh, data) = (if me_listening e = NULL then None
     else Some (h\<lparr>ah_request_map := (ah_request_map h)[unat rid mod map_size h := e\<lparr>me_listening := NULL, me_req_id := 0\<rparr>]\<rparr>,
       (me_listening e, me_arg e, data)))"
proof -
  have s: "sint rid = int (unat rid)" using rid_small(2) assms(3) by blast
  have "int (unat rid) mod sint (ah_max_hold_req_num h) = int (unat rid mod map_size h)"
    using assms(1) by (simp add: zmod_int)
  then have "c_rem (sint (mh_req_id mh)) (sint (ah_max_hold_req_num h)) = Some (int (unat rid mod map_size h))"
    using assms(1,4) s by (simp add: c_rem_pos)
  then show ?thesis using assms(1,2,5) by (simp add: table_dispatch_def)
qed

lemma hold_slot:
  assumes "0 < map_size h" and "length (ah_request_map h) = map_size h"
  shows "acm_hold_request h rid l a =
    (if me_req_id (ah_request_map h ! (unat rid mod map_size h)) \<noteq> 0 then Some (h, - 2)
     else Some (h\<lparr>ah_request_map := (ah_request_map h)[unat rid mod map_size h := \<lparr>me_req_id = rid, me_listening = l, me_arg = a\<rparr>]\<rparr>, 1))"
  using assms by (simp add: acm_hold_request_def ring_slot_pos)

section \<open>The whole request\<close>

definition request_task :: "u64 \<Rightarrow> u8 list \<Rightarrow> s32 \<Rightarrow> acm_write_task" where
  "request_task rid buf sz = \<lparr>wt_write_index = 0, wt_head = \<lparr>mh_req_id = rid, mh_data_size = sz\<rparr>, wt_data = buf\<rparr>"

lemma request_queues:
  assumes "queue_wf (ah_max_write_queue_len h) ch" and "length (queue_of (ah_max_write_queue_len h) ch) < nat (sint (ah_max_write_queue_len h))"
    and "unat (ac_write_queue_tail ch) + 1 < 2 ^ 64" and "unat (ah_request_id h) + 1 < 2 ^ 31"
    and "acm_hold_request (h\<lparr>ah_request_id := ah_request_id h + 1\<rparr>) (ah_request_id h + 1) l a = Some (h1, r)"
    and "ah_max_write_queue_len h1 = ah_max_write_queue_len h"
  shows "\<exists>ch'. acm_request h (Some ch) buf sz l a 0 = Some (h1, Some ch', 1) \<and>
    queue_of (ah_max_write_queue_len h) ch' = queue_of (ah_max_write_queue_len h) ch @ [request_task (ah_request_id h + 1) buf sz]"
proof -
  let ?t = "request_task (ah_request_id h + 1) buf sz" and ?q = "ah_max_write_queue_len h"
  have "unat (ah_request_id h + 1) = unat (ah_request_id h) + 1" using assms(4) by (simp add: unat_word_ariths)
  then have rid: "(scast (ucast (ah_request_id h + 1) :: s32) :: u64) = ah_request_id h + 1" using rid_small(1) assms(4) by metis
  have ok: "wq.ok ?q ch" using assms(1) by (simp add: queue_contents)
  obtain ch1 where "map_option fst (acm_enqueue ?q ch ?t) = Some ch1" "wq.contents ?q ch1 = wq.contents ?q ch @ [?t]"
    using wq.put_contents [OF ok _ assms(3), of ?t] assms(2) by (auto simp: queue_contents)
  then obtain b where enq: "acm_enqueue ?q ch ?t = Some (ch1, b)" "queue_of ?q ch1 = queue_of ?q ch @ [?t]"
    by (auto simp: queue_contents)
  have "acm_request h (Some ch) buf sz l a 0 =
      Some (h1, Some (if b then ch1\<lparr>ac_consume_locked := False, ac_write_armed := True\<rparr> else ch1), 1)"
    using assms(5,6) enq(1) rid by (simp add: acm_request_def request_task_def acm_epoll_mod_write_def Let_def)
  then show ?thesis using enq(2) by auto
qed

lemma request_routed:
  assumes "table_ok h" and "rid = ah_request_id h + 1" and "unat (ah_request_id h) + 1 < 2 ^ 31"
    and "\<forall>w\<in>waiting h. w < unat rid \<and> unat rid < w + map_size h" and "listening \<noteq> NULL"
    and "queue_wf (ah_max_write_queue_len h) ch" and "length (queue_of (ah_max_write_queue_len h) ch) < nat (sint (ah_max_write_queue_len h))"
    and "unat (ac_write_queue_tail ch) + 1 < 2 ^ 64"
  shows "\<exists>h' ch' h''. acm_request h (Some ch) buf sz listening arg 0 = Some (h', Some ch', 1) \<and> table_ok h' \<and>
    queue_of (ah_max_write_queue_len h) ch' = queue_of (ah_max_write_queue_len h) ch @ [request_task rid buf sz] \<and>
    table_dispatch h' (\<lparr>mh_req_id = rid, mh_data_size = n\<rparr>, data) = Some (h'', (listening, arg, data))"
proof -
  let ?h = "h\<lparr>ah_request_id := rid\<rparr>" and ?k = "unat rid mod map_size h"
  have tab: "0 < map_size h" "length (ah_request_map h) = map_size h" using assms(1) by (auto simp: table_ok_def)
  have rid: "unat rid = unat (ah_request_id h) + 1" "unat rid < 2 ^ 31" "rid \<noteq> 0"
    using assms(2,3) by (simp_all add: unat_word_ariths unat_eq_zero [symmetric])
  let ?h1 = "?h\<lparr>ah_request_map := (ah_request_map h)[?k := \<lparr>me_req_id = rid, me_listening = listening, me_arg = arg\<rparr>]\<rparr>"
  have hold: "acm_hold_request ?h rid listening arg = Some (?h1, 1)"
    using hold_slot [of ?h rid] tab entry_free [OF assms(1,4)] by simp
  obtain ch' where ch': "acm_request h (Some ch) buf sz listening arg 0 = Some (?h1, Some ch', 1)"
      "queue_of (ah_max_write_queue_len h) ch' = queue_of (ah_max_write_queue_len h) ch @ [request_task rid buf sz]"
    using request_queues [OF assms(6-8,3) hold [unfolded assms(2)], of buf sz] assms(2) by auto
  have "table_ok ?h1" using assms(1,5) tab by (auto simp: table_ok_def nth_list_update)
  moreover have "table_dispatch ?h1 (\<lparr>mh_req_id = rid, mh_data_size = n\<rparr>, data) =
      Some (?h1\<lparr>ah_request_map := (ah_request_map ?h1)[?k := (ah_request_map ?h1 ! ?k)\<lparr>me_listening := NULL, me_req_id := 0\<rparr>]\<rparr>, (listening, arg, data))"
    using dispatch_slot [of ?h1 rid "\<lparr>mh_req_id = rid, mh_data_size = n\<rparr>" _ data] tab rid(2) assms(5) by simp
  ultimately show ?thesis using ch' by blast
qed

text \<open>The number of open requests is counted by the service discovery, not here.\<close>

lemma request_keeps_num: "acm_request h (Some ch) buf sz l a rc = Some (h', Some ch', r) \<Longrightarrow> ac_request_num ch' = ac_request_num ch"
  by (auto simp: acm_request_def acm_enqueue_def acm_epoll_mod_write_def Let_def split: bind_splits if_splits)

end
