(* ===== verification/Tdpool_Correct.thy ===== *)
theory Tdpool_Correct
  imports Tdpool
begin

text \<open>
  The thread pool is a first-in first-out queue of calls when the operations run one after the
  other (an interpretation of \<open>ring_queue\<close>), and when callers and workers interleave, every
  submitted call is started exactly once as long as the ring has room. The ring's own test for a
  full queue never holds, so nothing in the code keeps to that bound.
\<close>

section \<open>The call queue as a ring queue\<close>

abbreviation call_period :: "tdpl_s \<Rightarrow> nat" where
  "call_period s \<equiv> nat (sint (tp_call_queue_period s))"

lemma enqueue_room:
  assumes "0 < call_period s" and "length (tp_call_queue s) = call_period s" and "tp_call_queue_head s \<noteq> tp_call_queue_tail s"
  shows "tdpl_enqueue s c = Some (s\<lparr>tp_call_queue := (tp_call_queue s)[unat (tp_call_queue_tail s) mod call_period s := c],
    tp_call_queue_tail := tp_call_queue_tail s + 1\<rparr>, 1)"
  using assms by (simp add: tdpl_enqueue_def ring_slot_pos)

interpretation cq: ring_queue tp_call_queue call_period tp_call_queue_head tp_call_queue_tail
  "\<lambda>s c. map_option fst (tdpl_enqueue s c)" "\<lambda>s. fst (worker_claim s)"
proof
  fix s :: tdpl_s and c :: tdpl_call_node
  assume "0 < call_period s" "call_period s < 2 ^ 31" "length (tp_call_queue s) = call_period s"
    "tp_call_queue_head s \<noteq> tp_call_queue_tail s"
  then show "\<exists>s'. map_option fst (tdpl_enqueue s c) = Some s' \<and>
      tp_call_queue s' = (tp_call_queue s)[unat (tp_call_queue_tail s) mod call_period s := c] \<and>
      call_period s' = call_period s \<and> tp_call_queue_head s' = tp_call_queue_head s \<and>
      tp_call_queue_tail s' = tp_call_queue_tail s + 1"
    by (simp add: enqueue_room)
qed (simp_all add: worker_claim_def)

text \<open>The calls in the queue, oldest first, and the pool between two operations.\<close>

definition tdpl_pending :: "tdpl_s \<Rightarrow> tdpl_call_node list" where
  "tdpl_pending s = ring_contents (tp_call_queue s) (call_period s) (unat (tp_call_queue_head s)) (unat (tp_call_queue_tail s))"

definition tdpl_ok :: "tdpl_s \<Rightarrow> bool" where
  "tdpl_ok s \<longleftrightarrow> ring_wf (tp_call_queue s) (call_period s) (unat (tp_call_queue_head s)) (unat (tp_call_queue_tail s)) \<and>
     tp_call_wait_n s = length (tdpl_pending s)"

lemma pending_contents: "tdpl_pending s = cq.contents s"
  by (simp add: tdpl_pending_def cq.contents_def)

lemma ok_ring: "tdpl_ok s \<longleftrightarrow> cq.ok s \<and> tp_call_wait_n s = length (cq.contents s)"
  using sint_pos_less [of "tp_call_queue_period s"] by (auto simp: tdpl_ok_def cq.ok_def pending_contents)

lemma enqueue_code: "tp_call_queue_head s \<noteq> tp_call_queue_tail s \<Longrightarrow> map_option fst (tdpl_enqueue s c) = Some s' \<Longrightarrow>
    tdpl_enqueue s c = Some (s', 1) \<and> tp_call_wait_n s' = tp_call_wait_n s"
  by (auto simp: tdpl_enqueue_def split: bind_splits)

lemma post_ring [simp]: "cq.contents (tdpl_post s) = cq.contents s" "cq.ok (tdpl_post s) = cq.ok s"
  "tp_call_wait_n (tdpl_post s) = Suc (tp_call_wait_n s)"
  by (simp_all add: tdpl_post_def cq.contents_def cq.ok_def)

lemma sem_ring [simp]: "cq.contents (s\<lparr>tp_call_wait_n := k\<rparr>) = cq.contents s" "cq.ok (s\<lparr>tp_call_wait_n := k\<rparr>) = cq.ok s"
  by (simp_all add: cq.contents_def cq.ok_def)

lemma call_func_enqueues:
  assumes "cq.ok s" and "f \<noteq> NULL" and "map_option fst (tdpl_enqueue s \<lparr>cn_arg = a, cn_call_func = f\<rparr>) = Some s'"
  shows "tdpl_call_func s f a = Some (tdpl_post s', 1)" and "tp_call_wait_n s' = tp_call_wait_n s"
  using assms(2) enqueue_code [OF cq.okD(4) [OF assms(1)] assms(3)] by (auto simp: tdpl_call_func_def)

text \<open>A pool whose queue has room for \<open>n\<close> more calls, and what a call does to it.\<close>

definition calls_room :: "nat \<Rightarrow> tdpl_s \<Rightarrow> bool" where
  "calls_room n s \<longleftrightarrow> tdpl_ok s \<and> length (tdpl_pending s) + n \<le> call_period s \<and> unat (tp_call_queue_tail s) + n < 2 ^ 64"

lemma call_func_room:
  assumes "calls_room (Suc n) s" and "f \<noteq> NULL"
  shows "\<exists>s'. tdpl_call_func s f a = Some (s', 1) \<and> calls_room n s' \<and>
    tdpl_pending s' = tdpl_pending s @ [\<lparr>cn_arg = a, cn_call_func = f\<rparr>]"
proof -
  let ?c = "\<lparr>cn_arg = a, cn_call_func = f\<rparr>"
  have ok: "cq.ok s" "length (cq.contents s) < call_period s" "unat (tp_call_queue_tail s) + 1 < 2 ^ 64" "tdpl_ok s"
    using assms(1) by (auto simp: ok_ring pending_contents calls_room_def)
  obtain s1 where s1: "map_option fst (tdpl_enqueue s ?c) = Some s1" "cq.ok s1" "cq.contents s1 = cq.contents s @ [?c]"
      "call_period s1 = call_period s" "tp_call_queue_tail s1 = tp_call_queue_tail s + 1"
    using cq.put_contents [OF ok(1-3), of ?c] by blast
  note cf = call_func_enqueues [OF ok(1) assms(2) s1(1)]
  have ok': "tdpl_ok (tdpl_post s1)" and p: "tdpl_pending (tdpl_post s1) = tdpl_pending s @ [?c]"
    using s1 cf(2) ok(4) by (simp_all add: ok_ring pending_contents)
  have "call_period (tdpl_post s1) = call_period s" "unat (tp_call_queue_tail (tdpl_post s1)) = Suc (unat (tp_call_queue_tail s))"
    using s1(4,5) unat_Suc [OF ok(3)] by (simp_all add: tdpl_post_def)
  then have "calls_room n (tdpl_post s1)" using ok' p assms(1) unfolding calls_room_def by simp
  then show ?thesis using cf(1) p by blast
qed

lemma take_claims:
  assumes "tdpl_ok s" and "tdpl_pending s = c # cs"
  shows "\<exists>s'. worker_take s = Some (s', c) \<and> tdpl_ok s' \<and> tdpl_pending s' = cs"
proof -
  let ?s = "s\<lparr>tp_call_wait_n := tp_call_wait_n s - 1\<rparr>"
  have ok: "cq.ok ?s" "cq.contents ?s = c # cs" "tp_call_wait_n s = Suc (length cs)"
    using assms by (auto simp: ok_ring pending_contents)
  then have "0 < call_period s" "length (tp_call_queue s) = call_period s"
    using cq.okD(1) [OF ok(1)] by (auto simp: ring_wf_def)
  then have "worker_take s = Some (fst (worker_claim ?s), c)"
    using cq.pop_contents(3) [OF ok(1,2)] ok(3)
    by (simp add: worker_take_def worker_read_def worker_claim_def ring_slot_pos)
  then show ?thesis
    using cq.pop_contents(1,2) [OF ok(1,2)] ok(3) by (simp add: ok_ring pending_contents worker_claim_def)
qed

section \<open>Creation\<close>

lemma sint_Suc: "sint (x :: s32) \<noteq> 2 ^ 31 - 1 \<Longrightarrow> sint (x + 1) = sint x + 1"
proof -
  assume "sint x \<noteq> 2 ^ 31 - 1"
  then have "- (2 ^ 31) \<le> sint x + 1" "sint x + 1 < 2 ^ 31"
    using sint_less [of x] sint_greater_eq [of x] by simp_all
  then have "signed_take_bit 31 (sint x + 1) = sint x + 1" by (simp add: signed_take_bit_int_eq_self)
  then show ?thesis by (simp add: sint_word_ariths)
qed

lemma create_workers_frame:
  "create_workers rc is s = Some (s', b) \<Longrightarrow> tp_call_queue s' = tp_call_queue s \<and>
    tp_call_queue_period s' = tp_call_queue_period s \<and> tp_call_queue_head s' = tp_call_queue_head s \<and>
    tp_call_queue_tail s' = tp_call_queue_tail s \<and> tp_call_wait_n s' = tp_call_wait_n s"
  by (induction rc "is" s rule: create_workers.induct) (auto simp: Let_def split: bind_splits if_splits)

lemma create_workers_all:
  assumes "0 < sint (tp_avali_queue_period s)" and "length (tp_avali_queue s) = nat (sint (tp_avali_queue_period s))"
    and "\<forall>i\<in>set is. rc i \<noteq> - 1"
  shows "\<exists>s'. create_workers rc is s = Some (s', True) \<and>
    tp_ready_n s' = tp_ready_n s + length (filter (\<lambda>i. rc i = 0) is)"
  using assms
proof (induction rc "is" s rule: create_workers.induct)
  case (2 rc i "is" s)
  then show ?case by (auto simp: ring_slot_pos Let_def)
qed simp

lemma create_pending:
  assumes "tdpl_create e tn mx = Some (Pool p)" and "te_call e \<noteq> NULL" and "0 \<le> sint mx"
  shows "tdpl_ok p" and "tdpl_pending p = []" and "unat (tp_call_queue_tail p) = 1" and "tp_call_wait_n p = 0"
    and "tp_call_queue_period p = mx + 1" and "unat (tp_call_queue_head p) = 0"
proof -
  obtain s0 s b where w: "create_workers (te_rc e) [0..<nat (sint tn)] s0 = Some (s, b)" "p = s\<lparr>tp_ready_n := tp_ready_n s - nat (sint tn)\<rparr>"
      "tp_call_queue s0 = map (te_raw_call e) [0..<nat (sint (mx + 1))]" "tp_call_queue_period s0 = mx + 1"
      "tp_call_queue_head s0 = 0" "tp_call_queue_tail s0 = 1" "tp_call_wait_n s0 = 0" "sint mx \<noteq> 2 ^ 31 - 1"
    using assms(1,2) unfolding tdpl_create_def by (auto split: if_splits bind_splits)
  note f = create_workers_frame [OF w(1)]
  have "0 < sint (mx + 1)" using sint_Suc [OF w(8)] assms(3) by simp
  then show "tdpl_ok p" "tdpl_pending p = []" "unat (tp_call_queue_tail p) = 1" "tp_call_wait_n p = 0"
    "tp_call_queue_period p = mx + 1" "unat (tp_call_queue_head p) = 0"
    using f w by (simp_all add: tdpl_ok_def ring_wf_def tdpl_pending_def ring_contents_def)
qed

text \<open>The two outcomes of a creation whose allocations succeed.\<close>

definition env_ok :: "tdpl_env \<Rightarrow> bool" where
  "env_ok e \<longleftrightarrow> te_s e \<noteq> NULL \<and> te_handles e \<noteq> NULL \<and> te_avali e \<noteq> NULL \<and> te_call e \<noteq> NULL"

lemma create_ready:
  assumes "env_ok e" and "0 \<le> sint tn" and "sint tn < 2 ^ 31 - 1" and "0 \<le> sint mx" and "sint mx < 2 ^ 31 - 1"
    and "\<forall>i < nat (sint tn). 0 \<le> te_rc e i"
  shows "\<exists>s. tdpl_create e tn mx =
    (if \<forall>i < nat (sint tn). te_rc e i = 0 then Some (Pool s) else Some Pool_blocks)"
proof -
  let ?n = "nat (sint tn)" and ?all = "\<forall>i < nat (sint tn). te_rc e i = 0"
  let ?init = "\<lparr>tp_thread_num = tn, tp_max_wait_n = mx,
           tp_avali_queue = map (te_raw_avali e) [0..<nat (sint (tn + 1))],
           tp_call_queue = map (te_raw_call e) [0..<nat (sint (mx + 1))],
           tp_call_queue_period = mx + 1, tp_call_queue_head = 0, tp_call_queue_tail = 1,
           tp_avali_queue_period = tn + 1, tp_avali_queue_head = 0, tp_avali_queue_tail = 1,
           tp_ready_n = 0, tp_call_wait_n = 0\<rparr> :: tdpl_s"
  obtain s where s: "create_workers (te_rc e) [0..<?n] ?init = Some (s, True)" "tp_ready_n s = length (filter (\<lambda>i. te_rc e i = 0) [0..<?n])"
    using create_workers_all [of ?init "[0..<?n]" "te_rc e"] sint_Suc [of tn] assms(2,3,6) by force
  then have cr: "tdpl_create e tn mx =
      (if tp_ready_n s < ?n then Some Pool_blocks else Some (Pool (s\<lparr>tp_ready_n := tp_ready_n s - ?n\<rparr>)))"
    using assms(1,3,5) by (simp add: tdpl_create_def env_ok_def)
  have "length (filter (\<lambda>i. te_rc e i = 0) [0..<?n]) < ?n \<longleftrightarrow> \<not> ?all"
  proof (cases ?all)
    case False
    then obtain i where "i \<in> set [0..<?n]" "te_rc e i \<noteq> 0" by auto
    with False show ?thesis using length_filter_less [of i "[0..<?n]" "\<lambda>i. te_rc e i = 0"] by simp
  qed simp
  then show ?thesis using cr s(2) by auto
qed

lemma create_returns:
  assumes "env_ok e" and "0 \<le> sint tn" and "sint tn < 2 ^ 31 - 1" and "0 \<le> sint mx" and "sint mx < 2 ^ 31 - 1"
    and "\<forall>i < nat (sint tn). te_rc e i = 0"
  shows "\<exists>p. tdpl_create e tn mx = Some (Pool p) \<and> tdpl_pending p = [] \<and> calls_room (nat (sint mx) + 1) p \<and>
    call_period p = nat (sint mx) + 1"
proof -
  have "\<forall>i < nat (sint tn). 0 \<le> te_rc e i" using assms(6) by simp
  then obtain p where p: "tdpl_create e tn mx = Some (Pool p)" using create_ready [OF assms(1-5)] assms(6) by auto
  have "te_call e \<noteq> NULL" using assms(1) by (simp add: env_ok_def)
  note c = create_pending [OF p this assms(4)]
  have "call_period p = nat (sint mx) + 1" using c(5) sint_Suc [of mx] assms(4,5) by (auto simp: nat_add_distrib)
  moreover have "nat (sint mx) + 2 < 2 ^ 64" using assms(4,5) by simp
  ultimately show ?thesis using p c(1-3) by (simp add: calls_room_def)
qed

section \<open>Interleaved workers and callers\<close>

definition granted :: "nat \<Rightarrow> (nat \<Rightarrow> worker_pc) \<Rightarrow> nat" where
  "granted n f = (\<Sum>w<n. if f w = W_granted then 1 else 0)"

definition held :: "nat \<Rightarrow> tdpl_sys \<Rightarrow> nat \<Rightarrow> bool" where
  "held n s i \<longleftrightarrow> (\<exists>w<n. pc_index (ts_worker s w) = Some i)"

text \<open>An index is unread when its call is in the queue or claimed and not read completely.\<close>

definition unread :: "nat \<Rightarrow> tdpl_sys \<Rightarrow> nat \<Rightarrow> bool" where
  "unread n s i \<longleftrightarrow> unat (tp_call_queue_head (ts_pool s)) < i \<and> i < unat (tp_call_queue_tail (ts_pool s)) \<or> held n s i"

text \<open>
  The invariant: the indices below the tail are those of the submitted calls; the calls beyond
  the head are those announced by the semaphore, about to be announced, or granted to a worker;
  the slot of an unread index still holds its call; each index up to the head is held by one
  worker or started, not both.
\<close>

definition sem_inv :: "nat \<Rightarrow> tdpl_sys \<Rightarrow> bool" where
  "sem_inv n s \<longleftrightarrow> 0 < call_period (ts_pool s) \<and> length (tp_call_queue (ts_pool s)) = call_period (ts_pool s) \<and>
     unat (tp_call_queue_tail (ts_pool s)) = Suc (length (ts_submitted s)) \<and>
     unat (tp_call_queue_head (ts_pool s)) + tp_call_wait_n (ts_pool s) + ts_posting s + granted n (ts_worker s) =
       length (ts_submitted s)"

definition slot_inv :: "nat \<Rightarrow> tdpl_sys \<Rightarrow> bool" where
  "slot_inv n s \<longleftrightarrow> (\<forall>i. unread n s i \<longrightarrow>
     tp_call_queue (ts_pool s) ! (i mod call_period (ts_pool s)) = ts_submitted s ! (i - 1) \<and>
     unat (tp_call_queue_tail (ts_pool s)) \<le> i + call_period (ts_pool s))"

definition held_inv :: "nat \<Rightarrow> tdpl_sys \<Rightarrow> bool" where
  "held_inv n s \<longleftrightarrow> (\<forall>w<n. \<forall>i. pc_index (ts_worker s w) = Some i \<longrightarrow>
       1 \<le> i \<and> i \<le> unat (tp_call_queue_head (ts_pool s)) \<and>
       (\<forall>v<n. pc_index (ts_worker s v) = Some i \<longrightarrow> v = w) \<and>
       (\<forall>j f. ts_worker s w = W_func j f \<longrightarrow> f = cn_call_func (ts_submitted s ! (i - 1))))"

definition started_inv :: "nat \<Rightarrow> tdpl_sys \<Rightarrow> bool" where
  "started_inv n s \<longleftrightarrow> distinct (map fst (ts_started s)) \<and>
     (\<forall>(i, d)\<in>set (ts_started s). 1 \<le> i \<and> i \<le> unat (tp_call_queue_head (ts_pool s)) \<and>
        d = ts_submitted s ! (i - 1) \<and> \<not> held n s i) \<and>
     (\<forall>i. 1 \<le> i \<and> i \<le> unat (tp_call_queue_head (ts_pool s)) \<longrightarrow> i \<in> fst ` set (ts_started s) \<or> held n s i)"

lemmas tdpl_invs = sem_inv_def slot_inv_def held_inv_def started_inv_def

lemma held_invD:
  assumes "held_inv n s" and "w < n" and "pc_index (ts_worker s w) = Some i"
  shows "1 \<le> i" and "i \<le> unat (tp_call_queue_head (ts_pool s))" and "\<And>v. v < n \<Longrightarrow> pc_index (ts_worker s v) = Some i \<Longrightarrow> v = w"
    and "\<And>j f. ts_worker s w = W_func j f \<Longrightarrow> f = cn_call_func (ts_submitted s ! (i - 1))"
  using assms unfolding held_inv_def by blast+

lemma granted_upd:
  assumes "w < n"
  shows "granted n (f(w := x)) + (if f w = W_granted then 1 else 0) = granted n f + (if x = W_granted then 1 else 0)"
  using sum_fun_upd [of "{..<n}" w "\<lambda>_ pc. if pc = W_granted then 1 else 0" f x] assms
  by (simp add: granted_def)

lemma granted_Suc: "w < n \<Longrightarrow> f w \<noteq> W_granted \<Longrightarrow> granted n (f(w := W_granted)) = Suc (granted n f)"
  using granted_upd [of w n f W_granted] by simp

lemma granted_pred: "w < n \<Longrightarrow> f w = W_granted \<Longrightarrow> x \<noteq> W_granted \<Longrightarrow> granted n f = Suc (granted n (f(w := x)))"
  using granted_upd [of w n f x] by simp

lemma granted_same: "w < n \<Longrightarrow> f w \<noteq> W_granted \<Longrightarrow> x \<noteq> W_granted \<Longrightarrow> granted n (f(w := x)) = granted n f"
  using granted_upd [of w n f x] by simp

lemma held_upd:
  assumes "w < n" and "held_inv n s"
  shows "held n (s\<lparr>ts_worker := (ts_worker s)(w := pc)\<rparr>) i \<longleftrightarrow>
    pc_index pc = Some i \<or> held n s i \<and> pc_index (ts_worker s w) \<noteq> Some i"
  using assms unfolding held_def held_inv_def by (auto split: if_splits)

lemma sys_init_inv:
  assumes "tdpl_create e tn mx = Some (Pool p)" and "te_call e \<noteq> NULL" and "0 \<le> sint mx"
  shows "sem_inv n (tdpl_sys_init p) \<and> slot_inv n (tdpl_sys_init p) \<and> held_inv n (tdpl_sys_init p) \<and> started_inv n (tdpl_sys_init p)"
proof -
  note c = create_pending [OF assms]
  have "\<not> held n (tdpl_sys_init p) i" for i by (simp add: held_def tdpl_sys_init_def)
  moreover from this have "\<not> unread n (tdpl_sys_init p) i" for i using c by (auto simp: unread_def tdpl_sys_init_def)
  ultimately show ?thesis
    using c by (auto simp: tdpl_invs tdpl_ok_def ring_wf_def tdpl_sys_init_def granted_def)
qed

subsection \<open>Each step keeps the invariant\<close>

lemma submit_inv:
  assumes "sem_inv n s" "slot_inv n s" "held_inv n s" "started_inv n s" "has_room n s"
    and "tdpl_enqueue (ts_pool s) c = Some (p, 1)"
    and "s' = s\<lparr>ts_pool := p, ts_posting := ts_posting s + 1, ts_submitted := ts_submitted s @ [c]\<rparr>"
  shows "sem_inv n s' \<and> slot_inv n s' \<and> held_inv n s' \<and> started_inv n s'"
proof -
  let ?P = "ts_pool s" and ?k = "unat (tp_call_queue_tail (ts_pool s)) mod call_period (ts_pool s)"
  have si: "0 < call_period ?P" "length (tp_call_queue ?P) = call_period ?P"
      "unat (tp_call_queue_tail ?P) = Suc (length (ts_submitted s))" "unat (tp_call_queue_head ?P) \<le> length (ts_submitted s)"
    using assms(1) by (auto simp: sem_inv_def)
  then have "tp_call_queue_head ?P \<noteq> tp_call_queue_tail ?P" by auto
  with enqueue_room [of ?P c] si assms(6) have p: "p = ?P\<lparr>tp_call_queue := (tp_call_queue ?P)[?k := c],
      tp_call_queue_tail := tp_call_queue_tail ?P + 1\<rparr>" by simp
  have room: "unat (tp_call_queue_tail ?P) + 1 < 2 ^ 64" using assms(5) by (simp add: has_room_def Let_def)
  then have tl: "unat (tp_call_queue_tail ?P + 1) = Suc (Suc (length (ts_submitted s)))"
    using unat_Suc [OF room] si(3) by simp
  have h: "held n s' i = held n s i" for i by (simp add: held_def assms(7))
  have hb: "held n s i \<Longrightarrow> 1 \<le> i \<and> i \<le> length (ts_submitted s)" for i
    using assms(3) si(4) unfolding held_inv_def held_def by force
  have rm: "unread n s i \<Longrightarrow> unat (tp_call_queue_tail ?P) < i + call_period ?P" for i
    using assms(5) unfolding has_room_def unread_def held_def Let_def by (auto split: option.splits)
  have ub: "unread n s i \<Longrightarrow> 1 \<le> i \<and> i \<le> length (ts_submitted s)" for i
    using hb [of i] si(3) by (auto simp: unread_def)
  have ur: "unread n s' i \<longleftrightarrow> unread n s i \<or> i = Suc (length (ts_submitted s))" for i
    using h [of i] tl si(3,4) by (auto simp: unread_def assms(7) p)
  have sl: "tp_call_queue p ! (i mod call_period p) = (ts_submitted s @ [c]) ! (i - 1) \<and>
      unat (tp_call_queue_tail p) \<le> i + call_period p" if "unread n s' i" for i
  proof (cases "unread n s i")
    case True
    have "i mod call_period ?P \<noteq> ?k"
      using ub [OF True] rm [OF True] si(3) by (intro mod_neq_within) auto
    then show ?thesis using True assms(2) rm [OF True] ub [OF True] tl si(3) by (auto simp: slot_inv_def p nth_append)
  next
    case False
    then show ?thesis using that ur [of i] si tl by (auto simp: p)
  qed
  have "sem_inv n s'" using assms(1) tl by (auto simp: sem_inv_def assms(7) p)
  moreover have "slot_inv n s'" using sl by (simp add: slot_inv_def assms(7))
  moreover have "held_inv n s'"
    unfolding held_inv_def
  proof (intro allI impI)
    fix w i assume w: "w < n" "pc_index (ts_worker s' w) = Some i"
    then have "held n s i" "pc_index (ts_worker s w) = Some i" by (auto simp: held_def assms(7))
    note hi = held_invD [OF assms(3) w(1) this(2)] hb [OF this(1)]
    have "ts_submitted s' ! (i - 1) = ts_submitted s ! (i - 1)" using hi(5) by (auto simp: assms(7) nth_append)
    then show "1 \<le> i \<and> i \<le> unat (tp_call_queue_head (ts_pool s')) \<and>
        (\<forall>v<n. pc_index (ts_worker s' v) = Some i \<longrightarrow> v = w) \<and>
        (\<forall>j f. ts_worker s' w = W_func j f \<longrightarrow> f = cn_call_func (ts_submitted s' ! (i - 1)))"
      using hi by (simp add: assms(7) p)
  qed
  moreover have "started_inv n s'"
    using assms(4) si(4) h unfolding started_inv_def by (auto simp: assms(7) p nth_append)
  ultimately show ?thesis by simp
qed

text \<open>Steps that move no index: posting, waiting, reading the function, and finishing a call.\<close>

lemma quiet_inv:
  assumes "slot_inv n s" "held_inv n s" "started_inv n s"
    and "tp_call_queue (ts_pool s') = tp_call_queue (ts_pool s)" "tp_call_queue_period (ts_pool s') = tp_call_queue_period (ts_pool s)"
      "tp_call_queue_head (ts_pool s') = tp_call_queue_head (ts_pool s)" "tp_call_queue_tail (ts_pool s') = tp_call_queue_tail (ts_pool s)"
      "ts_submitted s' = ts_submitted s" "ts_started s' = ts_started s"
    and "\<And>w. pc_index (ts_worker s' w) = pc_index (ts_worker s w)"
    and "\<And>w j f. w < n \<Longrightarrow> ts_worker s' w = W_func j f \<Longrightarrow> ts_worker s w = W_func j f \<or> f = cn_call_func (ts_submitted s ! (unat j - 1))"
  shows "slot_inv n s' \<and> held_inv n s' \<and> started_inv n s'"
proof -
  have h: "held n s' = held n s" by (auto simp: held_def assms(10) fun_eq_iff)
  then have "unread n s' = unread n s" by (auto simp: unread_def assms fun_eq_iff)
  then have "slot_inv n s'" using assms(1) by (simp add: slot_inv_def assms(4-8))
  moreover have "started_inv n s'" using assms(3) by (simp add: started_inv_def h assms(4-9))
  moreover have "held_inv n s'" unfolding held_inv_def
  proof (intro allI impI)
    fix w i assume w: "w < n" "pc_index (ts_worker s' w) = Some i"
    then have "pc_index (ts_worker s w) = Some i" by (simp add: assms(10))
    note hi = held_invD [OF assms(2) w(1) this]
    have "f = cn_call_func (ts_submitted s ! (i - 1))" if "ts_worker s' w = W_func j f" for j f
      using assms(11) [OF w(1) that] hi(4) that w(2) by auto
    then show "1 \<le> i \<and> i \<le> unat (tp_call_queue_head (ts_pool s')) \<and>
        (\<forall>v<n. pc_index (ts_worker s' v) = Some i \<longrightarrow> v = w) \<and>
        (\<forall>j f. ts_worker s' w = W_func j f \<longrightarrow> f = cn_call_func (ts_submitted s' ! (i - 1)))"
      using hi by (simp add: assms(6,8,10))
  qed
  ultimately show ?thesis by simp
qed

lemma claim_inv:
  assumes inv: "sem_inv n s" "slot_inv n s" "held_inv n s" "started_inv n s" and w: "w < n" "ts_worker s w = W_granted"
    and s': "s' = s\<lparr>ts_pool := (ts_pool s)\<lparr>tp_call_queue_head := tp_call_queue_head (ts_pool s) + 1\<rparr>,
      ts_worker := (ts_worker s)(w := W_claimed (tp_call_queue_head (ts_pool s) + 1))\<rparr>"
  shows "sem_inv n s' \<and> slot_inv n s' \<and> held_inv n s' \<and> started_inv n s'"
proof -
  let ?h = "unat (tp_call_queue_head (ts_pool s))" and ?i = "tp_call_queue_head (ts_pool s) + 1"
  have gr: "granted n (ts_worker s) = Suc (granted n ((ts_worker s)(w := W_claimed ?i)))" using granted_pred w by simp
  then have lt: "Suc ?h < unat (tp_call_queue_tail (ts_pool s))" using inv(1) by (auto simp: sem_inv_def)
  then have i: "unat ?i = Suc ?h" by (intro unat_Suc_below [of _ "tp_call_queue_tail (ts_pool s)"]) simp
  have h: "held n s' j \<longleftrightarrow> j = Suc ?h \<or> held n s j" for j
    using held_upd [OF w(1) inv(3), of "W_claimed ?i" j] w(2) i by (auto simp: s' held_def)
  have ur: "unread n s' j \<longleftrightarrow> unread n s j" for j
    using h [of j] lt i by (auto simp: unread_def s')
  have hb: "held n s j \<Longrightarrow> j \<le> ?h" for j using held_invD [OF inv(3)] by (auto simp: held_def)
  have "sem_inv n s'" using inv(1) gr i by (auto simp: sem_inv_def s')
  moreover have "slot_inv n s'" using inv(2) ur by (simp add: slot_inv_def s')
  moreover have "started_inv n s'"
    using inv(4) h i hb unfolding started_inv_def by (fastforce simp: s' le_Suc_eq)
  moreover have "held_inv n s'" unfolding held_inv_def
  proof (intro allI impI)
    fix v j assume v: "v < n" "pc_index (ts_worker s' v) = Some j"
    show "1 \<le> j \<and> j \<le> unat (tp_call_queue_head (ts_pool s')) \<and>
        (\<forall>u<n. pc_index (ts_worker s' u) = Some j \<longrightarrow> u = v) \<and>
        (\<forall>k f. ts_worker s' v = W_func k f \<longrightarrow> f = cn_call_func (ts_submitted s' ! (j - 1)))"
    proof (cases "v = w")
      case True
      then have "j = Suc ?h" using v i by (simp add: s')
      moreover have "u = w" if "u < n" "pc_index (ts_worker s' u) = Some (Suc ?h)" for u
        using that hb [of "Suc ?h"] by (auto simp: s' held_def split: if_splits)
      moreover have "ts_worker s' w = W_claimed ?i" "unat (tp_call_queue_head (ts_pool s')) = Suc ?h" using i by (simp_all add: s')
      ultimately show ?thesis using True by simp
    next
      case False
      then have "pc_index (ts_worker s v) = Some j" using v by (simp add: s')
      note hi = held_invD [OF inv(3) v(1) this]
      have "u = v" if "u < n" "pc_index (ts_worker s' u) = Some j" for u
        using that hi(2) hi(3) [of u] i by (auto simp: s' split: if_splits)
      moreover have "f = cn_call_func (ts_submitted s ! (j - 1))" if "ts_worker s' v = W_func k f" for k f
        using that hi(4) False by (simp add: s')
      ultimately show ?thesis using hi(1,2) i by (simp add: s')
    qed
  qed
  ultimately show ?thesis by simp
qed

lemma read_held:
  assumes "sem_inv n s" "slot_inv n s" "w < n" "pc_index (ts_worker s w) = Some (unat i)" "worker_read (ts_pool s) i = Some c"
  shows "c = ts_submitted s ! (unat i - 1)"
proof -
  have "unread n s (unat i)" using assms(3,4) by (auto simp: unread_def held_def)
  then show ?thesis
    using assms(1,2,5) by (auto simp: slot_inv_def sem_inv_def worker_read_def ring_slot_pos split: bind_splits)
qed

lemma read_arg_inv:
  assumes inv: "sem_inv n s" "slot_inv n s" "held_inv n s" "started_inv n s" and w: "w < n" "ts_worker s w = W_func i f"
    and rd: "worker_read (ts_pool s) i = Some c" and d: "d = \<lparr>cn_arg = cn_arg c, cn_call_func = f\<rparr>"
    and s': "s' = s\<lparr>ts_worker := (ts_worker s)(w := W_run d), ts_started := ts_started s @ [(unat i, d)]\<rparr>"
  shows "sem_inv n s' \<and> slot_inv n s' \<and> held_inv n s' \<and> started_inv n s'"
proof -
  note hi = held_invD [OF inv(3) w(1), of "unat i"]
  have c: "c = ts_submitted s ! (unat i - 1)" by (rule read_held [OF inv(1,2) w(1) _ rd]) (simp add: w(2))
  with hi w(2) d have d': "d = ts_submitted s ! (unat i - 1)" by simp
  have h: "held n s' j \<longleftrightarrow> held n s j \<and> j \<noteq> unat i" for j
    using held_upd [OF w(1) inv(3), of "W_run d" j] w(2) by (auto simp: s' held_def)
  have hs: "held n s (unat i)" using w by (auto simp: held_def)
  have ur: "unread n s' j \<Longrightarrow> unread n s j" for j
    using h [of j] by (auto simp: unread_def s')
  have "granted n ((ts_worker s)(w := W_run d)) = granted n (ts_worker s)" using w by (intro granted_same) auto
  then have "sem_inv n s'" using inv(1) by (simp add: sem_inv_def s')
  moreover have "slot_inv n s'" using inv(2) ur by (simp add: slot_inv_def s')
  moreover have "started_inv n s'"
    using inv(4) h hs hi w(2) d' unfolding started_inv_def by (auto simp: s')
  moreover have "held_inv n s'" unfolding held_inv_def
  proof (intro allI impI)
    fix v j assume v: "v < n" "pc_index (ts_worker s' v) = Some j"
    then have vw: "v \<noteq> w" and "pc_index (ts_worker s v) = Some j" by (auto simp: s' split: if_splits)
    note hv = held_invD [OF inv(3) v(1) this(2)]
    have "u = v" if "u < n" "pc_index (ts_worker s' u) = Some j" for u
      using that hv(3) [of u] by (auto simp: s' split: if_splits)
    moreover have "f = cn_call_func (ts_submitted s ! (j - 1))" if "ts_worker s' v = W_func k f" for k f
      using that hv(4) vw by (simp add: s')
    ultimately show "1 \<le> j \<and> j \<le> unat (tp_call_queue_head (ts_pool s')) \<and>
        (\<forall>u<n. pc_index (ts_worker s' u) = Some j \<longrightarrow> u = v) \<and>
        (\<forall>k f. ts_worker s' v = W_func k f \<longrightarrow> f = cn_call_func (ts_submitted s' ! (j - 1)))"
      using hv(1,2) by (simp add: s')
  qed
  ultimately show ?thesis by simp
qed

lemma step_inv:
  assumes inv: "sem_inv n s" "slot_inv n s" "held_inv n s" "started_inv n s"
    and st: "tdpl_step n s s'" and room: "ts_submitted s' \<noteq> ts_submitted s \<Longrightarrow> has_room n s"
  shows "sem_inv n s' \<and> slot_inv n s' \<and> held_inv n s' \<and> started_inv n s'"
  using st
proof cases
  case (submit c p)
  then show ?thesis using submit_inv [OF inv room submit(3)] by simp
next
  case (post k)
  then have "sem_inv n s'" using inv(1) by (auto simp: sem_inv_def tdpl_post_def)
  moreover have "slot_inv n s' \<and> held_inv n s' \<and> started_inv n s'"
    by (rule quiet_inv [OF inv(2-4)]) (simp_all add: post tdpl_post_def)
  ultimately show ?thesis by simp
next
  case (sem_wait w k)
  then have "granted n ((ts_worker s)(w := W_granted)) = Suc (granted n (ts_worker s))" by (intro granted_Suc) auto
  then have "sem_inv n s'" using inv(1) sem_wait by (auto simp: sem_inv_def)
  moreover have "slot_inv n s' \<and> held_inv n s' \<and> started_inv n s'"
    by (rule quiet_inv [OF inv(2-4)]) (auto simp: sem_wait split: if_splits)
  ultimately show ?thesis by simp
next
  case (claim w p i)
  then show ?thesis using claim_inv [OF inv claim(2,3)] by (auto simp: worker_claim_def)
next
  case (read_func w i c)
  then have "granted n ((ts_worker s)(w := W_func i (cn_call_func c))) = granted n (ts_worker s)" by (intro granted_same) auto
  then have "sem_inv n s'" using inv(1) read_func by (auto simp: sem_inv_def)
  moreover have "c = ts_submitted s ! (unat i - 1)"
    by (rule read_held [OF inv(1,2) read_func(2) _ read_func(4)]) (simp add: read_func(3))
  then have "slot_inv n s' \<and> held_inv n s' \<and> started_inv n s'"
    by (intro quiet_inv [OF inv(2-4)]) (auto simp: read_func split: if_splits)
  ultimately show ?thesis by simp
next
  case (read_arg w i f c d)
  then show ?thesis using read_arg_inv [OF inv read_arg(2-5)] by simp
next
  case (finish w c)
  then have "granted n ((ts_worker s)(w := W_wait)) = granted n (ts_worker s)" by (intro granted_same) auto
  then have "sem_inv n s'" using inv(1) finish by (auto simp: sem_inv_def)
  moreover have "slot_inv n s' \<and> held_inv n s' \<and> started_inv n s'"
    by (rule quiet_inv [OF inv(2-4)]) (auto simp: finish split: if_splits)
  ultimately show ?thesis by simp
qed

lemma reach_inv:
  "tdpl_reach n s \<Longrightarrow> sem_inv n s \<and> slot_inv n s \<and> held_inv n s \<and> started_inv n s"
proof (induction rule: tdpl_reach.induct)
  case (create e tn mx p)
  then show ?case using sys_init_inv by blast
next
  case (step s s')
  then show ?case using step_inv by blast
qed

end
