(* ===== verification/Tdpool_Props.thy ===== *)
theory Tdpool_Props
  imports Tdpool_Correct "HOL-Library.Multiset"
begin

text \<open>
  The properties of the thread pool: first-in first-out behaviour of the operations, each call
  started exactly once under every interleaving, the outcome of the creation, and what happens when
  more calls are pending than the ring has slots.
\<close>

section \<open>Progress\<close>

text \<open>Steps of the pool itself, and how many of them are left until every call has been run.\<close>

definition pool_step :: "nat \<Rightarrow> tdpl_sys \<Rightarrow> tdpl_sys \<Rightarrow> bool" where
  "pool_step n s s' \<longleftrightarrow> tdpl_step n s s' \<and> ts_submitted s' = ts_submitted s"

fun pc_work :: "worker_pc \<Rightarrow> nat" where
  "pc_work W_wait = 0"
| "pc_work W_granted = 4"
| "pc_work (W_claimed i) = 3"
| "pc_work (W_func i f) = 2"
| "pc_work (W_run c) = 1"

definition pool_work :: "nat \<Rightarrow> tdpl_sys \<Rightarrow> nat" where
  "pool_work n s = 6 * ts_posting s + 5 * tp_call_wait_n (ts_pool s) + (\<Sum>w<n. pc_work (ts_worker s w))"

lemma work_upd: "w < (n :: nat) \<Longrightarrow> (\<Sum>v<n. pc_work ((f(w := x)) v)) + pc_work (f w) = (\<Sum>v<n. pc_work (f v)) + pc_work x"
  using sum_fun_upd [of "{..<n}" w "\<lambda>_. pc_work" f x] by simp

lemma pool_step_work: "pool_step n s s' \<Longrightarrow> pool_work n s = Suc (pool_work n s')"
  unfolding pool_step_def
proof (elim conjE)
  assume same: "ts_submitted s' = ts_submitted s" and st: "tdpl_step n s s'"
  from st show "pool_work n s = Suc (pool_work n s')"
  proof cases
    case (submit c p)
    then show ?thesis using same by simp
  next
    case (post k)
    then show ?thesis by (simp add: pool_work_def tdpl_post_def)
  next
    case (sem_wait w k)
    then show ?thesis using work_upd [of w n "ts_worker s" W_granted] by (simp add: pool_work_def)
  next
    case (claim w p i)
    then show ?thesis using work_upd [of w n "ts_worker s" "W_claimed i"] by (auto simp: pool_work_def worker_claim_def)
  next
    case (read_func w i c)
    then show ?thesis using work_upd [of w n "ts_worker s" "W_func i (cn_call_func c)"] by (simp add: pool_work_def)
  next
    case (read_arg w i f c d)
    then show ?thesis using work_upd [of w n "ts_worker s" "W_run d"] by (simp add: pool_work_def)
  next
    case (finish w c)
    then show ?thesis using work_upd [of w n "ts_worker s" W_wait] by (simp add: pool_work_def)
  qed
qed

lemma read_defined: "sem_inv n s \<Longrightarrow> \<exists>c. worker_read (ts_pool s) i = Some c"
  by (auto simp: sem_inv_def worker_read_def ring_slot_pos)

lemma stuck_waits:
  assumes "sem_inv n s" and "0 < n" and "\<nexists>s'. pool_step n s s'"
  shows "ts_posting s = 0" and "\<forall>w<n. ts_worker s w = W_wait" and "tp_call_wait_n (ts_pool s) = 0"
proof -
  note no = assms(3) [unfolded pool_step_def, simplified]
  show "ts_posting s = 0"
    using no tdpl_step.post [of s _ n] by (cases "ts_posting s") force+
  show w: "\<forall>w<n. ts_worker s w = W_wait"
  proof (intro allI impI)
    fix w assume "w < n"
    then show "ts_worker s w = W_wait"
      using no tdpl_step.claim [of w n s] tdpl_step.read_func [of w n s] tdpl_step.read_arg [of w n s]
        tdpl_step.finish [of w n s] read_defined [OF assms(1)]
      by (cases "ts_worker s w") (force simp: worker_claim_def)+
  qed
  show "tp_call_wait_n (ts_pool s) = 0"
    using no w assms(2) tdpl_step.sem_wait [of 0 n s] by (cases "tp_call_wait_n (ts_pool s)") force+
qed

lemma started_all:
  assumes "started_inv n s" and "\<And>i. \<not> held n s i" and "unat (tp_call_queue_head (ts_pool s)) = length (ts_submitted s)"
  shows "mset (map snd (ts_started s)) = mset (ts_submitted s)"
proof -
  let ?g = "\<lambda>i. ts_submitted s ! (i - 1)" and ?m = "length (ts_submitted s)"
  have "set (map fst (ts_started s)) = set [1..<Suc ?m]" "distinct (map fst (ts_started s))"
    using assms by (force simp: started_inv_def)+
  then have ix: "mset (map fst (ts_started s)) = mset [1..<Suc ?m]" by (metis distinct_upt set_eq_iff_mset_eq_distinct)
  have "map snd (ts_started s) = map ?g (map fst (ts_started s))"
    using assms(1) by (auto simp: started_inv_def)
  then have "mset (map snd (ts_started s)) = image_mset ?g (mset (map fst (ts_started s)))" by (metis mset_map)
  also have "\<dots> = mset (map ?g [1..<Suc ?m])" using ix by (metis mset_map)
  also have "map ?g [1..<Suc ?m] = ts_submitted s" by (rule nth_equalityI) (simp_all del: upt_Suc)
  finally show ?thesis .
qed

section \<open>A concrete run\<close>

text \<open>A pool with one worker and three slots; one call of the function at 40 with the argument 50.\<close>

definition td_node :: tdpl_call_node where
  "td_node = \<lparr>cn_arg = 50, cn_call_func = 40\<rparr>"

definition td_raw :: tdpl_call_node where
  "td_raw = \<lparr>cn_arg = 7, cn_call_func = 7\<rparr>"

definition td_env :: "int \<Rightarrow> tdpl_env" where
  "td_env r = \<lparr>te_s = 1000, te_handles = 2000, te_avali = 3000, te_call = 4000, te_raw_avali = (\<lambda>_. 9),
     te_raw_call = (\<lambda>_. td_raw), te_rc = (\<lambda>i. if i = 2 then r else 0)\<rparr>"

definition td_pool :: "tdpl_call_node list \<Rightarrow> u64 \<Rightarrow> u64 \<Rightarrow> nat \<Rightarrow> tdpl_s" where
  "td_pool q h t k = \<lparr>tp_thread_num = 1, tp_max_wait_n = 2, tp_avali_queue = [9, 0], tp_call_queue = q,
     tp_call_queue_period = 3, tp_call_queue_head = h, tp_call_queue_tail = t, tp_avali_queue_period = 2,
     tp_avali_queue_head = 0, tp_avali_queue_tail = 2, tp_ready_n = 0, tp_call_wait_n = k\<rparr>"

definition td_state :: "tdpl_s \<Rightarrow> nat \<Rightarrow> worker_pc \<Rightarrow> tdpl_call_node list \<Rightarrow> (nat \<times> tdpl_call_node) list \<Rightarrow> tdpl_sys" where
  "td_state p k pc sub st = \<lparr>ts_pool = p, ts_posting = k, ts_worker = (\<lambda>_. W_wait)(0 := pc), ts_submitted = sub, ts_started = st\<rparr>"

abbreviation td_q :: "tdpl_call_node list" where "td_q \<equiv> [td_raw, td_node, td_raw]"

lemmas td_defs = td_env_def td_node_def td_raw_def td_pool_def td_state_def

lemma td_create:
  "tdpl_create (td_env 0) 1 2 = Some (Pool (td_pool [td_raw, td_raw, td_raw] 0 1 0))"
  by (simp add: tdpl_create_def td_defs ring_slot_pos ring_slot_def upt_rec)

lemma td_run:
  "tdpl_reach 1 (td_state (td_pool [td_raw, td_raw, td_raw] 0 1 0) 0 W_wait [] [])"
  "tdpl_reach 1 (td_state (td_pool td_q 0 2 0) 1 W_wait [td_node] [])"
  "tdpl_reach 1 (td_state (td_pool td_q 1 2 0) 0 (W_run td_node) [td_node] [(1, td_node)])"
proof -
  have "tdpl_sys_init (td_pool [td_raw, td_raw, td_raw] 0 1 0) = td_state (td_pool [td_raw, td_raw, td_raw] 0 1 0) 0 W_wait [] []"
    by (auto simp: tdpl_sys_init_def td_defs fun_eq_iff)
  with tdpl_reach.create [OF td_create] show r0: "tdpl_reach 1 (td_state (td_pool [td_raw, td_raw, td_raw] 0 1 0) 0 W_wait [] [])"
    by (simp add: td_env_def)
  have "tdpl_step 1 (td_state (td_pool [td_raw, td_raw, td_raw] 0 1 0) 0 W_wait [] []) (td_state (td_pool td_q 0 2 0) 1 W_wait [td_node] [])"
    using tdpl_step.submit [of td_node "td_state (td_pool [td_raw, td_raw, td_raw] 0 1 0) 0 W_wait [] []" _ 1]
    by (simp add: td_defs tdpl_enqueue_def ring_slot_def)
  then show r1: "tdpl_reach 1 (td_state (td_pool td_q 0 2 0) 1 W_wait [td_node] [])"
    by (rule tdpl_reach.step [OF r0]) (simp add: has_room_def td_defs)
  have "tdpl_step 1 (td_state (td_pool td_q 0 2 0) 1 W_wait [td_node] []) (td_state (td_pool td_q 0 2 1) 0 W_wait [td_node] [])"
    using tdpl_step.post [of "td_state (td_pool td_q 0 2 0) 1 W_wait [td_node] []" 0 1] by (simp add: td_defs tdpl_post_def)
  then have r2: "tdpl_reach 1 (td_state (td_pool td_q 0 2 1) 0 W_wait [td_node] [])"
    by (rule tdpl_reach.step [OF r1]) (simp add: td_defs)
  have "tdpl_step 1 (td_state (td_pool td_q 0 2 1) 0 W_wait [td_node] []) (td_state (td_pool td_q 0 2 0) 0 W_granted [td_node] [])"
    using tdpl_step.sem_wait [of 0 1 "td_state (td_pool td_q 0 2 1) 0 W_wait [td_node] []" 0] by (simp add: td_defs)
  then have r3: "tdpl_reach 1 (td_state (td_pool td_q 0 2 0) 0 W_granted [td_node] [])"
    by (rule tdpl_reach.step [OF r2]) (simp add: td_defs)
  have "tdpl_step 1 (td_state (td_pool td_q 0 2 0) 0 W_granted [td_node] []) (td_state (td_pool td_q 1 2 0) 0 (W_claimed 1) [td_node] [])"
    using tdpl_step.claim [of 0 1 "td_state (td_pool td_q 0 2 0) 0 W_granted [td_node] []"] by (simp add: td_defs worker_claim_def)
  then have r4: "tdpl_reach 1 (td_state (td_pool td_q 1 2 0) 0 (W_claimed 1) [td_node] [])"
    by (rule tdpl_reach.step [OF r3]) (simp add: td_defs)
  have rd: "worker_read (td_pool td_q 1 2 0) 1 = Some td_node" by (simp add: td_defs worker_read_def ring_slot_def)
  have "tdpl_step 1 (td_state (td_pool td_q 1 2 0) 0 (W_claimed 1) [td_node] []) (td_state (td_pool td_q 1 2 0) 0 (W_func 1 40) [td_node] [])"
    using tdpl_step.read_func [of 0 1 "td_state (td_pool td_q 1 2 0) 0 (W_claimed 1) [td_node] []" 1 td_node] rd by (simp add: td_defs)
  then have r5: "tdpl_reach 1 (td_state (td_pool td_q 1 2 0) 0 (W_func 1 40) [td_node] [])"
    by (rule tdpl_reach.step [OF r4]) (simp add: td_defs)
  have "tdpl_step 1 (td_state (td_pool td_q 1 2 0) 0 (W_func 1 40) [td_node] []) (td_state (td_pool td_q 1 2 0) 0 (W_run td_node) [td_node] [(1, td_node)])"
    using tdpl_step.read_arg [of 0 1 "td_state (td_pool td_q 1 2 0) 0 (W_func 1 40) [td_node] []" 1 40 td_node td_node] rd by (simp add: td_defs)
  then show "tdpl_reach 1 (td_state (td_pool td_q 1 2 0) 0 (W_run td_node) [td_node] [(1, td_node)])"
    by (rule tdpl_reach.step [OF r5]) (simp add: td_defs)
qed

lemma td_ok: "tdpl_ok (td_pool [td_raw, td_node, td_node] 0 3 2)" "tdpl_pending (td_pool [td_raw, td_node, td_node] 0 3 2) = [td_node, td_node]"
  by (simp_all add: tdpl_ok_def tdpl_pending_def ring_wf_def ring_contents_def td_defs upt_rec)

lemma td_full: "tdpl_ok (td_pool [td_raw, td_node, td_node] 0 4 3)"
    "tdpl_pending (td_pool [td_raw, td_node, td_node] 0 4 3) = [td_node, td_node, td_raw]"
  by (simp_all add: tdpl_ok_def tdpl_pending_def ring_wf_def ring_contents_def td_defs upt_rec)

section \<open>Properties\<close>

text \<open>
  C12 (safety). Whatever the interleaving of callers and workers, as long as callers submit only
  when the ring has room: every call a worker starts is one that was submitted, with its own
  function and argument (no torn or stale slot is ever run), and no submitted call is started twice.
\<close>

theorem calls_started_once:
  assumes "tdpl_reach n s"
  shows "distinct (map fst (ts_started s)) \<and>
    (\<forall>(i, d)\<in>set (ts_started s). 1 \<le> i \<and> i \<le> length (ts_submitted s) \<and> d = ts_submitted s ! (i - 1))"
  using reach_inv [OF assms] by (force simp: started_inv_def sem_inv_def)

theorem calls_started_once_witness:
  "distinct (map fst [(1 :: nat, td_node)]) \<and> 1 \<le> length [td_node] \<and> td_node = [td_node] ! (1 - 1)"
  using calls_started_once [OF td_run(3)] by (simp add: td_state_def)

text \<open>
  C13 (liveness). From every such state the pool's own steps end: each of them decreases the
  measure \<open>pool_work\<close>, and when none is possible any more, every submitted call has been started exactly
  once and every worker waits for the next one. So no wake-up is lost.
\<close>

theorem calls_all_started:
  assumes "tdpl_reach n s" and "0 < n"
  shows "(\<forall>s'. pool_step n s s' \<longrightarrow> pool_work n s' < pool_work n s) \<and>
    ((\<nexists>s'. pool_step n s s') \<longrightarrow> mset (map snd (ts_started s)) = mset (ts_submitted s) \<and> (\<forall>w<n. ts_worker s w = W_wait))"
proof (intro conjI allI impI)
  fix s' assume "pool_step n s s'"
  then show "pool_work n s' < pool_work n s" using pool_step_work by simp
next
  assume no: "\<nexists>s'. pool_step n s s'"
  have inv: "sem_inv n s" "started_inv n s" using reach_inv [OF assms(1)] by auto
  note w = stuck_waits [OF inv(1) assms(2) no]
  have "granted n (ts_worker s) = 0" "\<not> held n s i" for i using w(2) by (auto simp: granted_def held_def)
  with inv(1) w show "mset (map snd (ts_started s)) = mset (ts_submitted s)"
    by (intro started_all [OF inv(2)]) (auto simp: sem_inv_def)
qed (use stuck_waits reach_inv [OF assms(1)] assms(2) in blast)

theorem calls_all_started_witness:
  "pool_work 1 (td_state (td_pool td_q 0 2 1) 0 W_wait [td_node] []) < pool_work 1 (td_state (td_pool td_q 0 2 0) 1 W_wait [td_node] [])"
proof -
  have "tdpl_step 1 (td_state (td_pool td_q 0 2 0) 1 W_wait [td_node] []) (td_state (td_pool td_q 0 2 1) 0 W_wait [td_node] [])"
    using tdpl_step.post [of "td_state (td_pool td_q 0 2 0) 1 W_wait [td_node] []" 0 1] by (simp add: td_defs tdpl_post_def)
  then have "pool_step 1 (td_state (td_pool td_q 0 2 0) 1 W_wait [td_node] []) (td_state (td_pool td_q 0 2 1) 0 W_wait [td_node] [])"
    by (simp add: pool_step_def td_defs)
  then show ?thesis using calls_all_started [OF td_run(2)] by simp
qed

text \<open>
  Between two operations the pool is a first-in first-out queue: \<open>tdpl_call_func\<close> on a
  queue with a free slot returns 1 and appends the call, and a worker takes the oldest call.
\<close>

lemma tdpl_fifo:
  assumes "tdpl_ok s" and "call_func \<noteq> NULL" and "length (tdpl_pending s) < call_period s"
    and "unat (tp_call_queue_tail s) + 1 < 2 ^ 64"
  shows "\<exists>s' s'' c cs. tdpl_call_func s call_func arg = Some (s', 1) \<and> tdpl_ok s' \<and>
    tdpl_pending s' = tdpl_pending s @ [\<lparr>cn_arg = arg, cn_call_func = call_func\<rparr>] \<and>
    tdpl_pending s' = c # cs \<and> worker_take s' = Some (s'', c) \<and> tdpl_ok s'' \<and> tdpl_pending s'' = cs"
proof -
  have "calls_room 1 s" using assms(1,3,4) by (simp add: calls_room_def)
  then obtain s' where s': "tdpl_call_func s call_func arg = Some (s', 1)" "tdpl_ok s'"
      "tdpl_pending s' = tdpl_pending s @ [\<lparr>cn_arg = arg, cn_call_func = call_func\<rparr>]"
    using call_func_room [of 0 s call_func arg] assms(2) by (auto simp: calls_room_def)
  then obtain c cs where c: "tdpl_pending s' = c # cs" by (cases "tdpl_pending s") auto
  with take_claims [OF s'(2) c] s' show ?thesis by blast
qed

text \<open>
  The test for a full queue, \<open>call_queue_head == call_queue_tail\<close>, never holds: even with
  every slot of the ring occupied \<open>tdpl_call_func\<close> returns 1, and it overwrites the oldest pending call,
  which is lost while the new call is in the queue twice.
\<close>

lemma call_func_overwrites:
  assumes "tdpl_ok s" and "call_func \<noteq> NULL" and "length (tdpl_pending s) = call_period s"
    and "unat (tp_call_queue_tail s) + 1 < 2 ^ 64"
  shows "\<exists>s'. tdpl_call_func s call_func arg = Some (s', 1) \<and>
    tdpl_pending s' = \<lparr>cn_arg = arg, cn_call_func = call_func\<rparr> # tl (tdpl_pending s) @ [\<lparr>cn_arg = arg, cn_call_func = call_func\<rparr>]"
proof -
  have ok: "cq.ok s" "length (cq.contents s) = call_period s" using assms(1,3) by (auto simp: ok_ring pending_contents)
  obtain s1 where s1: "map_option fst (tdpl_enqueue s \<lparr>cn_arg = arg, cn_call_func = call_func\<rparr>) = Some s1"
      "cq.contents s1 = \<lparr>cn_arg = arg, cn_call_func = call_func\<rparr> # tl (cq.contents s) @ [\<lparr>cn_arg = arg, cn_call_func = call_func\<rparr>]"
    using cq.put_overwrites [OF ok assms(4), of "\<lparr>cn_arg = arg, cn_call_func = call_func\<rparr>"] by blast
  then show ?thesis using call_func_enqueues(1) [OF ok(1) assms(2) s1(1)] by (simp add: pending_contents)
qed

text \<open>
  Creating a pool whose four allocations succeed: when every \<open>pthread_create\<close> succeeds
  the pool is returned, valid and with an empty queue of \<open>max_wait_n + 1\<close> slots; when one of them
  fails (with its positive error number, which the code compares with \<open>-1\<close>) \<open>tdpl_create\<close> waits
  forever.
\<close>

lemma tdpl_create_outcome:
  assumes "env_ok e" and "0 \<le> sint tn" and "sint tn < 2 ^ 31 - 1"
    and "0 \<le> sint mx" and "sint mx < 2 ^ 31 - 1" and "\<forall>i < nat (sint tn). 0 \<le> te_rc e i"
  shows "if \<forall>i < nat (sint tn). te_rc e i = 0
    then \<exists>p. tdpl_create e tn mx = Some (Pool p) \<and> tdpl_ok p \<and> tdpl_pending p = [] \<and>
      call_period p = nat (sint mx) + 1
    else tdpl_create e tn mx = Some Pool_blocks"
proof (cases "\<forall>i < nat (sint tn). te_rc e i = 0")
  case True
  then show ?thesis using create_returns [OF assms(1-5)] by (auto simp: calls_room_def)
next
  case False
  then show ?thesis using create_ready [OF assms] by auto
qed

end
