(* ===== verification/Acm_Props.thy ===== *)
theory Acm_Props
  imports Acm_Requests Tdpool_Props
begin

text \<open>
  The properties of the agent client manager: the encoding of the frames, the stream that the write
  side produces and the wake-ups behind it, the reassembly of the responses, and the routing of the
  responses to the listeners.
\<close>

section \<open>The write loop ends\<close>

lemma write_loop_total:
  assumes "wq.ok max_len ch" and "wq.contents max_len ch = t # ts" and "\<forall>u\<in>set (t # ts). task_ok u"
  shows "\<exists>ch' out txs' e. write_loop max_len txs ch = Some (ch', out, txs', e) \<and> wq.ok max_len ch' \<and>
    (e = Wr_next \<longleftrightarrow> wq.contents max_len ch' = []) \<and> (\<forall>u\<in>set (wq.contents max_len ch'). task_ok u) \<and>
    ac_consume_locked ch' = ac_consume_locked ch \<and> ac_write_armed ch' = ac_write_armed ch"
  using assms
proof (induction ts arbitrary: ch t txs)
  case Nil
  obtain t' out txs' e where w: "write_task txs t = Some (t', out, txs', e)" "round_ok txs t (t', out, txs', e)"
    using write_task_round [of t txs] Nil.prems(3) by auto
  obtain ch' where c: "write_round max_len txs ch = Some (ch', out, txs', e)" "wq.ok max_len ch'"
      "wq.contents max_len ch' = (if e = Wr_next then [] else [t'])"
      "ac_consume_locked ch' = ac_consume_locked ch" "ac_write_armed ch' = ac_write_armed ch"
    using write_round_front [OF Nil.prems(1,2) w(1)] by blast
  then have "write_loop max_len txs ch = Some (ch', out, txs', e)"
    using wq.empty_iff [OF c(2)] by (cases e) (simp_all add: write_loop.simps [of max_len txs ch])
  then show ?case using c w(2) by (auto simp: round_ok_def)
next
  case (Cons u us)
  obtain t' out txs' e where w: "write_task txs t = Some (t', out, txs', e)" "round_ok txs t (t', out, txs', e)"
    using write_task_round [of t txs] Cons.prems(3) by auto
  obtain ch1 where c: "write_round max_len txs ch = Some (ch1, out, txs', e)" "wq.ok max_len ch1"
      "wq.contents max_len ch1 = (if e = Wr_next then u # us else t' # u # us)"
      "ac_consume_locked ch1 = ac_consume_locked ch" "ac_write_armed ch1 = ac_write_armed ch"
    using write_round_front [OF Cons.prems(1,2) w(1)] by blast
  show ?case
  proof (cases "e = Wr_next")
    case True
    obtain ch2 out2 txs2 e2 where l: "write_loop max_len txs' ch1 = Some (ch2, out2, txs2, e2)" "wq.ok max_len ch2"
        "e2 = Wr_next \<longleftrightarrow> wq.contents max_len ch2 = []" "\<forall>u\<in>set (wq.contents max_len ch2). task_ok u"
        "ac_consume_locked ch2 = ac_consume_locked ch1" "ac_write_armed ch2 = ac_write_armed ch1"
      using Cons.IH [OF c(2), of u txs'] c(3) Cons.prems(3) True by auto
    have "write_loop max_len txs ch = Some (ch2, out @ out2, txs2, e2)"
      using c(1,3) l(1) True wq.empty_iff [OF c(2)] by (simp add: write_loop.simps [of max_len txs ch])
    then show ?thesis using l c(4,5) by auto
  next
    case False
    then have "write_loop max_len txs ch = Some (ch1, out, txs', e)" using c(1) by (simp add: write_loop.simps [of max_len txs ch])
    then show ?thesis using c False w(2) Cons.prems(3) by (auto simp: round_ok_def)
  qed
qed

section \<open>A concrete channel\<close>

definition ac_demo_task :: acm_write_task where
  "ac_demo_task = request_task 7 [104, 105] 2"

definition ac_demo :: "acm_write_task list \<Rightarrow> u64 \<Rightarrow> bool \<Rightarrow> acm_channel" where
  "ac_demo q t locked = \<lparr>ac_socket_fd = 5, ac_write_queue = q, ac_write_queue_head = 0, ac_write_queue_tail = t,
     ac_recv_msg = None, ac_head = replicate 12 0, ac_is_head = 1, ac_head_read_index = 0, ac_data_read_index = 0,
     ac_request_num = 1, ac_consume_locked = locked, ac_reading_locked = True, ac_write_armed = False, ac_read_armed = False\<rparr>"

definition ac_demo_handle :: acm_handle where
  "ac_demo_handle = \<lparr>ah_tdpl_io = td_pool [] 0 1 0, ah_tdpl_worker = td_pool [] 0 1 0, ah_mmpl = demo_pool 200 0 0 NULL 0, ah_epoll_write_fd = 3,
     ah_epoll_read_fd = 4, ah_max_write_queue_len = 4, ah_max_hold_req_num = 4,
     ah_request_map = [\<lparr>me_req_id = 0, me_listening = 0, me_arg = 0\<rparr>, \<lparr>me_req_id = 0, me_listening = 0, me_arg = 0\<rparr>,
       \<lparr>me_req_id = 6, me_listening = 80, me_arg = 90\<rparr>, \<lparr>me_req_id = 0, me_listening = 0, me_arg = 0\<rparr>],
     ah_request_id = 6\<rparr>"

abbreviation ac_demo_queue :: "acm_write_task list" where
  "ac_demo_queue \<equiv> [ac_demo_task, ac_demo_task, ac_demo_task, ac_demo_task]"

lemmas ac_defs = ac_demo_def ac_demo_task_def ac_demo_handle_def request_task_def

lemma ac_demo_ok: "task_ok ac_demo_task" "wt_write_index ac_demo_task = 0"
  by (simp_all add: task_ok_def task_size_def ac_defs)

lemma ac_demo_run:
  "acm_wreach 4 (acm_wsys_init (ac_demo ac_demo_queue 1 True))"
  "acm_wreach 4 ((acm_wsys_init (ac_demo ac_demo_queue 2 True))\<lparr>ws_tasks := [ac_demo_task], ws_unlocking := 1\<rparr>)"
proof -
  let ?s = "acm_wsys_init (ac_demo ac_demo_queue 1 True)"
  let ?s' = "(acm_wsys_init (ac_demo ac_demo_queue 2 True))\<lparr>ws_tasks := [ac_demo_task], ws_unlocking := 1\<rparr>"
  show r: "acm_wreach 4 ?s" by (rule acm_wreach.init) (simp_all add: ring_wf_def ac_demo_def)
  have "acm_enqueue 4 (ws_ch ?s) ac_demo_task = Some (ac_demo ac_demo_queue 2 True, True)"
    by (simp add: acm_enqueue_def ring_slot_pos acm_wsys_init_def ac_demo_def)
  from acm_wstep.enqueue [OF ac_demo_ok this] have st: "acm_wstep 4 ?s ?s'" by (simp add: acm_wsys_init_def)
  show "acm_wreach 4 ?s'" by (rule acm_wreach.step [OF r st]) (simp add: acm_wsys_init_def ac_demo_def)
qed

section \<open>Properties\<close>

text \<open>
  The big-endian conversions are inverse to each other in both directions: what
  \<open>acm_int2bytes\<close> and \<open>acm_long2bytes\<close> write into a buffer, \<open>acm_bytes2int\<close> and \<open>acm_bytes2long\<close> read
  back, and writing back what was read leaves the buffer as it was.
\<close>

lemma codec_roundtrip:
  "(acm_int2bytes v buf off = Some buf' \<longrightarrow> acm_bytes2int buf' off = Some v) \<and>
   (acm_bytes2int buf off = Some v \<longrightarrow> acm_int2bytes v buf off = Some buf) \<and>
   (acm_long2bytes w buf off = Some buf' \<longrightarrow> acm_bytes2long buf' off = Some w) \<and>
   (acm_bytes2long buf off = Some w \<longrightarrow> acm_long2bytes w buf off = Some buf)"
  using int_bytes_int(1) bytes_int_bytes long_bytes_long(1) bytes_long_bytes by blast

text \<open>
  C6 (safety). The bytes a channel has sent are, at every moment and under every interleaving of
  requests, events and write rounds, the beginning of the frames of the requests in the order in which
  they entered the queue, and exactly these frames when the queue is empty; the condition is that the
  data part of no round met \<open>EAGAIN\<close>.
\<close>

theorem acm_stream_prefix:
  assumes "acm_wreach max_len s" and "ws_clean s"
  shows "prefix (ws_out s) (concat (map task_frame (ws_tasks s))) \<and>
    (queue_of max_len (ws_ch s) = [] \<longrightarrow> ws_out s = concat (map task_frame (ws_tasks s)))"
proof -
  have "ws_out s @ concat (map task_rest (queue_of max_len (ws_ch s))) = concat (map task_frame (ws_tasks s))"
    using wreach_inv [OF assms(1)] assms(2) by (simp add: wsys_inv_def stream_inv_def)
  then show ?thesis by (metis append_Nil2 concat.simps(1) list.simps(8) prefixI)
qed

theorem acm_stream_prefix_witness:
  "prefix (ws_out ((acm_wsys_init (ac_demo ac_demo_queue 2 True))\<lparr>ws_tasks := [ac_demo_task], ws_unlocking := 1\<rparr>))
     (concat (map task_frame [ac_demo_task]))"
  using acm_stream_prefix [OF ac_demo_run(2)] by (simp add: acm_wsys_init_def)

text \<open>
  C14 (liveness). No wake-up is lost on the write side: while a channel that met no error has
  something to send, exactly one of three holds: one write thread is at work, one thread is about to
  release the consume lock, or the lock is free and a writable event is registered, about to be
  registered or delivered. In particular at most one thread writes.
\<close>

theorem acm_no_lost_wakeup:
  assumes "acm_wreach max_len s" and "\<not> ws_dead s" and "queue_of max_len (ws_ch s) \<noteq> []"
  shows "(if ws_writer s then 1 else 0) + ws_unlocking s + (if ac_consume_locked (ws_ch s) then 0 else 1) = (1 :: nat) \<and>
    (\<not> ac_consume_locked (ws_ch s) \<longrightarrow> ac_write_armed (ws_ch s) \<or> 0 < ws_arming s \<or> 0 < ws_events s)"
  using wreach_inv [OF assms(1)] assms(2,3) by (simp add: wsys_inv_def token_inv_def)

theorem acm_no_lost_wakeup_witness:
  "ws_unlocking ((acm_wsys_init (ac_demo ac_demo_queue 2 True))\<lparr>ws_tasks := [ac_demo_task], ws_unlocking := 1\<rparr>) = 1"
  using acm_no_lost_wakeup [OF ac_demo_run(2)] by (simp add: acm_wsys_init_def ac_demo_def ring_contents_def)

text \<open>
  C31 (termination). The write thread of a channel with valid tasks ends for every behaviour of the
  socket: either the queue is empty and the consume lock stays taken, or the lock was released and the
  next event registered, or an error occurred and the lock stays taken; the queue stays valid.
\<close>

theorem acm_write_thread_ends:
  assumes "queue_wf (ah_max_write_queue_len h) ch" and "queue_of (ah_max_write_queue_len h) ch \<noteq> []"
    and "\<forall>t\<in>set (queue_of (ah_max_write_queue_len h) ch). task_ok t" and "ac_consume_locked ch"
  shows "\<exists>ch' out txs'. acm_io_write_thread h txs 0 ch = Some (ch', out, txs') \<and> queue_wf (ah_max_write_queue_len h) ch' \<and>
    (\<forall>t\<in>set (queue_of (ah_max_write_queue_len h) ch'). task_ok t) \<and>
    (queue_of (ah_max_write_queue_len h) ch' = [] \<longrightarrow> ac_consume_locked ch') \<and>
    (\<not> ac_consume_locked ch' \<longrightarrow> ac_write_armed ch')"
proof -
  let ?q = "ah_max_write_queue_len h"
  obtain t ts where q: "queue_of ?q ch = t # ts" using assms(2) by (cases "queue_of ?q ch") auto
  have ok: "wq.ok ?q ch" "wq.contents ?q ch = t # ts" "\<forall>u\<in>set (t # ts). task_ok u"
    using assms(1,3) q by (simp_all add: queue_contents)
  obtain ch' out txs' e where l: "write_loop ?q txs ch = Some (ch', out, txs', e)" "wq.ok ?q ch'"
      "e = Wr_next \<longleftrightarrow> wq.contents ?q ch' = []" "\<forall>u\<in>set (wq.contents ?q ch'). task_ok u" "ac_consume_locked ch' = ac_consume_locked ch"
    using write_loop_total [OF ok, of txs] by blast
  have "ac_write_queue_head ch + 1 \<noteq> ac_write_queue_tail ch" using wq.empty_iff [OF ok(1)] ok(2) by simp
  then have "acm_io_write_thread h txs 0 ch =
      Some (if e = Wr_break then ch'\<lparr>ac_consume_locked := False, ac_write_armed := True\<rparr> else ch', out, txs')"
    using l(1) by (simp add: acm_io_write_thread_def acm_epoll_mod_write_def)
  then show ?thesis
    using l(2-5) assms(4) by (cases "e = Wr_break") (auto simp: queue_contents [symmetric])
qed

theorem acm_write_thread_ends_witness:
  "\<exists>ch' out txs'. acm_io_write_thread ac_demo_handle [Tx_room 3, Tx_again] 0 (ac_demo ac_demo_queue 2 True) =
     Some (ch', out, txs') \<and> queue_wf 4 ch' \<and> (\<forall>t\<in>set (queue_of 4 ch'). task_ok t) \<and>
     (queue_of 4 ch' = [] \<longrightarrow> ac_consume_locked ch') \<and> (\<not> ac_consume_locked ch' \<longrightarrow> ac_write_armed ch')"
proof -
  have q: "queue_of 4 (ac_demo ac_demo_queue 2 True) = [ac_demo_task]"
    by (simp add: ac_demo_def ring_contents_def upt_rec)
  have h: "ah_max_write_queue_len ac_demo_handle = 4" by (simp add: ac_demo_handle_def)
  show ?thesis
    using acm_write_thread_ends [where h = ac_demo_handle and ch = "ac_demo ac_demo_queue 2 True" and txs = "[Tx_room 3, Tx_again]"] ac_demo_ok(1)
    unfolding h q by (simp add: ring_wf_def ac_demo_def)
qed

text \<open>
  \<open>EAGAIN\<close> in the data part of a round corrupts the stream: when the socket takes the
  head of a frame and then has no room, the round steps the write index back by one, and the next
  round sends the last byte of the head a second time before the data. The peer gets 13 bytes of
  head, so what it receives is not the frame.
\<close>

lemma write_again_duplicates:
  assumes "task_ok t" and "wt_write_index t = 0" and "1 \<le> n" and "length (task_frame t) \<le> k"
  shows "\<exists>t1 t2 e out1 out2. write_task (Tx_room 12 # Tx_again # txs) t = Some (t1, out1, txs, Wr_break) \<and>
    write_task (Tx_room n # Tx_room k # txs) t1 = Some (t2, out2, txs, e) \<and>
    out1 @ out2 = take ACM_MSG_HEAD_SIZE (task_frame t) @ drop (ACM_MSG_HEAD_SIZE - 1) (task_frame t) \<and>
    out1 @ out2 \<noteq> task_frame t"
proof -
  let ?F = "task_frame t" and ?hd = "the (frame_head (wt_head t))"
  let ?t1 = "t\<lparr>wt_write_index := 11\<rparr>" and ?t2 = "t\<lparr>wt_write_index := 12\<rparr>"
  have hd: "length ?hd = ACM_MSG_HEAD_SIZE" using frame_head_decode(1) frame_head_the by blast
  have F: "?F = ?hd @ take (task_size t) (wt_data t)" "length ?F = ACM_MSG_HEAD_SIZE + task_size t" "task_rest t = ?F"
    using assms(1,2) hd by (auto simp: task_frame_def frame_def task_ok_def task_rest_def)
  have ok: "task_ok ?t1" "task_ok ?t2" using assms(1) by (auto simp: task_ok_def)
  have rest: "task_rest ?t1 = drop 11 ?F" "task_rest ?t2 = drop 12 ?F" by (simp_all add: task_rest_def)
  have "write_data (Tx_again # txs) ?t2 = Some (?t1, [], txs, Wr_break)" using ok(2) by (simp add: write_data_cases)
  then have w1: "write_task (Tx_room 12 # Tx_again # txs) t = Some (?t1, take 12 ?F, txs, Wr_break)"
    using assms(1,2) hd F(3) by (simp add: write_task_head)
  obtain e where "write_data (Tx_room k # txs) ?t2 = Some (t\<lparr>wt_write_index := 12 + int (task_size t)\<rparr>, drop 12 ?F, txs, e)"
    using ok(2) rest(2) F(2) assms(4) by (simp add: write_data_cases)
  then have w2: "write_task (Tx_room n # Tx_room k # txs) ?t1 = Some (t\<lparr>wt_write_index := 12 + int (task_size t)\<rparr>, take 1 (drop 11 ?F) @ drop 12 ?F, txs, e)"
    using ok(1) hd rest(1) assms(3) by (simp add: write_task_head)
  have "take 1 (drop 11 ?F) @ drop 12 ?F = drop 11 ?F" using append_take_drop_id [of 1 "drop 11 ?F"] by simp
  with w1 w2 have "write_task (Tx_room 12 # Tx_again # txs) t = Some (?t1, take 12 ?F, txs, Wr_break) \<and>
    write_task (Tx_room n # Tx_room k # txs) ?t1 = Some (t\<lparr>wt_write_index := 12 + int (task_size t)\<rparr>, drop 11 ?F, txs, e)" by simp
  moreover have "length (take 12 ?F @ drop 11 ?F) \<noteq> length ?F" using F(2) by simp
  then have "take 12 ?F @ drop 11 ?F \<noteq> ?F" by metis
  ultimately show ?thesis by (intro exI conjI) auto
qed

text \<open>
  C3 (equivalence). However the stream of response frames is cut into segments, and with whatever
  empty reads in between, the read thread (started again while there is something to read) calls the
  listeners exactly as the reference dispatcher does on the list of the messages: each message once, in
  order, with its own data. No step is undefined, every block of the worker's pool is given back, and
  the channel's count of outstanding requests goes down by one for each message.
\<close>

theorem acm_reassembly:
  assumes "ac_is_head (rd_channel s) = 1" and "ac_head_read_index (rd_channel s) = 0" and "length (ac_head (rd_channel s)) = ACM_MSG_HEAD_SIZE"
    and "rx_clean (rd_rx s)" and "rx_bytes (rd_rx s) = concat (map msg_frame xs)" and "list_all msg_ok xs"
    and "worker_idle (rd_mem s) (rd_pool s)" and "supply_ok s (length xs)"
    and "dispatch_all (rd_handle s) xs = Some (h, calls)" and "rx_weight (rd_rx s) \<le> length rcs"
  shows "\<exists>s'. read_runs rcs s = Some s' \<and> rd_rx s' = [] \<and> rd_calls s' = rd_calls s @ calls \<and> rd_handle s' = h \<and>
    worker_idle (rd_mem s') (rd_pool s') \<and> ac_request_num (rd_channel s') = ac_request_num (rd_channel s) - of_nat (length calls)"
proof -
  let ?res = "(h, rd_calls s @ calls)" and ?req = "ac_request_num (rd_channel s) + of_nat (length (rd_calls s))"
  have "in_head s xs" using assms(1,2,5,7,8) by (simp add: in_head_def)
  then have "reader_rel ?res ?req s xs" using assms(3,4,6,9) by (simp add: reader_rel_def reader_inv_def)
  then obtain s' where s': "read_runs rcs s = Some s'" "reader_rel ?res ?req s' []" "rd_rx s' = []"
    using read_runs_total assms(10) by blast
  have "\<not> in_data s' []" by (simp add: in_data_def)
  then have "in_head s' []" using s'(2) by (simp add: reader_rel_def reader_inv_def)
  then have "worker_idle (rd_mem s') (rd_pool s')" by (simp add: in_head_def Let_def)
  moreover have "rd_calls s' = rd_calls s @ calls" "rd_handle s' = h" using s'(2) by (simp_all add: reader_rel_def)
  moreover have "ac_request_num (rd_channel s') + of_nat (length (rd_calls s')) = ?req" using s'(2) unfolding reader_rel_def by blast
  ultimately have "(ac_request_num (rd_channel s') + of_nat (length calls)) + of_nat (length (rd_calls s)) = ?req" by (simp add: ac_simps)
  then have "ac_request_num (rd_channel s') = ac_request_num (rd_channel s) - of_nat (length calls)"
    by (metis add_right_cancel eq_diff_eq)
  then show ?thesis
    using s'(1,3) \<open>worker_idle (rd_mem s') (rd_pool s')\<close> \<open>rd_calls s' = rd_calls s @ calls\<close> \<open>rd_handle s' = h\<close> by blast
qed

text \<open>A response to request 6, which arrives in two segments with an empty read in between.\<close>

definition rd_demo_msg :: acm_message where
  "rd_demo_msg = (\<lparr>mh_req_id = 6, mh_data_size = 3\<rparr>, [49, 50, 51])"

definition rd_demo :: acm_reader where
  "rd_demo = \<lparr>rd_handle = ac_demo_handle, rd_channel = ac_demo ac_demo_queue 1 True,
     rd_mem = fst (the (worker_mmpl demo0 1000)), rd_pool = snd (the (worker_mmpl demo0 1000)),
     rd_rx = [Rx_data (take 5 (msg_frame rd_demo_msg)), Rx_again, Rx_data (drop 5 (msg_frame rd_demo_msg))],
     rd_malloc = [5000], rd_calls = []\<rparr>"

theorem acm_reassembly_witness:
  "\<exists>s'. read_runs (replicate 18 0) rd_demo = Some s' \<and> rd_rx s' = [] \<and> rd_calls s' = [(80, 90, [49, 50, 51])] \<and>
    worker_idle (rd_mem s') (rd_pool s') \<and> ac_request_num (rd_channel s') = 0"
proof -
  have len: "length (msg_frame rd_demo_msg) = 15" by (simp add: msg_frame_def frame_take(3) rd_demo_msg_def)
  have w: "worker_mmpl demo0 1000 = Some (the (worker_mmpl demo0 1000))" by (simp add: worker_mmpl_def mmpl_create_def)
  have i: "worker_idle (rd_mem rd_demo) (rd_pool rd_demo)"
    using worker_mmpl_idle [of demo0 1000] w by (simp add: rd_demo_def demo0_def)
  have c: "cells (rd_mem rd_demo) 5000 = None" by (simp add: rd_demo_def worker_mmpl_def mmpl_create_def demo0_def)
  obtain h where d: "dispatch_all (rd_handle rd_demo) [rd_demo_msg] = Some (h, [(80, 90, [49, 50, 51])])"
    by (simp add: table_dispatch_def c_rem_def rd_demo_def rd_demo_msg_def ac_demo_handle_def)
  have "\<exists>s'. read_runs (replicate 18 0) rd_demo = Some s' \<and> rd_rx s' = [] \<and> rd_calls s' = rd_calls rd_demo @ [(80, 90, [49, 50, 51])] \<and>
      rd_handle s' = h \<and> worker_idle (rd_mem s') (rd_pool s') \<and>
      ac_request_num (rd_channel s') = ac_request_num (rd_channel rd_demo) - of_nat (length [(80 :: nat, 90 :: nat, [49, 50, 51 :: u8])])"
    by (rule acm_reassembly [OF _ _ _ _ _ _ i _ d])
      (use len c in \<open>auto simp: rd_demo_def ac_demo_def supply_ok_def msg_ok_def rd_demo_msg_def\<close>)
  moreover have "rd_calls rd_demo = []" "ac_request_num (rd_channel rd_demo) = 1" by (simp_all add: rd_demo_def ac_demo_def)
  ultimately show ?thesis by auto
qed

text \<open>
  C15 (functional). As long as the numbers of the waiting requests lie within one length of the table
  before the new number (and fewer than \<open>2 ^ 31\<close> requests were made), a request is accepted: its task
  enters the write queue, its entry in the table is its own, and the response with its number is
  handed to its own listener and argument.
\<close>

theorem request_routes:
  assumes "table_ok h" and "rid = ah_request_id h + 1" and "unat (ah_request_id h) + 1 < 2 ^ 31"
    and "\<forall>w\<in>waiting h. w < unat rid \<and> unat rid < w + map_size h" and "listening \<noteq> NULL"
    and "queue_wf (ah_max_write_queue_len h) ch" and "length (queue_of (ah_max_write_queue_len h) ch) < nat (sint (ah_max_write_queue_len h))"
    and "unat (ac_write_queue_tail ch) + 1 < 2 ^ 64"
  shows "\<exists>h' ch' h''. acm_request h (Some ch) buf sz listening arg 0 = Some (h', Some ch', 1) \<and> table_ok h' \<and>
    queue_of (ah_max_write_queue_len h) ch' = queue_of (ah_max_write_queue_len h) ch @ [request_task rid buf sz] \<and>
    table_dispatch h' (\<lparr>mh_req_id = rid, mh_data_size = n\<rparr>, data) = Some (h'', (listening, arg, data))"
  by (rule request_routed [OF assms])

theorem request_routes_witness:
  "\<exists>h' ch' h''. acm_request ac_demo_handle (Some (ac_demo ac_demo_queue 1 True)) [104, 105] 2 81 91 0 = Some (h', Some ch', 1) \<and> table_ok h' \<and>
    queue_of 4 ch' = [] @ [request_task 7 [104, 105] 2] \<and>
    table_dispatch h' (\<lparr>mh_req_id = 7, mh_data_size = 1\<rparr>, [79]) = Some (h'', (81, 91, [79]))"
proof -
  have h: "ah_max_write_queue_len ac_demo_handle = 4" "ah_request_id ac_demo_handle + 1 = 7" "unat (ah_request_id ac_demo_handle) + 1 < 2 ^ 31"
      "map_size ac_demo_handle = 4" by (simp_all add: ac_demo_handle_def)
  have t: "table_ok ac_demo_handle" by (auto simp: table_ok_def ac_demo_handle_def nth_Cons' split: if_splits)
  have w: "waiting ac_demo_handle = {6}" by (auto simp: waiting_def ac_demo_handle_def intro!: exI [of _ "\<lparr>me_req_id = 6, me_listening = 80, me_arg = 90\<rparr>"])
  have q: "queue_wf 4 (ac_demo ac_demo_queue 1 True)" "queue_of 4 (ac_demo ac_demo_queue 1 True) = []"
    by (simp_all add: ac_demo_def ring_wf_def)
  show ?thesis
    using request_routes [OF t h(2) [symmetric] h(3), of 81 "ac_demo ac_demo_queue 1 True" "[104, 105]" 2 91 1 "[79]"] q
    unfolding h w by (simp add: ac_demo_def)
qed

text \<open>
  C30 (error). When the entry of the new number still belongs to another request, \<open>acm_hold_request\<close>
  refuses, but \<open>acm_request\<close> ignores that: it queues the frame and returns 1, and the response to the
  new request is handed to the listener and the argument of the other one.
\<close>

theorem request_misrouted:
  assumes "table_ok h" and "rid = ah_request_id h + 1" and "unat (ah_request_id h) + 1 < 2 ^ 31"
    and "e = ah_request_map h ! (unat rid mod map_size h)" and "me_req_id e \<noteq> 0"
    and "queue_wf (ah_max_write_queue_len h) ch" and "length (queue_of (ah_max_write_queue_len h) ch) < nat (sint (ah_max_write_queue_len h))"
    and "unat (ac_write_queue_tail ch) + 1 < 2 ^ 64"
  shows "\<exists>h' ch' h''. acm_request h (Some ch) buf sz listening arg 0 = Some (h', Some ch', 1) \<and>
    queue_of (ah_max_write_queue_len h) ch' = queue_of (ah_max_write_queue_len h) ch @ [request_task rid buf sz] \<and>
    table_dispatch h' (\<lparr>mh_req_id = rid, mh_data_size = n\<rparr>, data) = Some (h'', (me_listening e, me_arg e, data))"
proof -
  let ?h = "h\<lparr>ah_request_id := rid\<rparr>" and ?k = "unat rid mod map_size h"
  have tab: "0 < map_size h" "length (ah_request_map h) = map_size h" "me_listening e \<noteq> NULL"
    using assms(1,4,5) by (auto simp: table_ok_def)
  have rid: "unat rid < 2 ^ 31" using assms(2,3) by (simp add: unat_word_ariths)
  have hold: "acm_hold_request ?h rid listening arg = Some (?h, - 2)"
    using hold_slot [of ?h rid] tab assms(4,5) by simp
  obtain ch' where ch': "acm_request h (Some ch) buf sz listening arg 0 = Some (?h, Some ch', 1)"
      "queue_of (ah_max_write_queue_len h) ch' = queue_of (ah_max_write_queue_len h) ch @ [request_task rid buf sz]"
    using request_queues [OF assms(6-8,3) hold [unfolded assms(2)], of buf sz] assms(2) by auto
  moreover have "table_dispatch ?h (\<lparr>mh_req_id = rid, mh_data_size = n\<rparr>, data) =
      Some (?h\<lparr>ah_request_map := (ah_request_map ?h)[?k := e\<lparr>me_listening := NULL, me_req_id := 0\<rparr>]\<rparr>, (me_listening e, me_arg e, data))"
    using dispatch_slot [of ?h rid "\<lparr>mh_req_id = rid, mh_data_size = n\<rparr>" e data] tab rid assms(4) by simp
  ultimately show ?thesis by blast
qed

theorem request_misrouted_witness:
  "\<exists>h' ch' h''. acm_request (ac_demo_handle\<lparr>ah_request_id := 9\<rparr>) (Some (ac_demo ac_demo_queue 1 True)) [104, 105] 2 81 91 0 = Some (h', Some ch', 1) \<and>
    queue_of 4 ch' = [] @ [request_task 10 [104, 105] 2] \<and>
    table_dispatch h' (\<lparr>mh_req_id = 10, mh_data_size = 1\<rparr>, [79]) = Some (h'', (80, 90, [79]))"
proof -
  let ?h = "ac_demo_handle\<lparr>ah_request_id := 9\<rparr>" and ?e = "\<lparr>me_req_id = 6, me_listening = 80, me_arg = 90\<rparr>"
  have h: "ah_max_write_queue_len ?h = 4" "ah_request_id ?h + 1 = 10" "unat (ah_request_id ?h) + 1 < 2 ^ 31"
      "map_size ?h = 4" "?e = ah_request_map ?h ! (unat (10 :: u64) mod map_size ?h)"
    by (simp_all add: ac_demo_handle_def)
  have t: "table_ok ?h" by (auto simp: table_ok_def ac_demo_handle_def nth_Cons' split: if_splits)
  have q: "queue_wf 4 (ac_demo ac_demo_queue 1 True)" "queue_of 4 (ac_demo ac_demo_queue 1 True) = []"
    by (simp_all add: ac_demo_def ring_wf_def)
  show ?thesis
    using request_misrouted [OF t h(2) [symmetric] h(3) h(5), of "ac_demo ac_demo_queue 1 True" "[104, 105]" 2 81 91 1 "[79]"] q
    unfolding h(1) by (simp add: ac_demo_def)
qed

text \<open>
  The number of a request is an \<open>int\<close>: from the request number \<open>2 ^ 31\<close> on it is negative
  in the frame, and the response to such a request leads to an access before the table, unless the
  number happens to be a multiple of the table's length.
\<close>

lemma request_number_overflow:
  assumes "h = rd_handle s" and "2 ^ 31 \<le> unat (ah_request_id h + 1)" and "unat (ah_request_id h + 1) < 2 ^ 32" and "0 < map_size h"
    and "mh_req_id (am_head msg) = (scast (ucast (ah_request_id h + 1) :: s32) :: u64)"
    and "\<not> map_size h dvd 2 ^ 32 - unat (ah_request_id h + 1)"
  shows "read_dispatch s msg = None"
proof -
  define w where "w = unat (ah_request_id h + 1)"
  have w: "w < 2 ^ 32" "\<not> map_size h dvd 2 ^ 32 - w" using assms(3,6) by (simp_all only: w_def not_False_eq_True)
  then have "sint (mh_req_id (am_head msg)) = - int (2 ^ 32 - w)"
    using rid_large [OF assms(2,3)] unfolding assms(5) w_def [symmetric] by simp
  moreover have "sint (ah_max_hold_req_num h) = int (map_size h)" using assms(4) by simp
  ultimately obtain k where "c_rem (sint (mh_req_id (am_head msg))) (sint (ah_max_hold_req_num h)) = Some k" "k < 0"
    using c_rem_neg [of "2 ^ 32 - w" "map_size h"] w assms(4) by fastforce
  then show ?thesis by (simp add: read_dispatch_def Let_def assms(1))
qed

end
