(* ===== verification/Cjson_Safe.thy ===== *)
theory Cjson_Safe
  imports Cjson_Parse
begin

unbundle bit_operations_syntax

text \<open>
  The parser of JSON is safe on every text: it reads only inside the text, writes only inside its
  allocations, and ends.
\<close>

section \<open>Strings\<close>

text \<open>The escapes that the first loop counts: no two of them begin side by side.\<close>

lemma string_end_escapes:
  assumes "string_end cs i k = Some (e, k')"
  shows "\<exists>E. E \<subseteq> {i..<e} \<and> k' = k + card E \<and> (\<forall>j\<in>E. cs ! j = 0x5C \<and> j + 1 \<notin> E) \<and> i \<le> e \<and> e < length cs"
  using assms
proof (induction cs i k rule: string_end.induct)
  case (1 cs i k)
  show ?case
  proof (cases "i < length cs \<and> cs ! i \<noteq> 0x22")
    case True
    show ?thesis
    proof (cases "cs ! i = 0x5C")
      case esc: True
      then have "string_end cs (i + 2) (k + 1) = Some (e, k')" "\<not> length cs \<le> i + 1"
        using "1.prems" True by (auto simp: string_end.simps [of cs i k] split: if_splits)
      then obtain E where E: "E \<subseteq> {i + 2..<e}" "k' = k + 1 + card E" "\<forall>j\<in>E. cs ! j = 0x5C \<and> j + 1 \<notin> E" "i + 2 \<le> e" "e < length cs"
        using "1.IH"(1) True esc by auto
      have "i \<notin> E" "finite E" using E(1) finite_subset by auto
      then have "insert i E \<subseteq> {i..<e}" "k' = k + card (insert i E)" "\<forall>j\<in>insert i E. cs ! j = 0x5C \<and> j + 1 \<notin> insert i E"
        using E esc by auto
      then show ?thesis using E(4,5) by (intro exI [of _ "insert i E"]) auto
    next
      case False
      then have "string_end cs (i + 1) k = Some (e, k')" using "1.prems" True by (simp add: string_end.simps [of cs i k])
      then obtain E where "E \<subseteq> {i + 1..<e}" "k' = k + card E" "\<forall>j\<in>E. cs ! j = 0x5C \<and> j + 1 \<notin> E" "i + 1 \<le> e" "e < length cs"
        using "1.IH"(2) True False by auto
      then show ?thesis by (intro exI [of _ E]) auto
    qed
  next
    case False
    then have "e = i" "k' = k" "i < length cs" using "1.prems" by (auto simp: string_end.simps [of cs i k] split: if_splits)
    then show ?thesis by (intro exI [of _ "{}"]) auto
  qed
qed

text \<open>The number of escapes that begin before \<open>p\<close>.\<close>

definition starts :: "nat set \<Rightarrow> nat \<Rightarrow> nat" where
  "starts E p = card (E \<inter> {..<p})"

lemma starts_plain: "p \<notin> E \<Longrightarrow> starts E (p + 1) = starts E p"
  by (simp add: starts_def lessThan_Suc)

lemma starts_two:
  assumes "\<forall>j\<in>E. j + 1 \<notin> E"
  shows "starts E (p + 2) \<le> starts E p + 1"
proof -
  have e: "E \<inter> {..<p + 2} = (E \<inter> {..<p}) \<union> (E \<inter> {p, p + 1})" by auto
  moreover have "card (E \<inter> {p, p + 1}) \<le> 1" using assms by (cases "p \<in> E"; cases "p + 1 \<in> E") auto
  moreover have "card ((E \<inter> {..<p}) \<union> (E \<inter> {p, p + 1})) \<le> card (E \<inter> {..<p}) + card (E \<inter> {p, p + 1})" by (rule card_Un_le)
  ultimately show ?thesis unfolding starts_def e by linarith
qed

lemma starts_even:
  assumes "\<forall>j\<in>E. j + 1 \<notin> E"
  shows "starts E (p + 2 * n) \<le> starts E p + n"
proof (induction n)
  case (Suc n)
  have e: "p + 2 * Suc n = (p + 2 * n) + 2" by simp
  show ?case unfolding e using starts_two [OF assms, of "p + 2 * n"] Suc.IH by linarith
qed simp

lemma starts_rest:
  assumes "E \<subseteq> {i..<e}" and "p \<le> e"
  shows "card E \<le> starts E p + (e - p)"
proof -
  have "E \<subseteq> (E \<inter> {..<p}) \<union> {p..<e}" using assms(1) by auto
  then have "card E \<le> card (E \<inter> {..<p}) + card {p..<e}"
    by (meson card_mono card_Un_le finite_Int finite_Un finite_atLeastLessThan finite_lessThan le_trans)
  then show ?thesis by (simp add: starts_def)
qed

lemma starts_all: "E \<subseteq> {i..<e} \<Longrightarrow> e \<le> p \<Longrightarrow> starts E p = card E"
  by (simp add: starts_def) (metis Int_absorb2 atLeastLessThan_iff lessThan_iff order_less_le_trans subset_eq)

text \<open>What a literal of four hexadecimal digits stands for needs at most three bytes.\<close>

lemma hex_digit_less: "hex_digit c = Some d \<Longrightarrow> unat d < 16"
proof -
  assume h: "hex_digit c = Some d"
  have u: "unat (ucast c :: u32) = unat c" using unsigned_less [of c, where ?'a = nat] by (simp add: unsigned_ucast_eq take_bit_nat_eq_self)
  consider "48 \<le> c" "c \<le> 57" "d = ucast c - 48" | "65 \<le> c" "c \<le> 70" "d = 10 + ucast c - 65" | "97 \<le> c" "c \<le> 102" "d = 10 + ucast c - 97"
    using h by (auto simp: hex_digit_def split: if_splits)
  then show ?thesis
    by cases (simp_all add: word_le_nat_alt unat_sub_if' unat_word_ariths u)
qed

lemma hex_step: "unat h + unat d < 2 ^ k \<Longrightarrow> k \<le> 16 \<Longrightarrow> unat (push_bit 4 (h + d :: u32)) = 16 * (unat h + unat d)"
proof -
  assume a: "unat h + unat d < 2 ^ k" "k \<le> 16"
  then have "unat h + unat d < 2 ^ 16" by (meson less_le_trans one_le_numeral power_increasing)
  then show ?thesis by (simp add: push_bit_eq_mult unat_word_ariths)
qed

lemma hex_loop_less:
  assumes "length cs = 4"
  shows "unat (hex_loop 0 cs 0) < 2 ^ 16"
proof -
  obtain a b c d where cs: "cs = [a, b, c, d]" using assms by (auto simp: length_Suc_conv numeral_eq_Suc)
  show ?thesis
  proof (cases "\<exists>x\<in>set cs. hex_digit x = None")
    case True
    then have "hex_loop 0 cs 0 = 0" unfolding cs by (auto split: option.splits)
    then show ?thesis by simp
  next
    case False
    then obtain x y z w where x: "hex_digit a = Some x" "hex_digit b = Some y" "hex_digit c = Some z" "hex_digit d = Some w" unfolding cs by auto
    note l = x [THEN hex_digit_less]
    define h1 h2 h3 where "h1 = push_bit 4 (0 + x)" and "h2 = push_bit 4 (h1 + y)" and "h3 = push_bit 4 (h2 + z)"
    have 1: "unat h1 = 16 * unat x" unfolding h1_def using hex_step [of 0 x 4] l(1) by simp
    have 2: "unat h2 = 16 * (unat h1 + unat y)" unfolding h2_def by (rule hex_step [of _ _ 8]) (use 1 l in simp_all)
    have 3: "unat h3 = 16 * (unat h2 + unat z)" unfolding h3_def by (rule hex_step [of _ _ 12]) (use 1 2 l in simp_all)
    have "hex_loop 0 cs 0 = h3 + w" using x unfolding cs h1_def h2_def h3_def by simp
    moreover have "unat (h3 + w) = unat h3 + unat w" using 1 2 3 l by (simp add: unat_word_ariths)
    ultimately show ?thesis using 1 2 3 l by simp
  qed
qed

lemma parse_hex4_in: "i + 4 \<le> length cs \<Longrightarrow> \<exists>h. parse_hex4 cs i = Some h \<and> unat h < 2 ^ 16"
  using hex_loop_less [of "take 4 (drop i cs)"] by (simp add: parse_hex4_def)

lemma utf8_tail_length: "length (snd (utf8_tail n cp out)) = n + length out"
  by (induction n cp out rule: utf8_tail.induct) auto

lemma utf8_encode_length:
  assumes "utf8_encode cp = Some out"
  shows "length out \<le> 4" "cp < 0x10000 \<Longrightarrow> length out \<le> 3"
  using assms utf8_tail_length [of 1 cp "[]"] utf8_tail_length [of 2 cp "[]"] utf8_tail_length [of 3 cp "[]"]
  by (auto simp: utf8_encode_def split: if_splits prod.splits)

lemma ucast_small: "unat (h :: u32) < 2 ^ 16 \<Longrightarrow> (ucast h :: u64) < 0x10000"
proof -
  assume h: "unat h < 2 ^ 16"
  have "unat (ucast h :: u64) = unat h" using unsigned_less [of h, where ?'a = nat] by (simp add: unsigned_ucast_eq take_bit_nat_eq_self)
  then show ?thesis using h by (simp add: word_less_nat_alt)
qed

text \<open>An escape is read inside the string and gives fewer bytes than it has pairs of characters.\<close>

lemma utf16_in:
  assumes "e \<le> length cs"
  shows "\<exists>r. utf16_codepoint cs p e = Some r \<and> (\<forall>cp n. r = Some (cp, n) \<longrightarrow> n = 6 \<and> p + 6 \<le> e \<and> cp < 0x10000 \<or> n = 12 \<and> p + 12 \<le> e)"
proof (cases "e < p + 6")
  case False
  obtain h where h: "parse_hex4 cs (p + 2) = Some h" "unat h < 2 ^ 16" using parse_hex4_in [of "p + 2" cs] False assms by auto
  show ?thesis
  proof (cases "e < p + 12")
    case True
    then show ?thesis using False h ucast_small [OF h(2)] by (auto simp: utf16_codepoint_def)
  next
    case c: False
    obtain g where g: "parse_hex4 cs (p + 8) = Some g" using parse_hex4_in [of "p + 8" cs] c assms by auto
    show ?thesis using False c h(1) g assms ucast_small [OF h(2)] by (auto simp: utf16_codepoint_def)
  qed
qed (simp add: utf16_codepoint_def)

lemma unescape_in:
  assumes "p < e" and "e \<le> length cs"
  shows "\<exists>r. unescape cs p e c = Some r \<and>
    (\<forall>bs n. r = Some (bs, n) \<longrightarrow> (\<exists>k. n = 2 * k \<and> length bs \<le> k \<and> 0 < k) \<and> p + n \<le> e + 1)"
proof -
  obtain r where r: "utf16_codepoint cs p e = Some r" "\<forall>cp n. r = Some (cp, n) \<longrightarrow> n = 6 \<and> p + 6 \<le> e \<and> cp < 0x10000 \<or> n = 12 \<and> p + 12 \<le> e"
    using utf16_in [OF assms(2)] by blast
  have u: "\<exists>k. n = 2 * k \<and> length bs \<le> k \<and> 0 < k" "p + n \<le> e + 1" if "r = Some (cp, n)" "utf8_encode cp = Some bs" for cp n bs
  proof -
    note rn = r(2) [rule_format, OF that(1)]
    show "p + n \<le> e + 1" using rn by auto
    consider "n = 6" "cp < 0x10000" | "n = 12" using rn by blast
    then show "\<exists>k. n = 2 * k \<and> length bs \<le> k \<and> 0 < k"
    proof cases
      case 1
      then show ?thesis using utf8_encode_length(2) [OF that(2)] by (intro exI [of _ 3]) auto
    next
      case 2
      then show ?thesis using utf8_encode_length(1) [OF that(2)] by (intro exI [of _ 6]) auto
    qed
  qed
  have "\<exists>r'. utf16_literal_to_utf8 cs p e = Some r' \<and> (\<forall>bs n. r' = Some (bs, n) \<longrightarrow> (\<exists>k. n = 2 * k \<and> length bs \<le> k \<and> 0 < k) \<and> p + n \<le> e + 1)"
    using r(1) u by (auto simp: utf16_literal_to_utf8_def split: option.splits)
  then show ?thesis using assms(1) unfolding unescape_def by (auto intro!: exI [of _ 1])
qed

text \<open>The copy stays inside the allocation.\<close>

lemma copy_string_safe:
  assumes "E \<subseteq> {i..<e}" and "\<forall>j\<in>E. cs ! j = 0x5C \<and> j + 1 \<notin> E" and "e < length cs"
    and "i \<le> p" and "p \<le> e + 1" and "length out + starts E p \<le> p - i" and "cap + card E = e - i + 2"
  shows "\<exists>r. copy_string cs p e cap out = Some r"
  using assms(4-6)
proof (induction "e + 1 - p" arbitrary: p out rule: less_induct)
  case less
  have adj: "\<forall>j\<in>E. j + 1 \<notin> E" using assms(2) by blast
  have room: "length bs \<le> cap" if "length bs + starts E q \<le> q - i" "q \<le> e + 1" "i \<le> q" for bs :: "u8 list" and q
  proof (cases "q \<le> e")
    case True
    then show ?thesis using starts_rest [OF assms(1) True] that assms(7) by linarith
  next
    case False
    then show ?thesis using starts_all [OF assms(1), of q] that assms(7) by linarith
  qed
  show ?case
  proof (cases "e \<le> p")
    case True
    then have "starts E p = card E" using starts_all [OF assms(1)] by simp
    then have "length out < cap" using less.prems True assms(7) by linarith
    then show ?thesis using True by (subst copy_string.simps) simp
  next
    case False
    then have p: "p < e" "p < length cs" "p + 1 < length cs" using assms(3) by auto
    show ?thesis
    proof (cases "cs ! p = 0x5C")
      case True
      obtain r where r: "unescape cs p e (cs ! (p + 1)) = Some r"
          "\<forall>bs n. r = Some (bs, n) \<longrightarrow> (\<exists>k. n = 2 * k \<and> length bs \<le> k \<and> 0 < k) \<and> p + n \<le> e + 1"
        using unescape_in [OF p(1), of cs "cs ! (p + 1)"] assms(3) by auto
      show ?thesis
      proof (cases r)
        case None
        then show ?thesis using r(1) p True by (subst copy_string.simps) simp
      next
        case (Some x)
        then obtain bs k where k: "r = Some (bs, 2 * k)" "length bs \<le> k" "0 < k" "p + 2 * k \<le> e + 1" using r(2) by (cases x) auto
        have inv: "length (out @ bs) + starts E (p + 2 * k) \<le> p + 2 * k - i"
          using starts_even [OF adj, of p k] less.prems k(2) by simp
        then have "length (out @ bs) \<le> cap" using room [of "out @ bs" "p + 2 * k"] k(4) less.prems(1) by simp
        then have "copy_string cs p e cap out = copy_string cs (p + 2 * k) e cap (out @ bs)"
          using r(1) p True k(1) by (subst copy_string.simps) simp
        then show ?thesis using less.hyps [of "p + 2 * k" "out @ bs"] k(3,4) less.prems(1) inv p(1) by simp
      qed
    next
      case False
      then have "starts E (p + 1) = starts E p" using assms(2) by (intro starts_plain) auto
      then have inv: "length (out @ [cs ! p]) + starts E (p + 1) \<le> p + 1 - i" using less.prems by simp
      then have "length out < cap" using room [of "out @ [cs ! p]" "p + 1"] p(1) less.prems(1) by simp
      then have "copy_string cs p e cap out = copy_string cs (p + 1) e cap (out @ [cs ! p])" using p False by (subst copy_string.simps) simp
      then show ?thesis using less.hyps [of "p + 1" "out @ [cs ! p]"] p(1) less.prems(1) inv by simp
    qed
  qed
qed

section \<open>The buffer\<close>

text \<open>A buffer ends with a zero byte and its offset is inside; a parser that succeeds moves it forward.\<close>

definition pb_ok :: "parse_buffer \<Rightarrow> bool" where
  "pb_ok b \<longleftrightarrow> pb_offset b < length (pb_content b) \<and> last (pb_content b) = 0"

definition progress :: "parse_buffer \<Rightarrow> parse_buffer \<Rightarrow> bool" where
  "progress b b' \<longleftrightarrow> pb_content b' = pb_content b \<and> pb_offset b < pb_offset b' \<and> pb_offset b' \<le> length (pb_content b)"

lemma pb_ok_last: "pb_ok b \<Longrightarrow> pb_content b ! (length (pb_content b) - 1) = 0"
  by (cases "pb_content b = []") (auto simp: pb_ok_def last_conv_nth)

lemma skip_loop_bounds: "i \<le> length cs \<Longrightarrow> i \<le> skip_loop cs i \<and> skip_loop cs i \<le> length cs"
proof (induction cs i rule: skip_loop.induct)
  case (1 cs i)
  then show ?case by (cases "i < length cs \<and> cs ! i \<le> 32") (auto simp: skip_loop.simps [of cs i])
qed

lemma skip_whitespace:
  assumes "pb_offset b \<le> length (pb_content b)" and "pb_content b \<noteq> []" and "last (pb_content b) = 0"
  shows "pb_ok (buffer_skip_whitespace b)" "pb_content (buffer_skip_whitespace b) = pb_content b"
    "pb_offset (buffer_skip_whitespace b) < length (pb_content b) - 1 \<Longrightarrow> pb_offset b \<le> pb_offset (buffer_skip_whitespace b)"
    "pb_offset b \<le> length (pb_content b) - 1 \<Longrightarrow> pb_offset b \<le> pb_offset (buffer_skip_whitespace b)"
  using skip_loop_bounds [OF assms(1)] assms(2,3) by (auto simp: buffer_skip_whitespace_def Let_def pb_ok_def)

text \<open>A character other than zero is not the last one.\<close>

lemma at_offset_inner:
  assumes "pb_ok b" and "at_offset b c" and "c \<noteq> 0"
  shows "pb_offset b < length (pb_content b) - 1"
proof -
  have "pb_offset b < length (pb_content b)" "pb_content b ! pb_offset b = c" using assms(2) by (auto simp: at_offset_def can_access_def)
  then show ?thesis using pb_ok_last [OF assms(1)] assms(3) by (cases "pb_offset b = length (pb_content b) - 1") auto
qed

text \<open>The step over one character and the white space behind it.\<close>

lemma next_token:
  assumes "pb_offset b < length (pb_content b) - 1" and "last (pb_content b) = 0"
  shows "pb_ok (buffer_skip_whitespace (advance 1 b))" "pb_content (buffer_skip_whitespace (advance 1 b)) = pb_content b"
    "pb_offset b + 1 \<le> pb_offset (buffer_skip_whitespace (advance 1 b))"
proof -
  have a: "pb_offset (advance 1 b) \<le> length (pb_content (advance 1 b))" "pb_content (advance 1 b) \<noteq> []" "last (pb_content (advance 1 b)) = 0"
      "pb_offset (advance 1 b) \<le> length (pb_content (advance 1 b)) - 1"
    using assms by (auto simp: advance_def)
  show "pb_ok (buffer_skip_whitespace (advance 1 b))" "pb_content (buffer_skip_whitespace (advance 1 b)) = pb_content b"
    using skip_whitespace(1,2) [OF a(1-3)] by (simp_all add: advance_def)
  show "pb_offset b + 1 \<le> pb_offset (buffer_skip_whitespace (advance 1 b))" using skip_whitespace(4) [OF a] by (simp add: advance_def)
qed

lemma parse_string_safe:
  assumes "pb_ok b"
  shows "\<exists>b' r. parse_string ok b = Some (b', r) \<and> (r \<noteq> None \<longrightarrow> progress b b')"
proof (cases "pb_content b ! pb_offset b = 0x22")
  case True
  have in_range: "pb_offset b < length (pb_content b)" using assms by (simp add: pb_ok_def)
  show ?thesis
  proof (cases "string_end (pb_content b) (pb_offset b + 1) 0")
    case None
    then show ?thesis using in_range True by (simp add: parse_string_def Let_def)
  next
    case (Some x)
    obtain e k where x: "x = (e, k)" by fastforce
    obtain E where E: "E \<subseteq> {pb_offset b + 1..<e}" "k = card E" "\<forall>j\<in>E. pb_content b ! j = 0x5C \<and> j + 1 \<notin> E" "pb_offset b + 1 \<le> e"
        "e < length (pb_content b)"
      using string_end_escapes [OF Some [unfolded x]] by auto
    have "card E \<le> e - (pb_offset b + 1)" using card_mono [OF _ E(1)] by simp
    then have cap: "e - pb_offset b - k + 1 + card E = e - (pb_offset b + 1) + 2" using E(2,4) by linarith
    have "starts E (pb_offset b + 1) = 0"
    proof -
      have "E \<inter> {..<pb_offset b + 1} = {}" using E(1) by auto
      then show ?thesis by (simp add: starts_def)
    qed
    then obtain r where r: "copy_string (pb_content b) (pb_offset b + 1) e (e - pb_offset b - k + 1) [] = Some r"
      using copy_string_safe [OF E(1,3,5), of "pb_offset b + 1" "[]", OF _ _ _ cap] E(4) by auto
    have adv: "progress b (b\<lparr>pb_allocs := a, pb_offset := e + 1\<rparr>)" for a using E(4,5) by (simp add: progress_def)
    show ?thesis using in_range True Some x r adv by (cases r) (auto simp: parse_string_def Let_def)
  qed
next
  case False
  then show ?thesis using assms by (simp add: parse_string_def pb_ok_def Let_def)
qed

lemma strtod_length_le: "strtod_length s \<le> length s"
proof -
  have t: "length (takeWhile c_isdigit xs) \<le> length xs" for xs by (rule length_takeWhile_le)
  have e: "strtod_exponent v \<le> length v" for v
  proof (cases v)
    case (Cons c r)
    have "strtod_sign r \<le> length r" by (simp add: strtod_sign_def split: list.splits)
    moreover have "length (takeWhile c_isdigit (drop (strtod_sign r) r)) \<le> length r - strtod_sign r" using t [of "drop (strtod_sign r) r"] by simp
    ultimately have "strtod_sign r + length (takeWhile c_isdigit (drop (strtod_sign r) r)) \<le> length r" by linarith
    then show ?thesis using Cons by (simp add: strtod_exponent_def Let_def)
  qed (simp add: strtod_exponent_def)
  define k t' n u where "k = strtod_sign s" and "t' = drop k s" and "n = length (takeWhile c_isdigit t')" and "u = drop n t'"
  have len: "k \<le> length s" "n \<le> length t'" "length t' = length s - k" "length u = length t' - n"
    using t [of t'] by (simp_all add: k_def t'_def n_def u_def strtod_sign_def split: list.splits)
  show ?thesis
  proof (cases "u \<noteq> [] \<and> hd u = 0x2E")
    case True
    then obtain r where u: "u = 0x2E # r" by (cases u) auto
    define m where "m = length (takeWhile c_isdigit r)"
    have "m \<le> length r" "strtod_exponent (drop m r) \<le> length r - m" using t [of r] e [of "drop m r"] by (simp_all add: m_def)
    moreover have "strtod_length s = (if n + m = 0 then 0 else k + n + (1 + m) + strtod_exponent (drop m r))"
      unfolding strtod_length_def Let_def k_def [symmetric] t'_def [symmetric] n_def [symmetric] u_def [symmetric] u m_def by simp
    moreover have "length u = Suc (length r)" by (simp add: u)
    ultimately show ?thesis using len by (auto split: if_splits)
  next
    case False
    then have "strtod_length s = (if n = 0 then 0 else k + n + strtod_exponent u)"
      unfolding strtod_length_def Let_def k_def [symmetric] t'_def [symmetric] n_def [symmetric] u_def [symmetric] by (cases u) auto
    then show ?thesis using len e [of u] by (auto split: if_splits)
  qed
qed

text \<open>The characters of a number that are copied, without the array.\<close>

lemma copy_number_text:
  assumes "i \<le> 63" and "length a = 64"
  shows "\<exists>r. copy_number cs k i a = Some (take i a @ map Some (takeWhile number_char (take (63 - i) (drop (k + i) cs))) @ Some 0 # r)"
  using assms
proof (induction cs k i a rule: copy_number.induct)
  case (1 cs k i a)
  have w: "Some 0 # drop (Suc i) a = drop i (a[i := Some 0])" "a[i := Some 0] = take i a @ Some 0 # drop (Suc i) a"
    using 1(2,3) by (simp_all add: upd_conv_take_nth_drop)
  show ?case
  proof (cases "i < 63 \<and> k + i < length cs \<and> number_char (cs ! (k + i))")
    case True
    let ?c = "cs ! (k + i)"
    have d: "take (63 - i) (drop (k + i) cs) = ?c # take (63 - (i + 1)) (drop (k + (i + 1)) cs)"
      using True by (simp add: Cons_nth_drop_Suc [symmetric] take_Cons')
    have t: "take (i + 1) (a[i := Some ?c]) = take i a @ [Some ?c]" using 1(3) True by (simp add: take_Suc_conv_app_nth)
    have "\<exists>r. copy_number cs k (i + 1) (a[i := Some ?c]) =
        Some (take (i + 1) (a[i := Some ?c]) @ map Some (takeWhile number_char (take (63 - (i + 1)) (drop (k + (i + 1)) cs))) @ Some 0 # r)"
      by (rule 1(1)) (use True 1(2,3) in simp_all)
    then show ?thesis unfolding t d using True 1(3) by (subst copy_number.simps) simp
  next
    case False
    have "takeWhile number_char (take (63 - i) (drop (k + i) cs)) = []"
    proof (cases "i < 63 \<and> k + i < length cs")
      case True
      then have "drop (k + i) cs = cs ! (k + i) # drop (Suc (k + i)) cs" by (simp add: Cons_nth_drop_Suc)
      then show ?thesis using True False by (simp add: take_Cons')
    qed auto
    then show ?thesis using False 1(2,3) w(2) by (subst copy_number.simps) auto
  qed
qed

lemma string_in_text:
  assumes "0 \<notin> set s"
  shows "string_in (map Some s @ Some 0 # r) = Some s"
proof -
  have "takeWhile (\<lambda>c. c \<noteq> Some 0) (map Some s @ Some 0 # r) = map Some s" using assms by (subst takeWhile_append2) auto
  then show ?thesis by (auto simp: string_in_def comp_def)
qed

lemma parse_number_text:
  "parse_number b = (let s = takeWhile number_char (take 63 (drop (pb_offset b) (pb_content b))); n = strtod_length s in
     if n = 0 then Some (b, None) else Some (advance n b, Some (CJSON cJSON_Number None (take n s) None [])))"
proof -
  let ?s = "takeWhile number_char (take 63 (drop (pb_offset b) (pb_content b)))"
  obtain r where r: "copy_number (pb_content b) (pb_offset b) 0 (replicate 64 None) = Some (map Some ?s @ Some 0 # r)"
    using copy_number_text [of 0 "replicate 64 None" "pb_content b" "pb_offset b"] by auto
  have "0 \<notin> set ?s" by (auto dest!: set_takeWhileD simp: number_char_def c_isdigit_def)
  then show ?thesis unfolding parse_number_def r bind.bind_lunit by (simp add: string_in_text Let_def)
qed

lemma parse_number_safe:
  assumes "pb_ok b"
  shows "\<exists>b' r. parse_number b = Some (b', r) \<and> (r \<noteq> None \<longrightarrow> progress b b')"
proof -
  let ?s = "takeWhile number_char (take 63 (drop (pb_offset b) (pb_content b)))"
  have "length ?s \<le> length (pb_content b) - pb_offset b"
    using length_takeWhile_le [of number_char "take 63 (drop (pb_offset b) (pb_content b))"] by simp
  then have "pb_offset b + strtod_length ?s \<le> length (pb_content b)"
    using strtod_length_le [of ?s] assms unfolding pb_ok_def by linarith
  then show ?thesis by (simp add: parse_number_text Let_def progress_def advance_def)
qed

section \<open>The interface of a parser\<close>

text \<open>
  What the loops over arrays and objects rely on: from every position inside the buffer the parser of
  the elements is defined, and when it succeeds it moves forward.
\<close>

locale safe_parser =
  fixes pv :: "parse_buffer \<Rightarrow> 'a parsed"
  assumes safe: "pb_ok b \<Longrightarrow> \<exists>b' r. pv b = Some (b', r) \<and> (r \<noteq> None \<longrightarrow> progress b b')"
begin

text \<open>The element behind the current character, and the white space behind it.\<close>

lemma element:
  assumes "pb_offset b < length (pb_content b) - 1" and "last (pb_content b) = 0"
  shows "\<exists>b' r. pv (buffer_skip_whitespace (advance 1 b)) = Some (b', r) \<and>
    (r \<noteq> None \<longrightarrow> pb_content b' = pb_content b \<and> pb_ok (buffer_skip_whitespace b') \<and> pb_content (buffer_skip_whitespace b') = pb_content b \<and>
       (\<forall>c. c \<noteq> 0 \<longrightarrow> at_offset (buffer_skip_whitespace b') c \<longrightarrow> pb_offset b + 1 < pb_offset (buffer_skip_whitespace b') \<and>
          pb_offset (buffer_skip_whitespace b') < length (pb_content b) - 1))"
proof -
  note n = next_token [OF assms]
  obtain b' r where v: "pv (buffer_skip_whitespace (advance 1 b)) = Some (b', r)" "r \<noteq> None \<longrightarrow> progress (buffer_skip_whitespace (advance 1 b)) b'"
    using safe [OF n(1)] by blast
  show ?thesis
  proof (cases "r = None")
    case False
    let ?b = "buffer_skip_whitespace b'"
    have p: "pb_content b' = pb_content b" "pb_offset b + 1 < pb_offset b'" "pb_offset b' \<le> length (pb_content b')" "pb_content b' \<noteq> []"
        "last (pb_content b') = 0"
      using v(2) False n(2,3) assms by (auto simp: progress_def)
    note s = skip_whitespace [OF p(3-5)]
    have "pb_offset b + 1 < pb_offset ?b \<and> pb_offset ?b < length (pb_content b) - 1" if "c \<noteq> 0" "at_offset ?b c" for c
    proof -
      have "pb_offset ?b < length (pb_content b') - 1" using at_offset_inner [OF s(1) that(2,1)] s(2) by simp
      then show ?thesis using s(3) p(1,2) by simp
    qed
    then show ?thesis using v(1) p(1) s(1,2) by auto
  qed (use v in auto)
qed

end

section \<open>Arrays and objects\<close>

lemma array_loop_safe:
  assumes "safe_parser value" and "pb_offset b < length (pb_content b) - 1" and "last (pb_content b) = 0"
  shows "\<exists>b' r. array_loop ok value b items = Some (b', r) \<and> (r \<noteq> None \<longrightarrow> pb_content b' = pb_content b \<and> pb_ok b' \<and> pb_offset b < pb_offset b')"
  using assms(2,3)
proof (induction "length (pb_content b) - pb_offset b" arbitrary: b items rule: less_induct)
  case less
  define b0 where "b0 = b\<lparr>pb_allocs := pb_allocs b + 1\<rparr>"
  have b0: "cJSON_New_Item ok b = (b0, ok (pb_allocs b))" "pb_content b0 = pb_content b" "pb_offset b0 = pb_offset b"
    by (simp_all add: cJSON_New_Item_def b0_def)
  show ?case
  proof (cases "ok (pb_allocs b)")
    case True
    obtain b' r where v: "value (buffer_skip_whitespace (advance 1 b0)) = Some (b', r)"
        "r \<noteq> None \<longrightarrow> pb_content b' = pb_content b0 \<and> pb_ok (buffer_skip_whitespace b') \<and> pb_content (buffer_skip_whitespace b') = pb_content b0 \<and>
          (\<forall>c. c \<noteq> 0 \<longrightarrow> at_offset (buffer_skip_whitespace b') c \<longrightarrow> pb_offset b0 + 1 < pb_offset (buffer_skip_whitespace b') \<and>
             pb_offset (buffer_skip_whitespace b') < length (pb_content b0) - 1)"
      using safe_parser.element [OF assms(1), of b0] less.prems b0(2,3) by auto
    let ?b = "buffer_skip_whitespace b'"
    show ?thesis
    proof (cases r)
      case None
      then show ?thesis using v(1) b0 True by (subst array_loop.simps) simp
    next
      case (Some item)
      have bb: "pb_ok ?b" "pb_content ?b = pb_content b" using v(2) Some b0 by simp_all
      have mv: "pb_offset b + 1 < pb_offset ?b \<and> pb_offset ?b < length (pb_content b) - 1" if "at_offset ?b c" "c \<noteq> 0" for c
        using v(2) Some b0 that by auto
      show ?thesis
      proof (cases "at_offset ?b 0x2C")
        case c: True
        then have "array_loop ok value b items = array_loop ok value ?b (items @ [item])"
          using v(1) Some b0 True by (subst array_loop.simps) (simp add: Let_def)
        moreover have "length (pb_content ?b) - pb_offset ?b < length (pb_content b) - pb_offset b" "pb_offset ?b < length (pb_content ?b) - 1"
          using mv [OF c] bb(2) by auto
        ultimately show ?thesis using less.hyps [of ?b "items @ [item]"] bb(2) less.prems(2) mv [OF c] by fastforce
      next
        case False
        then show ?thesis using v(1) Some b0 True bb mv [of "0x5D"] by (subst array_loop.simps) (auto simp: Let_def)
      qed
    qed
  qed (use b0 in \<open>subst array_loop.simps, simp\<close>)
qed

lemma string_parser: "safe_parser (parse_string ok)"
  by unfold_locales (rule parse_string_safe)

lemma object_loop_safe:
  assumes "safe_parser value" and "pb_offset b < length (pb_content b) - 1" and "last (pb_content b) = 0"
  shows "\<exists>b' r. object_loop ok value b items = Some (b', r) \<and> (r \<noteq> None \<longrightarrow> pb_content b' = pb_content b \<and> pb_ok b' \<and> pb_offset b < pb_offset b')"
  using assms(2,3)
proof (induction "length (pb_content b) - pb_offset b" arbitrary: b items rule: less_induct)
  case less
  define b0 where "b0 = b\<lparr>pb_allocs := pb_allocs b + 1\<rparr>"
  have b0: "cJSON_New_Item ok b = (b0, ok (pb_allocs b))" "pb_content b0 = pb_content b" "pb_offset b0 = pb_offset b"
    by (simp_all add: cJSON_New_Item_def b0_def)
  obtain b1 s where s: "parse_string ok (buffer_skip_whitespace (advance 1 b0)) = Some (b1, s)"
      "s \<noteq> None \<longrightarrow> pb_content (buffer_skip_whitespace b1) = pb_content b0 \<and>
        (\<forall>c. c \<noteq> 0 \<longrightarrow> at_offset (buffer_skip_whitespace b1) c \<longrightarrow> pb_offset b0 + 1 < pb_offset (buffer_skip_whitespace b1) \<and>
           pb_offset (buffer_skip_whitespace b1) < length (pb_content b0) - 1)"
    using safe_parser.element [OF string_parser, of b0 ok] less.prems b0(2,3) by auto
  let ?b1 = "buffer_skip_whitespace b1"
  show ?case
  proof (cases "ok (pb_allocs b) \<and> s \<noteq> None \<and> at_offset ?b1 0x3A")
    case False
    then show ?thesis using s(1) b0(1) by (subst object_loop.simps) (auto split: option.splits simp: Let_def)
  next
    case True
    then obtain name where n: "ok (pb_allocs b)" "s = Some name" "at_offset ?b1 0x3A" by auto
    have c1: "pb_content ?b1 = pb_content b" "pb_offset b < pb_offset ?b1" "pb_offset ?b1 < length (pb_content ?b1) - 1"
      using s(2) n(2,3) b0 by (auto dest: spec [of _ "0x3A"])
    obtain b' r where v: "value (buffer_skip_whitespace (advance 1 ?b1)) = Some (b', r)"
        "r \<noteq> None \<longrightarrow> pb_ok (buffer_skip_whitespace b') \<and> pb_content (buffer_skip_whitespace b') = pb_content ?b1 \<and>
          (\<forall>c. c \<noteq> 0 \<longrightarrow> at_offset (buffer_skip_whitespace b') c \<longrightarrow> pb_offset ?b1 + 1 < pb_offset (buffer_skip_whitespace b') \<and>
             pb_offset (buffer_skip_whitespace b') < length (pb_content ?b1) - 1)"
      using safe_parser.element [OF assms(1) c1(3)] less.prems(2) c1(1) by auto
    let ?b = "buffer_skip_whitespace b'"
    note unf = object_loop.simps [of ok "value" b items]
    show ?thesis
    proof (cases r)
      case None
      then show ?thesis using v(1) s(1) n b0(1) unf by (simp add: Let_def)
    next
      case (Some item)
      have bb: "pb_ok ?b" "pb_content ?b = pb_content b" using v(2) Some c1(1) by simp_all
      have mv: "pb_offset b < pb_offset ?b \<and> pb_offset ?b < length (pb_content b) - 1" if "at_offset ?b c" "c \<noteq> 0" for c
        using v(2) Some c1(1,2) that by fastforce
      show ?thesis
      proof (cases "at_offset ?b 0x2C")
        case c: True
        then have "object_loop ok value b items = object_loop ok value ?b (items @ [with_name name item])"
          using v(1) Some s(1) n b0(1) unf by (simp add: Let_def)
        moreover have "length (pb_content ?b) - pb_offset ?b < length (pb_content b) - pb_offset b" "pb_offset ?b < length (pb_content ?b) - 1"
          using mv [OF c] bb(2) by auto
        ultimately show ?thesis using less.hyps [of ?b "items @ [with_name name item]"] bb(2) less.prems(2) mv [OF c] by fastforce
      next
        case False
        then show ?thesis using v(1) Some s(1) n b0(1) unf bb mv [of "0x7D"] by (auto simp: Let_def)
      qed
    qed
  qed
qed

text \<open>The part behind the opening bracket.\<close>

lemma opened:
  assumes "pb_ok b" and "at_offset b c" and "c \<noteq> 0"
  defines "b1 \<equiv> buffer_skip_whitespace (advance 1 b)"
  shows "pb_ok b1" "can_access b1" "pb_content b1 = pb_content b" "pb_offset b < pb_offset b1" "pb_offset (step_back b1) < length (pb_content b) - 1"
    "pb_content (step_back b1) = pb_content b" "pb_offset b \<le> pb_offset (step_back b1)"
proof -
  have i: "pb_offset b < length (pb_content b) - 1" "last (pb_content b) = 0" using at_offset_inner [OF assms(1-3)] assms(1) by (auto simp: pb_ok_def)
  note n = next_token [OF i, folded b1_def]
  show "pb_ok b1" "pb_content b1 = pb_content b" by (rule n)+
  show "can_access b1" using n(1) by (simp add: can_access_def pb_ok_def)
  show "pb_offset b < pb_offset b1" "pb_offset b \<le> pb_offset (step_back b1)" "pb_content (step_back b1) = pb_content b"
    using n(2,3) by (simp_all add: step_back_def)
  show "pb_offset (step_back b1) < length (pb_content b) - 1" using n by (auto simp: step_back_def pb_ok_def)
qed

lemma progressI:
  assumes "pb_content b' = pb_content b" and "pb_ok b'" and "pb_offset b < pb_offset b'"
  shows "progress b (advance (Suc 0) b')"
  using assms by (auto simp: progress_def advance_def pb_ok_def)

lemma parse_array_safe:
  assumes "safe_parser value" and "pb_ok b"
  shows "\<exists>b' r. parse_array ok value b = Some (b', r) \<and> (r \<noteq> None \<longrightarrow> progress b b')"
proof (cases "at_offset b 0x5B")
  case True
  let ?b1 = "buffer_skip_whitespace (advance 1 b)"
  note o = opened [OF assms(2) True]
  have c: "nth_opt (pb_content b) (pb_offset b) = Some 0x5B" using True by (simp add: at_offset_def can_access_def)
  show ?thesis
  proof (cases "at_offset ?b1 0x5D")
    case e: True
    then show ?thesis using c progressI [OF o(3,1,4)] by (simp add: parse_array_def Let_def)
  next
    case False
    obtain b' r where "array_loop ok value (step_back ?b1) [] = Some (b', r)"
        "r \<noteq> None \<longrightarrow> pb_content b' = pb_content b \<and> pb_ok b' \<and> pb_offset b < pb_offset b'"
      using array_loop_safe [OF assms(1), of "step_back ?b1" ok "[]"] o(5-7) assms(2) by (auto simp: pb_ok_def)
    then show ?thesis using c o(2) False by (cases r) (auto simp: parse_array_def Let_def progressI)
  qed
next
  case False
  then show ?thesis using assms(2) by (auto simp: parse_array_def at_offset_def can_access_def pb_ok_def)
qed

lemma parse_object_safe:
  assumes "safe_parser value" and "pb_ok b"
  shows "\<exists>b' r. parse_object ok value b = Some (b', r) \<and> (r \<noteq> None \<longrightarrow> progress b b')"
proof (cases "at_offset b 0x7B")
  case True
  let ?b1 = "buffer_skip_whitespace (advance 1 b)"
  note o = opened [OF assms(2) True]
  show ?thesis
  proof (cases "at_offset ?b1 0x7D")
    case e: True
    then show ?thesis using True progressI [OF o(3,1,4)] by (simp add: parse_object_def Let_def)
  next
    case False
    obtain b' r where "object_loop ok value (step_back ?b1) [] = Some (b', r)"
        "r \<noteq> None \<longrightarrow> pb_content b' = pb_content b \<and> pb_ok b' \<and> pb_offset b < pb_offset b'"
      using object_loop_safe [OF assms(1), of "step_back ?b1" ok "[]"] o(5-7) assms(2) by (auto simp: pb_ok_def)
    then show ?thesis using True o(2) False by (cases r) (auto simp: parse_object_def Let_def progressI)
  qed
qed (simp add: parse_object_def)

section \<open>Values\<close>

lemma literal_progress:
  assumes "literal_at s b" and "s \<noteq> []"
  shows "progress b (advance (length s) b)"
proof -
  have "pb_offset b < length (pb_content b)"
    using assms unfolding literal_at_def by (metis drop_all linorder_not_less take_Nil)
  moreover have "length s \<le> length (pb_content b) - pb_offset b" using arg_cong [OF assms(1) [unfolded literal_at_def], of length] by simp
  moreover have "0 < length s" using assms(2) by simp
  ultimately show ?thesis unfolding progress_def advance_def by simp
qed

lemma parse_scalar_safe:
  assumes "safe_parser arr" and "safe_parser obj"
  shows "safe_parser (parse_scalar ok arr obj)"
proof
  fix b assume b: "pb_ok b"
  have l: "length (ascii ''null'') = 4" "length (ascii ''false'') = 5" "length (ascii ''true'') = 4" by (simp_all add: ascii_def)
  have ne: "ascii ''null'' \<noteq> []" "ascii ''false'' \<noteq> []" "ascii ''true'' \<noteq> []" by (simp_all add: ascii_def)
  have lp: "literal_at (ascii ''null'') b \<Longrightarrow> progress b (advance 4 b)" "literal_at (ascii ''false'') b \<Longrightarrow> progress b (advance 5 b)"
      "literal_at (ascii ''true'') b \<Longrightarrow> progress b (advance 4 b)"
    using literal_progress [OF _ ne(1), of b] literal_progress [OF _ ne(2), of b] literal_progress [OF _ ne(3), of b] unfolding l by blast+
  show "\<exists>b' r. parse_scalar ok arr obj b = Some (b', r) \<and> (r \<noteq> None \<longrightarrow> progress b b')"
    using parse_string_safe [OF b, of ok] parse_number_safe [OF b] safe_parser.safe [OF assms(1) b] safe_parser.safe [OF assms(2) b] lp
    unfolding parse_scalar_def by (auto split: if_splits)
qed

lemma parse_value_safe: "safe_parser (parse_value ok d)"
proof (induction d)
  case 0
  have "safe_parser (\<lambda>b. Some (b, None :: cJSON option))" by unfold_locales auto
  then have "safe_parser (parse_scalar ok (\<lambda>b. Some (b, None)) (\<lambda>b. Some (b, None)))" by (intro parse_scalar_safe)
  moreover have "parse_value ok 0 = parse_scalar ok (\<lambda>b. Some (b, None)) (\<lambda>b. Some (b, None))" by (rule ext) simp
  ultimately show ?case by simp
next
  case (Suc d)
  have "safe_parser (parse_array ok (parse_value ok d))" "safe_parser (parse_object ok (parse_value ok d))"
    by unfold_locales (rule parse_array_safe [OF Suc.IH] parse_object_safe [OF Suc.IH], assumption)+
  then have "safe_parser (parse_scalar ok (parse_array ok (parse_value ok d)) (parse_object ok (parse_value ok d)))" by (rule parse_scalar_safe)
  moreover have "parse_value ok (Suc d) = parse_scalar ok (parse_array ok (parse_value ok d)) (parse_object ok (parse_value ok d))" by (rule ext) simp
  ultimately show ?case by simp
qed

interpretation pv: safe_parser "parse_value ok d" for ok d
  by (rule parse_value_safe)

lemma parse_defined:
  assumes "0 \<in> set memory"
  shows "\<exists>r. cJSON_Parse ok memory = Some r"
proof -
  define t where "t = takeWhile (\<lambda>c. c \<noteq> 0) memory"
  have "length t < length memory" using assms unfolding t_def by (metis (full_types) length_takeWhile_le le_neq_implies_less takeWhile_eq_all_conv takeWhile_eq_take take_all_iff)
  then have t: "c_str memory 0 = Some t" by (simp add: c_str_def t_def [symmetric])
  let ?b = "\<lparr>pb_content = t @ [0], pb_offset = 0, pb_allocs = Suc 0\<rparr>"
  have "pb_ok (buffer_skip_whitespace ?b)" using skip_whitespace(1) [of ?b] by simp
  then obtain b' r where "parse_value ok CJSON_NESTING_LIMIT (buffer_skip_whitespace ?b) = Some (b', r)" using pv.safe by blast
  then show ?thesis using t by (cases "ok 0") (simp_all add: cJSON_Parse_value cJSON_New_Item_def)
qed

end
