(* ===== verification/Cjson_Grammar.thy ===== *)
theory Cjson_Grammar
  imports Cjson_Safe
begin

unbundle bit_operations_syntax

text \<open>
  A reference syntax of JSON texts, given by rules, and the parser on its texts: what stands in the
  text is what the parser returns.
\<close>

section \<open>The syntax\<close>

definition json_ws :: "u8 list \<Rightarrow> bool" where
  "json_ws w \<longleftrightarrow> (\<forall>c\<in>set w. 0 < c \<and> c \<le> 32)"

text \<open>The escapes of one character.\<close>

definition json_escape :: "u8 \<Rightarrow> u8 option" where
  "json_escape c = map_of [(0x62, 0x08), (0x66, 0x0C), (0x6E, 0x0A), (0x72, 0x0D), (0x74, 0x09), (0x22, 0x22), (0x5C, 0x5C), (0x2F, 0x2F)] c"

text \<open>\<open>json_chars s t\<close>: between the quotes the text \<open>t\<close> stands for the bytes \<open>s\<close>.\<close>

inductive json_chars :: "u8 list \<Rightarrow> u8 list \<Rightarrow> bool" where
  chars_nil: "json_chars [] []"
| chars_plain: "c \<notin> {0, 0x22, 0x5C} \<Longrightarrow> json_chars s t \<Longrightarrow> json_chars (c # s) (c # t)"
| chars_escape: "json_escape c = Some x \<Longrightarrow> json_chars s t \<Longrightarrow> json_chars (x # s) (0x5C # c # t)"
| chars_unicode: "length hs = 4 \<Longrightarrow> (\<forall>h\<in>set hs. hex_digit h \<noteq> None) \<Longrightarrow> cp = hex_loop 0 hs 0 \<Longrightarrow> \<not> (0xD800 \<le> cp \<and> cp \<le> 0xDFFF) \<Longrightarrow>
    utf8_encode (ucast cp) = Some bs \<Longrightarrow> 0 \<notin> set bs \<Longrightarrow> json_chars s t \<Longrightarrow> json_chars (bs @ s) (0x5C # 0x75 # hs @ t)"
| chars_surrogates: "length hs = 4 \<Longrightarrow> length ls = 4 \<Longrightarrow> (\<forall>h\<in>set (hs @ ls). hex_digit h \<noteq> None) \<Longrightarrow> hi = hex_loop 0 hs 0 \<Longrightarrow> lo = hex_loop 0 ls 0 \<Longrightarrow>
    0xD800 \<le> hi \<Longrightarrow> hi \<le> 0xDBFF \<Longrightarrow> 0xDC00 \<le> lo \<Longrightarrow> lo \<le> 0xDFFF \<Longrightarrow>
    utf8_encode (0x10000 + (0x400 * ucast (hi - 0xD800) + ucast (lo - 0xDC00))) = Some bs \<Longrightarrow> 0 \<notin> set bs \<Longrightarrow>
    json_chars s t \<Longrightarrow> json_chars (bs @ s) (0x5C # 0x75 # hs @ 0x5C # 0x75 # ls @ t)"

text \<open>
  \<open>json_value d v t\<close>: the text \<open>t\<close> is the value \<open>v\<close>, with arrays and objects nested at most \<open>d\<close> deep;
  \<open>json_elems\<close> and \<open>json_members\<close> are what stands between the brackets of an array and an object.
\<close>

inductive json_value :: "nat \<Rightarrow> cJSON \<Rightarrow> u8 list \<Rightarrow> bool"
  and json_elems :: "nat \<Rightarrow> cJSON list \<Rightarrow> u8 list \<Rightarrow> bool"
  and json_members :: "nat \<Rightarrow> cJSON list \<Rightarrow> u8 list \<Rightarrow> bool" where
  v_null: "json_value d (CJSON cJSON_NULL None [] None []) (ascii ''null'')"
| v_false: "json_value d (CJSON cJSON_False None [] None []) (ascii ''false'')"
| v_true: "json_value d (CJSON cJSON_True None [] None []) (ascii ''true'')"
| v_string: "json_chars s t \<Longrightarrow> json_value d (CJSON cJSON_String (Some s) [] None []) (0x22 # t @ [0x22])"
| v_number: "t = c # r \<Longrightarrow> c = 0x2D \<or> c_isdigit c \<Longrightarrow> (\<forall>x\<in>set t. number_char x) \<Longrightarrow> length t \<le> 63 \<Longrightarrow> strtod_length t = length t \<Longrightarrow>
    json_value d (CJSON cJSON_Number None t None []) t"
| v_array0: "json_ws w \<Longrightarrow> json_value (Suc d) (CJSON cJSON_Array None [] None []) (0x5B # w @ [0x5D])"
| v_array: "json_elems d vs t \<Longrightarrow> json_value (Suc d) (CJSON cJSON_Array None [] None vs) (0x5B # t @ [0x5D])"
| v_object0: "json_ws w \<Longrightarrow> json_value (Suc d) (CJSON cJSON_Object None [] None []) (0x7B # w @ [0x7D])"
| v_object: "json_members d vs t \<Longrightarrow> json_value (Suc d) (CJSON cJSON_Object None [] None vs) (0x7B # t @ [0x7D])"
| e_one: "json_ws w1 \<Longrightarrow> json_value d v t \<Longrightarrow> json_ws w2 \<Longrightarrow> json_elems d [v] (w1 @ t @ w2)"
| e_more: "json_ws w1 \<Longrightarrow> json_value d v t \<Longrightarrow> json_ws w2 \<Longrightarrow> json_elems d vs r \<Longrightarrow> json_elems d (v # vs) (w1 @ t @ w2 @ 0x2C # r)"
| m_one: "json_ws w1 \<Longrightarrow> json_chars s n \<Longrightarrow> json_ws w2 \<Longrightarrow> json_ws w3 \<Longrightarrow> json_value d v t \<Longrightarrow> json_ws w4 \<Longrightarrow>
    json_members d [with_name s v] (w1 @ 0x22 # n @ 0x22 # w2 @ 0x3A # w3 @ t @ w4)"
| m_more: "json_ws w1 \<Longrightarrow> json_chars s n \<Longrightarrow> json_ws w2 \<Longrightarrow> json_ws w3 \<Longrightarrow> json_value d v t \<Longrightarrow> json_ws w4 \<Longrightarrow> json_members d vs r \<Longrightarrow>
    json_members d (with_name s v # vs) (w1 @ 0x22 # n @ 0x22 # w2 @ 0x3A # w3 @ t @ w4 @ 0x2C # r)"

section \<open>Positions in a buffer\<close>

text \<open>The buffer at the end of \<open>pre\<close>.\<close>

definition at :: "nat \<Rightarrow> u8 list \<Rightarrow> u8 list \<Rightarrow> parse_buffer" where
  "at a pre rest = \<lparr>pb_content = pre @ rest, pb_offset = length pre, pb_allocs = a\<rparr>"

lemma at_simps [simp]: "pb_content (at a pre rest) = pre @ rest" "pb_offset (at a pre rest) = length pre" "pb_allocs (at a pre rest) = a"
  by (simp_all add: at_def)

lemma at_offset_at [simp]: "at_offset (at a pre rest) c \<longleftrightarrow> rest \<noteq> [] \<and> hd rest = c" "can_access (at a pre rest) \<longleftrightarrow> rest \<noteq> []"
  by (cases rest; simp add: at_offset_def can_access_def at_def nth_append)+

lemma advance_at: "length s = n \<Longrightarrow> advance n (at a pre (s @ rest)) = at a (pre @ s) rest"
  by (simp add: advance_def at_def)

lemma advance_at_one: "advance (Suc 0) (at a pre (c # rest)) = at a (pre @ [c]) rest"
  by (simp add: advance_def at_def)

lemma step_back_at: "step_back (at a (pre @ [c]) rest) = at a pre (c # rest)"
  by (simp add: step_back_def at_def)

lemma skip_loop_ws:
  assumes "length pre = i" and "\<forall>c\<in>set w. c \<le> 32" and "32 < c"
  shows "skip_loop (pre @ w @ c # rest) i = i + length w"
  using assms
proof (induction w arbitrary: pre i)
  case Nil
  then show ?case by (subst skip_loop.simps) (auto simp: nth_append)
next
  case (Cons x w)
  then show ?case using Cons.IH [of "pre @ [x]" "i + 1"] by (subst skip_loop.simps) (simp add: nth_append)
qed

lemma skip_at:
  assumes "json_ws w" and "32 < c"
  shows "buffer_skip_whitespace (at a pre (w @ c # rest)) = at a (pre @ w) (c # rest)"
  using skip_loop_ws [of pre "length pre" w c rest] assms by (simp add: buffer_skip_whitespace_def Let_def at_def json_ws_def)

lemma skip_at_none: "32 < c \<Longrightarrow> buffer_skip_whitespace (at a pre (c # rest)) = at a pre (c # rest)"
  using skip_at [of "[]" c a pre rest] by (simp add: json_ws_def)

lemma literal_at_at [simp]: "literal_at s (at a pre rest) \<longleftrightarrow> take (length s) rest = s"
  by (simp add: literal_at_def at_def)

section \<open>Strings\<close>

lemma json_escape_cases:
  assumes "json_escape c = Some x"
  shows "unescape cs p e c = Some (Some ([x], 2))" "c \<noteq> 0" "x \<noteq> 0"
  using assms by (auto simp: json_escape_def unescape_def split: if_splits)

lemma unicode_unescape:
  assumes "length hs = 4" and "cp = hex_loop 0 hs 0" and "\<not> (0xD800 \<le> cp \<and> cp \<le> 0xDFFF)" and "utf8_encode (ucast cp) = Some bs"
    and "length p = i" and "i + 6 \<le> e"
  shows "unescape (p @ 0x5C # 0x75 # hs @ r) i e 0x75 = Some (Some (bs, 6))"
proof -
  have "parse_hex4 (p @ 0x5C # 0x75 # hs @ r) (i + 2) = Some cp" using assms(1,2,5) by (simp add: parse_hex4_def)
  moreover have "\<not> (0xDC00 \<le> cp \<and> cp \<le> 0xDFFF)" "\<not> (0xD800 \<le> cp \<and> cp \<le> 0xDBFF)"
  proof -
    have "(0xD800 :: u32) \<le> 0xDC00" "(0xDBFF :: u32) \<le> 0xDFFF" by simp_all
    then show "\<not> (0xDC00 \<le> cp \<and> cp \<le> 0xDFFF)" "\<not> (0xD800 \<le> cp \<and> cp \<le> 0xDBFF)" using assms(3) order_trans by blast+
  qed
  ultimately show ?thesis using assms(4,6) by (auto simp: unescape_def utf16_literal_to_utf8_def utf16_codepoint_def)
qed

text \<open>The code point of a surrogate pair.\<close>

lemma low_ten:
  assumes "c \<in> {0xD800, 0xDC00}" and "c \<le> w" and "w \<le> c + 0x3FF"
  shows "(w :: u32) AND 0x3FF = w - c" and "w - c < 0x400"
proof -
  have c: "uint c = 0xD800 \<or> uint c = 0xDC00" "uint (c + 0x3FF) = uint c + 0x3FF" using assms(1) by auto
  have r: "uint c \<le> uint w" "uint w \<le> uint c + 0x3FF" using assms(2,3) c(2) by (simp_all add: word_le_def)
  have "0x400 dvd uint w - (uint w - uint c)" using c(1) by auto
  then have "uint w mod 0x400 = (uint w - uint c) mod 0x400" by (simp add: mod_eq_dvd_iff)
  then have m: "uint w mod 0x400 = uint w - uint c" using r by simp
  have s: "uint (w - c) = uint w - uint c" using r by (simp add: uint_word_ariths)
  have "w AND 0x3FF = take_bit 10 w" by (simp add: take_bit_eq_mask mask_eq_exp_minus_1)
  then have "uint (w AND 0x3FF) = uint w mod 0x400" by (simp add: take_bit_eq_mod uint_mod)
  then show "w AND 0x3FF = w - c" using m s by (simp add: word_uint_eq_iff)
  show "w - c < 0x400" using s r c(1) by (simp add: word_less_def)
qed

lemma surrogate_pair:
  assumes "0xD800 \<le> hi" and "hi \<le> 0xDBFF" and "0xDC00 \<le> lo" and "lo \<le> 0xDFFF"
  shows "(ucast (push_bit 10 (hi AND 0x3FF :: u32) OR (lo AND 0x3FF)) :: u64) = 0x400 * ucast (hi - 0xD800) + ucast (lo - 0xDC00)"
proof -
  define A B where "A = hi - 0xD800" and "B = lo - 0xDC00"
  have h: "hi AND 0x3FF = A" "A < 0x400" and l: "lo AND 0x3FF = B" "B < 0x400"
    using low_ten [of "0xD800" hi] low_ten [of "0xDC00" lo] assms by (simp_all add: A_def B_def)
  have tB: "B = take_bit 10 B" using l(2) by (simp add: word_uint_eq_iff take_bit_eq_mod word_less_def uint_mod)
  have "push_bit 10 A AND B = 0" by (subst tB) (auto intro!: bit_eqI simp: bit_simps)
  then have "push_bit 10 A OR B = push_bit 10 A + B" by (simp add: disjunctive_add_eq_or)
  also have "\<dots> = 0x400 * A + B" by (simp add: push_bit_eq_mult)
  finally have e: "push_bit 10 A OR B = 0x400 * A + B" .
  have a: "uint A < 0x400" "uint B < 0x400" using h(2) l(2) by (simp_all add: word_less_def)
  have "uint (0x400 * A + B) = 0x400 * uint A + uint B" using a by (simp add: uint_word_ariths)
  then have "(ucast (0x400 * A + B) :: u64) = 0x400 * ucast A + ucast B" using a by (simp add: word_uint_eq_iff uint_word_ariths unsigned_ucast_eq take_bit_eq_mod)
  then show ?thesis unfolding h(1) l(1) e by (simp only: A_def B_def)
qed
lemma surrogates_unescape:
  assumes "length hs = 4" and "length ls = 4" and "hi = hex_loop 0 hs 0" and "lo = hex_loop 0 ls 0" and "0xD800 \<le> hi" and "hi \<le> 0xDBFF" and "0xDC00 \<le> lo" and "lo \<le> 0xDFFF"
    and "utf8_encode (0x10000 + (0x400 * ucast (hi - 0xD800) + ucast (lo - 0xDC00))) = Some bs" and "length p = i" and "i + 12 \<le> e"
  shows "unescape (p @ 0x5C # 0x75 # hs @ 0x5C # 0x75 # ls @ r) i e 0x75 = Some (Some (bs, 12))"
proof -
  let ?cs = "p @ 0x5C # 0x75 # hs @ 0x5C # 0x75 # ls @ r"
  have "parse_hex4 ?cs (i + 2) = Some hi" "parse_hex4 ?cs (i + 8) = Some lo" "nth_opt ?cs (i + 6) = Some 0x5C" "nth_opt ?cs (i + 7) = Some 0x75"
    using assms(1-4,10) by (simp_all add: parse_hex4_def nth_append)
  moreover have "\<not> 0xDC00 \<le> hi" using order_trans [of "0xDC00" hi "0xDBFF"] assms(6) by auto
  moreover have "\<not> lo < 0xDC00" "\<not> 0xDFFF < lo" using assms(7,8) by auto
  ultimately show ?thesis using assms(5,6,9,11) surrogate_pair [OF assms(5-8)] by (simp add: unescape_def utf16_literal_to_utf8_def utf16_codepoint_def)
qed

lemma string_end_plain:
  assumes "length pre = i" and "0x22 \<notin> set hs" and "0x5C \<notin> set hs"
  shows "string_end (pre @ hs @ r) i k = string_end (pre @ hs @ r) (i + length hs) k"
  using assms
proof (induction hs arbitrary: pre i)
  case (Cons h hs)
  have "string_end (pre @ (h # hs) @ r) i k = string_end ((pre @ [h]) @ hs @ r) (i + 1) k"
    using Cons.prems by (subst string_end.simps) (simp add: nth_append)
  then show ?case using Cons.IH [of "pre @ [h]" "i + 1"] Cons.prems by simp
qed simp

lemma string_end_escape:
  assumes "length pre = i"
  shows "string_end (pre @ 0x5C # c # r) i k = string_end (pre @ 0x5C # c # r) (i + 2) (k + 1)"
  using assms by (subst string_end.simps) (simp add: nth_append)

lemma hex_digit_plain: "hex_digit h \<noteq> None \<Longrightarrow> h \<notin> {0, 0x22, 0x5C}"
  by (auto simp: hex_digit_def)

lemma chars_end:
  assumes "json_chars s t" and "length pre = i"
  shows "\<exists>k. string_end (pre @ t @ 0x22 # rest) i k0 = Some (i + length t, k0 + k) \<and> length s + k \<le> length t"
  using assms
proof (induction arbitrary: pre i k0 rule: json_chars.induct)
  case chars_nil
  then show ?case by (subst string_end.simps) (simp add: nth_append)
next
  case (chars_plain c s t)
  have "string_end (pre @ (c # t) @ 0x22 # rest) i k0 = string_end ((pre @ [c]) @ t @ 0x22 # rest) (i + 1) k0"
    using string_end_plain [of pre i "[c]" "t @ 0x22 # rest" k0] chars_plain by simp
  then show ?case using chars_plain.IH [of "pre @ [c]" "i + 1" k0] chars_plain.prems by auto
next
  case (chars_escape c x s t)
  have "string_end (pre @ (0x5C # c # t) @ 0x22 # rest) i k0 = string_end ((pre @ [0x5C, c]) @ t @ 0x22 # rest) (i + 2) (k0 + 1)"
    using string_end_escape [of pre i c "t @ 0x22 # rest" k0] chars_escape.prems by simp
  then show ?case using chars_escape.IH [of "pre @ [0x5C, c]" "i + 2" "k0 + 1"] chars_escape.prems by fastforce
next
  case (chars_unicode hs cp bs s t)
  have hx: "0x22 \<notin> set hs" "0x5C \<notin> set hs" using chars_unicode.hyps(2) hex_digit_plain by fastforce+
  have "string_end (pre @ (0x5C # 0x75 # hs @ t) @ 0x22 # rest) i k0 = string_end ((pre @ [0x5C, 0x75]) @ hs @ t @ 0x22 # rest) (i + 2) (k0 + 1)"
    using string_end_escape [of pre i "0x75" "hs @ t @ 0x22 # rest" k0] chars_unicode.prems by simp
  also have "\<dots> = string_end ((pre @ 0x5C # 0x75 # hs) @ t @ 0x22 # rest) (i + 6) (k0 + 1)"
    using string_end_plain [of "pre @ [0x5C, 0x75]" "i + 2" hs] hx chars_unicode.prems chars_unicode.hyps(1) by (simp add: add.commute)
  finally show ?case
    using chars_unicode.IH [of "pre @ 0x5C # 0x75 # hs" "i + 6" "k0 + 1"] chars_unicode.prems chars_unicode.hyps(1)
      utf8_encode_length(1) [OF chars_unicode.hyps(5)] by fastforce
next
  case (chars_surrogates hs ls hi lo bs s t)
  have hx: "0x22 \<notin> set hs" "0x5C \<notin> set hs" "0x22 \<notin> set ls" "0x5C \<notin> set ls" using chars_surrogates.hyps(3) hex_digit_plain by fastforce+
  let ?pl = "pre @ 0x5C # 0x75 # hs"
  have "string_end (?pl @ 0x5C # 0x75 # ls @ t @ 0x22 # rest) i k0 = string_end ((pre @ [0x5C, 0x75]) @ hs @ 0x5C # 0x75 # ls @ t @ 0x22 # rest) (i + 2) (k0 + 1)"
    using string_end_escape [of pre i "0x75" "hs @ 0x5C # 0x75 # ls @ t @ 0x22 # rest" k0] chars_surrogates.prems by simp
  also have "\<dots> = string_end (?pl @ 0x5C # 0x75 # ls @ t @ 0x22 # rest) (i + 6) (k0 + 1)"
    using string_end_plain [of "pre @ [0x5C, 0x75]" "i + 2" hs] hx chars_surrogates.prems chars_surrogates.hyps(1) by (simp add: add.commute)
  also have "\<dots> = string_end ((?pl @ [0x5C, 0x75]) @ ls @ t @ 0x22 # rest) (i + 8) (k0 + 2)"
    using string_end_escape [of ?pl "i + 6" "0x75" "ls @ t @ 0x22 # rest" "k0 + 1"] chars_surrogates.prems chars_surrogates.hyps(1) by (simp add: add.commute)
  also have "\<dots> = string_end ((?pl @ 0x5C # 0x75 # ls) @ t @ 0x22 # rest) (i + 12) (k0 + 2)"
    using string_end_plain [of "?pl @ [0x5C, 0x75]" "i + 8" ls] hx chars_surrogates.prems chars_surrogates.hyps(1,2) by (simp add: add.commute)
  finally show ?case
    using chars_surrogates.IH [of "?pl @ 0x5C # 0x75 # ls" "i + 12" "k0 + 2"] chars_surrogates.prems chars_surrogates.hyps(1,2)
      utf8_encode_length(1) [OF chars_surrogates.hyps(10)] by fastforce
qed

lemma chars_copy:
  assumes "json_chars s t" and "length pre = i" and "length out + length s < cap"
  shows "copy_string (pre @ t @ 0x22 # rest) i (i + length t) cap out = Some (Inr (out @ s))"
  using assms
proof (induction arbitrary: pre i out rule: json_chars.induct)
  case chars_nil
  then show ?case by (subst copy_string.simps) simp
next
  case (chars_plain c s t)
  have "copy_string (pre @ (c # t) @ 0x22 # rest) i (i + length (c # t)) cap out =
      copy_string ((pre @ [c]) @ t @ 0x22 # rest) (i + 1) (i + 1 + length t) cap (out @ [c])"
    using chars_plain.prems chars_plain.hyps(1) by (subst copy_string.simps) (simp add: nth_append)
  then show ?case using chars_plain.IH [of "pre @ [c]" "i + 1" "out @ [c]"] chars_plain.prems by simp
next
  case (chars_escape c x s t)
  have "copy_string (pre @ (0x5C # c # t) @ 0x22 # rest) i (i + length (0x5C # c # t)) cap out =
      copy_string ((pre @ [0x5C, c]) @ t @ 0x22 # rest) (i + 2) (i + 2 + length t) cap (out @ [x])"
    using chars_escape.prems json_escape_cases(1) [OF chars_escape.hyps(1)] by (subst copy_string.simps) (simp add: nth_append)
  then show ?case using chars_escape.IH [of "pre @ [0x5C, c]" "i + 2" "out @ [x]"] chars_escape.prems by simp
next
  case (chars_unicode hs cp bs s t)
  let ?cs = "pre @ 0x5C # 0x75 # hs @ t @ 0x22 # rest" and ?e = "i + 6 + length t"
  have "unescape ?cs i ?e 0x75 = Some (Some (bs, 6))"
    by (rule unicode_unescape) (use chars_unicode.hyps(1,3,4,5) chars_unicode.prems(1) in simp_all)
  moreover have "nth_opt ?cs i = Some 0x5C" "nth_opt ?cs (i + 1) = Some 0x75" using chars_unicode.prems(1) by (simp_all add: nth_append)
  ultimately have "copy_string ?cs i ?e cap out = copy_string ?cs (i + 6) ?e cap (out @ bs)"
    using chars_unicode.prems by (subst copy_string.simps) simp
  moreover have "copy_string ?cs (i + 6) ?e cap (out @ bs) = Some (Inr ((out @ bs) @ s))"
    using chars_unicode.IH [of "pre @ 0x5C # 0x75 # hs" "i + 6" "out @ bs"] chars_unicode.prems chars_unicode.hyps(1) by simp
  moreover have "i + length (0x5C # 0x75 # hs @ t) = ?e" using chars_unicode.hyps(1) by simp
  ultimately show ?case by (simp add: add.assoc)
next
  case (chars_surrogates hs ls hi lo bs s t)
  let ?cs = "pre @ 0x5C # 0x75 # hs @ 0x5C # 0x75 # ls @ t @ 0x22 # rest" and ?e = "i + 12 + length t"
  have "unescape ?cs i ?e 0x75 = Some (Some (bs, 12))"
    by (rule surrogates_unescape [OF chars_surrogates.hyps(1,2,4-10)]) (use chars_surrogates.prems(1) in simp_all)
  moreover have "nth_opt ?cs i = Some 0x5C" "nth_opt ?cs (i + 1) = Some 0x75" using chars_surrogates.prems(1) by (simp_all add: nth_append)
  ultimately have "copy_string ?cs i ?e cap out = copy_string ?cs (i + 12) ?e cap (out @ bs)"
    using chars_surrogates.prems by (subst copy_string.simps) simp
  moreover have "copy_string ?cs (i + 12) ?e cap (out @ bs) = Some (Inr ((out @ bs) @ s))"
    using chars_surrogates.IH [of "pre @ 0x5C # 0x75 # hs @ 0x5C # 0x75 # ls" "i + 12" "out @ bs"] chars_surrogates.prems chars_surrogates.hyps(1,2) by simp
  moreover have "i + length (0x5C # 0x75 # hs @ 0x5C # 0x75 # ls @ t) = ?e" using chars_surrogates.hyps(1,2) by simp
  ultimately show ?case unfolding \<open>i + length (0x5C # 0x75 # hs @ 0x5C # 0x75 # ls @ t) = ?e\<close> by (simp add: add.assoc)
qed

lemma chars_nonzero: "json_chars s t \<Longrightarrow> 0 \<notin> set s \<and> 0 \<notin> set t"
proof (induction rule: json_chars.induct)
  case (chars_unicode hs cp bs s t)
  then have "0 \<notin> set hs" using hex_digit_plain by fastforce
  then show ?case using chars_unicode by auto
next
  case (chars_surrogates hs ls hi lo bs s t)
  then have "0 \<notin> set hs" "0 \<notin> set ls" using hex_digit_plain by fastforce+
  then show ?case using chars_surrogates by auto
qed (auto dest: json_escape_cases)

lemma string_text:
  assumes "json_chars s t"
  shows "parse_string (\<lambda>_. True) (at a pre (0x22 # t @ 0x22 # rest)) = Some (at (a + 1) (pre @ 0x22 # t @ [0x22]) rest, Some s)"
proof -
  let ?i = "length pre" and ?cs = "pre @ 0x22 # t @ 0x22 # rest"
  obtain k where k: "string_end ?cs (?i + 1) 0 = Some (?i + 1 + length t, k)" "length s + k \<le> length t"
    using chars_end [OF assms, of "pre @ [0x22]" "?i + 1" rest 0] by auto
  have "copy_string ?cs (?i + 1) (?i + 1 + length t) (?i + 1 + length t - ?i - k + 1) [] = Some (Inr s)"
    using chars_copy [OF assms, of "pre @ [0x22]" "?i + 1" "[]" _ rest] k(2) by simp
  moreover have "takeWhile (\<lambda>c. c \<noteq> 0) s = s" using chars_nonzero [OF assms] by (simp add: takeWhile_eq_all_conv) metis
  ultimately show ?thesis using k(1) by (simp add: parse_string_def Let_def at_def)
qed

section \<open>Values\<close>

text \<open>A value begins with a printable character and holds no zero byte.\<close>

lemma ws_nonzero: "json_ws w \<Longrightarrow> 0 \<notin> set w"
  by (auto simp: json_ws_def)

lemma number_char_nonzero: "number_char c \<Longrightarrow> c \<noteq> 0 \<and> c \<noteq> 0x6E \<and> c \<noteq> 0x66 \<and> c \<noteq> 0x74 \<and> c \<noteq> 0x22"
  by (auto simp: number_char_def c_isdigit_def)

lemma value_text:
  "json_value d v t \<Longrightarrow> t \<noteq> [] \<and> 32 < hd t \<and> hd t \<noteq> 0x5D \<and> hd t \<noteq> 0x7D \<and> 0 \<notin> set t"
  "json_elems d vs t \<Longrightarrow> 0 \<notin> set t"
  "json_members d vs t \<Longrightarrow> 0 \<notin> set t"
proof (induction rule: json_value_json_elems_json_members.inducts)
  case (v_number t c r d)
  then have "32 < c \<and> c \<noteq> 0x5D \<and> c \<noteq> 0x7D" by (auto simp: c_isdigit_def word_le_nat_alt word_less_nat_alt)
  then show ?case using v_number number_char_nonzero by fastforce
qed (auto simp: ascii_def ws_nonzero dest: chars_nonzero)

lemma number_text:
  assumes "\<forall>x\<in>set t. number_char x" and "length t \<le> 63" and "strtod_length t = length t" and "t \<noteq> []"
    and "rest \<noteq> []" and "\<not> number_char (hd rest)"
  shows "parse_number (at a pre (t @ rest)) = Some (at a (pre @ t) rest, Some (CJSON cJSON_Number None t None []))"
proof -
  obtain x xs where rest: "rest = x # xs" using assms(5) by (cases rest) auto
  have "takeWhile number_char (take 63 (t @ rest)) = t"
  proof (cases "length t = 63")
    case True
    then show ?thesis using assms(1) by (simp add: takeWhile_eq_all_conv)
  next
    case False
    then have "take 63 (t @ rest) = t @ x # take (62 - length t) xs" using assms(2) rest by (simp add: take_Cons')
    then show ?thesis using assms(1,6) rest by simp
  qed
  then show ?thesis using assms(3,4) by (simp add: parse_number_text Let_def advance_at at_def advance_def)
qed

text \<open>
  The statement for the three relations: from its first character a value is parsed up to its end, and the
  loops run from the character before the first element to the closing bracket.
\<close>

definition value_ok :: "nat \<Rightarrow> cJSON \<Rightarrow> u8 list \<Rightarrow> bool" where
  "value_ok d v t \<longleftrightarrow> (\<forall>d' a pre rest. d \<le> d' \<longrightarrow> rest \<noteq> [] \<longrightarrow> \<not> number_char (hd rest) \<longrightarrow>
     (\<exists>a'. parse_value (\<lambda>_. True) d' (at a pre (t @ rest)) = Some (at a' (pre @ t) rest, Some v)))"

definition elems_ok :: "nat \<Rightarrow> cJSON list \<Rightarrow> u8 list \<Rightarrow> bool" where
  "elems_ok d vs t \<longleftrightarrow> (\<forall>d' a pre x rest items. d \<le> d' \<longrightarrow>
     (\<exists>a'. array_loop (\<lambda>_. True) (parse_value (\<lambda>_. True) d') (at a pre (x # t @ 0x5D # rest)) items =
        Some (at a' (pre @ x # t) (0x5D # rest), Some (items @ vs))))"

definition members_ok :: "nat \<Rightarrow> cJSON list \<Rightarrow> u8 list \<Rightarrow> bool" where
  "members_ok d vs t \<longleftrightarrow> (\<forall>d' a pre x rest items. d \<le> d' \<longrightarrow>
     (\<exists>a'. object_loop (\<lambda>_. True) (parse_value (\<lambda>_. True) d') (at a pre (x # t @ 0x7D # rest)) items =
        Some (at a' (pre @ x # t) (0x7D # rest), Some (items @ vs))))"

lemma new_item_at: "cJSON_New_Item (\<lambda>_. True) (at a pre rest) = (at (a + 1) pre rest, True)"
  by (simp add: cJSON_New_Item_def at_def)

text \<open>One element: white space, a value, white space, and the character behind it.\<close>

lemma element_text:
  assumes "json_ws w1" and "json_value d v t" and "value_ok d v t" and "json_ws w2" and "32 < c" and "\<not> number_char c" and "d \<le> d'"
  shows "\<exists>b' a'. parse_value (\<lambda>_. True) d' (buffer_skip_whitespace (advance 1 (at a pre (x # w1 @ t @ w2 @ c # rest)))) = Some (b', Some v) \<and>
    buffer_skip_whitespace b' = at a' (pre @ x # w1 @ t @ w2) (c # rest)"
proof -
  obtain h r where t: "t = h # r" "32 < h" using value_text(1) [OF assms(2)] by (cases t) auto
  have n: "w2 @ c # rest \<noteq> []" "\<not> number_char (hd (w2 @ c # rest))"
    using assms(4,6) by (cases w2; auto simp: json_ws_def number_char_def c_isdigit_def word_le_nat_alt)+
  obtain a' where a': "parse_value (\<lambda>_. True) d' (at a (pre @ x # w1) (t @ w2 @ c # rest)) = Some (at a' (pre @ x # w1 @ t) (w2 @ c # rest), Some v)"
    using assms(3) [unfolded value_ok_def, rule_format, OF assms(7) n, of a "pre @ x # w1"] by auto
  moreover have "buffer_skip_whitespace (advance 1 (at a pre (x # w1 @ t @ w2 @ c # rest))) = at a (pre @ x # w1) (t @ w2 @ c # rest)"
    using skip_at [OF assms(1) t(2), of a "pre @ [x]" "r @ w2 @ c # rest"] t(1) by (simp add: advance_at_one)
  moreover have "buffer_skip_whitespace (at a' (pre @ x # w1 @ t) (w2 @ c # rest)) = at a' (pre @ x # w1 @ t @ w2) (c # rest)"
    using skip_at [OF assms(4,5), of a' "pre @ x # w1 @ t" rest] by simp
  ultimately show ?thesis by auto
qed

lemma elems_one:
  assumes "json_ws w1" and "json_value d v t" and "value_ok d v t" and "json_ws w2"
  shows "elems_ok d [v] (w1 @ t @ w2)"
  unfolding elems_ok_def
proof (intro allI impI)
  fix d' a pre x rest items
  assume "d \<le> d'"
  then obtain b' a' where "parse_value (\<lambda>_. True) d' (buffer_skip_whitespace (advance 1 (at (a + 1) pre (x # w1 @ t @ w2 @ 0x5D # rest)))) = Some (b', Some v)"
      "buffer_skip_whitespace b' = at a' (pre @ x # w1 @ t @ w2) (0x5D # rest)"
    using element_text [OF assms, of "0x5D" d' "a + 1" pre x rest] by (auto simp: number_char_def c_isdigit_def)
  then show "\<exists>a'. array_loop (\<lambda>_. True) (parse_value (\<lambda>_. True) d') (at a pre (x # (w1 @ t @ w2) @ 0x5D # rest)) items =
      Some (at a' (pre @ x # w1 @ t @ w2) (0x5D # rest), Some (items @ [v]))"
    by (intro exI [of _ a'], subst array_loop.simps) (simp add: new_item_at)
qed

lemma elems_more:
  assumes "json_ws w1" and "json_value d v t" and "value_ok d v t" and "json_ws w2" and "elems_ok d vs r"
  shows "elems_ok d (v # vs) (w1 @ t @ w2 @ 0x2C # r)"
  unfolding elems_ok_def
proof (intro allI impI)
  fix d' a pre x rest items
  assume d: "d \<le> d'"
  obtain b' a' where b': "parse_value (\<lambda>_. True) d' (buffer_skip_whitespace (advance 1 (at (a + 1) pre (x # w1 @ t @ w2 @ 0x2C # r @ 0x5D # rest)))) = Some (b', Some v)"
      "buffer_skip_whitespace b' = at a' (pre @ x # w1 @ t @ w2) (0x2C # r @ 0x5D # rest)"
    using element_text [OF assms(1-4), of "0x2C" d' "a + 1" pre x "r @ 0x5D # rest"] d by (auto simp: number_char_def c_isdigit_def)
  obtain a2 where "array_loop (\<lambda>_. True) (parse_value (\<lambda>_. True) d') (at a' (pre @ x # w1 @ t @ w2) (0x2C # r @ 0x5D # rest)) (items @ [v]) =
      Some (at a2 ((pre @ x # w1 @ t @ w2) @ 0x2C # r) (0x5D # rest), Some ((items @ [v]) @ vs))"
    using assms(5) [unfolded elems_ok_def, rule_format, OF d] by blast
  then show "\<exists>a'. array_loop (\<lambda>_. True) (parse_value (\<lambda>_. True) d') (at a pre (x # (w1 @ t @ w2 @ 0x2C # r) @ 0x5D # rest)) items =
      Some (at a' (pre @ x # w1 @ t @ w2 @ 0x2C # r) (0x5D # rest), Some (items @ v # vs))"
    using b' by (intro exI [of _ a2], subst array_loop.simps) (simp add: new_item_at)
qed

text \<open>The name of a member, up to the colon.\<close>

lemma name_text:
  assumes "json_ws w1" and "json_chars s n" and "json_ws w2"
  shows "\<exists>b' a'. parse_string (\<lambda>_. True) (buffer_skip_whitespace (advance 1 (at a pre (x # w1 @ 0x22 # n @ 0x22 # w2 @ 0x3A # rest)))) = Some (b', Some s) \<and>
    buffer_skip_whitespace b' = at a' (pre @ x # w1 @ 0x22 # n @ 0x22 # w2) (0x3A # rest)"
proof -
  have "buffer_skip_whitespace (advance 1 (at a pre (x # w1 @ 0x22 # n @ 0x22 # w2 @ 0x3A # rest))) = at a (pre @ x # w1) (0x22 # n @ 0x22 # w2 @ 0x3A # rest)"
    using skip_at [OF assms(1), of "0x22" a "pre @ [x]"] by (simp add: advance_at_one)
  moreover have "buffer_skip_whitespace (at (a + 1) ((pre @ x # w1) @ 0x22 # n @ [0x22]) (w2 @ 0x3A # rest)) = at (a + 1) (pre @ x # w1 @ 0x22 # n @ 0x22 # w2) (0x3A # rest)"
    using skip_at [OF assms(3), of "0x3A" "a + 1" "(pre @ x # w1) @ 0x22 # n @ [0x22]"] by simp
  ultimately show ?thesis using string_text [OF assms(2), of a "pre @ x # w1" "w2 @ 0x3A # rest"] by auto
qed

lemma members_step:
  assumes "json_ws w1" and "json_chars s n" and "json_ws w2" and "json_ws w3" and "json_value d v t" and "value_ok d v t" and "json_ws w4"
    and "d \<le> d'" and "32 < c" and "\<not> number_char c"
    and "q = pre @ x # w1 @ 0x22 # n @ 0x22 # w2 @ 0x3A # w3 @ t @ w4"
  shows "\<exists>a'. object_loop (\<lambda>_. True) (parse_value (\<lambda>_. True) d') (at a pre (x # w1 @ 0x22 # n @ 0x22 # w2 @ 0x3A # w3 @ t @ w4 @ c # rest)) items =
    (if c = 0x2C then object_loop (\<lambda>_. True) (parse_value (\<lambda>_. True) d') (at a' q (c # rest)) (items @ [with_name s v])
     else if c = 0x7D then Some (at a' q (c # rest), Some (items @ [with_name s v])) else Some (at a' q (c # rest), None))"
proof -
  let ?nm = "pre @ x # w1 @ 0x22 # n @ 0x22 # w2"
  obtain b1 a1 where b1: "parse_string (\<lambda>_. True) (buffer_skip_whitespace (advance 1 (at (a + 1) pre (x # w1 @ 0x22 # n @ 0x22 # w2 @ 0x3A # w3 @ t @ w4 @ c # rest)))) = Some (b1, Some s)"
      "buffer_skip_whitespace b1 = at a1 ?nm (0x3A # w3 @ t @ w4 @ c # rest)"
    using name_text [OF assms(1-3), of "a + 1" pre x "w3 @ t @ w4 @ c # rest"] by blast
  obtain b2 a2 where b2: "parse_value (\<lambda>_. True) d' (buffer_skip_whitespace (advance 1 (at a1 ?nm (0x3A # w3 @ t @ w4 @ c # rest)))) = Some (b2, Some v)"
      "buffer_skip_whitespace b2 = at a2 (?nm @ 0x3A # w3 @ t @ w4) (c # rest)"
    using element_text [OF assms(4-7,9,10,8), of a1 ?nm "0x3A" rest] by blast
  have "?nm @ 0x3A # w3 @ t @ w4 = q" by (simp add: assms(11))
  then show ?thesis using b1 b2 by (subst object_loop.simps) (simp add: new_item_at Let_def, metis)
qed

lemma members_one:
  assumes "json_ws w1" and "json_chars s n" and "json_ws w2" and "json_ws w3" and "json_value d v t" and "value_ok d v t" and "json_ws w4"
  shows "members_ok d [with_name s v] (w1 @ 0x22 # n @ 0x22 # w2 @ 0x3A # w3 @ t @ w4)"
  unfolding members_ok_def
proof (intro allI impI)
  fix d' a pre x rest items
  assume "d \<le> d'"
  then show "\<exists>a'. object_loop (\<lambda>_. True) (parse_value (\<lambda>_. True) d') (at a pre (x # (w1 @ 0x22 # n @ 0x22 # w2 @ 0x3A # w3 @ t @ w4) @ 0x7D # rest)) items =
      Some (at a' (pre @ x # w1 @ 0x22 # n @ 0x22 # w2 @ 0x3A # w3 @ t @ w4) (0x7D # rest), Some (items @ [with_name s v]))"
    using members_step [OF assms, of d' "0x7D" _ pre x a rest items] by (simp add: number_char_def c_isdigit_def)
qed

lemma members_more:
  assumes "json_ws w1" and "json_chars s n" and "json_ws w2" and "json_ws w3" and "json_value d v t" and "value_ok d v t" and "json_ws w4"
    and "members_ok d vs r"
  shows "members_ok d (with_name s v # vs) (w1 @ 0x22 # n @ 0x22 # w2 @ 0x3A # w3 @ t @ w4 @ 0x2C # r)"
  unfolding members_ok_def
proof (intro allI impI)
  fix d' a pre x rest items
  assume d: "d \<le> d'"
  let ?q = "pre @ x # w1 @ 0x22 # n @ 0x22 # w2 @ 0x3A # w3 @ t @ w4"
  obtain a1 where a1: "object_loop (\<lambda>_. True) (parse_value (\<lambda>_. True) d')
      (at a pre (x # w1 @ 0x22 # n @ 0x22 # w2 @ 0x3A # w3 @ t @ w4 @ 0x2C # r @ 0x7D # rest)) items =
      object_loop (\<lambda>_. True) (parse_value (\<lambda>_. True) d') (at a1 ?q (0x2C # r @ 0x7D # rest)) (items @ [with_name s v])"
    using members_step [OF assms(1-7) d, of "0x2C" ?q pre x a "r @ 0x7D # rest" items] by (auto simp: number_char_def c_isdigit_def)
  obtain a2 where "object_loop (\<lambda>_. True) (parse_value (\<lambda>_. True) d') (at a1 ?q (0x2C # r @ 0x7D # rest)) (items @ [with_name s v]) =
      Some (at a2 (?q @ 0x2C # r) (0x7D # rest), Some ((items @ [with_name s v]) @ vs))"
    using assms(8) [unfolded members_ok_def, rule_format, OF d] by blast
  then show "\<exists>a'. object_loop (\<lambda>_. True) (parse_value (\<lambda>_. True) d')
      (at a pre (x # (w1 @ 0x22 # n @ 0x22 # w2 @ 0x3A # w3 @ t @ w4 @ 0x2C # r) @ 0x7D # rest)) items =
      Some (at a' (pre @ x # w1 @ 0x22 # n @ 0x22 # w2 @ 0x3A # w3 @ t @ w4 @ 0x2C # r) (0x7D # rest), Some (items @ with_name s v # vs))"
    using a1 by (intro exI [of _ a2]) simp
qed

text \<open>The kinds of value one by one; \<open>parse_value\<close> looks at the first characters.\<close>

lemma scalar_of_value: "parse_value ok d b = parse_scalar ok (if d = 0 then (\<lambda>b. Some (b, None)) else parse_array ok (parse_value ok (d - 1)))
    (if d = 0 then (\<lambda>b. Some (b, None)) else parse_object ok (parse_value ok (d - 1))) b"
  by (cases d) simp_all

lemma bracket_scalar:
  "parse_scalar ok arr obj (at a pre (0x5B # r)) = arr (at a pre (0x5B # r))"
  "parse_scalar ok arr obj (at a pre (0x7B # r)) = obj (at a pre (0x7B # r))"
  by (simp_all add: parse_scalar_def ascii_def c_isdigit_def nth_append)

lemma value_string: "json_chars s t \<Longrightarrow> value_ok d (CJSON cJSON_String (Some s) [] None []) (0x22 # t @ [0x22])"
  unfolding value_ok_def
proof (intro allI impI)
  fix d' a pre rest
  assume c: "json_chars s t"
  show "\<exists>a'. parse_value (\<lambda>_. True) d' (at a pre ((0x22 # t @ [0x22]) @ rest)) =
      Some (at a' (pre @ 0x22 # t @ [0x22]) rest, Some (CJSON cJSON_String (Some s) [] None []))"
    using string_text [OF c, of a pre rest] by (intro exI [of _ "a + 1"]) (simp add: scalar_of_value [of _ d'] parse_scalar_def ascii_def)
qed

lemma value_number:
  assumes "t = c # r" and "c = 0x2D \<or> c_isdigit c" and "\<forall>x\<in>set t. number_char x" and "length t \<le> 63" and "strtod_length t = length t"
  shows "value_ok d (CJSON cJSON_Number None t None []) t"
  unfolding value_ok_def
proof (intro allI impI)
  fix d' a pre rest
  assume n: "rest \<noteq> []" "\<not> number_char (hd rest)"
  have c: "c \<noteq> 0x6E" "c \<noteq> 0x66" "c \<noteq> 0x74" "c \<noteq> 0x22" using number_char_nonzero assms(1,3) by auto
  have "parse_number (at a pre (t @ rest)) = Some (at a (pre @ t) rest, Some (CJSON cJSON_Number None t None []))"
    by (rule number_text) (use assms n in auto)
  then show "\<exists>a'. parse_value (\<lambda>_. True) d' (at a pre (t @ rest)) = Some (at a' (pre @ t) rest, Some (CJSON cJSON_Number None t None []))"
    using c assms(1,2) by (intro exI [of _ a]) (auto simp: scalar_of_value [of _ d'] parse_scalar_def ascii_def)
qed

text \<open>The loops begin one character before the first element, wherever the white space before it ends.\<close>

lemma step_back_start:
  assumes "json_ws w" and "32 < h"
  shows "buffer_skip_whitespace (advance 1 (step_back (at a (pre @ x # w) (h # r)))) = buffer_skip_whitespace (advance 1 (at a pre (x # w @ h # r)))"
    "pb_allocs (step_back (at a (pre @ x # w) (h # r))) = a"
proof -
  obtain q y where q: "pre @ x # w = q @ [y]" by (metis append_is_Nil_conv list.discI rev_exhaust)
  have "buffer_skip_whitespace (advance 1 (step_back (at a (pre @ x # w) (h # r)))) = at a (pre @ x # w) (h # r)"
    unfolding q step_back_at using skip_at_none [OF assms(2), of a "q @ [y]"] by (simp add: advance_at_one)
  moreover have "buffer_skip_whitespace (advance 1 (at a pre (x # w @ h # r))) = at a (pre @ x # w) (h # r)"
    using skip_at [OF assms, of a "pre @ [x]" r] by (simp add: advance_at_one)
  ultimately show "buffer_skip_whitespace (advance 1 (step_back (at a (pre @ x # w) (h # r)))) = buffer_skip_whitespace (advance 1 (at a pre (x # w @ h # r)))"
    by simp
qed (simp add: step_back_def)

lemma new_item_skip: "buffer_skip_whitespace (advance n (b\<lparr>pb_allocs := a\<rparr>)) = (buffer_skip_whitespace (advance n b))\<lparr>pb_allocs := a\<rparr>"
  by (simp add: buffer_skip_whitespace_def advance_def Let_def)

lemma loop_start:
  assumes "json_ws w" and "32 < h"
  shows "array_loop (\<lambda>_. True) v (step_back (at a (pre @ x # w) (h # r))) items = array_loop (\<lambda>_. True) v (at a pre (x # w @ h # r)) items"
    "object_loop (\<lambda>_. True) v (step_back (at a (pre @ x # w) (h # r))) items = object_loop (\<lambda>_. True) v (at a pre (x # w @ h # r)) items"
  using step_back_start [OF assms, of a pre x r]
  by (simp_all add: array_loop.simps [of "\<lambda>_. True" v "step_back _"] array_loop.simps [of "\<lambda>_. True" v "at _ _ _"]
      object_loop.simps [of "\<lambda>_. True" v "step_back _"] object_loop.simps [of "\<lambda>_. True" v "at _ _ _"] cJSON_New_Item_def new_item_skip)

lemma elems_text:
  assumes "json_elems d vs t"
  shows "\<exists>w h r. t = w @ h # r \<and> json_ws w \<and> 32 < h \<and> h \<noteq> 0x5D"
  using assms
proof cases
  case (e_one w1 v u w2)
  then show ?thesis using value_text(1) [of d v u] by (cases u) auto
next
  case (e_more w1 v u w2 vs' r)
  then show ?thesis using value_text(1) [of d v u] by (cases u) auto
qed

lemma members_text:
  assumes "json_members d vs t"
  shows "\<exists>w r. t = w @ 0x22 # r \<and> json_ws w"
  using assms by cases auto

lemma value_array:
  assumes "elems_ok d vs t" and "json_elems d vs t"
  shows "value_ok (Suc d) (CJSON cJSON_Array None [] None vs) (0x5B # t @ [0x5D])"
  unfolding value_ok_def
proof (intro allI impI)
  fix d' a pre rest
  assume "Suc d \<le> d'"
  then obtain d1 where d1: "d' = Suc d1" "d \<le> d1" by (cases d') auto
  obtain w h r where t: "t = w @ h # r" "json_ws w" "32 < h" "h \<noteq> 0x5D" using elems_text [OF assms(2)] by blast
  have sk: "buffer_skip_whitespace (advance 1 (at a pre (0x5B # t @ 0x5D # rest))) = at a (pre @ 0x5B # w) (h # r @ 0x5D # rest)"
    using skip_at [OF t(2,3), of a "pre @ [0x5B]" "r @ 0x5D # rest"] t(1) by (simp add: advance_at_one)
  obtain a' where "array_loop (\<lambda>_. True) (parse_value (\<lambda>_. True) d1) (at a pre (0x5B # t @ 0x5D # rest)) [] =
      Some (at a' (pre @ 0x5B # t) (0x5D # rest), Some ([] @ vs))"
    using assms(1) [unfolded elems_ok_def, rule_format, OF d1(2)] by blast
  then have "array_loop (\<lambda>_. True) (parse_value (\<lambda>_. True) d1) (step_back (at a (pre @ 0x5B # w) (h # r @ 0x5D # rest))) [] =
      Some (at a' (pre @ 0x5B # t) (0x5D # rest), Some vs)"
    using loop_start(1) [OF t(2,3), of "parse_value (\<lambda>_. True) d1" a pre "0x5B" "r @ 0x5D # rest" "[]"] t(1) by simp
  then have "parse_array (\<lambda>_. True) (parse_value (\<lambda>_. True) d1) (at a pre (0x5B # t @ 0x5D # rest)) =
      Some (at a' (pre @ 0x5B # t @ [0x5D]) rest, Some (CJSON cJSON_Array None [] None vs))"
    using sk t(4) by (simp add: parse_array_def Let_def advance_at_one nth_append)
  then show "\<exists>a'. parse_value (\<lambda>_. True) d' (at a pre ((0x5B # t @ [0x5D]) @ rest)) =
      Some (at a' (pre @ 0x5B # t @ [0x5D]) rest, Some (CJSON cJSON_Array None [] None vs))"
    unfolding d1(1) by (intro exI [of _ a']) (simp add: bracket_scalar)
qed

lemma value_object:
  assumes "members_ok d vs t" and "json_members d vs t"
  shows "value_ok (Suc d) (CJSON cJSON_Object None [] None vs) (0x7B # t @ [0x7D])"
  unfolding value_ok_def
proof (intro allI impI)
  fix d' a pre rest
  assume "Suc d \<le> d'"
  then obtain d1 where d1: "d' = Suc d1" "d \<le> d1" by (cases d') auto
  obtain w r where t: "t = w @ 0x22 # r" "json_ws w" using members_text [OF assms(2)] by blast
  have h: "(32 :: u8) < 0x22" by simp
  have sk: "buffer_skip_whitespace (advance 1 (at a pre (0x7B # t @ 0x7D # rest))) = at a (pre @ 0x7B # w) (0x22 # r @ 0x7D # rest)"
    using skip_at [OF t(2) h, of a "pre @ [0x7B]" "r @ 0x7D # rest"] t(1) by (simp add: advance_at_one)
  obtain a' where "object_loop (\<lambda>_. True) (parse_value (\<lambda>_. True) d1) (at a pre (0x7B # t @ 0x7D # rest)) [] =
      Some (at a' (pre @ 0x7B # t) (0x7D # rest), Some ([] @ vs))"
    using assms(1) [unfolded members_ok_def, rule_format, OF d1(2)] by blast
  then have "object_loop (\<lambda>_. True) (parse_value (\<lambda>_. True) d1) (step_back (at a (pre @ 0x7B # w) (0x22 # r @ 0x7D # rest))) [] =
      Some (at a' (pre @ 0x7B # t) (0x7D # rest), Some vs)"
    using loop_start(2) [OF t(2) h, of "parse_value (\<lambda>_. True) d1" a pre "0x7B" "r @ 0x7D # rest" "[]"] t(1) by simp
  then have "parse_object (\<lambda>_. True) (parse_value (\<lambda>_. True) d1) (at a pre (0x7B # t @ 0x7D # rest)) =
      Some (at a' (pre @ 0x7B # t @ [0x7D]) rest, Some (CJSON cJSON_Object None [] None vs))"
    using sk by (simp add: parse_object_def Let_def advance_at_one)
  then show "\<exists>a'. parse_value (\<lambda>_. True) d' (at a pre ((0x7B # t @ [0x7D]) @ rest)) =
      Some (at a' (pre @ 0x7B # t @ [0x7D]) rest, Some (CJSON cJSON_Object None [] None vs))"
    unfolding d1(1) by (intro exI [of _ a']) (simp add: bracket_scalar)
qed

lemma value_empty:
  assumes "json_ws w"
  shows "value_ok (Suc d) (CJSON cJSON_Array None [] None []) (0x5B # w @ [0x5D])" "value_ok (Suc d) (CJSON cJSON_Object None [] None []) (0x7B # w @ [0x7D])"
proof -
  have sk: "buffer_skip_whitespace (advance 1 (at a pre (x # w @ y # rest))) = at a (pre @ x # w) (y # rest)" if "32 < y" for a pre x y rest
    using skip_at [OF assms that, of a "pre @ [x]" rest] by (simp add: advance_at_one)
  have l: "\<exists>e. d' = Suc e" if "Suc d \<le> d'" for d' using that by (cases d') auto
  show "value_ok (Suc d) (CJSON cJSON_Array None [] None []) (0x5B # w @ [0x5D])"
    unfolding value_ok_def using sk [of "0x5D" _ _ "0x5B"] l
    by (fastforce simp: bracket_scalar parse_array_def Let_def advance_at_one nth_append)
  show "value_ok (Suc d) (CJSON cJSON_Object None [] None []) (0x7B # w @ [0x7D])"
    unfolding value_ok_def using sk [of "0x7D" _ _ "0x7B"] l
    by (fastforce simp: bracket_scalar parse_object_def Let_def advance_at_one)
qed

lemma value_literal:
  "value_ok d (CJSON cJSON_NULL None [] None []) (ascii ''null'')" "value_ok d (CJSON cJSON_False None [] None []) (ascii ''false'')"
  "value_ok d (CJSON cJSON_True None [] None []) (ascii ''true'')"
  by (auto simp: value_ok_def scalar_of_value [of _ "_ :: nat"] parse_scalar_def ascii_def advance_def at_def literal_at_def)

lemma grammar_parsed:
  "json_value d v t \<Longrightarrow> value_ok d v t" "json_elems d vs t \<Longrightarrow> elems_ok d vs t" "json_members d vs t \<Longrightarrow> members_ok d vs t"
  by (induction rule: json_value_json_elems_json_members.inducts)
    (rule value_literal value_string value_number value_empty value_array value_object elems_one elems_more members_one members_more; assumption)+

text \<open>A whole text.\<close>

lemma text_parsed:
  assumes "json_value d v t" and "d \<le> CJSON_NESTING_LIMIT" and "json_ws w" and "0 \<notin> set rest" and "rest = [] \<or> \<not> number_char (hd rest)"
  shows "cJSON_Parse (\<lambda>_. True) (w @ t @ rest @ 0 # memory) = Some (Some v)"
proof -
  obtain h r where t: "t = h # r" "32 < h" "0 \<notin> set t" using value_text(1) [OF assms(1)] by (cases t) auto
  have z: "0 \<notin> set (w @ t @ rest)" using t(3) ws_nonzero [OF assms(3)] assms(4) by simp
  have c: "c_str (w @ t @ rest @ 0 # memory) 0 = Some (w @ t @ rest)" using c_str_zero [of "[]" 0 "w @ t @ rest" memory] z by simp
  have n: "rest @ [0] \<noteq> []" "\<not> number_char (hd (rest @ [0]))"
    using assms(5) by (cases rest; auto simp: number_char_def c_isdigit_def)+
  obtain a where a: "parse_value (\<lambda>_. True) CJSON_NESTING_LIMIT (at 1 w (t @ rest @ [0])) = Some (at a (w @ t) (rest @ [0]), Some v)"
    using grammar_parsed(1) [OF assms(1), unfolded value_ok_def, rule_format, OF assms(2) n, of 1 w] by auto
  have "cJSON_New_Item (\<lambda>_. True) \<lparr>pb_content = (w @ t @ rest) @ [0], pb_offset = 0, pb_allocs = 0\<rparr> = (at 1 [] (w @ t @ rest @ [0]), True)"
    by (simp add: cJSON_New_Item_def at_def)
  moreover have "buffer_skip_whitespace (at 1 [] (w @ t @ rest @ [0])) = at 1 w (t @ rest @ [0])"
    using skip_at [OF assms(3) t(2), of 1 "[]" "r @ rest @ [0]"] t(1) by simp
  ultimately show ?thesis using c a by (simp add: cJSON_Parse_value)
qed

end
