(* ===== verification/Cjson_Props.thy ===== *)
theory Cjson_Props
  imports Cjson_Grammar
begin

unbundle bit_operations_syntax

text \<open>Properties of the JSON parser: it is safe on every text, reads the texts of the reference syntax, and encodes in UTF-8.\<close>

section \<open>UTF-8\<close>

text \<open>The reference decoding of one character.\<close>

definition utf8_cont :: "u8 \<Rightarrow> bool" where
  "utf8_cont c \<longleftrightarrow> 0x80 \<le> unat c \<and> unat c < 0xC0"

fun utf8_decode :: "u8 list \<Rightarrow> nat option" where
  "utf8_decode [a] = (if unat a < 0x80 then Some (unat a) else None)"
| "utf8_decode [a, b] = (if 0xC0 \<le> unat a \<and> unat a < 0xE0 \<and> utf8_cont b then Some ((unat a - 0xC0) * 64 + (unat b - 0x80)) else None)"
| "utf8_decode [a, b, c] = (if 0xE0 \<le> unat a \<and> unat a < 0xF0 \<and> utf8_cont b \<and> utf8_cont c
     then Some (((unat a - 0xE0) * 64 + (unat b - 0x80)) * 64 + (unat c - 0x80)) else None)"
| "utf8_decode [a, b, c, d] = (if 0xF0 \<le> unat a \<and> unat a < 0xF8 \<and> utf8_cont b \<and> utf8_cont c \<and> utf8_cont d
     then Some ((((unat a - 0xF0) * 64 + (unat b - 0x80)) * 64 + (unat c - 0x80)) * 64 + (unat d - 0x80)) else None)"
| "utf8_decode _ = None"

lemma tail_byte: "unat (ucast ((cp OR 0x80) AND 0xBF :: u64) :: u8) = 0x80 + unat cp mod 64"
proof -
  have e: "(0x80 :: u64) = 2 ^ 7" "(0xBF :: u64) = mask 6 OR 2 ^ 7" by (simp_all add: mask_eq_exp_minus_1)
  have "(cp OR 0x80) AND 0xBF = take_bit 6 cp OR 2 ^ 7"
    unfolding e by (rule bit_eqI) (auto simp: bit_simps)
  also have "\<dots> = take_bit 6 cp + 2 ^ 7" 
  proof (rule disjunctive_add_eq_or [symmetric], rule bit_eqI)
    fix n
    show "bit (take_bit 6 cp AND 2 ^ 7) n = bit 0 n" unfolding bit_and_iff bit_take_bit_iff bit_exp_iff by auto
  qed
  finally have x: "(cp OR 0x80) AND 0xBF = take_bit 6 cp + 2 ^ 7" .
  have t: "unat (take_bit 6 cp) = unat cp mod 64" by (simp add: take_bit_eq_mod unat_mod_distrib)
  have "unat cp mod 64 < 64" by simp
  then have "unat (take_bit 6 cp + 2 ^ 7) = unat cp mod 64 + 128" using t by (simp add: unat_word_ariths)
  then show ?thesis unfolding x by (simp add: unsigned_ucast_eq take_bit_eq_mod)
qed

lemma first_byte:
  assumes "unat cp < 2 ^ k" and "m = push_bit k m'" and "unat cp + unat m < 256"
  shows "unat (ucast ((cp OR m) AND 0xFF :: u64) :: u8) = unat cp + unat m"
proof -
  have "\<not> bit cp n" if "k \<le> n" for n
  proof -
    have "unat cp < 2 ^ n" using assms(1) that by (meson less_le_trans one_le_numeral power_increasing)
    then have "\<not> bit (unat cp) n" by (simp add: bit_iff_odd)
    then show ?thesis using bit_imp_possible_bit by (auto simp: bit_unsigned_iff)
  qed
  then have "cp AND m = 0" unfolding assms(2) by (auto simp: bit_eq_iff bit_simps)
  then have a: "cp OR m = cp + m" by (rule disjunctive_add_eq_or [symmetric])
  have f: "(0xFF :: u64) = mask 8" by (simp add: mask_eq_exp_minus_1)
  have "unat (cp + m) = unat cp + unat m" using assms(3) by (simp add: unat_word_ariths)
  then show ?thesis using assms(3) unfolding a f take_bit_eq_mask [symmetric]
    by (simp add: unsigned_ucast_eq take_bit_eq_mod unat_mod_distrib)
qed

lemma unat_drop6: "unat (drop_bit 6 (cp :: u64)) = unat cp div 64"
  by (simp add: drop_bit_eq_div unat_div_distrib)

lemma utf8_roundtrip_lemma:
  assumes "codepoint \<le> 0x10FFFF"
  shows "\<exists>bs. utf8_encode codepoint = Some bs \<and> utf8_decode bs = Some (unat codepoint)"
proof -
  define n where "n = unat codepoint"
  have n: "n \<le> 0x10FFFF" using assms by (simp add: n_def word_le_nat_alt)
  have lt: "codepoint < 0x80 \<longleftrightarrow> n < 0x80" "codepoint < 0x800 \<longleftrightarrow> n < 0x800" "codepoint < 0x10000 \<longleftrightarrow> n < 0x10000"
    by (simp_all add: n_def word_less_nat_alt)
  define c1 c2 c3 where "c1 = drop_bit 6 codepoint" and "c2 = drop_bit 6 c1" and "c3 = drop_bit 6 c2"
  have u: "unat c1 = n div 64" "unat c2 = n div 64 div 64" "unat c3 = n div 64 div 64 div 64"
    unfolding c3_def c2_def unat_drop6 by (simp_all only: c1_def unat_drop6 n_def)
  have t0: "unat (ucast ((codepoint OR 0x80) AND 0xBF) :: u8) = 0x80 + n mod 64" using tail_byte [of codepoint] by (simp add: n_def)
  have t1: "unat (ucast ((c1 OR 0x80) AND 0xBF) :: u8) = 0x80 + n div 64 mod 64" using tail_byte [of c1] u by simp
  have t2: "unat (ucast ((c2 OR 0x80) AND 0xBF) :: u8) = 0x80 + n div 64 div 64 mod 64" using tail_byte [of c2] u by simp
  have d: "n div 64 div 64 * 64 + n div 64 mod 64 = n div 64" "n div 64 * 64 + n mod 64 = n"
      "n div 64 div 64 div 64 * 64 + n div 64 div 64 mod 64 = n div 64 div 64"
    by (rule div_mult_mod_eq)+
  have tl: "utf8_tail 2 codepoint [] = (c2, [ucast ((c1 OR 0x80) AND 0xBF), ucast ((codepoint OR 0x80) AND 0xBF)])"
      "utf8_tail 3 codepoint [] = (c3, [ucast ((c2 OR 0x80) AND 0xBF), ucast ((c1 OR 0x80) AND 0xBF), ucast ((codepoint OR 0x80) AND 0xBF)])"
    unfolding numeral_2_eq_2 numeral_3_eq_3 utf8_tail.simps c1_def c2_def c3_def by (rule refl)+
  consider "n < 0x80" | "0x80 \<le> n" "n < 0x800" | "0x800 \<le> n" "n < 0x10000" | "0x10000 \<le> n" by linarith
  then show ?thesis
  proof cases
    case 1
    have m: "(0x7F :: u64) = mask 7" by (simp add: mask_eq_exp_minus_1)
    have "unat (ucast (codepoint AND 0x7F) :: u8) = n"
      unfolding m take_bit_eq_mask [symmetric] using 1 by (simp add: unsigned_ucast_eq take_bit_eq_mod unat_mod_distrib n_def [symmetric])
    then show ?thesis using 1 lt by (simp add: utf8_encode_def n_def [symmetric])
  next
    case 2
    then have "n div 64 < 32" by simp
    then have f: "unat (ucast ((c1 OR 0xC0) AND 0xFF) :: u8) = n div 64 + 0xC0" using first_byte [of c1 5 "0xC0" 6] u(1) by (simp add: push_bit_eq_mult)
    have "utf8_encode codepoint = Some [ucast ((c1 OR 0xC0) AND 0xFF), ucast ((codepoint OR 0x80) AND 0xBF)]"
      using 2 lt by (simp add: utf8_encode_def c1_def)
    then show ?thesis using f t0 \<open>n div 64 < 32\<close> by (simp add: utf8_cont_def n_def [symmetric])
  next
    case 3
    then have "n div 64 div 64 < 16" by simp
    then have f: "unat (ucast ((c2 OR 0xE0) AND 0xFF) :: u8) = n div 64 div 64 + 0xE0" using first_byte [of c2 4 "0xE0" 14] u(2) by (simp add: push_bit_eq_mult)
    have e: "utf8_encode codepoint = Some [ucast ((c2 OR 0xE0) AND 0xFF), ucast ((c1 OR 0x80) AND 0xBF), ucast ((codepoint OR 0x80) AND 0xBF)]"
      using 3 lt tl by (simp add: utf8_encode_def)
    show ?thesis unfolding e by (intro exI conjI, rule refl) (simp add: f t0 t1 utf8_cont_def n_def [symmetric] d \<open>n div 64 div 64 < 16\<close>)
  next
    case 4
    then have "n div 64 div 64 div 64 < 8" using n by simp
    then have f: "unat (ucast ((c3 OR 0xF0) AND 0xFF) :: u8) = n div 64 div 64 div 64 + 0xF0" using first_byte [of c3 3 "0xF0" 30] u(3) by (simp add: push_bit_eq_mult)
    have e: "utf8_encode codepoint = Some [ucast ((c3 OR 0xF0) AND 0xFF), ucast ((c2 OR 0x80) AND 0xBF), ucast ((c1 OR 0x80) AND 0xBF),
        ucast ((codepoint OR 0x80) AND 0xBF)]"
      using 4 lt assms tl by (simp add: utf8_encode_def)
    show ?thesis unfolding e by (intro exI conjI, rule refl) (simp add: f t0 t1 t2 utf8_cont_def n_def [symmetric] d \<open>n div 64 div 64 div 64 < 8\<close>)
  qed
qed

section \<open>Properties\<close>

text \<open>
  C16 (safety). Parsing is safe on every text: whatever a zero-terminated text holds and whichever allocations
  fail, \<open>cJSON_Parse\<close> ends, reads only inside the text and writes only inside its allocations, the bytes of
  every string included.
\<close>

theorem cjson_parse_safe:
  assumes "0 \<in> set memory"
  shows "\<exists>r. cJSON_Parse ok memory = Some r"
  by (rule parse_defined [OF assms])

theorem cjson_parse_safe_witness: "\<exists>r. cJSON_Parse (\<lambda>k. k < 3) [0x5B, 0x22, 0x5C, 0x75, 0x31, 0x22, 0, 7] = Some r"
  by (rule cjson_parse_safe) simp

text \<open>
  C17 (equivalence). On a text of the reference syntax with arrays and objects nested at most 1000 deep, with white space
  before it and anything behind it that does not continue a number, \<open>cJSON_Parse\<close> returns exactly the value
  that the rules of the syntax give to the text, as long as the allocations succeed. A number stands in the item as the
  characters that \<open>strtod\<close> converts (\<open>cj_valuedouble\<close>, \<open>cj_valueint\<close>).
\<close>

theorem cjson_parse_reference:
  assumes "json_value d v t" and "d \<le> CJSON_NESTING_LIMIT" and "json_ws w" and "0 \<notin> set rest" and "rest = [] \<or> \<not> number_char (hd rest)"
  shows "cJSON_Parse (\<lambda>_. True) (w @ t @ rest @ 0 # memory) = Some (Some v)"
  by (rule text_parsed [OF assms])

theorem cjson_parse_reference_witness:
  "cJSON_Parse (\<lambda>_. True) ([32] @ (0x7B # ([] @ 0x22 # [0x61] @ 0x22 # [] @ 0x3A # [32] @ (0x5B # ([] @ ascii ''null'' @ []) @ [0x5D]) @ []) @ [0x7D]) @ [] @ 0 # [9]) =
   Some (Some (CJSON cJSON_Object None [] None [CJSON cJSON_Array None [] (Some [0x61]) [CJSON cJSON_NULL None [] None []]]))"
proof -
  have w: "json_ws []" "json_ws [32]" by (simp_all add: json_ws_def)
  have a: "json_value 1 (CJSON cJSON_Array None [] None [CJSON cJSON_NULL None [] None []]) (0x5B # ([] @ ascii ''null'' @ []) @ [0x5D])"
    unfolding One_nat_def by (intro v_array e_one v_null w)
  have c: "json_chars [0x61] [0x61]" by (intro chars_plain chars_nil) simp
  have "json_value 2 (CJSON cJSON_Object None [] None [with_name [0x61] (CJSON cJSON_Array None [] None [CJSON cJSON_NULL None [] None []])])
      (0x7B # ([] @ 0x22 # [0x61] @ 0x22 # [] @ 0x3A # [32] @ (0x5B # ([] @ ascii ''null'' @ []) @ [0x5D]) @ []) @ [0x7D])"
    unfolding numeral_2_eq_2 by (intro v_object m_one w c a [unfolded One_nat_def])
  from cjson_parse_reference [OF this _ w(2), of "[]" "[9]"] show ?thesis by (simp add: with_name_def)
qed

text \<open>
  The conversion of code points to UTF-8 gives bytes that the reference decoding turns back into
  the code point, in one to four bytes, and refuses code points above 10FFFF.
\<close>

lemma utf8_roundtrip:
  "(codepoint \<le> 0x10FFFF \<longrightarrow> (\<exists>bs. utf8_encode codepoint = Some bs \<and> utf8_decode bs = Some (unat codepoint))) \<and>
   (0x10FFFF < codepoint \<longrightarrow> utf8_encode codepoint = None)"
proof -
  have "utf8_encode codepoint = None" if "0x10FFFF < codepoint"
    using that by (auto simp: utf8_encode_def word_less_nat_alt word_le_nat_alt)
  then show ?thesis using utf8_roundtrip_lemma by blast
qed

end
