(* ===== verification/Sd_Props.thy ===== *)
theory Sd_Props
  imports Sd_Register Acm_Props Cjson_Props
begin

text \<open>Properties of the service discovery.\<close>

section \<open>A search that starts at an empty slot\<close>

text \<open>The addresses a search gets from \<open>malloc\<close> are new and differ from each other.\<close>

definition find_env_ok :: "find_env \<Rightarrow> sd_mem \<Rightarrow> bool" where
  "find_env_ok e m \<longleftrightarrow> fe_node e \<noteq> NULL \<and> fe_name e \<noteq> NULL \<and> distinct (map snd (fe_conns e)) \<and>
     (\<forall>a\<in>snd ` set (fe_conns e). sm_eps m a = None \<and> a \<noteq> fe_node e + OFFSET_LIST1 \<and> a \<noteq> fe_node e + OFFSET_LIST2)"

definition free_slot :: "sd_handle \<Rightarrow> u8 list \<Rightarrow> bool" where
  "free_slot h name \<longleftrightarrow> sd_get_service_node h name = Some NULL"

lemma free_slotD:
  assumes "free_slot h name"
  obtains i where "sd_tb_index h name = Some i" "i < length (sh_service_tb h)" "sh_service_tb h ! i = NULL"
  using assms by (auto simp: free_slot_def sd_get_service_node_def nth_opt_def split: bind_splits if_splits)

lemma get_node_after:
  assumes "sd_tb_index h name = Some i" and "i < length (sh_service_tb h)"
  shows "sd_get_service_node (h\<lparr>sh_service_tb := (sh_service_tb h)[i := a]\<rparr>) name = Some a"
  using assms by (simp add: sd_get_service_node_def sd_tb_index_def Let_def nth_opt_def split: if_splits)

lemma node_ok_next_req:
  assumes "node_ok m s name ps" and "sm_nodes m s = Some n"
  shows "node_ok (m\<lparr>sm_nodes := (sm_nodes m)(s \<mapsto> n\<lparr>sn_p_next_req_endpoint := x\<rparr>)\<rparr>) s name ps"
proof -
  define m' where "m' = m\<lparr>sm_nodes := (sm_nodes m)(s \<mapsto> n\<lparr>sn_p_next_req_endpoint := x\<rparr>)\<rparr>"
  have "sm_eps m' = sm_eps m" "sm_chans m' = sm_chans m" by (simp_all add: m'_def)
  note v = node_views [OF this]
  have "sm_nodes m' s = Some (n\<lparr>sn_p_next_req_endpoint := x\<rparr>)" by (simp add: m'_def)
  then show ?thesis using assms unfolding m'_def [symmetric] by (simp add: node_ok_def v)
qed

lemma service_find_node:
  assumes "free_slot h name" and "find_env_ok e m" and "sd_service_find e m h name = Some (m', h', r)"
  shows "sd_get_service_node h' name = Some (fe_node e) \<and> (\<exists>ps. node_ok m' (fe_node e) name ps \<and> (r = - 1 \<or> r = - 2 \<or> r = - 3 \<longrightarrow> ps = []))"
proof -
  obtain i where i: "sd_tb_index h name = Some i" "i < length (sh_service_tb h)" "sh_service_tb h ! i = NULL"
    using free_slotD [OF assms(1)] by blast
  let ?s = "fe_node e" and ?h = "h\<lparr>sh_service_tb := (sh_service_tb h)[i := fe_node e]\<rparr>"
  obtain m1 where m1: "sd_add_and_init_service ?s (fe_name e) (fe_raw e) m h name = Some (m1, ?h, ?s)" "node_ok m1 ?s name []"
      "\<forall>q. q \<noteq> ?s + OFFSET_LIST1 \<longrightarrow> q \<noteq> ?s + OFFSET_LIST2 \<longrightarrow> sm_eps m1 q = sm_eps m q"
  proof -
    have "?s \<noteq> NULL" "fe_name e \<noteq> NULL" using assms(2) by (simp_all add: find_env_ok_def)
    then show ?thesis using add_service_node [OF i, of ?s "fe_name e" "fe_raw e" m] that by blast
  qed
  have fr: "\<forall>a\<in>snd ` set (fe_conns e). sm_eps m1 a = None" "distinct (map snd (fe_conns e))"
    using assms(2) m1(3) by (auto simp: find_env_ok_def)
  consider "h' = ?h" "m' = m1"
    | nodes m2 r2 where "h' = ?h" "sd_add_endpoints (fe_conns e) ?s m1 nodes = Some (m2, r2)" "r2 < 0" "m' = m2" "r = r2"
    | nodes m2 r2 n x where "h' = ?h" "sd_add_endpoints (fe_conns e) ?s m1 nodes = Some (m2, r2)" "sm_nodes m2 ?s = Some n" "r = 1"
        "m' = m2\<lparr>sm_nodes := (sm_nodes m2)(?s \<mapsto> n\<lparr>sn_p_next_req_endpoint := x\<rparr>)\<rparr>"
    using assms(3) m1(1) unfolding sd_service_find_def by (auto simp: Let_def split: bind_splits if_splits option.splits)
  then show ?thesis
  proof cases
    case 1
    then show ?thesis using m1(2) get_node_after [OF i(1,2)] by auto
  next
    case 2
    then show ?thesis using add_endpoints_node [OF m1(2) fr 2(2)] get_node_after [OF i(1,2)] add_endpoints_result [OF 2(2)] by auto
  next
    case 3
    obtain ps where "node_ok m2 ?s name ps" using add_endpoints_node [OF m1(2) fr 3(2)] by blast
    then have "node_ok m' ?s name ps" unfolding 3(5) using 3(3) by (rule node_ok_next_req)
    then show ?thesis using get_node_after [OF i(1,2)] 3(1,4) by auto
  qed
qed

text \<open>The list of entries in etcd's answer, when there is one.\<close>

definition etcd_entries :: "find_env \<Rightarrow> sd_handle \<Rightarrow> u8 list \<Rightarrow> cJSON list option" where
  "etcd_entries e h name = do {
     r \<leftarrow> etcd_get (fe_etcd e) (sh_etcd_handle h) (ascii ''/dubbomesh/'' @ name);
     json \<leftarrow> r;
     node \<leftarrow> Option.bind (cJSON_GetObjectItemCaseSensitive (Some json) (ascii ''node'')) id;
     nodes \<leftarrow> Option.bind (cJSON_GetObjectItemCaseSensitive (Some node) (ascii ''nodes'')) id;
     Some (cj_child nodes)
   }"

lemma etcd_entries_found:
  assumes "etcd_entries e h name = Some nodes" and "sd_add_and_init_service (fe_node e) (fe_name e) (fe_raw e) m h name = Some (m1, h1, s)"
    and "sh_etcd_handle h1 = sh_etcd_handle h" and "sd_add_endpoints (fe_conns e) s m1 nodes = Some (m2, 1)"
    and "sm_nodes m2 s = Some n" and "sm_eps m2 (sn_comsuming_list n) = Some hd1" and "length (ascii ''/dubbomesh/'' @ name) < SERVICE_DISCOVERY_MAX_KEY_LEN"
  shows "sd_service_find e m h name = Some (m2\<lparr>sm_nodes := (sm_nodes m2)(s \<mapsto> n\<lparr>sn_p_next_req_endpoint := ep_next hd1\<rparr>)\<rparr>, h1, 1)"
proof -
  obtain json node ns where j: "etcd_get (fe_etcd e) (sh_etcd_handle h) (ascii ''/dubbomesh/'' @ name) = Some (Some json)"
      "cJSON_GetObjectItemCaseSensitive (Some json) (ascii ''node'') = Some (Some node)"
      "cJSON_GetObjectItemCaseSensitive (Some node) (ascii ''nodes'') = Some (Some ns)" "nodes = cj_child ns"
    using assms(1) by (auto simp: etcd_entries_def split: bind_splits)
  then show ?thesis using assms(2-7) by (simp add: sd_service_find_def)
qed

lemma service_find_registers:
  assumes "free_slot h name" and "find_env_ok e m" and "length (ascii ''/dubbomesh/'' @ name) < SERVICE_DISCOVERY_MAX_KEY_LEN"
    and "Option.bind (etcd_entries e h name) (\<lambda>ns. those (map announced ns)) = Some anns"
    and "connects (fe_conns e) (sm_mem m) (sm_acm m) (map fst anns)"
    and "sum_list (map (\<lambda>x. nat (snd x)) anns) \<le> SERVICE_DISCOVERY_MAX_LOAD_BALANCE_LIST_LEN"
  shows "\<exists>m' h' ps. sd_service_find e m h name = Some (m', h', 1) \<and> sd_get_service_node h' name = Some (fe_node e) \<and>
    node_ok m' (fe_node e) name ps \<and> image_mset (level m') (mset ps) = mset (map snd anns)"
proof -
  obtain i where i: "sd_tb_index h name = Some i" "i < length (sh_service_tb h)" "sh_service_tb h ! i = NULL"
    using free_slotD [OF assms(1)] by blast
  let ?s = "fe_node e" and ?h = "h\<lparr>sh_service_tb := (sh_service_tb h)[i := fe_node e]\<rparr>"
  have nn: "?s \<noteq> NULL" "fe_name e \<noteq> NULL" using assms(2) by (simp_all add: find_env_ok_def)
  obtain m1 where m1: "sd_add_and_init_service ?s (fe_name e) (fe_raw e) m h name = Some (m1, ?h, ?s)" "node_ok m1 ?s name []"
      "\<forall>q. q \<noteq> ?s + OFFSET_LIST1 \<longrightarrow> q \<noteq> ?s + OFFSET_LIST2 \<longrightarrow> sm_eps m1 q = sm_eps m q"
      "sm_mem m1 = sm_mem m" "sm_acm m1 = sm_acm m" "lb_room m1 ?s SERVICE_DISCOVERY_MAX_LOAD_BALANCE_LIST_LEN"
    using add_service_room [OF i nn, of "fe_raw e" m] by blast
  have fr: "\<forall>a\<in>snd ` set (fe_conns e). sm_eps m1 a = None" "distinct (map snd (fe_conns e))"
    using assms(2) m1(3) by (auto simp: find_env_ok_def)
  obtain nodes where nodes: "etcd_entries e h name = Some nodes" "map announced nodes = map Some anns"
    using assms(4) those_eq_Some [of "map announced _" anns] by (auto split: bind_splits)
  have cn: "connects (fe_conns e) (sm_mem m1) (sm_acm m1) (map fst anns)" using assms(5) m1(4,5) by simp
  have lr: "lb_room m1 ?s (sum_list (map (\<lambda>x. nat (snd x)) anns))" using m1(6) assms(6) by (auto simp: lb_room_def split: option.splits)
  obtain m2 ps where m2: "sd_add_endpoints (fe_conns e) ?s m1 nodes = Some (m2, 1)" "node_ok m2 ?s name ps"
      "image_mset (level m2) (mset ps) = mset (map snd anns)"
    using add_endpoints_register [OF m1(2) fr nodes(2) cn lr] by auto
  obtain n where n: "sm_nodes m2 ?s = Some n" "endpoints m2 (sn_comsuming_list n) ps" using m2(2) by (auto simp: node_ok_def)
  obtain hd1 where hd1: "sm_eps m2 (sn_comsuming_list n) = Some hd1" using endpoints_alloc [OF n(2)] by fastforce
  let ?m = "m2\<lparr>sm_nodes := (sm_nodes m2)(?s \<mapsto> n\<lparr>sn_p_next_req_endpoint := ep_next hd1\<rparr>)\<rparr>"
  have "sd_service_find e m h name = Some (?m, ?h, 1)"
    by (rule etcd_entries_found [OF nodes(1) m1(1) _ m2(1) n(1) hd1 assms(3)]) simp
  moreover have "node_ok ?m ?s name ps" by (rule node_ok_next_req [OF m2(2) n(1)])
  moreover have "image_mset (level ?m) (mset ps) = mset (map snd anns)" using m2(3) by (simp add: level_def [abs_def])
  ultimately show ?thesis using get_node_after [OF i(1,2)] by blast
qed

text \<open>The choice, when a node is there.\<close>

lemma optimal_existing:
  assumes "sd_get_service_node h name = Some s" and "s \<noteq> NULL"
  shows "sd_get_optimal_endpoint e m h name = (case sd_choose m s of None \<Rightarrow> None | Some (m1, ch) \<Rightarrow> Some (m1, h, ch))"
  using assms by (auto simp: sd_get_optimal_endpoint_def split: option.splits bind_splits)

lemma optimal_least:
  assumes "sd_get_service_node h name = Some s" and "s \<noteq> NULL" and "node_ok m s name' ps" and "\<forall>p\<in>set ps. balanced m p"
  shows "if \<exists>q\<in>set ps. open_requests m q < 200
    then \<exists>p e ch. p \<in> set ps \<and> open_requests m p < 200 \<and> sm_eps m p = Some e \<and> sm_chans m (ep_p_agent_channel e) = Some ch \<and>
      (\<forall>q\<in>set ps. open_requests m q < 200 \<longrightarrow> open_requests m p * level m q \<le> open_requests m q * level m p) \<and>
      sd_get_optimal_endpoint env m h name =
        Some (m\<lparr>sm_chans := (sm_chans m)(ep_p_agent_channel e \<mapsto> ch\<lparr>ac_request_num := ac_request_num ch + 1\<rparr>)\<rparr>, h, ep_p_agent_channel e)
    else sd_get_optimal_endpoint env m h name = None"
proof -
  obtain sn where sn: "sm_nodes m s = Some sn" "endpoints m (sn_comsuming_list sn) ps" "\<forall>p\<in>set ps. has_channel m p"
    using assms(3) by (auto simp: node_ok_def)
  have "\<forall>p\<in>set ps. has_channel m p \<and> balanced m p" using sn(3) assms(4) by blast
  note c = choose_least [OF sn(1,2) this]
  show ?thesis
  proof (cases "\<exists>q\<in>set ps. open_requests m q < 200")
    case True
    then show ?thesis using c optimal_existing [OF assms(1,2), of env m] by (auto split: option.splits)
  next
    case False
    then show ?thesis using c optimal_existing [OF assms(1,2), of env m] by auto
  qed
qed

lemma etcd_silent:
  assumes "length (et_etcd_url et @ ascii ''/v2/keys'' @ key) < ETCD_MAX_CURL_URL_LEN"
    and "ee_global_init e \<noteq> 0 \<or> \<not> ee_easy_init e \<or>
      (case ee_chunks e (et_etcd_url et @ ascii ''/v2/keys'' @ key) of [] \<Rightarrow> True | c # cs \<Rightarrow> c \<noteq> [] \<and> cJSON_Parse (ee_alloc e) (c @ ee_behind e) = Some None)"
  shows "etcd_get e et key = Some None"
  using assms by (auto simp: etcd_get_def Let_def etcd_process_get_data_def split: list.splits)

section \<open>A concrete service\<close>

text \<open>Two endpoints, at 20 with load level 3 and at 30 with load level 1, in the ring with head 10.\<close>

definition sd_cell :: "addr \<Rightarrow> int \<Rightarrow> addr \<Rightarrow> addr \<Rightarrow> sd_endpoint" where
  "sd_cell c l p n = \<lparr>ep_p_agent_channel = c, ep_load_level = l, ep_remain = of_int l, ep_prev = p, ep_next = n\<rparr>"

definition sd_demo_node :: sd_service_node where
  "sd_demo_node = \<lparr>sn_service_name = ascii ''svc'', sn_hash_code = sd_hash_code (ascii ''svc''), sn_endpoints_num = 0,
     sn_p_next_req_endpoint = 20, sn_comsuming_list = 10, sn_saturated_list = 15, sn_load_balance_list = [], sn_lb_list_len = 0,
     sn_next_select_ep = 0, sn_next = NULL\<rparr>"

definition sd_demo_mem :: "u64 \<Rightarrow> u64 \<Rightarrow> sd_mem" where
  "sd_demo_mem a b = \<lparr>sm_eps = [10 \<mapsto> sd_cell 0 0 30 20, 15 \<mapsto> sd_cell 0 0 15 15, 20 \<mapsto> sd_cell 40 3 10 30, 30 \<mapsto> sd_cell 50 1 20 10, 70 \<mapsto> sd_cell 60 2 0 0],
     sm_malloced = (\<lambda>p. p \<in> {20, 30, 70}), sm_nodes = [8 \<mapsto> sd_demo_node],
     sm_chans = [40 \<mapsto> (ac_demo ac_demo_queue 1 True)\<lparr>ac_request_num := a\<rparr>, 50 \<mapsto> (ac_demo ac_demo_queue 1 True)\<lparr>ac_request_num := b\<rparr>],
     sm_mem = demo1, sm_acm = Some ac_demo_handle\<rparr>"

definition sd_demo_handle :: "addr \<Rightarrow> sd_handle" where
  "sd_demo_handle p = \<lparr>sh_etcd_handle = \<lparr>et_etcd_url = ascii ''http://e'', et_port = 0\<rparr>, sh_service_tb = replicate 1024 p, sh_service_tb_size = 1024\<rparr>"

lemmas sd_demo_defs = sd_cell_def sd_demo_node_def sd_demo_mem_def sd_demo_handle_def

lemma sd_demo_get: "sd_get_service_node (sd_demo_handle p) name = Some p"
proof -
  have "unat (sd_hash_code name mod 1024) < 1024"
    using word_mod_less_divisor [of "1024 :: 32 word" "sd_hash_code name"] by (simp add: word_less_nat_alt)
  then show ?thesis by (simp add: sd_get_service_node_def sd_tb_index_def sd_demo_handle_def)
qed

lemma sd_demo_endpoints: "endpoints (sd_demo_mem a b) 10 [20, 30]"
  by (simp add: endpoints_def sd_nx_def sd_pv_def sd_demo_defs)

lemma sd_demo_levels: "level (sd_demo_mem a b) 20 = 3" "level (sd_demo_mem a b) 30 = 1" "level (sd_demo_mem a b) 70 = 2"
    "open_requests (sd_demo_mem a b) 20 = sint (ucast a :: s32)" "open_requests (sd_demo_mem a b) 30 = sint (ucast b :: s32)"
  by (simp_all add: level_def open_requests_def sd_demo_defs)

lemma sd_demo_node_ok: "node_ok (sd_demo_mem a b) 8 (ascii ''svc'') [20, 30]"
proof -
  have "sm_nodes (sd_demo_mem a b) 8 = Some sd_demo_node" "sn_service_name sd_demo_node = ascii ''svc''" "sn_comsuming_list sd_demo_node = 10"
    by (simp_all add: sd_demo_mem_def sd_demo_node_def)
  moreover have "has_channel (sd_demo_mem a b) 20" "has_channel (sd_demo_mem a b) 30" by (simp_all add: has_channel_def sd_demo_defs)
  ultimately show ?thesis using sd_demo_endpoints by (simp add: node_ok_def sd_demo_levels)
qed

text \<open>An answer of etcd with one endpoint, and what the system gives to the search.\<close>

definition sd_demo_entry :: "u8 list" where
  "sd_demo_entry = 0x7B # ([] @ 0x22 # ascii ''key'' @ 0x22 # [] @ 0x3A # [] @ (0x22 # ascii ''/dubbomesh/svc/10.0.0.1:30000'' @ [0x22]) @ [] @ 0x2C #
     ([] @ 0x22 # ascii ''value'' @ 0x22 # [] @ 0x3A # [] @ (0x22 # ascii ''2'' @ [0x22]) @ [])) @ [0x7D]"

definition sd_demo_text :: "u8 list" where
  "sd_demo_text = 0x7B # ([] @ 0x22 # ascii ''node'' @ 0x22 # [] @ 0x3A # [] @
     (0x7B # ([] @ 0x22 # ascii ''nodes'' @ 0x22 # [] @ 0x3A # [] @ (0x5B # ([] @ sd_demo_entry @ []) @ [0x5D]) @ []) @ [0x7D]) @ []) @ [0x7D]"

definition sd_demo_item :: cJSON where
  "sd_demo_item = CJSON cJSON_Object None [] None
     [with_name (ascii ''key'') (CJSON cJSON_String (Some (ascii ''/dubbomesh/svc/10.0.0.1:30000'')) [] None []),
      with_name (ascii ''value'') (CJSON cJSON_String (Some (ascii ''2'')) [] None [])]"

definition sd_demo_json :: cJSON where
  "sd_demo_json = CJSON cJSON_Object None [] None [with_name (ascii ''node'') (CJSON cJSON_Object None [] None
     [with_name (ascii ''nodes'') (CJSON cJSON_Array None [] None [sd_demo_item])])]"

lemma plain_chars: "\<forall>c\<in>set s. c \<notin> {0, 0x22, 0x5C} \<Longrightarrow> json_chars s s"
  by (induction s) (auto intro: json_chars.intros)

lemma sd_demo_grammar: "json_value 4 sd_demo_json sd_demo_text"
proof -
  have w: "json_ws []" by (simp add: json_ws_def)
  have c: "json_chars (ascii ''key'') (ascii ''key'')" "json_chars (ascii ''value'') (ascii ''value'')" "json_chars (ascii ''node'') (ascii ''node'')"
      "json_chars (ascii ''nodes'') (ascii ''nodes'')" "json_chars (ascii ''2'') (ascii ''2'')"
      "json_chars (ascii ''/dubbomesh/svc/10.0.0.1:30000'') (ascii ''/dubbomesh/svc/10.0.0.1:30000'')"
    by (rule plain_chars, simp add: ascii_def)+
  have 1: "json_value (Suc 0) sd_demo_item sd_demo_entry"
    unfolding sd_demo_item_def sd_demo_entry_def by (intro v_object m_more m_one v_string w c)
  have "json_value (Suc (Suc (Suc (Suc 0)))) sd_demo_json sd_demo_text"
    unfolding sd_demo_json_def sd_demo_text_def by (intro v_object v_array m_one e_one w c 1)
  then show ?thesis by (simp add: numeral_eq_Suc)
qed

lemma sd_demo_parsed: "cJSON_Parse (\<lambda>_. True) (sd_demo_text @ [0]) = Some (Some sd_demo_json)"
  using text_parsed [OF sd_demo_grammar, of "[]" "[]" "[]"] by (simp add: json_ws_def)

definition sd_demo_conn :: conn_env where
  "sd_demo_conn = \<lparr>ce_socket = 5, ce_connect = (\<lambda>_ _. 0), ce_chan = 5000, ce_raw = ac_demo [] 1 False, ce_queue = 8000,
     ce_raw_queue = (\<lambda>_. ac_demo_task), ce_epoll_read = 0, ce_epoll_write = 0\<rparr>"

definition sd_demo_env :: "u8 list list \<Rightarrow> find_env" where
  "sd_demo_env chunks = \<lparr>fe_node = 100000, fe_name = 200000, fe_raw = (\<lambda>_. NULL),
     fe_etcd = \<lparr>ee_global_init = 0, ee_easy_init = True, ee_chunks = (\<lambda>_. chunks), ee_alloc = (\<lambda>_. True), ee_behind = [0]\<rparr>,
     fe_conns = [(sd_demo_conn, 300000)]\<rparr>"

lemma sd_demo_env_ok: "find_env_ok (sd_demo_env c) (sd_demo_mem a b)"
  by (simp add: find_env_ok_def sd_demo_env_def sd_demo_defs)

lemma sd_demo_parse: "sd_parse_ip_and_port (ascii ''/dubbomesh/svc/10.0.0.1:30000'') = Some (Some (ascii ''10.0.0.1''), Some 30000)"
proof -
  have "ascii ''/dubbomesh/svc/10.0.0.1:30000'' = ascii ''/dubbomesh/svc'' @ 0x2F # ascii ''10.0.0.1'' @ 0x3A # c_itoa 30000"
    by (simp add: ascii_def c_itoa_def c_digits.simps)
  then show ?thesis using parse_address [of "ascii ''/dubbomesh/svc''" "ascii ''10.0.0.1''" 30000] by (simp add: ascii_def)
qed

lemma sd_demo_connect:
  "\<exists>mm acm p chan. acm_connect sd_demo_conn demo1 (Some ac_demo_handle) ip port = Some (mm, acm, Some (p, chan))"
  by (simp add: acm_connect_def sd_demo_conn_def ac_demo_handle_def mmpl_getmem_def demo_defs mmpl_align_def mmpl_index_def Let_def
      getmem_finish_def malloc_at_def mn_upd_def)

lemma sd_demo_free: "free_slot (sd_demo_handle NULL) name"
  by (simp add: free_slot_def sd_demo_get)

lemma sd_demo_announced: "announced sd_demo_item = Some ((ascii ''10.0.0.1'', 30000), 2)"
proof -
  have "c_atoi (ascii ''2'') = Some 2" using c_atoi_itoa [of 2 "[]" "[]"] by (simp add: c_itoa_def c_digits.simps ascii_def)
  moreover have "ascii ''key'' \<noteq> ascii ''value''" by (simp add: ascii_def)
  ultimately show ?thesis
    by (simp add: announced_def sd_demo_item_def with_name_def cJSON_GetObjectItemCaseSensitive_def cJSON_IsNull_def sd_demo_parse)
qed

lemma sd_demo_entries:
  "Option.bind (etcd_entries (sd_demo_env [sd_demo_text]) (sd_demo_handle NULL) (ascii ''svc'')) (\<lambda>ns. those (map announced ns)) =
   Some [((ascii ''10.0.0.1'', 30000), 2)]"
proof -
  have ne: "sd_demo_text \<noteq> []" by (simp add: sd_demo_text_def)
  have "length (et_etcd_url (sh_etcd_handle (sd_demo_handle NULL)) @ ascii ''/v2/keys'' @ ascii ''/dubbomesh/'' @ ascii ''svc'') < 1024"
    by (simp add: sd_demo_handle_def ascii_def)
  then have "etcd_get (fe_etcd (sd_demo_env [sd_demo_text])) (sh_etcd_handle (sd_demo_handle NULL)) (ascii ''/dubbomesh/'' @ ascii ''svc'') = Some (Some sd_demo_json)"
    using ne by (simp add: etcd_get_def sd_demo_env_def etcd_process_get_data_def sd_demo_parsed Let_def)
  then have "etcd_entries (sd_demo_env [sd_demo_text]) (sd_demo_handle NULL) (ascii ''svc'') = Some [sd_demo_item]"
    by (simp add: etcd_entries_def sd_demo_json_def with_name_def cJSON_GetObjectItemCaseSensitive_def)
  then show ?thesis by (simp add: sd_demo_announced)
qed

lemma sd_demo_connects: "connects (fe_conns (sd_demo_env c)) (sm_mem (sd_demo_mem a b)) (sm_acm (sd_demo_mem a b)) [(ip, port)]"
  using sd_demo_connect [of ip "of_int port"] by (auto simp: sd_demo_env_def sd_demo_mem_def split: option.splits)

lemma sd_demo_find: "\<exists>m' h'. sd_service_find (sd_demo_env [sd_demo_text]) (sd_demo_mem 0 0) (sd_demo_handle NULL) (ascii ''svc'') = Some (m', h', 1)"
  using service_find_registers [OF sd_demo_free sd_demo_env_ok _ sd_demo_entries, of 0 0] sd_demo_connects by (auto simp: ascii_def)

section \<open>Properties\<close>

text \<open>
  C8 (functional). When the service is in the table, \<open>sd_get_optimal_endpoint\<close> chooses among the endpoints
  with fewer than 200 open requests one whose quotient of open requests and load level is least (compared
  exactly, although the code compares rounded \<open>float\<close>s), counts one more request on its channel, and changes
  nothing else; when all endpoints have 200 open requests, or there is none, it uses an uninitialised pointer.
\<close>

theorem sd_optimal_least_loaded:
  assumes "sd_get_service_node h name = Some s" and "s \<noteq> NULL" and "node_ok m s name' ps" and "\<forall>p\<in>set ps. balanced m p"
  shows "if \<exists>q\<in>set ps. open_requests m q < 200
    then \<exists>p e ch. p \<in> set ps \<and> open_requests m p < 200 \<and> sm_eps m p = Some e \<and> sm_chans m (ep_p_agent_channel e) = Some ch \<and>
      (\<forall>q\<in>set ps. open_requests m q < 200 \<longrightarrow> open_requests m p * level m q \<le> open_requests m q * level m p) \<and>
      sd_get_optimal_endpoint env m h name =
        Some (m\<lparr>sm_chans := (sm_chans m)(ep_p_agent_channel e \<mapsto> ch\<lparr>ac_request_num := ac_request_num ch + 1\<rparr>)\<rparr>, h, ep_p_agent_channel e)
    else sd_get_optimal_endpoint env m h name = None"
  by (rule optimal_least [OF assms])

theorem sd_optimal_least_loaded_witness:
  "\<exists>m'. sd_get_optimal_endpoint (sd_demo_env []) (sd_demo_mem 7 2) (sd_demo_handle 8) (ascii ''svc'') = Some (m', sd_demo_handle 8, 50)"
proof -
  let ?m = "sd_demo_mem 7 2"
  have b: "\<forall>p\<in>set [20, 30]. balanced ?m p" by (simp add: balanced_def sd_demo_levels)
  have n: "(8 :: addr) \<noteq> NULL" by simp
  have "\<exists>q\<in>set [20, 30]. open_requests ?m q < 200" by (simp add: sd_demo_levels)
  then obtain p e m' where p: "p \<in> set [20, 30]" "sm_eps ?m p = Some e"
      "\<forall>q\<in>set [20, 30]. open_requests ?m q < 200 \<longrightarrow> open_requests ?m p * level ?m q \<le> open_requests ?m q * level ?m p"
      "sd_get_optimal_endpoint (sd_demo_env []) ?m (sd_demo_handle 8) (ascii ''svc'') = Some (m', sd_demo_handle 8, ep_p_agent_channel e)"
    using sd_optimal_least_loaded [OF sd_demo_get n sd_demo_node_ok b, where name = "ascii ''svc''" and env = "sd_demo_env []"] by metis
  then have "p = 30" by (auto simp: sd_demo_levels)
  then have "ep_p_agent_channel e = 50" using p(2) by (simp add: sd_demo_mem_def sd_cell_def) (metis sd_endpoint.select_convs(1))
  then show ?thesis using p(4) by auto
qed

text \<open>
  C33 (invariant). Whatever etcd, the network and the memory pool answer, a search for a service whose slot
  is empty that returns leaves the service's node in the slot, with a ring of endpoints sorted by falling
  load level, each with an open channel; the results -1, -2, -3 leave the ring empty.
\<close>

theorem sd_find_keeps_node_ok:
  assumes "free_slot h name" and "find_env_ok e m" and "sd_service_find e m h name = Some (m', h', r)"
  shows "sd_get_service_node h' name = Some (fe_node e) \<and> (\<exists>ps. node_ok m' (fe_node e) name ps \<and> (r = - 1 \<or> r = - 2 \<or> r = - 3 \<longrightarrow> ps = []))"
  by (rule service_find_node [OF assms])

theorem sd_find_keeps_node_ok_witness:
  "\<exists>m' h' ps. sd_service_find (sd_demo_env [sd_demo_text]) (sd_demo_mem 0 0) (sd_demo_handle NULL) (ascii ''svc'') = Some (m', h', 1) \<and>
     sd_get_service_node h' (ascii ''svc'') = Some 100000 \<and> node_ok m' 100000 (ascii ''svc'') ps"
proof -
  have f: "free_slot (sd_demo_handle NULL) (ascii ''svc'')" by (simp add: free_slot_def sd_demo_get)
  obtain m' h' where m': "sd_service_find (sd_demo_env [sd_demo_text]) (sd_demo_mem 0 0) (sd_demo_handle NULL) (ascii ''svc'') = Some (m', h', 1)"
    using sd_demo_find by blast
  then show ?thesis using sd_find_keeps_node_ok [OF f sd_demo_env_ok m'] by (auto simp: sd_demo_env_def)
qed

text \<open>
  C9 (functional). When etcd's answer is well formed, every endpoint in it accepts the connection and the
  load levels add up to at most 10000, the search succeeds, and the list of the service has exactly one
  endpoint for each entry of the answer, with its load level, in falling order.
\<close>

theorem sd_find_registers_all:
  assumes "free_slot h name" and "find_env_ok e m" and "length (ascii ''/dubbomesh/'' @ name) < SERVICE_DISCOVERY_MAX_KEY_LEN"
    and "Option.bind (etcd_entries e h name) (\<lambda>ns. those (map announced ns)) = Some anns"
    and "connects (fe_conns e) (sm_mem m) (sm_acm m) (map fst anns)"
    and "sum_list (map (\<lambda>x. nat (snd x)) anns) \<le> SERVICE_DISCOVERY_MAX_LOAD_BALANCE_LIST_LEN"
  shows "\<exists>m' h' ps. sd_service_find e m h name = Some (m', h', 1) \<and> sd_get_service_node h' name = Some (fe_node e) \<and>
    node_ok m' (fe_node e) name ps \<and> image_mset (level m') (mset ps) = mset (map snd anns)"
  by (rule service_find_registers [OF assms])

theorem sd_find_registers_all_witness:
  "\<exists>m' h' ps. sd_service_find (sd_demo_env [sd_demo_text]) (sd_demo_mem 0 0) (sd_demo_handle NULL) (ascii ''svc'') = Some (m', h', 1) \<and>
     image_mset (level m') (mset ps) = {#2#}"
  using sd_find_registers_all [OF sd_demo_free sd_demo_env_ok _ sd_demo_entries, of 0 0] sd_demo_connects by (auto simp: ascii_def)

text \<open>
  A search that etcd does not answer fails once with \<open>NULL\<close>, but its node stays in the table: every
  later call for that service, whatever etcd would answer then, uses an uninitialised pointer.
\<close>

lemma sd_failed_find_poisons:
  assumes "free_slot h name" and "find_env_ok e m"
    and "length (et_etcd_url (sh_etcd_handle h) @ ascii ''/v2/keys'' @ ascii ''/dubbomesh/'' @ name) < ETCD_MAX_CURL_URL_LEN"
    and "ee_global_init (fe_etcd e) \<noteq> 0 \<or> \<not> ee_easy_init (fe_etcd e) \<or>
      (case ee_chunks (fe_etcd e) (et_etcd_url (sh_etcd_handle h) @ ascii ''/v2/keys'' @ ascii ''/dubbomesh/'' @ name) of
         [] \<Rightarrow> True | c # cs \<Rightarrow> c \<noteq> [] \<and> cJSON_Parse (ee_alloc (fe_etcd e)) (c @ ee_behind (fe_etcd e)) = Some None)"
  shows "\<exists>m' h'. sd_get_optimal_endpoint e m h name = Some (m', h', NULL) \<and> (\<forall>e'. sd_get_optimal_endpoint e' m' h' name = None)"
proof -
  obtain i where i: "sd_tb_index h name = Some i" "i < length (sh_service_tb h)" "sh_service_tb h ! i = NULL"
    using free_slotD [OF assms(1)] by blast
  let ?s = "fe_node e" and ?h = "h\<lparr>sh_service_tb := (sh_service_tb h)[i := fe_node e]\<rparr>"
  have nn: "?s \<noteq> NULL" "fe_name e \<noteq> NULL" using assms(2) by (simp_all add: find_env_ok_def)
  then obtain m1 where m1: "sd_add_and_init_service ?s (fe_name e) (fe_raw e) m h name = Some (m1, ?h, ?s)" "node_ok m1 ?s name []"
    using add_service_node [OF i, of ?s "fe_name e" "fe_raw e" m] by blast
  have "etcd_get (fe_etcd e) (sh_etcd_handle h) (ascii ''/dubbomesh/'' @ name) = Some None"
    using etcd_silent [OF assms(3,4)] .
  then have "sd_service_find e m h name = Some (m1, ?h, - 1)" using m1(1) assms(3) by (simp add: sd_service_find_def)
  then have a: "sd_get_optimal_endpoint e m h name = Some (m1, ?h, NULL)"
    using assms(1) by (simp add: sd_get_optimal_endpoint_def free_slot_def)
  obtain sn where "sm_nodes m1 ?s = Some sn" "endpoints m1 (sn_comsuming_list sn) []" using m1(2) by (auto simp: node_ok_def)
  then have "sd_choose m1 ?s = None" using choose_least [of m1 ?s sn "[]"] by simp
  then have "sd_get_optimal_endpoint e' m1 ?h name = None" for e'
    using optimal_existing [OF get_node_after [OF i(1,2)] nn(1)] by simp
  then show ?thesis using a by blast
qed

text \<open>
  The table is looked up by the hash code only: two services whose codes agree modulo the size
  of the table share one node, so the second is given the endpoints of the first.
\<close>

lemma sd_lookup_ignores_name:
  assumes "sh_service_tb_size h = 1024" and "sd_hash_code a mod 1024 = sd_hash_code b mod 1024"
    and "sd_get_service_node h a = Some s" and "s \<noteq> NULL"
  shows "sd_get_optimal_endpoint e m h b = sd_get_optimal_endpoint e m h a"
proof -
  have "sd_get_service_node h b = Some s" using assms(1-3) by (simp add: sd_get_service_node_def sd_tb_index_def)
  then show ?thesis using optimal_existing [OF _ assms(4)] assms(3) by simp
qed

text \<open>
  C24 (refinement). \<open>sd_insert_endpoint\<close> implements the insertion into the abstract list before the first
  endpoint with no larger load level: it always returns, the ring stays a ring, sorted by falling load level
  when it was so before, with exactly the new endpoint added, and no data and no other list is touched.
\<close>

theorem sd_insert_refines:
  assumes "endpoints m h ps" and "n \<notin> set (h # ps)" and "n \<noteq> NULL" and "sm_eps m n \<noteq> None"
    and "sorted_wrt (\<lambda>p q. level m p \<ge> level m q) ps"
  shows "\<exists>m' ps'. sd_insert_endpoint m h n = Some (m', 1) \<and> endpoints m' h ps' \<and> ps' = insert_level (level m) n ps \<and>
    sorted_wrt (\<lambda>p q. level m' p \<ge> level m' q) ps' \<and> mset ps' = add_mset n (mset ps) \<and> same_data m m' \<and>
    (\<forall>q. q \<notin> set (h # n # ps) \<longrightarrow> sd_nx m' q = sd_nx m q \<and> sd_pv m' q = sd_pv m q)"
proof -
  obtain m' where m': "sd_insert_endpoint m h n = Some (m', 1)" "endpoints m' h (insert_level (level m) n ps)" "same_data m m'"
      "\<forall>q. q \<notin> set (h # n # ps) \<longrightarrow> sd_nx m' q = sd_nx m q \<and> sd_pv m' q = sd_pv m q"
    using insert_endpoint_ring [OF assms(1-4)] by blast
  moreover have "sorted_wrt (\<lambda>p q. level m' p \<ge> level m' q) (insert_level (level m) n ps)"
    unfolding level_same_data [OF m'(3)] by (rule insert_level_sorted [OF assms(5)])
  ultimately show ?thesis using insert_level_mset by blast
qed

theorem sd_insert_refines_witness:
  "\<exists>m'. sd_insert_endpoint (sd_demo_mem 0 0) 10 70 = Some (m', 1) \<and> endpoints m' 10 [20, 70, 30]"
proof -
  have "insert_level (level (sd_demo_mem 0 0)) 70 [20, 30] = [20, 70, 30]" by (simp add: insert_level_def sd_demo_levels)
  moreover have "sm_eps (sd_demo_mem 0 0) 70 \<noteq> None" by (simp add: sd_demo_mem_def)
  ultimately show ?thesis using sd_insert_refines [OF sd_demo_endpoints, of 70 0 0] by (fastforce simp: sd_demo_levels)
qed

end
