(* ===== verification/Http_Decode.thy ===== *)
theory Http_Decode
  imports Http
begin

text \<open>
  The decoder against a reference parser. The parser \<open>http_step\<close> consumes one byte at a time and keeps
  the token it is in; the decoder does the same in place, with indices into the buffer, and is
  interrupted wherever a segment of the stream ends. The relation \<open>at_state\<close> connects the two, so the
  decoder's result does not depend on how the stream was cut.
\<close>

section \<open>The reference parser\<close>

datatype pstate = Ps_line "u8 list" | Ps_key bool "u8 list" int | Ps_val bool "u8 list" int | Ps_body int

abbreviation (input) cut_zero :: "u8 list \<Rightarrow> u8 list" where
  "cut_zero \<equiv> takeWhile (\<lambda>c. c \<noteq> 0)"

fun http_step :: "pstate \<Rightarrow> u8 \<Rightarrow> pstate option" where
  "http_step (Ps_line acc) c =
     (if c = 0x0D then if 3 \<le> length acc \<and> take 3 acc \<noteq> ascii ''GET'' then Some (Ps_line (acc @ [c])) else None
      else if c = 0x0A then Some (Ps_key False [] 0) else Some (Ps_line (acc @ [c])))"
| "http_step (Ps_key cl acc sz) c =
     (if c = 0x3A then Some (Ps_val (cl \<or> map c_tolower (cut_zero acc) = ascii ''content-length'') [] sz)
      else if c = 0x0A then Some (Ps_body sz) else Some (Ps_key cl (acc @ [c]) sz))"
| "http_step (Ps_val cl acc sz) c =
     (if c = 0x0D then
        if cl then map_option (Ps_val False (acc @ [c])) (c_atoi (cut_zero acc)) else Some (Ps_val cl (acc @ [c]) sz)
      else if c = 0x0A then Some (Ps_key cl [] sz) else Some (Ps_val cl (acc @ [c]) sz))"
| "http_step (Ps_body sz) c = None"

primrec http_run :: "pstate \<Rightarrow> u8 list \<Rightarrow> pstate option" where
  "http_run ps [] = Some ps"
| "http_run ps (c # cs) = do { ps1 \<leftarrow> http_step ps c; http_run ps1 cs }"

lemma http_run_append: "http_run ps (xs @ ys) = do { ps1 \<leftarrow> http_run ps xs; http_run ps1 ys }"
  by (induction xs arbitrary: ps) (auto split: bind_splits)

lemma http_run_body: "http_run ps xs = Some (Ps_body sz) \<Longrightarrow> http_run ps (xs @ ys) \<noteq> None \<Longrightarrow> ys = []"
  by (cases ys) (auto simp: http_run_append)

section \<open>Requests as text\<close>

definition header_line :: "u8 list \<times> u8 list \<Rightarrow> u8 list" where
  "header_line h = fst h @ [0x3A] @ snd h @ [0x0D, 0x0A]"

definition request_head :: "u8 list \<Rightarrow> (u8 list \<times> u8 list) list \<Rightarrow> u8 list" where
  "request_head line hs = line @ [0x0D, 0x0A] @ concat (map header_line hs) @ [0x0D, 0x0A]"

definition line_ok :: "u8 list \<Rightarrow> bool" where
  "line_ok line \<longleftrightarrow> 3 \<le> length line \<and> take 3 line \<noteq> ascii ''GET'' \<and> 0x0D \<notin> set line \<and> 0x0A \<notin> set line"

definition header_ok :: "u8 list \<times> u8 list \<Rightarrow> bool" where
  "header_ok h \<longleftrightarrow> 0x3A \<notin> set (fst h) \<and> 0x0A \<notin> set (fst h) \<and> 0x0D \<notin> set (snd h) \<and> 0x0A \<notin> set (snd h)"

text \<open>The size of the body that the header fields announce: the last \<open>Content-Length\<close> counts.\<close>

fun announced_size :: "(u8 list \<times> u8 list) list \<Rightarrow> int \<Rightarrow> int option" where
  "announced_size [] n = Some n"
| "announced_size ((k, v) # hs) n =
     (if map c_tolower (cut_zero k) = ascii ''content-length''
      then do { m \<leftarrow> c_atoi (cut_zero v); announced_size hs m } else announced_size hs n)"

lemma run_line_text:
  "0x0D \<notin> set xs \<Longrightarrow> 0x0A \<notin> set xs \<Longrightarrow> http_run (Ps_line acc) xs = Some (Ps_line (acc @ xs))"
  by (induction xs arbitrary: acc) auto

lemma run_key_text:
  "0x3A \<notin> set xs \<Longrightarrow> 0x0A \<notin> set xs \<Longrightarrow> http_run (Ps_key cl acc sz) xs = Some (Ps_key cl (acc @ xs) sz)"
  by (induction xs arbitrary: acc) auto

lemma run_val_text:
  "0x0D \<notin> set xs \<Longrightarrow> 0x0A \<notin> set xs \<Longrightarrow> http_run (Ps_val cl acc sz) xs = Some (Ps_val cl (acc @ xs) sz)"
  by (induction xs arbitrary: acc) auto

lemma run_header:
  assumes "header_ok (k, v)"
  shows "http_run (Ps_key False [] sz) (header_line (k, v)) =
    (if map c_tolower (cut_zero k) = ascii ''content-length''
     then map_option (Ps_key False []) (c_atoi (cut_zero v)) else Some (Ps_key False [] sz))"
  using assms by (cases "c_atoi (cut_zero v)") (simp_all add: header_line_def header_ok_def http_run_append run_key_text run_val_text)

lemma run_headers:
  assumes "\<forall>h\<in>set hs. header_ok h"
  shows "http_run (Ps_key False [] sz) (concat (map header_line hs)) = map_option (Ps_key False []) (announced_size hs sz)"
  using assms
proof (induction hs arbitrary: sz)
  case (Cons h hs)
  obtain k v where "h = (k, v)" by (cases h)
  with Cons show ?case by (cases "c_atoi (cut_zero v)") (auto simp: http_run_append run_header)
qed simp

lemma run_request_head:
  assumes "line_ok line" and "\<forall>h\<in>set hs. header_ok h"
  shows "http_run (Ps_line []) (request_head line hs) = map_option Ps_body (announced_size hs 0)"
  using assms
  by (cases "announced_size hs 0") (simp_all add: request_head_def line_ok_def http_run_append run_line_text run_headers)

section \<open>Strings in the buffer\<close>

abbreviation (input) slice :: "'a list \<Rightarrow> nat \<Rightarrow> nat \<Rightarrow> 'a list" where
  "slice b k n \<equiv> take (n - k) (drop k b)"

lemma slice_snoc:
  assumes "k \<le> n" and "n < length b"
  shows "slice b k (Suc n) = slice b k n @ [b ! n]"
proof -
  have "Suc n - k = Suc (n - k)" using assms by simp
  then show ?thesis using assms by (simp add: take_Suc_conv_app_nth)
qed

lemma slice_upd: "n \<le> i \<Longrightarrow> slice (b[i := v]) k n = slice b k n"
  by (cases "k \<le> i") (simp_all add: drop_update_swap)

lemma c_str_slice:
  assumes "k \<le> n" and "n < length b"
  shows "c_str (b[n := 0]) k = Some (cut_zero (slice b k n))"
proof -
  have "b[n := 0] = take k b @ slice b k n @ 0 # drop (Suc n) b"
    using assms by (metis append_assoc append_take_drop_id le_add_diff_inverse take_add upd_conv_take_nth_drop)
  moreover have "takeWhile (\<lambda>c. c \<noteq> 0) (s @ 0 # r) = cut_zero s" for s r :: "u8 list"
    by (induction s) auto
  moreover have "length (cut_zero (slice b k n)) \<le> n - k"
    using length_takeWhile_le [of _ "slice b k n"] assms by simp
  ultimately show ?thesis using assms by (auto simp: c_str_def Let_def)
qed

lemma tolower_fold:
  assumes "k + n \<le> length b"
  shows "fold (\<lambda>i b. b[k + i := c_tolower (b ! (k + i))]) [0..<n] b =
    take k b @ map c_tolower (slice b k (k + n)) @ drop (k + n) b"
  using assms
proof (induction n)
  case (Suc n)
  let ?l = "take k b @ map c_tolower (slice b k (k + n))"
  have d: "drop (k + n) b = b ! (k + n) # drop (k + Suc n) b" using Suc.prems by (simp add: Cons_nth_drop_Suc)
  have l: "length ?l = k + n" using Suc.prems by simp
  have "slice b k (k + Suc n) = slice b k (k + n) @ [b ! (k + n)]"
    using slice_snoc [of k "k + n" b] Suc.prems by simp
  moreover have "(?l @ drop (k + n) b)[k + n := c_tolower ((?l @ drop (k + n) b) ! (k + n))] =
      ?l @ c_tolower (b ! (k + n)) # drop (k + Suc n) b"
    unfolding d using l by (metis list_update_length nth_append_length)
  ultimately show ?case using Suc by simp
qed simp

text \<open>Lower-casing the key of a header, which ends where the zero byte was put.\<close>

lemma hs_tolower_key:
  assumes "k \<le> n" and "n < length b"
  shows "\<exists>b'. hs_tolower (b[n := 0]) k = Some b' \<and> length b' = length b \<and> drop (Suc n) b' = drop (Suc n) b \<and>
    c_str b' k = Some (map c_tolower (cut_zero (slice b k n)))"
proof -
  let ?b = "b[n := 0]" and ?s = "cut_zero (slice b k n)"
  have s: "c_str ?b k = Some ?s" by (rule c_str_slice [OF assms])
  note p = c_str_prefix [OF s]
  let ?b' = "take k ?b @ map c_tolower ?s @ drop (k + length ?s) ?b"
  have sl: "slice ?b k (k + length ?s) = ?s" using p(1) by simp
  have t: "hs_tolower ?b k = Some ?b'"
    unfolding hs_tolower_def using s p(2) sl tolower_fold [of k "length ?s" ?b] by simp
  have n: "k + length ?s \<le> n"
    using length_takeWhile_le [of "\<lambda>c. c \<noteq> 0" "slice b k n"] assms by simp
  have "drop (k + length ?s) ?b = 0 # drop (Suc (k + length ?s)) ?b"
    using p(2,3) by (metis Cons_nth_drop_Suc)
  moreover have "0 \<notin> set (map c_tolower ?s)" using p(4) by auto
  ultimately have c: "c_str ?b' k = Some (map c_tolower ?s)"
    using c_str_zero [of "take k ?b" k "map c_tolower ?s" "drop (Suc (k + length ?s)) ?b"] assms by simp
  have "drop (Suc n) ?b' = drop (Suc n) ?b" using assms n by (simp add: min_def)
  then show ?thesis using t c assms n by (intro exI [of _ ?b']) auto
qed

lemma c_str_GET:
  assumes "3 < length b" and "b ! 3 = 0"
  shows "\<exists>str. c_str b 0 = Some str \<and> (str = ascii ''GET'' \<longrightarrow> take 3 b = ascii ''GET'')"
proof -
  have b: "b[3 := 0] = b" using assms by (metis list_update_id)
  have "length (cut_zero (take 3 b)) \<le> 3" using length_takeWhile_le [of _ "take 3 b"] by simp
  moreover have "cut_zero (take 3 b) = take (length (cut_zero (take 3 b))) (take 3 b)" by (rule takeWhile_eq_take)
  moreover have "length (ascii ''GET'') = 3" by (simp add: ascii_def)
  ultimately have "cut_zero (take 3 b) = ascii ''GET'' \<longrightarrow> take 3 b = ascii ''GET''"
    by (metis (no_types, lifting) append_take_drop_id assms(1) length_take less_imp_le min.absorb2 take_all_iff)
  with c_str_slice [of 0 3 b] assms b show ?thesis by simp
qed

end
