(* ===== verification/Http_Read.thy ===== *)
theory Http_Read
  imports Http_Decode
begin

text \<open>
  Receiving a request: the relation between the channel and the reference parser, one step of the
  decoder, whole segments, and a whole request however it is cut.
\<close>

section \<open>The channel and the parser\<close>

text \<open>After \<open>n\<close> bytes the channel is where the parser is; \<open>Ps_body\<close> means that the next byte is of the body.\<close>

definition at_state :: "nat \<Rightarrow> pstate \<Rightarrow> hs_channel \<Rightarrow> bool" where
  "at_state n ps ch \<longleftrightarrow> hc_decode_index ch = int n \<and> hc_is_body ch = 1 \<and>
     (case ps of
        Ps_line acc \<Rightarrow> hc_is_line ch = 1 \<and> hc_is_head ch = 1 \<and> hc_is_key ch = 1 \<and> hc_is_content_length ch = 0 \<and>
          hc_body_size ch = 0 \<and> length acc = n \<and> take (min 3 n) (hc_buffer ch) = take 3 acc
      | Ps_key cl acc sz \<Rightarrow> hc_is_line ch = 0 \<and> hc_is_head ch = 1 \<and> hc_is_key ch = 1 \<and>
          hc_is_content_length ch = (if cl then 1 else 0) \<and> hc_body_size ch = sz \<and> length acc \<le> n \<and>
          hc_key_start ch = int (n - length acc) \<and> slice (hc_buffer ch) (n - length acc) n = acc
      | Ps_val cl acc sz \<Rightarrow> hc_is_line ch = 0 \<and> hc_is_head ch = 1 \<and> hc_is_key ch = 0 \<and>
          hc_is_content_length ch = (if cl then 1 else 0) \<and> hc_body_size ch = sz \<and> length acc \<le> n \<and>
          hc_value_start ch = int (n - length acc) \<and> (cl \<longrightarrow> slice (hc_buffer ch) (n - length acc) n = acc)
      | Ps_body sz \<Rightarrow> hc_is_line ch = 0 \<and> hc_is_head ch = 0 \<and> hc_body_size ch = sz \<and> hc_body_start ch = int n)"

text \<open>What decoding up to position \<open>n\<close> leaves alone: the bytes from \<open>n\<close> on and all that is not decoding.\<close>

definition undecoded :: "nat \<Rightarrow> hs_channel \<Rightarrow> hs_channel \<Rightarrow> bool" where
  "undecoded n ch ch' \<longleftrightarrow> length (hc_buffer ch') = length (hc_buffer ch) \<and> drop n (hc_buffer ch') = drop n (hc_buffer ch) \<and>
     hc_processing_index_now ch' = hc_processing_index_now ch \<and> hc_read_index ch' = hc_read_index ch \<and>
     hc_buffer_size ch' = hc_buffer_size ch \<and> hc_is_read_done ch' = hc_is_read_done ch \<and>
     hc_addr ch' = hc_addr ch \<and> hc_socket ch' = hc_socket ch \<and> hc_epoll_fd ch' = hc_epoll_fd ch \<and> hc_events ch' = hc_events ch"

lemma undecoded_refl [simp]: "undecoded n ch ch"
  by (simp add: undecoded_def)

lemma undecoded_index [simp]:
  "undecoded n ch (ch'\<lparr>hc_decode_index := i\<rparr>) \<longleftrightarrow> undecoded n ch ch'"
  "undecoded n (ch\<lparr>hc_decode_index := i\<rparr>) ch' \<longleftrightarrow> undecoded n ch ch'"
  by (simp_all add: undecoded_def)

lemma undecoded_trans:
  assumes "undecoded n ch ch'" and "undecoded m ch' ch''" and "n \<le> m"
  shows "undecoded m ch ch''"
proof -
  have "drop m b = drop (m - n) (drop n b)" for b :: "u8 list" using assms(3) by simp
  then show ?thesis using assms(1,2) unfolding undecoded_def by metis
qed

section \<open>One byte\<close>

lemma step_line:
  assumes "at_state n (Ps_line acc) ch" and "n < length (hc_buffer ch)" and "hc_buffer ch ! n = c"
    and "http_step (Ps_line acc) c = Some ps'"
  shows "\<exists>ch'. decode_line hdl s ch c = Some (s, ch') \<and> at_state (Suc n) ps' (ch'\<lparr>hc_decode_index := hc_decode_index ch' + 1\<rparr>) \<and>
    undecoded (Suc n) ch ch'"
proof (cases "c = 0x0D")
  case True
  let ?b = "(hc_buffer ch)[n := 0, 3 := 0]"
  have p: "3 \<le> n" "take 3 acc \<noteq> ascii ''GET''" "ps' = Ps_line (acc @ [c])" "length acc = n"
    using assms(1,4) True by (auto simp: at_state_def split: if_splits)
  then have t3: "take 3 ?b = take 3 acc" using assms(1) by (simp add: at_state_def min_def)
  obtain str where "c_str ?b 0 = Some str" "str = ascii ''GET'' \<longrightarrow> take 3 ?b = ascii ''GET''"
    using c_str_GET [of ?b] p(1) assms(2) by auto
  then have "decode_line hdl s ch c = Some (s, ch\<lparr>hc_buffer := ?b\<rparr>)"
    using True p assms(1,2) t3 by (auto simp: decode_line_def at_state_def undecoded_def)
  then show ?thesis using p t3 assms(1,2) by (auto simp: at_state_def undecoded_def min_def)
next
  case False
  have t: "take (min 3 (Suc n)) (hc_buffer ch) = take 3 (acc @ [c])"
  proof (cases "n < 3")
    case True
    then have m: "min 3 (Suc n) = Suc n" "min 3 n = n" by simp_all
    have "take n (hc_buffer ch) = acc" "length acc = n" using assms(1) True by (auto simp: at_state_def min_def)
    then show ?thesis unfolding m using True assms(2,3) by (simp add: take_Suc_conv_app_nth)
  qed (use assms(1) in \<open>auto simp: at_state_def min_def split: if_splits\<close>)
  show ?thesis
  proof (cases "c = 0x0A")
    case True
    then show ?thesis using assms(1,4) by (auto simp: decode_line_def at_state_def undecoded_def)
  next
    case nl: False
    then have "ps' = Ps_line (acc @ [c])" using assms(4) False by simp
    then show ?thesis using False nl t assms(1) by (auto simp: decode_line_def at_state_def undecoded_def)
  qed
qed

lemma step_key:
  assumes "at_state n (Ps_key cl acc sz) ch" and "n < length (hc_buffer ch)" and "hc_buffer ch ! n = c"
    and "http_step (Ps_key cl acc sz) c = Some ps'"
  shows "\<exists>ch'. decode_key ch c = Some ch' \<and> at_state (Suc n) ps' (ch'\<lparr>hc_decode_index := hc_decode_index ch' + 1\<rparr>) \<and>
    undecoded (Suc n) ch ch'"
proof -
  let ?k = "n - length acc"
  have st: "hc_decode_index ch = int n" "hc_key_start ch = int ?k" "slice (hc_buffer ch) ?k n = acc" "?k \<le> n" "length acc \<le> n"
    using assms(1) by (auto simp: at_state_def)
  have nk: "nat (int n - int (length acc)) = ?k" "\<not> int n - int (length acc) < 0" using st(5) by auto
  have sn: "slice (hc_buffer ch) ?k (Suc n) = acc @ [c]"
    using slice_snoc [of ?k n "hc_buffer ch"] st(3,4) assms(2,3) by simp
  show ?thesis
  proof (cases "c = 0x3A")
    case True
    obtain b where b: "hs_tolower ((hc_buffer ch)[n := 0]) ?k = Some b" "length b = length (hc_buffer ch)"
        "drop (Suc n) b = drop (Suc n) (hc_buffer ch)" "c_str b ?k = Some (map c_tolower (cut_zero acc))"
      using hs_tolower_key [of ?k n "hc_buffer ch"] st(3,4) assms(2) by auto
    then show ?thesis using True st assms(1,2,4) by (auto simp: decode_key_def at_state_def undecoded_def nk)
  next
    case False
    show ?thesis using False sn st assms(1,4) by (auto simp: decode_key_def at_state_def undecoded_def split: if_splits)
  qed
qed

lemma step_value:
  assumes "at_state n (Ps_val cl acc sz) ch" and "n < length (hc_buffer ch)" and "hc_buffer ch ! n = c"
    and "http_step (Ps_val cl acc sz) c = Some ps'"
  shows "\<exists>ch'. decode_value ch c = Some ch' \<and> at_state (Suc n) ps' (ch'\<lparr>hc_decode_index := hc_decode_index ch' + 1\<rparr>) \<and>
    undecoded (Suc n) ch ch'"
proof -
  let ?k = "n - length acc"
  have st: "hc_decode_index ch = int n" "hc_value_start ch = int ?k" "cl \<Longrightarrow> slice (hc_buffer ch) ?k n = acc" "?k \<le> n" "length acc \<le> n"
    using assms(1) by (auto simp: at_state_def)
  have nk: "nat (int n - int (length acc)) = ?k" "\<not> int n - int (length acc) < 0" using st(5) by auto
  have sn: "cl \<Longrightarrow> slice (hc_buffer ch) ?k (Suc n) = acc @ [c]"
    using slice_snoc [of ?k n "hc_buffer ch"] st(3,4) assms(2,3) by simp
  show ?thesis
  proof (cases "c = 0x0D \<and> cl")
    case True
    then obtain v where v: "c_atoi (cut_zero acc) = Some v" "ps' = Ps_val False (acc @ [c]) v" using assms(4) by auto
    have "c_str ((hc_buffer ch)[n := 0]) ?k = Some (cut_zero acc)"
      using c_str_slice [of ?k n "hc_buffer ch"] st(3,4) assms(2) True by simp
    then show ?thesis using True v st assms(1,2) by (auto simp: decode_value_def at_state_def undecoded_def nk)
  next
    case False
    show ?thesis using False sn st assms(1,4) by (auto simp: decode_value_def at_state_def undecoded_def split: if_splits)
  qed
qed

lemma step_char:
  assumes "at_state n ps ch" and "n < length (hc_buffer ch)" and "http_step ps (hc_buffer ch ! n) = Some ps'"
  shows "\<exists>ch'. decode_char hdl s ch = Some (s, ch') \<and> at_state (Suc n) ps' (ch'\<lparr>hc_decode_index := hc_decode_index ch' + 1\<rparr>) \<and>
    undecoded (Suc n) ch ch'"
proof (cases ps)
  case (Ps_line acc)
  then show ?thesis using step_line [of n acc ch _ ps' hdl s] assms by (auto simp: decode_char_def at_state_def)
next
  case (Ps_key cl acc sz)
  then show ?thesis using step_key [of n cl acc sz ch _ ps'] assms by (auto simp: decode_char_def at_state_def)
next
  case (Ps_val cl acc sz)
  then show ?thesis using step_value [of n cl acc sz ch _ ps'] assms by (auto simp: decode_char_def at_state_def)
qed (use assms in simp)

section \<open>A segment\<close>

text \<open>Decoding the bytes \<open>cs\<close> of the head that are in the buffer, possibly followed by more.\<close>

lemma decode_bytes:
  assumes "at_state n ps ch" and "take (length cs) (drop n (hc_buffer ch)) = cs" and "http_run ps cs = Some ps'"
    and "int (n + length cs) \<le> hc_processing_index_now ch + 1"
  shows "\<exists>ch'. decode_loop hdl s ch = decode_loop hdl s ch' \<and> at_state (n + length cs) ps' ch' \<and> undecoded (n + length cs) ch ch'"
  using assms
proof (induction cs arbitrary: n ps ch)
  case (Cons c cs)
  have n: "n < length (hc_buffer ch)" using Cons.prems(2) by (metis drop_all linorder_not_less list.discI take_Nil)
  then have c: "hc_buffer ch ! n = c" and rest: "take (length cs) (drop (Suc n) (hc_buffer ch)) = cs"
    using Cons.prems(2) by (metis Cons_nth_drop_Suc length_Cons list.inject take_Suc_Cons)+
  obtain ps1 where ps1: "http_step ps c = Some ps1" "http_run ps1 cs = Some ps'"
    using Cons.prems(3) by (auto split: bind_splits)
  obtain ch1 where ch1: "decode_char hdl s ch = Some (s, ch1)" "undecoded (Suc n) ch ch1"
      "at_state (Suc n) ps1 (ch1\<lparr>hc_decode_index := hc_decode_index ch1 + 1\<rparr>)"
    using step_char [OF Cons.prems(1) n, of ps1 hdl s] c ps1(1) by auto
  let ?ch = "ch1\<lparr>hc_decode_index := hc_decode_index ch1 + 1\<rparr>"
  have "decode_loop hdl s ch = decode_loop hdl s ?ch"
    using Cons.prems(1,4) ch1(1) by (subst decode_loop.simps) (simp add: at_state_def)
  moreover obtain ch' where "decode_loop hdl s ?ch = decode_loop hdl s ch'" "at_state (Suc n + length cs) ps' ch'"
      "undecoded (Suc n + length cs) ?ch ch'"
    using Cons.IH [OF ch1(3) _ ps1(2)] ch1(2) rest Cons.prems(4) by (auto simp: undecoded_def)
  ultimately show ?case using undecoded_trans [of "Suc n" ch ?ch "Suc n + length cs" ch'] ch1(2) by auto
qed auto

text \<open>A segment that ends inside the head.\<close>

lemma decode_head_part:
  assumes "at_state n ps ch" and "take (length cs) (drop n (hc_buffer ch)) = cs" and "http_run ps cs = Some ps'"
    and "hc_processing_index_now ch + 1 = int (n + length cs)"
  shows "\<exists>ch'. decode_loop hdl s ch = Some (s, ch') \<and> at_state (n + length cs) ps' ch' \<and> undecoded (n + length cs) ch ch'"
proof -
  obtain ch' where ch': "decode_loop hdl s ch = decode_loop hdl s ch'" "at_state (n + length cs) ps' ch'" "undecoded (n + length cs) ch ch'"
    using decode_bytes [OF assms(1,2,3), of hdl s] assms(4) by auto
  then have "decode_loop hdl s ch' = Some (s, ch')"
    using assms(4) by (subst decode_loop.simps) (auto simp: at_state_def undecoded_def)
  with ch' show ?thesis by auto
qed

text \<open>The state inside the body, \<open>n\<close> bytes having arrived and the body beginning at \<open>h\<close>.\<close>

definition in_body :: "nat \<Rightarrow> nat \<Rightarrow> int \<Rightarrow> hs_channel \<Rightarrow> bool" where
  "in_body n h sz ch \<longleftrightarrow> hc_decode_index ch = int n \<and> hc_is_line ch = 0 \<and> hc_is_head ch = 0 \<and> hc_is_body ch = 1 \<and>
     hc_body_size ch = sz \<and> hc_body_start ch = int h"

lemma decode_in_body:
  assumes "in_body n h sz ch" and "int n \<le> hc_processing_index_now ch" and "n < length (hc_buffer ch)"
  shows "decode_loop hdl s ch = Some (s,
    if hc_processing_index_now ch + 1 - int h = sz
    then ch\<lparr>hc_decode_index := hc_processing_index_now ch + 1, hc_is_body := 0, hc_is_read_done := 1\<rparr>
    else ch\<lparr>hc_decode_index := hc_processing_index_now ch + 1\<rparr>)"
proof -
  have "decode_char hdl s ch = Some (s, decode_body ch)"
    using assms by (simp add: decode_char_def in_body_def)
  then have "decode_loop hdl s ch = decode_loop hdl s ((decode_body ch)\<lparr>hc_decode_index := hc_decode_index (decode_body ch) + 1\<rparr>)"
    using assms by (subst decode_loop.simps) (simp add: in_body_def)
  also have "\<dots> = Some (s, (decode_body ch)\<lparr>hc_decode_index := hc_decode_index (decode_body ch) + 1\<rparr>)"
    by (subst decode_loop.simps) (simp add: decode_body_def Let_def)
  finally show ?thesis using assms(1) by (auto simp: decode_body_def Let_def in_body_def algebra_simps)
qed

section \<open>A request that arrives in segments\<close>

definition same_conn :: "hs_channel \<Rightarrow> hs_channel \<Rightarrow> bool" where
  "same_conn ch ch' \<longleftrightarrow> hc_addr ch' = hc_addr ch \<and> hc_socket ch' = hc_socket ch \<and> hc_epoll_fd ch' = hc_epoll_fd ch \<and>
     hc_buffer_size ch' = hc_buffer_size ch \<and> length (hc_buffer ch') = length (hc_buffer ch)"

lemma same_conn_trans: "same_conn a b \<Longrightarrow> same_conn b c \<Longrightarrow> same_conn a c"
  by (simp add: same_conn_def)

text \<open>
  The channel after \<open>m\<close> bytes of the request with head \<open>H\<close> and body \<open>B\<close>, which it has room for, and
  the channel when the request is complete.
\<close>

definition room_for :: "u8 list \<Rightarrow> u8 list \<Rightarrow> hs_channel \<Rightarrow> bool" where
  "room_for H B ch \<longleftrightarrow> int (length H + length B) < hc_buffer_size ch \<and> hc_buffer_size ch \<le> int (length (hc_buffer ch)) \<and>
     hc_buffer_size ch < 2 ^ 31"

definition receiving :: "u8 list \<Rightarrow> u8 list \<Rightarrow> nat \<Rightarrow> hs_channel \<Rightarrow> bool" where
  "receiving H B m ch \<longleftrightarrow> hc_read_index ch = int m \<and> m < length H + length B \<and> hc_is_read_done ch = 0 \<and> room_for H B ch \<and>
     (if m \<le> length H then \<exists>ps. http_run (Ps_line []) (take m H) = Some ps \<and> at_state m ps ch
      else in_body m (length H) (int (length B)) ch \<and> slice (hc_buffer ch) (length H) m = take (m - length H) B)"

definition received :: "u8 list \<Rightarrow> u8 list \<Rightarrow> hs_channel \<Rightarrow> bool" where
  "received H B ch \<longleftrightarrow> hc_is_read_done ch = 1 \<and> room_for H B ch \<and> hc_body_size ch = int (length B) \<and>
     hc_body_start ch = int (length H) \<and> hc_processing_index_now ch + 1 = int (length H + length B) \<and>
     slice (hc_buffer ch) (length H) (length H + length B) = B"

text \<open>What \<open>hs_io_read\<close> does to the channel before it calls the decoder.\<close>

definition with_bytes :: "nat \<Rightarrow> u8 list \<Rightarrow> hs_channel \<Rightarrow> hs_channel" where
  "with_bytes m bs ch = ch\<lparr>hc_buffer := take m (hc_buffer ch) @ bs @ drop (m + length bs) (hc_buffer ch),
     hc_read_index := int (m + length bs), hc_processing_index := int (m + length bs) - 1,
     hc_processing_index_now := int (m + length bs) - 1\<rparr>"

lemma at_state_prefix:
  assumes "at_state n ps ch" and "take n b = take n (hc_buffer ch)"
  shows "at_state n ps (ch\<lparr>hc_buffer := b, hc_read_index := i, hc_processing_index := j, hc_processing_index_now := k\<rparr>)"
proof -
  have "slice b k n = slice (hc_buffer ch) k n" for k using assms(2) by (simp flip: drop_take)
  moreover have "take (min 3 n) b = take (min 3 n) (hc_buffer ch)" using assms(2) by (metis take_take)
  ultimately show ?thesis using assms(1) by (cases ps) (auto simp: at_state_def)
qed

lemma with_bytes_buffer:
  assumes "m + length bs \<le> length (hc_buffer ch)"
  shows "length (hc_buffer (with_bytes m bs ch)) = length (hc_buffer ch)" "take m (hc_buffer (with_bytes m bs ch)) = take m (hc_buffer ch)"
    "k \<le> length bs \<Longrightarrow> take k (drop m (hc_buffer (with_bytes m bs ch))) = take k bs"
  using assms by (auto simp: with_bytes_def)

lemma at_state_body: "at_state n (Ps_body sz) ch \<longleftrightarrow> in_body n n sz ch"
  by (auto simp: at_state_def in_body_def)

lemma undecoded_same: "undecoded n ch ch' \<Longrightarrow> same_conn ch ch'"
  by (simp add: undecoded_def same_conn_def)

lemma with_bytes_same: "m + length bs \<le> length (hc_buffer ch) \<Longrightarrow> same_conn ch (with_bytes m bs ch)"
  by (auto simp: with_bytes_def same_conn_def)

text \<open>New bytes that reach into the body: the decoder gets through the rest of the head.\<close>

lemma reach_body:
  assumes "receiving H B m ch" and "http_run (Ps_line []) H = Some (Ps_body (int (length B)))"
    and "bs = take (length bs) (drop m (H @ B))" and "length H < m + length bs" and "m + length bs \<le> length (hc_buffer ch)"
  shows "\<exists>ch'. decode_loop hdl s (with_bytes m bs ch) = decode_loop hdl s ch' \<and>
    in_body (max m (length H)) (length H) (int (length B)) ch' \<and> undecoded (max m (length H)) (with_bytes m bs ch) ch' \<and>
    slice (hc_buffer ch') (length H) m = take (m - length H) B"
proof (cases "m \<le> length H")
  case True
  let ?ch = "with_bytes m bs ch" and ?cs = "drop m H"
  obtain ps where ps: "http_run (Ps_line []) (take m H) = Some ps" "at_state m ps ch" using assms(1) True by (auto simp: receiving_def)
  have at: "at_state m ps ?ch"
    using at_state_prefix [OF ps(2), of "hc_buffer ?ch"] with_bytes_buffer(2) [OF assms(5)] by (simp add: with_bytes_def)
  have cs: "take (length ?cs) (drop m (hc_buffer ?ch)) = ?cs"
  proof -
    have "take (length ?cs) (drop m (hc_buffer ?ch)) = take (length ?cs) bs"
      using assms(4) True by (intro with_bytes_buffer(3) [OF assms(5)]) simp
    also have "\<dots> = take (length ?cs) (take (length bs) (drop m (H @ B)))" by (subst assms(3)) (rule refl)
    also have "\<dots> = ?cs" using assms(4) True by (simp add: min_def)
    finally show ?thesis .
  qed
  have run: "http_run ps ?cs = Some (Ps_body (int (length B)))"
    using assms(2) ps(1) http_run_append [of "Ps_line []" "take m H" ?cs] by simp
  have "int (m + length ?cs) \<le> hc_processing_index_now ?ch + 1" using assms(4) True by (simp add: with_bytes_def)
  from decode_bytes [OF at cs run this, of hdl s] True show ?thesis by (auto simp: at_state_body max_def)
next
  case False
  have "in_body m (length H) (int (length B)) (with_bytes m bs ch)"
    using assms(1) False by (simp add: receiving_def in_body_def with_bytes_def)
  moreover have "slice (hc_buffer (with_bytes m bs ch)) (length H) m = take (m - length H) B"
    using assms(1) False with_bytes_buffer(2) [OF assms(5)] by (simp add: receiving_def flip: drop_take)
  ultimately show ?thesis using False by (auto intro!: exI [of _ "with_bytes m bs ch"] simp: max_def)
qed

lemma body_slice:
  fixes H B b b' :: "u8 list"
  assumes "n = max m (length H)" and "n \<le> m + length bs" and "take (length bs) (drop m b) = bs"
    and "bs = take (length bs) (drop m (H @ B))" and "drop n b' = drop n b" and "slice b' (length H) m = take (m - length H) B"
  shows "slice b' (length H) (m + length bs) = take (m + length bs - length H) B"
proof -
  let ?e = "m + length bs"
  have "slice b' (length H) ?e = slice b' (length H) n @ slice b' n ?e"
  proof -
    have "?e - length H = (n - length H) + (?e - n)" using assms(1,2) by simp
    then show ?thesis using assms(1) by (simp only: take_add drop_drop) simp
  qed
  also have "slice b' (length H) n = take (n - length H) B"
    using assms(1,6) by (cases "m \<le> length H") (auto simp: max_def)
  also have "slice b' n ?e = slice b n ?e" using assms(5) by simp
  also have "slice b n ?e = slice (H @ B) n ?e"
  proof -
    have d: "slice xs n ?e = drop (n - m) (take (length bs) (drop m xs))" for xs :: "u8 list"
      using assms(1) by (simp add: drop_take add.commute)
    show ?thesis using d [of b] d [of "H @ B"] assms(3,4) by metis
  qed
  also have "\<dots> = slice B (n - length H) (?e - length H)" using assms(1) by (simp add: max_def)
  finally have "slice b' (length H) ?e = take (n - length H) B @ slice B (n - length H) (?e - length H)" .
  also have "\<dots> = take (?e - length H) B"
    by (metis assms(1,2) diff_le_mono le_add_diff_inverse take_add)
  finally show ?thesis .
qed

end
