(* ===== verification/Http_Request.thy ===== *)
theory Http_Request
  imports Http_Read
begin

text \<open>
  A whole request: the effect of one readable event, and the sequence of events that epoll delivers
  while the stream of a request arrives.
\<close>

section \<open>One segment\<close>

lemma http_run_prefix:
  assumes "http_run ps (xs @ ys) = Some r"
  shows "\<exists>ps1. http_run ps xs = Some ps1 \<and> http_run ps1 ys = Some r"
  using assms by (auto simp: http_run_append split: bind_splits)

lemma segment_in_head:
  assumes "receiving H B m ch" and "http_run (Ps_line []) H = Some r" and "bs = take (length bs) (drop m H)"
    and "m + length bs \<le> length H" and "B \<noteq> []"
  shows "\<exists>ch'. decode_loop hdl s (with_bytes m bs ch) = Some (s, ch') \<and> receiving H B (m + length bs) ch' \<and>
    undecoded (m + length bs) (with_bytes m bs ch) ch'"
proof -
  let ?ch = "with_bytes m bs ch"
  have le: "m + length bs \<le> length (hc_buffer ch)" using assms(1,4) by (auto simp: receiving_def room_for_def)
  obtain ps where ps: "http_run (Ps_line []) (take m H) = Some ps" "at_state m ps ch"
    using assms(1,4) by (auto simp: receiving_def)
  have at: "at_state m ps ?ch"
    using at_state_prefix [OF ps(2), of "hc_buffer ?ch"] with_bytes_buffer(2) [OF le] by (simp add: with_bytes_def)
  have h: "take (m + length bs) H = take m H @ bs" using assms(3) by (metis take_add)
  obtain ps' where ps': "http_run ps bs = Some ps'" "http_run (Ps_line []) (take (m + length bs) H) = Some ps'"
    using http_run_prefix [of "Ps_line []" "take (m + length bs) H" "drop (m + length bs) H" r]
      http_run_append [of "Ps_line []" "take m H" bs] assms(2) ps(1) by (auto simp flip: h)
  have bs: "take (length bs) (drop m (hc_buffer ?ch)) = bs" using with_bytes_buffer(3) [OF le, of "length bs"] by simp
  obtain ch' where ch': "decode_loop hdl s ?ch = Some (s, ch')" "at_state (m + length bs) ps' ch'" "undecoded (m + length bs) ?ch ch'"
    using decode_head_part [OF at bs ps'(1), of hdl s] by (auto simp: with_bytes_def)
  moreover have "receiving H B (m + length bs) ch'"
  proof -
    have "0 < length B" using assms(5) by simp
    then have "m + length bs < length H + length B" using assms(4) by linarith
    then show ?thesis using ch'(2,3) ps'(2) assms(1,4) le by (auto simp: receiving_def undecoded_def room_for_def with_bytes_def)
  qed
  ultimately show ?thesis by auto
qed

lemma segment_to_body:
  assumes "receiving H B m ch" and "http_run (Ps_line []) H = Some (Ps_body (int (length B)))"
    and "bs = take (length bs) (drop m (H @ B))" and "length H < m + length bs" and "m + length bs \<le> length H + length B" and "bs \<noteq> []"
  shows "\<exists>ch'. decode_loop hdl s (with_bytes m bs ch) = Some (s, ch') \<and> same_conn ch ch' \<and> hc_events ch' = hc_events ch \<and>
    (if m + length bs = length H + length B then received H B ch' else receiving H B (m + length bs) ch')"
proof -
  let ?ch = "with_bytes m bs ch" and ?n = "max m (length H)" and ?e = "m + length bs"
  have rm: "room_for H B ch" "hc_is_read_done ch = 0" using assms(1) by (auto simp: receiving_def)
  then have le: "?e < length (hc_buffer ch)" using assms(5) by (auto simp: room_for_def)
  then have le': "?e \<le> length (hc_buffer ch)" by simp
  have n: "?n < ?e" using assms(4,6) by (cases bs) auto
  obtain ch' where ch': "decode_loop hdl s ?ch = decode_loop hdl s ch'" "in_body ?n (length H) (int (length B)) ch'"
      "undecoded ?n ?ch ch'" "slice (hc_buffer ch') (length H) m = take (m - length H) B"
    using reach_body [OF assms(1-4) le', of hdl s] by blast
  have now: "hc_processing_index_now ch' + 1 = int ?e" "hc_read_index ch' = int ?e"
    using ch'(3) by (simp_all add: undecoded_def with_bytes_def)
  have sl: "slice (hc_buffer ch') (length H) ?e = take (?e - length H) B"
    using ch'(3,4) n assms(3) with_bytes_buffer(3) [OF le', of "length bs"]
    by (intro body_slice [OF refl, of m H bs "hc_buffer ?ch" B]) (simp_all add: undecoded_def)
  have d: "decode_loop hdl s ch' = Some (s, if ?e = length H + length B
      then ch'\<lparr>hc_decode_index := int ?e, hc_is_body := 0, hc_is_read_done := 1\<rparr> else ch'\<lparr>hc_decode_index := int ?e\<rparr>)"
    using decode_in_body [OF ch'(2), of hdl s] ch'(3) now n le assms(4) with_bytes_buffer(1) [OF le']
    by (auto simp: undecoded_def)
  have same: "same_conn ch ch'" "hc_events ch' = hc_events ch" "hc_is_read_done ch' = 0" "room_for H B ch'"
    using ch'(3) with_bytes_same [OF le'] undecoded_same [OF ch'(3)] rm
    by (auto simp: undecoded_def with_bytes_def same_conn_def room_for_def)
  show ?thesis
  proof (cases "?e = length H + length B")
    case True
    then have "received H B (ch'\<lparr>hc_decode_index := int ?e, hc_is_body := 0, hc_is_read_done := 1\<rparr>)"
      using ch'(2) sl now same(4) by (simp add: received_def in_body_def room_for_def)
    then show ?thesis using ch'(1) d True same by (auto simp: same_conn_def)
  next
    case False
    then have "receiving H B ?e (ch'\<lparr>hc_decode_index := int ?e\<rparr>)"
      using ch'(2) sl now same assms(4,5) by (auto simp: receiving_def in_body_def room_for_def)
    then show ?thesis using ch'(1) d False same by (auto simp: same_conn_def)
  qed
qed

lemma read_segment:
  assumes "receiving H B m ch" and "http_run (Ps_line []) H = Some (Ps_body (int (length B)))" and "B \<noteq> []"
    and "bs = take (length bs) (drop m (H @ B))" and "m + length bs \<le> length H + length B" and "bs \<noteq> []"
  shows "\<exists>ch'. decode_loop hdl s (with_bytes m bs ch) = Some (s, ch') \<and> same_conn ch ch' \<and> hc_events ch' = hc_events ch \<and>
    (if m + length bs = length H + length B then received H B ch' else receiving H B (m + length bs) ch')"
proof (cases "m + length bs \<le> length H")
  case True
  have bs: "bs = take (length bs) (drop m H)" using assms(4) True by simp
  have le: "m + length bs \<le> length (hc_buffer ch)" using assms(1) True by (auto simp: receiving_def room_for_def)
  obtain ch' where "decode_loop hdl s (with_bytes m bs ch) = Some (s, ch')" "receiving H B (m + length bs) ch'"
      "undecoded (m + length bs) (with_bytes m bs ch) ch'"
    using segment_in_head [OF assms(1,2) bs True assms(3), of hdl s] by blast
  moreover from this have "same_conn ch ch'" "hc_events ch' = hc_events ch"
    using undecoded_same with_bytes_same [OF le] same_conn_trans by (blast, simp add: undecoded_def with_bytes_def)
  ultimately show ?thesis using True assms(3) by auto
next
  case False
  then show ?thesis using segment_to_body [OF assms(1,2,4) _ assms(5,6), of hdl s] by simp
qed

section \<open>One readable event\<close>

text \<open>The handler gets the body, followed by a zero byte.\<close>

definition delivered :: "u8 list \<Rightarrow> u8 list \<Rightarrow> hs_channel \<Rightarrow> bool" where
  "delivered H B ch \<longleftrightarrow> hc_is_read_done ch = 1 \<and> take (Suc (length B)) (drop (length H) (hc_buffer ch)) = B @ [0]"

definition rearmed :: "int \<Rightarrow> hs_channel \<Rightarrow> hs_channel" where
  "rearmed rc ch = (if hc_is_read_done ch \<noteq> 1 then fst (hs_epoll_mod rc ch (EPOLLIN OR EPOLLRDHUP)) else ch)"

lemma received_handler:
  assumes "received H B ch"
  shows "\<exists>ch'. delivered H B ch' \<and> same_conn ch ch' \<and> hc_events ch' = hc_events ch \<and>
    hs_content_handler_thread (Some f) s ch = f s ch' (int (length B)) (int (length H))"
proof -
  let ?e = "length H + length B" and ?b = "(hc_buffer ch)[length H + length B := 0]"
  have e: "hc_processing_index_now ch + 1 = int ?e" "?e < length (hc_buffer ch)"
    using assms by (auto simp: received_def room_for_def)
  have "slice ?b (length H) (Suc ?e) = slice ?b (length H) ?e @ [?b ! ?e]"
    using e(2) by (intro slice_snoc) simp_all
  then have "take (Suc (length B)) (drop (length H) ?b) = B @ [0]"
    using assms e(2) slice_upd [of ?e ?e "length H" "hc_buffer ch" 0] by (simp add: received_def Suc_diff_le)
  then have "delivered H B (ch\<lparr>hc_buffer := ?b\<rparr>)" using assms by (simp add: delivered_def received_def)
  moreover have "nat (int (length H) + int (length B)) = ?e" by simp
  ultimately show ?thesis
    using assms e by (intro exI [of _ "ch\<lparr>hc_buffer := ?b\<rparr>"]) (simp add: hs_content_handler_thread_def received_def same_conn_def)
qed

lemma io_read_again:
  assumes "0 \<le> hc_read_index ch" and "os_recv (hi_rx io) (c_size_t (hc_buffer_size ch - hc_read_index ch)) = (Io_again, r)"
  shows "hs_io_read hdl 0 0 s ch io = Some (s, ch\<lparr>hc_events := EPOLLIN OR EPOLLRDHUP OR EPOLLET OR EPOLLONESHOT\<rparr>, io\<lparr>hi_rx := r\<rparr>)"
  using assms by (simp add: hs_io_read_def hs_epoll_mod_def or.assoc)

lemma io_read_bytes:
  assumes "receiving H B m ch" and "http_run (Ps_line []) H = Some (Ps_body (int (length B)))" and "B \<noteq> []"
    and "rx_clean (hi_rx io)" and "rx_bytes (hi_rx io) = drop m (H @ B)"
    and "os_recv (hi_rx io) (c_size_t (hc_buffer_size ch - hc_read_index ch)) = (Io_ok bs, r)"
  shows "\<exists>ch'. same_conn ch ch' \<and> hc_events ch' = hc_events ch \<and>
    (if m + length bs = length H + length B
     then delivered H B ch' \<and> hs_io_read (Some f) 0 0 s ch io =
       map_option (\<lambda>(s', ch''). (s', rearmed 0 ch'', io\<lparr>hi_rx := r\<rparr>)) (f s ch' (int (length B)) (int (length H)))
     else receiving H B (m + length bs) ch' \<and> hs_io_read (Some f) 0 0 s ch io = Some (s, rearmed 0 ch', io\<lparr>hi_rx := r\<rparr>))"
proof -
  have m: "hc_read_index ch = int m" "m < length H + length B" "room_for H B ch" "hc_is_read_done ch = 0"
    using assms(1) by (auto simp: receiving_def)
  have sz: "c_size_t (hc_buffer_size ch - hc_read_index ch) = nat (hc_buffer_size ch - int m)"
    unfolding m(1) using m(2,3) by (intro c_size_t_pos) (auto simp: room_for_def)
  have bs: "bs @ rx_bytes r = drop m (H @ B)" "bs \<noteq> []"
    using os_recv_clean(4) [OF assms(4,6) refl] assms(5) m(2,3) by (auto simp: sz room_for_def)
  then have bs': "bs = take (length bs) (drop m (H @ B))" by (metis append_eq_conv_conj)
  have le: "m + length bs \<le> length H + length B" using arg_cong [OF bs(1), of length] m(2) by simp
  have mc: "mem_copy (hc_buffer ch) m bs = Some (hc_buffer (with_bytes m bs ch))"
    using le m(3) by (auto simp: mem_copy_def with_bytes_def room_for_def)
  have nf: "\<not> hc_buffer_size ch \<le> int m + int (length bs)" using le m(3) by (auto simp: room_for_def)
  have d: "hs_io_read (Some f) 0 0 s ch io = do {
      (s1, ch3) \<leftarrow> hs_decoder (Some f) s (with_bytes m bs ch);
      Some (s1, rearmed 0 ch3, io\<lparr>hi_rx := r\<rparr>) }"
    using m(1) assms(6) mc nf by (simp add: hs_io_read_def rearmed_def Let_def) (simp add: with_bytes_def)
  obtain ch' where ch': "decode_loop (Some f) s (with_bytes m bs ch) = Some (s, ch')" "same_conn ch ch'" "hc_events ch' = hc_events ch"
      "if m + length bs = length H + length B then received H B ch' else receiving H B (m + length bs) ch'"
    using read_segment [OF assms(1-3) bs' le bs(2), of "Some f" s] by blast
  show ?thesis
  proof (cases "m + length bs = length H + length B")
    case True
    then have r: "received H B ch'" using ch'(4) by simp
    obtain ch2 where ch2: "delivered H B ch2" "same_conn ch' ch2" "hc_events ch2 = hc_events ch'"
        "hs_content_handler_thread (Some f) s ch' = f s ch2 (int (length B)) (int (length H))"
      using received_handler [OF r, of f s] by blast
    have "hs_decoder (Some f) s (with_bytes m bs ch) = f s ch2 (int (length B)) (int (length H))"
      using ch'(1) ch2(4) r by (simp add: hs_decoder_def received_def)
    then have "hs_io_read (Some f) 0 0 s ch io =
        map_option (\<lambda>(s', ch''). (s', rearmed 0 ch'', io\<lparr>hi_rx := r\<rparr>)) (f s ch2 (int (length B)) (int (length H)))"
      unfolding d by (cases "f s ch2 (int (length B)) (int (length H))") auto
    then show ?thesis using True ch2 ch'(2,3) same_conn_trans by (intro exI [of _ ch2]) auto
  next
    case False
    then have "hs_decoder (Some f) s (with_bytes m bs ch) = Some (s, ch')"
      using ch'(1,4) by (simp add: hs_decoder_def receiving_def)
    then show ?thesis using False ch' d by (intro exI [of _ ch']) auto
  qed
qed

section \<open>The events of a connection\<close>

text \<open>
  The events epoll delivers for a channel: while it is registered for \<open>EPOLLIN\<close> and bytes are there, a
  delivery clears the registration (it is one-shot) and an I/O thread runs \<open>hs_io_read\<close>.
\<close>

partial_function (option) hs_read_events ::
  "'s content_handler \<Rightarrow> 's \<Rightarrow> hs_channel \<Rightarrow> hs_io \<Rightarrow> ('s \<times> hs_channel \<times> hs_io) option"
where
  "hs_read_events hdl s ch io =
     (if hc_events ch AND EPOLLIN = 0 \<or> rx_bytes (hi_rx io) = [] then Some (s, ch, io)
      else do {
        (s1, ch1, io1) \<leftarrow> hs_io_read hdl 0 0 s (ch\<lparr>hc_events := 0\<rparr>) io;
        hs_read_events hdl s1 ch1 io1
      })"

lemma receiving_events [simp]: "receiving H B m (ch\<lparr>hc_events := e\<rparr>) \<longleftrightarrow> receiving H B m ch"
  by (simp add: receiving_def room_for_def at_state_def in_body_def split: pstate.splits)

lemma same_conn_events [simp]: "same_conn (ch\<lparr>hc_events := e\<rparr>) ch' \<longleftrightarrow> same_conn ch ch'"
    "same_conn ch (ch'\<lparr>hc_events := e\<rparr>) \<longleftrightarrow> same_conn ch ch'"
  by (simp_all add: same_conn_def)

text \<open>
  Every way to cut the stream of a request leads to one call of the handler, on a channel that holds
  the body, and the events end with it.
\<close>

lemma read_events_request:
  assumes "receiving H B m ch" and "http_run (Ps_line []) H = Some (Ps_body (int (length B)))" and "B \<noteq> []"
    and "rx_clean (hi_rx io)" and "rx_bytes (hi_rx io) = drop m (H @ B)" and "hc_events ch AND EPOLLIN \<noteq> 0"
  shows "\<exists>ch' r. delivered H B ch' \<and> same_conn ch ch' \<and> hc_events ch' = 0 \<and> rx_bytes r = [] \<and>
    hs_read_events (Some f) s ch io =
      map_option (\<lambda>(s', ch''). (s', rearmed 0 ch'', io\<lparr>hi_rx := r\<rparr>)) (f s ch' (int (length B)) (int (length H)))"
  using assms
proof (induction "length (hi_rx io)" arbitrary: m ch io rule: less_induct)
  case less
  let ?ch = "ch\<lparr>hc_events := 0\<rparr>" and ?n = "c_size_t (hc_buffer_size ch - hc_read_index ch)"
  have m: "hc_read_index ch = int m" "m < length H + length B" "room_for H B ch" using less.prems(1) by (auto simp: receiving_def)
  have ne: "rx_bytes (hi_rx io) \<noteq> []" using less.prems(5) m(2) by auto
  have rec: "receiving H B m ?ch" using less.prems(1) by simp
  obtain x r where x: "os_recv (hi_rx io) ?n = (x, r)" by fastforce
  have xe: "x \<noteq> Io_err" "rx_clean r" using os_recv_clean(1,2) [OF less.prems(4) x] by auto
  have sz: "?n = nat (hc_buffer_size ch - int m)"
    unfolding m(1) using m(2,3) by (intro c_size_t_pos) (auto simp: room_for_def)
  have "length (rx_bytes (hi_rx io)) \<le> ?n" using arg_cong [OF less.prems(5), of length] sz m(2,3) by (simp add: room_for_def) linarith
  then have shorter: "length r < length (hi_rx io)" using os_recv_shorter [OF ne _ x] by simp
  have unf: "hs_read_events (Some f) s ch io = do {
      (s1, ch1, io1) \<leftarrow> hs_io_read (Some f) 0 0 s ?ch io; hs_read_events (Some f) s1 ch1 io1 }"
    using less.prems(6) ne by (subst hs_read_events.simps) simp
  have arm: "(EPOLLIN OR EPOLLRDHUP OR EPOLLET OR EPOLLONESHOT) AND EPOLLIN \<noteq> 0" by simp
  show ?case
  proof (cases x)
    case Io_again
    let ?c = "ch\<lparr>hc_events := EPOLLIN OR EPOLLRDHUP OR EPOLLET OR EPOLLONESHOT\<rparr>"
    have "hs_io_read (Some f) 0 0 s ?ch io = Some (s, ?c, io\<lparr>hi_rx := r\<rparr>)"
      using io_read_again [of ?ch io r "Some f" s] m(1) x Io_again by simp
    moreover have "rx_bytes r = drop m (H @ B)" using os_recv_clean(3) [OF less.prems(4) x Io_again] less.prems(5) by simp
    then obtain ch' r' where "delivered H B ch'" "same_conn ?c ch'" "hc_events ch' = 0" "rx_bytes r' = []"
        "hs_read_events (Some f) s ?c (io\<lparr>hi_rx := r\<rparr>) =
         map_option (\<lambda>(s', ch''). (s', rearmed 0 ch'', io\<lparr>hi_rx := r'\<rparr>)) (f s ch' (int (length B)) (int (length H)))"
      using less.hyps [of "io\<lparr>hi_rx := r\<rparr>" m ?c] shorter less.prems(1-3) xe(2) arm by auto
    ultimately show ?thesis unfolding unf by auto
  next
    case (Io_ok bs)
    obtain ch' where ch': "same_conn ?ch ch'" "hc_events ch' = 0"
        "if m + length bs = length H + length B
         then delivered H B ch' \<and> hs_io_read (Some f) 0 0 s ?ch io =
           map_option (\<lambda>(s', ch''). (s', rearmed 0 ch'', io\<lparr>hi_rx := r\<rparr>)) (f s ch' (int (length B)) (int (length H)))
         else receiving H B (m + length bs) ch' \<and> hs_io_read (Some f) 0 0 s ?ch io = Some (s, rearmed 0 ch', io\<lparr>hi_rx := r\<rparr>)"
      using io_read_bytes [OF rec less.prems(2-5), of bs r f s] x Io_ok by auto
    have br: "bs @ rx_bytes r = drop m (H @ B)" using os_recv_clean(4) [OF less.prems(4) x Io_ok] less.prems(5) by simp
    show ?thesis
    proof (cases "m + length bs = length H + length B")
      case True
      then have "length (rx_bytes r) = 0" using arg_cong [OF br, of length] m(2) by (simp del: length_0_conv)
      then have "rx_bytes r = []" by simp
      moreover have "hs_read_events (Some f) s1 c1 (io\<lparr>hi_rx := r\<rparr>) = Some (s1, c1, io\<lparr>hi_rx := r\<rparr>)" for s1 c1
        using \<open>rx_bytes r = []\<close> by (subst hs_read_events.simps) simp
      ultimately show ?thesis using ch' True unfolding unf
        by (intro exI [of _ ch'] exI [of _ r]) (cases "f s ch' (int (length B)) (int (length H))", auto)
    next
      case False
      let ?c = "ch'\<lparr>hc_events := EPOLLIN OR EPOLLRDHUP OR EPOLLET OR EPOLLONESHOT\<rparr>"
      have rec': "receiving H B (m + length bs) ch'" and rd: "hs_io_read (Some f) 0 0 s ?ch io = Some (s, ?c, io\<lparr>hi_rx := r\<rparr>)"
        using ch'(3) False by (auto simp: rearmed_def receiving_def hs_epoll_mod_def or.assoc)
      have "rx_bytes r = drop (m + length bs) (H @ B)" by (metis br append_eq_conv_conj drop_drop add.commute)
      then obtain ch2 r' where "delivered H B ch2" "same_conn ?c ch2" "hc_events ch2 = 0" "rx_bytes r' = []"
          "hs_read_events (Some f) s ?c (io\<lparr>hi_rx := r\<rparr>) =
           map_option (\<lambda>(s', ch''). (s', rearmed 0 ch'', io\<lparr>hi_rx := r'\<rparr>)) (f s ch2 (int (length B)) (int (length H)))"
        using less.hyps [of "io\<lparr>hi_rx := r\<rparr>" "m + length bs" ?c] shorter less.prems(2,3) xe(2) rec' arm by auto
      then show ?thesis using rd ch'(1) same_conn_trans unfolding unf by (intro exI [of _ ch2] exI [of _ r']) auto
    qed
  qed (use xe in simp)
qed

end
