(* ===== verification/Http_Response.thy ===== *)
theory Http_Response
  imports Http_Request
begin

text \<open>
  Responses: what \<open>hs_response_ok\<close> puts into the buffer, the writable events that send it, and the
  exchange of a request and its response on a connection.
\<close>

section \<open>Assembling a response\<close>

definition response_bytes :: "u8 list \<Rightarrow> u8 list" where
  "response_bytes body = HTTP_SERVER_RESPONSE_OK @ response_head (int (length body)) @ body"

lemma response_line_length: "length HTTP_SERVER_RESPONSE_OK = 17"
  by (simp add: HTTP_SERVER_RESPONSE_OK_def ascii_def)

text \<open>The array of 32 bytes is large enough for the head of every \<open>int\<close> size.\<close>

lemma response_head_length:
  assumes "- (2 ^ 31) \<le> n" and "n < 2 ^ 31"
  shows "length (response_head n) \<le> 30"
  using c_itoa_length [OF assms] by (simp add: response_head_def ascii_def)

lemma mem_copy_take:
  assumes "mem_copy b (length p) src = Some b'" and "take (length p) b = p"
  shows "take (length (p @ src)) b' = p @ src" "length b' = length b"
  using assms by (auto simp: mem_copy_def split: if_splits)

lemma mem_copy_room: "off + length src \<le> length dst \<Longrightarrow> \<exists>b. mem_copy dst off src = Some b"
  by (simp add: mem_copy_def)

text \<open>The buffer after the status line and the head have been copied.\<close>

lemma response_prefix:
  assumes "47 \<le> length b" and "0 \<le> n" and "n < 2 ^ 31"
  shows "\<exists>b1 b2. mem_copy b 0 HTTP_SERVER_RESPONSE_OK = Some b1 \<and>
    mem_copy b1 (length HTTP_SERVER_RESPONSE_OK) (response_head n) = Some b2 \<and> length b2 = length b \<and>
    take (length (HTTP_SERVER_RESPONSE_OK @ response_head n)) b2 = HTTP_SERVER_RESPONSE_OK @ response_head n"
proof -
  have l: "length (response_head n) \<le> 30" using response_head_length [of n] assms by simp
  obtain b1 where b1: "mem_copy b 0 HTTP_SERVER_RESPONSE_OK = Some b1"
    using mem_copy_room [of 0 HTTP_SERVER_RESPONSE_OK b] assms(1) by (auto simp: response_line_length)
  have t1: "take (length HTTP_SERVER_RESPONSE_OK) b1 = HTTP_SERVER_RESPONSE_OK" "length b1 = length b"
    using mem_copy_take [of b "[]" HTTP_SERVER_RESPONSE_OK b1] b1 by auto
  obtain b2 where b2: "mem_copy b1 (length HTTP_SERVER_RESPONSE_OK) (response_head n) = Some b2"
    using mem_copy_room [of "length HTTP_SERVER_RESPONSE_OK" "response_head n" b1] assms(1) l t1(2) by (auto simp: response_line_length)
  from b1 b2 mem_copy_take [OF b2 t1(1)] t1(2) show ?thesis by auto
qed

text \<open>A channel whose buffer holds \<open>rest\<close> from its write index on.\<close>

definition sending :: "u8 list \<Rightarrow> hs_channel \<Rightarrow> bool" where
  "sending rest ch \<longleftrightarrow> 0 \<le> hc_write_index ch \<and> hc_write_size ch = hc_write_index ch + int (length rest) \<and> hc_write_size ch < 2 ^ 31 \<and>
     take (length rest) (drop (nat (hc_write_index ch)) (hc_buffer ch)) = rest"

lemma response_ok_fits:
  assumes "47 \<le> length (hc_buffer ch)" and "hc_buffer_size ch \<le> int (length (hc_buffer ch))" and "hc_buffer_size ch < 2 ^ 31"
    and "int (length (response_bytes body)) < hc_buffer_size ch"
  shows "\<exists>ch'. hs_response_ok 0 ch body (int (length body)) = Some (ch', 1) \<and> sending (response_bytes body) ch' \<and> same_conn ch ch' \<and>
    hc_events ch' = EPOLLOUT OR EPOLLRDHUP OR EPOLLET OR EPOLLONESHOT \<and> hc_is_read_done ch' = hc_is_read_done ch"
proof -
  let ?n = "int (length body)" and ?p = "HTTP_SERVER_RESPONSE_OK @ response_head (int (length body))"
  have n: "0 \<le> ?n" "?n < 2 ^ 31" using assms(3,4) by (auto simp: response_bytes_def)
  then have l: "length (response_head ?n) \<le> 30" using response_head_length [of ?n] by simp
  obtain b1 b2 where b: "mem_copy (hc_buffer ch) 0 HTTP_SERVER_RESPONSE_OK = Some b1"
      "mem_copy b1 (length HTTP_SERVER_RESPONSE_OK) (response_head ?n) = Some b2" "length b2 = length (hc_buffer ch)" "take (length ?p) b2 = ?p"
    using response_prefix [OF assms(1) n] by blast
  have tot: "int (length ?p) + ?n < hc_buffer_size ch" using assms(4) by (simp add: response_bytes_def)
  obtain b3 where b3: "mem_copy b2 (length ?p) body = Some b3"
    using mem_copy_room [of "length ?p" body b2] tot assms(2) b(3) by auto
  let ?ch = "ch\<lparr>hc_buffer := b3, hc_write_index := 0, hc_write_size := int (length ?p) + ?n, hc_events := EPOLLOUT OR EPOLLRDHUP OR EPOLLET OR EPOLLONESHOT\<rparr>"
  have "hs_response_ok 0 ch body ?n = Some (?ch, 1)"
    using b(1,2) b3 l tot assms(3) by (simp add: hs_response_ok_def Let_def hs_epoll_mod_def or.assoc nat_add_distrib del: length_append)
       (simp add: add.assoc)
  moreover have "sending (response_bytes body) ?ch"
    using mem_copy_take(1) [OF b3 b(4)] tot assms(3) by (simp add: sending_def response_bytes_def)
  ultimately show ?thesis using mem_copy_take(2) [OF b3 b(4)] b(3) by (intro exI [of _ ?ch]) (simp add: same_conn_def)
qed

lemma response_ok_too_long:
  assumes "47 \<le> length (hc_buffer ch)" and "length body < 2 ^ 31 - 47"
    and "hc_buffer_size ch \<le> int (length (response_bytes body))"
  shows "\<exists>b. hs_response_ok 0 ch body (int (length body)) = Some (ch\<lparr>hc_buffer := b\<rparr>, - 1) \<and> length b = length (hc_buffer ch)"
proof -
  let ?n = "int (length body)"
  have n: "0 \<le> ?n" "?n < 2 ^ 31" using assms(2) by auto
  then have l: "length (response_head ?n) \<le> 30" using response_head_length [of ?n] by simp
  obtain b1 b2 where b: "mem_copy (hc_buffer ch) 0 HTTP_SERVER_RESPONSE_OK = Some b1"
      "mem_copy b1 (length HTTP_SERVER_RESPONSE_OK) (response_head ?n) = Some b2" "length b2 = length (hc_buffer ch)"
    using response_prefix [OF assms(1) n] by blast
  then show ?thesis using l assms(2,3)
    by (auto simp: hs_response_ok_def Let_def response_bytes_def response_line_length)
qed

section \<open>Sending it\<close>

partial_function (option) hs_write_events :: "hs_channel \<Rightarrow> hs_io \<Rightarrow> (hs_channel \<times> hs_io) option" where
  "hs_write_events ch io =
     (if hc_events ch AND EPOLLOUT = 0 \<or> hi_tx io = [] then Some (ch, io)
      else do {
        (ch1, io1) \<leftarrow> hs_io_write 0 0 (ch\<lparr>hc_events := 0\<rparr>) io;
        hs_write_events ch1 io1
      })"

text \<open>The room the socket has, for an oracle in which every call of \<open>send\<close> succeeds.\<close>

fun tx_rooms :: "tx list \<Rightarrow> nat option" where
  "tx_rooms [] = Some 0"
| "tx_rooms (Tx_room k # t) = map_option ((+) k) (tx_rooms t)"
| "tx_rooms (_ # t) = None"

text \<open>The channel ready for the next request, registered for it.\<close>

definition idle :: "hs_channel \<Rightarrow> bool" where
  "idle ch \<longleftrightarrow> hs_init_channel ch = ch \<and> hc_events ch = EPOLLIN OR EPOLLRDHUP OR EPOLLET OR EPOLLONESHOT"

lemma init_idem [simp]: "hs_init_channel (hs_init_channel ch) = hs_init_channel ch"
    "hs_init_channel (ch\<lparr>hc_events := e\<rparr>) = (hs_init_channel ch)\<lparr>hc_events := e\<rparr>"
  by (simp_all add: hs_init_channel_def)

lemma write_done_ok: "hs_write_done 0 ch io = Some ((hs_init_channel ch)\<lparr>hc_events := EPOLLIN OR EPOLLRDHUP OR EPOLLET OR EPOLLONESHOT\<rparr>, io)"
  by (simp add: hs_write_done_def hs_epoll_mod_def or.assoc)

lemma init_same: "same_conn ch ((hs_init_channel ch)\<lparr>hc_events := e\<rparr>)"
  by (simp add: hs_init_channel_def same_conn_def)

lemma io_write_room:
  assumes "sending rest ch" and "rest \<noteq> []" and "cells (hi_mem io) (hc_addr ch - SIZEOF_MM_NODE) \<noteq> None" and "hi_open io"
    and "hi_tx io = Tx_room k # t"
  shows "\<exists>ch'. hs_io_write 0 0 ch io = Some (ch', io\<lparr>hi_tx := t, hi_out := hi_out io @ take k rest\<rparr>) \<and> same_conn ch ch' \<and>
    (if length rest \<le> k then idle ch'
     else sending (drop k rest) ch' \<and> hc_events ch' = EPOLLOUT OR EPOLLRDHUP OR EPOLLET OR EPOLLONESHOT)"
proof -
  let ?w = "nat (hc_write_index ch)"
  have s: "0 \<le> hc_write_index ch" "hc_write_size ch - hc_write_index ch = int (length rest)" "int (length rest) < 2 ^ 31"
      "take (length rest) (drop ?w (hc_buffer ch)) = rest" "hc_write_size ch = hc_write_index ch + int (length rest)"
    using assms(1) by (auto simp: sending_def)
  have n: "c_size_t (hc_write_size ch - hc_write_index ch) = length rest" unfolding s(2) using s(3) by (simp add: c_size_t_pos)
  have le: "?w + length rest \<le> length (hc_buffer ch)"
  proof -
    have "0 < length rest" using assms(2) by simp
    then show ?thesis using arg_cong [OF s(4), of length] by (simp add: min_def del: length_greater_0_conv split: if_splits)
  qed
  have nd: "\<not> hc_write_size ch \<le> hc_write_index ch" using s(5) assms(2) by simp
  have tk: "take (min k (length rest)) rest = take k rest" by (simp add: min_def)
  show ?thesis
  proof (cases "length rest \<le> k")
    case True
    then show ?thesis using assms(3-5) s n le nd
      by (simp add: hs_io_write_def write_done_ok idle_def init_same same_conn_def)
         (simp add: hs_init_channel_def)
  next
    case False
    let ?ch = "ch\<lparr>hc_write_index := hc_write_index ch + int k, hc_events := EPOLLOUT OR EPOLLRDHUP OR EPOLLET OR EPOLLONESHOT\<rparr>"
    have "take (length rest - k) (drop (k + ?w) (hc_buffer ch)) = drop k rest"
      using arg_cong [OF s(4), of "drop k"] by (simp add: drop_take add.commute)
    then have "sending (drop k rest) ?ch" using s False assms(1) by (simp add: sending_def nat_add_distrib add.commute)
    moreover have "hs_io_write 0 0 ch io = Some (?ch, io\<lparr>hi_tx := t, hi_out := hi_out io @ take k rest\<rparr>)"
      using assms(3-5) s n le nd False tk by (simp add: hs_io_write_def hs_epoll_mod_def or.assoc)
    ultimately show ?thesis using False by (intro exI [of _ ?ch]) (simp add: same_conn_def)
  qed
qed

lemma sending_events [simp]: "sending rest (ch\<lparr>hc_events := e\<rparr>) \<longleftrightarrow> sending rest ch"
  by (simp add: sending_def)

text \<open>Writable events send the response whatever the socket takes at a time.\<close>

lemma write_events_response:
  assumes "sending rest ch" and "rest \<noteq> []" and "hc_events ch AND EPOLLOUT \<noteq> 0"
    and "cells (hi_mem io) (hc_addr ch - SIZEOF_MM_NODE) \<noteq> None" and "hi_open io"
    and "tx_rooms (hi_tx io) = Some n" and "length rest \<le> n"
  shows "\<exists>ch' t. hs_write_events ch io = Some (ch', io\<lparr>hi_tx := t, hi_out := hi_out io @ rest\<rparr>) \<and> same_conn ch ch' \<and> idle ch'"
  using assms
proof (induction "hi_tx io" arbitrary: rest ch io n)
  case (Cons x t)
  let ?ch = "ch\<lparr>hc_events := 0\<rparr>"
  obtain k n' where k: "hi_tx io = Tx_room k # t" "tx_rooms t = Some n'" "n = k + n'"
    using Cons.hyps(2) Cons.prems(6) by (cases x) (auto simp flip: Cons.hyps(2))
  obtain ch' where ch': "hs_io_write 0 0 ?ch io = Some (ch', io\<lparr>hi_tx := t, hi_out := hi_out io @ take k rest\<rparr>)" "same_conn ch ch'"
      "if length rest \<le> k then idle ch' else sending (drop k rest) ch' \<and> hc_events ch' = EPOLLOUT OR EPOLLRDHUP OR EPOLLET OR EPOLLONESHOT"
    using io_write_room [of rest ?ch io k t] Cons.prems(1,2,4,5) k(1) by auto
  have unf: "hs_write_events ch io = hs_write_events ch' (io\<lparr>hi_tx := t, hi_out := hi_out io @ take k rest\<rparr>)"
    using Cons.prems(3) k(1) ch'(1) by (subst hs_write_events.simps) simp
  show ?case
  proof (cases "length rest \<le> k")
    case True
    then have "hs_write_events ch' (io\<lparr>hi_tx := t, hi_out := hi_out io @ rest\<rparr>) = Some (ch', io\<lparr>hi_tx := t, hi_out := hi_out io @ rest\<rparr>)"
      using ch'(3) by (subst hs_write_events.simps) (simp add: idle_def)
    then show ?thesis using True unf ch' by auto
  next
    case False
    let ?io = "io\<lparr>hi_tx := t, hi_out := hi_out io @ take k rest\<rparr>"
    have "hc_addr ch' = hc_addr ch" "length (drop k rest) \<le> n'" using ch'(2) Cons.prems(7) k(3) by (simp_all add: same_conn_def)
    then obtain ch2 t' where "hs_write_events ch' ?io = Some (ch2, ?io\<lparr>hi_tx := t', hi_out := hi_out ?io @ drop k rest\<rparr>)"
        "same_conn ch' ch2" "idle ch2"
      using Cons.hyps(1) [of ?io "drop k rest" ch' n'] Cons.prems(4,5) ch'(3) False k(2) by auto
    then show ?thesis using unf ch'(2) same_conn_trans by (intro exI [of _ ch2] exI [of _ t']) auto
  qed
qed (simp add: tx_rooms.simps)

text \<open>An idle channel is ready to receive any request it has room for.\<close>

lemma init_fields:
  "hc_decode_index (hs_init_channel ch) = 0" "hc_is_line (hs_init_channel ch) = 1" "hc_is_head (hs_init_channel ch) = 1"
  "hc_is_body (hs_init_channel ch) = 1" "hc_is_read_done (hs_init_channel ch) = 0" "hc_is_key (hs_init_channel ch) = 1"
  "hc_is_content_length (hs_init_channel ch) = 0" "hc_body_size (hs_init_channel ch) = 0" "hc_read_index (hs_init_channel ch) = 0"
  by (simp_all add: hs_init_channel_def)

lemma idle_receiving:
  assumes "hs_init_channel ch = ch" and "room_for H B ch" and "B \<noteq> []"
  shows "receiving H B 0 ch"
  using init_fields [of ch, unfolded assms(1)] assms(2,3) by (simp add: receiving_def at_state_def)

end
