(* ===== verification/Http_Start.thy ===== *)
theory Http_Start
  imports Http_Server Http_Response Tdpool_Correct Mmpool_Worker
begin

text \<open>
  Lemmas on the start of the HTTP server, on new connections and on the event loop: what they submit to
  the I/O thread pool, and the state of the channel they create.
\<close>

section \<open>Calls submitted in a loop\<close>

definition loop_call :: "addr \<Rightarrow> nat \<Rightarrow> tdpl_call_node" where
  "loop_call h i = \<lparr>cn_arg = h + OFFSET_EPOLL_FD + 4 * i, cn_call_func = FN_hs_event_loop\<rparr>"

lemma start_loops_ok:
  assumes "calls_room (length is + n) p"
  shows "\<exists>p'. start_loops h is p = Some (p', True) \<and> calls_room n p' \<and> tdpl_pending p' = tdpl_pending p @ map (loop_call h) is"
  using assms
proof (induction "is" arbitrary: p)
  case (Cons i "is")
  obtain p1 where p1: "tdpl_call_func p FN_hs_event_loop (h + OFFSET_EPOLL_FD + 4 * i) = Some (p1, 1)" "calls_room (length is + n) p1"
      "tdpl_pending p1 = tdpl_pending p @ [loop_call h i]"
    using call_func_room [of "length is + n" p FN_hs_event_loop] Cons.prems by (auto simp: loop_call_def)
  then show ?case using Cons.IH [OF p1(2)] by auto
qed simp

lemma create_epolls_ok:
  assumes "\<forall>i\<in>set is. i < length fds \<and> ep i \<noteq> - 1" and "distinct is"
  shows "\<exists>fds'. create_epolls ep is fds = Some (fds', True) \<and> length fds' = length fds \<and>
    (\<forall>i < length fds. fds' ! i = (if i \<in> set is then ep i else fds ! i))"
  using assms
proof (induction "is" arbitrary: fds)
  case (Cons i "is")
  obtain fds' where f: "create_epolls ep is (fds[i := ep i]) = Some (fds', True)" "length fds' = length fds"
      "\<forall>j < length fds. fds' ! j = (if j \<in> set is then ep j else (fds[i := ep i]) ! j)"
    using Cons.IH [of "fds[i := ep i]"] Cons.prems by auto
  have "fds' ! j = (if j \<in> set (i # is) then ep j else fds ! j)" if "j < length fds" for j
    using f(3) that by (auto simp: nth_list_update)
  then show ?case using f(1,2) Cons.prems by auto
qed simp

section \<open>A block for a channel\<close>

lemma client_get:
  assumes "pool_ok m P L" and "mp_boundary P = 2 ^ k" and "k < 32" and "unat sz + (2 ^ k - 1) < 2 ^ 32"
    and "a \<noteq> NULL" and "cells m a = None"
  shows "\<exists>m' P' L' p. mmpl_getmem m P sz a = Some (m', P', p + SIZEOF_MM_NODE) \<and> pool_ok m' P' L' \<and>
    cells m' p \<noteq> None \<and> SIZEOF_MM_NODE + unat sz \<le> msize m' p"
proof (cases "L (mmpl_index sz (mp_boundary P))")
  case Nil
  have "unat sz \<le> unat (mmpl_align sz (mp_boundary P))" using align_ge(1) assms(2-4) by simp
  moreover obtain m' P' where "mmpl_getmem m P sz a = Some (m', P', a + SIZEOF_MM_NODE)" "pool_ok m' P' L"
      "got_block m m' (mmpl_index sz (mp_boundary P)) (unat (mmpl_align sz (mp_boundary P))) a"
    using getmem_malloc [OF assms(1) refl Nil assms(5,6)] by blast
  moreover from this have "cells m' a \<noteq> None" by (auto simp: got_block_def mm_data_def)
  ultimately show ?thesis unfolding got_block_def by (intro exI [of _ m'] exI [of _ P'] exI [of _ L] exI [of _ a]) simp
next
  case (Cons p xs)
  let ?i = "mmpl_index sz (mp_boundary P)"
  have "0 < ?i" using assms(1) Cons by (cases "?i = 0") (auto simp: pool_ok_def lists_ok_def)
  then have "unat sz \<le> ?i * unat (mp_boundary P)" using index_exact [of k sz] align_ge(1) [of k sz] assms(2-4) by simp
  moreover obtain m' P' where "mmpl_getmem m P sz a = Some (m', P', p + SIZEOF_MM_NODE)" "pool_ok m' P' (L(?i := xs))"
      "got_block m m' ?i (?i * unat (mp_boundary P)) p"
    using getmem_reuse [OF assms(1) refl Cons, of a] by blast
  moreover from this have "cells m' p \<noteq> None" by (auto simp: got_block_def mm_data_def)
  ultimately show ?thesis unfolding got_block_def by (intro exI [of _ m'] exI [of _ P'] exI [of _ "L(?i := xs)"] exI [of _ p]) simp
qed

section \<open>Events\<close>

text \<open>The calls an event leads to.\<close>

definition event_calls :: "u32 \<times> addr \<Rightarrow> tdpl_call_node list" where
  "event_calls ev = (case ev of (f, ch) \<Rightarrow>
     if f AND EPOLLERR \<noteq> 0 \<or> f AND EPOLLRDHUP \<noteq> 0 then []
     else (if f AND EPOLLIN \<noteq> 0 then [\<lparr>cn_arg = ch, cn_call_func = FN_hs_io_read\<rparr>] else []) @
          (if f AND EPOLLOUT \<noteq> 0 then [\<lparr>cn_arg = ch, cn_call_func = FN_hs_io_write\<rparr>] else []))"

definition event_gone :: "u32 \<times> addr \<Rightarrow> bool" where
  "event_gone ev \<longleftrightarrow> fst ev AND EPOLLERR = 0 \<and> fst ev AND EPOLLRDHUP \<noteq> 0"

lemma calls_room_mono: "calls_room n p \<Longrightarrow> k \<le> n \<Longrightarrow> calls_room k p"
  by (auto simp: calls_room_def)

lemma handle_event_calls:
  assumes "calls_room (length (event_calls (f, ch)) + n) p"
  shows "\<exists>p'. hs_handle_event f ch p = Some (p', event_gone (f, ch)) \<and> calls_room n p' \<and>
    tdpl_pending p' = tdpl_pending p @ event_calls (f, ch)"
proof (cases "f AND EPOLLERR \<noteq> 0 \<or> f AND EPOLLRDHUP \<noteq> 0")
  case True
  then show ?thesis using assms by (auto simp: hs_handle_event_def event_calls_def event_gone_def)
next
  case False
  let ?out = "if f AND EPOLLOUT \<noteq> 0 then [\<lparr>cn_arg = ch, cn_call_func = FN_hs_io_write\<rparr>] else []"
  let ?in = "if f AND EPOLLIN \<noteq> 0 then [\<lparr>cn_arg = ch, cn_call_func = FN_hs_io_read\<rparr>] else []"
  have ev: "event_calls (f, ch) = ?in @ ?out" using False by (simp add: event_calls_def)
  have room: "calls_room (length ?in + (length ?out + n)) p" using assms unfolding ev by (simp only: length_append add.assoc)
  obtain p1 r1 where p1: "(if f AND EPOLLIN \<noteq> 0 then hs_io_do_read ch p else Some (p, 0)) = Some (p1, r1)"
      "calls_room (length ?out + n) p1" "tdpl_pending p1 = tdpl_pending p @ ?in"
    using room call_func_room [of "length ?out + n" p FN_hs_io_read ch]
    by (cases "f AND EPOLLIN = 0") (auto simp: hs_io_do_read_def simp del: length_0_conv split del: if_split)
  obtain p2 r2 where p2: "(if f AND EPOLLOUT \<noteq> 0 then hs_io_do_write ch p1 else Some (p1, 0)) = Some (p2, r2)"
      "calls_room n p2" "tdpl_pending p2 = tdpl_pending p1 @ ?out"
    using p1(2) call_func_room [of n p1 FN_hs_io_write ch] by (cases "f AND EPOLLOUT = 0") (auto simp: hs_io_do_write_def)
  show ?thesis using False p1(1,3) p2 unfolding ev hs_handle_event_def event_gone_def by simp
qed

lemma handle_events_calls:
  assumes "calls_room (length (concat (map event_calls es)) + n) p"
  shows "\<exists>p'. hs_handle_events es p = Some (p', map snd (filter event_gone es)) \<and> calls_room n p' \<and>
    tdpl_pending p' = tdpl_pending p @ concat (map event_calls es)"
  using assms
proof (induction es arbitrary: p)
  case (Cons e es)
  obtain f ch where e: "e = (f, ch)" by (cases e)
  have "calls_room (length (event_calls (f, ch)) + (length (concat (map event_calls es)) + n)) p"
    using Cons.prems e by (simp add: add.assoc)
  then obtain p1 where p1: "hs_handle_event f ch p = Some (p1, event_gone (f, ch))"
      "calls_room (length (concat (map event_calls es)) + n) p1" "tdpl_pending p1 = tdpl_pending p @ event_calls (f, ch)"
    using handle_event_calls by blast
  then show ?case using Cons.IH [OF p1(2)] e by auto
qed simp

end
