(* ===== verification/Http_Props.thy ===== *)
theory Http_Props
  imports Http_Start Tdpool_Props
begin

text \<open>
  Properties of the HTTP server: requests and responses on a connection, errors, url decoding, the start
  of the server and the dispatch of events.
\<close>

section \<open>Streams that end with the head\<close>

lemma io_read_head:
  assumes "receiving H B m ch" and "http_run (Ps_line []) H = Some r" and "B \<noteq> []"
    and "rx_clean (hi_rx io)" and "rx_bytes (hi_rx io) = drop m H" and "m < length H"
    and "os_recv (hi_rx io) (c_size_t (hc_buffer_size ch - hc_read_index ch)) = (Io_ok bs, q)"
  shows "bs \<noteq> [] \<and> (\<exists>ch'. receiving H B (m + length bs) ch' \<and> rx_bytes q = drop (m + length bs) H \<and>
    hs_io_read hdl 0 0 s ch io = Some (s, rearmed 0 ch', io\<lparr>hi_rx := q\<rparr>))"
proof -
  have m: "hc_read_index ch = int m" "room_for H B ch" "hc_is_read_done ch = 0" using assms(1) by (auto simp: receiving_def)
  have sz: "c_size_t (hc_buffer_size ch - hc_read_index ch) = nat (hc_buffer_size ch - int m)"
    unfolding m(1) using m(2) assms(6) by (intro c_size_t_pos) (auto simp: room_for_def)
  have bs: "bs @ rx_bytes q = drop m H" "bs \<noteq> []"
    using os_recv_clean(4) [OF assms(4,7) refl] assms(5,6) m(2) by (auto simp: sz room_for_def)
  then have bs': "bs = take (length bs) (drop m H)" by (metis append_eq_conv_conj)
  have le: "m + length bs \<le> length H" using arg_cong [OF bs(1), of length] assms(6) by simp
  have mc: "mem_copy (hc_buffer ch) m bs = Some (hc_buffer (with_bytes m bs ch))"
    using le m(2) by (auto simp: mem_copy_def with_bytes_def room_for_def)
  have nf: "\<not> hc_buffer_size ch \<le> int m + int (length bs)" using le m(2) by (auto simp: room_for_def)
  have d: "hs_io_read hdl 0 0 s ch io = do {
      (s1, ch3) \<leftarrow> hs_decoder hdl s (with_bytes m bs ch);
      Some (s1, rearmed 0 ch3, io\<lparr>hi_rx := q\<rparr>) }"
    using m(1) assms(7) mc nf by (simp add: hs_io_read_def rearmed_def Let_def) (simp add: with_bytes_def)
  obtain ch' where ch': "decode_loop hdl s (with_bytes m bs ch) = Some (s, ch')" "receiving H B (m + length bs) ch'"
    using segment_in_head [OF assms(1,2) bs' le assms(3), of hdl s] by blast
  then have "hs_decoder hdl s (with_bytes m bs ch) = Some (s, ch')" by (simp add: hs_decoder_def receiving_def)
  moreover have "rx_bytes q = drop (m + length bs) H" by (metis bs(1) append_eq_conv_conj drop_drop add.commute)
  ultimately show ?thesis using ch'(2) d bs(2) by auto
qed

lemma read_events_head:
  assumes "receiving H B m ch" and "http_run (Ps_line []) H = Some r" and "B \<noteq> []"
    and "rx_clean (hi_rx io)" and "rx_bytes (hi_rx io) = drop m H" and "m \<le> length H" and "hc_events ch AND EPOLLIN \<noteq> 0"
  shows "\<exists>ch' io'. hs_read_events hdl s ch io = Some (s, ch', io') \<and> receiving H B (length H) ch' \<and> rx_bytes (hi_rx io') = []"
  using assms
proof (induction "length (hi_rx io)" arbitrary: m ch io rule: less_induct)
  case less
  let ?ch = "ch\<lparr>hc_events := 0\<rparr>" and ?n = "c_size_t (hc_buffer_size ch - hc_read_index ch)"
  show ?case
  proof (cases "m = length H")
    case True
    then show ?thesis using less.prems by (subst hs_read_events.simps) simp
  next
    case False
    then have mH: "m < length H" using less.prems(6) by simp
    have m: "hc_read_index ch = int m" "room_for H B ch" using less.prems(1) by (auto simp: receiving_def)
    obtain x q where x: "os_recv (hi_rx io) ?n = (x, q)" by fastforce
    have xe: "x \<noteq> Io_err" "rx_clean q" using os_recv_clean(1,2) [OF less.prems(4) x] by auto
    have sz: "?n = nat (hc_buffer_size ch - int m)"
      unfolding m(1) using m(2) mH by (intro c_size_t_pos) (auto simp: room_for_def)
    have ne: "rx_bytes (hi_rx io) \<noteq> []" using less.prems(5) mH by simp
    have "length (rx_bytes (hi_rx io)) \<le> ?n" using less.prems(5) sz m(2) mH by (simp add: room_for_def) linarith
    then have shorter: "length q < length (hi_rx io)" using os_recv_shorter [OF ne _ x] by simp
    have "\<exists>c' k. hs_io_read hdl 0 0 s ?ch io = Some (s, c', io\<lparr>hi_rx := q\<rparr>) \<and> receiving H B k c' \<and> k \<le> length H \<and>
        rx_bytes q = drop k H \<and> hc_events c' AND EPOLLIN \<noteq> 0"
    proof (cases x)
      case Io_again
      then have "rx_bytes q = drop m H" using os_recv_clean(3) [OF less.prems(4) x] less.prems(5) by simp
      then show ?thesis using io_read_again [of ?ch io q hdl s] x Io_again less.prems(1,6) m(1) by auto
    next
      case (Io_ok bs)
      obtain c' where c: "receiving H B (m + length bs) c'" "rx_bytes q = drop (m + length bs) H"
          "hs_io_read hdl 0 0 s ?ch io = Some (s, rearmed 0 c', io\<lparr>hi_rx := q\<rparr>)"
        using io_read_head [of H B m ?ch r io bs q hdl s] less.prems(1-5) mH x Io_ok by auto
      have "hc_is_read_done c' \<noteq> 1" using c(1) by (simp add: receiving_def)
      then have "rearmed 0 c' = c'\<lparr>hc_events := EPOLLIN OR EPOLLRDHUP OR EPOLLET OR EPOLLONESHOT\<rparr>"
        by (simp add: rearmed_def hs_epoll_mod_def or.assoc)
      moreover have "m + length bs \<le> length H"
      proof -
        have "length bs + length (rx_bytes q) = length H - m"
          using os_recv_clean(4) [OF less.prems(4) x Io_ok] less.prems(5) by (metis length_append length_drop)
        then show ?thesis using mH by linarith
      qed
      ultimately show ?thesis using c by auto
    qed (use xe in simp)
    then obtain c' k where c: "hs_io_read hdl 0 0 s ?ch io = Some (s, c', io\<lparr>hi_rx := q\<rparr>)" "receiving H B k c'" "k \<le> length H"
        "rx_bytes q = drop k H" "hc_events c' AND EPOLLIN \<noteq> 0" by blast
    have "hs_read_events hdl s ch io = hs_read_events hdl s c' (io\<lparr>hi_rx := q\<rparr>)"
      using less.prems(7) ne c(1) by (subst hs_read_events.simps) simp
    then show ?thesis using less.hyps [of "io\<lparr>hi_rx := q\<rparr>" k c'] shorter less.prems(2,3) xe(2) c by auto
  qed
qed

section \<open>Url decoding\<close>

lemma hs_hex2dec_eq: "hs_hex2dec = c_hex2dec"
  by (simp add: fun_eq_iff hs_hex2dec_def c_hex2dec_def)

lemma url_decode_loop_enc:
  assumes "pct_encodes {0} s e" and "length p = i" and "length res + length s \<le> HTTP_URL_DECODE_BUFSIZE"
  shows "url_decode_loop (p @ e @ r) (i + length e) i res = Some (res @ s)"
  using assms
proof (induction arbitrary: p i res rule: pct_encodes.induct)
  case pct_nil
  then show ?case by (subst url_decode_loop.simps) simp
next
  case (pct_raw c s e)
  then show ?case using pct_raw.IH [of "p @ [c]" "i + 1" "res @ [c]"] by (subst url_decode_loop.simps) (simp add: nth_append)
next
  case (pct_hex h1 h0 c s e)
  have "nth_opt (p @ (37 # h1 # h0 # e) @ r) (i + 1) = Some h1" "nth_opt (p @ (37 # h1 # h0 # e) @ r) (i + 2) = Some h0"
    using pct_hex.prems(1) by (simp_all add: nth_append)
  moreover have "of_int (hs_hex2dec h1 * 16 + hs_hex2dec h0) = c"
    unfolding hs_hex2dec_eq pct_hex.hyps(3) [symmetric] by simp
  moreover have e: "i + length (37 # h1 # h0 # e) = i + 3 + length e" by simp
  moreover have "url_decode_loop (p @ (37 # h1 # h0 # e) @ r) (i + 3 + length e) (i + 3) (res @ [c]) = Some (res @ c # s)"
    using pct_hex.IH [of "p @ [37, h1, h0]" "i + 3" "res @ [c]"] pct_hex.prems by simp
  ultimately show ?case unfolding e using pct_hex.prems by (subst url_decode_loop.simps) (simp add: nth_append)
qed

section \<open>A concrete connection\<close>

definition hs_demo :: hs_channel where
  "hs_demo = \<lparr>hc_addr = 132, hc_socket = 7, hc_epoll_fd = 3, hc_is_processing = 0, hc_is_line = 1, hc_is_head = 1, hc_is_body = 1,
     hc_is_read_done = 0, hc_is_key = 1, hc_is_content_length = 0, hc_key_start = - 1, hc_value_start = - 1, hc_processing_index = - 1,
     hc_processing_index_now = - 1, hc_decode_index = 0, hc_body_size = 0, hc_body_start = 9, hc_read_index = 0, hc_write_index = 0,
     hc_write_size = 9, hc_buffer_size = 64, hc_buffer = replicate 80 9, hc_events = EPOLLIN OR EPOLLRDHUP OR EPOLLET OR EPOLLONESHOT\<rparr>"

definition hs_demo_io :: "rx list \<Rightarrow> tx list \<Rightarrow> hs_io" where
  "hs_demo_io r t = \<lparr>hi_mem = \<lparr>cells = [100 \<mapsto> \<lparr>mn_use_flg = 1, mn_next = 100, mn_pre = 100, mn_index = 1\<rparr>], msize = (\<lambda>_. 1056)\<rparr>,
     hi_pool = demo_pool 200 0 0 NULL 0, hi_rx = r, hi_tx = t, hi_open = True, hi_out = []\<rparr>"

text \<open>The request \<open>PUT /\<close> with a body of three bytes, and what arrives of it in three segments.\<close>

definition hs_demo_line :: "u8 list" where "hs_demo_line = ascii ''PUT /''"

definition hs_demo_headers :: "nat \<Rightarrow> (u8 list \<times> u8 list) list" where
  "hs_demo_headers n = [(ascii ''Content-Length'', 32 # c_itoa (int n))]"

definition hs_demo_rx :: "u8 list \<Rightarrow> rx list" where
  "hs_demo_rx bs = [Rx_data (take 11 bs), Rx_again, Rx_data (take 15 (drop 11 bs)), Rx_data (drop 26 bs)]"

lemmas hs_demo_defs = hs_demo_def hs_demo_io_def hs_demo_line_def hs_demo_headers_def

lemma hs_demo_digits: "c_itoa 3 = [51]" "c_itoa 0 = [48]"
  by (simp_all add: c_itoa_def c_digits.simps)

lemma hs_demo_rx_bytes:
  assumes "26 < length bs"
  shows "rx_clean (hs_demo_rx bs)" and "rx_bytes (hs_demo_rx bs) = bs"
proof -
  show "rx_clean (hs_demo_rx bs)" using assms by (auto simp: hs_demo_rx_def)
  have "take 15 (drop 11 bs) @ drop 26 bs = drop 11 bs"
    using append_take_drop_id [of 15 "drop 11 bs"] by simp
  then show "rx_bytes (hs_demo_rx bs) = bs" by (simp add: hs_demo_rx_def)
qed

lemma hs_demo_ok:
  "line_ok hs_demo_line" "\<forall>h\<in>set (hs_demo_headers 3). header_ok h" "announced_size (hs_demo_headers 3) 0 = Some 3"
  "\<forall>h\<in>set (hs_demo_headers 0). header_ok h" "announced_size (hs_demo_headers 0) 0 = Some 0"
  "length (request_head hs_demo_line (hs_demo_headers 3)) = 28" "length (request_head hs_demo_line (hs_demo_headers 0)) = 28"
  by (simp_all add: hs_demo_defs line_ok_def header_ok_def hs_demo_digits ascii_def c_tolower_def c_atoi_def c_isspace_def
      c_number_def c_isdigit_def request_head_def header_line_def)

lemma hs_demo_init: "hs_init_channel hs_demo = hs_demo"
  by (simp add: hs_demo_def hs_init_channel_def)

section \<open>Properties\<close>

text \<open>
  C5 (equivalence). However the stream of a request is cut into segments, the readable events call the
  content handler exactly once, with the size and the start of the body, on a channel whose buffer holds
  the body followed by a zero byte, and then nothing is left to read. The request is any text of a
  request line other than GET, header fields, of which the last \<open>Content-Length\<close> (in any case of letters)
  announces the size, and a non-empty body, and it is shorter than the buffer.
\<close>

theorem http_request_delivered:
  assumes "hs_init_channel ch = ch" and "hc_events ch AND EPOLLIN \<noteq> 0"
    and "line_ok line" and "\<forall>h\<in>set hs. header_ok h" and "announced_size hs 0 = Some (int (length B))" and "B \<noteq> []"
    and "H = request_head line hs" and "room_for H B ch" and "rx_clean (hi_rx io)" and "rx_bytes (hi_rx io) = H @ B"
  shows "\<exists>ch' r. delivered H B ch' \<and> same_conn ch ch' \<and> rx_bytes r = [] \<and>
    hs_read_events (Some f) s ch io =
      map_option (\<lambda>(s', ch''). (s', rearmed 0 ch'', io\<lparr>hi_rx := r\<rparr>)) (f s ch' (int (length B)) (int (length H)))"
proof -
  have run: "http_run (Ps_line []) H = Some (Ps_body (int (length B)))"
    using run_request_head [OF assms(3,4)] assms(5,7) by simp
  have "receiving H B 0 ch" by (rule idle_receiving [OF assms(1,8,6)])
  from read_events_request [OF this run assms(6,9) _ assms(2), of f s] assms(10) show ?thesis by auto
qed

text \<open>A handler that answers at once, with what \<open>reply\<close> makes of the body.\<close>

definition answer_with :: "(u8 list \<Rightarrow> u8 list) \<Rightarrow> 's \<Rightarrow> hs_channel \<Rightarrow> int \<Rightarrow> int \<Rightarrow> ('s \<times> hs_channel) option" where
  "answer_with reply s ch n off = (let body = reply (take (nat n) (drop (nat off) (hc_buffer ch))) in
     map_option (\<lambda>(ch', _). (s, ch')) (hs_response_ok 0 ch body (int (length body))))"

theorem http_request_delivered_witness:
  "let H = request_head hs_demo_line (hs_demo_headers 3) in
   \<exists>ch' r. delivered H [104, 105, 33] ch' \<and> same_conn hs_demo ch' \<and> rx_bytes r = [] \<and>
    hs_read_events (Some (\<lambda>n c sz off. Some (n + (1 :: nat), c))) 0 hs_demo (hs_demo_io (hs_demo_rx (H @ [104, 105, 33])) []) =
      map_option (\<lambda>(s', ch''). (s', rearmed 0 ch'', (hs_demo_io (hs_demo_rx (H @ [104, 105, 33])) [])\<lparr>hi_rx := r\<rparr>)) (Some (1, ch'))"
proof -
  let ?H = "request_head hs_demo_line (hs_demo_headers 3)" and ?B = "[104, 105, 33] :: u8 list"
  let ?io = "hs_demo_io (hs_demo_rx (?H @ ?B)) []"
  have "room_for ?H ?B hs_demo" by (simp add: room_for_def hs_demo_ok hs_demo_def)
  moreover have "rx_clean (hi_rx ?io)" "rx_bytes (hi_rx ?io) = ?H @ ?B"
    using hs_demo_rx_bytes [of "?H @ ?B"] by (simp_all add: hs_demo_ok hs_demo_io_def)
  ultimately show ?thesis
    using http_request_delivered [OF hs_demo_init _ hs_demo_ok(1,2) _ _ refl, of ?B ?io "\<lambda>n c sz off. Some (n + (1 :: nat), c)" 0]
    by (simp add: hs_demo_ok hs_demo_def Let_def)
qed

text \<open>
  C2 (functional). A whole exchange: after a request in any segmentation, a handler that answers at once
  and any splitting of the response by the socket, the bytes sent are exactly the response with the
  reply as its body, nothing is closed or released, and the channel is ready and registered for
  the next request, so that exchanges follow each other on the connection. The comment on \<open>hs_response_ok\<close> (\<open>http-server.c\<close>, line 627)
  promises the type \<open>text/html;charset=utf-8\<close>; the lines 643 to 645 that would send it are commented out,
  and no Content-Type header is sent.
\<close>

theorem http_exchange:
  assumes "hs_init_channel ch = ch" and "hc_events ch AND EPOLLIN \<noteq> 0"
    and "line_ok line" and "\<forall>h\<in>set hs. header_ok h" and "announced_size hs 0 = Some (int (length B))" and "B \<noteq> []"
    and "H = request_head line hs" and "room_for H B ch" and "rx_clean (hi_rx io)" and "rx_bytes (hi_rx io) = H @ B"
    and "47 \<le> length (hc_buffer ch)" and "int (length (response_bytes (reply B))) < hc_buffer_size ch"
    and "hi_open io" and "cells (hi_mem io) (hc_addr ch - SIZEOF_MM_NODE) \<noteq> None"
    and "tx_rooms (hi_tx io) = Some n" and "length (response_bytes (reply B)) \<le> n"
  shows "\<exists>ch1 io1 ch2 io2. hs_read_events (Some (answer_with reply)) s ch io = Some (s, ch1, io1) \<and>
    hs_write_events ch1 io1 = Some (ch2, io2) \<and> hi_out io2 = hi_out io @ response_bytes (reply B) \<and> rx_bytes (hi_rx io2) = [] \<and>
    hi_open io2 \<and> hi_mem io2 = hi_mem io \<and> hi_pool io2 = hi_pool io \<and> idle ch2 \<and> same_conn ch ch2"
proof -
  have run: "http_run (Ps_line []) H = Some (Ps_body (int (length B)))"
    using run_request_head [OF assms(3,4)] assms(5,7) by simp
  have rec: "receiving H B 0 ch" by (rule idle_receiving [OF assms(1,8,6)])
  obtain ch' r where d: "delivered H B ch'" "same_conn ch ch'" "rx_bytes r = []"
      "hs_read_events (Some (answer_with reply)) s ch io =
       map_option (\<lambda>(s', ch''). (s', rearmed 0 ch'', io\<lparr>hi_rx := r\<rparr>)) (answer_with reply s ch' (int (length B)) (int (length H)))"
    using read_events_request [OF rec run assms(6,9) _ assms(2), where f = "answer_with reply" and s = s] assms(10) by auto
  have body: "take (length B) (drop (length H) (hc_buffer ch')) = B"
    using arg_cong [of _ _ "take (length B)", OF d(1) [unfolded delivered_def, THEN conjunct2]] by simp
  have "47 \<le> length (hc_buffer ch')" "hc_buffer_size ch' \<le> int (length (hc_buffer ch'))" "hc_buffer_size ch' < 2 ^ 31"
      "int (length (response_bytes (reply B))) < hc_buffer_size ch'"
    using d(2) assms(8,11,12) by (auto simp: same_conn_def room_for_def)
  then obtain ch1 where ch1: "hs_response_ok 0 ch' (reply B) (int (length (reply B))) = Some (ch1, 1)" "same_conn ch' ch1"
      "sending (response_bytes (reply B)) ch1" "hc_events ch1 = EPOLLOUT OR EPOLLRDHUP OR EPOLLET OR EPOLLONESHOT"
      "hc_is_read_done ch1 = hc_is_read_done ch'"
    using response_ok_fits by blast
  have rd: "hs_read_events (Some (answer_with reply)) s ch io = Some (s, ch1, io\<lparr>hi_rx := r\<rparr>)"
    using d(1,4) ch1(1,5) body by (simp add: answer_with_def Let_def rearmed_def delivered_def)
  have "hc_addr ch1 = hc_addr ch" "response_bytes (reply B) \<noteq> []"
    using d(2) ch1(2) by (auto simp: same_conn_def response_bytes_def HTTP_SERVER_RESPONSE_OK_def)
  then obtain ch2 t where w: "hs_write_events ch1 (io\<lparr>hi_rx := r\<rparr>) =
        Some (ch2, io\<lparr>hi_rx := r, hi_tx := t, hi_out := hi_out io @ response_bytes (reply B)\<rparr>)" "same_conn ch1 ch2" "idle ch2"
    using write_events_response [OF ch1(3), of "io\<lparr>hi_rx := r\<rparr>" n] ch1(4) assms(13-16) by auto
  have "same_conn ch ch2" using d(2) ch1(2) w(2) same_conn_trans by blast
  with rd w(1,3) d(3) assms(13) show ?thesis
    by (intro exI [of _ ch1] exI [of _ "io\<lparr>hi_rx := r\<rparr>"] exI [of _ ch2]
        exI [of _ "io\<lparr>hi_rx := r, hi_tx := t, hi_out := hi_out io @ response_bytes (reply B)\<rparr>"]) simp
qed

theorem http_exchange_witness:
  "let H = request_head hs_demo_line (hs_demo_headers 3); io = hs_demo_io (hs_demo_rx (H @ [104, 105, 33])) [Tx_room 5, Tx_room 60] in
   \<exists>ch1 io1 ch2 io2. hs_read_events (Some (answer_with rev)) () hs_demo io = Some ((), ch1, io1) \<and>
    hs_write_events ch1 io1 = Some (ch2, io2) \<and> hi_out io2 = response_bytes [33, 105, 104] \<and> idle ch2"
proof -
  let ?H = "request_head hs_demo_line (hs_demo_headers 3)" and ?B = "[104, 105, 33] :: u8 list"
  let ?io = "hs_demo_io (hs_demo_rx (?H @ ?B)) [Tx_room 5, Tx_room 60]"
  have "room_for ?H ?B hs_demo" by (simp add: room_for_def hs_demo_ok hs_demo_def)
  moreover have "rx_clean (hi_rx ?io)" "rx_bytes (hi_rx ?io) = ?H @ ?B"
    using hs_demo_rx_bytes [of "?H @ ?B"] by (simp_all add: hs_demo_ok hs_demo_io_def)
  moreover have "length (response_bytes [33, 105, 104]) = 40"
    by (simp add: response_bytes_def response_line_length response_head_def hs_demo_digits ascii_def)
  moreover have "hc_events hs_demo AND EPOLLIN \<noteq> 0" "47 \<le> length (hc_buffer hs_demo)" "hc_buffer_size hs_demo = 64" "hc_addr hs_demo = 132"
    by (simp_all add: hs_demo_def)
  moreover have "hi_open ?io" "cells (hi_mem ?io) 100 \<noteq> None" "tx_rooms (hi_tx ?io) = Some 65" "hi_out ?io = []"
    by (simp_all add: hs_demo_io_def)
  ultimately show ?thesis
    using http_exchange [OF hs_demo_init _ hs_demo_ok(1,2) _ _ refl, of ?B ?io rev 65 "()"]
    unfolding Let_def by (simp add: hs_demo_ok) blast
qed

text \<open>
  C32 (bounds). \<open>hs_response_ok\<close> on a buffer of at least 47 bytes: when status line, head and body
  together are shorter than \<open>buffer_size\<close>, it returns 1 with the response in the buffer, of which
  nothing lies behind the buffer, and the writable event registered; otherwise it returns -1 and
  registers nothing. In both cases the array of 32 bytes for the head is not overrun.
  The response has the status line, the content-length and the body only. The comment on \<open>hs_response_ok\<close> (\<open>http-server.c\<close>, line 627)
  promises the type \<open>text/html;charset=utf-8\<close>; the lines 643 to 645 that would send it are commented out,
  and no Content-Type header is sent.
\<close>

theorem hs_response_ok_outcome:
  assumes "47 \<le> length (hc_buffer ch)" and "hc_buffer_size ch \<le> int (length (hc_buffer ch))" and "hc_buffer_size ch < 2 ^ 31"
    and "length body < 2 ^ 31 - 47"
  shows "\<exists>ch'. hs_response_ok 0 ch body (int (length body)) =
      Some (ch', if int (length (response_bytes body)) < hc_buffer_size ch then 1 else - 1) \<and>
    length (hc_buffer ch') = length (hc_buffer ch) \<and> length (response_head (int (length body))) < 32 \<and>
    (if int (length (response_bytes body)) < hc_buffer_size ch
     then sending (response_bytes body) ch' \<and> hc_events ch' AND EPOLLOUT \<noteq> 0
     else hc_events ch' = hc_events ch \<and> hc_write_size ch' = hc_write_size ch)"
proof -
  have "length (response_head (int (length body))) < 32" using response_head_length [of "int (length body)"] assms(4) by simp
  moreover have "\<exists>b. hs_response_ok 0 ch body (int (length body)) = Some (ch\<lparr>hc_buffer := b\<rparr>, - 1) \<and> length b = length (hc_buffer ch)"
    if "\<not> int (length (response_bytes body)) < hc_buffer_size ch"
    using response_ok_too_long [OF assms(1,4)] that by auto
  ultimately show ?thesis
    using response_ok_fits [OF assms(1-3), of body] by (auto simp: same_conn_def)
qed

theorem hs_response_ok_outcome_witness:
  "(\<exists>ch'. hs_response_ok 0 hs_demo [79, 75] 2 = Some (ch', 1) \<and> sending (response_bytes [79, 75]) ch') \<and>
   (\<exists>ch'. hs_response_ok 0 hs_demo (replicate 40 65) 40 = Some (ch', - 1) \<and> hc_events ch' = hc_events hs_demo)"
proof -
  have b: "47 \<le> length (hc_buffer hs_demo)" "hc_buffer_size hs_demo \<le> int (length (hc_buffer hs_demo))" "hc_buffer_size hs_demo < 2 ^ 31"
    by (simp_all add: hs_demo_def)
  have "length (response_bytes [79, 75]) = 39" "length (response_bytes (replicate 40 65)) = 78"
    by (simp_all add: response_bytes_def response_line_length response_head_def c_itoa_def c_digits.simps ascii_def)
  then show ?thesis
    using hs_response_ok_outcome [OF b, of "[79, 75]"] hs_response_ok_outcome [OF b, of "replicate 40 65"]
    by (auto simp: hs_demo_def)
qed

text \<open>
  A request that announces no body (\<open>Content-Length: 0\<close>, or no such field) is never
  answered: when all of it has arrived the handler has not been called, whatever the handler and the
  segmentation, and the server waits for more.
\<close>

lemma http_empty_body_ignored:
  assumes "hs_init_channel ch = ch" and "hc_events ch AND EPOLLIN \<noteq> 0"
    and "line_ok line" and "\<forall>h\<in>set hs. header_ok h" and "announced_size hs 0 = Some 0"
    and "H = request_head line hs" and "room_for H [0] ch" and "rx_clean (hi_rx io)" and "rx_bytes (hi_rx io) = H"
  shows "\<exists>ch' io'. hs_read_events hdl s ch io = Some (s, ch', io') \<and> rx_bytes (hi_rx io') = [] \<and>
    hc_read_index ch' = int (length H) \<and> hc_is_read_done ch' = 0"
proof -
  have run: "http_run (Ps_line []) H = Some (Ps_body 0)" using run_request_head [OF assms(3,4)] assms(5,6) by simp
  have "receiving H [0] 0 ch" by (rule idle_receiving [OF assms(1,7)]) simp
  from read_events_head [OF this run _ assms(8) _ _ assms(2), of hdl s] assms(9) show ?thesis
    by (auto simp: receiving_def)
qed

text \<open>
  After an error of \<open>recv\<close> the code means to close the connection with the next writable
  event. It does not: that event sends nothing, initialises the channel and registers it for reading
  again; the socket stays open and the channel's block in use.
\<close>

lemma http_read_error_not_closed:
  assumes "0 \<le> hc_read_index ch"
    and "os_recv (hi_rx io) (c_size_t (hc_buffer_size ch - hc_read_index ch)) = (Io_err, r)"
    and "cells (hi_mem io) (hc_addr ch - SIZEOF_MM_NODE) \<noteq> None" and "hi_open io" and "hi_tx io = Tx_room k # t"
  shows "\<exists>ch1 ch2. hs_io_read hdl 0 0 s ch io = Some (s, ch1, io\<lparr>hi_rx := r\<rparr>) \<and> hc_events ch1 AND EPOLLOUT \<noteq> 0 \<and>
    hs_io_write 0 0 ch1 (io\<lparr>hi_rx := r\<rparr>) = Some (ch2, io\<lparr>hi_rx := r, hi_tx := t\<rparr>) \<and> idle ch2 \<and> same_conn ch ch2"
proof -
  let ?ch1 = "ch\<lparr>hc_write_index := 0, hc_write_size := 0, hc_events := EPOLLOUT OR EPOLLRDHUP OR EPOLLET OR EPOLLONESHOT\<rparr>"
  let ?ch2 = "(hs_init_channel ?ch1)\<lparr>hc_events := EPOLLIN OR EPOLLRDHUP OR EPOLLET OR EPOLLONESHOT\<rparr>"
  have rd: "hs_io_read hdl 0 0 s ch io = Some (s, ?ch1, io\<lparr>hi_rx := r\<rparr>)"
    using assms(1,2) by (simp add: hs_io_read_def hs_epoll_mod_def or.assoc)
  have i: "hc_write_index (hs_init_channel c) = 0" "hc_write_size (hs_init_channel c) = hc_write_size c" "hc_addr (hs_init_channel c) = hc_addr c" for c
    by (simp_all add: hs_init_channel_def)
  have "(hs_init_channel (?ch2\<lparr>hc_write_index := 0\<rparr>))\<lparr>hc_events := EPOLLIN OR EPOLLRDHUP OR EPOLLET OR EPOLLONESHOT\<rparr> = ?ch2"
    by (simp add: hs_init_channel_def)
  then have wr: "hs_io_write 0 0 ?ch1 (io\<lparr>hi_rx := r\<rparr>) = Some (?ch2, io\<lparr>hi_rx := r, hi_tx := t\<rparr>)"
    using assms(3-5) by (simp add: hs_io_write_def write_done_ok i c_size_t_def)
  have "idle ?ch2" "same_conn ch ?ch2" by (simp_all add: idle_def) (simp add: hs_init_channel_def same_conn_def)
  with rd wr show ?thesis by (intro exI [of _ ?ch1] exI [of _ ?ch2]) simp
qed

text \<open>
  Decoding a percent-encoded text of fewer than 2048 characters gives back the text that
  was encoded, in place and terminated by a zero byte, whichever bytes were encoded and in whichever
  case the hexadecimal digits are written.
\<close>

lemma url_decode_roundtrip:
  assumes "pct_encodes {0} s e" and "0 \<notin> set s" and "length s < HTTP_URL_DECODE_BUFSIZE"
  shows "hs_url_decode (e @ 0 # r) = Some (s @ 0 # drop (Suc (length s)) (e @ 0 # r))"
proof -
  have e: "0 \<notin> set e" "length s \<le> length e" using pct_nonzero [OF assms(1)] pct_length [OF assms(1)] by auto
  have "c_str (e @ 0 # r) 0 = Some e" using c_str_zero [of "[]" 0 e r] e(1) by simp
  moreover have "url_decode_loop (e @ 0 # r) (length e) 0 [] = Some s"
    using url_decode_loop_enc [OF assms(1), of "[]" 0 "[]" "0 # r"] assms(3) by simp
  moreover have t: "takeWhile (\<lambda>c. c \<noteq> 0) s = s" using assms(2) by (subst takeWhile_eq_all_conv) auto
  ultimately show ?thesis using assms(3) e(2) by (simp add: hs_url_decode_def mem_copy_def t del: takeWhile_eq_all_conv)
qed

text \<open>All the threads of a pool start.\<close>

definition threads_start :: "tdpl_env \<Rightarrow> s32 \<Rightarrow> bool" where
  "threads_start e n \<longleftrightarrow> env_ok e \<and> 0 \<le> sint n \<and> sint n < 2 ^ 31 - 1 \<and> (\<forall>i < nat (sint n). te_rc e i = 0)"

lemma threads_start_pool:
  assumes "threads_start e n"
  shows "\<exists>p. tdpl_create e n 51200 = Some (Pool p) \<and> tdpl_pending p = [] \<and> calls_room 51201 p"
  using create_returns [of e n 51200] assms by (auto simp: threads_start_def)

text \<open>
  The start of the server: when the allocations, the threads, the socket and the epoll
  descriptors can be had and there are at most 64 event loops, \<open>hs_start\<close> returns a handle with the
  configured values; the I/O pool has one thread for each event loop, one for accepting and
  \<open>io_thread_num\<close> more, and its queue holds exactly the event loops, each with the address of its own
  descriptor, and then the accept thread.
\<close>

lemma hs_start_ok:
  assumes "he_handle e \<noteq> NULL" and "threads_start (he_worker e) (bt_worker_thread_num bt)"
    and "threads_start (he_io e) (bt_io_thread_num bt + bt_event_loop_num bt + 1)"
    and "threads_start (he_close e) 8" and "threads_start (he_accept e) 8"
    and "he_mmpl e \<noteq> NULL" and "cells m NULL = None" and "he_map e \<noteq> NULL" and "he_map e \<noteq> he_mmpl e" and "cells m (he_map e) = None"
    and "0 \<le> hs_bind (he_bind e) (bt_server_port bt)"
    and "nat (sint (bt_event_loop_num bt)) \<le> MAX_EPOLL_EVENT_LOOP_NUM" and "\<forall>i < nat (sint (bt_event_loop_num bt)). he_epoll e i \<noteq> - 1"
  shows "\<exists>m' h. hs_start e m bt = Some (Hs_handle m' h) \<and>
    tdpl_pending (hh_tdpl_io h) = map (loop_call (he_handle e)) [0..<nat (sint (bt_event_loop_num bt))] @
      [\<lparr>cn_arg = he_handle e, cn_call_func = FN_hs_accept_thread\<rparr>] \<and>
    (\<forall>i < nat (sint (bt_event_loop_num bt)). hh_epoll_fd h ! i = he_epoll e i) \<and>
    hh_sockfd h = hs_bind (he_bind e) (bt_server_port bt) \<and> hh_buffer_size h = bt_buffer_size bt \<and>
    hh_content_handler h = bt_content_handler bt \<and> hh_connection_id h = 0 \<and>
    length (hh_new_connection_map h) = nat (sint (hh_new_connection_map_size h))"
proof -
  let ?n = "nat (sint (bt_event_loop_num bt))"
  obtain w io c a where p: "tdpl_create (he_worker e) (bt_worker_thread_num bt) 51200 = Some (Pool w)"
      "tdpl_create (he_io e) (bt_io_thread_num bt + bt_event_loop_num bt + 1) 51200 = Some (Pool io)"
      "tdpl_create (he_close e) 8 51200 = Some (Pool c)" "tdpl_create (he_accept e) 8 51200 = Some (Pool a)"
      "tdpl_pending io = []" "calls_room 51201 io"
    using threads_start_pool assms(2-5) by meson
  obtain m1 P where m1: "mmpl_create m (Some \<lparr>mo_boundary = 2048, mo_max_free_index = 51200\<rparr>) (he_mmpl e) = Some (m1, P)"
    using assms(6) by (simp add: mmpl_create_def)
  then have P: "pool_ok m1 P (\<lambda>_. [])" "mp_boundary P = 2 ^ 11" "cells m1 (he_map e) = None"
    using create_ok [OF m1 assms(7)] assms(9,10) by (auto simp: mmpl_create_def split: if_splits)
  obtain fds where fds: "create_epolls (he_epoll e) [0..<?n] (map (he_raw_epoll e) [0..<MAX_EPOLL_EVENT_LOOP_NUM]) = Some (fds, True)"
      "\<forall>i < ?n. fds ! i = he_epoll e i"
    using create_epolls_ok [of "[0..<?n]" "map (he_raw_epoll e) [0..<MAX_EPOLL_EVENT_LOOP_NUM]" "he_epoll e"] assms(12,13) by auto
  have "calls_room (length [0..<?n] + 1) io" by (rule calls_room_mono [OF p(6)]) (use assms(12) in simp)
  then obtain io1 where io1: "start_loops (he_handle e) [0..<?n] io = Some (io1, True)" "calls_room 1 io1"
      "tdpl_pending io1 = map (loop_call (he_handle e)) [0..<?n]"
    using start_loops_ok [of "[0..<?n]" 1 io "he_handle e"] p(5) by auto
  obtain io2 where io2: "tdpl_call_func io1 FN_hs_accept_thread (he_handle e) = Some (io2, 1)"
      "tdpl_pending io2 = tdpl_pending io1 @ [\<lparr>cn_arg = he_handle e, cn_call_func = FN_hs_accept_thread\<rparr>]"
    using call_func_room [of 0 io1 FN_hs_accept_thread "he_handle e"] io1(2) by auto
  obtain m2 P2 q where g: "mmpl_getmem m1 P (bt_max_connection bt * 20 * of_nat SIZEOF_CONNECTION_ENTRY) (he_map e) = Some (m2, P2, q + SIZEOF_MM_NODE)"
    using getmem_malloc [OF P(1) refl _ assms(8) P(3), of "bt_max_connection bt * 20 * of_nat SIZEOF_CONNECTION_ENTRY"] by auto
  show ?thesis
    using p(1-4) m1 fds io1(1,3) io2 g assms(1,11) by (simp add: hs_start_def with_tdpl_def hs_start_loops_def)
qed

definition hs_demo_env :: hs_env where
  "hs_demo_env = \<lparr>he_handle = 8000, he_worker = td_env 0, he_io = td_env 0, he_close = td_env 0, he_accept = td_env 0, he_mmpl = 1000,
     he_bind = \<lparr>be_socket = 6, be_reuseaddr = 0, be_nodelay = 0, be_bind = (\<lambda>p. if p = 0x204E then 0 else - 1)\<rparr>,
     he_epoll = (\<lambda>i. 10 + int i), he_raw_epoll = (\<lambda>_. 0), he_map = 2000, he_raw_map = (\<lambda>_. \<lparr>ce_p_handle = NULL, ce_socket_fd = 0\<rparr>)\<rparr>"

definition hs_demo_bt :: hs_bootstrap where
  "hs_demo_bt = \<lparr>bt_server_port = 20000, bt_io_thread_num = 3, bt_event_loop_num = 1, bt_worker_thread_num = 1, bt_max_connection = 512,
     bt_buffer_size = 2048, bt_content_handler = 77\<rparr>"

lemma td_env_starts: "0 \<le> sint n \<Longrightarrow> sint n < 2 ^ 31 - 1 \<Longrightarrow> threads_start (td_env 0) n"
  by (simp add: threads_start_def env_ok_def td_env_def)

text \<open>
  A new connection: when the thread's memory pool is valid and \<open>epoll_ctl\<close> succeeds, the
  channel is in the initial state with at least \<open>buffer_size\<close> bytes of buffer in an allocated block,
  belongs to the accepted socket and to the event loop whose turn it is, and is registered for
  reading; the entry of the table of new connections is free again and the pool stays valid.
\<close>

lemma new_connection_ready:
  assumes "k < length (hh_new_connection_map (cs_handle s))" and "pool_ok (cs_mem s) (cs_pool s) L" and "mp_boundary (cs_pool s) = 1024"
    and "a \<noteq> NULL" and "cells (cs_mem s) a = None" and "0 \<le> sint (hh_buffer_size (cs_handle s))" and "sint (hh_buffer_size (cs_handle s)) < 2 ^ 31 - 2048"
    and "0 < sint (hh_event_loop_num (cs_handle s))" and "nat (sint (hh_event_loop_num (cs_handle s))) \<le> length (hh_epoll_fd (cs_handle s))" and "rc \<noteq> - 1"
  shows "\<exists>s' ch L'. hs_new_connection k a raw rawb rc s = Some (s', Some ch) \<and> hs_init_channel ch = ch \<and> hc_events ch AND EPOLLIN \<noteq> 0 \<and>
    hc_buffer_size ch = sint (hh_buffer_size (cs_handle s)) \<and> hc_buffer_size ch \<le> int (length (hc_buffer ch)) \<and>
    hc_socket ch = ce_socket_fd (hh_new_connection_map (cs_handle s) ! k) \<and>
    hc_epoll_fd ch = hh_epoll_fd (cs_handle s) ! (unat (cs_epoll_i s) mod nat (sint (hh_event_loop_num (cs_handle s)))) \<and>
    cells (cs_mem s') (hc_addr ch - SIZEOF_MM_NODE) \<noteq> None \<and> pool_ok (cs_mem s') (cs_pool s') L' \<and>
    ce_p_handle (hh_new_connection_map (cs_handle s') ! k) = NULL"
proof -
  let ?h = "cs_handle s"
  define sz :: u32 where "sz = of_nat SIZEOF_HS_CHANNEL + hh_buffer_size ?h"
  define b where "b = nat (sint (hh_buffer_size ?h))"
  have "hh_buffer_size ?h = of_nat b" unfolding b_def by (rule word_of_nat_sint [OF assms(6)])
  then have "sz = of_nat (SIZEOF_HS_CHANNEL + b)" by (simp add: sz_def)
  moreover have "SIZEOF_HS_CHANNEL + b < 2 ^ 32" "b < 2 ^ 31 - 2048" using assms(6,7) unfolding b_def by simp_all
  ultimately have sz: "unat sz = SIZEOF_HS_CHANNEL + b" "unat sz + (2 ^ 10 - 1) < 2 ^ 32" by (simp_all add: unat_of_nat_u32 del: of_nat_add)
  obtain m' P' L' p where g: "mmpl_getmem (cs_mem s) (cs_pool s) sz a = Some (m', P', p + SIZEOF_MM_NODE)" "pool_ok m' P' L'"
      "cells m' p \<noteq> None" "SIZEOF_MM_NODE + unat sz \<le> msize m' p"
    using client_get [OF assms(2) _ _ sz(2) assms(4,5)] assms(3) by auto
  let ?j = "unat (cs_epoll_i s) mod nat (sint (hh_event_loop_num ?h))"
  have j: "ring_slot (cs_epoll_i s) (hh_event_loop_num ?h) = Some ?j" "?j < length (hh_epoll_fd ?h)"
    using assms(8) less_le_trans [OF mod_less_divisor assms(9)] by (simp_all add: ring_slot_pos)
  define ch where "ch = (hs_init_channel (raw\<lparr>hc_addr := p + SIZEOF_MM_NODE, hc_epoll_fd := hh_epoll_fd ?h ! ?j,
      hc_socket := ce_socket_fd (hh_new_connection_map ?h ! k)\<rparr>))\<lparr>hc_buffer_size := sint (hh_buffer_size ?h),
      hc_buffer := map rawb [0..<msize m' p - SIZEOF_MM_NODE - SIZEOF_HS_CHANNEL], hc_events := EPOLLIN OR EPOLLRDHUP OR EPOLLET\<rparr>"
  have "hs_new_connection k a raw rawb rc s = Some (s\<lparr>cs_mem := m', cs_pool := P', cs_epoll_i := cs_epoll_i s + 1, cs_handle := free_entry k ?h\<rparr>, Some ch)"
    using assms(1,10) g(1) [unfolded sz_def] j by (simp add: hs_new_connection_def Let_def ch_def or.assoc)
  moreover have "hc_buffer_size ch \<le> int (length (hc_buffer ch))" using g(4) sz(1) assms(6) by (simp add: ch_def b_def)
  moreover have "hs_init_channel ch = ch" by (simp add: ch_def hs_init_channel_def)
  ultimately show ?thesis using g(2,3) assms(1) by (auto simp: ch_def hs_init_channel_def free_entry_def)
qed

definition hs_demo_handle :: hs_handle where
  "hs_demo_handle = \<lparr>hh_addr = 8000, hh_tdpl_io = td_pool [td_raw, td_node, td_node] 0 1 0, hh_tdpl_worker = td_pool [] 0 1 0,
     hh_tdpl_accept = td_pool [] 0 1 0, hh_tdpl_close = td_pool [] 0 1 0, hh_mmpl = demo_pool 200 0 0 NULL 0, hh_max_connection = 1,
     hh_buffer_size = 2048, hh_sockfd = 6, hh_epoll_fd = [10, 11], hh_event_loop_num = 2, hh_content_handler = 77,
     hh_new_connection_map = [\<lparr>ce_p_handle = 8000, ce_socket_fd = 21\<rparr>], hh_map_addr = 9000, hh_new_connection_map_size = 1, hh_connection_id = 1\<rparr>"

text \<open>
  One return of \<open>epoll_wait\<close>: the events are turned, in their order, into calls on the I/O
  pool, a read before a write for a channel that is ready for both, and nothing for an event with the
  error or the hang-up flag; exactly the channels with a hang-up and no error are taken out of epoll.
\<close>

lemma event_loop_dispatch:
  assumes "calls_room (length (concat (map event_calls es))) p"
  shows "\<exists>p'. hs_handle_events es p = Some (p', map snd (filter event_gone es)) \<and> tdpl_ok p' \<and>
    tdpl_pending p' = tdpl_pending p @ concat (map event_calls es)"
  using handle_events_calls [of es 0 p] assms by (auto simp: calls_room_def)

end
