(* ===== verification/Consumer_Props.thy ===== *)
theory Consumer_Props
  imports Consumer Sd_Props Http_Props
begin

text \<open>
  Properties of the agent: reading the service name from a form, forwarding a request, answering it, and
  the channels that a connection gives to the agent client manager.
\<close>

section \<open>Reading the service name\<close>

lemma hex2dec_eq: "hex2dec = c_hex2dec"
  by (simp add: fun_eq_iff hex2dec_def c_hex2dec_def)

text \<open>The characters before the equals sign are passed.\<close>

lemma service_name_key:
  assumes "length p = i" and "\<forall>c\<in>set key. c \<notin> {0, 0x26, 0x3D}"
  shows "service_name_loop (p @ key @ 0x3D # r) i False dst k = service_name_loop (p @ key @ 0x3D # r) (i + length key + 1) True dst k"
  using assms
proof (induction key arbitrary: p i)
  case Nil
  then show ?case by (subst service_name_loop.simps) (simp add: nth_append)
next
  case (Cons c key)
  then show ?case using Cons.IH [of "p @ [c]" "i + 1"] by (subst service_name_loop.simps) (simp add: nth_append)
qed

text \<open>An encoded text is decoded into the array.\<close>

lemma upd_take_drop:
  assumes "k < length dst"
  shows "take (Suc k) (dst[k := c]) = take k dst @ [c]" "drop (Suc k + n) (dst[k := c]) = drop (Suc k + n) dst"
  using assms by (simp_all add: take_Suc_conv_app_nth)

lemma service_name_enc:
  assumes "pct_encodes {0, 0x26, 0x3D} s e" and "length p = i" and "k + length s \<le> length dst"
  shows "service_name_loop (p @ e @ r) i True dst k =
    service_name_loop (p @ e @ r) (i + length e) True (take k dst @ s @ drop (k + length s) dst) (k + length s)"
  using assms
proof (induction arbitrary: p i dst k rule: pct_encodes.induct)
  case (pct_raw c s e)
  let ?d = "dst[k := c]"
  have "service_name_loop (p @ (c # e) @ r) i True dst k = service_name_loop ((p @ [c]) @ e @ r) (i + 1) True ?d (k + 1)"
    using pct_raw.hyps(1,2) pct_raw.prems by (subst service_name_loop.simps) (simp add: nth_append)
  then show ?case using pct_raw.IH [of "p @ [c]" "i + 1" "k + 1" ?d] pct_raw.prems upd_take_drop [where k = k and dst = dst and c = c] by simp
next
  case (pct_hex h1 h0 c s e)
  let ?d = "dst[k := c]"
  have "of_int (hex2dec h1 * 16 + hex2dec h0) = c" unfolding hex2dec_eq pct_hex.hyps(3) [symmetric] by simp
  then have "service_name_loop (p @ (37 # h1 # h0 # e) @ r) i True dst k = service_name_loop ((p @ [37, h1, h0]) @ e @ r) (i + 3) True ?d (k + 1)"
    using pct_hex.prems by (subst service_name_loop.simps) (simp add: nth_append)
  moreover have e: "i + length (37 # h1 # h0 # e) = i + 3 + length e" by simp
  ultimately show ?case unfolding e using pct_hex.IH [of "p @ [37, h1, h0]" "i + 3" "k + 1" ?d] pct_hex.prems upd_take_drop [where k = k and dst = dst and c = c] by simp
qed simp

lemma service_name_decoded:
  assumes "\<forall>c\<in>set key. c \<notin> {0, 0x26, 0x3D}" and "pct_encodes {0, 0x26, 0x3D} name enc" and "length name < length dst"
    and "0 \<notin> set name" and "t = 0 \<or> t = 0x26"
  shows "\<exists>d. get_service_name (key @ 0x3D # enc @ t # r) dst = Some d \<and> c_str d 0 = Some name"
proof -
  let ?src = "key @ 0x3D # enc @ t # r" and ?d = "name @ drop (length name) dst"
  have "service_name_loop ?src 0 False dst 0 = service_name_loop ?src (length key + 1) True dst 0"
    using service_name_key [of "[]" 0 key "enc @ t # r" dst 0] assms(1) by simp
  also have "\<dots> = service_name_loop ?src (length key + 1 + length enc) True ?d (length name)"
    using service_name_enc [OF assms(2), of "key @ [0x3D]" "length key + 1" 0 dst "t # r"] assms(3) by simp
  also have "\<dots> = Some (?d, length name)"
    using assms(5) by (subst service_name_loop.simps) (auto simp: nth_append nth_opt_def)
  finally have g: "get_service_name ?src dst = Some (?d[length name := 0])" using assms(3) by (simp add: get_service_name_def)
  have "?d[length name := 0] = [] @ name @ 0 # drop (Suc (length name)) dst"
    using assms(3) by (simp add: list_update_append) (metis Cons_nth_drop_Suc list_update_code(2))
  then have "c_str (?d[length name := 0]) 0 = Some name" using c_str_zero [of "[]" 0 name] assms(4) by simp
  with g show ?thesis by blast
qed

section \<open>Forwarding a request\<close>

text \<open>What the agent needs to forward a request to any of the endpoints \<open>ps\<close>.\<close>

definition can_forward :: "sd_mem \<Rightarrow> acm_handle \<Rightarrow> addr list \<Rightarrow> bool" where
  "can_forward m ah ps \<longleftrightarrow> sm_acm m = Some ah \<and> table_ok ah \<and> unat (ah_request_id ah) + 1 < 2 ^ 31 \<and>
     (\<forall>w\<in>waiting ah. w < unat (ah_request_id ah + 1) \<and> unat (ah_request_id ah + 1) < w + map_size ah) \<and>
     (\<forall>p\<in>set ps. \<forall>e ac. sm_eps m p = Some e \<longrightarrow> sm_chans m (ep_p_agent_channel e) = Some ac \<longrightarrow>
        queue_wf (ah_max_write_queue_len ah) ac \<and> length (queue_of (ah_max_write_queue_len ah) ac) < nat (sint (ah_max_write_queue_len ah)) \<and>
        unat (ac_write_queue_tail ac) + 1 < 2 ^ 64 \<and> ep_p_agent_channel e \<noteq> NULL)"

text \<open>The request of channel \<open>ac\<close> became \<open>ac'\<close>: the task is queued, and the response will be handed to the listener.\<close>

definition forwarded :: "acm_handle \<Rightarrow> acm_channel \<Rightarrow> u8 list \<Rightarrow> addr \<Rightarrow> acm_handle \<Rightarrow> acm_channel \<Rightarrow> bool" where
  "forwarded ah ac B arg ah' ac' \<longleftrightarrow> table_ok ah' \<and> ac_request_num ac' = ac_request_num ac + 1 \<and>
     queue_of (ah_max_write_queue_len ah) ac' = queue_of (ah_max_write_queue_len ah) ac @ [request_task (ah_request_id ah + 1) B (of_nat (length B))] \<and>
     (\<forall>n data. \<exists>ah''. table_dispatch ah' (\<lparr>mh_req_id = ah_request_id ah + 1, mh_data_size = n\<rparr>, data) = Some (ah'', (FN_acm_listening, arg, data)))"

lemma content_handler_forwards:
  assumes "take (Suc (length B)) (drop i (hc_buffer ch)) = B @ [0]"
    and "B = key @ 0x3D # enc @ rest" and "rest = [] \<or> hd rest = 0x26" and "\<forall>c\<in>set key. c \<notin> {0, 0x26, 0x3D}"
    and "pct_encodes {0, 0x26, 0x3D} name enc" and "length name < length (ge_raw e)" and "0 \<notin> set name" and "ge_acm_rc e = 0"
    and "sd_get_service_node (ag_sd_handle s) name = Some sn" and "sn \<noteq> NULL" and "node_ok (ag_mem s) sn name' ps"
    and "\<forall>p\<in>set ps. balanced (ag_mem s) p" and "\<exists>q\<in>set ps. open_requests (ag_mem s) q < 200" and "can_forward (ag_mem s) ah ps"
  shows "\<exists>p ep ac ah' ac'. p \<in> set ps \<and> open_requests (ag_mem s) p < 200 \<and> sm_eps (ag_mem s) p = Some ep \<and> sm_chans (ag_mem s) (ep_p_agent_channel ep) = Some ac \<and>
    (\<forall>q\<in>set ps. open_requests (ag_mem s) q < 200 \<longrightarrow> open_requests (ag_mem s) p * level (ag_mem s) q \<le> open_requests (ag_mem s) q * level (ag_mem s) p) \<and>
    forwarded ah ac B (hc_addr ch) ah' ac' \<and>
    content_handler e s ch (int (length B)) (int i) =
      Some (\<lparr>ag_mem = (ag_mem s)\<lparr>sm_acm := Some ah', sm_chans := (sm_chans (ag_mem s))(ep_p_agent_channel ep \<mapsto> ac')\<rparr>, ag_sd_handle = ag_sd_handle s\<rparr>, ch)"
proof -
  let ?m = "ag_mem s" and ?q = "ah_max_write_queue_len ah" and ?rid = "ah_request_id ah + 1"
  obtain r where r: "drop i (hc_buffer ch) = B @ 0 # r" using assms(1) by (metis append_take_drop_id append.assoc append_Cons append_Nil)
  obtain t r' where t: "drop i (hc_buffer ch) = key @ 0x3D # enc @ t # r'" "t = 0 \<or> t = 0x26"
    using r assms(2,3) by (cases rest) auto
  obtain d where d: "get_service_name (drop i (hc_buffer ch)) (ge_raw e) = Some d" "c_str d 0 = Some name"
    using service_name_decoded [OF assms(4-7) t(2)] t(1) by metis
  obtain p ep ac where p: "p \<in> set ps" "open_requests ?m p < 200" "sm_eps ?m p = Some ep" "sm_chans ?m (ep_p_agent_channel ep) = Some ac"
      "\<forall>q\<in>set ps. open_requests ?m q < 200 \<longrightarrow> open_requests ?m p * level ?m q \<le> open_requests ?m q * level ?m p"
      "sd_get_optimal_endpoint (ge_find e) ?m (ag_sd_handle s) name =
        Some (?m\<lparr>sm_chans := (sm_chans ?m)(ep_p_agent_channel ep \<mapsto> ac\<lparr>ac_request_num := ac_request_num ac + 1\<rparr>)\<rparr>, ag_sd_handle s, ep_p_agent_channel ep)"
    using optimal_least [OF assms(9-12), of "ge_find e"] assms(13) by auto
  let ?ac = "ac\<lparr>ac_request_num := ac_request_num ac + 1\<rparr>"
  have fw: "sm_acm ?m = Some ah" "table_ok ah" "unat (ah_request_id ah) + 1 < 2 ^ 31"
      "\<forall>w\<in>waiting ah. w < unat ?rid \<and> unat ?rid < w + map_size ah"
      "queue_wf ?q ?ac" "length (queue_of ?q ?ac) < nat (sint ?q)" "unat (ac_write_queue_tail ?ac) + 1 < 2 ^ 64" "ep_p_agent_channel ep \<noteq> NULL"
    using assms(14) p(1,3,4) by (auto simp: can_forward_def)
  have nz: "FN_acm_listening \<noteq> NULL" by simp
  note routed = request_routed [OF fw(2) refl fw(3,4) nz fw(5-7), of B "of_nat (length B)" "hc_addr ch"]
  obtain ah' ac' where ac': "acm_request ah (Some ?ac) B (of_nat (length B)) FN_acm_listening (hc_addr ch) 0 = Some (ah', Some ac', 1)"
    using routed by blast
  have "forwarded ah ac B (hc_addr ch) ah' ac'"
    unfolding forwarded_def using routed ac' request_keeps_num [OF ac'] by auto
  moreover have "content_handler e s ch (int (length B)) (int i) =
      Some (\<lparr>ag_mem = ?m\<lparr>sm_acm := Some ah', sm_chans := (sm_chans ?m)(ep_p_agent_channel ep \<mapsto> ac')\<rparr>, ag_sd_handle = ag_sd_handle s\<rparr>, ch)"
    using d p(6) fw(1,8) ac' assms(8) r by (simp add: content_handler_def Let_def)
  ultimately show ?thesis using p(1-5) by blast
qed

section \<open>New channels\<close>

lemma connect_channel:
  assumes "acm_connect ce m (Some h) ip port = Some (m', h', Some (p, ch))"
  shows "length (ac_write_queue ch) = nat (sint (ah_max_write_queue_len h)) \<and> ac_write_queue_head ch = 0 \<and> ac_write_queue_tail ch = 1 \<and>
    ac_consume_locked ch \<and> ac_is_head ch = 1 \<and> ac_head_read_index ch = 0 \<and> ac_request_num ch = 0 \<and> \<not> ac_reading_locked ch \<and> ac_read_armed ch \<and>
    p \<noteq> NULL \<and> map_option ah_max_write_queue_len h' = Some (ah_max_write_queue_len h)"
  using assms by (auto simp: acm_connect_def split: bind_splits if_splits)

section \<open>Properties\<close>

text \<open>
  C1 (functional). From the socket to the queue of a provider: a request whose body is a form that begins with
  the percent-encoded service name, in any segmentation, is forwarded. The channel that gets it belongs to
  an endpoint of that service whose quotient of open requests and load level is least; the frame queued
  there has the whole body and a new request number, the response with this number will be handed to the
  listener with this HTTP connection, and nothing is answered yet.
\<close>

theorem agent_forwards:
  assumes "hs_init_channel ch = ch" and "hc_events ch AND EPOLLIN \<noteq> 0"
    and "line_ok line" and "\<forall>h\<in>set hs. header_ok h" and "announced_size hs 0 = Some (int (length B))"
    and "H = request_head line hs" and "room_for H B ch" and "rx_clean (hi_rx io)" and "rx_bytes (hi_rx io) = H @ B"
    and "B = key @ 0x3D # enc @ rest" and "rest = [] \<or> hd rest = 0x26" and "\<forall>c\<in>set key. c \<notin> {0, 0x26, 0x3D}"
    and "pct_encodes {0, 0x26, 0x3D} name enc" and "length name < length (ge_raw e)" and "0 \<notin> set name" and "ge_acm_rc e = 0"
    and "sd_get_service_node (ag_sd_handle s) name = Some sn" and "sn \<noteq> NULL" and "node_ok (ag_mem s) sn name' ps"
    and "\<forall>p\<in>set ps. balanced (ag_mem s) p" and "\<exists>q\<in>set ps. open_requests (ag_mem s) q < 200" and "can_forward (ag_mem s) ah ps"
  shows "\<exists>ch' r p ep ac ah' ac'. p \<in> set ps \<and> sm_eps (ag_mem s) p = Some ep \<and> sm_chans (ag_mem s) (ep_p_agent_channel ep) = Some ac \<and>
    (\<forall>q\<in>set ps. open_requests (ag_mem s) q < 200 \<longrightarrow> open_requests (ag_mem s) p * level (ag_mem s) q \<le> open_requests (ag_mem s) q * level (ag_mem s) p) \<and>
    forwarded ah ac B (hc_addr ch) ah' ac' \<and> same_conn ch ch' \<and> rx_bytes r = [] \<and>
    hs_read_events (Some (content_handler e)) s ch io =
      Some (\<lparr>ag_mem = (ag_mem s)\<lparr>sm_acm := Some ah', sm_chans := (sm_chans (ag_mem s))(ep_p_agent_channel ep \<mapsto> ac')\<rparr>, ag_sd_handle = ag_sd_handle s\<rparr>,
        ch', io\<lparr>hi_rx := r\<rparr>)"
proof -
  have ne: "B \<noteq> []" using assms(10) by simp
  have run: "http_run (Ps_line []) H = Some (Ps_body (int (length B)))"
    using run_request_head [OF assms(3,4)] assms(5,6) by simp
  have rec: "receiving H B 0 ch" by (rule idle_receiving [OF assms(1,7) ne])
  obtain ch' r where d: "delivered H B ch'" "same_conn ch ch'" "rx_bytes r = []"
      "hs_read_events (Some (content_handler e)) s ch io =
       map_option (\<lambda>(s', ch''). (s', rearmed 0 ch'', io\<lparr>hi_rx := r\<rparr>)) (content_handler e s ch' (int (length B)) (int (length H)))"
    using read_events_request [OF rec run ne assms(8) _ assms(2), where f = "content_handler e" and s = s] assms(9) by auto
  have "take (Suc (length B)) (drop (length H) (hc_buffer ch')) = B @ [0]" "hc_is_read_done ch' = 1" using d(1) by (simp_all add: delivered_def)
  moreover have "hc_addr ch' = hc_addr ch" using d(2) by (simp add: same_conn_def)
  ultimately show ?thesis
    using content_handler_forwards [OF _ assms(10-22)] d(2-4) by (fastforce simp: rearmed_def)
qed

text \<open>A form of five bytes in the three segments of the concrete connection, and an agent with the concrete service.\<close>

definition ag_demo :: agent where
  "ag_demo = \<lparr>ag_mem = sd_demo_mem 7 2, ag_sd_handle = sd_demo_handle 8\<rparr>"

definition ag_demo_env :: agent_env where
  "ag_demo_env = \<lparr>ge_find = sd_demo_env [], ge_raw = replicate 128 7, ge_hs_rc = 0, ge_acm_rc = 0\<rparr>"

lemma ag_demo_forward: "can_forward (sd_demo_mem a b) ac_demo_handle [20, 30]"
proof -
  have "table_ok ac_demo_handle" by (auto simp: table_ok_def ac_demo_handle_def nth_Cons' split: if_splits)
  moreover have "waiting ac_demo_handle = {6}"
    by (auto simp: waiting_def ac_demo_handle_def intro!: exI [of _ "\<lparr>me_req_id = 6, me_listening = 80, me_arg = 90\<rparr>"])
  moreover have h: "ah_max_write_queue_len ac_demo_handle = 4" "ah_request_id ac_demo_handle = 6" "map_size ac_demo_handle = 4"
    by (simp_all add: ac_demo_handle_def)
  ultimately show ?thesis unfolding can_forward_def h
    by (auto simp: sd_demo_mem_def sd_cell_def ac_demo_def ring_wf_def ring_contents_def)
qed

theorem agent_forwards_witness:
  "\<exists>s' ch' io' p ac ac' ah'. p \<in> {40, 50 :: addr} \<and> sm_chans (sd_demo_mem 7 2) p = Some ac \<and> sm_chans (ag_mem s') p = Some ac' \<and>
    forwarded ac_demo_handle ac (ascii ''i=svc'') 132 ah' ac' \<and>
    hs_read_events (Some (content_handler ag_demo_env)) ag_demo hs_demo
      (hs_demo_io (hs_demo_rx (request_head hs_demo_line (hs_demo_headers 5) @ ascii ''i=svc'')) []) = Some (s', ch', io')"
proof -
  let ?H = "request_head hs_demo_line (hs_demo_headers 5)" and ?B = "ascii ''i=svc''" and ?m = "sd_demo_mem 7 2"
  let ?io = "hs_demo_io (hs_demo_rx (?H @ ?B)) []"
  have hd5: "\<forall>h\<in>set (hs_demo_headers 5). header_ok h" "announced_size (hs_demo_headers 5) 0 = Some 5" "length ?H = 28"
    by (simp_all add: hs_demo_defs header_ok_def c_itoa_def c_digits.simps ascii_def c_tolower_def c_atoi_def c_isspace_def
      c_number_def c_isdigit_def request_head_def header_line_def)
  have B: "?B = ascii ''i'' @ 0x3D # ascii ''svc'' @ []" "length ?B = 5" by (simp_all add: ascii_def)
  have room: "room_for ?H ?B hs_demo" by (simp add: room_for_def hd5 B(2) hs_demo_def)
  have rx: "rx_clean (hi_rx ?io)" "rx_bytes (hi_rx ?io) = ?H @ ?B"
    using hs_demo_rx_bytes [of "?H @ ?B"] by (simp_all add: hd5 hs_demo_io_def B(2))
  have ev: "hc_events hs_demo AND EPOLLIN \<noteq> 0" by (simp add: hs_demo_def)
  have enc: "pct_encodes {0, 0x26, 0x3D} (ascii ''svc'') (ascii ''svc'')" unfolding ascii_def by (simp, intro pct_encodes.intros) simp_all
  have key: "\<forall>c\<in>set (ascii ''i''). c \<notin> {0, 0x26, 0x3D}" "[] = [] \<or> hd [] = 0x26" "0 \<notin> set (ascii ''svc'')" by (simp_all add: ascii_def)
  have g: "length (ascii ''svc'') < length (ge_raw ag_demo_env)" "ge_acm_rc ag_demo_env = 0" by (simp_all add: ag_demo_env_def ascii_def)
  have ag: "ag_mem ag_demo = ?m" "ag_sd_handle ag_demo = sd_demo_handle 8" by (simp_all add: ag_demo_def)
  have bal: "\<forall>p\<in>set [20, 30]. balanced ?m p" "\<exists>q\<in>set [20, 30]. open_requests ?m q < 200" by (simp_all add: balanced_def sd_demo_levels)
  have n8: "(8 :: addr) \<noteq> NULL" by simp
  have sz: "announced_size (hs_demo_headers 5) 0 = Some (int (length ?B))" by (simp add: hd5 B(2))
  have eps: "sm_eps ?m p = Some ep \<Longrightarrow> p \<in> set [20, 30] \<Longrightarrow> ep_p_agent_channel ep \<in> {40, 50}" for p ep
    by (auto simp: sd_demo_mem_def sd_cell_def)
  have sv: "sd_get_service_node (ag_sd_handle ag_demo) (ascii ''svc'') = Some 8" "node_ok (ag_mem ag_demo) 8 (ascii ''svc'') [20, 30]"
      "\<forall>p\<in>set [20, 30]. balanced (ag_mem ag_demo) p" "\<exists>q\<in>set [20, 30]. open_requests (ag_mem ag_demo) q < 200"
      "can_forward (ag_mem ag_demo) ac_demo_handle [20, 30]"
    unfolding ag by (rule sd_demo_get sd_demo_node_ok bal ag_demo_forward)+
  obtain ch' r p ep ac ah' ac' where w: "p \<in> set [20, 30]" "sm_eps ?m p = Some ep" "sm_chans ?m (ep_p_agent_channel ep) = Some ac"
      "forwarded ac_demo_handle ac ?B (hc_addr hs_demo) ah' ac'"
      "hs_read_events (Some (content_handler ag_demo_env)) ag_demo hs_demo ?io =
        Some (\<lparr>ag_mem = ?m\<lparr>sm_acm := Some ah', sm_chans := (sm_chans ?m)(ep_p_agent_channel ep \<mapsto> ac')\<rparr>, ag_sd_handle = sd_demo_handle 8\<rparr>,
          ch', ?io\<lparr>hi_rx := r\<rparr>)"
    using agent_forwards [OF hs_demo_init ev hs_demo_ok(1) hd5(1) sz refl room rx B(1) key(2,1) enc g(1) key(3) g(2) sv(1) n8 sv(2-5)]
    unfolding ag by blast
  have a: "hc_addr hs_demo = 132" by (simp add: hs_demo_def)
  show ?thesis
  proof (intro exI conjI)
    show "hs_read_events (Some (content_handler ag_demo_env)) ag_demo hs_demo ?io =
        Some (\<lparr>ag_mem = ?m\<lparr>sm_acm := Some ah', sm_chans := (sm_chans ?m)(ep_p_agent_channel ep \<mapsto> ac')\<rparr>, ag_sd_handle = sd_demo_handle 8\<rparr>,
          ch', ?io\<lparr>hi_rx := r\<rparr>)" by (rule w(5))
    show "ep_p_agent_channel ep \<in> {40, 50}" by (rule eps [OF w(2,1)])
    show "sm_chans ?m (ep_p_agent_channel ep) = Some ac" by (rule w(3))
    show "forwarded ac_demo_handle ac ?B 132 ah' ac'" using w(4) a by simp
  qed simp
qed

text \<open>
  C7 (functional). The answer of a provider, a message of two bytes, a text of fewer than 64 bytes and a last byte,
  comes back as the HTTP response with this text as its body, ready to be sent on the connection that
  made the request. The comment on \<open>hs_response_ok\<close> (\<open>http-server.c\<close>, line 627)
  promises the type \<open>text/html;charset=utf-8\<close>; the lines 643 to 645 that would send it are commented out,
  and no Content-Type header is sent.
\<close>

theorem listener_answers:
  assumes "data = a # b # body @ z # y # rest" and "0 \<notin> set body" and "length body < 64"
    and "47 \<le> length (hc_buffer ch)" and "hc_buffer_size ch \<le> int (length (hc_buffer ch))" and "hc_buffer_size ch < 2 ^ 31"
    and "int (length (response_bytes body)) < hc_buffer_size ch"
  shows "\<exists>ch'. acm_listening 0 ch data (int (length body) + 3) = Some ch' \<and> sending (response_bytes body) ch' \<and> same_conn ch ch' \<and>
    hc_events ch' AND EPOLLOUT \<noteq> 0"
proof -
  obtain ch' where ch': "hs_response_ok 0 ch body (int (length body)) = Some (ch', 1)" "sending (response_bytes body) ch'" "same_conn ch ch'"
      "hc_events ch' = EPOLLOUT OR EPOLLRDHUP OR EPOLLET OR EPOLLONESHOT"
    using response_ok_fits [OF assms(4-7)] by blast
  have i: "nat (int (length body) + 3) = length body + 3" by simp
  have d: "data[length body + 3 := 0, length body + 2 := 0] = [a, b] @ body @ 0 # 0 # rest"
    unfolding assms(1) by (simp add: list_update_append numeral_eq_Suc)
  have "c_str (data[length body + 3 := 0, length body + 2 := 0]) 2 = Some body" unfolding d by (rule c_str_zero) (use assms(2) in simp_all)
  moreover have "length body + 3 < length data" by (simp add: assms(1))
  ultimately have "acm_listening 0 ch data (int (length body) + 3) = Some ch'"
    using ch'(1) assms(3) by (simp add: acm_listening_def i)
  with ch' show ?thesis by simp
qed

theorem listener_answers_witness:
  "\<exists>ch'. acm_listening 0 hs_demo [49, 10, 52, 50, 10, 9, 9] 5 = Some ch' \<and> sending (response_bytes [52, 50]) ch'"
proof -
  have "length (response_bytes [52, 50]) = 39"
    by (simp add: response_bytes_def response_line_length response_head_def c_itoa_def c_digits.simps ascii_def)
  then show ?thesis
    using listener_answers [of "[49, 10, 52, 50, 10, 9, 9]" 49 10 "[52, 50]" 10 9 "[9]" hs_demo] by (auto simp: hs_demo_def)
qed

text \<open>
  A connection to a provider that is established gives a channel in the state from which the
  runs of its write side start, the lock of its empty queue taken, and whose reader expects the head of a
  frame; no request is counted on it.
\<close>

lemma connect_gives_fresh_channel:
  assumes "acm_connect ce m (Some h) ip port = Some (m', h', Some (p, ch))" and "0 < sint (ah_max_write_queue_len h)"
  shows "acm_wreach (ah_max_write_queue_len h) (acm_wsys_init ch) \<and> ac_is_head ch = 1 \<and> ac_head_read_index ch = 0 \<and> ac_request_num ch = 0 \<and>
    \<not> ac_reading_locked ch \<and> ac_read_armed ch \<and> p \<noteq> NULL"
proof -
  have c: "length (ac_write_queue ch) = nat (sint (ah_max_write_queue_len h))" "ac_write_queue_head ch = 0" "ac_write_queue_tail ch = 1" "ac_consume_locked ch"
    using connect_channel [OF assms(1)] by simp_all
  have "acm_wreach (ah_max_write_queue_len h) (acm_wsys_init ch)"
    by (rule acm_wreach.init) (use c assms(2) in \<open>simp_all add: ring_wf_def ring_contents_def\<close>)
  then show ?thesis using connect_channel [OF assms(1)] by simp
qed

end
