(* ===== verification/Rbtree.thy ===== *)
theory Rbtree
  imports Cstr
begin

text \<open>
  The red-black tree of \<^verbatim>\<open>src/com/rbtree.c\<close> and \<^verbatim>\<open>inc/com/rbtree.h\<close>, on a heap of nodes with pointers to the
  children and to the parent. A tree is known by its address; the sentinel \<open>nil\<close> is a member of the
  structure, behind the pointer \<open>root\<close>, and is a node of the heap like the others. \<open>None\<close> is an access to memory
  that is not allocated. Every pointer is read again where the code reads it again.
\<close>

section \<open>Data\<close>

abbreviation RB_RED :: u8 where "RB_RED \<equiv> 0"
abbreviation RB_BLACK :: u8 where "RB_BLACK \<equiv> 1"

text \<open>Keys are only compared, so that an \<open>int\<close> of the code is an integer.\<close>

record rb_node =
  rb_color :: u8
  rb_key :: int
  rb_lchild :: addr
  rb_rchild :: addr
  rb_parent :: addr

text \<open>The nodes of the heap, and the member \<open>root\<close> of every tree.\<close>

record rb_tree =
  rm_nodes :: "addr \<Rightarrow> rb_node option"
  rm_root :: "addr \<Rightarrow> addr option"

abbreviation rb_nil :: "addr \<Rightarrow> addr" where "rb_nil t \<equiv> t + 8"

definition rd :: "rb_tree \<Rightarrow> addr \<Rightarrow> (rb_node \<Rightarrow> 'a) \<Rightarrow> 'a option" where
  "rd m a f = map_option f (rm_nodes m a)"

definition wr :: "rb_tree \<Rightarrow> addr \<Rightarrow> (rb_node \<Rightarrow> rb_node) \<Rightarrow> rb_tree option" where
  "wr m a f = map_option (\<lambda>n. m\<lparr>rm_nodes := (rm_nodes m)(a \<mapsto> f n)\<rparr>) (rm_nodes m a)"

definition wr_root :: "rb_tree \<Rightarrow> addr \<Rightarrow> addr \<Rightarrow> rb_tree option" where
  "wr_root m t a = map_option (\<lambda>_. m\<lparr>rm_root := (rm_root m)(t \<mapsto> a)\<rparr>) (rm_root m t)"

section \<open>Initialisation and search\<close>

definition rb_init :: "rb_tree \<Rightarrow> addr \<Rightarrow> (rb_tree \<times> int) option" where
  "rb_init m p_rb_t =
     (if p_rb_t = NULL then Some (m, - 1)
      else do {
        m1 \<leftarrow> wr m (rb_nil p_rb_t) (rb_color_update (\<lambda>_. RB_BLACK));
        m2 \<leftarrow> wr_root m1 p_rb_t (rb_nil p_rb_t);
        Some (m2, 1)
      })"

text \<open>One evaluation of the condition of the loop, and of its body when the loop goes on with \<open>again\<close>.\<close>

definition search_round :: "rb_tree \<Rightarrow> addr \<Rightarrow> int \<Rightarrow> (addr \<Rightarrow> addr option) \<Rightarrow> addr \<Rightarrow> addr option" where
  "search_round m nil key again p_rb_n =
     (if p_rb_n = nil then Some p_rb_n
      else do {
        n \<leftarrow> rm_nodes m p_rb_n;
        if rb_key n = key then Some p_rb_n
        else again (if key < rb_key n then rb_lchild n else rb_rchild n)
      })"

lemma search_round_mono [partial_function_mono]:
  "(\<And>p. mono_option (\<lambda>f. again f p)) \<Longrightarrow> mono_option (\<lambda>f. search_round m nil key (again f) p_rb_n)"
  unfolding search_round_def by (intro partial_function_mono)

partial_function (option) search_loop :: "rb_tree \<Rightarrow> addr \<Rightarrow> int \<Rightarrow> addr \<Rightarrow> addr option" where
  "search_loop m nil key p_rb_n = search_round m nil key (\<lambda>p. search_loop m nil key p) p_rb_n"

lemmas search_loop_eq = search_loop.simps [unfolded search_round_def]

definition rb_search :: "rb_tree \<Rightarrow> addr \<Rightarrow> int \<Rightarrow> addr option" where
  "rb_search m p_rb_t key =
     (if p_rb_t = NULL then Some NULL
      else do {
        root \<leftarrow> rm_root m p_rb_t;
        p \<leftarrow> search_loop m (rb_nil p_rb_t) key root;
        Some (if p = rb_nil p_rb_t then NULL else p)
      })"

section \<open>Rotations\<close>

definition rb_left_rotate :: "rb_tree \<Rightarrow> addr \<Rightarrow> addr \<Rightarrow> (rb_tree \<times> int) option" where
  "rb_left_rotate m p_rb_t p_n =
     (if p_rb_t = NULL \<or> p_n = NULL then Some (m, - 1)
      else do {
        let nil = rb_nil p_rb_t;
        y \<leftarrow> rd m p_n rb_rchild;
        if y = nil then Some (m, - 1)
        else do {
          b \<leftarrow> rd m y rb_lchild;
          m1 \<leftarrow> wr m p_n (rb_rchild_update (\<lambda>_. b));
          b1 \<leftarrow> rd m1 y rb_lchild;
          m2 \<leftarrow> (if b1 \<noteq> nil then wr m1 b1 (rb_parent_update (\<lambda>_. p_n)) else Some m1);
          p2 \<leftarrow> rd m2 p_n rb_parent;
          m3 \<leftarrow> wr m2 y (rb_parent_update (\<lambda>_. p2));
          p3 \<leftarrow> rd m3 p_n rb_parent;
          m4 \<leftarrow> (if p3 = nil then wr_root m3 p_rb_t y
                 else do {
                   l \<leftarrow> rd m3 p3 rb_lchild;
                   if p_n = l then wr m3 p3 (rb_lchild_update (\<lambda>_. y))
                   else wr m3 p3 (rb_rchild_update (\<lambda>_. y))
                 });
          m5 \<leftarrow> wr m4 y (rb_lchild_update (\<lambda>_. p_n));
          m6 \<leftarrow> wr m5 p_n (rb_parent_update (\<lambda>_. y));
          Some (m6, 1)
        }
      })"

definition rb_right_rotate :: "rb_tree \<Rightarrow> addr \<Rightarrow> addr \<Rightarrow> (rb_tree \<times> int) option" where
  "rb_right_rotate m p_rb_t p_n =
     (if p_rb_t = NULL \<or> p_n = NULL then Some (m, - 1)
      else do {
        let nil = rb_nil p_rb_t;
        y \<leftarrow> rd m p_n rb_lchild;
        if y = nil then Some (m, - 1)
        else do {
          b \<leftarrow> rd m y rb_rchild;
          m1 \<leftarrow> wr m p_n (rb_lchild_update (\<lambda>_. b));
          b1 \<leftarrow> rd m1 y rb_rchild;
          m2 \<leftarrow> (if b1 \<noteq> nil then wr m1 b1 (rb_parent_update (\<lambda>_. p_n)) else Some m1);
          p2 \<leftarrow> rd m2 p_n rb_parent;
          m3 \<leftarrow> wr m2 y (rb_parent_update (\<lambda>_. p2));
          p3 \<leftarrow> rd m3 p_n rb_parent;
          m4 \<leftarrow> (if p3 = nil then wr_root m3 p_rb_t y
                 else do {
                   r \<leftarrow> rd m3 p3 rb_rchild;
                   if p_n = r then wr m3 p3 (rb_rchild_update (\<lambda>_. y))
                   else wr m3 p3 (rb_lchild_update (\<lambda>_. y))
                 });
          m5 \<leftarrow> wr m4 y (rb_rchild_update (\<lambda>_. p_n));
          m6 \<leftarrow> wr m5 p_n (rb_parent_update (\<lambda>_. y));
          Some (m6, 1)
        }
      })"

section \<open>Insertion\<close>

text \<open>
  The two symmetric halves of the loop's body, for a bad node whose parent is a left or a right child; the
  result is the bad node of the next round.
\<close>

definition insert_fixup_left :: "rb_tree \<Rightarrow> addr \<Rightarrow> addr \<Rightarrow> (rb_tree \<times> addr) option" where
  "insert_fixup_left m p_rb_t bad = do {
     p \<leftarrow> rd m bad rb_parent;
     g \<leftarrow> rd m p rb_parent;
     uncle \<leftarrow> rd m g rb_rchild;
     uc \<leftarrow> rd m uncle rb_color;
     if uc = RB_RED then do {
       m1 \<leftarrow> wr m p (rb_color_update (\<lambda>_. RB_BLACK));
       m2 \<leftarrow> wr m1 uncle (rb_color_update (\<lambda>_. RB_BLACK));
       m3 \<leftarrow> wr m2 g (rb_color_update (\<lambda>_. RB_RED));
       Some (m3, g)
     } else do {
       r \<leftarrow> rd m p rb_rchild;
       (m1, bad1) \<leftarrow> (if bad = r then do { (m', _) \<leftarrow> rb_left_rotate m p_rb_t p; Some (m', p) } else Some (m, bad));
       p1 \<leftarrow> rd m1 bad1 rb_parent;
       m2 \<leftarrow> wr m1 p1 (rb_color_update (\<lambda>_. RB_BLACK));
       g1 \<leftarrow> rd m2 p1 rb_parent;
       m3 \<leftarrow> wr m2 g1 (rb_color_update (\<lambda>_. RB_RED));
       (m4, _) \<leftarrow> rb_right_rotate m3 p_rb_t g1;
       Some (m4, bad1)
     }
   }"

definition insert_fixup_right :: "rb_tree \<Rightarrow> addr \<Rightarrow> addr \<Rightarrow> (rb_tree \<times> addr) option" where
  "insert_fixup_right m p_rb_t bad = do {
     p \<leftarrow> rd m bad rb_parent;
     g \<leftarrow> rd m p rb_parent;
     uncle \<leftarrow> rd m g rb_lchild;
     uc \<leftarrow> rd m uncle rb_color;
     if uc = RB_RED then do {
       m1 \<leftarrow> wr m p (rb_color_update (\<lambda>_. RB_BLACK));
       m2 \<leftarrow> wr m1 uncle (rb_color_update (\<lambda>_. RB_BLACK));
       m3 \<leftarrow> wr m2 g (rb_color_update (\<lambda>_. RB_RED));
       Some (m3, g)
     } else do {
       l \<leftarrow> rd m p rb_lchild;
       (m1, bad1) \<leftarrow> (if bad = l then do { (m', _) \<leftarrow> rb_right_rotate m p_rb_t p; Some (m', p) } else Some (m, bad));
       p1 \<leftarrow> rd m1 bad1 rb_parent;
       m2 \<leftarrow> wr m1 p1 (rb_color_update (\<lambda>_. RB_BLACK));
       g1 \<leftarrow> rd m2 p1 rb_parent;
       m3 \<leftarrow> wr m2 g1 (rb_color_update (\<lambda>_. RB_RED));
       (m4, _) \<leftarrow> rb_left_rotate m3 p_rb_t g1;
       Some (m4, bad1)
     }
   }"

partial_function (option) insert_fixup_loop :: "rb_tree \<Rightarrow> addr \<Rightarrow> addr \<Rightarrow> rb_tree option" where
  "insert_fixup_loop m p_rb_t bad = do {
     p \<leftarrow> rd m bad rb_parent;
     c \<leftarrow> rd m p rb_color;
     if c = RB_RED then do {
       g \<leftarrow> rd m p rb_parent;
       l \<leftarrow> rd m g rb_lchild;
       (m1, bad1) \<leftarrow> (if p = l then insert_fixup_left m p_rb_t bad else insert_fixup_right m p_rb_t bad);
       insert_fixup_loop m1 p_rb_t bad1
     } else Some m
   }"

definition rb_insert_fixup :: "rb_tree \<Rightarrow> addr \<Rightarrow> addr \<Rightarrow> (rb_tree \<times> int) option" where
  "rb_insert_fixup m p_rb_t p_n =
     (if p_rb_t = NULL \<or> p_n = NULL then Some (m, - 1)
      else do {
        m1 \<leftarrow> insert_fixup_loop m p_rb_t p_n;
        root \<leftarrow> rm_root m1 p_rb_t;
        m2 \<leftarrow> wr m1 root (rb_color_update (\<lambda>_. RB_BLACK));
        Some (m2, 1)
      })"

text \<open>The search for the place; \<open>Inl\<close> when a node with the key is found.\<close>

partial_function (option) insert_place :: "rb_tree \<Rightarrow> addr \<Rightarrow> int \<Rightarrow> addr \<Rightarrow> addr \<Rightarrow> (unit + addr) option" where
  "insert_place m nil key pre_node p =
     (if p = nil then Some (Inr pre_node)
      else do {
        n \<leftarrow> rm_nodes m p;
        if key < rb_key n then insert_place m nil key p (rb_lchild n)
        else if rb_key n < key then insert_place m nil key p (rb_rchild n)
        else Some (Inl ())
      })"

definition rb_insert :: "rb_tree \<Rightarrow> addr \<Rightarrow> addr \<Rightarrow> (rb_tree \<times> int) option" where
  "rb_insert m p_rb_t pnew_rb_n =
     (if p_rb_t = NULL \<or> pnew_rb_n = NULL then Some (m, - 1)
      else do {
        let nil = rb_nil p_rb_t;
        root \<leftarrow> rm_root m p_rb_t;
        key \<leftarrow> rd m pnew_rb_n rb_key;
        place \<leftarrow> insert_place m nil key nil root;
        (case place of
           Inl _ \<Rightarrow> Some (m, - 1)
         | Inr pre_node \<Rightarrow> do {
             m1 \<leftarrow> wr m pnew_rb_n (rb_parent_update (\<lambda>_. pre_node));
             m2 \<leftarrow> (if pre_node = nil then wr_root m1 p_rb_t pnew_rb_n
                    else do {
                      k \<leftarrow> rd m1 pre_node rb_key;
                      if key < k then wr m1 pre_node (rb_lchild_update (\<lambda>_. pnew_rb_n))
                      else wr m1 pre_node (rb_rchild_update (\<lambda>_. pnew_rb_n))
                    });
             m3 \<leftarrow> wr m2 pnew_rb_n (rb_rchild_update (\<lambda>_. nil));
             m4 \<leftarrow> wr m3 pnew_rb_n (rb_lchild_update (\<lambda>_. nil));
             m5 \<leftarrow> wr m4 pnew_rb_n (rb_color_update (\<lambda>_. RB_RED));
             (m6, _) \<leftarrow> rb_insert_fixup m5 p_rb_t pnew_rb_n;
             Some (m6, 1)
           })
      })"

section \<open>Deletion\<close>

definition rb_transplant :: "rb_tree \<Rightarrow> addr \<Rightarrow> addr \<Rightarrow> addr \<Rightarrow> rb_tree option" where
  "rb_transplant m p_rb_t p_ori_n p_tr_n = do {
     root \<leftarrow> rm_root m p_rb_t;
     m1 \<leftarrow> (if p_ori_n = rb_nil p_rb_t \<or> p_ori_n = root then wr_root m p_rb_t p_tr_n
            else do {
              p \<leftarrow> rd m p_ori_n rb_parent;
              l \<leftarrow> rd m p rb_lchild;
              if p_ori_n = l then wr m p (rb_lchild_update (\<lambda>_. p_tr_n))
              else wr m p (rb_rchild_update (\<lambda>_. p_tr_n))
            });
     p1 \<leftarrow> rd m1 p_ori_n rb_parent;
     wr m1 p_tr_n (rb_parent_update (\<lambda>_. p1))
   }"

partial_function (option) rb_tree_minimum :: "rb_tree \<Rightarrow> addr \<Rightarrow> addr \<Rightarrow> addr option" where
  "rb_tree_minimum m p_rb_t p = do {
     l \<leftarrow> rd m p rb_lchild;
     if l \<noteq> rb_nil p_rb_t then rb_tree_minimum m p_rb_t l else Some p
   }"

text \<open>
  The loop's body, for a bad node that is a left child and then for a right child: the brother is red; it is black
  with a red inner child; it is black with a red outer child, which ends the loop.
\<close>

definition delete_red_brother_left :: "rb_tree \<Rightarrow> addr \<Rightarrow> addr \<Rightarrow> addr \<Rightarrow> addr \<Rightarrow> (rb_tree \<times> addr) option" where
  "delete_red_brother_left m p_rb_t bad p bro = do {
     m1 \<leftarrow> wr m bro (rb_color_update (\<lambda>_. RB_BLACK));
     m2 \<leftarrow> wr m1 p (rb_color_update (\<lambda>_. RB_RED));
     (m3, _) \<leftarrow> rb_left_rotate m2 p_rb_t p;
     p3 \<leftarrow> rd m3 bad rb_parent;
     bro3 \<leftarrow> rd m3 p3 rb_rchild;
     Some (m3, bro3)
   }"

definition delete_inner_red_left :: "rb_tree \<Rightarrow> addr \<Rightarrow> addr \<Rightarrow> addr \<Rightarrow> (rb_tree \<times> addr) option" where
  "delete_inner_red_left m p_rb_t bad bro = do {
     m1 \<leftarrow> wr m bro (rb_color_update (\<lambda>_. RB_RED));
     l1 \<leftarrow> rd m1 bro rb_lchild;
     m2 \<leftarrow> wr m1 l1 (rb_color_update (\<lambda>_. RB_BLACK));
     (m3, _) \<leftarrow> rb_right_rotate m2 p_rb_t bro;
     p3 \<leftarrow> rd m3 bad rb_parent;
     bro3 \<leftarrow> rd m3 p3 rb_rchild;
     Some (m3, bro3)
   }"

definition delete_outer_red_left :: "rb_tree \<Rightarrow> addr \<Rightarrow> addr \<Rightarrow> addr \<Rightarrow> (rb_tree \<times> addr) option" where
  "delete_outer_red_left m p_rb_t bad bro = do {
     p \<leftarrow> rd m bad rb_parent;
     c \<leftarrow> rd m p rb_color;
     m1 \<leftarrow> wr m bro (rb_color_update (\<lambda>_. c));
     m2 \<leftarrow> wr m1 p (rb_color_update (\<lambda>_. RB_BLACK));
     r2 \<leftarrow> rd m2 bro rb_rchild;
     m3 \<leftarrow> wr m2 r2 (rb_color_update (\<lambda>_. RB_BLACK));
     p3 \<leftarrow> rd m3 bad rb_parent;
     (m4, _) \<leftarrow> rb_left_rotate m3 p_rb_t p3;
     root \<leftarrow> rm_root m4 p_rb_t;
     Some (m4, root)
   }"

definition delete_fixup_left :: "rb_tree \<Rightarrow> addr \<Rightarrow> addr \<Rightarrow> (rb_tree \<times> addr) option" where
  "delete_fixup_left m p_rb_t bad = do {
     p \<leftarrow> rd m bad rb_parent;
     bro \<leftarrow> rd m p rb_rchild;
     c \<leftarrow> rd m bro rb_color;
     (m1, bro1) \<leftarrow> (if c = RB_RED then delete_red_brother_left m p_rb_t bad p bro else Some (m, bro));
     bl \<leftarrow> rd m1 bro1 rb_lchild;
     br \<leftarrow> rd m1 bro1 rb_rchild;
     cl \<leftarrow> rd m1 bl rb_color;
     cr \<leftarrow> rd m1 br rb_color;
     if cl = RB_BLACK \<and> cr = RB_BLACK then do {
       m2 \<leftarrow> wr m1 bro1 (rb_color_update (\<lambda>_. RB_RED));
       p2 \<leftarrow> rd m2 bad rb_parent;
       Some (m2, p2)
     } else do {
       (m2, bro2) \<leftarrow> (if cr = RB_BLACK then delete_inner_red_left m1 p_rb_t bad bro1 else Some (m1, bro1));
       delete_outer_red_left m2 p_rb_t bad bro2
     }
   }"

definition delete_red_brother_right :: "rb_tree \<Rightarrow> addr \<Rightarrow> addr \<Rightarrow> addr \<Rightarrow> addr \<Rightarrow> (rb_tree \<times> addr) option" where
  "delete_red_brother_right m p_rb_t bad p bro = do {
     m1 \<leftarrow> wr m bro (rb_color_update (\<lambda>_. RB_BLACK));
     m2 \<leftarrow> wr m1 p (rb_color_update (\<lambda>_. RB_RED));
     (m3, _) \<leftarrow> rb_right_rotate m2 p_rb_t p;
     p3 \<leftarrow> rd m3 bad rb_parent;
     bro3 \<leftarrow> rd m3 p3 rb_lchild;
     Some (m3, bro3)
   }"

definition delete_inner_red_right :: "rb_tree \<Rightarrow> addr \<Rightarrow> addr \<Rightarrow> addr \<Rightarrow> (rb_tree \<times> addr) option" where
  "delete_inner_red_right m p_rb_t bad bro = do {
     m1 \<leftarrow> wr m bro (rb_color_update (\<lambda>_. RB_RED));
     r1 \<leftarrow> rd m1 bro rb_rchild;
     m2 \<leftarrow> wr m1 r1 (rb_color_update (\<lambda>_. RB_BLACK));
     (m3, _) \<leftarrow> rb_left_rotate m2 p_rb_t bro;
     p3 \<leftarrow> rd m3 bad rb_parent;
     bro3 \<leftarrow> rd m3 p3 rb_lchild;
     Some (m3, bro3)
   }"

definition delete_outer_red_right :: "rb_tree \<Rightarrow> addr \<Rightarrow> addr \<Rightarrow> addr \<Rightarrow> (rb_tree \<times> addr) option" where
  "delete_outer_red_right m p_rb_t bad bro = do {
     p \<leftarrow> rd m bad rb_parent;
     c \<leftarrow> rd m p rb_color;
     m1 \<leftarrow> wr m bro (rb_color_update (\<lambda>_. c));
     m2 \<leftarrow> wr m1 p (rb_color_update (\<lambda>_. RB_BLACK));
     l2 \<leftarrow> rd m2 bro rb_lchild;
     m3 \<leftarrow> wr m2 l2 (rb_color_update (\<lambda>_. RB_BLACK));
     p3 \<leftarrow> rd m3 bad rb_parent;
     (m4, _) \<leftarrow> rb_right_rotate m3 p_rb_t p3;
     root \<leftarrow> rm_root m4 p_rb_t;
     Some (m4, root)
   }"

definition delete_fixup_right :: "rb_tree \<Rightarrow> addr \<Rightarrow> addr \<Rightarrow> (rb_tree \<times> addr) option" where
  "delete_fixup_right m p_rb_t bad = do {
     p \<leftarrow> rd m bad rb_parent;
     bro \<leftarrow> rd m p rb_lchild;
     c \<leftarrow> rd m bro rb_color;
     (m1, bro1) \<leftarrow> (if c = RB_RED then delete_red_brother_right m p_rb_t bad p bro else Some (m, bro));
     br \<leftarrow> rd m1 bro1 rb_rchild;
     bl \<leftarrow> rd m1 bro1 rb_lchild;
     cr \<leftarrow> rd m1 br rb_color;
     cl \<leftarrow> rd m1 bl rb_color;
     if cr = RB_BLACK \<and> cl = RB_BLACK then do {
       m2 \<leftarrow> wr m1 bro1 (rb_color_update (\<lambda>_. RB_RED));
       p2 \<leftarrow> rd m2 bad rb_parent;
       Some (m2, p2)
     } else do {
       (m2, bro2) \<leftarrow> (if cl = RB_BLACK then delete_inner_red_right m1 p_rb_t bad bro1 else Some (m1, bro1));
       delete_outer_red_right m2 p_rb_t bad bro2
     }
   }"

partial_function (option) delete_fixup_loop :: "rb_tree \<Rightarrow> addr \<Rightarrow> addr \<Rightarrow> (rb_tree \<times> addr) option" where
  "delete_fixup_loop m p_rb_t bad = do {
     root \<leftarrow> rm_root m p_rb_t;
     c \<leftarrow> rd m bad rb_color;
     if bad \<noteq> root \<and> c = RB_BLACK then do {
       p \<leftarrow> rd m bad rb_parent;
       l \<leftarrow> rd m p rb_lchild;
       (m1, bad1) \<leftarrow> (if bad = l then delete_fixup_left m p_rb_t bad else delete_fixup_right m p_rb_t bad);
       delete_fixup_loop m1 p_rb_t bad1
     } else Some (m, bad)
   }"

definition rb_delete_fixup :: "rb_tree \<Rightarrow> addr \<Rightarrow> addr \<Rightarrow> (rb_tree \<times> int) option" where
  "rb_delete_fixup m p_rb_t p_n = do {
     (m1, bad) \<leftarrow> delete_fixup_loop m p_rb_t p_n;
     m2 \<leftarrow> wr m1 bad (rb_color_update (\<lambda>_. RB_BLACK));
     Some (m2, 1)
   }"

text \<open>The node that takes the place of a node with two children: the least one of the right subtree.\<close>

definition move_minimum :: "rb_tree \<Rightarrow> addr \<Rightarrow> addr \<Rightarrow> (rb_tree \<times> u8 \<times> addr) option" where
  "move_minimum m p_rb_t p_rm_n = do {
     r \<leftarrow> rd m p_rm_n rb_rchild;
     mv \<leftarrow> rb_tree_minimum m p_rb_t r;
     ori_color \<leftarrow> rd m mv rb_color;
     replace \<leftarrow> rd m mv rb_rchild;
     p \<leftarrow> rd m mv rb_parent;
     m1 \<leftarrow> (if p = p_rm_n then wr m replace (rb_parent_update (\<lambda>_. mv))
            else do {
              m' \<leftarrow> rb_transplant m p_rb_t mv replace;
              r' \<leftarrow> rd m' p_rm_n rb_rchild;
              m'' \<leftarrow> wr m' mv (rb_rchild_update (\<lambda>_. r'));
              r'' \<leftarrow> rd m'' mv rb_rchild;
              wr m'' r'' (rb_parent_update (\<lambda>_. mv))
            });
     m2 \<leftarrow> rb_transplant m1 p_rb_t p_rm_n mv;
     l2 \<leftarrow> rd m2 p_rm_n rb_lchild;
     m3 \<leftarrow> wr m2 mv (rb_lchild_update (\<lambda>_. l2));
     l3 \<leftarrow> rd m3 mv rb_lchild;
     m4 \<leftarrow> wr m3 l3 (rb_parent_update (\<lambda>_. mv));
     c \<leftarrow> rd m4 p_rm_n rb_color;
     m5 \<leftarrow> wr m4 mv (rb_color_update (\<lambda>_. c));
     Some (m5, ori_color, replace)
   }"

definition rb_delete :: "rb_tree \<Rightarrow> addr \<Rightarrow> addr \<Rightarrow> (rb_tree \<times> int) option" where
  "rb_delete m p_rb_t p_rm_n =
     (if p_rb_t = NULL \<or> p_rm_n = NULL then Some (m, - 1)
      else do {
        let nil = rb_nil p_rb_t;
        n \<leftarrow> rm_nodes m p_rm_n;
        (m1, ori_color, replace) \<leftarrow>
          (if rb_lchild n = nil then do {
             m' \<leftarrow> rb_transplant m p_rb_t p_rm_n (rb_rchild n);
             Some (m', rb_color n, rb_rchild n)
           } else if rb_rchild n = nil then do {
             m' \<leftarrow> rb_transplant m p_rb_t p_rm_n (rb_lchild n);
             Some (m', rb_color n, rb_lchild n)
           } else move_minimum m p_rb_t p_rm_n);
        if ori_color = RB_BLACK then do {
          (m2, _) \<leftarrow> rb_delete_fixup m1 p_rb_t replace;
          Some (m2, 1)
        } else Some (m1, 1)
      })"

section \<open>Traversal\<close>

text \<open>The text printed, and the result.\<close>

partial_function (option) rb_pre_traversal :: "rb_tree \<Rightarrow> addr \<Rightarrow> addr \<Rightarrow> (u8 list \<times> int) option" where
  "rb_pre_traversal m p_rb_t p_root =
     (if p_rb_t = NULL \<or> p_root = NULL then Some ([], - 1)
      else if p_root = rb_nil p_rb_t then Some ([], 1)
      else do {
        n \<leftarrow> rm_nodes m p_root;
        let out = c_itoa (rb_key n) @ ascii '':'' @ (if rb_color n = 1 then ascii ''B'' else ascii ''R'') @ ascii ''('';
        (s1, r1) \<leftarrow> rb_pre_traversal m p_rb_t (rb_lchild n);
        if r1 = - 1 then Some (out @ s1, - 1)
        else do {
          (s2, r2) \<leftarrow> rb_pre_traversal m p_rb_t (rb_rchild n);
          if r2 = - 1 then Some (out @ s1 @ ascii '')('' @ s2, - 1)
          else Some (out @ s1 @ ascii '')('' @ s2 @ ascii '')'', 1)
        }
      })"

end
