(* ===== verification/Rbtree_Heap.thy ===== *)
theory Rbtree_Heap
  imports Rbtree "HOL-Library.Tree"
begin

text \<open>
  Red-black trees in the heap: the binary tree that a tree of linked nodes represents, contexts of a
  subtree, and what the elementary operations (painting a node, rotating, hanging a subtree elsewhere) do to the
  represented tree.
\<close>

section \<open>Trees and contexts\<close>

text \<open>A node carries its address, its colour and its key.\<close>

type_synonym rbt = "(addr \<times> u8 \<times> int) tree"

fun rt :: "addr \<Rightarrow> rbt \<Rightarrow> addr" where
  "rt nil Leaf = nil"
| "rt nil (Node l (a, c, k) r) = a"

fun addrs :: "rbt \<Rightarrow> addr list" where
  "addrs Leaf = []"
| "addrs (Node l (a, c, k) r) = addrs l @ a # addrs r"

fun tree_at :: "(addr \<Rightarrow> rb_node option) \<Rightarrow> addr \<Rightarrow> addr \<Rightarrow> rbt \<Rightarrow> bool" where
  "tree_at h nil par Leaf \<longleftrightarrow> True"
| "tree_at h nil par (Node l (a, c, k) r) \<longleftrightarrow>
     h a = Some \<lparr>rb_color = c, rb_key = k, rb_lchild = rt nil l, rb_rchild = rt nil r, rb_parent = par\<rparr> \<and>
     tree_at h nil a l \<and> tree_at h nil a r"

text \<open>A frame is a node on the path to a subtree, with its other child; the innermost frame is the first.\<close>

datatype frame = Lf addr u8 int rbt | Rf rbt addr u8 int

fun fill :: "frame list \<Rightarrow> rbt \<Rightarrow> rbt" where
  "fill [] s = s"
| "fill (Lf a c k r # ctx) s = fill ctx (Node s (a, c, k) r)"
| "fill (Rf l a c k # ctx) s = fill ctx (Node l (a, c, k) s)"

fun cp :: "addr \<Rightarrow> frame list \<Rightarrow> addr" where
  "cp nil [] = nil"
| "cp nil (Lf a c k r # ctx) = a"
| "cp nil (Rf l a c k # ctx) = a"

fun ctx_top :: "frame list \<Rightarrow> addr \<Rightarrow> addr" where
  "ctx_top [] p = p"
| "ctx_top (Lf a c k r # ctx) p = ctx_top ctx a"
| "ctx_top (Rf l a c k # ctx) p = ctx_top ctx a"

fun caddrs :: "frame list \<Rightarrow> addr list" where
  "caddrs [] = []"
| "caddrs (Lf a c k r # ctx) = a # addrs r @ caddrs ctx"
| "caddrs (Rf l a c k # ctx) = a # addrs l @ caddrs ctx"

text \<open>The context in the heap, around a subtree with the root \<open>p\<close>.\<close>

fun ctx_at :: "(addr \<Rightarrow> rb_node option) \<Rightarrow> addr \<Rightarrow> frame list \<Rightarrow> addr \<Rightarrow> bool" where
  "ctx_at h nil [] p \<longleftrightarrow> True"
| "ctx_at h nil (Lf a c k r # ctx) p \<longleftrightarrow>
     h a = Some \<lparr>rb_color = c, rb_key = k, rb_lchild = p, rb_rchild = rt nil r, rb_parent = cp nil ctx\<rparr> \<and>
     tree_at h nil a r \<and> ctx_at h nil ctx a"
| "ctx_at h nil (Rf l a c k # ctx) p \<longleftrightarrow>
     h a = Some \<lparr>rb_color = c, rb_key = k, rb_lchild = rt nil l, rb_rchild = p, rb_parent = cp nil ctx\<rparr> \<and>
     tree_at h nil a l \<and> ctx_at h nil ctx a"

lemma set_fill: "set (addrs (fill ctx s)) = set (caddrs ctx) \<union> set (addrs s)"
  by (induction ctx s rule: fill.induct) auto

lemma distinct_fill: "distinct (addrs (fill ctx s)) \<longleftrightarrow> distinct (caddrs ctx @ addrs s)"
  by (induction ctx s rule: fill.induct) auto

lemma rt_fill: "rt nil (fill ctx s) = ctx_top ctx (rt nil s)"
  by (induction ctx s rule: fill.induct) auto

lemma tree_at_fill: "tree_at h nil nil (fill ctx s) \<longleftrightarrow> ctx_at h nil ctx (rt nil s) \<and> tree_at h nil (cp nil ctx) s"
  by (induction ctx s rule: fill.induct) auto

lemma fill_append: "fill (c1 @ c2) s = fill c2 (fill c1 s)"
  by (induction c1 s rule: fill.induct) auto

lemma rt_in: "rt nil s = nil \<or> rt nil s \<in> set (addrs s)"
  by (cases s rule: addrs.cases) auto

lemma tree_at_frame [simp]: "a \<notin> set (addrs s) \<Longrightarrow> tree_at (h(a := v)) nil par s = tree_at h nil par s"
  by (induction s arbitrary: par rule: addrs.induct) auto

lemma ctx_at_frame [simp]: "a \<notin> set (caddrs ctx) \<Longrightarrow> ctx_at (h(a := v)) nil ctx p = ctx_at h nil ctx p"
  by (induction h nil ctx p rule: ctx_at.induct) auto

section \<open>The representation relation\<close>

text \<open>
  The tree at the address \<open>t\<close> represents \<open>T\<close>; its sentinel is the node \<open>nn\<close>. Everything outside of the tree is
  as in \<open>m0\<close>.
\<close>

definition rep :: "rb_tree \<Rightarrow> addr \<Rightarrow> rb_node \<Rightarrow> rbt \<Rightarrow> rb_tree \<Rightarrow> bool" where
  "rep m0 t nn T m \<longleftrightarrow> t \<noteq> NULL \<and> rm_root m t = Some (rt (rb_nil t) T) \<and>
     rm_nodes m (rb_nil t) = Some nn \<and> rb_color nn = RB_BLACK \<and>
     distinct (addrs T) \<and> rb_nil t \<notin> set (addrs T) \<and> NULL \<notin> set (addrs T) \<and>
     tree_at (rm_nodes m) (rb_nil t) (rb_nil t) T \<and>
     (\<forall>a. a \<notin> insert (rb_nil t) (set (addrs T)) \<longrightarrow> rm_nodes m a = rm_nodes m0 a) \<and>
     (\<forall>s. s \<noteq> t \<longrightarrow> rm_root m s = rm_root m0 s)"

lemma rep_fill:
  "rep m0 t nn (fill ctx s) m \<longleftrightarrow> t \<noteq> NULL \<and> rm_root m t = Some (ctx_top ctx (rt (rb_nil t) s)) \<and>
     rm_nodes m (rb_nil t) = Some nn \<and> rb_color nn = RB_BLACK \<and>
     distinct (caddrs ctx @ addrs s) \<and> rb_nil t \<notin> set (caddrs ctx) \<union> set (addrs s) \<and> NULL \<notin> set (caddrs ctx) \<union> set (addrs s) \<and>
     ctx_at (rm_nodes m) (rb_nil t) ctx (rt (rb_nil t) s) \<and> tree_at (rm_nodes m) (rb_nil t) (cp (rb_nil t) ctx) s \<and>
     (\<forall>a. a \<notin> insert (rb_nil t) (set (caddrs ctx) \<union> set (addrs s)) \<longrightarrow> rm_nodes m a = rm_nodes m0 a) \<and>
     (\<forall>s. s \<noteq> t \<longrightarrow> rm_root m s = rm_root m0 s)"
  unfolding rep_def set_fill distinct_fill rt_fill tree_at_fill by auto

text \<open>Reading the fields of a node.\<close>

lemma rep_node:
  assumes "rep m0 t nn (fill ctx (Node l (a, c, k) r)) m"
  shows "rm_nodes m a = Some \<lparr>rb_color = c, rb_key = k, rb_lchild = rt (rb_nil t) l, rb_rchild = rt (rb_nil t) r, rb_parent = cp (rb_nil t) ctx\<rparr>"
  using assms by (simp add: rep_fill)

lemma rep_rd:
  assumes "rep m0 t nn (fill ctx (Node l (a, c, k) r)) m"
  shows "rd m a rb_color = Some c" and "rd m a rb_key = Some k" and "rd m a rb_lchild = Some (rt (rb_nil t) l)"
    and "rd m a rb_rchild = Some (rt (rb_nil t) r)" and "rd m a rb_parent = Some (cp (rb_nil t) ctx)"
  using rep_node [OF assms] by (simp_all add: rd_def)

text \<open>The root of a subtree; the sentinel is black.\<close>

fun color :: "rbt \<Rightarrow> u8" where
  "color Leaf = RB_BLACK"
| "color (Node l (a, c, k) r) = c"

lemma rep_color:
  assumes "rep m0 t nn (fill ctx s) m"
  shows "rd m (rt (rb_nil t) s) rb_color = Some (color s)"
  using assms by (cases s rule: addrs.cases) (auto simp: rep_fill rd_def)

text \<open>The pointer to a left child is not the pointer to the right subtree.\<close>

lemma rep_siblings:
  assumes "rep m0 t nn (fill (Rf l p c k # ctx) s) m" and "s \<noteq> Leaf"
  shows "rt (rb_nil t) l \<noteq> rt (rb_nil t) s"
  using assms rt_in [of "rb_nil t" l] unfolding rep_fill by (cases s rule: addrs.cases) auto

lemma rep_child:
  assumes "rep m0 t nn (fill ctx s) m"
  shows "ctx = Lf p c k r # ctx' \<Longrightarrow> rd m p rb_lchild = Some (rt (rb_nil t) s) \<and> rd m p rb_rchild = Some (rt (rb_nil t) r)"
    and "ctx = Rf l p c k # ctx' \<Longrightarrow> rd m p rb_lchild = Some (rt (rb_nil t) l) \<and> rd m p rb_rchild = Some (rt (rb_nil t) s)"
  using assms unfolding rep_fill rd_def by auto

text \<open>Painting a node.\<close>

lemma rep_paint:
  assumes "rep m0 t nn (fill ctx (Node l (a, c, k) r)) m"
  shows "\<exists>m'. wr m a (rb_color_update (\<lambda>_. c')) = Some m' \<and> rep m0 t nn (fill ctx (Node l (a, c', k) r)) m'"
  using assms by (auto simp: rep_fill wr_def)

section \<open>Rotations\<close>

lemmas heap_steps = rd_def wr_def wr_root_def Let_def

lemma tree_at_cong: "(\<And>a. a \<in> set (addrs s) \<Longrightarrow> h' a = h a) \<Longrightarrow> tree_at h nil par s \<Longrightarrow> tree_at h' nil par s"
  by (induction s arbitrary: par rule: addrs.induct) auto

lemma ctx_at_cong: "(\<And>a. a \<in> set (caddrs ctx) \<Longrightarrow> h' a = h a) \<Longrightarrow> ctx_at h nil ctx p \<Longrightarrow> ctx_at h' nil ctx p"
proof (induction h nil ctx p rule: ctx_at.induct)
  case (2 h nil a c k r ctx p)
  then show ?case using tree_at_cong [of r h' h] by auto
next
  case (3 h nil l a c k ctx p)
  then show ?case using tree_at_cong [of l h' h] by auto
qed simp

lemma rep_replace:
  assumes "rep m0 t nn (fill ctx s) m" and "addrs s' = addrs s"
    and "rm_root m' t = Some (ctx_top ctx (rt (rb_nil t) s'))" and "ctx_at (rm_nodes m') (rb_nil t) ctx (rt (rb_nil t) s')"
    and "tree_at (rm_nodes m') (rb_nil t) (cp (rb_nil t) ctx) s'"
    and "\<And>a. a \<notin> set (caddrs ctx) \<Longrightarrow> a \<notin> set (addrs s) \<Longrightarrow> rm_nodes m' a = rm_nodes m a"
    and "\<And>u. u \<noteq> t \<Longrightarrow> rm_root m' u = rm_root m u"
  shows "rep m0 t nn (fill ctx s') m'"
  using assms unfolding rep_fill by auto

text \<open>The pointer that leads to a subtree, in the parent or in the structure of the tree.\<close>

definition link_child :: "rb_tree \<Rightarrow> addr \<Rightarrow> addr \<Rightarrow> addr \<Rightarrow> addr \<Rightarrow> rb_tree option" where
  "link_child m t p x y =
     (if p = rb_nil t then wr_root m t y
      else do {
        l \<leftarrow> rd m p rb_lchild;
        if x = l then wr m p (rb_lchild_update (\<lambda>_. y)) else wr m p (rb_rchild_update (\<lambda>_. y))
      })"

lemma link_child_ctx:
  assumes "ctx_at (rm_nodes m) (rb_nil t) ctx x" and "distinct (caddrs ctx)" and "rb_nil t \<notin> set (caddrs ctx)"
    and "x \<notin> set (caddrs ctx)" and "x \<noteq> rb_nil t" and "rm_root m t = Some (ctx_top ctx x)"
  shows "\<exists>m'. link_child m t (cp (rb_nil t) ctx) x y = Some m' \<and> ctx_at (rm_nodes m') (rb_nil t) ctx y \<and>
    rm_root m' t = Some (ctx_top ctx y) \<and> (\<forall>a. a \<notin> set (caddrs ctx) \<longrightarrow> rm_nodes m' a = rm_nodes m a) \<and>
    (\<forall>u. u \<noteq> t \<longrightarrow> rm_root m' u = rm_root m u)"
proof (cases ctx rule: caddrs.cases)
  case 1
  then show ?thesis using assms by (simp add: link_child_def heap_steps)
next
  case (2 p c k r ctx')
  then show ?thesis using assms by (auto simp: link_child_def heap_steps)
next
  case (3 l p c k ctx')
  then have "rt (rb_nil t) l \<noteq> x" using assms rt_in [of "rb_nil t" l] by auto
  then show ?thesis using 3 assms by (auto simp: link_child_def heap_steps)
qed

text \<open>The pointer of a subtree to its parent.\<close>

definition reparent :: "rb_tree \<Rightarrow> addr \<Rightarrow> addr \<Rightarrow> addr \<Rightarrow> rb_tree option" where
  "reparent m nil b x = (if b \<noteq> nil then wr m b (rb_parent_update (\<lambda>_. x)) else Some m)"

lemma reparent_step:
  assumes "tree_at (rm_nodes m) nil par B" and "distinct (addrs B)" and "nil \<notin> set (addrs B)"
  shows "\<exists>m'. reparent m nil (rt nil B) x = Some m' \<and>
    tree_at (rm_nodes m') nil x B \<and> (\<forall>a. a \<notin> set (addrs B) \<longrightarrow> rm_nodes m' a = rm_nodes m a) \<and> rm_root m' = rm_root m"
  using assms by (cases B rule: addrs.cases) (auto simp: wr_def reparent_def)

lemma rb_left_rotate_steps:
  assumes "t \<noteq> NULL" and "x \<noteq> NULL" and "rd m x rb_rchild = Some y" and "y \<noteq> rb_nil t" and "rd m y rb_lchild = Some b"
    and "wr m x (rb_rchild_update (\<lambda>_. b)) = Some m1" and "rd m1 y rb_lchild = Some b1" and "reparent m1 (rb_nil t) b1 x = Some m2"
    and "rd m2 x rb_parent = Some p" and "wr m2 y (rb_parent_update (\<lambda>_. p)) = Some m3" and "rd m3 x rb_parent = Some p3"
    and "link_child m3 t p3 x y = Some m4" and "wr m4 y (rb_lchild_update (\<lambda>_. x)) = Some m5" and "wr m5 x (rb_parent_update (\<lambda>_. y)) = Some m6"
  shows "rb_left_rotate m t x = Some (m6, 1)"
  unfolding rb_left_rotate_def reparent_def [symmetric] link_child_def [symmetric] Let_def using assms by simp

lemma left_rotate_rep:
  assumes rep: "rep m0 t nn (fill ctx (Node A (x, cx, kx) (Node B (y, cy, ky) C))) m"
  shows "\<exists>m'. rb_left_rotate m t x = Some (m', 1) \<and> rep m0 t nn (fill ctx (Node (Node A (x, cx, kx) B) (y, cy, ky) C)) m'"
proof -
  let ?n = "rb_nil t" let ?s = "Node A (x, cx, kx) (Node B (y, cy, ky) C)"
  note a = rep [unfolded rep_fill]
  from a have d: "x \<noteq> y" "x \<noteq> ?n" "y \<noteq> ?n" "t \<noteq> NULL" "x \<noteq> NULL" "rt ?n B \<noteq> x" "rt ?n B \<noteq> y"
    using rt_in [of ?n B] by auto
  from a have n: "rm_nodes m x = Some \<lparr>rb_color = cx, rb_key = kx, rb_lchild = rt ?n A, rb_rchild = y, rb_parent = cp ?n ctx\<rparr>"
    "rm_nodes m y = Some \<lparr>rb_color = cy, rb_key = ky, rb_lchild = rt ?n B, rb_rchild = rt ?n C, rb_parent = x\<rparr>" by auto
  define m1 where "m1 = m\<lparr>rm_nodes := (rm_nodes m)(x \<mapsto> \<lparr>rb_color = cx, rb_key = kx, rb_lchild = rt ?n A, rb_rchild = rt ?n B, rb_parent = cp ?n ctx\<rparr>)\<rparr>"
  have "tree_at (rm_nodes m1) ?n y B" using a by (simp add: m1_def)
  obtain m2 where m2: "reparent m1 ?n (rt ?n B) x = Some m2"
    "tree_at (rm_nodes m2) ?n x B" "\<And>a. a \<notin> set (addrs B) \<Longrightarrow> rm_nodes m2 a = rm_nodes m1 a" "rm_root m2 = rm_root m"
    using reparent_step [OF \<open>tree_at (rm_nodes m1) ?n y B\<close>, of x] a by (auto simp: m1_def)
  define m3 where "m3 = m2\<lparr>rm_nodes := (rm_nodes m2)(y \<mapsto> \<lparr>rb_color = cy, rb_key = ky, rb_lchild = rt ?n B, rb_rchild = rt ?n C, rb_parent = cp ?n ctx\<rparr>)\<rparr>"
  have nb: "x \<notin> set (addrs B)" "y \<notin> set (addrs B)" using a by auto
  have m3s: "rm_nodes m3 z = rm_nodes m z" if "z \<noteq> x" "z \<noteq> y" "z \<notin> set (addrs B)" for z
    using that m2(3) by (simp add: m3_def m1_def)
  have "ctx_at (rm_nodes m3) ?n ctx x" using a by (intro ctx_at_cong [OF m3s]) auto
  then obtain m4 where m4: "link_child m3 t (cp ?n ctx) x y = Some m4" "ctx_at (rm_nodes m4) ?n ctx y" "rm_root m4 t = Some (ctx_top ctx y)"
    "\<And>a. a \<notin> set (caddrs ctx) \<Longrightarrow> rm_nodes m4 a = rm_nodes m3 a" "\<And>u. u \<noteq> t \<Longrightarrow> rm_root m4 u = rm_root m u"
    using link_child_ctx [of m3 t ctx x y] a m2(4) by (auto simp: m3_def)
  have xy: "x \<notin> set (caddrs ctx)" "y \<notin> set (caddrs ctx)" using a by auto
  define m5 where "m5 = m4\<lparr>rm_nodes := (rm_nodes m4)
     (y \<mapsto> \<lparr>rb_color = cy, rb_key = ky, rb_lchild = x, rb_rchild = rt ?n C, rb_parent = cp ?n ctx\<rparr>)\<rparr>"
  let ?m = "m5\<lparr>rm_nodes := (rm_nodes m5)
     (x \<mapsto> \<lparr>rb_color = cx, rb_key = kx, rb_lchild = rt ?n A, rb_rchild = rt ?n B, rb_parent = y\<rparr>)\<rparr>"
  have x2: "rm_nodes m2 x = Some \<lparr>rb_color = cx, rb_key = kx, rb_lchild = rt ?n A, rb_rchild = rt ?n B, rb_parent = cp ?n ctx\<rparr>"
    "rm_nodes m2 y = rm_nodes m y" using m2(3) nb d by (simp_all add: m1_def)
  have m5': "wr m4 y (rb_lchild_update (\<lambda>_. x)) = Some m5"
    using m4(4) [OF xy(2)] by (simp add: wr_def m5_def m3_def)
  have "rb_left_rotate m t x = Some (?m, 1)"
    using d n x2 m4(4) [OF xy(1)]
    by (intro rb_left_rotate_steps [OF _ _ _ _ _ _ _ m2(1) _ _ _ m4(1) m5']) (simp_all add: rd_def wr_def m1_def m3_def m5_def)
  moreover have "rep m0 t nn (fill ctx (Node (Node A (x, cx, kx) B) (y, cy, ky) C)) ?m"
  proof (rule rep_replace [OF rep])
    show "ctx_at (rm_nodes ?m) ?n ctx (rt ?n (Node (Node A (x, cx, kx) B) (y, cy, ky) C))" using m4(2) xy by (simp add: m5_def)
    show "rm_nodes ?m z = rm_nodes m z" if "z \<notin> set (caddrs ctx)" "z \<notin> set (addrs ?s)" for z
      using that m3s m4(4) by (simp add: m5_def)
    have e2: "rm_nodes ?m z = rm_nodes m2 z" if "z \<notin> set (caddrs ctx)" "z \<noteq> x" "z \<noteq> y" for z
      using that m4(4) by (simp add: m5_def m3_def)
    have e: "rm_nodes ?m z = rm_nodes m z" if "z \<notin> set (caddrs ctx)" "z \<noteq> x" "z \<noteq> y" "z \<notin> set (addrs B)" for z
      using that e2 [of z] m2(3) by (simp add: m1_def)
    have "tree_at (rm_nodes ?m) ?n x A" by (rule tree_at_cong [OF e, of A]) (use a in auto)
    moreover have "tree_at (rm_nodes ?m) ?n x B" by (rule tree_at_cong [OF e2 m2(2)]) (use a in auto)
    moreover have "tree_at (rm_nodes ?m) ?n y C" by (rule tree_at_cong [OF e, of C]) (use a in auto)
    ultimately show "tree_at (rm_nodes ?m) ?n (cp ?n ctx) (Node (Node A (x, cx, kx) B) (y, cy, ky) C)" using d by (simp add: m5_def)
  qed (use m4(3,5) in \<open>simp_all add: m5_def\<close>)
  ultimately show ?thesis by blast
qed

end
