(* ===== verification/Rbtree_Mirror.thy ===== *)
theory Rbtree_Mirror
  imports Rbtree_Heap
begin

text \<open>
  Mirror images. The two halves of every operation on red-black trees are symmetric: exchanging the children of
  all nodes turns one into the other, so that what holds for one half holds for the other one.
\<close>

section \<open>Mirror images\<close>

definition flip :: "rb_node \<Rightarrow> rb_node" where
  "flip n = n\<lparr>rb_lchild := rb_rchild n, rb_rchild := rb_lchild n\<rparr>"

definition mir :: "rb_tree \<Rightarrow> rb_tree" where
  "mir m = m\<lparr>rm_nodes := \<lambda>a. map_option flip (rm_nodes m a)\<rparr>"

lemma flip_fields [simp]:
  "rb_color (flip n) = rb_color n" "rb_key (flip n) = rb_key n" "rb_parent (flip n) = rb_parent n"
  "rb_lchild (flip n) = rb_rchild n" "rb_rchild (flip n) = rb_lchild n" "flip (flip n) = n"
  by (simp_all add: flip_def)

lemma flip_make [simp]:
  "flip \<lparr>rb_color = c, rb_key = k, rb_lchild = l, rb_rchild = r, rb_parent = p\<rparr> =
   \<lparr>rb_color = c, rb_key = k, rb_lchild = r, rb_rchild = l, rb_parent = p\<rparr>"
  by (simp add: flip_def)

lemma flip_update:
  "(flip n)\<lparr>rb_color := c\<rparr> = flip (n\<lparr>rb_color := c\<rparr>)" "(flip n)\<lparr>rb_parent := p\<rparr> = flip (n\<lparr>rb_parent := p\<rparr>)"
  "(flip n)\<lparr>rb_lchild := l\<rparr> = flip (n\<lparr>rb_rchild := l\<rparr>)" "(flip n)\<lparr>rb_rchild := l\<rparr> = flip (n\<lparr>rb_lchild := l\<rparr>)"
  by (simp_all add: flip_def)

lemma mir_mir [simp]: "mir (mir m) = m"
  by (simp add: mir_def option.map_comp comp_def option.map_ident)

lemma mir_rd [simp]:
  "rd (mir m) a rb_color = rd m a rb_color" "rd (mir m) a rb_key = rd m a rb_key" "rd (mir m) a rb_parent = rd m a rb_parent"
  "rd (mir m) a rb_lchild = rd m a rb_rchild" "rd (mir m) a rb_rchild = rd m a rb_lchild"
  by (simp_all add: rd_def mir_def option.map_comp comp_def)

lemma mir_root [simp]: "rm_root (mir m) = rm_root m"
  by (simp add: mir_def)

lemma mir_fun_upd: "(\<lambda>a. map_option flip (rm_nodes m a))(a \<mapsto> flip n) = (\<lambda>b. map_option flip (((rm_nodes m)(a \<mapsto> n)) b))"
  by auto

lemma mir_wr [simp]:
  "wr (mir m) a (rb_color_update (\<lambda>_. c)) = map_option mir (wr m a (rb_color_update (\<lambda>_. c)))"
  "wr (mir m) a (rb_parent_update (\<lambda>_. p)) = map_option mir (wr m a (rb_parent_update (\<lambda>_. p)))"
  "wr (mir m) a (rb_lchild_update (\<lambda>_. p)) = map_option mir (wr m a (rb_rchild_update (\<lambda>_. p)))"
  "wr (mir m) a (rb_rchild_update (\<lambda>_. p)) = map_option mir (wr m a (rb_lchild_update (\<lambda>_. p)))"
  by (cases "rm_nodes m a"; simp add: wr_def mir_def flip_update mir_fun_upd)+

lemma mir_wr_root [simp]: "wr_root (mir m) t a = map_option mir (wr_root m t a)"
  by (cases "rm_root m t") (simp_all add: wr_root_def mir_def)

lemma bind_map_option [simp]: "map_option f x \<bind> g = x \<bind> (\<lambda>y. g (f y))"
  by (cases x) simp_all

lemma map_option_bind: "map_option f (x \<bind> g) = x \<bind> (\<lambda>y. map_option f (g y))"
  by (cases x) simp_all

lemma if_bind: "(if b then x else y :: _ option) \<bind> g = (if b then x \<bind> g else y \<bind> g)"
  by simp

lemma mir_left_rotate [simp]: "rb_left_rotate (mir m) t p = map_option (\<lambda>(m, r). (mir m, r)) (rb_right_rotate m t p)"
  by (simp add: rb_left_rotate_def rb_right_rotate_def Let_def map_option_bind if_bind if_distrib [of "map_option _"] 
     cong: if_cong Option.bind_cong)

lemmas mir_push = Let_def map_option_bind if_bind if_distrib [of "map_option _"] case_prod_beta

lemma mir_right_rotate [simp]: "rb_right_rotate (mir m) t p = map_option (\<lambda>(m, r). (mir m, r)) (rb_left_rotate m t p)"
  using mir_left_rotate [of "mir m" t p] by (simp add: option.map_comp comp_def case_prod_beta option.map_ident)

lemma mir_insert_fixup_left: "insert_fixup_left (mir m) t p = map_option (\<lambda>(m, r). (mir m, r)) (insert_fixup_right m t p)"
  by (simp add: insert_fixup_left_def insert_fixup_right_def mir_push cong: if_cong Option.bind_cong)

lemma mir_delete_fixup_left: "delete_fixup_left (mir m) t p = map_option (\<lambda>(m, r). (mir m, r)) (delete_fixup_right m t p)"
  by (simp add: delete_fixup_left_def delete_fixup_right_def delete_red_brother_left_def delete_red_brother_right_def
      delete_inner_red_left_def delete_inner_red_right_def delete_outer_red_left_def delete_outer_red_right_def mir_push cong: if_cong Option.bind_cong)

lemma rt_mirror [simp]: "rt nil (mirror s) = rt nil s"
  by (cases s rule: addrs.cases) auto

lemma addrs_mirror [simp]: "addrs (mirror s) = rev (addrs s)"
  by (induction s rule: addrs.induct) auto

lemma color_mirror [simp]: "color (mirror s) = color s"
  by (cases s rule: addrs.cases) auto

lemma tree_at_mir: "tree_at (\<lambda>a. map_option flip (h a)) nil par (mirror s) = tree_at h nil par s"
proof (induction s arbitrary: par rule: addrs.induct)
  case (2 l a c k r)
  have "map_option flip (h a) = Some \<lparr>rb_color = c, rb_key = k, rb_lchild = rt nil r, rb_rchild = rt nil l, rb_parent = par\<rparr> \<longleftrightarrow>
    h a = Some \<lparr>rb_color = c, rb_key = k, rb_lchild = rt nil l, rb_rchild = rt nil r, rb_parent = par\<rparr>"
    by (metis (no_types) flip_fields(6) flip_make map_option_eq_Some)
  then show ?case using 2 by auto
qed simp

fun mframe :: "frame \<Rightarrow> frame" where
  "mframe (Lf a c k r) = Rf (mirror r) a c k"
| "mframe (Rf l a c k) = Lf a c k (mirror l)"

lemma mirror_fill: "mirror (fill ctx s) = fill (map mframe ctx) (mirror s)"
  by (induction ctx s rule: fill.induct) auto

lemma mframe_inv [simp]: "mframe (mframe f) = f"
  by (cases f) auto

lemma rep_mir_imp: "rep m0 t nn T m \<Longrightarrow> rep (mir m0) t (flip nn) (mirror T) (mir m)"
  by (simp add: rep_def tree_at_mir mir_def)

lemma rep_mir: "rep m0 t nn (mirror T) (mir m) \<longleftrightarrow> rep (mir m0) t (flip nn) T m"
  using rep_mir_imp [of m0 t nn "mirror T" "mir m"] rep_mir_imp [of "mir m0" t "flip nn" T m] by auto

lemma right_rotate_rep:
  assumes "rep m0 t nn (fill ctx (Node (Node C (y, cy, ky) B) (x, cx, kx) A)) m"
  shows "\<exists>m'. rb_right_rotate m t x = Some (m', 1) \<and> rep m0 t nn (fill ctx (Node C (y, cy, ky) (Node B (x, cx, kx) A))) m'"
proof -
  have "rep (mir m0) t (flip nn) (fill (map mframe ctx) (Node (mirror A) (x, cx, kx) (Node (mirror B) (y, cy, ky) (mirror C)))) (mir m)"
    using rep_mir_imp [OF assms] by (simp add: mirror_fill)
  then obtain m' where m': "rb_left_rotate (mir m) t x = Some (m', 1)"
    "rep (mir m0) t (flip nn) (fill (map mframe ctx) (Node (Node (mirror A) (x, cx, kx) (mirror B)) (y, cy, ky) (mirror C))) m'"
    using left_rotate_rep by blast
  have "rep m0 t nn (fill ctx (Node C (y, cy, ky) (Node B (x, cx, kx) A))) (mir m')"
    using rep_mir_imp [OF m'(2)] by (simp add: mirror_fill comp_def)
  moreover have "rb_right_rotate m t x = Some (mir m', 1)"
    using m'(1) by auto
  ultimately show ?thesis by blast
qed
end
