(* ===== verification/Rbtree_Inv.thy ===== *)
theory Rbtree_Inv
  imports Rbtree_Mirror
begin

text \<open>
  The invariants of red-black trees, for trees and for contexts, and the content of a tree in the order of its keys.
\<close>

section \<open>Invariants\<close>

fun bheight :: "rbt \<Rightarrow> nat" where
  "bheight Leaf = 0"
| "bheight (Node l (a, c, k) r) = (if c = RB_BLACK then bheight l + 1 else bheight l)"

fun invh :: "rbt \<Rightarrow> bool" where
  "invh Leaf \<longleftrightarrow> True"
| "invh (Node l (a, c, k) r) \<longleftrightarrow> bheight l = bheight r \<and> invh l \<and> invh r"

fun invc :: "rbt \<Rightarrow> bool" where
  "invc Leaf \<longleftrightarrow> True"
| "invc (Node l (a, c, k) r) \<longleftrightarrow> (c = RB_RED \<and> color l = RB_BLACK \<and> color r = RB_BLACK \<or> c = RB_BLACK) \<and> invc l \<and> invc r"

text \<open>The same for a context, whose hole is to be filled with a tree of a given black height and root colour.\<close>

fun cinvh :: "frame list \<Rightarrow> nat \<Rightarrow> bool" where
  "cinvh [] n \<longleftrightarrow> True"
| "cinvh (Lf a c k r # ctx) n \<longleftrightarrow> invh r \<and> bheight r = n \<and> cinvh ctx (if c = RB_BLACK then n + 1 else n)"
| "cinvh (Rf l a c k # ctx) n \<longleftrightarrow> invh l \<and> bheight l = n \<and> cinvh ctx (if c = RB_BLACK then n + 1 else n)"

fun cinvc :: "frame list \<Rightarrow> u8 \<Rightarrow> bool" where
  "cinvc [] col \<longleftrightarrow> col = RB_BLACK"
| "cinvc (Lf a c k r # ctx) col \<longleftrightarrow> (c = RB_RED \<and> col = RB_BLACK \<and> color r = RB_BLACK \<or> c = RB_BLACK) \<and> invc r \<and> cinvc ctx c"
| "cinvc (Rf l a c k # ctx) col \<longleftrightarrow> (c = RB_RED \<and> col = RB_BLACK \<and> color l = RB_BLACK \<or> c = RB_BLACK) \<and> invc l \<and> cinvc ctx c"

lemma invh_fill: "invh (fill ctx s) \<longleftrightarrow> invh s \<and> cinvh ctx (bheight s)"
  by (induction ctx s rule: fill.induct) auto

lemma invc_fill: "invc (fill ctx s) \<and> color (fill ctx s) = RB_BLACK \<longleftrightarrow> invc s \<and> cinvc ctx (color s)"
  by (induction ctx s rule: fill.induct) auto

lemma cinvc_black: "cinvc ctx col \<Longrightarrow> cinvc ctx RB_BLACK"
  by (cases ctx rule: caddrs.cases) auto

lemma color_cases: "invc s \<Longrightarrow> color s = RB_RED \<or> color s = RB_BLACK"
  by (cases s rule: addrs.cases) auto

lemma red_node: "color s = RB_RED \<Longrightarrow> \<exists>l a k r. s = Node l (a, RB_RED, k) r"
  by (cases s rule: addrs.cases) auto

lemma node_of_height: "0 < bheight s \<Longrightarrow> \<exists>l a c k r. s = Node l (a, c, k) r"
  by (cases s rule: addrs.cases) auto

lemma bheight_mirror [simp]: "invh s \<Longrightarrow> bheight (mirror s) = bheight s"
  by (induction s rule: addrs.induct) auto

lemma invh_mirror [simp]: "invh (mirror s) = invh s"
  by (induction s rule: addrs.induct) auto

lemma invc_mirror [simp]: "invc (mirror s) = invc s"
  by (induction s rule: addrs.induct) auto

lemma cinvh_mirror [simp]: "cinvh (map mframe ctx) n = cinvh ctx n"
  by (induction ctx n rule: cinvh.induct) auto

lemma cinvc_mirror [simp]: "cinvc (map mframe ctx) col = cinvc ctx col"
  by (induction ctx col rule: cinvc.induct) auto

text \<open>The content of a tree: its keys in order, with the addresses of their nodes.\<close>

definition entries :: "rbt \<Rightarrow> (int \<times> addr) list" where
  "entries s = map (\<lambda>(a, c, k). (k, a)) (inorder s)"

lemma entries_simps [simp]: "entries Leaf = []" "entries (Node l (a, c, k) r) = entries l @ (k, a) # entries r"
  by (simp_all add: entries_def)

fun before :: "frame list \<Rightarrow> (int \<times> addr) list" where
  "before [] = []"
| "before (Lf a c k r # ctx) = before ctx"
| "before (Rf l a c k # ctx) = before ctx @ entries l @ [(k, a)]"

fun behind :: "frame list \<Rightarrow> (int \<times> addr) list" where
  "behind [] = []"
| "behind (Lf a c k r # ctx) = (k, a) # entries r @ behind ctx"
| "behind (Rf l a c k # ctx) = behind ctx"

lemma entries_fill [simp]: "entries (fill ctx s) = before ctx @ entries s @ behind ctx"
  by (induction ctx s rule: fill.induct) auto

lemma entries_mirror [simp]: "entries (mirror s) = rev (entries s)"
  by (induction s rule: addrs.induct) auto

fun pcolor :: "frame list \<Rightarrow> u8" where
  "pcolor [] = RB_BLACK"
| "pcolor (Lf a c k r # ctx) = c"
| "pcolor (Rf l a c k # ctx) = c"

lemma rep_parent:
  assumes "rep m0 t nn (fill ctx s) m"
  shows "rd m (cp (rb_nil t) ctx) rb_color = Some (pcolor ctx)"
    and "s \<noteq> Leaf \<Longrightarrow> rd m (rt (rb_nil t) s) rb_parent = Some (cp (rb_nil t) ctx)"
proof -
  show "rd m (cp (rb_nil t) ctx) rb_color = Some (pcolor ctx)"
    using assms unfolding rep_fill by (cases ctx rule: caddrs.cases) (auto simp: rd_def)
  show "rd m (rt (rb_nil t) s) rb_parent = Some (cp (rb_nil t) ctx)" if "s \<noteq> Leaf"
    using that assms unfolding rep_fill by (cases s rule: addrs.cases) (auto simp: rd_def)
qed

lemma fill_nonempty: "s \<noteq> Leaf \<Longrightarrow> fill ctx s \<noteq> Leaf"
  by (induction ctx s rule: fill.induct) auto

lemma before_append: "before (c1 @ c2) = before c2 @ before c1" "behind (c1 @ c2) = behind c1 @ behind c2"
  by (induction c1 rule: before.induct) auto

text \<open>The content of a tree is sorted by its keys.\<close>

definition sorted_keys :: "(int \<times> addr) list \<Rightarrow> bool" where
  "sorted_keys xs \<longleftrightarrow> sorted_wrt (<) (map fst xs)"

text \<open>A tree in the heap with everything that makes it a red-black tree.\<close>

definition rb_ok :: "rb_tree \<Rightarrow> addr \<Rightarrow> rbt \<Rightarrow> rb_tree \<Rightarrow> bool" where
  "rb_ok m0 t T m \<longleftrightarrow> (\<exists>nn. rep m0 t nn T m) \<and> invc T \<and> invh T \<and> color T = RB_BLACK \<and> sorted_keys (entries T)"

lemma addrs_entries: "addrs s = map snd (entries s)"
  by (induction s rule: addrs.induct) auto

lemma sorted_keys_map: "sorted_keys xs \<Longrightarrow> (k, a) \<in> set xs \<Longrightarrow> map_of xs k = Some a"
  unfolding sorted_keys_def strict_sorted_iff by (auto intro: map_of_is_SomeI)

section \<open>Searching\<close>

lemma search_loop_found:
  assumes "rep m0 t nn (fill ctx s) m" and "sorted_keys (entries s)"
  shows "search_loop m (rb_nil t) key (rt (rb_nil t) s) = Some (case map_of (entries s) key of None \<Rightarrow> rb_nil t | Some a \<Rightarrow> a)"
  using assms
proof (induction s arbitrary: ctx rule: addrs.induct)
  case 1
  show ?case by (simp add: search_loop_eq)
next
  case (2 l a c k r)
  let ?n = "rb_nil t"
  have a: "a \<noteq> ?n" "rm_nodes m a = Some \<lparr>rb_color = c, rb_key = k, rb_lchild = rt ?n l, rb_rchild = rt ?n r, rb_parent = cp ?n ctx\<rparr>"
    using 2(3) rep_node [OF 2(3)] unfolding rep_fill by auto
  have srt: "sorted_keys (entries l)" "sorted_keys (entries r)" "\<forall>x\<in>fst ` set (entries l). x < k" "\<forall>x\<in>fst ` set (entries r). k < x"
    using 2(4) by (auto simp: sorted_keys_def sorted_wrt_append)
  have e: "search_loop m ?n key (rt ?n (Node l (a, c, k) r)) =
    (if k = key then Some a else if key < k then search_loop m ?n key (rt ?n l) else search_loop m ?n key (rt ?n r))"
    using a by (simp add: search_loop_eq [of m ?n key a])
  have r: "rep m0 t nn (fill (Lf a c k r # ctx) l) m" "rep m0 t nn (fill (Rf l a c k # ctx) r) m" using 2(3) by simp_all
  have n: "map_of (entries r) key = None" if "key \<le> k" using srt(4) that by (force simp: map_of_eq_None_iff)
  have n': "map_of (entries l) key = None" if "k \<le> key" using srt(3) that by (force simp: map_of_eq_None_iff)
  consider (lt) "key < k" | (gt) "k < key" | (eq) "key = k" by linarith
  then show ?case
  proof cases
    case lt
    then show ?thesis using e 2(1) [OF r(1) srt(1)] n by (simp add: map_add_def split: option.splits)
  next
    case gt
    then show ?thesis using e 2(2) [OF r(2) srt(2)] n' by (simp add: map_add_def split: option.splits)
  next
    case eq
    then show ?thesis using e n n' by (simp add: map_add_def split: option.splits)
  qed
qed

lemma search_rep:
  assumes "rb_ok m0 t T m"
  shows "rb_search m t key = Some (case map_of (entries T) key of None \<Rightarrow> NULL | Some a \<Rightarrow> a)"
proof -
  obtain nn where r: "rep m0 t nn T m" and s: "sorted_keys (entries T)" using assms unfolding rb_ok_def by blast
  have "a \<noteq> rb_nil t" if "map_of (entries T) key = Some a" for a
  proof -
    have "a \<in> set (addrs T)" using map_of_SomeD [OF that] unfolding addrs_entries by force
    then show ?thesis using r by (auto simp: rep_def)
  qed
  moreover have "t \<noteq> NULL" "rm_root m t = Some (rt (rb_nil t) T)" using r by (simp_all add: rep_def)
  ultimately show ?thesis using search_loop_found [of m0 t nn "[]" T m key] r s
    by (simp add: rb_search_def split: option.splits)
qed

end
