(* ===== verification/Rbtree_Insert.thy ===== *)
theory Rbtree_Insert
  imports Rbtree_Inv
begin

text \<open>Inserting a node: the repair restores the invariants and the content gains exactly the new node.\<close>

section \<open>The repair after an insertion\<close>

text \<open>The bad node is red and may have a red parent; everything else is in order.\<close>

definition ins_inv :: "frame list \<Rightarrow> rbt \<Rightarrow> bool" where
  "ins_inv ctx s \<longleftrightarrow> color s = RB_RED \<and> invc s \<and> invh s \<and> cinvc ctx RB_BLACK \<and> cinvh ctx (bheight s)"

definition ins_step :: "rb_tree \<Rightarrow> addr \<Rightarrow> rb_node \<Rightarrow> frame list \<Rightarrow> rbt \<Rightarrow> (rb_tree \<times> addr) option \<Rightarrow> bool" where
  "ins_step m0 t nn ctx s r \<longleftrightarrow> (\<exists>m' ctx' s'. r = Some (m', rt (rb_nil t) s') \<and> rep m0 t nn (fill ctx' s') m' \<and> ins_inv ctx' s' \<and>
     length ctx' < length ctx \<and> entries (fill ctx' s') = entries (fill ctx s))"

lemma insert_uncle_red:
  assumes r: "rep m0 t nn (fill ctx (Node (Node pl (p, RB_RED, kp) pr) (g, RB_BLACK, kg) (Node ul (u, RB_RED, ku) ur))) m"
    and "rd m bad rb_parent = Some p"
  shows "\<exists>m'. insert_fixup_left m t bad = Some (m', g) \<and>
    rep m0 t nn (fill ctx (Node (Node pl (p, RB_BLACK, kp) pr) (g, RB_RED, kg) (Node ul (u, RB_BLACK, ku) ur))) m'"
proof -
  let ?U = "\<lambda>c. Node ul (u, c, ku) ur" let ?P = "\<lambda>c. Node pl (p, c, kp) pr"
  obtain m1 where m1: "wr m p (rb_color_update (\<lambda>_. RB_BLACK)) = Some m1" "rep m0 t nn (fill ctx (Node (?P RB_BLACK) (g, RB_BLACK, kg) (?U RB_RED))) m1"
    using rep_paint [of m0 t nn "Lf g RB_BLACK kg (?U RB_RED) # ctx" pl p RB_RED kp pr m RB_BLACK] r by auto
  obtain m2 where m2: "wr m1 u (rb_color_update (\<lambda>_. RB_BLACK)) = Some m2" "rep m0 t nn (fill ctx (Node (?P RB_BLACK) (g, RB_BLACK, kg) (?U RB_BLACK))) m2"
    using rep_paint [of m0 t nn "Rf (?P RB_BLACK) g RB_BLACK kg # ctx" ul u RB_RED ku ur m1 RB_BLACK] m1(2) by auto
  obtain m3 where m3: "wr m2 g (rb_color_update (\<lambda>_. RB_RED)) = Some m3" "rep m0 t nn (fill ctx (Node (?P RB_BLACK) (g, RB_RED, kg) (?U RB_BLACK))) m3"
    using rep_paint [OF m2(2), of RB_RED] by auto
  have "rd m p rb_parent = Some g" using rep_rd(5) [of m0 t nn "Lf g RB_BLACK kg (?U RB_RED) # ctx"] r by simp
  moreover have "rd m u rb_color = Some RB_RED" using rep_rd(1) [of m0 t nn "Rf (?P RB_RED) g RB_BLACK kg # ctx"] r by simp
  ultimately have "insert_fixup_left m t bad = Some (m3, g)"
    using rep_rd [OF r] assms(2) m1 m2 m3 by (simp add: insert_fixup_left_def)
  then show ?thesis using m3(2) by blast
qed


text \<open>The uncle is black and the bad node is an outer grandchild.\<close>

lemma insert_rotate_right:
  assumes r: "rep m0 t nn (fill ctx (Node (Node (Node l (a, RB_RED, k) r) (p, RB_RED, kp) v) (g, RB_BLACK, kg) u)) m"
  shows "\<exists>m2 m3 m4. wr m p (rb_color_update (\<lambda>_. RB_BLACK)) = Some m2 \<and> rd m2 p rb_parent = Some g \<and> wr m2 g (rb_color_update (\<lambda>_. RB_RED)) = Some m3 \<and>
    rb_right_rotate m3 t g = Some (m4, 1) \<and>
    rep m0 t nn (fill ctx (Node (Node l (a, RB_RED, k) r) (p, RB_BLACK, kp) (Node v (g, RB_RED, kg) u))) m4"
proof -
  let ?s = "Node l (a, RB_RED, k) r"
  obtain m2 where m2: "wr m p (rb_color_update (\<lambda>_. RB_BLACK)) = Some m2" "rep m0 t nn (fill ctx (Node (Node ?s (p, RB_BLACK, kp) v) (g, RB_BLACK, kg) u)) m2"
    using rep_paint [of m0 t nn "Lf g RB_BLACK kg u # ctx" ?s p RB_RED kp v m RB_BLACK] r by auto
  have "rd m2 p rb_parent = Some g" using rep_rd(5) [of m0 t nn "Lf g RB_BLACK kg u # ctx"] m2(2) by simp
  moreover obtain m3 where "wr m2 g (rb_color_update (\<lambda>_. RB_RED)) = Some m3" "rep m0 t nn (fill ctx (Node (Node ?s (p, RB_BLACK, kp) v) (g, RB_RED, kg) u)) m3"
    using rep_paint [OF m2(2), of RB_RED] by auto
  ultimately show ?thesis using m2(1) right_rotate_rep by blast
qed

lemma insert_left_step:
  assumes r: "rep m0 t nn (fill (f # Lf g RB_BLACK kg u # ctx) s) m" and i: "ins_inv (f # Lf g RB_BLACK kg u # ctx) s"
    and f: "f = Lf p RB_RED kp v \<or> f = Rf v p RB_RED kp"
  shows "ins_step m0 t nn (f # Lf g RB_BLACK kg u # ctx) s (insert_fixup_left m t (rt (rb_nil t) s))"
proof -
  let ?n = "rb_nil t"
  obtain l a k rr where s: "s = Node l (a, RB_RED, k) rr" using i red_node [of s] by (auto simp: ins_inv_def)
  have col: "color l = RB_BLACK" "color rr = RB_BLACK" "invc l" "invc rr" "invh l" "invh rr" "bheight rr = bheight l" "color v = RB_BLACK" "invc v" "invh v"
    "bheight v = bheight l" "invc u" "invh u" "bheight u = bheight l" "cinvc ctx RB_BLACK" "cinvh ctx (bheight l + 1)"
    using i f s by (auto simp: ins_inv_def)
  let ?P = "\<lambda>c. if f = Lf p RB_RED kp v then Node s (p, c, kp) v else Node v (p, c, kp) s"
  have F: "fill (f # Lf g RB_BLACK kg u # ctx) s = fill ctx (Node (?P RB_RED) (g, RB_BLACK, kg) u)" using f by auto
  have r2: "rep m0 t nn (fill ctx (Node (?P RB_RED) (g, RB_BLACK, kg) u)) m" using r unfolding F .
  have ra: "rt ?n s = a" by (simp add: s)
  have rp: "rd m a rb_parent = Some p" "rd m p rb_parent = Some g" "rd m g rb_rchild = Some (rt ?n u)"
    using rep_rd(5) [OF r [unfolded s]] rep_rd(5) [of m0 t nn "Lf g RB_BLACK kg u # ctx"] f r
      rep_rd(4) [of m0 t nn ctx _ g RB_BLACK kg u m] by auto
  have uc: "rd m (rt ?n u) rb_color = Some (color u)"
    using rep_color [of m0 t nn "Rf (?P RB_RED) g RB_BLACK kg # ctx" u m] r unfolding F by simp
  show ?thesis
  proof (cases "color u = RB_RED")
    case True
    then obtain ul ua uk ur where u: "u = Node ul (ua, RB_RED, uk) ur" using red_node by blast
    obtain pl pr where P: "\<And>c. ?P c = Node pl (p, c, kp) pr" by (cases "f = Lf p RB_RED kp v") auto
    from insert_uncle_red [OF r2 [unfolded P u] rp(1)] obtain m' where m': "insert_fixup_left m t a = Some (m', g)"
      "rep m0 t nn (fill ctx (Node (?P RB_BLACK) (g, RB_RED, kg) (Node ul (ua, RB_BLACK, uk) ur))) m'" unfolding P by auto
    have "ins_inv ctx (Node (?P RB_BLACK) (g, RB_RED, kg) (Node ul (ua, RB_BLACK, uk) ur))"
      using col f unfolding ins_inv_def s u by auto
    moreover have "entries (fill ctx (Node (?P RB_BLACK) (g, RB_RED, kg) (Node ul (ua, RB_BLACK, uk) ur))) = entries (fill (f # Lf g RB_BLACK kg u # ctx) s)"
      using f by (auto simp: u)
    ultimately show ?thesis using m' unfolding ins_step_def ra by (intro exI [of _ m'] exI [of _ ctx] exI) auto
  next
    case False
    then have u: "color u = RB_BLACK" "color u \<noteq> RB_RED" using col color_cases by auto
    from f show ?thesis
    proof
      assume f: "f = Lf p RB_RED kp v"
      have "rt ?n v \<noteq> a" using r rt_in [of ?n v] unfolding rep_fill f s by auto
      moreover have "rd m p rb_rchild = Some (rt ?n v)" using rep_rd(4) [of m0 t nn "Lf g RB_BLACK kg u # ctx"] r f by simp
      moreover obtain m2 m3 m4 where m: "wr m p (rb_color_update (\<lambda>_. RB_BLACK)) = Some m2" "rd m2 p rb_parent = Some g"
        "wr m2 g (rb_color_update (\<lambda>_. RB_RED)) = Some m3" "rb_right_rotate m3 t g = Some (m4, 1)"
        "rep m0 t nn (fill ctx (Node s (p, RB_BLACK, kp) (Node v (g, RB_RED, kg) u))) m4"
        using insert_rotate_right [of m0 t nn ctx l a k rr p kp v g kg u m] r f unfolding s by auto
      ultimately have "insert_fixup_left m t a = Some (m4, a)" using rp uc u by (auto simp: insert_fixup_left_def)
      moreover have "ins_inv (Lf p RB_BLACK kp (Node v (g, RB_RED, kg) u) # ctx) s"
        using col u unfolding ins_inv_def s by simp
      ultimately show ?thesis using m(5) unfolding ins_step_def ra
        by (intro exI [of _ m4] exI [of _ "Lf p RB_BLACK kp (Node v (g, RB_RED, kg) u) # ctx"] exI [of _ s]) (simp add: f ra)
    next
      assume f: "f = Rf v p RB_RED kp"
      have "rd m p rb_rchild = Some a" using rep_rd(4) [of m0 t nn "Lf g RB_BLACK kg u # ctx" v p RB_RED kp s] r f ra by simp
      moreover obtain m1 where m1: "rb_left_rotate m t p = Some (m1, 1)" "rep m0 t nn (fill ctx (Node (Node (Node v (p, RB_RED, kp) l) (a, RB_RED, k) rr) (g, RB_BLACK, kg) u)) m1"
        using left_rotate_rep [of m0 t nn "Lf g RB_BLACK kg u # ctx" v p RB_RED kp l a RB_RED k rr m] r f unfolding s by auto
      moreover have "rd m1 p rb_parent = Some a" using rep_rd(5) [of m0 t nn "Lf a RB_RED k rr # Lf g RB_BLACK kg u # ctx"] m1(2) by simp
      moreover obtain m2 m3 m4 where m: "wr m1 a (rb_color_update (\<lambda>_. RB_BLACK)) = Some m2" "rd m2 a rb_parent = Some g"
        "wr m2 g (rb_color_update (\<lambda>_. RB_RED)) = Some m3" "rb_right_rotate m3 t g = Some (m4, 1)"
        "rep m0 t nn (fill ctx (Node (Node v (p, RB_RED, kp) l) (a, RB_BLACK, k) (Node rr (g, RB_RED, kg) u))) m4"
        using insert_rotate_right [OF m1(2)] by auto
      ultimately have "insert_fixup_left m t a = Some (m4, p)" using rp uc u by (auto simp: insert_fixup_left_def)
      moreover have "ins_inv (Lf a RB_BLACK k (Node rr (g, RB_RED, kg) u) # ctx) (Node v (p, RB_RED, kp) l)"
        using col u unfolding ins_inv_def by simp
      ultimately show ?thesis using m(5) unfolding ins_step_def ra
        by (intro exI [of _ m4] exI [of _ "Lf a RB_BLACK k (Node rr (g, RB_RED, kg) u) # ctx"] exI [of _ "Node v (p, RB_RED, kp) l"]) (simp add: f s)
    qed
  qed
qed
lemma ins_inv_mir: "ins_inv (map mframe ctx) (mirror s) = ins_inv ctx s"
  by (auto simp: ins_inv_def)

lemma ins_step_mir:
  assumes "ins_step (mir m0) t (flip nn) (map mframe ctx) (mirror s) (map_option (\<lambda>(m, r). (mir m, r)) x)"
  shows "ins_step m0 t nn ctx s x"
proof -
  obtain m' ctx' s' where x: "map_option (\<lambda>(m, r). (mir m, r)) x = Some (m', rt (rb_nil t) s')"
    and r: "rep (mir m0) t (flip nn) (fill ctx' s') m'" and i: "ins_inv ctx' s'" and l: "length ctx' < length ctx"
    and e: "entries (fill ctx' s') = entries (fill (map mframe ctx) (mirror s))"
    using assms unfolding ins_step_def by auto
  have "rep m0 t nn (fill (map mframe ctx') (mirror s')) (mir m')"
    using rep_mir_imp [OF r] by (simp add: mirror_fill)
  moreover have "entries (fill (map mframe ctx') (mirror s')) = entries (fill ctx s)"
    using e unfolding mirror_fill [symmetric] entries_mirror by simp
  moreover have "x = Some (mir m', rt (rb_nil t) (mirror s'))" using x by auto
  ultimately show ?thesis unfolding ins_step_def using i l
    by (intro exI [of _ "mir m'"] exI [of _ "map mframe ctx'"] exI [of _ "mirror s'"]) (simp add: ins_inv_mir)
qed

lemma insert_right_step:
  assumes r: "rep m0 t nn (fill (f # Rf u g RB_BLACK kg # ctx) s) m" and i: "ins_inv (f # Rf u g RB_BLACK kg # ctx) s"
    and f: "f = Lf p RB_RED kp v \<or> f = Rf v p RB_RED kp"
  shows "ins_step m0 t nn (f # Rf u g RB_BLACK kg # ctx) s (insert_fixup_right m t (rt (rb_nil t) s))"
proof (rule ins_step_mir)
  let ?c = "mframe f # Lf g RB_BLACK kg (mirror u) # map mframe ctx"
  have "ins_step (mir m0) t (flip nn) ?c (mirror s) (insert_fixup_left (mir m) t (rt (rb_nil t) (mirror s)))"
  proof (rule insert_left_step)
    show "rep (mir m0) t (flip nn) (fill ?c (mirror s)) (mir m)" using rep_mir_imp [OF r] by (simp add: mirror_fill)
    show "ins_inv ?c (mirror s)" using i ins_inv_mir [of "f # Rf u g RB_BLACK kg # ctx" s] by simp
    show "mframe f = Lf p RB_RED kp (mirror v) \<or> mframe f = Rf (mirror v) p RB_RED kp" using f by auto
  qed
  then show "ins_step (mir m0) t (flip nn) (map mframe (f # Rf u g RB_BLACK kg # ctx)) (mirror s)
     (map_option (\<lambda>(m, r). (mir m, r)) (insert_fixup_right m t (rt (rb_nil t) s)))"
    by (simp add: mir_insert_fixup_left)
qed

lemma insert_loop:
  assumes "rep m0 t nn (fill ctx s) m" and "ins_inv ctx s"
  shows "\<exists>m' ctx' s'. insert_fixup_loop m t (rt (rb_nil t) s) = Some m' \<and> rep m0 t nn (fill ctx' s') m' \<and> ins_inv ctx' s' \<and>
    pcolor ctx' \<noteq> RB_RED \<and> entries (fill ctx' s') = entries (fill ctx s)"
  using assms
proof (induction "length ctx" arbitrary: ctx s m rule: less_induct)
  case less
  let ?n = "rb_nil t"
  have "s \<noteq> Leaf" using less.prems(2) by (auto simp: ins_inv_def)
  note rp = rep_parent(1) [OF less.prems(1)] rep_parent(2) [OF less.prems(1) \<open>s \<noteq> Leaf\<close>]
  show ?case
  proof (cases "pcolor ctx = RB_RED")
    case False
    then have "insert_fixup_loop m t (rt ?n s) = Some m" using rp by (subst insert_fixup_loop.simps) simp
    then show ?thesis using less.prems False by blast
  next
    case True
    then obtain f ctx1 where ctx: "ctx = f # ctx1" by (cases ctx) auto
    have "pcolor ctx1 = RB_BLACK \<and> ctx1 \<noteq> []"
      using less.prems(2) True unfolding ctx ins_inv_def by (cases f; cases ctx1 rule: caddrs.cases) auto
    then obtain g u kg ctx2 where ctx1: "ctx1 = Lf g RB_BLACK kg u # ctx2 \<or> ctx1 = Rf u g RB_BLACK kg # ctx2"
      by (cases ctx1 rule: caddrs.cases) auto
    obtain p kp v where f: "f = Lf p RB_RED kp v \<or> f = Rf v p RB_RED kp" using True ctx by (cases f) auto
    have p: "cp ?n ctx = p" "cp ?n ctx1 = g" using f ctx ctx1 by auto
    have P: "rep m0 t nn (fill ctx1 (fill [f] s)) m" "fill [f] s \<noteq> Leaf" "rt ?n (fill [f] s) = p"
      using less.prems(1) f unfolding ctx by auto
    have g: "rd m p rb_parent = Some g" using rep_parent(2) [OF P(1,2)] P(3) p by simp
    define r where "r = (if \<exists>c. ctx1 = Lf g RB_BLACK kg u # c then insert_fixup_left m t (rt ?n s) else insert_fixup_right m t (rt ?n s))"
    have "ins_step m0 t nn ctx s r"
      using ctx1
    proof
      assume c: "ctx1 = Lf g RB_BLACK kg u # ctx2"
      show ?thesis using insert_left_step [of m0 t nn f g kg u ctx2 s m p kp v] less.prems f unfolding r_def ctx c by simp
    next
      assume c: "ctx1 = Rf u g RB_BLACK kg # ctx2"
      show ?thesis using insert_right_step [of m0 t nn f u g kg ctx2 s m p kp v] less.prems f unfolding r_def ctx c by simp
    qed
    then obtain m' ctx' s' where st: "r = Some (m', rt ?n s')" "rep m0 t nn (fill ctx' s') m'" "ins_inv ctx' s'"
      "length ctx' < length ctx" "entries (fill ctx' s') = entries (fill ctx s)" unfolding ins_step_def by blast
    obtain l where l: "rd m g rb_lchild = Some l" "p = l \<longleftrightarrow> (\<exists>c. ctx1 = Lf g RB_BLACK kg u # c)"
      using ctx1
    proof
      assume c: "ctx1 = Lf g RB_BLACK kg u # ctx2"
      show ?thesis using rep_child(1) [OF P(1) c] P(3) c that by auto
    next
      assume c: "ctx1 = Rf u g RB_BLACK kg # ctx2"
      show ?thesis using rep_child(2) [OF P(1) c] rep_siblings [OF P(1) [unfolded c] P(2)] P(3) c that by auto
    qed
    have "insert_fixup_loop m t (rt ?n s) = insert_fixup_loop m' t (rt ?n s')"
      by (subst insert_fixup_loop.simps) (use rp p g l st(1) True in \<open>simp add: r_def\<close>)
    then show ?thesis using less.hyps [OF st(4,2,3)] st(5) by auto
  qed
qed

lemma fixup_rep:
  assumes "rep m0 t nn (fill ctx s) m" and "ins_inv ctx s"
  shows "\<exists>m' T'. rb_insert_fixup m t (rt (rb_nil t) s) = Some (m', 1) \<and> rep m0 t nn T' m' \<and> invc T' \<and> invh T' \<and> color T' = RB_BLACK \<and>
    entries T' = entries (fill ctx s)"
proof -
  obtain m1 ctx' s' where l: "insert_fixup_loop m t (rt (rb_nil t) s) = Some m1" "rep m0 t nn (fill ctx' s') m1" "ins_inv ctx' s'"
    "pcolor ctx' \<noteq> RB_RED" "entries (fill ctx' s') = entries (fill ctx s)" using insert_loop [OF assms] by blast
  have ne: "fill ctx' s' \<noteq> Leaf" using l(3) by (cases s') (auto simp: ins_inv_def fill_nonempty)
  then obtain lt a c k rt' where T: "fill ctx' s' = Node lt (a, c, k) rt'" by (cases "fill ctx' s'" rule: addrs.cases) auto
  have inv: "invc (fill ctx' s') \<and> invh (fill ctx' s') \<and> (c = RB_RED \<or> c = RB_BLACK)"
  proof (cases "ctx' = []")
    case True
    then show ?thesis using l(3) T by (auto simp: ins_inv_def)
  next
    case False
    then have "cinvc ctx' RB_RED" using l(3,4) by (cases ctx' rule: caddrs.cases) (auto simp: ins_inv_def)
    then have "invc (fill ctx' s') \<and> color (fill ctx' s') = RB_BLACK" using l(3) unfolding invc_fill by (simp add: ins_inv_def)
    moreover have "invh (fill ctx' s')" using l(3) unfolding invh_fill by (simp add: ins_inv_def)
    ultimately show ?thesis using T by simp
  qed
  then have inv': "invc (Node lt (a, RB_BLACK, k) rt')" "invh (Node lt (a, RB_BLACK, k) rt')" unfolding T by auto
  obtain m2 where m2: "wr m1 a (rb_color_update (\<lambda>_. RB_BLACK)) = Some m2" "rep m0 t nn (Node lt (a, RB_BLACK, k) rt') m2"
    using rep_paint [of m0 t nn "[]" lt a c k rt' m1 RB_BLACK] l(2) T by auto
  have a: "rm_root m1 t = Some a" using l(2) unfolding T rep_def by simp
  have s: "s \<noteq> Leaf" using assms(2) by (auto simp: ins_inv_def)
  then have "t \<noteq> NULL" "rt (rb_nil t) s \<noteq> NULL" using assms(1) unfolding rep_fill by (cases s rule: addrs.cases; auto)+
  then have "rb_insert_fixup m t (rt (rb_nil t) s) = Some (m2, 1)" using l(1) a m2(1) by (simp add: rb_insert_fixup_def)
  moreover have "entries (Node lt (a, RB_BLACK, k) rt') = entries (fill ctx s)" using l(5) unfolding T by simp
  ultimately show ?thesis using m2(2) inv' by (intro exI [of _ m2] exI [of _ "Node lt (a, RB_BLACK, k) rt'"]) simp
qed

section \<open>The place of a new key\<close>

lemma insert_place_found:
  assumes "rep m0 t nn (fill ctx s) m" and "sorted_keys (entries s)"
  shows "if key \<in> fst ` set (entries s) then insert_place m (rb_nil t) key (cp (rb_nil t) ctx) (rt (rb_nil t) s) = Some (Inl ())
    else \<exists>ctx'. insert_place m (rb_nil t) key (cp (rb_nil t) ctx) (rt (rb_nil t) s) = Some (Inr (cp (rb_nil t) (ctx' @ ctx))) \<and>
      fill ctx' Leaf = s \<and> (\<forall>(k, a)\<in>set (before ctx'). k < key) \<and> (\<forall>(k, a)\<in>set (behind ctx'). key < k)"
  using assms
proof (induction s arbitrary: ctx rule: addrs.induct)
  case 1
  show ?case by (auto simp: insert_place.simps intro!: exI [of _ "[]"])
next
  case (2 l a c k r)
  let ?n = "rb_nil t"
  have a: "a \<noteq> ?n" "rm_nodes m a = Some \<lparr>rb_color = c, rb_key = k, rb_lchild = rt ?n l, rb_rchild = rt ?n r, rb_parent = cp ?n ctx\<rparr>"
    using 2(3) rep_node [OF 2(3)] unfolding rep_fill by auto
  have srt: "sorted_keys (entries l)" "sorted_keys (entries r)" "\<forall>x\<in>fst ` set (entries l). x < k" "\<forall>x\<in>fst ` set (entries r). k < x"
    using 2(4) by (auto simp: sorted_keys_def sorted_wrt_append)
  have e: "insert_place m ?n key (cp ?n ctx) (rt ?n (Node l (a, c, k) r)) =
    (if key < k then insert_place m ?n key a (rt ?n l) else if k < key then insert_place m ?n key a (rt ?n r) else Some (Inl ()))"
    using a by (simp add: insert_place.simps [of m ?n key "cp ?n ctx" a])
  consider (lt) "key < k" | (gt) "k < key" | (eq) "key = k" by linarith
  then show ?case
  proof cases
    case lt
    then have m: "key \<in> fst ` set (entries (Node l (a, c, k) r)) \<longleftrightarrow> key \<in> fst ` set (entries l)" using srt by force
    have "rep m0 t nn (fill (Lf a c k r # ctx) l) m" using 2(3) by simp
    note ih = 2(1) [OF this srt(1)]
    show ?thesis
    proof (cases "key \<in> fst ` set (entries l)")
      case True
      then show ?thesis using ih m lt e by simp
    next
      case False
      with ih obtain c' where c': "insert_place m ?n key a (rt ?n l) = Some (Inr (cp ?n (c' @ Lf a c k r # ctx)))" "fill c' Leaf = l"
        "\<forall>(k, a)\<in>set (before c'). k < key" "\<forall>(k, a)\<in>set (behind c'). key < k" by auto
      have "\<forall>(k, a)\<in>set (behind (c' @ [Lf a c k r])). key < k" using c'(4) lt srt(4) by (fastforce simp: before_append)
      then show ?thesis using False m lt e c' by (auto simp: fill_append before_append intro!: exI [of _ "c' @ [Lf a c k r]"])
    qed
  next
    case gt
    then have m: "key \<in> fst ` set (entries (Node l (a, c, k) r)) \<longleftrightarrow> key \<in> fst ` set (entries r)" using srt by force
    have "rep m0 t nn (fill (Rf l a c k # ctx) r) m" using 2(3) by simp
    note ih = 2(2) [OF this srt(2)]
    show ?thesis
    proof (cases "key \<in> fst ` set (entries r)")
      case True
      then show ?thesis using ih m gt e by simp
    next
      case False
      with ih obtain c' where c': "insert_place m ?n key a (rt ?n r) = Some (Inr (cp ?n (c' @ Rf l a c k # ctx)))" "fill c' Leaf = r"
        "\<forall>(k, a)\<in>set (before c'). k < key" "\<forall>(k, a)\<in>set (behind c'). key < k" by auto
      have "\<forall>(k, a)\<in>set (before (c' @ [Rf l a c k])). k < key" using c'(3) gt srt(3) by (fastforce simp: before_append)
      then show ?thesis using False m gt e c' by (auto simp: fill_append before_append intro!: exI [of _ "c' @ [Rf l a c k]"])
    qed
  next
    case eq
    then show ?thesis using e by simp
  qed
qed

section \<open>Insertion\<close>

text \<open>The assignments that hang the new node into the tree.\<close>

lemma hang_node:
  assumes "rep m0 t nn (fill ctx Leaf) m" and "a \<noteq> NULL" and "a \<noteq> rb_nil t" and "a \<notin> set (caddrs ctx)" and "rm_nodes m a = Some n"
    and "\<forall>(k, a)\<in>set (before ctx). k < rb_key n" and "\<forall>(k, a)\<in>set (behind ctx). rb_key n < k"
  shows "\<exists>m1 m2 m3 m4 m5. wr m a (rb_parent_update (\<lambda>_. cp (rb_nil t) ctx)) = Some m1 \<and>
     (if cp (rb_nil t) ctx = rb_nil t then wr_root m1 t a
      else do {
        k \<leftarrow> rd m1 (cp (rb_nil t) ctx) rb_key;
        if rb_key n < k then wr m1 (cp (rb_nil t) ctx) (rb_lchild_update (\<lambda>_. a)) else wr m1 (cp (rb_nil t) ctx) (rb_rchild_update (\<lambda>_. a))
      }) = Some m2 \<and>
     wr m2 a (rb_rchild_update (\<lambda>_. rb_nil t)) = Some m3 \<and> wr m3 a (rb_lchild_update (\<lambda>_. rb_nil t)) = Some m4 \<and>
     wr m4 a (rb_color_update (\<lambda>_. RB_RED)) = Some m5 \<and> rep m0 t nn (fill ctx (Node Leaf (a, RB_RED, rb_key n) Leaf)) m5"
proof (cases ctx rule: caddrs.cases)
  case 1
  then show ?thesis using assms unfolding rep_fill by (clarsimp simp: heap_steps)
next
  case (2 p c k r ctx')
  then show ?thesis using assms unfolding rep_fill by (clarsimp simp: heap_steps)
next
  case (3 l p c k ctx')
  then show ?thesis using assms unfolding rep_fill by (clarsimp simp: heap_steps)
qed

lemma insert_rep:
  assumes ok: "rb_ok m0 t T m" and a: "a \<noteq> NULL" "a \<noteq> rb_nil t" "a \<notin> set (addrs T)" and n: "rm_nodes m a = Some n"
  shows "if rb_key n \<in> fst ` set (entries T) then rb_insert m t a = Some (m, - 1)
    else \<exists>m' T'. rb_insert m t a = Some (m', 1) \<and> rb_ok m0 t T' m' \<and> set (entries T') = insert (rb_key n, a) (set (entries T))"
proof -
  let ?n = "rb_nil t" let ?k = "rb_key n"
  obtain nn where r: "rep m0 t nn T m" and i: "invc T" "invh T" "color T = RB_BLACK" and s: "sorted_keys (entries T)" using ok unfolding rb_ok_def by blast
  have t: "t \<noteq> NULL" "rm_root m t = Some (rt ?n T)" using r unfolding rep_def by auto
  note pl = insert_place_found [of m0 t nn "[]" T m ?k, simplified, OF r s]
  show ?thesis
  proof (cases "?k \<in> fst ` set (entries T)")
    case True
    then show ?thesis using pl t a n by (simp add: rb_insert_def rd_def)
  next
    case False
    with pl obtain ctx where c: "insert_place m ?n ?k ?n (rt ?n T) = Some (Inr (cp ?n ctx))" "fill ctx Leaf = T"
      "\<forall>(k, a)\<in>set (before ctx). k < ?k" "\<forall>(k, a)\<in>set (behind ctx). ?k < k" by auto
    have "rep m0 t nn (fill ctx Leaf) m" "a \<notin> set (caddrs ctx)" using r a(3) c(2) set_fill [of ctx Leaf] by auto
    from hang_node [OF this(1) a(1,2) this(2) n c(3,4)] obtain m1 m2 m3 m4 m5 where
      m: "wr m a (rb_parent_update (\<lambda>_. cp ?n ctx)) = Some m1"
       "(if cp ?n ctx = ?n then wr_root m1 t a
         else do {
           k \<leftarrow> rd m1 (cp ?n ctx) rb_key;
           if ?k < k then wr m1 (cp ?n ctx) (rb_lchild_update (\<lambda>_. a)) else wr m1 (cp ?n ctx) (rb_rchild_update (\<lambda>_. a))
         }) = Some m2"
       "wr m2 a (rb_rchild_update (\<lambda>_. ?n)) = Some m3" "wr m3 a (rb_lchild_update (\<lambda>_. ?n)) = Some m4"
       "wr m4 a (rb_color_update (\<lambda>_. RB_RED)) = Some m5" "rep m0 t nn (fill ctx (Node Leaf (a, RB_RED, ?k) Leaf)) m5" by blast
    have "invc (fill ctx Leaf) \<and> color (fill ctx Leaf) = RB_BLACK" "invh (fill ctx Leaf)" using i c(2) by auto
    then have "ins_inv ctx (Node Leaf (a, RB_RED, ?k) Leaf)" unfolding invc_fill invh_fill by (simp add: ins_inv_def)
    from fixup_rep [OF m(6) this] obtain m' T' where f: "rb_insert_fixup m5 t a = Some (m', 1)" "rep m0 t nn T' m'" "invc T'" "invh T'"
      "color T' = RB_BLACK" "entries T' = before ctx @ (?k, a) # behind ctx" by auto
    have e: "entries T = before ctx @ behind ctx" using c(2) entries_fill [of ctx Leaf] by simp
    have "sorted_keys (entries T')" using s c(3,4) unfolding e f(6) by (fastforce simp: sorted_keys_def sorted_wrt_append)
    then have "rb_ok m0 t T' m'" using f unfolding rb_ok_def by blast
    moreover have "rb_insert m t a = Some (m', 1)"
      unfolding rb_insert_def using t a n c(1) m(1,3-5) f(1) m(2) by (simp add: rd_def)
    moreover have "set (entries T') = insert (?k, a) (set (entries T))" unfolding e f(6) by auto
    ultimately show ?thesis using False by auto
  qed
qed

end
