(* ===== verification/Rbtree_Fixup.thy ===== *)
theory Rbtree_Fixup
  imports Rbtree_Inv
begin

text \<open>The repair after a deletion: every round moves the missing black node upwards or ends the loop.\<close>

section \<open>The repair after a deletion\<close>

fun invc2 :: "rbt \<Rightarrow> bool" where
  "invc2 Leaf \<longleftrightarrow> True"
| "invc2 (Node l (a, c, k) r) \<longleftrightarrow> (c = RB_RED \<or> c = RB_BLACK) \<and> invc l \<and> invc r"

lemma invc2I: "invc s \<Longrightarrow> invc2 s"
  by (cases s rule: addrs.cases) auto

lemma invc2_black: "color s = RB_BLACK \<Longrightarrow> invc2 s = invc s"
  by (cases s rule: addrs.cases) auto

lemma invc2_mirror [simp]: "invc2 (mirror s) = invc2 s"
  by (cases s rule: addrs.cases) auto

text \<open>The subtree of the bad node has one black node too few; when it is empty, the sentinel points to its parent.\<close>

definition del_inv :: "frame list \<Rightarrow> rbt \<Rightarrow> bool" where
  "del_inv ctx s \<longleftrightarrow> invc2 s \<and> invh s \<and> cinvc ctx RB_BLACK \<and> cinvh ctx (bheight s + 1)"

definition bad_at :: "rb_tree \<Rightarrow> addr \<Rightarrow> rb_node \<Rightarrow> frame list \<Rightarrow> rbt \<Rightarrow> rb_tree \<Rightarrow> bool" where
  "bad_at m0 t nn ctx s m \<longleftrightarrow> rep m0 t nn (fill ctx s) m \<and> (s = Leaf \<longrightarrow> rb_parent nn = cp (rb_nil t) ctx)"

lemma bad_parent:
  assumes "bad_at m0 t nn ctx s m"
  shows "rd m (rt (rb_nil t) s) rb_parent = Some (cp (rb_nil t) ctx)"
proof (cases "s = Leaf")
  case True
  then show ?thesis using assms unfolding bad_at_def rep_def by (simp add: rd_def)
next
  case False
  then show ?thesis using assms rep_parent(2) unfolding bad_at_def by blast
qed

lemma red_brother:
  assumes b: "bad_at m0 t nn (Lf p c kp (Node wl (w, cw, kw) wr') # ctx) s m"
  shows "\<exists>m'. delete_red_brother_left m t (rt (rb_nil t) s) p w = Some (m', rt (rb_nil t) wl) \<and>
    bad_at m0 t nn (Lf p RB_RED kp wl # Lf w RB_BLACK kw wr' # ctx) s m'"
proof -
  let ?n = "rb_nil t"
  have r: "rep m0 t nn (fill ctx (Node s (p, c, kp) (Node wl (w, cw, kw) wr'))) m" using b unfolding bad_at_def by simp
  obtain m1 where m1: "wr m w (rb_color_update (\<lambda>_. RB_BLACK)) = Some m1" "rep m0 t nn (fill ctx (Node s (p, c, kp) (Node wl (w, RB_BLACK, kw) wr'))) m1"
    using rep_paint [of m0 t nn "Rf s p c kp # ctx" wl w cw kw wr' m RB_BLACK] r by auto
  obtain m2 where m2: "wr m1 p (rb_color_update (\<lambda>_. RB_RED)) = Some m2" "rep m0 t nn (fill ctx (Node s (p, RB_RED, kp) (Node wl (w, RB_BLACK, kw) wr'))) m2"
    using rep_paint [OF m1(2)] by blast
  obtain m3 where m3: "rb_left_rotate m2 t p = Some (m3, 1)" "rep m0 t nn (fill ctx (Node (Node s (p, RB_RED, kp) wl) (w, RB_BLACK, kw) wr')) m3"
    using left_rotate_rep [OF m2(2)] by blast
  have b3: "bad_at m0 t nn (Lf p RB_RED kp wl # Lf w RB_BLACK kw wr' # ctx) s m3" using m3(2) b unfolding bad_at_def by simp
  have "rd m3 p rb_rchild = Some (rt ?n wl)" using rep_rd(4) [of m0 t nn "Lf w RB_BLACK kw wr' # ctx"] m3(2) by simp
  then have "delete_red_brother_left m t (rt ?n s) p w = Some (m3, rt ?n wl)"
    using m1(1) m2(1) m3(1) bad_parent [OF b3] by (simp add: delete_red_brother_left_def)
  then show ?thesis using b3 by blast
qed

lemma inner_red:
  assumes b: "bad_at m0 t nn (Lf p c kp (Node (Node xl (x, cx, kx) xr) (w, cw, kw) wr') # ctx) s m"
  shows "\<exists>m'. delete_inner_red_left m t (rt (rb_nil t) s) w = Some (m', x) \<and>
    bad_at m0 t nn (Lf p c kp (Node xl (x, RB_BLACK, kx) (Node xr (w, RB_RED, kw) wr')) # ctx) s m'"
proof -
  let ?n = "rb_nil t"
  have r: "rep m0 t nn (fill ctx (Node s (p, c, kp) (Node (Node xl (x, cx, kx) xr) (w, cw, kw) wr'))) m" using b unfolding bad_at_def by simp
  obtain m1 where m1: "wr m w (rb_color_update (\<lambda>_. RB_RED)) = Some m1" "rep m0 t nn (fill ctx (Node s (p, c, kp) (Node (Node xl (x, cx, kx) xr) (w, RB_RED, kw) wr'))) m1"
    using rep_paint [of m0 t nn "Rf s p c kp # ctx" _ w cw kw wr' m RB_RED] r by auto
  have l: "rd m1 w rb_lchild = Some x" using rep_rd(3) [of m0 t nn "Rf s p c kp # ctx" "Node xl (x, cx, kx) xr"] m1(2) by simp
  obtain m2 where m2: "wr m1 x (rb_color_update (\<lambda>_. RB_BLACK)) = Some m2" "rep m0 t nn (fill ctx (Node s (p, c, kp) (Node (Node xl (x, RB_BLACK, kx) xr) (w, RB_RED, kw) wr'))) m2"
    using rep_paint [of m0 t nn "Lf w RB_RED kw wr' # Rf s p c kp # ctx" xl x cx kx xr m1 RB_BLACK] m1(2) by auto
  obtain m3 where m3: "rb_right_rotate m2 t w = Some (m3, 1)" "rep m0 t nn (fill ctx (Node s (p, c, kp) (Node xl (x, RB_BLACK, kx) (Node xr (w, RB_RED, kw) wr')))) m3"
    using right_rotate_rep [of m0 t nn "Rf s p c kp # ctx" xl x RB_BLACK kx xr w RB_RED kw wr' m2] m2(2) by auto
  have b3: "bad_at m0 t nn (Lf p c kp (Node xl (x, RB_BLACK, kx) (Node xr (w, RB_RED, kw) wr')) # ctx) s m3" using m3(2) b unfolding bad_at_def by simp
  have "rd m3 p rb_rchild = Some x" using rep_rd(4) [OF m3(2)] by simp
  then have "delete_inner_red_left m t (rt ?n s) w = Some (m3, x)"
    using m1(1) l m2(1) m3(1) bad_parent [OF b3] by (simp add: delete_inner_red_left_def)
  then show ?thesis using b3 by blast
qed

lemma outer_red:
  assumes b: "bad_at m0 t nn (Lf p c kp (Node wl (w, cw, kw) (Node xl (x, cx, kx) xr)) # ctx) s m"
  shows "\<exists>m'. delete_outer_red_left m t (rt (rb_nil t) s) w =
      Some (m', rt (rb_nil t) (fill ctx (Node (Node s (p, RB_BLACK, kp) wl) (w, c, kw) (Node xl (x, RB_BLACK, kx) xr)))) \<and>
    rep m0 t nn (fill ctx (Node (Node s (p, RB_BLACK, kp) wl) (w, c, kw) (Node xl (x, RB_BLACK, kx) xr))) m'"
proof -
  let ?n = "rb_nil t"
  have r: "rep m0 t nn (fill ctx (Node s (p, c, kp) (Node wl (w, cw, kw) (Node xl (x, cx, kx) xr)))) m" using b unfolding bad_at_def by simp
  obtain m1 where m1: "wr m w (rb_color_update (\<lambda>_. c)) = Some m1" "rep m0 t nn (fill ctx (Node s (p, c, kp) (Node wl (w, c, kw) (Node xl (x, cx, kx) xr)))) m1"
    using rep_paint [of m0 t nn "Rf s p c kp # ctx" wl w cw kw _ m c] r by auto
  obtain m2 where m2: "wr m1 p (rb_color_update (\<lambda>_. RB_BLACK)) = Some m2" "rep m0 t nn (fill ctx (Node s (p, RB_BLACK, kp) (Node wl (w, c, kw) (Node xl (x, cx, kx) xr)))) m2"
    using rep_paint [OF m1(2)] by blast
  have l: "rd m2 w rb_rchild = Some x" using rep_rd(4) [of m0 t nn "Rf s p RB_BLACK kp # ctx" wl w c kw "Node xl (x, cx, kx) xr"] m2(2) by simp
  obtain m3 where m3: "wr m2 x (rb_color_update (\<lambda>_. RB_BLACK)) = Some m3" "rep m0 t nn (fill ctx (Node s (p, RB_BLACK, kp) (Node wl (w, c, kw) (Node xl (x, RB_BLACK, kx) xr)))) m3"
    using rep_paint [of m0 t nn "Rf wl w c kw # Rf s p RB_BLACK kp # ctx" xl x cx kx xr m2 RB_BLACK] m2(2) by auto
  have b3: "bad_at m0 t nn (Lf p RB_BLACK kp (Node wl (w, c, kw) (Node xl (x, RB_BLACK, kx) xr)) # ctx) s m3" using m3(2) b unfolding bad_at_def by simp
  obtain m4 where m4: "rb_left_rotate m3 t p = Some (m4, 1)"
    "rep m0 t nn (fill ctx (Node (Node s (p, RB_BLACK, kp) wl) (w, c, kw) (Node xl (x, RB_BLACK, kx) xr))) m4"
    using left_rotate_rep [OF m3(2)] by blast
  then have "delete_outer_red_left m t (rt ?n s) w = Some (m4, rt ?n (fill ctx (Node (Node s (p, RB_BLACK, kp) wl) (w, c, kw) (Node xl (x, RB_BLACK, kx) xr))))"
    using m1(1) l m2(1) m3(1) bad_parent [OF b3] bad_parent [OF b] rep_rd(1) [OF r] by (simp add: delete_outer_red_left_def rep_def)
  then show ?thesis using m4(2) by blast
qed

definition del_step :: "rb_tree \<Rightarrow> addr \<Rightarrow> rb_node \<Rightarrow> frame list \<Rightarrow> rbt \<Rightarrow> (rb_tree \<times> addr) option \<Rightarrow> bool" where
  "del_step m0 t nn ctx s r \<longleftrightarrow> (\<exists>m' ctx' s'. r = Some (m', rt (rb_nil t) s') \<and> bad_at m0 t nn ctx' s' m' \<and> del_inv ctx' s' \<and>
     (color s' = RB_RED \<or> length ctx' < length ctx) \<and> entries (fill ctx' s') = entries (fill ctx s))"

text \<open>The part of the body after the brother has become black.\<close>

lemma black_brother:
  assumes b: "bad_at m0 t nn (Lf p c kp (Node wl (w, RB_BLACK, kw) wr') # ctx) s m"
    and i: "del_inv (Lf p c kp (Node wl (w, RB_BLACK, kw) wr') # ctx) s" and s: "color s = RB_BLACK"
  shows "\<exists>m' ctx' s'. (if color wl = RB_BLACK \<and> color wr' = RB_BLACK then do {
       m2 \<leftarrow> wr m w (rb_color_update (\<lambda>_. RB_RED));
       p2 \<leftarrow> rd m2 (rt (rb_nil t) s) rb_parent;
       Some (m2, p2)
     } else do {
       (m2, bro2) \<leftarrow> (if color wr' = RB_BLACK then delete_inner_red_left m t (rt (rb_nil t) s) w else Some (m, w));
       delete_outer_red_left m2 t (rt (rb_nil t) s) bro2
     }) = Some (m', rt (rb_nil t) s') \<and> bad_at m0 t nn ctx' s' m' \<and> del_inv ctx' s' \<and> s' \<noteq> Leaf \<and>
     (ctx' = [] \<or> ctx' = ctx \<and> color s' = c) \<and> entries (fill ctx' s') = entries (fill (Lf p c kp (Node wl (w, RB_BLACK, kw) wr') # ctx) s)"
    (is "\<exists>m' ctx' s'. ?r = Some (m', rt _ s') \<and> ?P m' ctx' s'")
proof -
  let ?n = "rb_nil t"
  have r: "rep m0 t nn (fill ctx (Node s (p, c, kp) (Node wl (w, RB_BLACK, kw) wr'))) m" using b unfolding bad_at_def by simp
  have col: "invc s" "invh s" "c = RB_RED \<or> c = RB_BLACK" "invc wl" "invc wr'" "invh wl" "invh wr'" "bheight wl = bheight s" "bheight wr' = bheight s"
     "cinvc ctx c" "cinvh ctx (if c = RB_BLACK then bheight s + 2 else bheight s + 1)"
    using i invc2_black [OF s] by (auto simp: del_inv_def)
  consider (two) "color wl = RB_BLACK" "color wr' = RB_BLACK" | (inner) "color wl = RB_RED" "color wr' = RB_BLACK" | (outer) "color wr' = RB_RED"
    using color_cases col by blast
  then show ?thesis
  proof cases
    case two
    obtain m2 where m2: "wr m w (rb_color_update (\<lambda>_. RB_RED)) = Some m2" "rep m0 t nn (fill ctx (Node s (p, c, kp) (Node wl (w, RB_RED, kw) wr'))) m2"
      using rep_paint [of m0 t nn "Rf s p c kp # ctx" wl w _ kw wr' m RB_RED] r by auto
    have b2: "bad_at m0 t nn (Lf p c kp (Node wl (w, RB_RED, kw) wr') # ctx) s m2" using m2(2) b unfolding bad_at_def by simp
    have "?r = Some (m2, p)" using two m2(1) bad_parent [OF b2] by simp
    moreover have "del_inv ctx (Node s (p, c, kp) (Node wl (w, RB_RED, kw) wr'))"
      using col two s cinvc_black [OF col(10)] by (auto simp: del_inv_def)
    ultimately show ?thesis using m2(2) by (intro exI [of _ m2] exI [of _ ctx] exI [of _ "Node s (p, c, kp) (Node wl (w, RB_RED, kw) wr')"]) (simp add: bad_at_def)
  next
    case inner
    then obtain xl x kx xr where wl: "wl = Node xl (x, RB_RED, kx) xr" using red_node by blast
    obtain m2 where m2: "delete_inner_red_left m t (rt ?n s) w = Some (m2, x)"
      "bad_at m0 t nn (Lf p c kp (Node xl (x, RB_BLACK, kx) (Node xr (w, RB_RED, kw) wr')) # ctx) s m2"
      using inner_red [OF b [unfolded wl]] by blast
    let ?T = "fill ctx (Node (Node s (p, RB_BLACK, kp) xl) (x, c, kx) (Node xr (w, RB_BLACK, kw) wr'))"
    obtain m3 where m3: "delete_outer_red_left m2 t (rt ?n s) x = Some (m3, rt ?n ?T)" "rep m0 t nn ?T m3"
      using outer_red [OF m2(2)] by blast
    have "invc ?T \<and> color ?T = RB_BLACK" unfolding invc_fill using col inner wl by auto
    moreover have "invh ?T" unfolding invh_fill using col inner wl by auto
    ultimately have "del_inv [] ?T" by (simp add: del_inv_def invc2_black)
    moreover have "?r = Some (m3, rt ?n ?T)" using inner m2(1) m3(1) by simp
    moreover have "?T \<noteq> Leaf" by (rule fill_nonempty) simp
    ultimately show ?thesis using m3(2) by (intro exI [of _ m3] exI [of _ "[]"] exI [of _ ?T]) (simp add: bad_at_def wl)
  next
    case outer
    then obtain xl x kx xr where wr': "wr' = Node xl (x, RB_RED, kx) xr" using red_node by blast
    let ?T = "fill ctx (Node (Node s (p, RB_BLACK, kp) wl) (w, c, kw) (Node xl (x, RB_BLACK, kx) xr))"
    obtain m3 where m3: "delete_outer_red_left m t (rt ?n s) w = Some (m3, rt ?n ?T)" "rep m0 t nn ?T m3"
      using outer_red [OF b [unfolded wr']] by blast
    have "invc ?T \<and> color ?T = RB_BLACK" unfolding invc_fill using col outer wr' by auto
    moreover have "invh ?T" unfolding invh_fill using col outer wr' by auto
    ultimately have "del_inv [] ?T" by (simp add: del_inv_def invc2_black)
    moreover have "?r = Some (m3, rt ?n ?T)" using outer m3(1) by simp
    moreover have "?T \<noteq> Leaf" by (rule fill_nonempty) simp
    ultimately show ?thesis using m3(2) by (intro exI [of _ m3] exI [of _ "[]"] exI [of _ ?T]) (simp add: bad_at_def wr')
  qed
qed

lemma delete_fixup_left_reads:
  assumes b: "bad_at m0 t nn (Lf p c kp (Node wl (w, cw, kw) wr') # ctx) s m"
  shows "rd m (rt (rb_nil t) s) rb_parent = Some p" and "rd m p rb_rchild = Some w" and "rd m w rb_color = Some cw"
    and "rd m w rb_lchild = Some (rt (rb_nil t) wl)" and "rd m w rb_rchild = Some (rt (rb_nil t) wr')"
    and "rd m (rt (rb_nil t) wl) rb_color = Some (color wl)" and "rd m (rt (rb_nil t) wr') rb_color = Some (color wr')"
proof -
  have r: "rep m0 t nn (fill (Rf s p c kp # ctx) (Node wl (w, cw, kw) wr')) m" using b by (simp add: bad_at_def)
  have r2: "rep m0 t nn (fill (Lf w cw kw wr' # Rf s p c kp # ctx) wl) m" "rep m0 t nn (fill (Rf wl w cw kw # Rf s p c kp # ctx) wr') m" using r by simp_all
  show "rd m (rt (rb_nil t) s) rb_parent = Some p" using bad_parent [OF b] by simp
  show "rd m p rb_rchild = Some w" using rep_child(2) [OF r refl] by simp
  show "rd m w rb_color = Some cw" "rd m w rb_lchild = Some (rt (rb_nil t) wl)" "rd m w rb_rchild = Some (rt (rb_nil t) wr')" using rep_rd [OF r] by simp_all
  show "rd m (rt (rb_nil t) wl) rb_color = Some (color wl)" "rd m (rt (rb_nil t) wr') rb_color = Some (color wr')"
    using rep_color [OF r2(1)] rep_color [OF r2(2)] by simp_all
qed

lemma delete_left_step:
  assumes b: "bad_at m0 t nn (Lf p c kp ww # ctx) s m" and i: "del_inv (Lf p c kp ww # ctx) s" and s: "color s = RB_BLACK"
  shows "del_step m0 t nn (Lf p c kp ww # ctx) s (delete_fixup_left m t (rt (rb_nil t) s))"
proof -
  let ?n = "rb_nil t"
  have "0 < bheight ww" using i by (simp add: del_inv_def)
  then obtain wl w cw kw wr' where ww: "ww = Node wl (w, cw, kw) wr'" using node_of_height by blast
  note rd1 = delete_fixup_left_reads [OF b [unfolded ww]]
  show ?thesis
  proof (cases "cw = RB_RED")
    case False
    then have cw: "cw = RB_BLACK" using i unfolding ww by (auto simp: del_inv_def)
    from black_brother [OF b [unfolded ww cw] i [unfolded ww cw] s] rd1 show ?thesis
      unfolding del_step_def delete_fixup_left_def ww cw by fastforce
  next
    case True
    then have c: "c = RB_BLACK" and col: "color wl = RB_BLACK" "bheight wl = bheight s + 1" using i unfolding ww by (auto simp: del_inv_def)
    then obtain vl v kv vr where wl: "wl = Node vl (v, RB_BLACK, kv) vr" using node_of_height [of wl] by auto
    obtain m' where m': "delete_red_brother_left m t (rt ?n s) p w = Some (m', v)"
      "bad_at m0 t nn (Lf p RB_RED kp (Node vl (v, RB_BLACK, kv) vr) # Lf w RB_BLACK kw wr' # ctx) s m'"
      using red_brother [OF b [unfolded ww]] wl by auto
    have i': "del_inv (Lf p RB_RED kp (Node vl (v, RB_BLACK, kv) vr) # Lf w RB_BLACK kw wr' # ctx) s"
      using i c True unfolding ww wl by (auto simp: del_inv_def)
    note rd2 = delete_fixup_left_reads [OF m'(2)]
    from black_brother [OF m'(2) i' s] rd1(1,2,3) rd2 m'(1) show ?thesis
      unfolding del_step_def delete_fixup_left_def ww wl True by fastforce
  qed
qed

lemma cp_mframe [simp]: "cp nil (map mframe ctx) = cp nil ctx"
  by (cases ctx rule: caddrs.cases) auto

lemma bad_at_mir: "bad_at m0 t nn ctx s m \<Longrightarrow> bad_at (mir m0) t (flip nn) (map mframe ctx) (mirror s) (mir m)"
  using rep_mir_imp [of m0 t nn "fill ctx s" m] by (auto simp: bad_at_def mirror_fill)

lemma del_inv_mir: "del_inv (map mframe ctx) (mirror s) = del_inv ctx s"
  by (auto simp: del_inv_def)

lemma del_step_mir:
  assumes "del_step (mir m0) t (flip nn) (map mframe ctx) (mirror s) (map_option (\<lambda>(m, r). (mir m, r)) x)"
  shows "del_step m0 t nn ctx s x"
proof -
  obtain m' ctx' s' where x: "map_option (\<lambda>(m, r). (mir m, r)) x = Some (m', rt (rb_nil t) s')"
    and r: "bad_at (mir m0) t (flip nn) ctx' s' m'" and i: "del_inv ctx' s'" and l: "color s' = RB_RED \<or> length ctx' < length ctx"
    and e: "entries (fill ctx' s') = entries (fill (map mframe ctx) (mirror s))"
    using assms unfolding del_step_def by auto
  have "entries (fill (map mframe ctx') (mirror s')) = entries (fill ctx s)"
    using e unfolding mirror_fill [symmetric] entries_mirror by simp
  moreover have "x = Some (mir m', rt (rb_nil t) (mirror s'))" using x by auto
  ultimately show ?thesis unfolding del_step_def using bad_at_mir [OF r] i l
    by (intro exI [of _ "mir m'"] exI [of _ "map mframe ctx'"] exI [of _ "mirror s'"]) (simp add: del_inv_mir)
qed

lemma delete_right_step:
  assumes b: "bad_at m0 t nn (Rf ww p c kp # ctx) s m" and i: "del_inv (Rf ww p c kp # ctx) s" and s: "color s = RB_BLACK"
  shows "del_step m0 t nn (Rf ww p c kp # ctx) s (delete_fixup_right m t (rt (rb_nil t) s))"
proof (rule del_step_mir)
  have "del_step (mir m0) t (flip nn) (Lf p c kp (mirror ww) # map mframe ctx) (mirror s) (delete_fixup_left (mir m) t (rt (rb_nil t) (mirror s)))"
    using bad_at_mir [OF b] i del_inv_mir [of "Rf ww p c kp # ctx" s] s by (intro delete_left_step) simp_all
  then show "del_step (mir m0) t (flip nn) (map mframe (Rf ww p c kp # ctx)) (mirror s)
     (map_option (\<lambda>(m, r). (mir m, r)) (delete_fixup_right m t (rt (rb_nil t) s)))"
    by (simp add: mir_delete_fixup_left)
qed

lemma top_in: "ctx \<noteq> [] \<Longrightarrow> ctx_top ctx p \<in> set (caddrs ctx)"
proof (induction ctx arbitrary: p)
  case (Cons f ctx)
  then show ?case by (cases "ctx = []"; cases f) auto
qed simp

lemma bad_root:
  assumes "rep m0 t nn (fill ctx s) m"
  shows "rm_root m t = Some (ctx_top ctx (rt (rb_nil t) s))" and "rt (rb_nil t) s = ctx_top ctx (rt (rb_nil t) s) \<longleftrightarrow> ctx = []"
proof -
  show "rm_root m t = Some (ctx_top ctx (rt (rb_nil t) s))" using assms unfolding rep_fill by simp
  have "rt (rb_nil t) s \<notin> set (caddrs ctx)" using assms rt_in [of "rb_nil t" s] unfolding rep_fill by auto
  then show "rt (rb_nil t) s = ctx_top ctx (rt (rb_nil t) s) \<longleftrightarrow> ctx = []" by (metis ctx_top.simps(1) top_in)
qed

lemma delete_loop:
  assumes "bad_at m0 t nn ctx s m" and "del_inv ctx s"
  shows "\<exists>m' ctx' s'. delete_fixup_loop m t (rt (rb_nil t) s) = Some (m', rt (rb_nil t) s') \<and> bad_at m0 t nn ctx' s' m' \<and> del_inv ctx' s' \<and>
    (ctx' = [] \<or> color s' = RB_RED) \<and> entries (fill ctx' s') = entries (fill ctx s)"
  using assms
proof (induction "if color s = RB_RED then 0 else length ctx" arbitrary: ctx s m rule: less_induct)
  case less
  let ?n = "rb_nil t"
  have rep: "rep m0 t nn (fill ctx s) m" using less.prems(1) by (simp add: bad_at_def)
  note rp = bad_root [OF rep] rep_color [OF rep] bad_parent [OF less.prems(1)]
  have "invc2 s" using less.prems(2) by (simp add: del_inv_def)
  then have cs: "color s = RB_RED \<or> color s = RB_BLACK" by (cases s rule: addrs.cases) auto
  show ?case
  proof (cases "ctx = [] \<or> color s = RB_RED")
    case True
    then have "delete_fixup_loop m t (rt ?n s) = Some (m, rt ?n s)" using rp by (subst delete_fixup_loop.simps) auto
    then show ?thesis using less.prems True by blast
  next
    case False
    then have c: "color s = RB_BLACK" "ctx \<noteq> []" using cs by auto
    then obtain p cc k w ctx1 where ctx: "ctx = Lf p cc k w # ctx1 \<or> ctx = Rf w p cc k # ctx1"
      by (cases ctx rule: caddrs.cases) auto
    have p: "cp ?n ctx = p" using ctx by auto
    define r where "r = (if \<exists>c. ctx = Lf p cc k w # c then delete_fixup_left m t (rt ?n s) else delete_fixup_right m t (rt ?n s))"
    have "del_step m0 t nn ctx s r"
      using ctx
    proof
      assume x: "ctx = Lf p cc k w # ctx1"
      show ?thesis using delete_left_step [OF less.prems [unfolded x] c(1)] unfolding r_def x by simp
    next
      assume x: "ctx = Rf w p cc k # ctx1"
      show ?thesis using delete_right_step [OF less.prems [unfolded x] c(1)] unfolding r_def x by simp
    qed
    then obtain m' ctx' s' where st: "r = Some (m', rt ?n s')" "bad_at m0 t nn ctx' s' m'" "del_inv ctx' s'"
      "color s' = RB_RED \<or> length ctx' < length ctx" "entries (fill ctx' s') = entries (fill ctx s)" unfolding del_step_def by blast
    obtain l where l: "rd m p rb_lchild = Some l" "rt ?n s = l \<longleftrightarrow> (\<exists>c. ctx = Lf p cc k w # c)"
      using ctx
    proof
      assume x: "ctx = Lf p cc k w # ctx1"
      show ?thesis using rep_child(1) [OF rep x] x that by auto
    next
      assume x: "ctx = Rf w p cc k # ctx1"
      have "rt ?n w \<noteq> rt ?n s"
      proof (cases "s = Leaf")
        case True
        have "w \<noteq> Leaf" using less.prems(2) unfolding x del_inv_def by auto
        then have "rt ?n w \<in> set (addrs w)" by (cases w rule: addrs.cases) auto
        then show ?thesis using rep True unfolding x rep_fill by auto
      next
        case False
        then show ?thesis using rep_siblings [of m0 t nn w p cc k ctx1 s m] rep x by auto
      qed
      then show ?thesis using rep_child(2) [OF rep x] x that by auto
    qed
    have "delete_fixup_loop m t (rt ?n s) = delete_fixup_loop m' t (rt ?n s')"
      by (subst delete_fixup_loop.simps) (use rp p l st(1) c in \<open>auto simp: r_def\<close>)
    moreover have "(if color s' = RB_RED then 0 else length ctx') < (if color s = RB_RED then 0 else length ctx)" using st(4) c by auto
    ultimately show ?thesis using less.hyps [OF _ st(2,3)] st(5) by auto
  qed
qed

lemma delete_fixup_rep:
  assumes "bad_at m0 t nn ctx s m" and "del_inv ctx s"
  shows "\<exists>m' T'. rb_delete_fixup m t (rt (rb_nil t) s) = Some (m', 1) \<and> rep m0 t nn T' m' \<and> invc T' \<and> invh T' \<and> color T' = RB_BLACK \<and>
    entries T' = entries (fill ctx s)"
proof -
  obtain m1 ctx' s' where l: "delete_fixup_loop m t (rt (rb_nil t) s) = Some (m1, rt (rb_nil t) s')" "bad_at m0 t nn ctx' s' m1" "del_inv ctx' s'"
    "ctx' = [] \<or> color s' = RB_RED" "entries (fill ctx' s') = entries (fill ctx s)" using delete_loop [OF assms] by blast
  have r: "rep m0 t nn (fill ctx' s') m1" using l(2) by (simp add: bad_at_def)
  show ?thesis
  proof (cases s' rule: addrs.cases)
    case 1
    then have "ctx' = []" using l(4) by simp
    have "wr m1 (rb_nil t) (rb_color_update (\<lambda>_. RB_BLACK)) = Some m1"
      using r unfolding rep_def by (auto simp: wr_def fun_upd_idem)
    then show ?thesis using l(1) r l(5) 1 \<open>ctx' = []\<close> by (intro exI [of _ m1] exI [of _ Leaf]) (simp add: rb_delete_fixup_def)
  next
    case (2 sl a c k sr)
    obtain m2 where m2: "wr m1 a (rb_color_update (\<lambda>_. RB_BLACK)) = Some m2" "rep m0 t nn (fill ctx' (Node sl (a, RB_BLACK, k) sr)) m2"
      using rep_paint [OF r [unfolded 2]] by blast
    let ?T = "fill ctx' (Node sl (a, RB_BLACK, k) sr)"
    have "invc ?T \<and> color ?T = RB_BLACK" unfolding invc_fill using l(3) 2 by (auto simp: del_inv_def)
    moreover have "invh ?T" unfolding invh_fill using l(3,4) 2 by (auto simp: del_inv_def)
    moreover have "entries ?T = entries (fill ctx s)" using l(5) 2 by simp
    ultimately show ?thesis using l(1) 2 m2 by (intro exI [of _ m2] exI [of _ ?T]) (simp add: rb_delete_fixup_def)
  qed
qed

end
