(* ===== verification/Rbtree_Delete.thy ===== *)
theory Rbtree_Delete
  imports Rbtree_Fixup
begin

text \<open>
  Deleting a node: its place is taken by its only child or by the least node of its right subtree, and after the
  repair the content is the old one without the node.
\<close>

section \<open>Hanging a subtree to the place of a node\<close>

lemma transplant_ctx:
  assumes c: "ctx_at (rm_nodes m) (rb_nil t) ctx z" "distinct (caddrs ctx)" "rb_nil t \<notin> set (caddrs ctx)" "z \<notin> set (caddrs ctx)" "z \<noteq> rb_nil t"
      "rm_root m t = Some (ctx_top ctx z)"
    and z: "rd m z rb_parent = Some (cp (rb_nil t) ctx)" and y: "rm_nodes m y = Some ny" "y \<notin> set (caddrs ctx)"
  shows "\<exists>m'. rb_transplant m t z y = Some m' \<and> ctx_at (rm_nodes m') (rb_nil t) ctx y \<and> rm_root m' t = Some (ctx_top ctx y) \<and>
    rm_nodes m' y = Some (ny\<lparr>rb_parent := cp (rb_nil t) ctx\<rparr>) \<and> (\<forall>a. a \<notin> set (caddrs ctx) \<longrightarrow> a \<noteq> y \<longrightarrow> rm_nodes m' a = rm_nodes m a) \<and>
    (\<forall>u. u \<noteq> t \<longrightarrow> rm_root m' u = rm_root m u)"
proof -
  let ?n = "rb_nil t"
  have root: "ctx_top ctx z = z \<longleftrightarrow> cp ?n ctx = ?n" using c(3,4) top_in [of ctx z] by (cases ctx rule: caddrs.cases) auto
  obtain m1 where m1: "link_child m t (cp ?n ctx) z y = Some m1" "ctx_at (rm_nodes m1) ?n ctx y" "rm_root m1 t = Some (ctx_top ctx y)"
    "\<And>a. a \<notin> set (caddrs ctx) \<Longrightarrow> rm_nodes m1 a = rm_nodes m a" "\<And>u. u \<noteq> t \<Longrightarrow> rm_root m1 u = rm_root m u"
    using link_child_ctx [OF c, of y] by blast
  have "rd m1 z rb_parent = Some (cp ?n ctx)" using z m1(4) [OF c(4)] by (simp add: rd_def)
  then have "rb_transplant m t z y = Some (m1\<lparr>rm_nodes := (rm_nodes m1)(y \<mapsto> ny\<lparr>rb_parent := cp ?n ctx\<rparr>)\<rparr>)"
    using c(5,6) z root m1(1) y(1) m1(4) [OF y(2)] unfolding rb_transplant_def link_child_def
    by (cases "cp ?n ctx = ?n") (simp_all add: wr_def eq_commute [of z])
  then show ?thesis using m1(2-5) y(2) by auto
qed

lemma find_ctx: "a \<in> set (addrs T) \<Longrightarrow> \<exists>ctx l c k r. T = fill ctx (Node l (a, c, k) r)"
proof (induction T rule: addrs.induct)
  case (2 l b c k r)
  consider "a = b" | "a \<in> set (addrs l)" | "a \<in> set (addrs r)" using 2(3) by auto
  then show ?case
  proof cases
    case 1
    then show ?thesis by (metis fill.simps(1))
  next
    case l: 2
    then obtain ctx l' c' k' r' where "l = fill ctx (Node l' (a, c', k') r')" using 2(1) by blast
    then show ?thesis using fill_append [of ctx "[Lf b c k r]"] by (metis fill.simps(1,2))
  next
    case r: 3
    then obtain ctx l' c' k' r' where "r = fill ctx (Node l' (a, c', k') r')" using 2(2) by blast
    then show ?thesis using fill_append [of ctx "[Rf l b c k]"] by (metis fill.simps(1,3))
  qed
qed simp

lemma rep_self: "rep m0 t nn T m \<Longrightarrow> rep m t nn T m"
  by (simp add: rep_def)

text \<open>A node with at most one child.\<close>

lemma transplant_child:
  assumes r: "rep m0 t nn (fill ctx (Node l (z, c, k) r)) m" and s: "l = Leaf \<and> s = r \<or> r = Leaf \<and> s = l"
  shows "\<exists>m' nn'. rb_transplant m t z (rt (rb_nil t) s) = Some m' \<and> bad_at m t nn' ctx s m'"
proof -
  let ?n = "rb_nil t"
  note a = r [unfolded rep_fill]
  have ts: "tree_at (rm_nodes m) ?n z s" and as: "set (addrs s) = set (addrs l) \<union> set (addrs r)" "distinct (addrs s)" using a s by auto
  define ny where "ny = (if s = Leaf then nn else the (rm_nodes m (rt ?n s)))"
  have ny: "rm_nodes m (rt ?n s) = Some ny" using a ts unfolding ny_def by (cases s rule: addrs.cases) auto
  have ns: "rt ?n s \<notin> set (caddrs ctx)" using a rt_in [of ?n s] as by auto
  obtain m' where m': "rb_transplant m t z (rt ?n s) = Some m'" "ctx_at (rm_nodes m') ?n ctx (rt ?n s)" "rm_root m' t = Some (ctx_top ctx (rt ?n s))"
    "rm_nodes m' (rt ?n s) = Some (ny\<lparr>rb_parent := cp ?n ctx\<rparr>)" "\<And>a. a \<notin> set (caddrs ctx) \<Longrightarrow> a \<noteq> rt ?n s \<Longrightarrow> rm_nodes m' a = rm_nodes m a"
    "\<And>u. u \<noteq> t \<Longrightarrow> rm_root m' u = rm_root m u"
    using transplant_ctx [of m t ctx z "rt ?n s" ny] a ny ns rep_rd(5) [OF r] by auto
  let ?nn = "if s = Leaf then nn\<lparr>rb_parent := cp ?n ctx\<rparr> else nn"
  have tr: "tree_at (rm_nodes m') ?n (cp ?n ctx) s"
  proof (cases s rule: addrs.cases)
    case (2 sl b cb kb sr)
    have dj: "set (caddrs ctx) \<inter> set (addrs s) = {}" using a as(1) by auto
    have e: "rm_nodes m' x = rm_nodes m x" if "x \<in> set (addrs sl) \<union> set (addrs sr)" for x
      using that m'(5) [of x] dj as(2) unfolding 2 by auto
    have "tree_at (rm_nodes m') ?n b sl" by (rule tree_at_cong [OF e]) (use ts in \<open>simp_all add: 2\<close>)
    moreover have "tree_at (rm_nodes m') ?n b sr" by (rule tree_at_cong [OF e]) (use ts in \<open>simp_all add: 2\<close>)
    ultimately show ?thesis using m'(4) ny ts 2 by simp
  qed simp
  have nil: "rm_nodes m' ?n = Some ?nn"
  proof (cases "s = Leaf")
    case True
    then show ?thesis using m'(4) ny a by simp
  next
    case False
    then have "rt ?n s \<in> set (addrs s)" by (cases s rule: addrs.cases) auto
    then have "?n \<noteq> rt ?n s" using a as(1) by auto
    then show ?thesis using m'(5) [of ?n] a False by simp
  qed
  have out: "rm_nodes m' x = rm_nodes m x" if "x \<notin> insert ?n (set (caddrs ctx) \<union> set (addrs s))" for x
    using that m'(5) [of x] rt_in [of ?n s] by auto
  have "rep m t ?nn (fill ctx s) m'"
    unfolding rep_fill using a as m'(2,3,6) tr nil out by auto
  then have "bad_at m t ?nn ctx s m'" by (simp add: bad_at_def)
  then show ?thesis using m'(1) by blast
qed

text \<open>A node with two children: \<open>y\<close> takes over the place, the colour and the left subtree of \<open>z\<close>.\<close>

definition ready :: "rb_tree \<Rightarrow> addr \<Rightarrow> rb_node \<Rightarrow> frame list \<Rightarrow> addr \<Rightarrow> u8 \<Rightarrow> rbt \<Rightarrow> addr \<Rightarrow> int \<Rightarrow> rbt \<Rightarrow> rb_tree \<Rightarrow> bool" where
  "ready m0 t nn ctx z cz l y ky r m \<longleftrightarrow> ctx_at (rm_nodes m) (rb_nil t) ctx z \<and> rm_root m t = Some (ctx_top ctx z) \<and>
     (\<exists>kz zr. rm_nodes m z = Some \<lparr>rb_color = cz, rb_key = kz, rb_lchild = rt (rb_nil t) l, rb_rchild = zr, rb_parent = cp (rb_nil t) ctx\<rparr>) \<and>
     (\<exists>cy yl yp. rm_nodes m y = Some \<lparr>rb_color = cy, rb_key = ky, rb_lchild = yl, rb_rchild = rt (rb_nil t) r, rb_parent = yp\<rparr>) \<and>
     tree_at (rm_nodes m) (rb_nil t) z l \<and> l \<noteq> Leaf \<and> tree_at (rm_nodes m) (rb_nil t) y r \<and>
     rm_nodes m (rb_nil t) = Some nn \<and> rb_color nn = RB_BLACK \<and>
     distinct (caddrs ctx @ z # y # addrs l @ addrs r) \<and> rb_nil t \<notin> set (caddrs ctx @ z # y # addrs l @ addrs r) \<and>
     NULL \<notin> set (caddrs ctx @ z # y # addrs l @ addrs r) \<and> t \<noteq> NULL \<and>
     (\<forall>a. a \<notin> insert (rb_nil t) (set (caddrs ctx @ y # addrs l @ addrs r)) \<longrightarrow> rm_nodes m a = rm_nodes m0 a) \<and>
     (\<forall>u. u \<noteq> t \<longrightarrow> rm_root m u = rm_root m0 u)"

lemma replace_node:
  assumes "ready m0 t nn ctx z cz l y ky r m"
  shows "\<exists>m2 m3 m4 m5. rb_transplant m t z y = Some m2 \<and> rd m2 z rb_lchild = Some (rt (rb_nil t) l) \<and>
    wr m2 y (rb_lchild_update (\<lambda>_. rt (rb_nil t) l)) = Some m3 \<and> rd m3 y rb_lchild = Some (rt (rb_nil t) l) \<and>
    wr m3 (rt (rb_nil t) l) (rb_parent_update (\<lambda>_. y)) = Some m4 \<and> rd m4 z rb_color = Some cz \<and>
    wr m4 y (rb_color_update (\<lambda>_. cz)) = Some m5 \<and> rep m0 t nn (fill ctx (Node l (y, cz, ky) r)) m5"
proof -
  let ?n = "rb_nil t"
  obtain kz zr cy yl yp where c: "ctx_at (rm_nodes m) ?n ctx z" "rm_root m t = Some (ctx_top ctx z)"
    and z: "rm_nodes m z = Some \<lparr>rb_color = cz, rb_key = kz, rb_lchild = rt ?n l, rb_rchild = zr, rb_parent = cp ?n ctx\<rparr>"
    and y: "rm_nodes m y = Some \<lparr>rb_color = cy, rb_key = ky, rb_lchild = yl, rb_rchild = rt ?n r, rb_parent = yp\<rparr>"
    and l: "tree_at (rm_nodes m) ?n z l" "l \<noteq> Leaf" and r: "tree_at (rm_nodes m) ?n y r"
    and nn: "rm_nodes m ?n = Some nn" "rb_color nn = RB_BLACK"
    and d: "distinct (caddrs ctx @ z # y # addrs l @ addrs r)" "?n \<notin> set (caddrs ctx @ z # y # addrs l @ addrs r)"
      "NULL \<notin> set (caddrs ctx @ z # y # addrs l @ addrs r)" "t \<noteq> NULL"
    and out: "\<And>a. a \<notin> insert ?n (set (caddrs ctx @ y # addrs l @ addrs r)) \<Longrightarrow> rm_nodes m a = rm_nodes m0 a"
      "\<And>u. u \<noteq> t \<Longrightarrow> rm_root m u = rm_root m0 u"
    using assms unfolding ready_def by blast
  obtain m2 where m2: "rb_transplant m t z y = Some m2" "ctx_at (rm_nodes m2) ?n ctx y" "rm_root m2 t = Some (ctx_top ctx y)"
    "rm_nodes m2 y = Some \<lparr>rb_color = cy, rb_key = ky, rb_lchild = yl, rb_rchild = rt ?n r, rb_parent = cp ?n ctx\<rparr>"
    "\<And>a. a \<notin> set (caddrs ctx) \<Longrightarrow> a \<noteq> y \<Longrightarrow> rm_nodes m2 a = rm_nodes m a" "\<And>u. u \<noteq> t \<Longrightarrow> rm_root m2 u = rm_root m u"
    using transplant_ctx [of m t ctx z y] c z y d by (auto simp: rd_def)
  define m3 where "m3 = m2\<lparr>rm_nodes := (rm_nodes m2)(y \<mapsto> \<lparr>rb_color = cy, rb_key = ky, rb_lchild = rt ?n l, rb_rchild = rt ?n r, rb_parent = cp ?n ctx\<rparr>)\<rparr>"
  have e3: "rm_nodes m3 a = rm_nodes m a" if "a \<notin> set (caddrs ctx)" "a \<noteq> y" for a using that m2(5) by (simp add: m3_def)
  have "tree_at (rm_nodes m3) ?n z l" by (rule tree_at_cong [OF e3 l(1)]) (use d in auto)
  moreover have l': "rt ?n l \<in> set (addrs l)" "rt ?n l \<noteq> ?n" using l(2) d by (cases l rule: addrs.cases; simp)+
  ultimately obtain m4 where m4: "wr m3 (rt ?n l) (rb_parent_update (\<lambda>_. y)) = Some m4" "tree_at (rm_nodes m4) ?n y l"
    "\<And>a. a \<notin> set (addrs l) \<Longrightarrow> rm_nodes m4 a = rm_nodes m3 a" "rm_root m4 = rm_root m3"
    using reparent_step [of m3 ?n z l y] d by (auto simp: reparent_def)
  let ?m = "m4\<lparr>rm_nodes := (rm_nodes m4)(y \<mapsto> \<lparr>rb_color = cz, rb_key = ky, rb_lchild = rt ?n l, rb_rchild = rt ?n r, rb_parent = cp ?n ctx\<rparr>)\<rparr>"
  have y4: "rm_nodes m4 y = rm_nodes m3 y" "rm_nodes m4 z = rm_nodes m z" using m4(3) e3 d by auto
  have e: "rm_nodes ?m a = rm_nodes m a" if "a \<notin> set (caddrs ctx)" "a \<noteq> y" "a \<notin> set (addrs l)" for a using that e3 m4(3) by simp
  have e2: "rm_nodes ?m a = rm_nodes m2 a" if "a \<in> set (caddrs ctx)" for a
  proof -
    have "a \<notin> set (addrs l)" "a \<noteq> y" using that d(1) by auto
    then show ?thesis using m4(3) by (simp add: m3_def)
  qed
  have "ctx_at (rm_nodes ?m) ?n ctx y" by (rule ctx_at_cong [OF e2 m2(2)])
  moreover have "tree_at (rm_nodes ?m) ?n y r" by (rule tree_at_cong [OF e r]) (use d in auto)
  moreover have "tree_at (rm_nodes ?m) ?n y l" using m4(2) d by simp
  moreover have "rm_nodes ?m ?n = Some nn" using e [of ?n] nn d by simp
  moreover have "rm_nodes ?m a = rm_nodes m0 a" if "a \<notin> insert ?n (set (caddrs ctx @ y # addrs l @ addrs r))" for a
    using e [of a] out(1) [OF that] that by auto
  moreover have "rm_root ?m t = Some (ctx_top ctx y)" "\<And>u. u \<noteq> t \<Longrightarrow> rm_root ?m u = rm_root m0 u" using m2(3,6) m4(4) out(2) by (simp_all add: m3_def)
  ultimately have "rep m0 t nn (fill ctx (Node l (y, cz, ky) r)) ?m" unfolding rep_fill using d nn by auto
  moreover have "rd m2 z rb_lchild = Some (rt ?n l)" using m2(5) [of z] d z by (auto simp: rd_def)
  moreover have "wr m2 y (rb_lchild_update (\<lambda>_. rt ?n l)) = Some m3" using m2(4) by (simp add: wr_def m3_def)
  moreover have "rd m3 y rb_lchild = Some (rt ?n l)" by (simp add: rd_def m3_def)
  moreover have "rd m4 z rb_color = Some cz" using y4 z by (simp add: rd_def)
  moreover have "wr m4 y (rb_color_update (\<lambda>_. cz)) = Some ?m" using y4(1) by (simp add: wr_def m3_def)
  ultimately show ?thesis using m2(1) m4(1) by blast
qed

section \<open>The least node of a subtree\<close>

lemma minimum_found:
  assumes "rep m0 t nn (fill ctx s) m" and "s \<noteq> Leaf"
  shows "\<exists>cm y cy ky r. rb_tree_minimum m t (rt (rb_nil t) s) = Some y \<and> s = fill cm (Node Leaf (y, cy, ky) r) \<and> before cm = []"
  using assms
proof (induction s arbitrary: ctx rule: addrs.induct)
  case (2 l a c k r)
  let ?n = "rb_nil t"
  have rl: "rd m a rb_lchild = Some (rt ?n l)" using rep_rd(3) [OF 2(3)] .
  show ?case
  proof (cases "l = Leaf")
    case True
    then have "rb_tree_minimum m t a = Some a" using rl by (simp add: rb_tree_minimum.simps)
    then show ?thesis using True by (intro exI [of _ "[]"]) auto
  next
    case False
    have rr: "rep m0 t nn (fill (Lf a c k r # ctx) l) m" using 2(3) by simp
    from 2(1) [OF this False] obtain cm y cy ky r' where ih: "rb_tree_minimum m t (rt ?n l) = Some y" "l = fill cm (Node Leaf (y, cy, ky) r')" "before cm = []" by blast
    have "rt ?n l \<in> set (addrs l)" using False by (cases l rule: addrs.cases) auto
    then have "rt ?n l \<noteq> ?n" using rr unfolding rep_fill by auto
    then have "rb_tree_minimum m t a = Some y" using rl ih(1) by (simp add: rb_tree_minimum.simps [of m t a])
    then show ?thesis using ih(2,3) fill_append [of cm "[Lf a c k r]"] by (intro exI [of _ "cm @ [Lf a c k r]"]) (auto simp: before_append)
  qed
qed simp

text \<open>The least node is the right child of the deleted one.\<close>

lemma min_adjacent:
  assumes r: "rep m0 t nn (fill ctx (Node l (z, cz, kz) (Node Leaf (y, cy, ky) ry))) m" and l: "l \<noteq> Leaf"
  shows "\<exists>m1 nn'. wr m (rt (rb_nil t) ry) (rb_parent_update (\<lambda>_. y)) = Some m1 \<and> ready m t nn' ctx z cz l y ky ry m1 \<and> (ry = Leaf \<longrightarrow> rb_parent nn' = y)"
proof (cases ry rule: addrs.cases)
  case 1
  have "ready m t (nn\<lparr>rb_parent := y\<rparr>) ctx z cz l y ky ry (m\<lparr>rm_nodes := (rm_nodes m)(rb_nil t \<mapsto> nn\<lparr>rb_parent := y\<rparr>)\<rparr>)"
    using r l unfolding rep_fill ready_def 1 by auto
  moreover have "wr m (rt (rb_nil t) ry) (rb_parent_update (\<lambda>_. y)) = Some (m\<lparr>rm_nodes := (rm_nodes m)(rb_nil t \<mapsto> nn\<lparr>rb_parent := y\<rparr>)\<rparr>)"
    using r unfolding rep_fill 1 by (simp add: wr_def)
  ultimately show ?thesis by (intro exI [of _ "m\<lparr>rm_nodes := (rm_nodes m)(rb_nil t \<mapsto> nn\<lparr>rb_parent := y\<rparr>)\<rparr>"] exI [of _ "nn\<lparr>rb_parent := y\<rparr>"]) simp
next
  case (2 rl b cb kb rr)
  have "wr m (rt (rb_nil t) ry) (rb_parent_update (\<lambda>_. y)) = Some m"
    using r unfolding rep_fill 2 by (auto simp: wr_def fun_upd_idem)
  moreover have "ready m t nn ctx z cz l y ky ry m" using r l unfolding rep_fill ready_def 2 by auto
  ultimately show ?thesis using 2 by blast
qed

lemma caddrs_append: "caddrs (c1 @ c2) = caddrs c1 @ caddrs c2"
  by (induction c1 rule: caddrs.induct) auto

text \<open>It is deeper: its right subtree takes its place first.\<close>

lemma min_deeper:
  assumes r: "rep m0 t nn (fill (cm @ Rf l z cz kz # ctx) (Node Leaf (y, cy, ky) ry)) m" and l: "l \<noteq> Leaf" and cm: "cm \<noteq> []"
  shows "\<exists>m' m'' m1 nn'. rb_transplant m t y (rt (rb_nil t) ry) = Some m' \<and> rd m' z rb_rchild = Some (rt (rb_nil t) (fill cm ry)) \<and>
    wr m' y (rb_rchild_update (\<lambda>_. rt (rb_nil t) (fill cm ry))) = Some m'' \<and> rd m'' y rb_rchild = Some (rt (rb_nil t) (fill cm ry)) \<and>
    wr m'' (rt (rb_nil t) (fill cm ry)) (rb_parent_update (\<lambda>_. y)) = Some m1 \<and> ready m t nn' ctx z cz l y ky (fill cm ry) m1 \<and>
    (ry = Leaf \<longrightarrow> rb_parent nn' = cp (rb_nil t) (cm @ Rf l z cz kz # ctx))"
proof -
  let ?n = "rb_nil t"
  define R where "R = fill cm ry"
  obtain m' nn' where m': "rb_transplant m t y (rt ?n ry) = Some m'" "bad_at m t nn' (cm @ Rf l z cz kz # ctx) ry m'"
    using transplant_child [OF r, of ry] by blast
  have r1: "rep m t nn' (fill (Rf l z cz kz # ctx) R) m'" using m'(2) unfolding bad_at_def fill_append R_def by simp
  have ne: "R \<noteq> Leaf" unfolding R_def using cm by (cases cm rule: caddrs.cases) (auto simp: fill_nonempty)
  have rc: "rd m' z rb_rchild = Some (rt ?n R)" using rep_child(2) [OF r1 refl] by simp
  have ay: "y \<notin> set (addrs (fill (Rf l z cz kz # ctx) R))" "y \<noteq> ?n" "y \<noteq> NULL"
    using r unfolding rep_fill R_def by (auto simp: set_fill caddrs_append)
  have y: "rm_nodes m' y = Some \<lparr>rb_color = cy, rb_key = ky, rb_lchild = ?n, rb_rchild = rt ?n ry, rb_parent = cp ?n (cm @ Rf l z cz kz # ctx)\<rparr>"
    using rep_node [OF r] r1 ay unfolding rep_def by simp
  define m'' where "m'' = m'\<lparr>rm_nodes := (rm_nodes m')(y \<mapsto> \<lparr>rb_color = cy, rb_key = ky, rb_lchild = ?n, rb_rchild = rt ?n R, rb_parent = cp ?n (cm @ Rf l z cz kz # ctx)\<rparr>)\<rparr>"
  note a = r1 [unfolded rep_fill]
  have a1: "tree_at (rm_nodes m'') ?n z R" "distinct (addrs R)" "?n \<notin> set (addrs R)"
    using a ay(1) unfolding m''_def set_fill by simp_all
  obtain m1 where m1: "reparent m'' ?n (rt ?n R) y = Some m1" "tree_at (rm_nodes m1) ?n y R"
    "\<And>a. a \<notin> set (addrs R) \<Longrightarrow> rm_nodes m1 a = rm_nodes m'' a" "rm_root m1 = rm_root m''"
    using reparent_step [OF a1, of y] by blast
  have "rt ?n R \<noteq> ?n" using a1(3) ne rt_in [of ?n R] by (cases R rule: addrs.cases) auto
  then have w: "wr m'' (rt ?n R) (rb_parent_update (\<lambda>_. y)) = Some m1" using m1(1) by (simp add: reparent_def)
  have e: "rm_nodes m1 x = rm_nodes m' x" if "x \<notin> set (addrs R)" "x \<noteq> y" for x using that m1(3) by (simp add: m''_def)
  have ys: "y \<notin> set (addrs R)" "y \<notin> set (addrs l)" "y \<noteq> z" "y \<notin> set (caddrs ctx)" using ay(1) unfolding set_fill by auto
  have "ctx_at (rm_nodes m1) ?n ctx z" by (rule ctx_at_cong [OF e]) (use a ys in auto)
  moreover have "tree_at (rm_nodes m1) ?n z l" by (rule tree_at_cong [OF e]) (use a ys in auto)
  moreover have "rm_nodes m1 z = rm_nodes m' z" by (rule e) (use a ys in auto)
  moreover have "rm_nodes m1 ?n = Some nn'" using e [of ?n] a ay by auto
  moreover have "rm_nodes m1 y = rm_nodes m'' y" by (rule m1(3) [OF ys(1)])
  moreover have "rm_nodes m1 x = rm_nodes m x" if "x \<notin> insert ?n (set (caddrs ctx @ y # addrs l @ addrs R))" for x
  proof (cases "x = z")
    case True
    have "rt ?n R = rt ?n (fill cm (Node Leaf (y, cy, ky) ry))" using cm unfolding R_def rt_fill by (cases cm rule: caddrs.cases) auto
    moreover have "rm_nodes m z = Some \<lparr>rb_color = cz, rb_key = kz, rb_lchild = rt ?n l, rb_rchild = rt ?n (fill cm (Node Leaf (y, cy, ky) ry)), rb_parent = cp ?n ctx\<rparr>"
      using rep_node [of m0 t nn ctx l z cz kz "fill cm (Node Leaf (y, cy, ky) ry)" m] r unfolding fill_append by simp
    ultimately show ?thesis using True e [of z] a ys by auto
  next
    case False
    then show ?thesis using that e [of x] a by auto
  qed
  ultimately have "ready m t nn' ctx z cz l y ky R m1"
    using a l m1(2,4) ys ay unfolding ready_def by (auto simp: m''_def)
  then show ?thesis using m'(1) rc w y m'(2) unfolding bad_at_def
    by (intro exI [of _ m'] exI [of _ m''] exI [of _ m1] exI [of _ nn']) (simp add: wr_def rd_def m''_def R_def)
qed

lemma move_minimum_rep:
  assumes r: "rep m0 t nn (fill ctx (Node l (z, cz, kz) r)) m" and l: "l \<noteq> Leaf" and rne: "r \<noteq> Leaf"
  shows "\<exists>m' nn' cm y cy ky ry. move_minimum m t z = Some (m', cy, rt (rb_nil t) ry) \<and> r = fill cm (Node Leaf (y, cy, ky) ry) \<and>
    before cm = [] \<and> bad_at m t nn' (cm @ Rf l y cz ky # ctx) ry m'"
proof -
  let ?n = "rb_nil t"
  have "rep m0 t nn (fill (Rf l z cz kz # ctx) r) m" using r by simp
  from minimum_found [OF this rne] obtain cm y cy ky ry where mn: "rb_tree_minimum m t (rt ?n r) = Some y" "r = fill cm (Node Leaf (y, cy, ky) ry)" "before cm = []"
    by blast
  have ry: "rep m0 t nn (fill (cm @ Rf l z cz kz # ctx) (Node Leaf (y, cy, ky) ry)) m" using r unfolding mn(2) fill_append by simp
  note rd1 = rep_rd(4) [OF r] mn(1) rep_rd [OF ry]
  define F where "F = (\<lambda>m1. do {
     m2 \<leftarrow> rb_transplant m1 t z y;
     l2 \<leftarrow> rd m2 z rb_lchild;
     m3 \<leftarrow> wr m2 y (rb_lchild_update (\<lambda>_. l2));
     l3 \<leftarrow> rd m3 y rb_lchild;
     m4 \<leftarrow> wr m3 l3 (rb_parent_update (\<lambda>_. y));
     c \<leftarrow> rd m4 z rb_color;
     m5 \<leftarrow> wr m4 y (rb_color_update (\<lambda>_. c));
     Some (m5, cy, rt ?n ry)
   })"
  have F: "\<exists>m'. F m1 = Some (m', cy, rt ?n ry) \<and> rep m t nn' (fill (cm @ Rf l y cz ky # ctx) ry) m'"
    if rdy: "ready m t nn' ctx z cz l y ky (fill cm ry) m1" for m1 nn'
  proof -
    obtain m2 m3 m4 m5 where "rb_transplant m1 t z y = Some m2" "rd m2 z rb_lchild = Some (rt ?n l)"
      "wr m2 y (rb_lchild_update (\<lambda>_. rt ?n l)) = Some m3" "rd m3 y rb_lchild = Some (rt ?n l)"
      "wr m3 (rt ?n l) (rb_parent_update (\<lambda>_. y)) = Some m4" "rd m4 z rb_color = Some cz"
      "wr m4 y (rb_color_update (\<lambda>_. cz)) = Some m5" "rep m t nn' (fill ctx (Node l (y, cz, ky) (fill cm ry))) m5"
      using replace_node [OF rdy] by blast
    then show ?thesis by (simp add: F_def fill_append)
  qed
  show ?thesis
  proof (cases "cm = []")
    case True
    then obtain m1 nn' where m1: "wr m (rt ?n ry) (rb_parent_update (\<lambda>_. y)) = Some m1" "ready m t nn' ctx z cz l y ky ry m1" "ry = Leaf \<longrightarrow> rb_parent nn' = y"
      using min_adjacent [of m0 t nn ctx l z cz kz y cy ky ry m] r l mn(2) by auto
    obtain m' where m': "F m1 = Some (m', cy, rt ?n ry)" "rep m t nn' (fill (cm @ Rf l y cz ky # ctx) ry) m'" using F [of nn' m1] m1(2) True by auto
    have "move_minimum m t z = F m1" using rd1 True m1(1) by (simp add: move_minimum_def F_def)
    moreover have "bad_at m t nn' (cm @ Rf l y cz ky # ctx) ry m'" using m'(2) m1(3) True by (simp add: bad_at_def)
    ultimately show ?thesis using m'(1) mn(2,3) by metis
  next
    case False
    then obtain m' m'' m1 nn' where m1: "rb_transplant m t y (rt ?n ry) = Some m'" "rd m' z rb_rchild = Some (rt ?n (fill cm ry))"
      "wr m' y (rb_rchild_update (\<lambda>_. rt ?n (fill cm ry))) = Some m''" "rd m'' y rb_rchild = Some (rt ?n (fill cm ry))"
      "wr m'' (rt ?n (fill cm ry)) (rb_parent_update (\<lambda>_. y)) = Some m1" "ready m t nn' ctx z cz l y ky (fill cm ry) m1"
      "ry = Leaf \<longrightarrow> rb_parent nn' = cp ?n (cm @ Rf l z cz kz # ctx)" using min_deeper [OF ry l] by blast
    obtain m5 where m5: "F m1 = Some (m5, cy, rt ?n ry)" "rep m t nn' (fill (cm @ Rf l y cz ky # ctx) ry) m5" using F [of nn' m1] m1(6) by auto
    have cp: "cp ?n (cm @ Rf l z cz kz # ctx) = cp ?n (cm @ Rf l y cz ky # ctx)" "cp ?n (cm @ Rf l z cz kz # ctx) \<in> set (caddrs cm)"
      using False by (cases cm rule: caddrs.cases; simp)+
    then have "cp ?n (cm @ Rf l z cz kz # ctx) \<noteq> z" using ry unfolding rep_fill by (auto simp: caddrs_append)
    then have "move_minimum m t z = F m1" using rd1 m1(1-5) by (simp add: move_minimum_def F_def)
    moreover have "bad_at m t nn' (cm @ Rf l y cz ky # ctx) ry m5" using m5(2) m1(7) cp(1) by (simp add: bad_at_def)
    ultimately show ?thesis using m5(1) mn(2,3) by metis
  qed
qed

section \<open>Deletion\<close>

lemma cinv_rename:
  "cinvc (c1 @ Rf l z cz kz # c2) col = cinvc (c1 @ Rf l y cz ky # c2) col" "cinvh (c1 @ Rf l z cz kz # c2) n = cinvh (c1 @ Rf l y cz ky # c2) n"
  by (induction c1 arbitrary: col n rule: caddrs.induct) auto

text \<open>Removing a node with at most one child, of a given colour, from a context.\<close>

lemma removed_inv:
  assumes "invc (Node l (z, c, k) r)" "invh (Node l (z, c, k) r)" "cinvc ctx c" "cinvh ctx (bheight (Node l (z, c, k) r))" and s: "l = Leaf \<and> s = r \<or> r = Leaf \<and> s = l"
  shows "if c = RB_BLACK then del_inv ctx s else invc (fill ctx s) \<and> color (fill ctx s) = RB_BLACK \<and> invh (fill ctx s)"
proof (cases "c = RB_BLACK")
  case True
  then show ?thesis using assms by (auto simp: del_inv_def invc2I)
next
  case c: False
  then have "invc s" "color s = RB_BLACK" "invh s" "cinvh ctx (bheight s)" using assms by auto
  then show ?thesis
    using c cinvc_black [OF assms(3)] invc_fill [of ctx s] by (simp add: invh_fill)
qed

lemma finish_delete:
  assumes b: "bad_at m t nn ctx s m1" and inv: "if c = RB_BLACK then del_inv ctx s
      else invc (fill ctx s) \<and> color (fill ctx s) = RB_BLACK \<and> invh (fill ctx s)" and srt: "sorted_keys (entries (fill ctx s))"
  shows "\<exists>m' T'. (if c = RB_BLACK then do { (m2, _) \<leftarrow> rb_delete_fixup m1 t (rt (rb_nil t) s); Some (m2, 1) } else Some (m1, 1 :: int)) = Some (m', 1) \<and>
    rb_ok m t T' m' \<and> entries T' = entries (fill ctx s)"
proof (cases "c = RB_BLACK")
  case True
  then have "del_inv ctx s" using inv by simp
  from delete_fixup_rep [OF b this] obtain m' T' where f: "rb_delete_fixup m1 t (rt (rb_nil t) s) = Some (m', 1)" "rep m t nn T' m'"
    "invc T'" "invh T'" "color T' = RB_BLACK" "entries T' = entries (fill ctx s)" by blast
  then have "rb_ok m t T' m'" using srt unfolding rb_ok_def by auto
  then show ?thesis using True f(1,6) by auto
next
  case False
  have "rb_ok m t (fill ctx s) m1" using b inv False srt unfolding rb_ok_def bad_at_def by auto
  then show ?thesis using False by auto
qed

lemma sorted_remove: "sorted_keys (xs @ x # ys) \<Longrightarrow> sorted_keys (xs @ ys)"
  by (auto simp: sorted_keys_def sorted_wrt_append)

lemma other_addr: "z \<notin> snd ` set xs \<Longrightarrow> filter (\<lambda>(k, a). a \<noteq> z) xs = xs"
  by (force intro: filter_True)

lemma delete_rep:
  assumes ok: "rb_ok m0 t T m" and z: "z \<in> set (addrs T)"
  shows "\<exists>m' T'. rb_delete m t z = Some (m', 1) \<and> rb_ok m t T' m' \<and> entries T' = filter (\<lambda>(k, a). a \<noteq> z) (entries T)"
proof -
  let ?n = "rb_nil t"
  obtain ctx l cz kz r where T: "T = fill ctx (Node l (z, cz, kz) r)" using find_ctx [OF z] by blast
  obtain nn where rp: "rep m0 t nn (fill ctx (Node l (z, cz, kz) r)) m" and srt: "sorted_keys (entries T)" using ok unfolding rb_ok_def T by blast
  have iT: "invc (fill ctx (Node l (z, cz, kz) r)) \<and> color (fill ctx (Node l (z, cz, kz) r)) = RB_BLACK" "invh (fill ctx (Node l (z, cz, kz) r))"
    using ok unfolding rb_ok_def T by auto
  then have i: "invc (Node l (z, cz, kz) r)" "cinvc ctx cz" "invh (Node l (z, cz, kz) r)" "cinvh ctx (bheight (Node l (z, cz, kz) r))"
    unfolding invc_fill invh_fill by auto
  have eT: "entries T = (before ctx @ entries l) @ (kz, z) # (entries r @ behind ctx)" unfolding T by simp
  have "z \<notin> set (map snd (before ctx @ entries l @ entries r @ behind ctx))"
  proof -
    have "distinct (map snd (entries T))" using rp unfolding rep_def T addrs_entries by blast
    then show ?thesis unfolding eT by auto
  qed
  then have fe: "filter (\<lambda>(k, a). a \<noteq> z) (entries T) = before ctx @ entries l @ entries r @ behind ctx"
    unfolding eT using other_addr [of z "before ctx"] other_addr [of z "entries l"] other_addr [of z "entries r"] other_addr [of z "behind ctx"] by simp
  have se: "sorted_keys (before ctx @ entries l @ entries r @ behind ctx)" using sorted_remove [of "before ctx @ entries l" "(kz, z)"] srt unfolding eT by simp
  have zn: "t \<noteq> NULL" "z \<noteq> NULL" using rp unfolding rep_fill by auto
  note node = rep_node [OF rp]
  have ln: "rt ?n l = ?n \<longleftrightarrow> l = Leaf" "rt ?n r = ?n \<longleftrightarrow> r = Leaf"
    using rp unfolding rep_fill by (cases l rule: addrs.cases; cases r rule: addrs.cases; auto)+
  consider (one) s where "l = Leaf \<and> s = r \<or> r = Leaf \<and> l \<noteq> Leaf \<and> s = l" | (two) "l \<noteq> Leaf" "r \<noteq> Leaf" by blast
  then show ?thesis
  proof cases
    case one
    then have s: "l = Leaf \<and> s = r \<or> r = Leaf \<and> s = l" by blast
    obtain m1 nn' where m1: "rb_transplant m t z (rt ?n s) = Some m1" "bad_at m t nn' ctx s m1" using transplant_child [OF rp s] by blast
    have es: "entries (fill ctx s) = before ctx @ entries l @ entries r @ behind ctx" using s by auto
    have "sorted_keys (entries (fill ctx s))" using se unfolding es .
    from finish_delete [where c = cz, OF m1(2) removed_inv [OF i(1,3,2,4) s] this] obtain m' T' where
      f: "(if cz = RB_BLACK then do { (m2, _) \<leftarrow> rb_delete_fixup m1 t (rt ?n s); Some (m2, 1) } else Some (m1, 1 :: int)) = Some (m', 1)"
       "rb_ok m t T' m'" "entries T' = entries (fill ctx s)" by blast
    have "rb_delete m t z = Some (m', 1)" using zn node ln one m1(1) f(1) unfolding rb_delete_def by (auto simp: Let_def)
    then show ?thesis using f(2,3) es fe by auto
  next
    case two
    from move_minimum_rep [OF rp two] obtain m1 nn' cm y cy ky ry where mm: "move_minimum m t z = Some (m1, cy, rt ?n ry)"
      "r = fill cm (Node Leaf (y, cy, ky) ry)" "before cm = []" "bad_at m t nn' (cm @ Rf l y cz ky # ctx) ry m1" by blast
    have "invc (fill (cm @ Rf l z cz kz # ctx) (Node Leaf (y, cy, ky) ry)) \<and> color (fill (cm @ Rf l z cz kz # ctx) (Node Leaf (y, cy, ky) ry)) = RB_BLACK"
      "invh (fill (cm @ Rf l z cz kz # ctx) (Node Leaf (y, cy, ky) ry))" using iT unfolding mm(2) fill_append by auto
    then have iy: "invc (Node Leaf (y, cy, ky) ry)" "cinvc (cm @ Rf l y cz ky # ctx) cy" "invh (Node Leaf (y, cy, ky) ry)"
      "cinvh (cm @ Rf l y cz ky # ctx) (bheight (Node Leaf (y, cy, ky) ry))"
      unfolding invc_fill invh_fill cinv_rename [of cm l z cz kz ctx _ y ky] by auto
    have es: "entries (fill (cm @ Rf l y cz ky # ctx) ry) = before ctx @ entries l @ entries r @ behind ctx" unfolding mm(2) fill_append by (simp add: mm(3))
    have sy: "Leaf = Leaf \<and> ry = ry \<or> ry = Leaf \<and> ry = Leaf" by simp
    have "sorted_keys (entries (fill (cm @ Rf l y cz ky # ctx) ry))" using se unfolding es .
    from finish_delete [where c = cy, OF mm(4) removed_inv [OF iy(1,3,2,4) sy] this] obtain m' T' where
      f: "(if cy = RB_BLACK then do { (m2, _) \<leftarrow> rb_delete_fixup m1 t (rt ?n ry); Some (m2, 1) } else Some (m1, 1 :: int)) = Some (m', 1)"
       "rb_ok m t T' m'" "entries T' = entries (fill (cm @ Rf l y cz ky # ctx) ry)" by blast
    have "rb_delete m t z = Some (m', 1)" using zn node ln two mm(1) f(1) unfolding rb_delete_def by (simp add: Let_def)
    then show ?thesis using f(2,3) es fe by auto
  qed
qed

end
