(* ===== verification/Rbtree_Props.thy ===== *)
theory Rbtree_Props
  imports Rbtree_Insert Rbtree_Delete
begin

text \<open>
  Properties of the red-black tree: it stores nodes by their keys as a map does, insertion and deletion keep the
  invariants, and a search is short.
\<close>

section \<open>The height\<close>

lemma bheight_size: "invh s \<Longrightarrow> 2 ^ bheight s \<le> size s + 1"
  by (induction s rule: addrs.induct) (auto simp: power_add)

lemma height_bheight: "invc s \<Longrightarrow> invh s \<Longrightarrow> (if color s = RB_BLACK then height s \<le> 2 * bheight s else height s \<le> 2 * bheight s + 1)"
proof (induction s rule: addrs.induct)
  case (2 l a c k r)
  then show ?case by (auto split: if_splits)
qed simp

lemma rb_height:
  assumes "rb_ok m0 t T m"
  shows "2 ^ (height T div 2) \<le> size T + 1"
proof -
  have "height T div 2 \<le> bheight T" using assms height_bheight [of T] by (auto simp: rb_ok_def)
  then have "(2 :: nat) ^ (height T div 2) \<le> 2 ^ bheight T" by (intro power_increasing) auto
  also have "\<dots> \<le> size T + 1" using bheight_size assms by (auto simp: rb_ok_def)
  finally show ?thesis .
qed

text \<open>
  The search with at most \<open>k\<close> evaluations of the condition of its loop: the \<open>k\<close>-th iterate of the loop, which gives no result when it would need more. What it gives
  the loop gives too.
\<close>

abbreviation search_within :: "nat \<Rightarrow> rb_tree \<Rightarrow> addr \<Rightarrow> int \<Rightarrow> addr \<Rightarrow> addr option" where
  "search_within k m nil key \<equiv> (search_round m nil key ^^ k) (\<lambda>_. None)"

lemma search_within_loop: "search_within k m nil key p = Some r \<Longrightarrow> search_loop m nil key p = Some r"
proof (induction k arbitrary: p)
  case (Suc k)
  then show ?case by (subst search_loop_eq) (auto simp: search_round_def bind_eq_Some_conv split: if_splits)
qed simp

lemma search_within_height:
  assumes "rep m0 t nn (fill ctx s) m" and "height s \<le> k"
  shows "\<exists>r. search_within (Suc k) m (rb_nil t) key (rt (rb_nil t) s) = Some r"
  using assms
proof (induction s arbitrary: ctx k rule: addrs.induct)
  case 1
  show ?case by (simp add: search_round_def)
next
  case (2 l a c key' r)
  let ?n = "rb_nil t"
  obtain j where k: "k = Suc j" "height l \<le> j" "height r \<le> j" using 2(4) by (cases k) auto
  have "rep m0 t nn (fill (Lf a c key' r # ctx) l) m" "rep m0 t nn (fill (Rf l a c key' # ctx) r) m" using 2(3) by simp_all
  then obtain v w where "search_within (Suc j) m ?n key (rt ?n l) = Some v" "search_within (Suc j) m ?n key (rt ?n r) = Some w"
    using 2(1,2) k(2,3) by metis
  moreover have "a \<noteq> ?n" using 2(3) unfolding rep_fill by auto
  ultimately show ?case using rep_node [OF 2(3)] unfolding k(1) by (subst funpow.simps(2)) (simp add: search_round_def [of m ?n key _ a])
qed

section \<open>Sequences of operations\<close>

text \<open>
  A store of nodes that are found by their keys: nodes of a pool are inserted, and the node with a given key is
  searched and deleted.
\<close>

datatype store_op = Ins addr | Rem int

fun run_ops :: "('s \<Rightarrow> int \<Rightarrow> addr option) \<Rightarrow> ('s \<Rightarrow> addr \<Rightarrow> ('s \<times> int) option) \<Rightarrow> ('s \<Rightarrow> addr \<Rightarrow> ('s \<times> int) option) \<Rightarrow>
  's \<Rightarrow> store_op list \<Rightarrow> ('s \<times> int list) option"
where
  "run_ops search ins del s [] = Some (s, [])"
| "run_ops search ins del s (Ins a # os) = do {
     (s1, r) \<leftarrow> ins s a;
     (s2, rs) \<leftarrow> run_ops search ins del s1 os;
     Some (s2, r # rs)
   }"
| "run_ops search ins del s (Rem k # os) = do {
     a \<leftarrow> search s k;
     (s1, r) \<leftarrow> del s a;
     (s2, rs) \<leftarrow> run_ops search ins del s1 os;
     Some (s2, r # rs)
   }"

text \<open>The same on a map from keys to nodes.\<close>

fun map_ops :: "(addr \<Rightarrow> int) \<Rightarrow> (int \<Rightarrow> addr option) \<Rightarrow> store_op list \<Rightarrow> (int \<Rightarrow> addr option) \<times> int list" where
  "map_ops key M [] = (M, [])"
| "map_ops key M (Ins a # os) =
     (if key a \<in> dom M then (case map_ops key M os of (M', rs) \<Rightarrow> (M', - 1 # rs))
      else (case map_ops key (M(key a \<mapsto> a)) os of (M', rs) \<Rightarrow> (M', 1 # rs)))"
| "map_ops key M (Rem k # os) =
     (if k \<in> dom M then (case map_ops key (M(k := None)) os of (M', rs) \<Rightarrow> (M', 1 # rs))
      else (case map_ops key M os of (M', rs) \<Rightarrow> (M', - 1 # rs)))"

fun op_nodes :: "store_op list \<Rightarrow> addr set" where
  "op_nodes [] = {}"
| "op_nodes (Ins a # os) = insert a (op_nodes os)"
| "op_nodes (Rem k # os) = op_nodes os"

locale keyed_store =
  fixes R :: "'s \<Rightarrow> (int \<Rightarrow> addr option) \<Rightarrow> bool" and A :: "addr set" and key :: "addr \<Rightarrow> int"
    and search :: "'s \<Rightarrow> int \<Rightarrow> addr option" and ins :: "'s \<Rightarrow> addr \<Rightarrow> ('s \<times> int) option" and del :: "'s \<Rightarrow> addr \<Rightarrow> ('s \<times> int) option"
  assumes search_law: "R s M \<Longrightarrow> search s k = Some (case M k of None \<Rightarrow> NULL | Some a \<Rightarrow> a)"
    and ins_old: "R s M \<Longrightarrow> a \<in> A \<Longrightarrow> key a \<in> dom M \<Longrightarrow> ins s a = Some (s, - 1)"
    and ins_new: "R s M \<Longrightarrow> a \<in> A \<Longrightarrow> key a \<notin> dom M \<Longrightarrow> \<exists>s'. ins s a = Some (s', 1) \<and> R s' (M(key a \<mapsto> a))"
    and del_null: "del s NULL = Some (s, - 1)"
    and del_law: "R s M \<Longrightarrow> M k = Some a \<Longrightarrow> \<exists>s'. del s a = Some (s', 1) \<and> R s' (M(k := None))"
begin

lemma run_refines:
  assumes "R s M" and "op_nodes os \<subseteq> A"
  shows "\<exists>s'. run_ops search ins del s os = Some (s', snd (map_ops key M os)) \<and> R s' (fst (map_ops key M os))"
  using assms
proof (induction os arbitrary: s M rule: op_nodes.induct)
  case (2 a os)
  show ?case
  proof (cases "key a \<in> dom M")
    case True
    then show ?thesis using 2(1) [OF 2(2)] 2(3) ins_old [OF 2(2)] by (auto split: prod.splits)
  next
    case False
    then obtain s1 where s1: "ins s a = Some (s1, 1)" "R s1 (M(key a \<mapsto> a))" using ins_new [OF 2(2) _ False] 2(3) by auto
    have "\<exists>s'. run_ops search ins del s1 os = Some (s', snd (map_ops key (M(key a \<mapsto> a)) os)) \<and> R s' (fst (map_ops key (M(key a \<mapsto> a)) os))"
      by (rule 2(1) [OF s1(2)]) (use 2(3) in auto)
    then show ?thesis using s1(1) False by (auto simp: case_prod_beta)
  qed
next
  case (3 k os)
  show ?case
  proof (cases "M k")
    case None
    then show ?thesis using 3(1) [OF 3(2)] 3(3) search_law [OF 3(2), of k] del_null by (auto split: prod.splits)
  next
    case (Some a)
    then obtain s1 where s1: "del s a = Some (s1, 1)" "R s1 (M(k := None))" using del_law [OF 3(2)] by blast
    have "\<exists>s'. run_ops search ins del s1 os = Some (s', snd (map_ops key (M(k := None)) os)) \<and> R s' (fst (map_ops key (M(k := None)) os))"
      by (rule 3(1) [OF s1(2)]) (use 3(3) in auto)
    then show ?thesis using s1(1) search_law [OF 3(2), of k] Some by (auto simp: case_prod_beta)
  qed
qed simp

end

text \<open>The red-black tree at the address \<open>t\<close> is such a store, for a pool of allocated nodes.\<close>

definition rb_store :: "addr \<Rightarrow> addr set \<Rightarrow> (addr \<Rightarrow> int) \<Rightarrow> rb_tree \<Rightarrow> (int \<Rightarrow> addr option) \<Rightarrow> bool" where
  "rb_store t A key m M \<longleftrightarrow> (\<exists>T. rb_ok m t T m \<and> M = map_of (entries T) \<and> set (addrs T) \<subseteq> A) \<and> NULL \<notin> A \<and> rb_nil t \<notin> A \<and>
     (\<forall>a\<in>A. rd m a rb_key = Some (key a))"

lemma tree_key: "tree_at h nil par s \<Longrightarrow> (k, a) \<in> set (entries s) \<Longrightarrow> map_option rb_key (h a) = Some k"
  by (induction s arbitrary: par rule: addrs.induct) auto

lemma entry_key: "rep m0 t nn T m \<Longrightarrow> (k, a) \<in> set (entries T) \<Longrightarrow> rd m a rb_key = Some k"
  unfolding rep_def rd_def using tree_key by blast

lemma sorted_map_iff: "sorted_keys xs \<Longrightarrow> map_of xs k = Some a \<longleftrightarrow> (k, a) \<in> set xs"
  using sorted_keys_map map_of_SomeD by metis

lemma in_addrs: "a \<in> set (addrs T) \<longleftrightarrow> (\<exists>k. (k, a) \<in> set (entries T))"
  unfolding addrs_entries by force

text \<open>What a change of the tree keeps of the keys of the pool.\<close>

lemma rb_store_next:
  assumes st: "rb_store t A key m M" and T: "rb_ok m t T m" "set (addrs T) \<subseteq> A" and ok: "rb_ok m t T' m'"
    and e: "\<And>k a. (k, a) \<in> set (entries T') \<Longrightarrow> (k, a) \<in> set (entries T) \<or> a \<in> A \<and> k = key a"
  shows "rb_store t A key m' (map_of (entries T'))"
proof -
  have A: "NULL \<notin> A" "rb_nil t \<notin> A" "\<And>a. a \<in> A \<Longrightarrow> rd m a rb_key = Some (key a)" using st by (auto simp: rb_store_def)
  obtain nn nn' where r: "rep m t nn T m" "rep m t nn' T' m'" using T ok unfolding rb_ok_def by blast
  have sub: "set (addrs T') \<subseteq> A"
  proof
    fix a
    assume "a \<in> set (addrs T')"
    then obtain k where "(k, a) \<in> set (entries T')" unfolding in_addrs by blast
    then show "a \<in> A" using e [of k a] T(2) unfolding in_addrs by (auto simp: in_addrs subset_iff)
  qed
  have "rd m' a rb_key = Some (key a)" if "a \<in> A" for a
  proof (cases "a \<in> set (addrs T')")
    case True
    then obtain k where k: "(k, a) \<in> set (entries T')" unfolding in_addrs by blast
    then have "k = key a" using e [OF k] entry_key [OF r(1), of k a] A(3) [OF that] by auto
    then show ?thesis using entry_key [OF r(2) k] by simp
  next
    case False
    then have "a \<notin> insert (rb_nil t) (set (addrs T'))" using that A(2) by auto
    then have "rm_nodes m' a = rm_nodes m a" using r(2) unfolding rep_def by blast
    then show ?thesis using A(3) [OF that] by (simp add: rd_def)
  qed
  moreover have "rb_ok m' t T' m'" using ok rep_self unfolding rb_ok_def by blast
  ultimately show ?thesis using sub A(1,2) unfolding rb_store_def by blast
qed

lemma rb_store_found:
  assumes st: "rb_store t A key m M" and a: "a \<in> A" "key a \<in> dom M"
  shows "rb_insert m t a = Some (m, - 1)"
proof -
  obtain T where T: "rb_ok m t T m" "M = map_of (entries T)" using st by (auto simp: rb_store_def)
  obtain nn where r: "rep m t nn T m" and s: "sorted_keys (entries T)" using T(1) unfolding rb_ok_def by blast
  have k: "key a \<in> fst ` set (entries T)" using a(2) T(2) by (simp add: dom_map_of_conv_image_fst)
  have "a \<noteq> NULL" "rd m a rb_key = Some (key a)" using st a(1) unfolding rb_store_def by metis+
  then show ?thesis using insert_place_found [of m t nn "[]" T m "key a"] r s k by (simp add: rb_insert_def rep_def)
qed

lemma rb_store_new:
  assumes st: "rb_store t A key m M" and a: "a \<in> A" "key a \<notin> dom M"
  shows "\<exists>m'. rb_insert m t a = Some (m', 1) \<and> rb_store t A key m' (M(key a \<mapsto> a))"
proof -
  obtain T where T: "rb_ok m t T m" "M = map_of (entries T)" "set (addrs T) \<subseteq> A" using st by (auto simp: rb_store_def)
  obtain nn where r: "rep m t nn T m" and s: "sorted_keys (entries T)" using T(1) unfolding rb_ok_def by blast
  have k: "key a \<notin> fst ` set (entries T)" using a(2) T(2) by (simp add: dom_map_of_conv_image_fst)
  have n: "a \<noteq> NULL" "a \<noteq> rb_nil t" "rd m a rb_key = Some (key a)" using st a(1) unfolding rb_store_def by metis+
  have "a \<notin> set (addrs T)" using k entry_key [OF r] n(3) unfolding in_addrs by force
  moreover obtain nd where nd: "rm_nodes m a = Some nd" "rb_key nd = key a" using n(3) by (auto simp: rd_def)
  ultimately obtain m' T' where i: "rb_insert m t a = Some (m', 1)" "rb_ok m t T' m'" "set (entries T') = insert (key a, a) (set (entries T))"
    using insert_rep [OF T(1) n(1,2)] k by auto
  have s': "sorted_keys (entries T')" using i(2) by (simp add: rb_ok_def)
  have "map_of (entries T') x = (M(key a \<mapsto> a)) x" for x
  proof (cases "x = key a")
    case True
    then show ?thesis using sorted_map_iff [OF s', of x a] i(3) by simp
  next
    case False
    then have "map_of (entries T') x = Some b \<longleftrightarrow> M x = Some b" for b unfolding T(2) sorted_map_iff [OF s'] sorted_map_iff [OF s] i(3) by simp
    then have "map_of (entries T') x = M x" by (metis option.exhaust)
    then show ?thesis using False by simp
  qed
  then have "map_of (entries T') = M(key a \<mapsto> a)" by blast
  moreover have "rb_store t A key m' (map_of (entries T'))"
    by (rule rb_store_next [OF st T(1,3) i(2)]) (use i(3) a(1) in auto)
  ultimately show ?thesis using i(1) by simp
qed

lemma rb_store_delete:
  assumes st: "rb_store t A key m M" and a: "M k = Some a"
  shows "\<exists>m'. rb_delete m t a = Some (m', 1) \<and> rb_store t A key m' (M(k := None))"
proof -
  obtain T where T: "rb_ok m t T m" "M = map_of (entries T)" "set (addrs T) \<subseteq> A" using st by (auto simp: rb_store_def)
  obtain nn where r: "rep m t nn T m" and s: "sorted_keys (entries T)" using T(1) unfolding rb_ok_def by blast
  have e: "(k, a) \<in> set (entries T)" using a T(2) sorted_map_iff [OF s] by simp
  then have "a \<in> set (addrs T)" unfolding in_addrs by blast
  from delete_rep [OF T(1) this] obtain m' T' where i: "rb_delete m t a = Some (m', 1)" "rb_ok m t T' m'" "entries T' = filter (\<lambda>(k, b). b \<noteq> a) (entries T)" by blast
  have s': "sorted_keys (entries T')" using i(2) by (simp add: rb_ok_def)
  have same: "b = a \<longleftrightarrow> x = k" if "(x, b) \<in> set (entries T)" for x b
    using entry_key [OF r that] entry_key [OF r e] sorted_map_iff [OF s, of x b] sorted_map_iff [OF s, of k a] that e by auto
  have "map_of (entries T') x = (M(k := None)) x" for x
  proof -
    have "map_of (entries T') x = Some b \<longleftrightarrow> (M(k := None)) x = Some b" for b
      using same [of x b] unfolding T(2) sorted_map_iff [OF s'] unfolding i(3) fun_upd_apply by (auto simp: sorted_map_iff [OF s])
    then show ?thesis by (metis option.exhaust)
  qed
  then have "map_of (entries T') = M(k := None)" by blast
  moreover have "rb_store t A key m' (map_of (entries T'))" by (rule rb_store_next [OF st T(1,3) i(2)]) (use i(3) in auto)
  ultimately show ?thesis using i(1) by simp
qed

interpretation rb: keyed_store "rb_store t A key" A key "\<lambda>m. rb_search m t" "\<lambda>m. rb_insert m t" "\<lambda>m. rb_delete m t" for t A key
proof (unfold_locales, goal_cases)
  case (1 s M k)
  then show ?case using search_rep by (auto simp: rb_store_def)
qed (use rb_store_found rb_store_new rb_store_delete in \<open>auto simp: rb_delete_def\<close>)

lemma rb_init_store:
  assumes "t \<noteq> NULL" and "rm_nodes m (rb_nil t) = Some n" and "rm_root m t = Some r" and "NULL \<notin> A" and "rb_nil t \<notin> A"
    and "\<And>a. a \<in> A \<Longrightarrow> rd m a rb_key = Some (key a)"
  shows "\<exists>m'. rb_init m t = Some (m', 1) \<and> rb_store t A key m' (\<lambda>_. None)"
proof -
  let ?m = "m\<lparr>rm_nodes := (rm_nodes m)(rb_nil t \<mapsto> n\<lparr>rb_color := RB_BLACK\<rparr>), rm_root := (rm_root m)(t \<mapsto> rb_nil t)\<rparr>"
  have "rb_ok ?m t Leaf ?m" using assms(1) by (simp add: rb_ok_def rep_def sorted_keys_def)
  moreover have "rd ?m a rb_key = Some (key a)" if "a \<in> A" for a using assms(5,6) that by (auto simp: rd_def)
  ultimately have "rb_store t A key ?m (\<lambda>_. None)" using assms(4,5) unfolding rb_store_def by (intro conjI exI [of _ Leaf]) auto
  moreover have "rb_init m t = Some (?m, 1)" using assms(1-3) by (simp add: rb_init_def wr_def wr_root_def)
  ultimately show ?thesis by blast
qed

section \<open>Traversal\<close>

fun tree_text :: "rbt \<Rightarrow> u8 list" where
  "tree_text Leaf = []"
| "tree_text (Node l (a, c, k) r) = c_itoa k @ ascii '':'' @ (if c = RB_BLACK then ascii ''B'' else ascii ''R'') @
     ascii ''('' @ tree_text l @ ascii '')('' @ tree_text r @ ascii '')''"

lemma traversal_text:
  assumes "rep m0 t nn (fill ctx s) m"
  shows "rb_pre_traversal m t (rt (rb_nil t) s) = Some (tree_text s, 1)"
  using assms
proof (induction s arbitrary: ctx rule: addrs.induct)
  case 1
  then show ?case by (simp add: rb_pre_traversal.simps rep_fill)
next
  case (2 l a c k r)
  have r: "rep m0 t nn (fill (Lf a c k r # ctx) l) m" "rep m0 t nn (fill (Rf l a c k # ctx) r) m" using 2(3) by simp_all
  have "t \<noteq> NULL" "a \<noteq> NULL" "a \<noteq> rb_nil t" using 2(3) unfolding rep_fill by auto
  then show ?case using 2(1) [OF r(1)] 2(2) [OF r(2)] rep_node [OF 2(3)] by (simp add: rb_pre_traversal.simps [of m t a] Let_def)
qed

section \<open>Properties\<close>

text \<open>
  C25 (refinement). From \<open>rb_init\<close> on, every sequence of insertions of allocated nodes and of deletions of the node
  found under a key runs to its end, returns what the same operations on a map from keys to nodes return, and
  leaves a tree in which \<open>rb_search\<close> finds exactly the nodes of the map.
\<close>

theorem rb_tree_refines_map:
  assumes "t \<noteq> NULL" and "rm_nodes m (rb_nil t) = Some n" and "rm_root m t = Some r" and "NULL \<notin> A" and "rb_nil t \<notin> A"
    and "\<And>a. a \<in> A \<Longrightarrow> rd m a rb_key = Some (key a)" and "op_nodes os \<subseteq> A"
  shows "\<exists>m1 m2. rb_init m t = Some (m1, 1) \<and>
    run_ops (\<lambda>m. rb_search m t) (\<lambda>m. rb_insert m t) (\<lambda>m. rb_delete m t) m1 os = Some (m2, snd (map_ops key (\<lambda>_. None) os)) \<and>
    (\<forall>k. rb_search m2 t k = Some (case fst (map_ops key (\<lambda>_. None) os) k of None \<Rightarrow> NULL | Some a \<Rightarrow> a))"
proof -
  obtain m1 where i: "rb_init m t = Some (m1, 1)" "rb_store t A key m1 (\<lambda>_. None)" using rb_init_store [OF assms(1-6)] by blast
  from rb.run_refines [OF i(2) assms(7)] obtain m2 where
    "run_ops (\<lambda>m. rb_search m t) (\<lambda>m. rb_insert m t) (\<lambda>m. rb_delete m t) m1 os = Some (m2, snd (map_ops key (\<lambda>_. None) os))"
    "rb_store t A key m2 (fst (map_ops key (\<lambda>_. None) os))" by blast
  then show ?thesis using i(1) rb.search_law by blast
qed

definition rb_demo :: rb_tree where
  "rb_demo = \<lparr>rm_nodes = [108 \<mapsto> \<lparr>rb_color = 7, rb_key = 0, rb_lchild = 9, rb_rchild = 9, rb_parent = 9\<rparr>,
       1 \<mapsto> \<lparr>rb_color = RB_BLACK, rb_key = 5, rb_lchild = 108, rb_rchild = 108, rb_parent = 108\<rparr>,
       2 \<mapsto> \<lparr>rb_color = 7, rb_key = 3, rb_lchild = 9, rb_rchild = 9, rb_parent = 9\<rparr>], rm_root = [100 \<mapsto> 1]\<rparr>"

theorem rb_tree_refines_map_witness:
  "\<exists>m1 m2. rb_init rb_demo 100 = Some (m1, 1) \<and>
    run_ops (\<lambda>m. rb_search m 100) (\<lambda>m. rb_insert m 100) (\<lambda>m. rb_delete m 100) m1 [Ins 1, Ins 2, Ins 1, Rem 5] = Some (m2, [1, 1, - 1, 1]) \<and>
    rb_search m2 100 3 = Some 2 \<and> rb_search m2 100 5 = Some NULL"
proof -
  let ?key = "\<lambda>a. if a = 1 then 5 else (3 :: int)" let ?os = "[Ins 1, Ins 2, Ins 1, Rem 5]"
  have e: "map_ops ?key (\<lambda>_. None) ?os = ([3 \<mapsto> 2], [1, 1, - 1, 1])" by (auto simp: fun_upd_twist)
  have "\<exists>m1 m2. rb_init rb_demo 100 = Some (m1, 1) \<and>
    run_ops (\<lambda>m. rb_search m 100) (\<lambda>m. rb_insert m 100) (\<lambda>m. rb_delete m 100) m1 ?os = Some (m2, snd (map_ops ?key (\<lambda>_. None) ?os)) \<and>
    (\<forall>k. rb_search m2 100 k = Some (case fst (map_ops ?key (\<lambda>_. None) ?os) k of None \<Rightarrow> NULL | Some a \<Rightarrow> a))"
    by (rule rb_tree_refines_map [where A = "{1, 2}" and n = "\<lparr>rb_color = 7, rb_key = 0, rb_lchild = 9, rb_rchild = 9, rb_parent = 9\<rparr>" and r = 1])
      (auto simp: rb_demo_def rd_def)
  then obtain m1 m2 where "rb_init rb_demo 100 = Some (m1, 1)"
    "run_ops (\<lambda>m. rb_search m 100) (\<lambda>m. rb_insert m 100) (\<lambda>m. rb_delete m 100) m1 ?os = Some (m2, [1, 1, - 1, 1])"
    and f: "\<And>k. rb_search m2 100 k = Some (case [3 \<mapsto> 2] k of None \<Rightarrow> NULL | Some a \<Rightarrow> a)"
    unfolding e fst_conv snd_conv by blast
  moreover have "rb_search m2 100 3 = Some 2" "rb_search m2 100 5 = Some NULL" using f [of 3] f [of 5] by simp_all
  ultimately show ?thesis by blast
qed

text \<open>
  C26 (invariant). Inserting a node into a red-black tree ends with a red-black tree again (black root, no red node
  with a red child, equal black heights, keys in order), which has exactly the new node more; nothing outside of
  the tree and its sentinel is changed. When the key is present, -1 is returned and nothing is changed.
\<close>

theorem rb_insert_keeps:
  assumes "rb_ok m0 t T m" and "a \<noteq> NULL" and "a \<noteq> rb_nil t" and "a \<notin> set (addrs T)" and "rm_nodes m a = Some n"
  shows "if rb_key n \<in> fst ` set (entries T) then rb_insert m t a = Some (m, - 1)
    else \<exists>m' T'. rb_insert m t a = Some (m', 1) \<and> rb_ok m0 t T' m' \<and> set (entries T') = insert (rb_key n, a) (set (entries T))"
  by (rule insert_rep [OF assms])

definition rb_demo2 :: rb_tree where
  "rb_demo2 = rb_demo\<lparr>rm_nodes := (rm_nodes rb_demo)(108 \<mapsto> \<lparr>rb_color = RB_BLACK, rb_key = 0, rb_lchild = 9, rb_rchild = 9, rb_parent = 9\<rparr>)\<rparr>"

lemma rb_demo2_ok: "rb_ok rb_demo2 100 (Node Leaf (1, RB_BLACK, 5) Leaf) rb_demo2"
  by (simp add: rb_ok_def rep_def sorted_keys_def rb_demo2_def rb_demo_def)

theorem rb_insert_keeps_witness:
  "\<exists>m' T'. rb_insert rb_demo2 100 2 = Some (m', 1) \<and> rb_ok rb_demo2 100 T' m' \<and> set (entries T') = {(3, 2), (5, 1)}"
  using rb_insert_keeps [OF rb_demo2_ok, of 2 "\<lparr>rb_color = 7, rb_key = 3, rb_lchild = 9, rb_rchild = 9, rb_parent = 9\<rparr>"]
  by (simp add: rb_demo2_def rb_demo_def)

text \<open>
  C27 (invariant). Deleting a node of a red-black tree ends with a red-black tree whose content is the old one without
  the node; nothing outside of the new tree and the sentinel is changed, the removed node included.
\<close>

theorem rb_delete_keeps:
  assumes "rb_ok m0 t T m" and "z \<in> set (addrs T)"
  shows "\<exists>m' T'. rb_delete m t z = Some (m', 1) \<and> rb_ok m t T' m' \<and> entries T' = filter (\<lambda>(k, a). a \<noteq> z) (entries T)"
  by (rule delete_rep [OF assms])

theorem rb_delete_keeps_witness:
  "\<exists>m' T'. rb_delete rb_demo2 100 1 = Some (m', 1) \<and> rb_ok rb_demo2 100 T' m' \<and> entries T' = []"
  using rb_delete_keeps [OF rb_demo2_ok, of 1] by simp

text \<open>
  C34 (bounds). A search in a red-black tree of \<open>n\<close> nodes ends after at most \<open>2 * log2 (n + 1) + 1\<close> rounds of the loop of \<open>rb_search\<close>: the loop gives a result
  already with \<open>h + 1\<close> evaluations of its condition for an \<open>h\<close> with \<open>2 ^ (h div 2) \<le> n + 1\<close>, and it is the node with the key, or \<open>NULL\<close> when there is none.
\<close>

theorem rb_search_short:
  assumes "rb_ok m0 t T m"
  shows "\<exists>h root p. 2 ^ (h div 2) \<le> size T + 1 \<and> rm_root m t = Some root \<and> (search_round m (rb_nil t) key ^^ (h + 1)) (\<lambda>_. None) root = Some p \<and>
    search_loop m (rb_nil t) key root = Some p \<and> rb_search m t key = Some (if p = rb_nil t then NULL else p) \<and>
    (if p = rb_nil t then NULL else p) = (case map_of (entries T) key of None \<Rightarrow> NULL | Some a \<Rightarrow> a)"
proof -
  obtain nn where r: "rep m0 t nn T m" using assms unfolding rb_ok_def by blast
  obtain p where p: "search_within (height T + 1) m (rb_nil t) key (rt (rb_nil t) T) = Some p"
    using search_within_height [of m0 t nn "[]" T m "height T" key] r by auto
  have root: "rm_root m t = Some (rt (rb_nil t) T)" "t \<noteq> NULL" using r assms by (auto simp: rep_def rb_ok_def)
  have s: "rb_search m t key = Some (if p = rb_nil t then NULL else p)" using root search_within_loop [OF p] by (simp add: rb_search_def)
  have c: "(if p = rb_nil t then NULL else p) = (case map_of (entries T) key of None \<Rightarrow> NULL | Some a \<Rightarrow> a)" using s search_rep [OF assms, of key] by simp
  show ?thesis by (intro exI conjI, rule rb_height [OF assms], rule root(1), rule p, rule search_within_loop [OF p], rule s, rule c)
qed

theorem rb_search_short_witness:
  "\<exists>h root. 2 ^ (h div 2) \<le> Suc (Suc 0) \<and> rm_root rb_demo2 100 = Some root \<and> (search_round rb_demo2 108 7 ^^ (h + 1)) (\<lambda>_. None) root \<noteq> None"
  using rb_search_short [OF rb_demo2_ok, of 7] by auto

end
