(* ===== verification/List_Head.thy ===== *)
theory List_Head
  imports Circ_List
begin

text \<open>
  The list macros of \<^verbatim>\<open>inc/com/list.h\<close>: circular doubly linked lists that are embedded in other structures, and the
  chains of hash tables with a head of one pointer. \<open>None\<close> is an access to memory that is not allocated.
\<close>

section \<open>Circular lists\<close>

abbreviation (input) LIST_POISON1 :: addr where "LIST_POISON1 \<equiv> 0x00100100"
abbreviation (input) LIST_POISON2 :: addr where "LIST_POISON2 \<equiv> 0x00200200"

record list_head =
  lh_next :: addr
  lh_prev :: addr

type_synonym list_mem = "addr \<Rightarrow> list_head option"

definition lh_wr :: "list_mem \<Rightarrow> addr \<Rightarrow> (list_head \<Rightarrow> list_head) \<Rightarrow> list_mem option" where
  "lh_wr m a f = map_option (\<lambda>n. m(a \<mapsto> f n)) (m a)"

definition lh_nx :: "list_mem \<Rightarrow> addr \<Rightarrow> addr option" where
  "lh_nx m a = map_option lh_next (m a)"

definition lh_pv :: "list_mem \<Rightarrow> addr \<Rightarrow> addr option" where
  "lh_pv m a = map_option lh_prev (m a)"

definition INIT_LIST_HEAD :: "list_mem \<Rightarrow> addr \<Rightarrow> list_mem option" where
  "INIT_LIST_HEAD m ptr = do {
     m1 \<leftarrow> lh_wr m ptr (lh_next_update (\<lambda>_. ptr));
     lh_wr m1 ptr (lh_prev_update (\<lambda>_. ptr))
   }"

definition list_add_between :: "list_mem \<Rightarrow> addr \<Rightarrow> addr \<Rightarrow> addr \<Rightarrow> list_mem option" where
  "list_add_between m new prev next = do {
     m1 \<leftarrow> lh_wr m next (lh_prev_update (\<lambda>_. new));
     m2 \<leftarrow> lh_wr m1 new (lh_next_update (\<lambda>_. next));
     m3 \<leftarrow> lh_wr m2 new (lh_prev_update (\<lambda>_. prev));
     lh_wr m3 prev (lh_next_update (\<lambda>_. new))
   }"

definition my_list_add :: "list_mem \<Rightarrow> addr \<Rightarrow> addr \<Rightarrow> list_mem option" where
  "my_list_add m new head = do { n \<leftarrow> lh_nx m head; list_add_between m new head n }"

definition list_add_tail :: "list_mem \<Rightarrow> addr \<Rightarrow> addr \<Rightarrow> list_mem option" where
  "list_add_tail m new head = do { p \<leftarrow> lh_pv m head; list_add_between m new p head }"

definition list_del_between :: "list_mem \<Rightarrow> addr \<Rightarrow> addr \<Rightarrow> list_mem option" where
  "list_del_between m prev next = do {
     m1 \<leftarrow> lh_wr m next (lh_prev_update (\<lambda>_. prev));
     lh_wr m1 prev (lh_next_update (\<lambda>_. next))
   }"

definition list_unlink :: "list_mem \<Rightarrow> addr \<Rightarrow> list_mem option" where
  "list_unlink m entry = do { p \<leftarrow> lh_pv m entry; n \<leftarrow> lh_nx m entry; list_del_between m p n }"

definition list_del :: "list_mem \<Rightarrow> addr \<Rightarrow> list_mem option" where
  "list_del m entry = do {
     m1 \<leftarrow> list_unlink m entry;
     m2 \<leftarrow> lh_wr m1 entry (lh_next_update (\<lambda>_. LIST_POISON1));
     lh_wr m2 entry (lh_prev_update (\<lambda>_. LIST_POISON2))
   }"

definition list_del_init :: "list_mem \<Rightarrow> addr \<Rightarrow> list_mem option" where
  "list_del_init m entry = do { m1 \<leftarrow> list_unlink m entry; INIT_LIST_HEAD m1 entry }"

definition list_move :: "list_mem \<Rightarrow> addr \<Rightarrow> addr \<Rightarrow> list_mem option" where
  "list_move m list head = do { m1 \<leftarrow> list_unlink m list; my_list_add m1 list head }"

definition list_move_tail :: "list_mem \<Rightarrow> addr \<Rightarrow> addr \<Rightarrow> list_mem option" where
  "list_move_tail m list head = do { m1 \<leftarrow> list_unlink m list; list_add_tail m1 list head }"

definition list_empty :: "list_mem \<Rightarrow> addr \<Rightarrow> bool option" where
  "list_empty m head = do { n \<leftarrow> lh_nx m head; Some (n = head) }"

definition list_empty_careful :: "list_mem \<Rightarrow> addr \<Rightarrow> bool option" where
  "list_empty_careful m head = do { n \<leftarrow> lh_nx m head; p \<leftarrow> lh_pv m head; Some (n = head \<and> n = p) }"

definition list_splice_at :: "list_mem \<Rightarrow> addr \<Rightarrow> addr \<Rightarrow> list_mem option" where
  "list_splice_at m list head = do {
     first \<leftarrow> lh_nx m list;
     last \<leftarrow> lh_pv m list;
     at \<leftarrow> lh_nx m head;
     m1 \<leftarrow> lh_wr m first (lh_prev_update (\<lambda>_. head));
     m2 \<leftarrow> lh_wr m1 head (lh_next_update (\<lambda>_. first));
     m3 \<leftarrow> lh_wr m2 last (lh_next_update (\<lambda>_. at));
     lh_wr m3 at (lh_prev_update (\<lambda>_. last))
   }"

definition list_splice :: "list_mem \<Rightarrow> addr \<Rightarrow> addr \<Rightarrow> list_mem option" where
  "list_splice m list head = do { e \<leftarrow> list_empty m list; if \<not> e then list_splice_at m list head else Some m }"

definition list_splice_init :: "list_mem \<Rightarrow> addr \<Rightarrow> addr \<Rightarrow> list_mem option" where
  "list_splice_init m list head = do {
     e \<leftarrow> list_empty m list;
     if \<not> e then do { m1 \<leftarrow> list_splice_at m list head; INIT_LIST_HEAD m1 list } else Some m
   }"

text \<open>The loops: the nodes that are visited, in their order.\<close>

partial_function (option) for_each_loop :: "list_mem \<Rightarrow> addr \<Rightarrow> addr \<Rightarrow> addr list option" where
  "for_each_loop m head pos =
     (if pos = head then Some []
      else do { n \<leftarrow> lh_nx m pos; r \<leftarrow> for_each_loop m head n; Some (pos # r) })"

definition list_for_each :: "list_mem \<Rightarrow> addr \<Rightarrow> addr list option" where
  "list_for_each m head = do { n \<leftarrow> lh_nx m head; for_each_loop m head n }"

partial_function (option) for_each_prev_loop :: "list_mem \<Rightarrow> addr \<Rightarrow> addr \<Rightarrow> addr list option" where
  "for_each_prev_loop m head pos =
     (if pos = head then Some []
      else do { p \<leftarrow> lh_pv m pos; r \<leftarrow> for_each_prev_loop m head p; Some (pos # r) })"

definition list_for_each_prev :: "list_mem \<Rightarrow> addr \<Rightarrow> addr list option" where
  "list_for_each_prev m head = do { p \<leftarrow> lh_pv m head; for_each_prev_loop m head p }"

text \<open>The safe loop reads the successor before the body, which may change the memory.\<close>

partial_function (option) for_each_safe_loop :: "(list_mem \<Rightarrow> addr \<Rightarrow> list_mem option) \<Rightarrow> list_mem \<Rightarrow> addr \<Rightarrow> addr \<Rightarrow> addr \<Rightarrow> list_mem option" where
  "for_each_safe_loop body m head pos n =
     (if pos = head then Some m
      else do { m1 \<leftarrow> body m pos; n1 \<leftarrow> lh_nx m1 n; for_each_safe_loop body m1 head n n1 })"

definition list_for_each_safe :: "(list_mem \<Rightarrow> addr \<Rightarrow> list_mem option) \<Rightarrow> list_mem \<Rightarrow> addr \<Rightarrow> list_mem option" where
  "list_for_each_safe body m head = do {
     pos \<leftarrow> lh_nx m head;
     n \<leftarrow> lh_nx m pos;
     for_each_safe_loop body m head pos n
   }"

section \<open>Chains of hash tables\<close>

text \<open>\<open>pprev\<close> points to the pointer that leads to the node: the head's \<open>first\<close> or the \<open>next\<close> of the node before.\<close>

datatype hlink = H_null | H_first addr | H_next addr | H_poison

record hlist_node =
  hn_next :: addr
  hn_pprev :: hlink

record hlist_mem =
  hm_nodes :: "addr \<Rightarrow> hlist_node option"
  hm_first :: "addr \<Rightarrow> addr option"

definition hn_wr :: "hlist_mem \<Rightarrow> addr \<Rightarrow> (hlist_node \<Rightarrow> hlist_node) \<Rightarrow> hlist_mem option" where
  "hn_wr m a f = map_option (\<lambda>n. m\<lparr>hm_nodes := (hm_nodes m)(a \<mapsto> f n)\<rparr>) (hm_nodes m a)"

definition hl_store :: "hlist_mem \<Rightarrow> hlink \<Rightarrow> addr \<Rightarrow> hlist_mem option" where
  "hl_store m l v = (case l of
     H_first h \<Rightarrow> map_option (\<lambda>_. m\<lparr>hm_first := (hm_first m)(h \<mapsto> v)\<rparr>) (hm_first m h)
   | H_next a \<Rightarrow> hn_wr m a (hn_next_update (\<lambda>_. v))
   | _ \<Rightarrow> None)"

definition INIT_HLIST_HEAD :: "hlist_mem \<Rightarrow> addr \<Rightarrow> hlist_mem option" where
  "INIT_HLIST_HEAD m ptr = hl_store m (H_first ptr) NULL"

definition INIT_HLIST_NODE :: "hlist_mem \<Rightarrow> addr \<Rightarrow> hlist_mem option" where
  "INIT_HLIST_NODE m ptr = do {
     m1 \<leftarrow> hn_wr m ptr (hn_next_update (\<lambda>_. NULL));
     hn_wr m1 ptr (hn_pprev_update (\<lambda>_. H_null))
   }"

definition hlist_unhashed :: "hlist_mem \<Rightarrow> addr \<Rightarrow> bool option" where
  "hlist_unhashed m h = do { n \<leftarrow> hm_nodes m h; Some (hn_pprev n = H_null) }"

definition hlist_empty :: "hlist_mem \<Rightarrow> addr \<Rightarrow> bool option" where
  "hlist_empty m h = do { f \<leftarrow> hm_first m h; Some (f = NULL) }"

definition hlist_unlink :: "hlist_mem \<Rightarrow> addr \<Rightarrow> hlist_mem option" where
  "hlist_unlink m n = do {
     nd \<leftarrow> hm_nodes m n;
     m1 \<leftarrow> hl_store m (hn_pprev nd) (hn_next nd);
     if hn_next nd \<noteq> NULL then hn_wr m1 (hn_next nd) (hn_pprev_update (\<lambda>_. hn_pprev nd)) else Some m1
   }"

definition hlist_del :: "hlist_mem \<Rightarrow> addr \<Rightarrow> hlist_mem option" where
  "hlist_del m n = do {
     m1 \<leftarrow> hlist_unlink m n;
     m2 \<leftarrow> hn_wr m1 n (hn_next_update (\<lambda>_. LIST_POISON1));
     hn_wr m2 n (hn_pprev_update (\<lambda>_. H_poison))
   }"

definition hlist_del_init :: "hlist_mem \<Rightarrow> addr \<Rightarrow> hlist_mem option" where
  "hlist_del_init m n = do {
     nd \<leftarrow> hm_nodes m n;
     if hn_pprev nd \<noteq> H_null then do { m1 \<leftarrow> hlist_unlink m n; INIT_HLIST_NODE m1 n } else Some m
   }"

definition hlist_add_head :: "hlist_mem \<Rightarrow> addr \<Rightarrow> addr \<Rightarrow> hlist_mem option" where
  "hlist_add_head m n h = do {
     first \<leftarrow> hm_first m h;
     m1 \<leftarrow> hn_wr m n (hn_next_update (\<lambda>_. first));
     m2 \<leftarrow> (if first \<noteq> NULL then hn_wr m1 first (hn_pprev_update (\<lambda>_. H_next n)) else Some m1);
     m3 \<leftarrow> hl_store m2 (H_first h) n;
     hn_wr m3 n (hn_pprev_update (\<lambda>_. H_first h))
   }"

definition hlist_add_before :: "hlist_mem \<Rightarrow> addr \<Rightarrow> addr \<Rightarrow> hlist_mem option" where
  "hlist_add_before m n next = do {
     nd \<leftarrow> hm_nodes m next;
     m1 \<leftarrow> hn_wr m n (hn_pprev_update (\<lambda>_. hn_pprev nd));
     m2 \<leftarrow> hn_wr m1 n (hn_next_update (\<lambda>_. next));
     m3 \<leftarrow> hn_wr m2 next (hn_pprev_update (\<lambda>_. H_next n));
     nn \<leftarrow> hm_nodes m3 n;
     hl_store m3 (hn_pprev nn) n
   }"

definition hlist_add_after :: "hlist_mem \<Rightarrow> addr \<Rightarrow> addr \<Rightarrow> hlist_mem option" where
  "hlist_add_after m n next = do {
     nd \<leftarrow> hm_nodes m n;
     m1 \<leftarrow> hn_wr m next (hn_next_update (\<lambda>_. hn_next nd));
     m2 \<leftarrow> hn_wr m1 n (hn_next_update (\<lambda>_. next));
     m3 \<leftarrow> hn_wr m2 next (hn_pprev_update (\<lambda>_. H_next n));
     nx \<leftarrow> hm_nodes m3 next;
     if hn_next nx \<noteq> NULL then hn_wr m3 (hn_next nx) (hn_pprev_update (\<lambda>_. H_next next)) else Some m3
   }"

partial_function (option) hlist_loop :: "hlist_mem \<Rightarrow> addr \<Rightarrow> addr list option" where
  "hlist_loop m pos =
     (if pos = NULL then Some []
      else do { n \<leftarrow> hm_nodes m pos; r \<leftarrow> hlist_loop m (hn_next n); Some (pos # r) })"

definition hlist_for_each :: "hlist_mem \<Rightarrow> addr \<Rightarrow> addr list option" where
  "hlist_for_each m head = do { f \<leftarrow> hm_first m head; hlist_loop m f }"

end
