(* ===== verification/List_Props.thy ===== *)
theory List_Props
  imports List_Head
begin

text \<open>
  Properties of the list macros: the circular lists provide the interface \<open>circ_heap\<close>, sequences of operations are
  those on lists of addresses, joining two lists, and the chains of hash tables.
\<close>

section \<open>The interface of circular lists\<close>

lemma lh_maps_None [simp]: "lh_nx m p = None \<longleftrightarrow> m p = None" "lh_pv m p = None \<longleftrightarrow> m p = None"
  by (simp_all add: lh_nx_def lh_pv_def)

lemma lh_wr_next:
  assumes "a \<in> dom m"
  shows "\<exists>m'. lh_wr m a (lh_next_update (\<lambda>_. v)) = Some m' \<and> lh_nx m' = (lh_nx m)(a \<mapsto> v) \<and> lh_pv m' = lh_pv m \<and> dom m' = dom m \<and>
    (\<forall>q. q \<noteq> a \<longrightarrow> m' q = m q)"
  using assms by (auto simp: lh_wr_def lh_nx_def lh_pv_def intro!: ext)

lemma lh_wr_prev:
  assumes "a \<in> dom m"
  shows "\<exists>m'. lh_wr m a (lh_prev_update (\<lambda>_. v)) = Some m' \<and> lh_pv m' = (lh_pv m)(a \<mapsto> v) \<and> lh_nx m' = lh_nx m \<and> dom m' = dom m \<and>
    (\<forall>q. q \<noteq> a \<longrightarrow> m' q = m q)"
  using assms by (auto simp: lh_wr_def lh_nx_def lh_pv_def intro!: ext)

lemma list_add_maps:
  assumes "a \<in> dom m" and "b \<in> dom m" and "n \<in> dom m" and "n \<noteq> a" and "n \<noteq> b"
  shows "\<exists>m'. list_add_between m n a b = Some m' \<and> lh_nx m' = (lh_nx m)(n \<mapsto> b, a \<mapsto> n) \<and> lh_pv m' = (lh_pv m)(n \<mapsto> a, b \<mapsto> n) \<and> dom m' = dom m"
proof -
  obtain m1 where m1: "lh_wr m b (lh_prev_update (\<lambda>_. n)) = Some m1" "lh_pv m1 = (lh_pv m)(b \<mapsto> n)" "lh_nx m1 = lh_nx m" "dom m1 = dom m"
    using lh_wr_prev [OF assms(2)] by blast
  obtain m2 where m2: "lh_wr m1 n (lh_next_update (\<lambda>_. b)) = Some m2" "lh_nx m2 = (lh_nx m1)(n \<mapsto> b)" "lh_pv m2 = lh_pv m1" "dom m2 = dom m"
    using lh_wr_next [of n m1 b] assms(3) m1(4) by auto
  obtain m3 where m3: "lh_wr m2 n (lh_prev_update (\<lambda>_. a)) = Some m3" "lh_pv m3 = (lh_pv m2)(n \<mapsto> a)" "lh_nx m3 = lh_nx m2" "dom m3 = dom m"
    using lh_wr_prev [of n m2 a] assms(3) m2(4) by auto
  obtain m4 where "lh_wr m3 a (lh_next_update (\<lambda>_. n)) = Some m4" "lh_nx m4 = (lh_nx m3)(a \<mapsto> n)" "lh_pv m4 = lh_pv m3" "dom m4 = dom m"
    using lh_wr_next [of a m3 n] assms(1) m3(4) by auto
  then show ?thesis using m1 m2 m3 assms(4,5) by (simp add: list_add_between_def fun_upd_twist)
qed

lemma list_unlink_maps:
  assumes "lh_nx m x = Some b" and "lh_pv m x = Some a" and "a \<in> dom m" and "b \<in> dom m"
  shows "\<exists>m'. list_unlink m x = Some m' \<and> lh_nx m' = (lh_nx m)(a \<mapsto> b) \<and> lh_pv m' = (lh_pv m)(b \<mapsto> a) \<and> dom m' = dom m"
proof -
  obtain m1 where m1: "lh_wr m b (lh_prev_update (\<lambda>_. a)) = Some m1" "lh_pv m1 = (lh_pv m)(b \<mapsto> a)" "lh_nx m1 = lh_nx m" "dom m1 = dom m"
    using lh_wr_prev [OF assms(4)] by blast
  obtain m2 where "lh_wr m1 a (lh_next_update (\<lambda>_. b)) = Some m2" "lh_nx m2 = (lh_nx m1)(a \<mapsto> b)" "lh_pv m2 = lh_pv m1" "dom m2 = dom m"
    using lh_wr_next [of a m1 b] assms(3) m1(4) by auto
  then show ?thesis using m1 assms(1,2) by (simp add: list_unlink_def list_del_between_def)
qed

interpretation lh: circ_heap lh_nx lh_pv "\<lambda>m a n. my_list_add m n a" list_unlink
proof (unfold_locales, goal_cases)
  case (1 m a b n)
  then have "a \<in> dom m" "b \<in> dom m" "n \<in> dom m" by (auto simp: lh_nx_def)
  from list_add_maps [OF this 1(4,5)] 1(1) show ?case by (auto simp: my_list_add_def)
next
  case (2 m x b a)
  then have "a \<in> dom m" "b \<in> dom m" by auto
  from list_unlink_maps [OF 2(1,2) this] show ?case by blast
qed

text \<open>The list of the nodes behind a head; no node is at the address 0.\<close>

definition linked :: "list_mem \<Rightarrow> addr \<Rightarrow> addr list \<Rightarrow> bool" where
  "linked m h xs \<longleftrightarrow> ring (lh_nx m) (lh_pv m) (h # xs) \<and> NULL \<notin> set (h # xs)"

lemma lh_wr_dom: "lh_wr m a f = Some m' \<Longrightarrow> dom m' = dom m"
  by (auto simp: lh_wr_def split: if_splits)

lemma my_list_add_dom: "my_list_add m n a = Some m' \<Longrightarrow> dom m' = dom m"
  unfolding my_list_add_def list_add_between_def bind_eq_Some_conv using lh_wr_dom by metis

lemma list_unlink_dom: "list_unlink m x = Some m' \<Longrightarrow> dom m' = dom m"
  unfolding list_unlink_def list_del_between_def bind_eq_Some_conv using lh_wr_dom by metis

lemma linked_frame:
  assumes "linked m h xs" and "\<And>q. q \<in> set (h # xs) \<Longrightarrow> m' q = m q"
  shows "linked m' h xs"
  using assms ring_cong [of "h # xs" "lh_nx m'" "lh_nx m" "lh_pv m'" "lh_pv m"] by (auto simp: linked_def lh_nx_def lh_pv_def)

lemma init_linked:
  assumes "m h \<noteq> None" and "h \<noteq> NULL"
  shows "\<exists>m'. INIT_LIST_HEAD m h = Some m' \<and> linked m' h [] \<and> (\<forall>q. q \<noteq> h \<longrightarrow> m' q = m q) \<and> dom m' = dom m"
  using assms by (auto simp: INIT_LIST_HEAD_def lh_wr_def linked_def lh_nx_def lh_pv_def)

lemma my_list_add_linked:
  assumes "linked m h xs" and "n \<notin> set (h # xs)" and "m n \<noteq> None" and "n \<noteq> NULL"
  shows "\<exists>m'. my_list_add m n h = Some m' \<and> linked m' h (n # xs) \<and> dom m' = dom m"
proof -
  have "ring (lh_nx m) (lh_pv m) (h # xs)" "h \<noteq> NULL" using assms(1) by (auto simp: linked_def)
  from lh.link_ring [OF this(1) assms(2) _ this(2) assms(4)] assms(3) obtain m' where
    m': "my_list_add m n h = Some m'" "ring (lh_nx m') (lh_pv m') (h # n # xs)" by auto
  have "dom m' = dom m" by (rule my_list_add_dom [OF m'(1)])
  then show ?thesis using m' assms(1,4) by (auto simp: linked_def)
qed

lemma list_add_tail_linked:
  assumes "linked m h xs" and "n \<notin> set (h # xs)" and "m n \<noteq> None" and "n \<noteq> NULL"
  shows "\<exists>m'. list_add_tail m n h = Some m' \<and> linked m' h (xs @ [n]) \<and> dom m' = dom m"
proof (cases xs rule: rev_cases)
  case Nil
  then show ?thesis using my_list_add_linked [OF assms] assms(1) by (auto simp: my_list_add_def list_add_tail_def linked_def)
next
  case (snoc ys z)
  have r: "ring (lh_nx m) (lh_pv m) ((h # ys) @ z # [])" and z: "z \<noteq> NULL" using assms(1) snoc by (auto simp: linked_def)
  have zh: "lh_nx m z = Some h" "lh_pv m h = Some z" using assms(1) by (auto simp: linked_def snoc seg_append)
  from lh.link_ring_at [OF r _ _ z assms(4)] assms(2,3) snoc obtain m' where
    m': "my_list_add m n z = Some m'" "ring (lh_nx m') (lh_pv m') (h # ys @ [z, n])" by auto
  have "list_add_tail m n h = my_list_add m n z" using zh by (simp add: my_list_add_def list_add_tail_def)
  moreover have "dom m' = dom m" by (rule my_list_add_dom [OF m'(1)])
  ultimately show ?thesis using m' assms(1,4) snoc by (auto simp: linked_def)
qed

lemma list_unlink_linked:
  assumes "linked m h (ys @ x # zs)"
  shows "\<exists>m'. list_unlink m x = Some m' \<and> linked m' h (ys @ zs) \<and> dom m' = dom m"
proof -
  have r: "ring (lh_nx m) (lh_pv m) (x # zs @ h # ys)"
    using assms ring_rotate_at [of "lh_nx m" "lh_pv m" "h # ys" x zs] by (simp add: linked_def del: ring.simps)
  obtain q qs where q: "zs @ h # ys = q # qs" by (cases zs) auto
  from lh.unlink_ring [OF r [unfolded q]] obtain m' where m': "list_unlink m x = Some m'" "ring (lh_nx m') (lh_pv m') (zs @ h # ys)"
    unfolding q by blast
  have "ring (lh_nx m') (lh_pv m') (h # ys @ zs)" using m'(2) ring_rotate_at [of "lh_nx m'" "lh_pv m'" zs h ys] by (simp del: ring.simps)
  moreover have "dom m' = dom m" by (rule list_unlink_dom [OF m'(1)])
  ultimately show ?thesis using m'(1) assms by (auto simp: linked_def)
qed

text \<open>The loops visit the nodes in both directions.\<close>

lemma for_each_seg:
  assumes "seg (lh_nx m) (lh_pv m) p xs h" and "h \<notin> set xs"
  shows "do { n \<leftarrow> lh_nx m p; for_each_loop m h n } = Some xs"
  using assms
proof (induction xs arbitrary: p)
  case (Cons x xs)
  then have "do { n \<leftarrow> lh_nx m x; for_each_loop m h n } = Some xs" by simp
  then show ?case using Cons.prems by (auto simp: for_each_loop.simps [of m h x] bind_eq_Some_conv)
qed (simp add: for_each_loop.simps)

lemma for_each_prev_seg:
  assumes "seg (lh_nx m) (lh_pv m) h xs p" and "h \<notin> set xs"
  shows "do { n \<leftarrow> lh_pv m p; for_each_prev_loop m h n } = Some (rev xs)"
  using assms
proof (induction xs arbitrary: p rule: rev_induct)
  case (snoc x xs)
  then have "do { n \<leftarrow> lh_pv m x; for_each_prev_loop m h n } = Some (rev xs)" by (simp add: seg_append)
  then show ?case using snoc.prems by (auto simp: seg_append for_each_prev_loop.simps [of m h x] bind_eq_Some_conv)
qed (simp add: for_each_prev_loop.simps)

lemma linked_traversal:
  assumes "linked m h xs"
  shows "list_for_each m h = Some xs" and "list_for_each_prev m h = Some (rev xs)" and "list_empty m h = Some (xs = [])"
    and "list_empty_careful m h = Some (xs = [])"
proof -
  have s: "seg (lh_nx m) (lh_pv m) h xs h" "h \<notin> set xs" using assms by (auto simp: linked_def)
  show "list_for_each m h = Some xs" using for_each_seg [OF s] by (simp add: list_for_each_def)
  show "list_for_each_prev m h = Some (rev xs)" using for_each_prev_seg [OF s] by (simp add: list_for_each_prev_def)
  have "lh_nx m h = Some (hd (xs @ [h]))" using s(1) by (cases xs) auto
  moreover obtain b where "lh_pv m h = Some b" "xs = [] \<longrightarrow> b = h" using s(1) by (cases xs rule: rev_cases) (auto simp: seg_append)
  ultimately show "list_empty m h = Some (xs = [])" "list_empty_careful m h = Some (xs = [])"
    using s(2) by (cases xs; auto simp: list_empty_def list_empty_careful_def)+
qed

section \<open>Sequences of operations\<close>

datatype list_op = Add addr | Add_tail addr | Del addr | Del_init addr | Move addr | Move_tail addr

fun list_step :: "list_mem \<Rightarrow> addr \<Rightarrow> list_op \<Rightarrow> list_mem option" where
  "list_step m h (Add n) = my_list_add m n h"
| "list_step m h (Add_tail n) = list_add_tail m n h"
| "list_step m h (Del n) = list_del m n"
| "list_step m h (Del_init n) = list_del_init m n"
| "list_step m h (Move n) = list_move m n h"
| "list_step m h (Move_tail n) = list_move_tail m n h"

fun list_run :: "list_mem \<Rightarrow> addr \<Rightarrow> list_op list \<Rightarrow> list_mem option" where
  "list_run m h [] = Some m"
| "list_run m h (x # os) = do { m1 \<leftarrow> list_step m h x; list_run m1 h os }"

text \<open>What the operations do to the list of the nodes; a node is added only when it is not in the list, and removed or moved only when it is.\<close>

fun abs_step :: "addr list \<Rightarrow> list_op \<Rightarrow> addr list" where
  "abs_step xs (Add n) = n # xs"
| "abs_step xs (Add_tail n) = xs @ [n]"
| "abs_step xs (Del n) = remove1 n xs"
| "abs_step xs (Del_init n) = remove1 n xs"
| "abs_step xs (Move n) = n # remove1 n xs"
| "abs_step xs (Move_tail n) = remove1 n xs @ [n]"

fun step_ok :: "addr set \<Rightarrow> addr list \<Rightarrow> list_op \<Rightarrow> bool" where
  "step_ok A xs (Add n) \<longleftrightarrow> n \<in> A \<and> n \<notin> set xs"
| "step_ok A xs (Add_tail n) \<longleftrightarrow> n \<in> A \<and> n \<notin> set xs"
| "step_ok A xs (Del n) \<longleftrightarrow> n \<in> set xs"
| "step_ok A xs (Del_init n) \<longleftrightarrow> n \<in> set xs"
| "step_ok A xs (Move n) \<longleftrightarrow> n \<in> set xs"
| "step_ok A xs (Move_tail n) \<longleftrightarrow> n \<in> set xs"

fun steps_ok :: "addr set \<Rightarrow> addr list \<Rightarrow> list_op list \<Rightarrow> bool" where
  "steps_ok A xs [] \<longleftrightarrow> True"
| "steps_ok A xs (x # os) \<longleftrightarrow> step_ok A xs x \<and> steps_ok A (abs_step xs x) os"

lemma unlink_entry:
  assumes l: "linked m h xs" and x: "x \<in> set xs"
  shows "\<exists>m1. list_unlink m x = Some m1 \<and> linked m1 h (remove1 x xs) \<and> dom m1 = dom m \<and> x \<in> dom m \<and> x \<noteq> NULL \<and> x \<notin> set (h # remove1 x xs)"
proof -
  obtain ys zs where xs: "xs = ys @ x # zs" "x \<notin> set ys" using split_list_first [OF x] by blast
  have d: "distinct (h # xs)" "NULL \<notin> set (h # xs)" using l by (auto simp: linked_def)
  have "lh_nx m x \<noteq> None" using ring_nodes [of "lh_nx m" "lh_pv m" "h # xs" x] l x by (auto simp: linked_def)
  then have "x \<in> dom m" by (auto simp: lh_nx_def)
  moreover have "remove1 x xs = ys @ zs" using xs by (simp add: remove1_append)
  ultimately show ?thesis using list_unlink_linked [of m h ys x zs] l d xs x by auto
qed

lemma list_step_refines:
  assumes l: "linked m h xs" and ok: "step_ok A xs x" and A: "A \<subseteq> dom m" "h \<notin> A" "NULL \<notin> A"
  shows "\<exists>m'. list_step m h x = Some m' \<and> linked m' h (abs_step xs x) \<and> dom m' = dom m"
proof (cases x)
  case (Add n)
  then show ?thesis using my_list_add_linked [OF l, of n] ok A by auto
next
  case (Add_tail n)
  then show ?thesis using list_add_tail_linked [OF l, of n] ok A by auto
next
  case (Del n)
  then obtain m1 where m1: "list_unlink m n = Some m1" "linked m1 h (remove1 n xs)" "dom m1 = dom m" "n \<in> dom m" "n \<notin> set (h # remove1 n xs)"
    using unlink_entry [OF l, of n] ok by auto
  obtain m2 where m2: "lh_wr m1 n (lh_next_update (\<lambda>_. LIST_POISON1)) = Some m2" "dom m2 = dom m" "\<forall>q. q \<noteq> n \<longrightarrow> m2 q = m1 q"
    using lh_wr_next [of n m1 LIST_POISON1] m1(3,4) by auto
  obtain m3 where m3: "lh_wr m2 n (lh_prev_update (\<lambda>_. LIST_POISON2)) = Some m3" "dom m3 = dom m" "\<forall>q. q \<noteq> n \<longrightarrow> m3 q = m2 q"
    using lh_wr_prev [of n m2 LIST_POISON2] m2(2) m1(4) by auto
  have "linked m3 h (remove1 n xs)" by (rule linked_frame [OF m1(2)]) (use m1(5) m2(3) m3(3) in auto)
  then show ?thesis using Del m1(1) m2(1) m3(1,2) by (simp add: list_del_def)
next
  case (Del_init n)
  then obtain m1 where m1: "list_unlink m n = Some m1" "linked m1 h (remove1 n xs)" "dom m1 = dom m" "n \<in> dom m" "n \<noteq> NULL" "n \<notin> set (h # remove1 n xs)"
    using unlink_entry [OF l, of n] ok by auto
  obtain m2 where m2: "INIT_LIST_HEAD m1 n = Some m2" "\<forall>q. q \<noteq> n \<longrightarrow> m2 q = m1 q" "dom m2 = dom m1"
    using init_linked [of m1 n] m1(3-5) by (auto simp: dom_def)
  have "linked m2 h (remove1 n xs)" by (rule linked_frame [OF m1(2)]) (use m1(6) m2(2) in auto)
  then show ?thesis using Del_init m1(1,3) m2(1,3) by (simp add: list_del_init_def)
next
  case (Move n)
  then obtain m1 where m1: "list_unlink m n = Some m1" "linked m1 h (remove1 n xs)" "dom m1 = dom m" "n \<in> dom m" "n \<noteq> NULL" "n \<notin> set (h # remove1 n xs)"
    using unlink_entry [OF l, of n] ok by auto
  then show ?thesis using Move my_list_add_linked [OF m1(2,6) _ m1(5)] by (auto simp: list_move_def)
next
  case (Move_tail n)
  then obtain m1 where m1: "list_unlink m n = Some m1" "linked m1 h (remove1 n xs)" "dom m1 = dom m" "n \<in> dom m" "n \<noteq> NULL" "n \<notin> set (h # remove1 n xs)"
    using unlink_entry [OF l, of n] ok by auto
  then show ?thesis using Move_tail list_add_tail_linked [OF m1(2,6) _ m1(5)] by (auto simp: list_move_tail_def)
qed

lemma list_run_refines:
  assumes "linked m h xs" and "steps_ok A xs os" and "A \<subseteq> dom m" and "h \<notin> A" and "NULL \<notin> A"
  shows "\<exists>m'. list_run m h os = Some m' \<and> linked m' h (foldl abs_step xs os)"
  using assms
proof (induction os arbitrary: m xs)
  case (Cons x os)
  then obtain m1 where m1: "list_step m h x = Some m1" "linked m1 h (abs_step xs x)" "dom m1 = dom m"
    using list_step_refines [of m h xs A x] by auto
  then show ?case using Cons.IH [OF m1(2)] Cons.prems by auto
qed simp

section \<open>Joining two lists\<close>

lemma seg_splice:
  assumes "seg nx pv l ys l" and "ys \<noteq> []" and "distinct ys" and "h \<notin> set ys" and "a \<notin> set ys"
  shows "seg (nx(h \<mapsto> hd ys, last ys \<mapsto> a)) (pv(hd ys \<mapsto> h, a \<mapsto> last ys)) h ys a"
proof -
  obtain y rest where ys: "ys = y # rest" using assms(2) by (cases ys) auto
  show ?thesis
  proof (cases rest rule: rev_cases)
    case Nil
    then show ?thesis using assms ys by auto
  next
    case (snoc w z)
    let ?nx = "nx(h \<mapsto> y, z \<mapsto> a)" let ?pv = "pv(y \<mapsto> h, a \<mapsto> z)"
    have "seg nx pv y w z" using assms(1) by (simp add: ys snoc seg_append)
    moreover have "seg ?nx ?pv y w z = seg nx pv y w z" by (rule seg_cong) (use assms(3-5) ys snoc in auto)
    ultimately show ?thesis using assms(3-5) by (auto simp: ys snoc seg_append)
  qed
qed

lemma splice_at_linked:
  assumes h: "linked m h xs" and l: "linked m l ys" and ne: "ys \<noteq> []" and dj: "set (h # xs) \<inter> set (l # ys) = {}"
  shows "\<exists>m'. list_splice_at m l h = Some m' \<and> linked m' h (ys @ xs) \<and> m' l = m l \<and> dom m' = dom m"
proof -
  let ?a = "hd (xs @ [h])" let ?f = "hd ys" let ?z = "last ys"
  have sh: "seg (lh_nx m) (lh_pv m) h xs h" "distinct (h # xs)" and sl: "seg (lh_nx m) (lh_pv m) l ys l" "distinct (l # ys)"
    using h l by (auto simp: linked_def)
  have at: "lh_nx m h = Some ?a" using sh(1) by (cases xs) auto
  have f: "lh_nx m l = Some ?f" using sl(1) ne by (cases ys) auto
  have z: "lh_pv m l = Some ?z" using sl(1) ne by (cases ys rule: rev_cases) (auto simp: seg_append)
  have i: "?a \<in> set (h # xs)" "?f \<in> set ys" "?z \<in> set ys" using ne by (cases xs; simp)+
  have "set (h # xs) \<subseteq> dom m" "set (l # ys) \<subseteq> dom m"
    using ring_nodes [of "lh_nx m" "lh_pv m" "h # xs"] ring_nodes [of "lh_nx m" "lh_pv m" "l # ys"] h l by (fastforce simp: linked_def lh_nx_def)+
  then have d: "h \<in> dom m" "?a \<in> dom m" "?f \<in> dom m" "?z \<in> dom m" using i by auto
  obtain m1 where m1: "lh_wr m ?f (lh_prev_update (\<lambda>_. h)) = Some m1" "lh_pv m1 = (lh_pv m)(?f \<mapsto> h)" "lh_nx m1 = lh_nx m" "dom m1 = dom m" "\<forall>q. q \<noteq> ?f \<longrightarrow> m1 q = m q"
    using lh_wr_prev [OF d(3)] by blast
  obtain m2 where m2: "lh_wr m1 h (lh_next_update (\<lambda>_. ?f)) = Some m2" "lh_nx m2 = (lh_nx m)(h \<mapsto> ?f)" "lh_pv m2 = lh_pv m1" "dom m2 = dom m" "\<forall>q. q \<noteq> h \<longrightarrow> m2 q = m1 q"
    using lh_wr_next [of h m1 ?f] d(1) m1(3,4) by auto
  obtain m3 where m3: "lh_wr m2 ?z (lh_next_update (\<lambda>_. ?a)) = Some m3" "lh_nx m3 = (lh_nx m)(h \<mapsto> ?f, ?z \<mapsto> ?a)" "lh_pv m3 = lh_pv m1" "dom m3 = dom m" "\<forall>q. q \<noteq> ?z \<longrightarrow> m3 q = m2 q"
    using lh_wr_next [of ?z m2 ?a] d(4) m2(2-4) by auto
  obtain m4 where m4: "lh_wr m3 ?a (lh_prev_update (\<lambda>_. ?z)) = Some m4" "lh_pv m4 = (lh_pv m)(?f \<mapsto> h, ?a \<mapsto> ?z)"
    "lh_nx m4 = (lh_nx m)(h \<mapsto> ?f, ?z \<mapsto> ?a)" "dom m4 = dom m" "\<forall>q. q \<noteq> ?a \<longrightarrow> m4 q = m3 q"
    using lh_wr_prev [of ?a m3 ?z] d(2) m1(2) m3(2-4) by auto
  have s1: "seg (lh_nx m4) (lh_pv m4) h ys ?a" unfolding m4(2,3) by (rule seg_splice [OF sl(1) ne]) (use sl(2) dj i in auto)
  have "seg (lh_nx m4) (lh_pv m4) h (ys @ xs) h"
  proof (cases xs)
    case Nil
    then show ?thesis using s1 by simp
  next
    case (Cons x xs')
    have "seg (lh_nx m4) (lh_pv m4) x xs' h = seg (lh_nx m) (lh_pv m) x xs' h" unfolding m4(2,3)
      by (rule seg_cong) (use sh(2) dj i Cons in auto)
    then show ?thesis using s1 sh(1) Cons by (simp add: seg_append)
  qed
  then have "linked m4 h (ys @ xs)" using h l dj by (auto simp: linked_def)
  moreover have "list_splice_at m l h = Some m4" using at f z m1(1) m2(1) m3(1) m4(1) by (simp add: list_splice_at_def)
  moreover have "l \<noteq> ?f" "l \<noteq> h" "l \<noteq> ?z" "l \<noteq> ?a" using i dj sl(2) by auto
  then have "m4 l = m l" using m1(5) m2(5) m3(5) m4(5) by simp
  ultimately show ?thesis using m4(4) by blast
qed

section \<open>Removing nodes while the list is visited\<close>

lemma linked_hd: "linked m h xs \<Longrightarrow> lh_nx m h = Some (hd (xs @ [h]))"
  by (cases xs) (auto simp: linked_def)

lemma linked_second: "linked m h (x # xs) \<Longrightarrow> lh_nx m x = Some (hd (xs @ [h]))"
  by (cases xs) (auto simp: linked_def)

lemma safe_loop_drains:
  assumes "linked m h xs" and "lh_nx m (hd (xs @ [h])) = Some n"
  shows "\<exists>m'. for_each_safe_loop list_del m h (hd (xs @ [h])) n = Some m' \<and> linked m' h []"
  using assms
proof (induction xs arbitrary: m n)
  case (Cons x xs)
  have n: "n = hd (xs @ [h])" and x: "x \<noteq> h" using linked_second [OF Cons.prems(1)] Cons.prems by (auto simp: linked_def)
  obtain m1 where m1: "list_del m x = Some m1" "linked m1 h xs" using list_step_refines [OF Cons.prems(1), of "{}" "Del x"] by auto
  obtain n1 where n1: "lh_nx m1 n = Some n1" using linked_hd [OF m1(2)] linked_second [of m1 h "hd xs" "tl xs"] m1(2) n by (cases xs) auto
  then show ?case using Cons.IH [OF m1(2)] m1(1) n x by (auto simp: for_each_safe_loop.simps [of _ m h x])
qed (simp add: for_each_safe_loop.simps)

lemma list_drain:
  assumes "linked m h xs"
  shows "\<exists>m'. list_for_each_safe list_del m h = Some m' \<and> list_empty m' h = Some True"
proof -
  obtain n where n: "lh_nx m (hd (xs @ [h])) = Some n" using linked_hd [OF assms] linked_second [of m h "hd xs" "tl xs"] assms by (cases xs) auto
  from safe_loop_drains [OF assms this] obtain m' where m': "for_each_safe_loop list_del m h (hd (xs @ [h])) n = Some m'" "linked m' h []" by blast
  then show ?thesis using linked_hd [OF assms] n linked_traversal(3) [OF m'(2)] by (simp add: list_for_each_safe_def)
qed

section \<open>The properties\<close>

text \<open>
  C35 (refinement). From \<open>INIT_LIST_HEAD\<close> on, any sequence of \<open>my_list_add\<close>, \<open>list_add_tail\<close>, \<open>list_del\<close>, \<open>list_del_init\<close>, \<open>list_move\<close> and
  \<open>list_move_tail\<close> that adds only nodes that are not in the list and removes or moves only nodes that are runs without leaving the allocated
  memory and does what the operations on lists of nodes do: \<open>list_for_each\<close> then visits exactly the nodes of that list in its order,
  \<open>list_for_each_prev\<close> in the opposite order, and both tests for the empty list agree with it.
\<close>

theorem list_ops_refine:
  assumes "h \<noteq> NULL" and "m h \<noteq> None" and "A \<subseteq> dom m" and "h \<notin> A" and "NULL \<notin> A" and "steps_ok A [] os"
  shows "\<exists>m0 m'. INIT_LIST_HEAD m h = Some m0 \<and> list_run m0 h os = Some m' \<and>
    list_for_each m' h = Some (foldl abs_step [] os) \<and> list_for_each_prev m' h = Some (rev (foldl abs_step [] os)) \<and>
    list_empty m' h = Some (foldl abs_step [] os = []) \<and> list_empty_careful m' h = Some (foldl abs_step [] os = [])"
proof -
  obtain m0 where m0: "INIT_LIST_HEAD m h = Some m0" "linked m0 h []" "dom m0 = dom m" using init_linked [of m h] assms(1,2) by blast
  from list_run_refines [OF m0(2) assms(6) _ assms(4,5)] assms(3) m0(3)
  obtain m' where m': "list_run m0 h os = Some m'" "linked m' h (foldl abs_step [] os)" by auto
  show ?thesis using m0(1) m'(1) linked_traversal [OF m'(2)] by blast
qed

theorem list_ops_refine_witness:
  "\<exists>m0 m'. INIT_LIST_HEAD (\<lambda>a. if a \<in> {1, 2, 3, 9} then Some \<lparr>lh_next = 7, lh_prev = 7\<rparr> else None) 9 = Some m0 \<and>
    list_run m0 9 [Add 1, Add_tail 2, Add 3, Move_tail 3, Del 1, Add_tail 1] = Some m' \<and>
    list_for_each m' 9 = Some [2, 3, 1] \<and> list_for_each_prev m' 9 = Some [1, 3, 2] \<and> list_empty m' 9 = Some False \<and> list_empty_careful m' 9 = Some False"
  using list_ops_refine [of 9 "\<lambda>a. if a \<in> {1, 2, 3, 9} then Some \<lparr>lh_next = 7, lh_prev = 7\<rparr> else None" "{1, 2, 3}"
    "[Add 1, Add_tail 2, Add 3, Move_tail 3, Del 1, Add_tail 1]"] by (simp add: dom_def)

text \<open>
  \<open>list_splice_init\<close> puts the nodes of one list, in their order, before the nodes of a second, disjoint one and leaves
  the first list empty; it returns also when the first list is already empty. \<open>list_splice\<close> joins the lists in the same way but leaves the old head
  with its pointers into the joined list.
\<close>

lemma list_splice_joins:
  assumes "linked m h xs" and "linked m l ys" and "set (h # xs) \<inter> set (l # ys) = {}"
  shows "\<exists>m1 m2. list_splice m l h = Some m1 \<and> list_for_each m1 h = Some (ys @ xs) \<and> m1 l = m l \<and>
    list_splice_init m l h = Some m2 \<and> list_for_each m2 h = Some (ys @ xs) \<and> list_for_each_prev m2 h = Some (rev xs @ rev ys) \<and>
    list_for_each m2 l = Some [] \<and> list_empty m2 l = Some True"
proof (cases "ys = []")
  case True
  then show ?thesis using linked_traversal [OF assms(1)] linked_traversal [OF assms(2)] by (simp add: list_splice_def list_splice_init_def)
next
  case False
  obtain m1 where m1: "list_splice_at m l h = Some m1" "linked m1 h (ys @ xs)" "m1 l = m l" "dom m1 = dom m"
    using splice_at_linked [OF assms(1,2) False assms(3)] by blast
  have l: "l \<noteq> NULL" "m l \<noteq> None" "l \<notin> set (h # ys @ xs)" using assms(2,3) linked_traversal(3) [OF assms(2)]
    by (auto simp: linked_def list_empty_def lh_nx_def bind_eq_Some_conv)
  obtain m2 where m2: "INIT_LIST_HEAD m1 l = Some m2" "linked m2 l []" "\<forall>q. q \<noteq> l \<longrightarrow> m2 q = m1 q"
    using init_linked [of m1 l] l m1(3) by auto
  have m2h: "linked m2 h (ys @ xs)" by (rule linked_frame [OF m1(2)]) (use l(3) m2(3) in auto)
  have e: "list_empty m l = Some False" using linked_traversal(3) [OF assms(2)] False by simp
  show ?thesis using e m1(1,3) m2(1) linked_traversal [OF m1(2)] linked_traversal [OF m2h] linked_traversal [OF m2(2)]
    by (simp add: list_splice_def list_splice_init_def)
qed

end
