(* ===== verification/Hlist_Props.thy ===== *)
theory Hlist_Props
  imports List_Head
begin

text \<open>
  Properties of the chains of hash tables in \<^verbatim>\<open>inc/com/list.h\<close>: the nodes behind a head, each of which
  points back to the pointer that leads to it, and sequences of operations on them.
\<close>

section \<open>Chains\<close>

text \<open>A chain behind the link \<open>l\<close>, up to the pointer \<open>e\<close> at its end.\<close>

definition hdp :: "addr list \<Rightarrow> addr \<Rightarrow> addr" where
  "hdp xs e = (case xs of [] \<Rightarrow> e | x # _ \<Rightarrow> x)"

lemma hdp_simps [simp]: "hdp [] e = e" "hdp (x # xs) e = x" "hdp (xs @ ys) e = hdp xs (hdp ys e)"
  by (simp_all add: hdp_def split: list.splits)

fun hseg :: "hlist_mem \<Rightarrow> hlink \<Rightarrow> addr list \<Rightarrow> addr \<Rightarrow> bool" where
  "hseg m l [] e \<longleftrightarrow> True"
| "hseg m l (x # xs) e \<longleftrightarrow> hm_nodes m x = Some \<lparr>hn_next = hdp xs e, hn_pprev = l\<rparr> \<and> hseg m (H_next x) xs e"

fun hlast :: "hlink \<Rightarrow> addr list \<Rightarrow> hlink" where
  "hlast l [] = l"
| "hlast l (x # xs) = hlast (H_next x) xs"

definition hlist_at :: "hlist_mem \<Rightarrow> addr \<Rightarrow> addr list \<Rightarrow> bool" where
  "hlist_at m h xs \<longleftrightarrow> hm_first m h = Some (hdp xs NULL) \<and> hseg m (H_first h) xs NULL \<and> distinct xs \<and> NULL \<notin> set xs"

lemma hseg_append: "hseg m l (xs @ ys) e \<longleftrightarrow> hseg m l xs (hdp ys e) \<and> hseg m (hlast l xs) ys e"
  by (induction m l xs e rule: hseg.induct) auto

lemma hlast_snoc: "hlast l (xs @ [x]) = H_next x"
  by (induction l xs rule: hlast.induct) auto

lemma hseg_cong: "(\<And>a. a \<in> set xs \<Longrightarrow> hm_nodes m' a = hm_nodes m a) \<Longrightarrow> hseg m' l xs e = hseg m l xs e"
  by (induction m l xs e rule: hseg.induct) auto

text \<open>Redirecting the link at the end of a chain.\<close>

lemma hl_store_end:
  assumes "hm_first m h = Some (hdp xs e)" and "hseg m (H_first h) xs e" and "distinct xs"
  shows "\<exists>m'. hl_store m (hlast (H_first h) xs) v = Some m' \<and> hm_first m' h = Some (hdp xs v) \<and> hseg m' (H_first h) xs v \<and>
    (\<forall>a. a \<notin> set xs \<longrightarrow> hm_nodes m' a = hm_nodes m a) \<and> (\<forall>u. u \<noteq> h \<longrightarrow> hm_first m' u = hm_first m u)"
proof (cases xs rule: rev_cases)
  case Nil
  then show ?thesis using assms by (simp add: hl_store_def)
next
  case (snoc ys z)
  then have z: "hseg m (H_first h) ys z" "hm_nodes m z = Some \<lparr>hn_next = e, hn_pprev = hlast (H_first h) ys\<rparr>" "z \<notin> set ys"
    using assms(2,3) by (auto simp: hseg_append)
  let ?m = "m\<lparr>hm_nodes := (hm_nodes m)(z \<mapsto> \<lparr>hn_next = v, hn_pprev = hlast (H_first h) ys\<rparr>)\<rparr>"
  have "hseg ?m (H_first h) ys z = hseg m (H_first h) ys z" by (rule hseg_cong) (use z(3) in auto)
  then show ?thesis using z assms(1) snoc by (auto simp: hlast_snoc hl_store_def hn_wr_def hseg_append)
qed

text \<open>The pointer of a node back to its link.\<close>

lemma hseg_relink:
  assumes "hseg m l zs NULL" and "distinct zs" and "NULL \<notin> set zs"
  shows "\<exists>m'. (if hdp zs NULL \<noteq> NULL then hn_wr m (hdp zs NULL) (hn_pprev_update (\<lambda>_. l')) else Some m) = Some m' \<and> hseg m' l' zs NULL \<and>
    (\<forall>a. a \<notin> set zs \<longrightarrow> hm_nodes m' a = hm_nodes m a) \<and> hm_first m' = hm_first m"
proof (cases zs)
  case (Cons z zs')
  let ?m = "m\<lparr>hm_nodes := (hm_nodes m)(z \<mapsto> \<lparr>hn_next = hdp zs' NULL, hn_pprev = l'\<rparr>)\<rparr>"
  have "hseg ?m (H_next z) zs' NULL = hseg m (H_next z) zs' NULL" by (rule hseg_cong) (use assms(2) Cons in auto)
  then show ?thesis using assms Cons by (auto simp: hn_wr_def)
qed simp

lemma hlist_unlink_at:
  assumes "hlist_at m h (ys @ x # zs)"
  shows "\<exists>m'. hlist_unlink m x = Some m' \<and> hlist_at m' h (ys @ zs) \<and> hm_nodes m' x = hm_nodes m x \<and>
    (\<forall>a. a \<notin> set (ys @ x # zs) \<longrightarrow> hm_nodes m' a = hm_nodes m a)"
proof -
  let ?l = "hlast (H_first h) ys"
  have a: "hm_first m h = Some (hdp ys x)" "hseg m (H_first h) ys x" "hm_nodes m x = Some \<lparr>hn_next = hdp zs NULL, hn_pprev = ?l\<rparr>"
    "hseg m (H_next x) zs NULL" "distinct (ys @ x # zs)" "NULL \<notin> set (ys @ x # zs)"
    using assms by (auto simp: hlist_at_def hseg_append)
  obtain m1 where m1: "hl_store m ?l (hdp zs NULL) = Some m1" "hm_first m1 h = Some (hdp ys (hdp zs NULL))" "hseg m1 (H_first h) ys (hdp zs NULL)"
    "\<forall>a. a \<notin> set ys \<longrightarrow> hm_nodes m1 a = hm_nodes m a" using hl_store_end [OF a(1,2), of "hdp zs NULL"] a(5) by fastforce
  have "hseg m1 (H_next x) zs NULL = hseg m (H_next x) zs NULL" by (rule hseg_cong) (use m1(4) a(5) in auto)
  then obtain m2 where m2: "(if hdp zs NULL \<noteq> NULL then hn_wr m1 (hdp zs NULL) (hn_pprev_update (\<lambda>_. ?l)) else Some m1) = Some m2" "hseg m2 ?l zs NULL"
    "\<forall>a. a \<notin> set zs \<longrightarrow> hm_nodes m2 a = hm_nodes m1 a" "hm_first m2 = hm_first m1" using hseg_relink [of m1 "H_next x" zs ?l] a(4-6) by auto
  have "hseg m2 (H_first h) ys (hdp zs NULL) = hseg m1 (H_first h) ys (hdp zs NULL)" by (rule hseg_cong) (use m2(3) a(5) in auto)
  then have "hlist_at m2 h (ys @ zs)" using m1(2,3) m2(2,4) a(5,6) by (auto simp: hlist_at_def hseg_append)
  moreover have "hlist_unlink m x = Some m2" using a(3) m1(1) m2(1) by (cases "hdp zs NULL = NULL") (simp_all add: hlist_unlink_def)
  ultimately show ?thesis using m1(4) m2(3) a(5) by auto
qed

lemma hlist_frame:
  assumes "hlist_at m h xs" and "\<And>a. a \<in> set xs \<Longrightarrow> hm_nodes m' a = hm_nodes m a" and "hm_first m' h = hm_first m h"
  shows "hlist_at m' h xs"
  using assms hseg_cong [of xs m' m] by (simp add: hlist_at_def)

lemma hn_wr_at: "hm_nodes m a = Some n \<Longrightarrow> hn_wr m a f = Some (m\<lparr>hm_nodes := (hm_nodes m)(a \<mapsto> f n)\<rparr>)"
  by (simp add: hn_wr_def)

lemma hlist_node_alloc:
  assumes "hm_nodes m n \<noteq> None"
  shows "\<exists>u v. hm_nodes m n = Some \<lparr>hn_next = u, hn_pprev = v\<rparr>"
proof -
  obtain nd where "hm_nodes m n = Some nd" using assms by auto
  then show ?thesis by (cases nd) auto
qed

lemma hlist_add_head_at:
  assumes "hlist_at m h xs" and "n \<notin> set xs" and "n \<noteq> NULL" and "hm_nodes m n \<noteq> None"
  shows "\<exists>m'. hlist_add_head m n h = Some m' \<and> hlist_at m' h (n # xs)"
proof -
  have a: "hm_first m h = Some (hdp xs NULL)" "hseg m (H_first h) xs NULL" "distinct xs" "NULL \<notin> set xs" using assms(1) by (auto simp: hlist_at_def)
  obtain u v where nd: "hm_nodes m n = Some \<lparr>hn_next = u, hn_pprev = v\<rparr>" using hlist_node_alloc [OF assms(4)] by blast
  let ?m1 = "m\<lparr>hm_nodes := (hm_nodes m)(n \<mapsto> \<lparr>hn_next = hdp xs NULL, hn_pprev = v\<rparr>)\<rparr>"
  have "hseg ?m1 (H_first h) xs NULL = hseg m (H_first h) xs NULL" by (rule hseg_cong) (use assms(2) in auto)
  then obtain m2 where m2: "(if hdp xs NULL \<noteq> NULL then hn_wr ?m1 (hdp xs NULL) (hn_pprev_update (\<lambda>_. H_next n)) else Some ?m1) = Some m2" "hseg m2 (H_next n) xs NULL"
    "\<forall>a. a \<notin> set xs \<longrightarrow> hm_nodes m2 a = hm_nodes ?m1 a" "hm_first m2 = hm_first ?m1" using hseg_relink [of ?m1 "H_first h" xs "H_next n"] a by auto
  let ?m3 = "m2\<lparr>hm_first := (hm_first m2)(h \<mapsto> n)\<rparr>"
  let ?m4 = "?m3\<lparr>hm_nodes := (hm_nodes m2)(n \<mapsto> \<lparr>hn_next = hdp xs NULL, hn_pprev = H_first h\<rparr>)\<rparr>"
  have n2: "hm_nodes m2 n = Some (\<lparr>hn_next = hdp xs NULL, hn_pprev = v\<rparr>)" using m2(3) assms(2) by simp
  have "hlist_add_head m n h = Some ?m4"
    using a(1) nd m2(1,4) n2 by (simp add: hlist_add_head_def hl_store_def hn_wr_at split del: if_split)
  moreover have "hseg ?m4 (H_next n) xs NULL = hseg m2 (H_next n) xs NULL" by (rule hseg_cong) (use assms(2) in auto)
  then have "hlist_at ?m4 h (n # xs)" using m2(2) a(3,4) assms(2,3) by (simp add: hlist_at_def)
  ultimately show ?thesis by blast
qed

lemma hlist_add_before_at:
  assumes "hlist_at m h (ys @ x # zs)" and "n \<notin> set (ys @ x # zs)" and "n \<noteq> NULL" and "hm_nodes m n \<noteq> None"
  shows "\<exists>m'. hlist_add_before m n x = Some m' \<and> hlist_at m' h (ys @ n # x # zs)"
proof -
  let ?l = "hlast (H_first h) ys"
  have a: "hm_first m h = Some (hdp ys x)" "hseg m (H_first h) ys x" "hm_nodes m x = Some \<lparr>hn_next = hdp zs NULL, hn_pprev = ?l\<rparr>"
    "hseg m (H_next x) zs NULL" "distinct (ys @ x # zs)" "NULL \<notin> set (ys @ x # zs)"
    using assms(1) by (auto simp: hlist_at_def hseg_append)
  obtain u v where nd: "hm_nodes m n = Some \<lparr>hn_next = u, hn_pprev = v\<rparr>" using hlist_node_alloc [OF assms(4)] by blast
  let ?m3 = "m\<lparr>hm_nodes := (hm_nodes m)(n \<mapsto> \<lparr>hn_next = x, hn_pprev = ?l\<rparr>, x \<mapsto> \<lparr>hn_next = hdp zs NULL, hn_pprev = H_next n\<rparr>)\<rparr>"
  have "hseg ?m3 (H_first h) ys x = hseg m (H_first h) ys x" by (rule hseg_cong) (use assms(2) a(5) in auto)
  then obtain m4 where m4: "hl_store ?m3 ?l n = Some m4" "hm_first m4 h = Some (hdp ys n)" "hseg m4 (H_first h) ys n"
    "\<forall>a. a \<notin> set ys \<longrightarrow> hm_nodes m4 a = hm_nodes ?m3 a" using hl_store_end [of ?m3 h ys x n] a(1,2,5) by auto
  have "hseg m4 (H_next x) zs NULL = hseg m (H_next x) zs NULL" by (rule hseg_cong) (use m4(4) assms(2) a(5) in auto)
  then have "hlist_at m4 h (ys @ n # x # zs)" using m4(2-4) a assms(2,3) by (auto simp: hlist_at_def hseg_append)
  moreover have "n \<noteq> x" using assms(2) by auto
  then have "hlist_add_before m n x = Some m4" using a(3) nd m4(1) by (simp add: hlist_add_before_def hn_wr_at)
  ultimately show ?thesis by blast
qed

lemma hlist_add_after_at:
  assumes "hlist_at m h (ys @ x # zs)" and "n \<notin> set (ys @ x # zs)" and "n \<noteq> NULL" and "hm_nodes m n \<noteq> None"
  shows "\<exists>m'. hlist_add_after m x n = Some m' \<and> hlist_at m' h (ys @ x # n # zs)"
proof -
  let ?l = "hlast (H_first h) ys"
  have a: "hm_first m h = Some (hdp ys x)" "hseg m (H_first h) ys x" "hm_nodes m x = Some \<lparr>hn_next = hdp zs NULL, hn_pprev = ?l\<rparr>"
    "hseg m (H_next x) zs NULL" "distinct (ys @ x # zs)" "NULL \<notin> set (ys @ x # zs)"
    using assms(1) by (auto simp: hlist_at_def hseg_append)
  obtain u v where nd: "hm_nodes m n = Some \<lparr>hn_next = u, hn_pprev = v\<rparr>" using hlist_node_alloc [OF assms(4)] by blast
  have nx: "n \<noteq> x" using assms(2) by auto
  let ?m3 = "m\<lparr>hm_nodes := (hm_nodes m)(n \<mapsto> \<lparr>hn_next = hdp zs NULL, hn_pprev = H_next x\<rparr>, x \<mapsto> \<lparr>hn_next = n, hn_pprev = ?l\<rparr>)\<rparr>"
  have "hseg ?m3 (H_next x) zs NULL = hseg m (H_next x) zs NULL" by (rule hseg_cong) (use assms(2) a(5) in auto)
  then obtain m4 where m4: "(if hdp zs NULL \<noteq> NULL then hn_wr ?m3 (hdp zs NULL) (hn_pprev_update (\<lambda>_. H_next n)) else Some ?m3) = Some m4" "hseg m4 (H_next n) zs NULL"
    "\<forall>a. a \<notin> set zs \<longrightarrow> hm_nodes m4 a = hm_nodes ?m3 a" "hm_first m4 = hm_first ?m3" using hseg_relink [of ?m3 "H_next x" zs "H_next n"] a(4-6) by auto
  have "hseg m4 (H_first h) ys x = hseg m (H_first h) ys x" by (rule hseg_cong) (use m4(3) assms(2) a(5) in auto)
  then have "hlist_at m4 h (ys @ x # n # zs)" using m4(2-4) a assms(2,3) nx by (auto simp: hlist_at_def hseg_append)
  moreover have "hlist_add_after m x n = Some m4"
    using a(3) nd m4(1) nx by (cases "hdp zs NULL = NULL") (simp_all add: hlist_add_after_def hn_wr_at fun_upd_twist)
  ultimately show ?thesis by blast
qed

lemma hlist_visits:
  assumes "hlist_at m h xs"
  shows "hlist_for_each m h = Some xs" and "hlist_empty m h = Some (xs = [])"
proof -
  have "hlist_loop m (hdp xs NULL) = Some xs" if "hseg m l xs NULL" "NULL \<notin> set xs" for l
    using that
  proof (induction xs arbitrary: l)
    case (Cons x xs)
    then show ?case by (auto simp: hlist_loop.simps [of m x])
  qed (simp add: hlist_loop.simps)
  then show "hlist_for_each m h = Some xs" using assms by (auto simp: hlist_at_def hlist_for_each_def)
  show "hlist_empty m h = Some (xs = [])" using assms by (cases xs) (auto simp: hlist_at_def hlist_empty_def)
qed

section \<open>Sequences of operations\<close>

datatype hlist_op = H_add addr | H_before addr addr | H_after addr addr | H_del addr | H_del_init addr

fun hlist_step :: "hlist_mem \<Rightarrow> addr \<Rightarrow> hlist_op \<Rightarrow> hlist_mem option" where
  "hlist_step m h (H_add n) = hlist_add_head m n h"
| "hlist_step m h (H_before n x) = hlist_add_before m n x"
| "hlist_step m h (H_after x n) = hlist_add_after m x n"
| "hlist_step m h (H_del n) = hlist_del m n"
| "hlist_step m h (H_del_init n) = hlist_del_init m n"

fun hlist_run :: "hlist_mem \<Rightarrow> addr \<Rightarrow> hlist_op list \<Rightarrow> hlist_mem option" where
  "hlist_run m h [] = Some m"
| "hlist_run m h (x # os) = do { m1 \<leftarrow> hlist_step m h x; hlist_run m1 h os }"

text \<open>The operations on the list of the nodes: a new node goes to the front, or directly before or after a node of the chain.\<close>

fun insert_by :: "(addr \<Rightarrow> addr list) \<Rightarrow> addr \<Rightarrow> addr list \<Rightarrow> addr list" where
  "insert_by f x xs = concat (map (\<lambda>y. if y = x then f y else [y]) xs)"

fun habs_step :: "addr list \<Rightarrow> hlist_op \<Rightarrow> addr list" where
  "habs_step xs (H_add n) = n # xs"
| "habs_step xs (H_before n x) = insert_by (\<lambda>y. [n, y]) x xs"
| "habs_step xs (H_after x n) = insert_by (\<lambda>y. [y, n]) x xs"
| "habs_step xs (H_del n) = remove1 n xs"
| "habs_step xs (H_del_init n) = remove1 n xs"

fun hstep_ok :: "addr set \<Rightarrow> addr list \<Rightarrow> hlist_op \<Rightarrow> bool" where
  "hstep_ok A xs (H_add n) \<longleftrightarrow> n \<in> A \<and> n \<notin> set xs"
| "hstep_ok A xs (H_before n x) \<longleftrightarrow> n \<in> A \<and> n \<notin> set xs \<and> x \<in> set xs"
| "hstep_ok A xs (H_after x n) \<longleftrightarrow> n \<in> A \<and> n \<notin> set xs \<and> x \<in> set xs"
| "hstep_ok A xs (H_del n) \<longleftrightarrow> n \<in> set xs"
| "hstep_ok A xs (H_del_init n) \<longleftrightarrow> n \<in> set xs"

fun hsteps_ok :: "addr set \<Rightarrow> addr list \<Rightarrow> hlist_op list \<Rightarrow> bool" where
  "hsteps_ok A xs [] \<longleftrightarrow> True"
| "hsteps_ok A xs (x # os) \<longleftrightarrow> hstep_ok A xs x \<and> hsteps_ok A (habs_step xs x) os"

lemma insert_by_split:
  assumes "x \<notin> set ys" and "x \<notin> set zs"
  shows "insert_by f x (ys @ x # zs) = ys @ f x @ zs"
proof -
  have "concat (map (\<lambda>y. if y = x then f y else [y]) xs) = xs" if "x \<notin> set xs" for xs using that by (induction xs) auto
  then show ?thesis using assms by simp
qed

lemma hn_wr_dom: "hn_wr m a f = Some m' \<Longrightarrow> dom (hm_nodes m') = dom (hm_nodes m)"
  by (auto simp: hn_wr_def split: if_splits)

lemma hl_store_dom: "hl_store m l v = Some m' \<Longrightarrow> dom (hm_nodes m') = dom (hm_nodes m)"
  by (auto simp: hl_store_def hn_wr_dom split: hlink.splits)

lemma hlist_unlink_dom: "hlist_unlink m n = Some m' \<Longrightarrow> dom (hm_nodes m') = dom (hm_nodes m)"
  by (auto simp: hlist_unlink_def bind_eq_Some_conv split: if_splits dest!: hn_wr_dom hl_store_dom del: equalityI)

lemma hlist_step_dom: "hlist_step m h x = Some m' \<Longrightarrow> dom (hm_nodes m') = dom (hm_nodes m)"
  by (cases x) (auto simp: hlist_add_head_def hlist_add_before_def hlist_add_after_def hlist_del_def hlist_del_init_def INIT_HLIST_NODE_def bind_eq_Some_conv
    split: if_splits dest!: hn_wr_dom hl_store_dom hlist_unlink_dom del: equalityI)

text \<open>A node that was taken out may be changed.\<close>

lemma hlist_scrub:
  assumes "hlist_at m h xs" and "n \<notin> set xs" and "hm_nodes m n \<noteq> None"
  shows "\<exists>m1 m2. hn_wr m n f = Some m1 \<and> hn_wr m1 n g = Some m2 \<and> hlist_at m2 h xs"
proof -
  obtain nd where nd: "hm_nodes m n = Some nd" using assms(3) by auto
  let ?m = "m\<lparr>hm_nodes := (hm_nodes m)(n \<mapsto> g (f nd))\<rparr>"
  have "hlist_at ?m h xs" by (rule hlist_frame [OF assms(1)]) (use assms(2) in auto)
  then show ?thesis using nd by (simp add: hn_wr_at)
qed

lemma hlist_del_at:
  assumes l: "hlist_at m h xs" and n: "n \<in> set xs"
  shows "\<exists>m'. hlist_del m n = Some m' \<and> hlist_at m' h (remove1 n xs)"
    and "\<exists>m'. hlist_del_init m n = Some m' \<and> hlist_at m' h (remove1 n xs) \<and> hlist_unhashed m' n = Some True"
proof -
  obtain ys zs where xs: "xs = ys @ n # zs" "n \<notin> set ys" using split_list_first [OF n] by blast
  have r: "remove1 n xs = ys @ zs" using xs by (simp add: remove1_append)
  have nd: "hm_nodes m n = Some \<lparr>hn_next = hdp zs NULL, hn_pprev = hlast (H_first h) ys\<rparr>" "n \<notin> set (ys @ zs)"
    using l xs by (auto simp: hlist_at_def hseg_append)
  have np: "hlast (H_first h) ys \<noteq> H_null" by (cases ys rule: rev_cases) (auto simp: hlast_snoc)
  obtain m1 where m1: "hlist_unlink m n = Some m1" "hlist_at m1 h (ys @ zs)" "hm_nodes m1 n = hm_nodes m n"
    using hlist_unlink_at [of m h ys n zs] l xs(1) by blast
  have al: "hm_nodes m1 n \<noteq> None" using m1(3) nd(1) by simp
  show "\<exists>m'. hlist_del m n = Some m' \<and> hlist_at m' h (remove1 n xs)"
    using hlist_scrub [OF m1(2) nd(2) al, of "hn_next_update (\<lambda>_. LIST_POISON1)" "hn_pprev_update (\<lambda>_. H_poison)"] m1(1)
    by (auto simp: hlist_del_def r)
  obtain m2 m3 where m3: "hn_wr m1 n (hn_next_update (\<lambda>_. NULL)) = Some m2" "hn_wr m2 n (hn_pprev_update (\<lambda>_. H_null)) = Some m3" "hlist_at m3 h (ys @ zs)"
    using hlist_scrub [OF m1(2) nd(2) al] by blast
  have "hlist_unhashed m3 n = Some True" using m3(2) by (auto simp: hn_wr_def hlist_unhashed_def)
  then show "\<exists>m'. hlist_del_init m n = Some m' \<and> hlist_at m' h (remove1 n xs) \<and> hlist_unhashed m' n = Some True"
    using m1(1) m3 nd(1) np by (simp add: hlist_del_init_def INIT_HLIST_NODE_def r)
qed

lemma hlist_step_refines:
  assumes l: "hlist_at m h xs" and ok: "hstep_ok A xs x" and A: "A \<subseteq> dom (hm_nodes m)" "NULL \<notin> A"
  shows "\<exists>m'. hlist_step m h x = Some m' \<and> hlist_at m' h (habs_step xs x)"
proof -
  have al: "n \<noteq> NULL \<and> hm_nodes m n \<noteq> None" if "n \<in> A" for n using A that by (cases "n = NULL") auto
  have sp: "\<exists>ys zs. xs = ys @ y # zs \<and> y \<notin> set ys \<and> y \<notin> set zs" if "y \<in> set xs" for y
  proof -
    have "distinct xs" using l by (simp add: hlist_at_def)
    then show ?thesis using split_list_first [OF that] by fastforce
  qed
  show ?thesis
  proof (cases x)
    case (H_add n)
    then show ?thesis using hlist_add_head_at [OF l, of n] al [of n] ok by simp
  next
    case (H_before n y)
    then obtain ys zs where "xs = ys @ y # zs" "y \<notin> set ys" "y \<notin> set zs" using sp [of y] ok by auto
    then show ?thesis using H_before hlist_add_before_at [of m h ys y zs n] al [of n] l ok by (simp add: insert_by_split del: insert_by.simps)
  next
    case (H_after y n)
    then obtain ys zs where "xs = ys @ y # zs" "y \<notin> set ys" "y \<notin> set zs" using sp [of y] ok by auto
    then show ?thesis using H_after hlist_add_after_at [of m h ys y zs n] al [of n] l ok by (simp add: insert_by_split del: insert_by.simps)
  next
    case (H_del n)
    then show ?thesis using hlist_del_at(1) [OF l, of n] ok by simp
  next
    case (H_del_init n)
    then show ?thesis using hlist_del_at(2) [OF l, of n] ok by auto
  qed
qed

lemma hlist_run_refines:
  assumes "hlist_at m h xs" and "hsteps_ok A xs os" and "A \<subseteq> dom (hm_nodes m)" and "NULL \<notin> A"
  shows "\<exists>m'. hlist_run m h os = Some m' \<and> hlist_at m' h (foldl habs_step xs os)"
  using assms
proof (induction os arbitrary: m xs)
  case (Cons x os)
  then obtain m1 where m1: "hlist_step m h x = Some m1" "hlist_at m1 h (habs_step xs x)"
    using hlist_step_refines [of m h xs A x] by auto
  then show ?case using Cons.IH [OF m1(2)] hlist_step_dom [OF m1(1)] Cons.prems by auto
qed simp

section \<open>The property\<close>

text \<open>
  C36 (refinement). From \<open>INIT_HLIST_HEAD\<close> on, any sequence of insertions at the head, before or after a node, and of removals, each applied to
  a node that is in the chain and adding a node that is not, runs without leaving the allocated memory and does what the operations on
  lists of nodes do: \<open>hlist_for_each\<close> then visits exactly the nodes of that list in its order, and \<open>hlist_empty\<close> says whether it is empty.
\<close>

theorem hlist_ops_refine:
  assumes "hm_first m h \<noteq> None" and "A \<subseteq> dom (hm_nodes m)" and "NULL \<notin> A" and "hsteps_ok A [] os"
  shows "\<exists>m0 m'. INIT_HLIST_HEAD m h = Some m0 \<and> hlist_run m0 h os = Some m' \<and>
    hlist_for_each m' h = Some (foldl habs_step [] os) \<and> hlist_empty m' h = Some (foldl habs_step [] os = [])"
proof -
  obtain m0 where m0: "INIT_HLIST_HEAD m h = Some m0" "hlist_at m0 h []" "hm_nodes m0 = hm_nodes m"
    using assms(1) by (auto simp: INIT_HLIST_HEAD_def hl_store_def hlist_at_def)
  from hlist_run_refines [OF m0(2) assms(4) _ assms(3)] assms(2) m0(3)
  obtain m' where m': "hlist_run m0 h os = Some m'" "hlist_at m' h (foldl habs_step [] os)" by auto
  show ?thesis using m0(1) m'(1) hlist_visits [OF m'(2)] by blast
qed

theorem hlist_ops_refine_witness:
  "\<exists>m0 m'. INIT_HLIST_HEAD \<lparr>hm_nodes = (\<lambda>a. if a \<in> {1, 2, 3} then Some \<lparr>hn_next = 9, hn_pprev = H_null\<rparr> else None), hm_first = [100 \<mapsto> 7]\<rparr> 100 = Some m0 \<and>
    hlist_run m0 100 [H_add 1, H_before 2 1, H_after 2 3, H_del 1] = Some m' \<and>
    hlist_for_each m' 100 = Some [2, 3] \<and> hlist_empty m' 100 = Some False"
  using hlist_ops_refine [of "\<lparr>hm_nodes = (\<lambda>a. if a \<in> {1, 2, 3} then Some \<lparr>hn_next = 9, hn_pprev = H_null\<rparr> else None), hm_first = [100 \<mapsto> 7]\<rparr>" 100 "{1, 2, 3}"
    "[H_add 1, H_before 2 1, H_after 2 3, H_del 1]"] by (simp add: dom_def)

end
