(* ===== verification/Cjson_Print.thy ===== *)
theory Cjson_Print
  imports Cjson_Parse
begin

unbundle bit_operations_syntax

text \<open>
  Printing in \<^verbatim>\<open>src/com/cJSON.c\<close>. An item is seen with its number, a value of any type \<open>'n\<close>; what the C library
  does with numbers is the record \<open>numlib\<close>. The text is written into a buffer that grows; \<open>None\<close> is an access outside
  of the buffer, to a buffer that was given back, or to bytes that were never written. \<open>ok k\<close> says whether the allocation number \<open>k\<close> succeeds.
  Sizes are natural numbers: no sum of them comes near \<open>2 ^ 64\<close>, because \<open>ensure\<close> refuses sizes above \<open>INT_MAX\<close>.
\<close>

section \<open>Items with numbers\<close>

abbreviation (input) cJSON_Raw :: u32 where "cJSON_Raw \<equiv> 0x80"

datatype 'n item = Item (it_type: u32) (it_valuestring: "u8 list option") (it_valuedouble: 'n) (it_string: "u8 list option") (it_child: "'n item list")

text \<open>\<open>d * 0 != 0\<close>, the conversions \<open>%1.15g\<close>, \<open>%1.17g\<close> and \<open>%lg\<close>, the comparison of numbers and the decimal point of the locale.\<close>

record 'n numlib =
  nl_special :: "'n \<Rightarrow> bool"
  nl_g15 :: "'n \<Rightarrow> u8 list"
  nl_g17 :: "'n \<Rightarrow> u8 list"
  nl_scan :: "u8 list \<Rightarrow> 'n option"
  nl_eq :: "'n \<Rightarrow> 'n \<Rightarrow> bool"
  nl_point :: u8

section \<open>The buffer\<close>

abbreviation (input) INT_MAX :: nat where "INT_MAX \<equiv> 2147483647"

datatype pr_mem = Pr_null | Pr_freed | Pr_block "u8 option list"

record printbuffer =
  pr_buffer :: pr_mem
  pr_length :: nat
  pr_offset :: nat
  pr_depth :: nat
  pr_noalloc :: bool
  pr_format :: bool
  pr_reallocate :: bool
  pr_allocs :: nat

type_synonym printing = "(printbuffer \<times> bool) option"

definition resize :: "nat \<Rightarrow> u8 option list \<Rightarrow> u8 option list" where
  "resize n cs = take n cs @ replicate (n - length cs) None"

text \<open>
  Giving back the buffer; giving it back twice is undefined. The hook \<open>reallocate\<close> is absent when the program has set its own hooks;
  then the code copies \<open>offset + 1\<close> bytes.
\<close>

definition deallocate :: "printbuffer \<Rightarrow> printbuffer option" where
  "deallocate p = (case pr_buffer p of
     Pr_null \<Rightarrow> Some p
   | Pr_freed \<Rightarrow> None
   | Pr_block _ \<Rightarrow> Some (p\<lparr>pr_buffer := Pr_freed\<rparr>))"

definition ensure_grow :: "(nat \<Rightarrow> bool) \<Rightarrow> nat \<Rightarrow> u8 option list \<Rightarrow> printbuffer \<Rightarrow> printing" where
  "ensure_grow ok newsize cs p =
     (let p1 = p\<lparr>pr_allocs := pr_allocs p + 1\<rparr> in
      if \<not> ok (pr_allocs p) then Some (p1\<lparr>pr_length := 0, pr_buffer := Pr_null\<rparr>, False)
      else if pr_reallocate p then Some (p1\<lparr>pr_length := newsize, pr_buffer := Pr_block (resize newsize cs)\<rparr>, True)
      else if pr_offset p + 1 \<le> length cs
        then Some (p1\<lparr>pr_length := newsize, pr_buffer := Pr_block (resize newsize (take (pr_offset p + 1) cs))\<rparr>, True)
      else None)"

definition ensure :: "(nat \<Rightarrow> bool) \<Rightarrow> nat \<Rightarrow> printbuffer \<Rightarrow> printing" where
  "ensure ok needed0 p = (case pr_buffer p of
     Pr_null \<Rightarrow> Some (p, False)
   | Pr_freed \<Rightarrow> None
   | Pr_block cs \<Rightarrow>
       if 0 < pr_length p \<and> pr_length p \<le> pr_offset p then Some (p, False)
       else if INT_MAX < needed0 then Some (p, False)
       else (let needed = needed0 + pr_offset p + 1 in
         if needed \<le> pr_length p then Some (p, True)
         else if pr_noalloc p then Some (p, False)
         else if INT_MAX div 2 < needed then
           (if needed \<le> INT_MAX then ensure_grow ok INT_MAX cs p else Some (p, False))
         else ensure_grow ok (needed * 2) cs p))"

text \<open>Storing bytes \<open>k\<close> places behind the offset.\<close>

definition pr_write :: "nat \<Rightarrow> u8 list \<Rightarrow> printbuffer \<Rightarrow> printbuffer option" where
  "pr_write k bs p = (case pr_buffer p of
     Pr_block cs \<Rightarrow> (let i = pr_offset p + k in
       if i + length bs \<le> length cs then Some (p\<lparr>pr_buffer := Pr_block (take i cs @ map Some bs @ drop (i + length bs) cs)\<rparr>) else None)
   | _ \<Rightarrow> None)"

text \<open>The steps of the printers: reserve, store, advance. \<open>pr_then\<close> goes on after success.\<close>

definition pr_then :: "printing \<Rightarrow> (printbuffer \<Rightarrow> printing) \<Rightarrow> printing" where
  "pr_then m f = do { (p, r) \<leftarrow> m; if r then f p else Some (p, False) }"

definition pr_put :: "(nat \<Rightarrow> bool) \<Rightarrow> nat \<Rightarrow> u8 list \<Rightarrow> nat \<Rightarrow> printbuffer \<Rightarrow> printing" where
  "pr_put ok needed bs n p = pr_then (ensure ok needed p) (\<lambda>p1. do {
     p2 \<leftarrow> pr_write 0 bs p1;
     Some (p2\<lparr>pr_offset := pr_offset p2 + n\<rparr>, True)
   })"

definition update_offset :: "printbuffer \<Rightarrow> printbuffer option" where
  "update_offset p = (case pr_buffer p of
     Pr_null \<Rightarrow> Some p
   | Pr_freed \<Rightarrow> None
   | Pr_block cs \<Rightarrow> (let s = takeWhile (\<lambda>c. c \<noteq> Some 0) (drop (pr_offset p) cs) in
       if pr_offset p + length s < length cs \<and> None \<notin> set s then Some (p\<lparr>pr_offset := pr_offset p + length s\<rparr>) else None))"

section \<open>Numbers and strings\<close>

definition print_number :: "(nat \<Rightarrow> bool) \<Rightarrow> 'n numlib \<Rightarrow> 'n \<Rightarrow> printbuffer \<Rightarrow> printing" where
  "print_number ok nl d p =
     (let s = (if nl_special nl d then ascii ''null''
               else (case nl_scan nl (nl_g15 nl d) of
                  None \<Rightarrow> nl_g17 nl d
                | Some test \<Rightarrow> if nl_eq nl test d then nl_g15 nl d else nl_g17 nl d)) in
      if 26 \<le> length s then None
      else pr_put ok (length s) (map (\<lambda>c. if c = nl_point nl then 0x2E else c) s @ [0]) (length s) p)"

definition one_char_escape :: "u8 \<Rightarrow> u8 option" where
  "one_char_escape c = map_of [(0x5C, 0x5C), (0x22, 0x22), (0x08, 0x62), (0x0C, 0x66), (0x0A, 0x6E), (0x0D, 0x72), (0x09, 0x74)] c"

definition escape_characters :: "u8 list \<Rightarrow> nat" where
  "escape_characters s = sum_list (map (\<lambda>c. if one_char_escape c \<noteq> None then 1 else if c < 32 then 5 else 0) s)"

definition hex_char :: "u8 \<Rightarrow> u8" where
  "hex_char d = (if d < 10 then 0x30 + d else 0x57 + d)"

text \<open>What is stored for one character, with the terminating zero of \<open>sprintf\<close>, and how far the output pointer moves.\<close>

definition escape_char :: "u8 \<Rightarrow> u8 list \<times> nat" where
  "escape_char c =
     (if 31 < c \<and> c \<noteq> 0x22 \<and> c \<noteq> 0x5C then ([c], 1)
      else (case one_char_escape c of
          Some e \<Rightarrow> ([0x5C, e], 2)
        | None \<Rightarrow> ([0x5C, 0x75, 0x30, 0x30, hex_char (c div 16), hex_char (c mod 16), 0], 6)))"

fun put_chars :: "nat \<Rightarrow> u8 list \<Rightarrow> printbuffer \<Rightarrow> printbuffer option" where
  "put_chars k [] p = Some p"
| "put_chars k (c # s) p = do { p1 \<leftarrow> pr_write k (fst (escape_char c)) p; put_chars (k + snd (escape_char c)) s p1 }"

definition print_string_ptr :: "(nat \<Rightarrow> bool) \<Rightarrow> u8 list option \<Rightarrow> printbuffer \<Rightarrow> printing" where
  "print_string_ptr ok input p = (case input of
     None \<Rightarrow> pr_put ok 3 [0x22, 0x22, 0] 0 p
   | Some s \<Rightarrow> (let output_length = length s + escape_characters s in
       if escape_characters s = 0 then pr_put ok (output_length + 3) (0x22 # s @ [0x22, 0]) 0 p
       else pr_then (ensure ok (output_length + 3) p) (\<lambda>p1. do {
         p2 \<leftarrow> pr_write 0 [0x22] p1;
         p3 \<leftarrow> put_chars 1 s p2;
         p4 \<leftarrow> pr_write (output_length + 1) [0x22, 0] p3;
         Some (p4, True)
       })))"

section \<open>Values\<close>

definition print_raw :: "(nat \<Rightarrow> bool) \<Rightarrow> u8 list option \<Rightarrow> printbuffer \<Rightarrow> printing" where
  "print_raw ok valuestring p = (case valuestring of
     None \<Rightarrow> if \<not> pr_noalloc p then do { p1 \<leftarrow> deallocate p; Some (p1, False) } else Some (p, False)
   | Some s \<Rightarrow> pr_put ok (length s + 1) (s @ [0]) 0 p)"

definition array_open :: "(nat \<Rightarrow> bool) \<Rightarrow> printbuffer \<Rightarrow> printing" where
  "array_open ok p = pr_then (pr_put ok 1 [0x5B] 1 p) (\<lambda>p1. Some (p1\<lparr>pr_depth := pr_depth p1 + 1\<rparr>, True))"

definition array_comma :: "(nat \<Rightarrow> bool) \<Rightarrow> printbuffer \<Rightarrow> printing" where
  "array_comma ok p = (if pr_format p then pr_put ok 3 [0x2C, 0x20, 0] 2 p else pr_put ok 2 [0x2C, 0] 1 p)"

definition array_close :: "(nat \<Rightarrow> bool) \<Rightarrow> printbuffer \<Rightarrow> printing" where
  "array_close ok p = pr_then (pr_put ok 2 [0x5D, 0] 0 p) (\<lambda>p1. Some (p1\<lparr>pr_depth := pr_depth p1 - 1\<rparr>, True))"

definition object_open :: "(nat \<Rightarrow> bool) \<Rightarrow> printbuffer \<Rightarrow> printing" where
  "object_open ok p = pr_then (if pr_format p then pr_put ok 3 [0x7B, 0x0A] 2 p else pr_put ok 2 [0x7B] 1 p)
     (\<lambda>p1. Some (p1\<lparr>pr_depth := pr_depth p1 + 1\<rparr>, True))"

definition object_tabs :: "(nat \<Rightarrow> bool) \<Rightarrow> printbuffer \<Rightarrow> printing" where
  "object_tabs ok p = (if pr_format p then pr_put ok (pr_depth p) (replicate (pr_depth p) 0x09) (pr_depth p) p else Some (p, True))"

definition object_colon :: "(nat \<Rightarrow> bool) \<Rightarrow> printbuffer \<Rightarrow> printing" where
  "object_colon ok p = (if pr_format p then pr_put ok 2 [0x3A, 0x09] 2 p else pr_put ok 1 [0x3A] 1 p)"

definition object_comma :: "(nat \<Rightarrow> bool) \<Rightarrow> bool \<Rightarrow> printbuffer \<Rightarrow> printing" where
  "object_comma ok is_last p = (let bs = (if is_last then [] else [0x2C]) @ (if pr_format p then [0x0A] else []) in
     pr_put ok (length bs + 1) (bs @ [0]) (length bs) p)"

definition object_close :: "(nat \<Rightarrow> bool) \<Rightarrow> printbuffer \<Rightarrow> printing" where
  "object_close ok p = pr_then
     (pr_put ok (if pr_format p then pr_depth p + 1 else 2) ((if pr_format p then replicate (pr_depth p - 1) 0x09 else []) @ [0x7D, 0]) 0 p)
     (\<lambda>p1. Some (p1\<lparr>pr_depth := pr_depth p1 - 1\<rparr>, True))"

definition then_update :: "printing \<Rightarrow> printing" where
  "then_update m = pr_then m (\<lambda>p. do { p1 \<leftarrow> update_offset p; Some (p1, True) })"

fun print_value :: "(nat \<Rightarrow> bool) \<Rightarrow> 'n numlib \<Rightarrow> 'n item \<Rightarrow> printbuffer \<Rightarrow> printing"
  and print_elements :: "(nat \<Rightarrow> bool) \<Rightarrow> 'n numlib \<Rightarrow> 'n item list \<Rightarrow> printbuffer \<Rightarrow> printing"
  and print_members :: "(nat \<Rightarrow> bool) \<Rightarrow> 'n numlib \<Rightarrow> 'n item list \<Rightarrow> printbuffer \<Rightarrow> printing" where
  "print_value ok nl (Item ty vs num s cs) p = (let t = ty AND 0xFF in
     if t = cJSON_NULL then pr_put ok 5 (ascii ''null'' @ [0]) 0 p
     else if t = cJSON_False then pr_put ok 6 (ascii ''false'' @ [0]) 0 p
     else if t = cJSON_True then pr_put ok 5 (ascii ''true'' @ [0]) 0 p
     else if t = cJSON_Number then print_number ok nl num p
     else if t = cJSON_Raw then print_raw ok vs p
     else if t = cJSON_String then print_string_ptr ok vs p
     else if t = cJSON_Array then pr_then (pr_then (array_open ok p) (print_elements ok nl cs)) (array_close ok)
     else if t = cJSON_Object then pr_then (pr_then (object_open ok p) (print_members ok nl cs)) (object_close ok)
     else Some (p, False))"
| "print_elements ok nl [] p = Some (p, True)"
| "print_elements ok nl (c # cs) p =
     pr_then (pr_then (then_update (print_value ok nl c p)) (\<lambda>p1. if cs = [] then Some (p1, True) else array_comma ok p1)) (print_elements ok nl cs)"
| "print_members ok nl [] p = Some (p, True)"
| "print_members ok nl (c # cs) p =
     pr_then (pr_then (then_update (pr_then (pr_then (then_update (pr_then (object_tabs ok p) (print_string_ptr ok (it_string c))))
       (object_colon ok)) (print_value ok nl c))) (object_comma ok (cs = []))) (print_members ok nl cs)"

text \<open>The item may be \<open>NULL\<close>.\<close>

definition print_item :: "(nat \<Rightarrow> bool) \<Rightarrow> 'n numlib \<Rightarrow> 'n item option \<Rightarrow> printbuffer \<Rightarrow> printing" where
  "print_item ok nl item p = (case item of None \<Rightarrow> Some (p, False) | Some it \<Rightarrow> print_value ok nl it p)"

section \<open>The entry points\<close>

text \<open>The result is \<open>NULL\<close> or the block that is returned. \<open>realloc\<close> says whether the hooks have \<open>reallocate\<close>.\<close>

definition print_finish :: "(nat \<Rightarrow> bool) \<Rightarrow> printbuffer \<Rightarrow> u8 option list option option" where
  "print_finish ok p = (case pr_buffer p of
     Pr_block cs \<Rightarrow>
       if pr_reallocate p then Some (if ok (pr_allocs p) then Some (resize (pr_length p) cs) else None)
       else if \<not> ok (pr_allocs p) then do { _ \<leftarrow> deallocate p; Some None }
       else (let n = min (pr_length p) (pr_offset p + 1) in
         if n \<le> length cs then Some (Some ((resize (pr_offset p + 1) (take n cs))[pr_offset p := Some 0])) else None)
   | _ \<Rightarrow> None)"

definition print :: "(nat \<Rightarrow> bool) \<Rightarrow> 'n numlib \<Rightarrow> bool \<Rightarrow> 'n item option \<Rightarrow> bool \<Rightarrow> u8 option list option option" where
  "print ok nl realloc item format =
     (if \<not> ok 0 then Some None
      else do {
        (p, r) \<leftarrow> print_item ok nl item \<lparr>pr_buffer = Pr_block (replicate 256 None), pr_length = 0, pr_offset = 0, pr_depth = 0,
          pr_noalloc = False, pr_format = format, pr_reallocate = realloc, pr_allocs = 1\<rparr>;
        if \<not> r then do { _ \<leftarrow> deallocate p; Some None }
        else do { p1 \<leftarrow> update_offset p; print_finish ok p1 }
      })"

definition cJSON_Print :: "(nat \<Rightarrow> bool) \<Rightarrow> 'n numlib \<Rightarrow> bool \<Rightarrow> 'n item option \<Rightarrow> u8 option list option option" where
  "cJSON_Print ok nl realloc item = print ok nl realloc item True"

definition cJSON_PrintUnformatted :: "(nat \<Rightarrow> bool) \<Rightarrow> 'n numlib \<Rightarrow> bool \<Rightarrow> 'n item option \<Rightarrow> u8 option list option option" where
  "cJSON_PrintUnformatted ok nl realloc item = print ok nl realloc item False"

definition cJSON_PrintBuffered :: "(nat \<Rightarrow> bool) \<Rightarrow> 'n numlib \<Rightarrow> bool \<Rightarrow> 'n item option \<Rightarrow> int \<Rightarrow> bool \<Rightarrow> u8 option list option option" where
  "cJSON_PrintBuffered ok nl realloc item prebuffer fmt =
     (if prebuffer < 0 \<or> \<not> ok 0 then Some None
      else do {
        (p, r) \<leftarrow> print_item ok nl item \<lparr>pr_buffer = Pr_block (replicate (nat prebuffer) None), pr_length = nat prebuffer, pr_offset = 0, pr_depth = 0,
          pr_noalloc = False, pr_format = fmt, pr_reallocate = realloc, pr_allocs = 1\<rparr>;
        if \<not> r then do { _ \<leftarrow> deallocate p; Some None }
        else (case pr_buffer p of Pr_block cs \<Rightarrow> Some (Some cs) | _ \<Rightarrow> Some None)
      })"

text \<open>\<open>buf\<close> is \<open>NULL\<close> or the memory the caller gives; the result is the returned flag with that memory.\<close>

definition cJSON_PrintPreallocated :: "(nat \<Rightarrow> bool) \<Rightarrow> 'n numlib \<Rightarrow> bool \<Rightarrow> 'n item option \<Rightarrow> u8 option list option \<Rightarrow> int \<Rightarrow> bool \<Rightarrow> (pr_mem \<times> bool) option" where
  "cJSON_PrintPreallocated ok nl realloc item buf len fmt = (case buf of
     None \<Rightarrow> Some (Pr_null, False)
   | Some cs \<Rightarrow> if len < 0 then Some (Pr_block cs, False)
       else do {
         (p, r) \<leftarrow> print_item ok nl item \<lparr>pr_buffer = Pr_block cs, pr_length = nat len, pr_offset = 0, pr_depth = 0,
           pr_noalloc = True, pr_format = fmt, pr_reallocate = realloc, pr_allocs = 0\<rparr>;
         Some (pr_buffer p, r)
       })"

end
