(* ===== verification/Cjson_Render.thy ===== *)
theory Cjson_Render
  imports Cjson_Print
begin

unbundle bit_operations_syntax

text \<open>
  Printing against a reference: \<open>render\<close> is the text of an item as a function, and every printer, on every item and for
  all failures of allocations, either fails and leaves a buffer that can be given back or leaves exactly that text in the buffer.
\<close>

section \<open>The text of an item\<close>

definition number_chars :: "'n numlib \<Rightarrow> 'n \<Rightarrow> u8 list" where
  "number_chars nl d = (if nl_special nl d then ascii ''null''
     else if (\<exists>t. nl_scan nl (nl_g15 nl d) = Some t \<and> nl_eq nl t d) then nl_g15 nl d else nl_g17 nl d)"

definition number_text :: "'n numlib \<Rightarrow> 'n \<Rightarrow> u8 list" where
  "number_text nl d = map (\<lambda>c. if c = nl_point nl then 0x2E else c) (number_chars nl d)"

definition escaped :: "u8 list \<Rightarrow> u8 list" where
  "escaped s = concat (map (\<lambda>c. take (snd (escape_char c)) (fst (escape_char c))) s)"

definition render_string :: "u8 list option \<Rightarrow> u8 list" where
  "render_string input = 0x22 # (case input of None \<Rightarrow> [] | Some s \<Rightarrow> escaped s) @ [0x22]"

definition fmt_only :: "bool \<Rightarrow> u8 list \<Rightarrow> u8 list" where
  "fmt_only f s = (if f then s else [])"

fun render :: "'n numlib \<Rightarrow> bool \<Rightarrow> nat \<Rightarrow> 'n item \<Rightarrow> u8 list"
  and render_elements :: "'n numlib \<Rightarrow> bool \<Rightarrow> nat \<Rightarrow> 'n item list \<Rightarrow> u8 list"
  and render_members :: "'n numlib \<Rightarrow> bool \<Rightarrow> nat \<Rightarrow> 'n item list \<Rightarrow> u8 list" where
  "render nl f d (Item ty vs num s cs) = (let t = ty AND 0xFF in
     if t = cJSON_NULL then ascii ''null''
     else if t = cJSON_False then ascii ''false''
     else if t = cJSON_True then ascii ''true''
     else if t = cJSON_Number then number_text nl num
     else if t = cJSON_Raw then the vs
     else if t = cJSON_String then render_string vs
     else if t = cJSON_Array then 0x5B # render_elements nl f (d + 1) cs @ [0x5D]
     else 0x7B # fmt_only f [0x0A] @ render_members nl f (d + 1) cs @ fmt_only f (replicate d 0x09) @ [0x7D])"
| "render_elements nl f d [] = []"
| "render_elements nl f d (c # cs) = render nl f d c @ (if cs = [] then [] else 0x2C # fmt_only f [0x20]) @ render_elements nl f d cs"
| "render_members nl f d [] = []"
| "render_members nl f d (c # cs) = fmt_only f (replicate d 0x09) @ render_string (it_string c) @ 0x3A # fmt_only f [0x09] @
     render nl f d c @ (if cs = [] then [] else [0x2C]) @ fmt_only f [0x0A] @ render_members nl f d cs"

text \<open>
  What holds of every item in memory: strings end at their first zero, numbers fit into the buffer for them. A raw item without text is left out:
  printing it gives the buffer back twice. \<open>item_types\<close>: no item has an unknown type.
\<close>

definition c_text :: "u8 list option \<Rightarrow> bool" where
  "c_text s \<longleftrightarrow> (case s of None \<Rightarrow> True | Some t \<Rightarrow> 0 \<notin> set t)"

fun item_ok :: "'n numlib \<Rightarrow> 'n item \<Rightarrow> bool" where
  "item_ok nl (Item ty vs num s cs) \<longleftrightarrow> c_text vs \<and> c_text s \<and> length (number_chars nl num) < 26 \<and> 0 \<notin> set (number_chars nl num) \<and>
     (ty AND 0xFF = cJSON_Raw \<longrightarrow> vs \<noteq> None) \<and> (\<forall>c\<in>set cs. item_ok nl c)"

fun item_types :: "'n item \<Rightarrow> bool" where
  "item_types (Item ty vs num s cs) \<longleftrightarrow>
     ty AND 0xFF \<in> {cJSON_NULL, cJSON_False, cJSON_True, cJSON_Number, cJSON_Raw, cJSON_String, cJSON_Array, cJSON_Object} \<and> (\<forall>c\<in>set cs. item_types c)"

section \<open>What the buffer holds\<close>

text \<open>The buffer is allocated for at least \<open>pr_length\<close> bytes, and the offset is inside of it, once the code knows its length.\<close>

definition pr_wf :: "u8 option list \<Rightarrow> printbuffer \<Rightarrow> bool" where
  "pr_wf cs p \<longleftrightarrow> pr_buffer p = Pr_block cs \<and> pr_length p \<le> length cs \<and>
     (if pr_length p = 0 then pr_offset p = 0 \<and> (pr_reallocate p \<or> pr_noalloc p \<or> cs \<noteq> []) else pr_offset p < pr_length p)"

definition filled :: "u8 list \<Rightarrow> u8 list \<Rightarrow> nat \<Rightarrow> printbuffer \<Rightarrow> bool" where
  "filled pre bs n p \<longleftrightarrow> (\<exists>cs. pr_wf cs p \<and> pr_offset p = length pre + n \<and> take (length pre + length bs) cs = map Some (pre @ bs) \<and>
     length pre + length bs \<le> pr_length p)"

definition pr_ok :: "u8 list \<Rightarrow> printbuffer \<Rightarrow> bool" where
  "pr_ok pre p \<longleftrightarrow> (\<exists>cs. pr_wf cs p \<and> pr_offset p = length pre \<and> take (length pre) cs = map Some pre)"

definition pending :: "u8 list \<Rightarrow> u8 list \<Rightarrow> printbuffer \<Rightarrow> bool" where
  "pending pre txt p \<longleftrightarrow> (\<exists>j\<le>length txt. filled pre (txt @ [0]) j p)"

definition same :: "printbuffer \<Rightarrow> printbuffer \<Rightarrow> bool" where
  "same p q \<longleftrightarrow> pr_noalloc q = pr_noalloc p \<and> pr_format q = pr_format p \<and> pr_reallocate q = pr_reallocate p \<and> pr_length p \<le> pr_length q"

lemma same_refl [simp]: "same p p"
  by (simp add: same_def)

lemma same_trans: "same p q \<Longrightarrow> same q r \<Longrightarrow> same p r"
  by (simp add: same_def)

lemma filled_ok:
  assumes "filled pre bs n p" and "n \<le> length bs"
  shows "pr_ok (pre @ take n bs) p"
proof -
  obtain cs where cs: "pr_wf cs p" "pr_offset p = length pre + n" "take (length pre + length bs) cs = map Some (pre @ bs)"
    using assms(1) by (auto simp: filled_def)
  have "take (length pre + n) cs = take (length pre + n) (take (length pre + length bs) cs)" using assms(2) by (simp add: min_def)
  also have "\<dots> = map Some (pre @ take n bs)" unfolding cs(3) by (simp add: take_map)
  finally show ?thesis using cs(1,2) assms(2) by (auto simp: pr_ok_def)
qed

lemma filled_less: "filled pre (bs @ bs') n p \<Longrightarrow> filled pre bs n p"
proof -
  assume "filled pre (bs @ bs') n p"
  then obtain cs where cs: "pr_wf cs p" "pr_offset p = length pre + n" "take (length pre + length (bs @ bs')) cs = map Some (pre @ bs @ bs')"
      "length pre + length (bs @ bs') \<le> pr_length p"
    by (auto simp: filled_def)
  have "take (length pre + length bs) cs = take (length pre + length bs) (take (length pre + length (bs @ bs')) cs)" by (simp add: min_def)
  also have "\<dots> = map Some (pre @ bs)" unfolding cs(3) by (simp add: take_map)
  finally show ?thesis using cs by (auto simp: filled_def)
qed

text \<open>There is room for \<open>n\<close> bytes: in the buffer, or because it can grow.\<close>

definition room :: "(nat \<Rightarrow> bool) \<Rightarrow> printbuffer \<Rightarrow> nat \<Rightarrow> bool" where
  "room ok p n \<longleftrightarrow> n \<le> INT_MAX \<and> ((\<forall>k. ok k) \<and> \<not> pr_noalloc p \<or> n \<le> pr_length p)"

lemma room_same: "room ok p n \<Longrightarrow> same p q \<Longrightarrow> room ok q n"
  by (auto simp: room_def same_def)

lemma room_mono: "room ok p n \<Longrightarrow> m \<le> n \<Longrightarrow> room ok p m"
  by (auto simp: room_def)

text \<open>The contract of a printer that needs room for \<open>n\<close> bytes from the start of the buffer.\<close>

definition prints :: "(nat \<Rightarrow> bool) \<Rightarrow> printing \<Rightarrow> printbuffer \<Rightarrow> (printbuffer \<Rightarrow> bool) \<Rightarrow> nat \<Rightarrow> bool \<Rightarrow> bool" where
  "prints ok m p Q n good \<longleftrightarrow> (\<exists>q r. m = Some (q, r) \<and> (if r then Q q \<and> same p q else pr_buffer q \<noteq> Pr_freed) \<and> (good \<and> room ok p n \<longrightarrow> r))"

lemma prints_then:
  assumes "prints ok m p Q n g" and "\<And>q. Q q \<Longrightarrow> same p q \<Longrightarrow> prints ok (f q) q R n g'"
  shows "prints ok (pr_then m f) p R n (g \<and> g')"
proof -
  obtain q r where q: "m = Some (q, r)" "if r then Q q \<and> same p q else pr_buffer q \<noteq> Pr_freed" "g \<and> room ok p n \<longrightarrow> r"
    using assms(1) by (auto simp: prints_def)
  show ?thesis
  proof (cases r)
    case True
    then obtain q' r' where q': "f q = Some (q', r')" "if r' then R q' \<and> same q q' else pr_buffer q' \<noteq> Pr_freed" "g' \<and> room ok q n \<longrightarrow> r'"
      using assms(2) [of q] q(2) by (auto simp: prints_def)
    show ?thesis using q q' True room_same [of ok p n q] same_trans [of p q q'] by (auto simp: prints_def pr_then_def)
  next
    case False
    then show ?thesis using q by (auto simp: prints_def pr_then_def)
  qed
qed

lemma prints_weaken:
  assumes "prints ok m p Q k g" and "k \<le> n" and "\<And>q. Q q \<Longrightarrow> same p q \<Longrightarrow> R q" and "g' \<Longrightarrow> g"
  shows "prints ok m p R n g'"
  using assms room_mono [of ok p n k] by (fastforce simp: prints_def split: if_splits)

lemma prints_done: "Q p \<Longrightarrow> prints ok (Some (p, True)) p Q n g"
  unfolding prints_def by (intro exI [of _ p] exI [of _ True]) simp

lemma prints_fail: "pr_buffer p \<noteq> Pr_freed \<Longrightarrow> prints ok (Some (p, False)) p Q n False"
  unfolding prints_def by (intro exI [of _ p] exI [of _ False]) simp

section \<open>Reserving and storing\<close>

lemma resize_props: "length (resize n cs) = n" "k \<le> n \<Longrightarrow> k \<le> length cs \<Longrightarrow> take k (resize n cs) = take k cs"
  by (simp_all add: resize_def)

lemma ensure_grow_prints:
  assumes "pr_wf cs p" and "take k cs = map Some pre" and "length pre = k" and "k \<le> pr_offset p" and "needed + pr_offset p + 1 \<le> newsize"
    and "needed + pr_offset p + 1 \<le> n" and "pr_length p < newsize" and "\<not> pr_noalloc p"
  shows "prints ok (ensure_grow ok newsize cs p) p
    (\<lambda>q. (\<exists>cs'. pr_wf cs' q \<and> take k cs' = map Some pre) \<and> pr_offset q = pr_offset p \<and> pr_depth q = pr_depth p \<and> needed + pr_offset q + 1 \<le> pr_length q) n (\<forall>k. ok k)"
proof -
  have k: "k \<le> length cs" using assms(2,3) by (metis length_map length_take min.absorb_iff2 min.commute)
  have c: "pr_buffer p = Pr_block cs" using assms(1) by (simp add: pr_wf_def)
  have o1: "pr_reallocate p \<or> pr_offset p + 1 \<le> length cs" using assms(1,8) by (cases cs) (auto simp: pr_wf_def split: if_splits)
  have t: "take k (resize newsize cs) = map Some pre" using resize_props(2) [of k newsize cs] k assms(2,4,5) by simp
  have t': "take k (resize newsize (take (pr_offset p + 1) cs)) = map Some pre"
    using resize_props(2) [of k newsize "take (pr_offset p + 1) cs"] k assms(2,4,5) by (simp add: min_def)
  show ?thesis
    using o1 t t' assms(4,5,7) by (auto simp: prints_def ensure_grow_def Let_def pr_wf_def same_def resize_props(1))
qed

lemma ensure_prints:
  assumes "pr_ok pre p" and "needed + length pre + 1 \<le> n"
  shows "prints ok (ensure ok needed p) p (\<lambda>q. pr_ok pre q \<and> pr_depth q = pr_depth p \<and> needed + length pre + 1 \<le> pr_length q) n True"
proof -
  obtain cs where cs: "pr_wf cs p" "pr_offset p = length pre" "take (length pre) cs = map Some pre" using assms(1) by (auto simp: pr_ok_def)
  have b: "pr_buffer p = Pr_block cs" and off: "\<not> (0 < pr_length p \<and> pr_length p \<le> pr_offset p)" using cs(1) by (auto simp: pr_wf_def split: if_splits)
  let ?Q = "\<lambda>q. pr_ok pre q \<and> pr_depth q = pr_depth p \<and> needed + length pre + 1 \<le> pr_length q"
  show ?thesis
  proof (cases "needed + pr_offset p + 1 \<le> pr_length p \<and> needed \<le> INT_MAX")
    case True
    then have "ensure ok needed p = Some (p, True)" using off by (simp add: ensure_def b Let_def)
    then show ?thesis using prints_done [of ?Q p ok n True] True assms(1) cs(2) by simp
  next
    case False
    show ?thesis
    proof (cases "pr_noalloc p \<or> INT_MAX < needed + pr_offset p + 1 \<or> INT_MAX < needed")
      case True
      then have "ensure ok needed p = Some (p, False)" using off False by (auto simp: ensure_def b Let_def)
      moreover have "\<not> room ok p n" using True False assms(2) cs(2) by (auto simp: room_def)
      ultimately show ?thesis unfolding prints_def by (intro exI [of _ p] exI [of _ False]) (simp add: b)
    next
      case F2: False
      define newsize where "newsize = (if INT_MAX div 2 < needed + pr_offset p + 1 then INT_MAX else (needed + pr_offset p + 1) * 2)"
      have e: "ensure ok needed p = ensure_grow ok newsize cs p" using off False F2 by (auto simp: ensure_def b Let_def newsize_def)
      have "prints ok (ensure_grow ok newsize cs p) p
        (\<lambda>q. (\<exists>cs'. pr_wf cs' q \<and> take (length pre) cs' = map Some pre) \<and> pr_offset q = pr_offset p \<and> pr_depth q = pr_depth p \<and> needed + pr_offset q + 1 \<le> pr_length q) n (\<forall>k. ok k)"
        by (rule ensure_grow_prints [OF cs(1,3)]) (use False F2 cs(2) assms(2) in \<open>auto simp: newsize_def\<close>)
      then have pg: "prints ok (ensure ok needed p) p ?Q n (\<forall>k. ok k)" unfolding e
        by (rule prints_weaken) (use cs(2) in \<open>auto simp: pr_ok_def\<close>)
      have "room ok p n \<Longrightarrow> \<forall>k. ok k" using False F2 assms(2) cs(2) by (auto simp: room_def)
      then show ?thesis using pg unfolding prints_def by blast
    qed
  qed
qed

lemma pr_write_filled:
  assumes "filled pre mid 0 p" and "length pre + length mid + length bs \<le> pr_length p" and "k = length mid"
  shows "\<exists>q. pr_write k bs p = Some q \<and> filled pre (mid @ bs) 0 q \<and> same p q \<and> pr_depth q = pr_depth p \<and> pr_length q = pr_length p"
proof -
  obtain cs where cs: "pr_wf cs p" "pr_offset p = length pre" "take (length pre + length mid) cs = map Some (pre @ mid)"
    using assms(1) by (auto simp: filled_def)
  have b: "pr_buffer p = Pr_block cs" and l: "pr_length p \<le> length cs" using cs(1) by (auto simp: pr_wf_def)
  let ?i = "length pre + length mid"
  let ?cs = "take ?i cs @ map Some bs @ drop (?i + length bs) cs"
  have "length ?cs = length cs" using assms(2) l by simp
  then have "pr_wf ?cs (p\<lparr>pr_buffer := Pr_block ?cs\<rparr>)" using cs(1) by (auto simp: pr_wf_def split: if_splits)
  moreover have "take (?i + length bs) ?cs = map Some (pre @ mid @ bs)" using cs(3) assms(2) l by simp
  ultimately have "filled pre (mid @ bs) 0 (p\<lparr>pr_buffer := Pr_block ?cs\<rparr>)" using cs(2) assms(2) unfolding filled_def by auto
  moreover have "pr_write k bs p = Some (p\<lparr>pr_buffer := Pr_block ?cs\<rparr>)" using assms(2,3) l cs(2) by (simp add: pr_write_def b Let_def)
  ultimately show ?thesis by (simp add: same_def)
qed

lemma ok_filled: "pr_ok pre p \<Longrightarrow> length pre \<le> pr_length p \<Longrightarrow> filled pre [] 0 p"
  by (simp add: pr_ok_def filled_def)

lemma filled_advance:
  assumes "filled pre bs 0 p" and "length pre + n < pr_length p"
  shows "filled pre bs n (p\<lparr>pr_offset := pr_offset p + n\<rparr>)"
proof -
  obtain cs where cs: "pr_wf cs p" "pr_offset p = length pre" "take (length pre + length bs) cs = map Some (pre @ bs)" "length pre + length bs \<le> pr_length p"
    using assms(1) by (auto simp: filled_def)
  have "pr_wf cs (p\<lparr>pr_offset := pr_offset p + n\<rparr>)" using cs(1,2) assms(2) by (auto simp: pr_wf_def split: if_splits)
  then show ?thesis using cs unfolding filled_def by auto
qed

lemma put_prints:
  assumes "pr_ok pre p" and "length bs \<le> needed + 1" and "n \<le> needed" and "needed + length pre + 1 \<le> k"
  shows "prints ok (pr_put ok needed bs n p) p (\<lambda>q. filled pre bs n q \<and> pr_depth q = pr_depth p) k True"
proof -
  have "prints ok (do { p2 \<leftarrow> pr_write 0 bs q; Some (p2\<lparr>pr_offset := pr_offset p2 + n\<rparr>, True) }) q (\<lambda>q. filled pre bs n q \<and> pr_depth q = pr_depth p) k True"
    if q: "pr_ok pre q \<and> pr_depth q = pr_depth p \<and> needed + length pre + 1 \<le> pr_length q" for q
  proof -
    have f: "filled pre [] 0 q" using ok_filled [of pre q] q by simp
    obtain q' where q': "pr_write 0 bs q = Some q'" "filled pre bs 0 q'" "same q q'" "pr_depth q' = pr_depth q" "pr_length q' = pr_length q"
      using pr_write_filled [OF f, of bs 0] q assms(2) by auto
    let ?q = "q'\<lparr>pr_offset := pr_offset q' + n\<rparr>"
    have "filled pre bs n ?q" by (rule filled_advance [OF q'(2)]) (use q q'(5) assms(3) in simp)
    moreover have "same q ?q" using q'(3) by (simp add: same_def)
    ultimately show ?thesis unfolding prints_def using q q'(1,4) by (intro exI [of _ ?q] exI [of _ True]) simp
  qed
  from prints_then [OF ensure_prints [OF assms(1,4)] this] show ?thesis unfolding pr_put_def by simp
qed

lemma filled_pending: "filled pre (txt @ 0 # r) j p \<Longrightarrow> j \<le> length txt \<Longrightarrow> pending pre txt p"
  using filled_less [of pre "txt @ [0]" r j p] by (auto simp: pending_def)

lemma put_pending:
  assumes "pr_ok pre p" and "bs = txt @ [0]" and "length txt \<le> needed" and "n \<le> length txt" and "needed + length pre + 1 \<le> k"
  shows "prints ok (pr_put ok needed bs n p) p (\<lambda>q. pending pre txt q \<and> pr_depth q = pr_depth p) k True"
  by (rule prints_weaken [OF put_prints [OF assms(1)]]) (use assms in \<open>auto simp: pending_def\<close>)

lemma put_ok:
  assumes "pr_ok pre p" and "length bs \<le> needed + 1" and "n \<le> needed" and "n \<le> length bs" and "pre' = pre @ take n bs" and "needed + length pre + 1 \<le> k"
  shows "prints ok (pr_put ok needed bs n p) p (\<lambda>q. pr_ok pre' q \<and> pr_depth q = pr_depth p) k True"
  by (rule prints_weaken [OF put_prints [OF assms(1-3,6)]]) (use assms(4,5) filled_ok in auto)

lemma update_pending:
  assumes "pending pre txt p" and "0 \<notin> set txt"
  shows "\<exists>q. update_offset p = Some q \<and> pr_ok (pre @ txt) q \<and> same p q \<and> pr_depth q = pr_depth p \<and> pr_allocs q = pr_allocs p \<and> length (pre @ txt) < pr_length q \<and>
    (\<exists>cs. pr_buffer q = Pr_block cs \<and> take (length pre + length txt + 1) cs = map Some (pre @ txt @ [0]))"
proof -
  obtain j cs where j: "j \<le> length txt" and cs: "pr_wf cs p" "pr_offset p = length pre + j" "take (length pre + length txt + 1) cs = map Some (pre @ txt @ [0])"
      "length pre + length txt + 1 \<le> pr_length p"
    using assms(1) by (auto simp: pending_def filled_def)
  have b: "pr_buffer p = Pr_block cs" and l: "pr_length p \<le> length cs" using cs(1) by (auto simp: pr_wf_def)
  define r where "r = drop (length pre + length txt + 1) cs"
  have c: "cs = map Some pre @ map Some txt @ Some 0 # r" using cs(3) append_take_drop_id [of "length pre + length txt + 1" cs] by (simp add: r_def)
  have d: "drop (pr_offset p) cs = map Some (drop j txt) @ Some 0 # r" using cs(2) j by (simp add: c drop_map)
  have "0 \<notin> set (drop j txt)" using assms(2) in_set_dropD by metis
  then have t: "takeWhile (\<lambda>c. c \<noteq> Some 0) (drop (pr_offset p) cs) = map Some (drop j txt)"
    unfolding d by (subst takeWhile_append2) auto
  let ?q = "p\<lparr>pr_offset := length pre + length txt\<rparr>"
  have "pr_offset p + length (drop j txt) = length pre + length txt" "length pre + length txt < length cs" using cs(2,4) j l by simp_all
  then have u: "update_offset p = Some ?q" unfolding update_offset_def b Let_def by (simp add: t image_iff)
  have "pr_wf cs ?q" using cs(1,4) by (auto simp: pr_wf_def split: if_splits)
  moreover have "take (length pre + length txt) cs = map Some (pre @ txt)" by (simp add: c)
  ultimately have "pr_ok (pre @ txt) ?q" unfolding pr_ok_def by auto
  then show ?thesis using u cs(3,4) b by (simp add: same_def)
qed

lemma then_update_prints:
  assumes "prints ok m p (\<lambda>q. pending pre txt q \<and> pr_depth q = d) k g" and "0 \<notin> set txt"
  shows "prints ok (then_update m) p (\<lambda>q. pr_ok (pre @ txt) q \<and> pr_depth q = d) k g"
proof -
  have "prints ok (do { p1 \<leftarrow> update_offset q; Some (p1, True) }) q (\<lambda>q. pr_ok (pre @ txt) q \<and> pr_depth q = d) k True" if h: "pending pre txt q \<and> pr_depth q = d" for q
  proof -
    obtain q' where q': "update_offset q = Some q'" "pr_ok (pre @ txt) q'" "same q q'" "pr_depth q' = pr_depth q"
      using update_pending [of pre "txt" q] assms(2) h by blast
    show ?thesis unfolding prints_def using q' h by (intro exI [of _ q'] exI [of _ True]) simp
  qed
  from prints_then [OF assms(1) this] show ?thesis unfolding then_update_def by simp
qed

section \<open>Numbers and strings\<close>

lemma number_prints:
  assumes "pr_ok pre p" and "length (number_chars nl d) < 26" and "length pre + length (number_text nl d) + 2 \<le> k"
  shows "prints ok (print_number ok nl d p) p (\<lambda>q. pending pre (number_text nl d) q \<and> pr_depth q = pr_depth p) k True"
proof -
  have "(if nl_special nl d then ascii ''null''
     else (case nl_scan nl (nl_g15 nl d) of None \<Rightarrow> nl_g17 nl d | Some test \<Rightarrow> if nl_eq nl test d then nl_g15 nl d else nl_g17 nl d)) = number_chars nl d"
    by (auto simp: number_chars_def split: option.splits)
  then have "print_number ok nl d p = pr_put ok (length (number_chars nl d)) (number_text nl d @ [0]) (length (number_chars nl d)) p"
    using assms(2) by (simp add: print_number_def number_text_def Let_def)
  then show ?thesis using put_pending [OF assms(1) refl] assms(3) by (simp add: number_text_def)
qed

lemma escape_char_length: "length (fst (escape_char c)) \<le> snd (escape_char c) + 1 \<and> snd (escape_char c) \<le> length (fst (escape_char c)) \<and>
    snd (escape_char c) = 1 + (if one_char_escape c \<noteq> None then 1 else if c < 32 then 5 else 0)"
proof (cases "31 < c \<and> c \<noteq> 0x22 \<and> c \<noteq> 0x5C")
  case True
  then have "one_char_escape c = None" "\<not> c < 32" by (auto simp: one_char_escape_def word_less_nat_alt)
  then show ?thesis using True by (simp add: escape_char_def)
next
  case False
  then have "c < 32 \<or> c = 0x22 \<or> c = 0x5C" by (auto simp: word_less_nat_alt)
  then show ?thesis using False by (auto simp: escape_char_def one_char_escape_def)
qed

lemma escaped_simps [simp]: "escaped [] = []" "escaped (c # s) = take (snd (escape_char c)) (fst (escape_char c)) @ escaped s"
  by (simp_all add: escaped_def)

lemma escaped_length: "length (escaped s) = length s + escape_characters s"
proof (induction s)
  case (Cons c s)
  then show ?case using escape_char_length [of c] by (simp add: escape_characters_def min_absorb2)
qed (simp add: escape_characters_def)

lemma escaped_plain: "escape_characters s = 0 \<Longrightarrow> escaped s = s"
proof (induction s)
  case (Cons c s)
  then have n: "one_char_escape c = None" "\<not> c < 32" "escape_characters s = 0" by (auto simp: escape_characters_def split: if_splits)
  then have "31 < c \<and> c \<noteq> 0x22 \<and> c \<noteq> 0x5C" by (auto simp: one_char_escape_def word_less_nat_alt)
  then show ?case using Cons.IH n(3) by (simp add: escape_char_def)
qed (simp add: escape_characters_def)

lemma put_chars_filled:
  assumes "filled pre mid 0 p" and "length pre + length mid + length (escaped s) + 1 \<le> pr_length p" and "k = length mid"
  shows "\<exists>q. put_chars k s p = Some q \<and> filled pre (mid @ escaped s) 0 q \<and> same p q \<and> pr_depth q = pr_depth p \<and> pr_length q = pr_length p"
  using assms
proof (induction s arbitrary: mid p k)
  case (Cons c s)
  let ?e = "fst (escape_char c)" and ?n = "snd (escape_char c)"
  have n: "length ?e \<le> ?n + 1" "?n \<le> length ?e" using escape_char_length [of c] by blast+
  obtain q where q: "pr_write k ?e p = Some q" "filled pre (mid @ ?e) 0 q" "same p q" "pr_depth q = pr_depth p" "pr_length q = pr_length p"
    using pr_write_filled [OF Cons.prems(1), of ?e k] Cons.prems(2,3) n by auto
  have "filled pre (mid @ take ?n ?e) 0 q" using filled_less [of pre "mid @ take ?n ?e" "drop ?n ?e" 0 q] q(2) by simp
  from Cons.IH [OF this, of "k + ?n"] obtain q' where "put_chars (k + ?n) s q = Some q'" "filled pre ((mid @ take ?n ?e) @ escaped s) 0 q'" "same q q'"
      "pr_depth q' = pr_depth q" "pr_length q' = pr_length q"
    using Cons.prems(2,3) q(5) n by auto
  then show ?case using q same_trans [of p q q'] by auto
qed auto

lemma string_prints:
  assumes p: "pr_ok pre p" and s: "c_text s" and k: "length pre + length (render_string s) + 2 \<le> k"
  shows "prints ok (print_string_ptr ok s p) p (\<lambda>q. pending pre (render_string s) q \<and> pr_depth q = pr_depth p) k True"
proof (cases s)
  case None
  show ?thesis unfolding None print_string_ptr_def render_string_def option.case
    by (rule put_pending [OF p]) (use k None in \<open>simp_all add: render_string_def\<close>)
next
  case (Some t)
  let ?n = "length t + escape_characters t"
  have r: "render_string s = 0x22 # escaped t @ [0x22]" by (simp add: render_string_def Some)
  have l: "length (escaped t) = ?n" by (rule escaped_length)
  show ?thesis
  proof (cases "escape_characters t = 0")
    case True
    have "prints ok (pr_put ok (?n + 3) (0x22 # t @ [0x22, 0]) 0 p) p (\<lambda>q. pending pre (0x22 # t @ [0x22]) q \<and> pr_depth q = pr_depth p) k True"
      by (rule put_pending [OF p]) (use k r l in simp_all)
    then show ?thesis using True by (simp add: r [unfolded Some] Some print_string_ptr_def escaped_plain)
  next
    case False
    let ?f = "\<lambda>p1. do { p2 \<leftarrow> pr_write 0 [0x22] p1; p3 \<leftarrow> put_chars 1 t p2; p4 \<leftarrow> pr_write (?n + 1) [0x22, 0] p3; Some (p4, True) }"
    have "prints ok (?f q) q (\<lambda>q. pending pre (render_string s) q \<and> pr_depth q = pr_depth p) k True"
      if h: "pr_ok pre q \<and> pr_depth q = pr_depth p \<and> ?n + 3 + length pre + 1 \<le> pr_length q" for q
    proof -
      have f: "filled pre [] 0 q" using ok_filled [of pre q] h by simp
      obtain q1 where q1: "pr_write 0 [0x22] q = Some q1" "filled pre [0x22] 0 q1" "same q q1" "pr_depth q1 = pr_depth q" "pr_length q1 = pr_length q"
        using pr_write_filled [OF f, of "[0x22]" 0] h by auto
      obtain q2 where q2: "put_chars 1 t q1 = Some q2" "filled pre (0x22 # escaped t) 0 q2" "same q1 q2" "pr_depth q2 = pr_depth q1" "pr_length q2 = pr_length q1"
        using put_chars_filled [OF q1(2), of t 1] h q1(5) l by auto
      obtain q3 where q3: "pr_write (?n + 1) [0x22, 0] q2 = Some q3" "filled pre (0x22 # escaped t @ [0x22, 0]) 0 q3" "same q2 q3" "pr_depth q3 = pr_depth q2"
        using pr_write_filled [OF q2(2), of "[0x22, 0]" "?n + 1"] h q1(5) q2(5) l by auto
      have "pending pre (render_string s) q3" using q3(2) unfolding r pending_def by (intro exI [of _ 0]) simp
      moreover have "same q q3" using q1(3) q2(3) q3(3) by (simp add: same_def)
      ultimately show ?thesis unfolding prints_def using h q1(1,4) q2(1,4) q3(1,4) by (intro exI [of _ q3] exI [of _ True]) simp
    qed
    from prints_then [OF ensure_prints [OF p, of "?n + 3" k] this] show ?thesis using False k r l by (simp add: Some print_string_ptr_def Let_def)
  qed
qed

lemma hex_char_nonzero: "d < 16 \<Longrightarrow> hex_char d \<noteq> 0"
proof
  assume d: "d < 16" "hex_char d = 0"
  have "unat d < 16" using d(1) by (simp add: word_less_nat_alt)
  then have "unat (0x30 + d) = 0x30 + unat d" "unat (0x57 + d) = 0x57 + unat d" by (simp_all add: unat_word_ariths)
  then show False using d(2) by (auto simp: hex_char_def split: if_splits)
qed

lemma one_char_nonzero: "one_char_escape c = Some e \<Longrightarrow> e \<noteq> 0"
  by (auto simp: one_char_escape_def split: if_splits)

lemma escape_nonzero: "c \<noteq> 0 \<Longrightarrow> 0 \<notin> set (take (snd (escape_char c)) (fst (escape_char c)))"
proof -
  assume c: "c \<noteq> 0"
  have "unat c < 256" using unsigned_less [of c] by simp
  then have "unat c div 16 < 16" "unat c mod 16 < 16" by (simp_all add: less_mult_imp_div_less)
  then have "c div 16 < 16" "c mod 16 < 16" by (simp_all add: word_less_nat_alt unat_div_distrib unat_mod_distrib)
  then have "hex_char (c div 16) \<noteq> 0" "hex_char (c mod 16) \<noteq> 0" using hex_char_nonzero by blast+
  then show ?thesis using c one_char_nonzero [of c]
    by (cases "31 < c \<and> c \<noteq> 0x22 \<and> c \<noteq> 0x5C"; cases "one_char_escape c") (simp_all add: escape_char_def)
qed

lemma string_nonzero: "c_text s \<Longrightarrow> 0 \<notin> set (render_string s)"
proof -
  have "0 \<notin> set t \<Longrightarrow> 0 \<notin> set (escaped t)" for t by (induction t) (use escape_nonzero in auto)
  then show "c_text s \<Longrightarrow> 0 \<notin> set (render_string s)" by (auto simp: c_text_def render_string_def split: option.splits)
qed

end
