(* ===== verification/Cjson_Printer.thy ===== *)
theory Cjson_Printer
  imports Cjson_Render
begin

unbundle bit_operations_syntax

text \<open>
  The printers of whole items and the entry points: on every item, for all failures of allocations, they store the text
  \<open>render\<close> or fail, and never leave the buffer.
\<close>

section \<open>The pieces of arrays and objects\<close>

lemma fmt_only_simps [simp]: "fmt_only True s = s" "fmt_only False s = []"
  by (simp_all add: fmt_only_def)

text \<open>The buffer holds \<open>pre\<close> up to the offset; it holds \<open>pre\<close> and \<open>t\<close>, with the offset somewhere in \<open>t\<close>.\<close>

definition at_text :: "nat \<Rightarrow> bool \<Rightarrow> u8 list \<Rightarrow> printbuffer \<Rightarrow> bool" where
  "at_text d f pre q \<longleftrightarrow> pr_ok pre q \<and> pr_depth q = d \<and> pr_format q = f"

definition left_text :: "nat \<Rightarrow> bool \<Rightarrow> u8 list \<Rightarrow> u8 list \<Rightarrow> printbuffer \<Rightarrow> bool" where
  "left_text d f pre t q \<longleftrightarrow> pending pre t q \<and> pr_depth q = d \<and> pr_format q = f"

lemma prints_at:
  assumes "prints ok m p (\<lambda>q. pr_ok pre' q \<and> pr_depth q = pr_depth p) k g" and "at_text d f pre p"
  shows "prints ok m p (at_text d f pre') k g"
  by (rule prints_weaken [OF assms(1) le_refl]) (use assms(2) in \<open>auto simp: at_text_def same_def\<close>)

lemma prints_left:
  assumes "prints ok m p (\<lambda>q. pending pre' t q \<and> pr_depth q = pr_depth p) k g" and "at_text d f pre p"
  shows "prints ok m p (left_text d f pre' t) k g"
  by (rule prints_weaken [OF assms(1) le_refl]) (use assms(2) in \<open>auto simp: at_text_def left_text_def same_def\<close>)

lemma put_at:
  assumes "at_text d f pre p" and "length bs \<le> needed + 1" and "n \<le> needed" and "n \<le> length bs" and "pre' = pre @ take n bs" and "needed + length pre + 1 \<le> k"
  shows "prints ok (pr_put ok needed bs n p) p (at_text d f pre') k True"
  by (rule prints_at [OF put_ok assms(1)]) (use assms in \<open>auto simp: at_text_def\<close>)

lemma put_left:
  assumes "at_text d f pre p" and "bs = t @ [0]" and "length t \<le> needed" and "n \<le> length t" and "needed + length pre + 1 \<le> k"
  shows "prints ok (pr_put ok needed bs n p) p (left_text d f pre t) k True"
  by (rule prints_left [OF put_pending assms(1)]) (use assms in \<open>auto simp: at_text_def\<close>)

lemma ok_depth [simp]: "pr_ok pre (q\<lparr>pr_depth := n\<rparr>) = pr_ok pre q" "pending pre t (q\<lparr>pr_depth := n\<rparr>) = pending pre t q"
  by (simp_all add: pr_ok_def pr_wf_def pending_def filled_def)

lemma prints_depth:
  assumes "prints ok m p Q k True" and "\<And>q. Q q \<Longrightarrow> R (q\<lparr>pr_depth := h (pr_depth q)\<rparr>)"
  shows "prints ok (pr_then m (\<lambda>q. Some (q\<lparr>pr_depth := h (pr_depth q)\<rparr>, True))) p R k True"
proof -
  have "prints ok (Some (q\<lparr>pr_depth := h (pr_depth q)\<rparr>, True)) q R k True" if "Q q" for q
    using that assms(2) [of q] unfolding prints_def
    by (intro exI [of _ "q\<lparr>pr_depth := h (pr_depth q)\<rparr>"] exI [of _ True]) (simp add: same_def)
  from prints_then [OF assms(1) this] show ?thesis by simp
qed

lemma array_open_prints:
  assumes "at_text d f pre p" and "length pre + 2 \<le> k"
  shows "prints ok (array_open ok p) p (at_text (d + 1) f (pre @ [0x5B])) k True"
  unfolding array_open_def by (rule prints_depth [OF put_at [OF assms(1)]]) (use assms(2) in \<open>auto simp: at_text_def\<close>)

lemma array_comma_prints:
  assumes "at_text d f pre p" and "length pre + length (fmt_only f [0x20]) + 3 \<le> k"
  shows "prints ok (array_comma ok p) p (at_text d f (pre @ 0x2C # fmt_only f [0x20])) k True"
proof -
  have "pr_format p = f" using assms(1) by (simp add: at_text_def)
  then show ?thesis unfolding array_comma_def by (split if_split, intro conjI impI; intro put_at [OF assms(1)]; use assms(2) in simp)
qed

lemma array_close_prints:
  assumes "at_text (d + 1) f pre p" and "length pre + 3 \<le> k"
  shows "prints ok (array_close ok p) p (left_text d f pre [0x5D]) k True"
  unfolding array_close_def by (rule prints_depth [OF put_left [OF assms(1)]]) (use assms(2) in \<open>auto simp: left_text_def\<close>)

lemma object_open_prints:
  assumes "at_text d f pre p" and "length pre + length (fmt_only f [0x0A]) + 3 \<le> k"
  shows "prints ok (object_open ok p) p (at_text (d + 1) f (pre @ 0x7B # fmt_only f [0x0A])) k True"
proof -
  have f: "pr_format p = f" using assms(1) by (simp add: at_text_def)
  have "prints ok (if pr_format p then pr_put ok 3 [0x7B, 0x0A] 2 p else pr_put ok 2 [0x7B] 1 p) p (at_text d f (pre @ 0x7B # fmt_only f [0x0A])) k True"
    unfolding f by (split if_split, intro conjI impI; intro put_at [OF assms(1)]; use assms(2) in simp)
  then show ?thesis unfolding object_open_def by (rule prints_depth) (simp add: at_text_def)
qed

lemma object_tabs_prints:
  assumes "at_text d f pre p" and "length pre + d + 1 \<le> k"
  shows "prints ok (object_tabs ok p) p (at_text d f (pre @ fmt_only f (replicate d 0x09))) k True"
proof -
  have f: "pr_format p = f" "pr_depth p = d" using assms(1) by (simp_all add: at_text_def)
  show ?thesis
  proof (cases f)
    case True
    have "prints ok (pr_put ok d (replicate d 0x09) d p) p (at_text d f (pre @ replicate d 0x09)) k True"
      by (rule put_at [OF assms(1)]) (use assms(2) in simp_all)
    then show ?thesis using True f by (simp add: object_tabs_def)
  qed (use assms(1) f in \<open>simp add: object_tabs_def prints_done\<close>)
qed

lemma object_colon_prints:
  assumes "at_text d f pre p" and "length pre + 3 \<le> k"
  shows "prints ok (object_colon ok p) p (at_text d f (pre @ 0x3A # fmt_only f [0x09])) k True"
proof -
  have "pr_format p = f" using assms(1) by (simp add: at_text_def)
  then show ?thesis unfolding object_colon_def by (split if_split, intro conjI impI; intro put_at [OF assms(1)]; use assms(2) in simp)
qed

lemma object_comma_prints:
  assumes "at_text d f pre p" and "bs = (if is_last then [] else [0x2C]) @ fmt_only f [0x0A]" and "length pre + length bs + 2 \<le> k"
  shows "prints ok (object_comma ok is_last p) p (at_text d f (pre @ bs)) k True"
proof -
  have "pr_format p = f" using assms(1) by (simp add: at_text_def)
  then have "object_comma ok is_last p = pr_put ok (length bs + 1) (bs @ [0]) (length bs) p" using assms(2) by (simp add: object_comma_def fmt_only_def Let_def)
  then show ?thesis using put_at [OF assms(1), of "bs @ [0]" "length bs + 1" "length bs" "pre @ bs" k ok] assms(3) by simp
qed

lemma object_close_prints:
  assumes "at_text (d + 1) f pre p" and "t = fmt_only f (replicate d 0x09) @ [0x7D]" and "length pre + length t + 2 \<le> k"
  shows "prints ok (object_close ok p) p (left_text d f pre t) k True"
proof -
  have "pr_format p = f" "pr_depth p = d + 1" using assms(1) by (simp_all add: at_text_def)
  then have "prints ok (pr_put ok (if pr_format p then pr_depth p + 1 else 2) ((if pr_format p then replicate (pr_depth p - 1) 0x09 else []) @ [0x7D, 0]) 0 p) p
      (left_text (d + 1) f pre t) k True"
    by (intro put_left [OF assms(1)]) (use assms(2,3) in \<open>cases f; simp\<close>)+
  then show ?thesis unfolding object_close_def by (rule prints_depth) (simp add: left_text_def)
qed

lemma string_left:
  assumes "at_text d f pre p" and "c_text s" and "length pre + length (render_string s) + 2 \<le> k"
  shows "prints ok (print_string_ptr ok s p) p (left_text d f pre (render_string s)) k True"
  by (rule prints_left [OF string_prints assms(1)]) (use assms in \<open>auto simp: at_text_def\<close>)

lemma number_left:
  assumes "at_text d f pre p" and "length (number_chars nl n) < 26" and "length pre + length (number_text nl n) + 2 \<le> k"
  shows "prints ok (print_number ok nl n p) p (left_text d f pre (number_text nl n)) k True"
  by (rule prints_left [OF number_prints assms(1)]) (use assms in \<open>auto simp: at_text_def\<close>)

lemma raw_left:
  assumes "at_text d f pre p" and "vs = Some s" and "length pre + length s + 2 \<le> k"
  shows "prints ok (print_raw ok vs p) p (left_text d f pre s) k True"
  unfolding print_raw_def assms(2) option.case by (rule put_left [OF assms(1) refl]) (use assms(3) in simp_all)

lemma update_at:
  assumes "prints ok m p (left_text d f pre t) k g" and "0 \<notin> set t"
  shows "prints ok (then_update m) p (at_text d f (pre @ t)) k g"
proof -
  have "prints ok (do { p1 \<leftarrow> update_offset q; Some (p1, True) }) q (at_text d f (pre @ t)) k True" if h: "left_text d f pre t q" for q
  proof -
    obtain q' where q': "update_offset q = Some q'" "pr_ok (pre @ t) q'" "same q q'" "pr_depth q' = pr_depth q"
      using update_pending [of pre t q] assms(2) h unfolding left_text_def by blast
    have "at_text d f (pre @ t) q'" using q' h by (simp add: at_text_def left_text_def same_def)
    then show ?thesis unfolding prints_def using q' by (intro exI [of _ q'] exI [of _ True]) simp
  qed
  from prints_then [OF assms(1) this] show ?thesis unfolding then_update_def by simp
qed

lemma left_prefix: "left_text d f (pre @ a) b q \<Longrightarrow> left_text d f pre (a @ b) q"
proof -
  assume h: "left_text d f (pre @ a) b q"
  then obtain j cs where j: "j \<le> length b" and cs: "pr_wf cs q" "pr_offset q = length pre + (length a + j)"
      "take (length pre + length ((a @ b) @ [0])) cs = map Some (pre @ (a @ b) @ [0])" "length pre + length ((a @ b) @ [0]) \<le> pr_length q"
    by (auto simp: left_text_def pending_def filled_def add.assoc)
  then have "filled pre ((a @ b) @ [0]) (length a + j) q" unfolding filled_def by blast
  then have "pending pre (a @ b) q" using j unfolding pending_def by (intro exI [of _ "length a + j"]) simp
  then show ?thesis using h by (simp add: left_text_def)
qed

section \<open>Whole items\<close>

lemma number_nonzero: "0 \<notin> set (number_chars nl d) \<Longrightarrow> 0 \<notin> set (number_text nl d)"
  by (auto simp: number_text_def)

lemma render_nonzero:
  "item_ok nl it \<Longrightarrow> 0 \<notin> set (render nl f d it)"
  "(\<forall>c\<in>set cs. item_ok nl c) \<Longrightarrow> 0 \<notin> set (render_elements nl f d cs)"
  "(\<forall>c\<in>set cs. item_ok nl c) \<Longrightarrow> 0 \<notin> set (render_members nl f d cs)"
proof (induction nl f d it and nl f d cs and nl f d cs rule: render_render_elements_render_members.induct)
  case (1 nl f d ty vs num s cs)
  then show ?case by (auto simp: Let_def ascii_def fmt_only_def number_nonzero string_nonzero c_text_def split: option.splits)
next
  case (5 nl f d c cs)
  moreover have "c_text (it_string c)" using 5 by (cases c) auto
  ultimately show ?case by (auto simp: fmt_only_def string_nonzero)
qed (auto simp: fmt_only_def)

text \<open>The contract of \<open>print_value\<close> on one item.\<close>

definition value_prints :: "(nat \<Rightarrow> bool) \<Rightarrow> 'n numlib \<Rightarrow> 'n item \<Rightarrow> bool" where
  "value_prints ok nl it \<longleftrightarrow> (\<forall>d f pre p k. at_text d f pre p \<longrightarrow> length pre + length (render nl f d it) + 2 \<le> k \<longrightarrow>
     prints ok (print_value ok nl it p) p (left_text d f pre (render nl f d it)) k (item_types it))"

lemma value_printsD:
  "value_prints ok nl it \<Longrightarrow> at_text d f pre p \<Longrightarrow> length pre + length (render nl f d it) + 2 \<le> k \<Longrightarrow>
   prints ok (print_value ok nl it p) p (left_text d f pre (render nl f d it)) k (item_types it)"
  unfolding value_prints_def by blast

lemma elements_print:
  assumes "\<forall>c\<in>set cs. value_prints ok nl c \<and> item_ok nl c" and "at_text d f pre p" and "length pre + length (render_elements nl f d cs) + 2 \<le> k"
  shows "prints ok (print_elements ok nl cs p) p (at_text d f (pre @ render_elements nl f d cs)) k (\<forall>c\<in>set cs. item_types c)"
  using assms
proof (induction cs arbitrary: pre p)
  case Nil
  then show ?case using prints_done [of "at_text d f pre" p] by simp
next
  case (Cons c cs)
  let ?r = "render nl f d c" and ?c = "if cs = [] then [] else 0x2C # fmt_only f [0x20]"
  have A: "prints ok (print_value ok nl c p) p (left_text d f pre ?r) k (item_types c)"
    by (rule value_printsD) (use Cons.prems in auto)
  have B: "prints ok (then_update (print_value ok nl c p)) p (at_text d f (pre @ ?r)) k (item_types c)"
    by (rule update_at [OF A render_nonzero(1)]) (use Cons.prems(1) in simp)
  have C: "prints ok (if cs = [] then Some (q, True) else array_comma ok q) q (at_text d f (pre @ ?r @ ?c)) k True" if q: "at_text d f (pre @ ?r) q" for q
  proof (cases "cs = []")
    case True
    then show ?thesis using q by (simp add: prints_done)
  next
    case False
    then show ?thesis using array_comma_prints [OF q, of k ok] Cons.prems(3) by simp
  qed
  have D: "prints ok (print_elements ok nl cs q) q (at_text d f (pre @ render_elements nl f d (c # cs))) k (\<forall>c\<in>set cs. item_types c)"
    if "at_text d f (pre @ ?r @ ?c) q" for q
    using Cons.IH [of "pre @ ?r @ ?c" q] that Cons.prems(1,3) by simp
  show ?case unfolding print_elements.simps by (rule prints_weaken [OF prints_then [OF prints_then [OF B C] D] le_refl]) auto
qed

lemma members_print:
  assumes "\<forall>c\<in>set cs. value_prints ok nl c \<and> item_ok nl c" and "at_text d f pre p" and "length pre + length (render_members nl f d cs) + 2 \<le> k"
  shows "prints ok (print_members ok nl cs p) p (at_text d f (pre @ render_members nl f d cs)) k (\<forall>c\<in>set cs. item_types c)"
  using assms
proof (induction cs arbitrary: pre p)
  case Nil
  then show ?case using prints_done [of "at_text d f pre" p] by simp
next
  case (Cons c cs)
  let ?t = "fmt_only f (replicate d 0x09)" and ?s = "render_string (it_string c)" and ?o = "0x3A # fmt_only f [0x09]" and ?r = "render nl f d c"
  let ?e = "(if cs = [] then [] else [0x2C]) @ fmt_only f [0x0A]"
  have len: "length pre + length ?t + length ?s + length ?o + length ?r + length ?e + length (render_members nl f d cs) + 2 \<le> k"
    using Cons.prems(3) by simp
  have ct: "c_text (it_string c)" using Cons.prems(1) by (cases c) auto
  have ss: "2 \<le> length ?s" by (simp add: render_string_def)
  have ld: "f \<Longrightarrow> length ?t = d" by simp
  have A: "prints ok (object_tabs ok p) p (at_text d f (pre @ ?t)) k True"
  proof (cases f)
    case True
    then show ?thesis using object_tabs_prints [OF Cons.prems(2), of k ok] len by simp
  next
    case False
    then have "pr_format p = False" using Cons.prems(2) by (simp add: at_text_def)
    then show ?thesis using False Cons.prems(2) by (simp add: object_tabs_def prints_done)
  qed
  have B: "prints ok (print_string_ptr ok (it_string c) q) q (left_text d f (pre @ ?t) ?s) k True" if "at_text d f (pre @ ?t) q" for q
    by (rule string_left [OF that ct]) (use len in simp)
  have C: "prints ok (object_colon ok q) q (at_text d f (pre @ ?t @ ?s @ ?o)) k True" if "at_text d f ((pre @ ?t) @ ?s) q" for q
    using object_colon_prints [OF that, of k ok] len by simp
  have D: "prints ok (print_value ok nl c q) q (left_text d f (pre @ ?t @ ?s @ ?o) ?r) k (item_types c)" if "at_text d f (pre @ ?t @ ?s @ ?o) q" for q
    by (rule value_printsD [OF _ that]) (use Cons.prems(1) len in simp_all)
  have E: "prints ok (object_comma ok (cs = []) q) q (at_text d f (pre @ ?t @ ?s @ ?o @ ?r @ ?e)) k True" if "at_text d f ((pre @ ?t @ ?s @ ?o) @ ?r) q" for q
    using object_comma_prints [OF that refl, of "cs = []" k ok] len by simp
  have F: "prints ok (print_members ok nl cs q) q (at_text d f (pre @ render_members nl f d (c # cs))) k (\<forall>c\<in>set cs. item_types c)"
    if "at_text d f (pre @ ?t @ ?s @ ?o @ ?r @ ?e) q" for q
    using Cons.IH [of "pre @ ?t @ ?s @ ?o @ ?r @ ?e" q] that Cons.prems(1) len by simp
  note key = update_at [OF prints_then [OF A B] string_nonzero [OF ct]]
  have "0 \<notin> set ?r" by (rule render_nonzero(1)) (use Cons.prems(1) in simp)
  note val = update_at [OF prints_then [OF prints_then [OF key C] D] this]
  show ?case unfolding print_members.simps by (rule prints_weaken [OF prints_then [OF prints_then [OF val E] F] le_refl]) auto
qed

lemma left_append:
  assumes "prints ok m p (left_text d f (pre @ a) b) k g" and "g' \<Longrightarrow> g" and "t = a @ b"
  shows "prints ok m p (left_text d f pre t) k g'"
  by (rule prints_weaken [OF assms(1) le_refl]) (use assms(2,3) left_prefix in auto)

lemma prints_any: "prints ok m p Q k True \<Longrightarrow> prints ok m p Q k g"
  by (rule prints_weaken [OF _ le_refl]) auto

lemma value_print:
  assumes "item_ok nl it"
  shows "value_prints ok nl it"
  using assms
proof (induction it)
  case (Item ty vs num s cs)
  have cs: "\<forall>c\<in>set cs. value_prints ok nl c \<and> item_ok nl c" using Item by auto
  show ?case unfolding value_prints_def
  proof (intro allI impI)
    fix d f pre p k
    assume p: "at_text d f pre p" and k: "length pre + length (render nl f d (Item ty vs num s cs)) + 2 \<le> k"
    let ?t = "ty AND 0xFF" and ?P = "print_value ok nl (Item ty vs num s cs) p"
    let ?R = "render nl f d (Item ty vs num s cs)"
    consider "?t = cJSON_NULL" | "?t = cJSON_False" | "?t = cJSON_True" | "?t = cJSON_Number" | "?t = cJSON_Raw" | "?t = cJSON_String"
      | "?t = cJSON_Array" | "?t = cJSON_Object" | "?t \<notin> {cJSON_NULL, cJSON_False, cJSON_True, cJSON_Number, cJSON_Raw, cJSON_String, cJSON_Array, cJSON_Object}"
      by blast
    then show "prints ok ?P p (left_text d f pre ?R) k (item_types (Item ty vs num s cs))"
    proof cases
      case 1
      have P: "?P = pr_put ok 5 (ascii ''null'' @ [0]) 0 p" and R: "?R = ascii ''null''" using 1 by simp_all
      show ?thesis unfolding P R by (rule prints_any, rule put_left [OF p refl]) (use k R in \<open>simp_all add: ascii_def\<close>)
    next
      case 2
      have P: "?P = pr_put ok 6 (ascii ''false'' @ [0]) 0 p" and R: "?R = ascii ''false''" using 2 by simp_all
      show ?thesis unfolding P R by (rule prints_any, rule put_left [OF p refl]) (use k R in \<open>simp_all add: ascii_def\<close>)
    next
      case 3
      have P: "?P = pr_put ok 5 (ascii ''true'' @ [0]) 0 p" and R: "?R = ascii ''true''" using 3 by simp_all
      show ?thesis unfolding P R by (rule prints_any, rule put_left [OF p refl]) (use k R in \<open>simp_all add: ascii_def\<close>)
    next
      case 4
      have P: "?P = print_number ok nl num p" and R: "?R = number_text nl num" using 4 by simp_all
      show ?thesis unfolding P R by (rule prints_any, rule number_left [OF p]) (use k R Item.prems  in \<open>auto simp: c_text_def\<close>)
    next
      case 5
      have P: "?P = print_raw ok vs p" and R: "?R = the vs" using 5 by simp_all
      show ?thesis unfolding P R by (rule prints_any, rule raw_left [OF p]) (use k R Item.prems 5 in \<open>auto simp: c_text_def\<close>)
    next
      case 6
      have P: "?P = print_string_ptr ok vs p" and R: "?R = render_string vs" using 6 by simp_all
      show ?thesis unfolding P R by (rule prints_any, rule string_left [OF p]) (use k R Item.prems  in \<open>auto simp: c_text_def\<close>)
    next
      case 7
      let ?E = "render_elements nl f (d + 1) cs"
      have R: "?R = (0x5B # ?E) @ [0x5D]" using 7 by simp
      have A: "prints ok (array_open ok p) p (at_text (d + 1) f (pre @ [0x5B])) k True"
        by (rule array_open_prints [OF p]) (use k R in simp)
      have B: "prints ok (print_elements ok nl cs q) q (at_text (d + 1) f (pre @ 0x5B # ?E)) k (\<forall>c\<in>set cs. item_types c)" if "at_text (d + 1) f (pre @ [0x5B]) q" for q
        using elements_print [OF cs that, of k] k R by simp
      have C: "prints ok (array_close ok q) q (left_text d f (pre @ 0x5B # ?E) [0x5D]) k True" if "at_text (d + 1) f (pre @ 0x5B # ?E) q" for q
        by (rule array_close_prints [OF that]) (use k R in simp)
      have P: "?P = pr_then (pr_then (array_open ok p) (print_elements ok nl cs)) (array_close ok)" using 7 by simp
      show ?thesis unfolding P by (rule left_append [OF prints_then [OF prints_then [OF A B] C] _ R]) auto
    next
      case 8
      let ?O = "0x7B # fmt_only f [0x0A]" and ?E = "render_members nl f (d + 1) cs" and ?C = "fmt_only f (replicate d 0x09) @ [0x7D]"
      have R: "?R = (?O @ ?E) @ ?C" using 8 by simp
      have A: "prints ok (object_open ok p) p (at_text (d + 1) f (pre @ ?O)) k True"
        by (rule object_open_prints [OF p]) (use k R in simp)
      have B: "prints ok (print_members ok nl cs q) q (at_text (d + 1) f (pre @ ?O @ ?E)) k (\<forall>c\<in>set cs. item_types c)" if "at_text (d + 1) f (pre @ ?O) q" for q
        using members_print [OF cs that, of k] k R by simp
      have C: "prints ok (object_close ok q) q (left_text d f (pre @ ?O @ ?E) ?C) k True" if "at_text (d + 1) f (pre @ ?O @ ?E) q" for q
        by (rule object_close_prints [OF that refl]) (use k R in simp)
      have P: "?P = pr_then (pr_then (object_open ok p) (print_members ok nl cs)) (object_close ok)" using 8 by simp
      show ?thesis unfolding P by (rule left_append [OF prints_then [OF prints_then [OF A B] C] _ R]) auto
    next
      case 9
      have "pr_buffer p \<noteq> Pr_freed" using p by (auto simp: at_text_def pr_ok_def pr_wf_def)
      then show ?thesis using 9 prints_fail [of p ok] by (simp add: Let_def)
    qed
  qed
qed

end
