(* ===== verification/Cjson_Roundtrip.thy ===== *)
theory Cjson_Roundtrip
  imports Cjson_Printer Cjson_Grammar
begin

unbundle bit_operations_syntax

text \<open>
  The entry points of the printer, and printing followed by parsing: the text of an item that JSON can express belongs to the reference syntax,
  with the item as its value, so that the parser returns the item.
\<close>

section \<open>The entry points\<close>

lemma take_split:
  assumes "take n xs = ys"
  shows "xs = ys @ drop n xs"
  using assms by (metis append_take_drop_id)

lemma at_start:
  assumes "pr_wf cs p" and "pr_offset p = 0"
  shows "at_text (pr_depth p) (pr_format p) [] p"
  using assms by (auto simp: at_text_def pr_ok_def)

lemma finish_text:
  assumes "left_text d f [] t p" and "0 \<notin> set t"
  shows "\<exists>q r. update_offset p = Some q \<and> print_finish ok q = Some r \<and> (r \<noteq> None \<longrightarrow> take (length t + 1) (the r) = map Some (t @ [0])) \<and> ((\<forall>k. ok k) \<longrightarrow> r \<noteq> None)"
proof -
  obtain q cs where q: "update_offset p = Some q" "pr_ok t q" "length t < pr_length q" "pr_buffer q = Pr_block cs" "take (length t + 1) cs = map Some (t @ [0])"
    using update_pending [of "[]" t p] assms by (auto simp: left_text_def)
  have o: "pr_offset q = length t" and l: "pr_length q \<le> length cs" using q(2,4) by (auto simp: pr_ok_def pr_wf_def)
  have m: "min (pr_length q) (pr_offset q + 1) = length t + 1" using q(3) o by simp
  have r1: "take (length t + 1) (resize (pr_length q) cs) = map Some (t @ [0])" using resize_props(2) [of "length t + 1" "pr_length q" cs] q(3,5) l by simp
  have r2: "(resize (pr_offset q + 1) (take (length t + 1) cs))[pr_offset q := Some 0] = map Some (t @ [0])"
    using q(5) o by (simp add: resize_def list_update_append)
  have r3: "length t + 1 \<le> length cs" using q(3) l by simp
  show ?thesis
  proof (cases "pr_reallocate q")
    case True
    then show ?thesis using q(1,4) r1 by (simp add: print_finish_def)
  next
    case False
    then show ?thesis using q(1,4) r2 r3 m by (auto simp: print_finish_def Let_def deallocate_def)
  qed
qed

lemma print_value_start:
  assumes "item_ok nl it" and "pr_wf cs p" and "pr_offset p = 0" and "pr_depth p = 0" and "pr_format p = f"
  shows "\<exists>q r. print_item ok nl (Some it) p = Some (q, r) \<and> (r \<longrightarrow> left_text 0 f [] (render nl f 0 it) q) \<and> (\<not> r \<longrightarrow> pr_buffer q \<noteq> Pr_freed) \<and>
    (item_types it \<and> room ok p (length (render nl f 0 it) + 2) \<longrightarrow> r)"
  using value_printsD [OF value_print [OF assms(1)] at_start [OF assms(2,3)], of "length (render nl f 0 it) + 2" ok] assms(4,5)
  by (auto simp: print_item_def prints_def split: if_splits)

lemma print_text:
  assumes "item_ok nl it"
  shows "\<exists>r. print ok nl realloc (Some it) f = Some r \<and> (r \<noteq> None \<longrightarrow> take (length (render nl f 0 it) + 1) (the r) = map Some (render nl f 0 it @ [0])) \<and>
    ((\<forall>k. ok k) \<and> item_types it \<and> length (render nl f 0 it) + 2 \<le> INT_MAX \<longrightarrow> r \<noteq> None)"
proof (cases "ok 0")
  case False
  then show ?thesis by (auto simp: print_def)
next
  case True
  let ?p = "\<lparr>pr_buffer = Pr_block (replicate 256 None), pr_length = 0, pr_offset = 0, pr_depth = 0,
          pr_noalloc = False, pr_format = f, pr_reallocate = realloc, pr_allocs = 1\<rparr>"
  have "pr_wf (replicate 256 None) ?p" by (simp add: pr_wf_def)
  from print_value_start [OF assms this, of f ok] obtain q r where q: "print_item ok nl (Some it) ?p = Some (q, r)" "r \<longrightarrow> left_text 0 f [] (render nl f 0 it) q"
      "\<not> r \<longrightarrow> pr_buffer q \<noteq> Pr_freed" "item_types it \<and> room ok ?p (length (render nl f 0 it) + 2) \<longrightarrow> r" by auto
  show ?thesis
  proof (cases r)
    case True
    then have "left_text 0 f [] (render nl f 0 it) q" using q(2) by blast
    from finish_text [OF this render_nonzero(1) [OF assms], of ok] show ?thesis using \<open>ok 0\<close> q(1) True by (auto simp: print_def)
  next
    case False
    then have d: "\<exists>x. deallocate q = Some x" using q(3) by (auto simp: deallocate_def split: pr_mem.splits)
    have "\<not> ((\<forall>k. ok k) \<and> item_types it \<and> length (render nl f 0 it) + 2 \<le> INT_MAX)" using q(4) False by (auto simp: room_def)
    then show ?thesis using d \<open>ok 0\<close> q(1) False by (auto simp: print_def)
  qed
qed

lemma buffered_text:
  assumes "item_ok nl it" and "0 < prebuffer \<or> realloc"
  shows "\<exists>r. cJSON_PrintBuffered ok nl realloc (Some it) prebuffer f = Some r \<and> (r \<noteq> None \<longrightarrow> take (length (render nl f 0 it) + 1) (the r) = map Some (render nl f 0 it @ [0])) \<and>
    ((\<forall>k. ok k) \<and> 0 \<le> prebuffer \<and> item_types it \<and> length (render nl f 0 it) + 2 \<le> INT_MAX \<longrightarrow> r \<noteq> None)"
proof (cases "prebuffer < 0 \<or> \<not> ok 0")
  case True
  then show ?thesis by (auto simp: cJSON_PrintBuffered_def)
next
  case F: False
  let ?p = "\<lparr>pr_buffer = Pr_block (replicate (nat prebuffer) None), pr_length = nat prebuffer, pr_offset = 0, pr_depth = 0,
          pr_noalloc = False, pr_format = f, pr_reallocate = realloc, pr_allocs = 1\<rparr>"
  have "pr_wf (replicate (nat prebuffer) None) ?p" using assms(2) by (auto simp: pr_wf_def)
  from print_value_start [OF assms(1) this, of f ok] obtain q r where q: "print_item ok nl (Some it) ?p = Some (q, r)" "r \<longrightarrow> left_text 0 f [] (render nl f 0 it) q"
      "\<not> r \<longrightarrow> pr_buffer q \<noteq> Pr_freed" "item_types it \<and> room ok ?p (length (render nl f 0 it) + 2) \<longrightarrow> r" by auto
  show ?thesis
  proof (cases r)
    case True
    then have "left_text 0 f [] (render nl f 0 it) q" using q(2) by blast
    then obtain cs where "pr_buffer q = Pr_block cs" "take (length (render nl f 0 it) + 1) cs = map Some (render nl f 0 it @ [0])"
      by (auto simp: left_text_def pending_def filled_def pr_wf_def)
    then show ?thesis using F q(1) True by (simp add: cJSON_PrintBuffered_def)
  next
    case False
    then have d: "\<exists>x. deallocate q = Some x" using q(3) by (auto simp: deallocate_def split: pr_mem.splits)
    have "\<not> ((\<forall>k. ok k) \<and> item_types it \<and> length (render nl f 0 it) + 2 \<le> INT_MAX)" using q(4) False by (auto simp: room_def)
    then show ?thesis using d F q(1) False by (auto simp: cJSON_PrintBuffered_def)
  qed
qed

section \<open>Items that JSON can express\<close>

definition number_json :: "'n numlib \<Rightarrow> 'n \<Rightarrow> bool" where
  "number_json nl d \<longleftrightarrow> (let t = number_text nl d in t \<noteq> [] \<and> (hd t = 0x2D \<or> c_isdigit (hd t)) \<and> (\<forall>c\<in>set t. number_char c) \<and> strtod_length t = length t)"

text \<open>Plain types, a text exactly for strings, names exactly in objects, and at most \<open>n\<close> levels of arrays and objects.\<close>

fun json_item :: "'n numlib \<Rightarrow> nat \<Rightarrow> 'n item \<Rightarrow> bool" where
  "json_item nl n (Item ty vs num s cs) \<longleftrightarrow>
     (ty \<in> {cJSON_NULL, cJSON_False, cJSON_True} \<and> vs = None \<and> cs = []) \<or>
     (ty = cJSON_Number \<and> vs = None \<and> cs = [] \<and> number_json nl num) \<or>
     (ty = cJSON_String \<and> vs \<noteq> None \<and> cs = []) \<or>
     (ty = cJSON_Array \<and> vs = None \<and> 0 < n \<and> (\<forall>c\<in>set cs. it_string c = None \<and> json_item nl (n - 1) c)) \<or>
     (ty = cJSON_Object \<and> vs = None \<and> 0 < n \<and> (\<forall>c\<in>set cs. it_string c \<noteq> None \<and> json_item nl (n - 1) c))"

lemma json_item_types: "json_item nl n it \<Longrightarrow> item_types it"
proof (induction it arbitrary: n)
  case (Item ty vs num s cs)
  have "item_types c" if "c \<in> set cs" for c using Item.IH [OF that, of "n - 1"] Item.prems that by auto
  moreover have "ty \<in> {cJSON_NULL, cJSON_False, cJSON_True, cJSON_Number, cJSON_Raw, cJSON_String, cJSON_Array, cJSON_Object}" using Item.prems by auto
  then have "ty AND 0xFF \<in> {cJSON_NULL, cJSON_False, cJSON_True, cJSON_Number, cJSON_Raw, cJSON_String, cJSON_Array, cJSON_Object}" by auto
  ultimately show ?case by simp
qed

section \<open>Strings\<close>

text \<open>What a control character without a short escape needs, for the 31 of them.\<close>

definition control_ok :: "u8 \<Rightarrow> bool" where
  "control_ok c \<longleftrightarrow> one_char_escape c \<noteq> None \<or>
     (let hs = [0x30, 0x30, hex_char (c div 16), hex_char (c mod 16)]; cp = hex_loop 0 hs 0 in
      list_all (\<lambda>h. hex_digit h \<noteq> None) hs \<and> \<not> (0xD800 \<le> cp \<and> cp \<le> 0xDFFF) \<and> utf8_encode (ucast cp) = Some [c])"

lemma controls: "list_all control_ok (map of_nat [1..<32])"
  by code_simp

lemma control_char:
  assumes "c \<noteq> 0" and "c < 32"
  shows "control_ok c"
proof -
  have "unat c \<in> set [1..<32]" using assms by (simp add: word_less_nat_alt unat_gt_0 Suc_le_eq)
  then have "of_nat (unat c) \<in> set (map (of_nat :: nat \<Rightarrow> u8) [1..<32])" by (metis image_eqI list.set_map)
  moreover have "of_nat (unat c) = c" by simp
  ultimately show ?thesis using controls unfolding list_all_iff by metis
qed

lemma escaped_chars: "0 \<notin> set s \<Longrightarrow> json_chars s (escaped s)"
proof (induction s)
  case Nil
  then show ?case by (simp add: chars_nil)
next
  case (Cons c s)
  then have IH: "json_chars s (escaped s)" and c0: "c \<noteq> 0" by auto
  show ?case
  proof (cases "31 < c \<and> c \<noteq> 0x22 \<and> c \<noteq> 0x5C")
    case True
    then have "escaped (c # s) = c # escaped s" by (simp add: escape_char_def)
    then show ?thesis using chars_plain [OF _ IH, of c] True c0 by simp
  next
    case F: False
    show ?thesis
    proof (cases "one_char_escape c")
      case (Some e)
      then have "json_escape e = Some c" by (auto simp: one_char_escape_def json_escape_def split: if_splits)
      moreover have "escaped (c # s) = 0x5C # e # escaped s" using F Some by (simp add: escape_char_def)
      ultimately show ?thesis using chars_escape [OF _ IH, of e c] by simp
    next
      case None
      then have "c < 32" using F by (auto simp: one_char_escape_def word_less_nat_alt)
      from control_char [OF c0 this] None have k: "list_all (\<lambda>h. hex_digit h \<noteq> None) [0x30, 0x30, hex_char (c div 16), hex_char (c mod 16)]"
          "\<not> (0xD800 \<le> hex_loop 0 [0x30, 0x30, hex_char (c div 16), hex_char (c mod 16)] 0 \<and> hex_loop 0 [0x30, 0x30, hex_char (c div 16), hex_char (c mod 16)] 0 \<le> 0xDFFF)"
          "utf8_encode (ucast (hex_loop 0 [0x30, 0x30, hex_char (c div 16), hex_char (c mod 16)] 0)) = Some [c]"
        unfolding control_ok_def Let_def by blast+
      have "escaped (c # s) = 0x5C # 0x75 # [0x30, 0x30, hex_char (c div 16), hex_char (c mod 16)] @ escaped s" using F None by (simp add: escape_char_def)
      then show ?thesis using chars_unicode [OF _ k(1) [unfolded list_all_iff] refl k(2,3) _ IH] c0 by simp
    qed
  qed
qed

section \<open>The text belongs to the syntax\<close>

text \<open>The item that the parser makes of the printed text: its number is what \<open>strtod\<close> converts from the printed digits.\<close>

primrec reparsed :: "'n numlib \<Rightarrow> 'n item \<Rightarrow> cJSON" where
  "reparsed nl (Item ty vs num s cs) = CJSON ty vs (if ty = cJSON_Number then number_text nl num else []) s (map (reparsed nl) cs)"

definition unnamed :: "cJSON \<Rightarrow> cJSON" where
  "unnamed v = CJSON (cj_type v) (cj_valuestring v) (cj_number v) None (cj_child v)"

lemma named: "it_string c = Some s \<Longrightarrow> with_name s (unnamed (reparsed nl c)) = reparsed nl c"
  by (cases c) (simp add: unnamed_def with_name_def)

lemma not_named: "it_string c = None \<Longrightarrow> unnamed (reparsed nl c) = reparsed nl c"
  by (cases c) (simp add: unnamed_def)

lemma fmt_ws: "json_ws (fmt_only f [0x20])" "json_ws (fmt_only f [0x0A])" "json_ws (fmt_only f [0x09])" "json_ws (fmt_only f (replicate d 0x09))" "json_ws []"
  by (auto simp: json_ws_def fmt_only_def)

lemma ws_append: "json_ws a \<Longrightarrow> json_ws b \<Longrightarrow> json_ws (a @ b)"
  by (auto simp: json_ws_def)

lemma printed_elements:
  assumes "\<forall>c\<in>set cs. it_string c = None \<and> json_value n (unnamed (reparsed nl c)) (render nl f d c)" and "cs \<noteq> []" and "json_ws w"
  shows "json_elems n (map (reparsed nl) cs) (w @ render_elements nl f d cs)"
  using assms
proof (induction cs arbitrary: w)
  case (Cons c cs)
  have v: "json_value n (reparsed nl c) (render nl f d c)" using Cons.prems(1) not_named [of c] by simp
  show ?case
  proof (cases "cs = []")
    case True
    then show ?thesis using e_one [OF Cons.prems(3) v fmt_ws(5)] by simp
  next
    case False
    have "json_elems n (map (reparsed nl) cs) (fmt_only f [0x20] @ render_elements nl f d cs)" by (rule Cons.IH [OF _ False fmt_ws(1)]) (use Cons.prems(1) in simp)
    from e_more [OF Cons.prems(3) v fmt_ws(5) this] show ?thesis using False by simp
  qed
qed simp

lemma printed_members:
  assumes "\<forall>c\<in>set cs. it_string c \<noteq> None \<and> c_text (it_string c) \<and> json_value n (unnamed (reparsed nl c)) (render nl f d c)" and "cs \<noteq> []" and "json_ws w" and "json_ws w'"
  shows "json_members n (map (reparsed nl) cs) (w @ render_members nl f d cs @ w')"
  using assms(1-3)
proof (induction cs arbitrary: w)
  case (Cons c cs)
  obtain s where s: "it_string c = Some s" "0 \<notin> set s" using Cons.prems(1) by (auto simp: c_text_def)
  have v: "json_value n (unnamed (reparsed nl c)) (render nl f d c)" using Cons.prems(1) by simp
  note m = ws_append [OF Cons.prems(3) fmt_ws(4)] escaped_chars [OF s(2)] fmt_ws(5) fmt_ws(3) v
  show ?case
  proof (cases "cs = []")
    case True
    then show ?thesis using m_one [OF m ws_append [OF fmt_ws(2) assms(4)]] by (simp add: named [OF s(1)] s(1) render_string_def)
  next
    case False
    have "json_members n (map (reparsed nl) cs) (fmt_only f [0x0A] @ render_members nl f d cs @ w')" by (rule Cons.IH [OF _ False fmt_ws(2)]) (use Cons.prems(1) in simp)
    from m_more [OF m fmt_ws(5) this] show ?thesis using False by (simp add: named [OF s(1)] s(1) render_string_def)
  qed
qed simp

lemma item_text:
  assumes "json_item nl n it" and "item_ok nl it"
  shows "json_value n (unnamed (reparsed nl it)) (render nl f d it)"
  using assms
proof (induction it arbitrary: n d)
  case (Item ty vs num s cs)
  consider "ty \<in> {cJSON_NULL, cJSON_False, cJSON_True}" "vs = None" "cs = []" | "ty = cJSON_Number" "vs = None" "cs = []" "number_json nl num"
    | "ty = cJSON_String" "vs \<noteq> None" "cs = []" | "ty = cJSON_Array" "vs = None" "0 < n" "\<forall>c\<in>set cs. it_string c = None \<and> json_item nl (n - 1) c"
    | "ty = cJSON_Object" "vs = None" "0 < n" "\<forall>c\<in>set cs. it_string c \<noteq> None \<and> json_item nl (n - 1) c"
    using Item.prems(1) unfolding json_item.simps by blast
  then show ?case
  proof cases
    case 1
    then show ?thesis using v_null [of n] v_false [of n] v_true [of n] by (auto simp: unnamed_def)
  next
    case 2
    have "length (number_text nl num) \<le> 63" using Item.prems(2) by (simp add: number_text_def)
    moreover obtain c r where t: "number_text nl num = c # r" using 2(4) by (cases "number_text nl num") (auto simp: number_json_def)
    ultimately have "json_value n (CJSON cJSON_Number None (number_text nl num) None []) (number_text nl num)"
      using v_number [OF t, of n] 2(4) by (simp add: number_json_def Let_def t)
    then show ?thesis using 2 by (simp add: unnamed_def)
  next
    case 3
    then obtain t where t: "vs = Some t" "0 \<notin> set t" using Item.prems(2) by (auto simp: c_text_def)
    show ?thesis using 3 v_string [OF escaped_chars [OF t(2)], of n] t(1) by (simp add: unnamed_def render_string_def)
  next
    case 4
    then obtain k where n: "n = Suc k" by (cases n) auto
    have v: "\<forall>c\<in>set cs. it_string c = None \<and> json_value k (unnamed (reparsed nl c)) (render nl f (d + 1) c)"
      using 4(4) Item.IH Item.prems(2) n by simp
    show ?thesis
    proof (cases "cs = []")
      case True
      then show ?thesis using 4 v_array0 [OF fmt_ws(5), of k] n by (simp add: unnamed_def)
    next
      case False
      then show ?thesis using 4 v_array [OF printed_elements [OF v False fmt_ws(5)]] n by (simp add: unnamed_def)
    qed
  next
    case 5
    then obtain k where n: "n = Suc k" by (cases n) auto
    have ct: "c_text (it_string c)" if "c \<in> set cs" for c using Item.prems(2) that by (cases c) fastforce
    have v: "\<forall>c\<in>set cs. it_string c \<noteq> None \<and> c_text (it_string c) \<and> json_value k (unnamed (reparsed nl c)) (render nl f (d + 1) c)"
      using 5(4) Item.IH Item.prems(2) n ct by simp
    show ?thesis
    proof (cases "cs = []")
      case True
      then show ?thesis using 5 v_object0 [OF ws_append [OF fmt_ws(2) fmt_ws(4)], of k f f d] n by (simp add: unnamed_def)
    next
      case False
      then show ?thesis using 5 v_object [OF printed_members [OF v False fmt_ws(2) fmt_ws(4)]] n by (simp add: unnamed_def)
    qed
  qed
qed

section \<open>Equal items\<close>

text \<open>
  A parsed item equals an item in memory: the same types, texts, names and children in the same order, and for every number a \<open>valuedouble\<close> that compares equal.
\<close>

primrec same_item :: "'n numconv \<Rightarrow> (u8 list \<Rightarrow> 'n) \<Rightarrow> ('n \<Rightarrow> 'n \<Rightarrow> bool) \<Rightarrow> 'n item \<Rightarrow> cJSON \<Rightarrow> bool" where
  "same_item nc strtod eq (Item ty vs num s cs) v \<longleftrightarrow> cj_type v = ty \<and> cj_valuestring v = vs \<and> cj_string v = s \<and>
     (ty = cJSON_Number \<longrightarrow> eq (cj_valuedouble nc strtod v) num) \<and> list_all2 (\<lambda>same c. same c) (map (same_item nc strtod eq) cs) (cj_child v)"

text \<open>The numbers of the items of type number.\<close>

fun item_numbers :: "'n item \<Rightarrow> 'n set" where
  "item_numbers (Item ty vs num s cs) = (if ty = cJSON_Number then {num} else {}) \<union> (\<Union>c\<in>set cs. item_numbers c)"

text \<open>
  What the C library promises of the conversions in its locale: \<open>sscanf\<close> with \<open>%lg\<close> reads what \<open>strtod\<close> reads, where the parser has put the decimal point of the locale
  for the point of JSON; 17 digits are enough to read a number back; a point is written only as the decimal point.
\<close>

definition localized :: "'n numlib \<Rightarrow> u8 list \<Rightarrow> u8 list" where
  "localized nl t = map (\<lambda>c. if c = 0x2E then nl_point nl else c) t"

definition conversions_ok :: "'n numlib \<Rightarrow> (u8 list \<Rightarrow> 'n) \<Rightarrow> 'n \<Rightarrow> bool" where
  "conversions_ok nl strtod d \<longleftrightarrow> (\<forall>t x. nl_scan nl (localized nl t) = Some x \<longrightarrow> strtod t = x) \<and>
     (\<exists>x. nl_scan nl (nl_g17 nl d) = Some x \<and> nl_eq nl x d) \<and> (nl_point nl = 0x2E \<or> 0x2E \<notin> set (nl_g15 nl d) \<union> set (nl_g17 nl d))"

lemma localized_text:
  assumes "nl_point nl = 0x2E \<or> 0x2E \<notin> set (number_chars nl d)"
  shows "localized nl (number_text nl d) = number_chars nl d"
  using assms by (auto simp: localized_def number_text_def comp_def intro!: map_idI)

lemma number_read_back:
  assumes "conversions_ok nl strtod d" and "\<not> nl_special nl d"
  shows "nl_eq nl (strtod (number_text nl d)) d"
proof -
  have "nl_point nl = 0x2E \<or> 0x2E \<notin> set (number_chars nl d)" using assms by (auto simp: conversions_ok_def number_chars_def)
  then have l: "localized nl (number_text nl d) = number_chars nl d" by (rule localized_text)
  obtain x where x: "nl_scan nl (number_chars nl d) = Some x" "nl_eq nl x d"
  proof (cases "\<exists>t. nl_scan nl (nl_g15 nl d) = Some t \<and> nl_eq nl t d")
    case True
    then show ?thesis using that assms(2) by (auto simp: number_chars_def)
  next
    case False
    then have "number_chars nl d = nl_g17 nl d" using assms(2) by (auto simp: number_chars_def)
    then show ?thesis using that assms(1) unfolding conversions_ok_def by metis
  qed
  then have "strtod (number_text nl d) = x" using assms(1) l unfolding conversions_ok_def by metis
  then show ?thesis using x(2) by simp
qed

text \<open>Infinities and what is not a number are printed as \<open>null\<close>, which is not the text of a number.\<close>

lemma special_not_json: "nl_special nl d \<Longrightarrow> \<not> number_json nl d"
  by (simp add: number_json_def number_text_def number_chars_def ascii_def c_isdigit_def)

lemma reparsed_same:
  assumes "json_item nl n it" and "\<forall>d\<in>item_numbers it. conversions_ok nl strtod d"
  shows "same_item nc strtod (nl_eq nl) it (reparsed nl it)"
  using assms
proof (induction it arbitrary: n)
  case (Item ty vs num s cs)
  have "same_item nc strtod (nl_eq nl) c (reparsed nl c)" if "c \<in> set cs" for c
    using Item.IH [OF that, of "n - 1"] Item.prems that by auto
  then have "list_all2 (\<lambda>same c. same c) (map (same_item nc strtod (nl_eq nl)) cs) (map (reparsed nl) cs)"
    by (simp add: list_all2_conv_all_nth)
  moreover have "nl_eq nl (strtod (number_text nl num)) num" if "ty = cJSON_Number"
    by (rule number_read_back) (use Item.prems that in \<open>auto dest: special_not_json\<close>)
  ultimately show ?case by (simp add: cj_valuedouble_def)
qed

end
