(* ===== verification/Cjson_Print_Props.thy ===== *)
theory Cjson_Print_Props
  imports Cjson_Roundtrip
begin

text \<open>Properties of the printer of JSON: it stores the reference text and stays inside of its buffer, and the parser reads back what it printed.\<close>

section \<open>Where printing is undefined\<close>

text \<open>A raw item without text: the buffer is given back by the printer of the value and again by \<open>print\<close>.\<close>

lemma raw_without_text:
  assumes "ok 0"
  shows "print ok nl realloc (Some (Item cJSON_Raw None num s cs)) f = None"
  using assms by (simp add: print_def print_item_def print_raw_def deallocate_def)

text \<open>With own hooks and an empty buffer the first copy reads one byte behind it.\<close>

lemma buffered_zero:
  assumes "ok 0" and "ok 1"
  shows "cJSON_PrintBuffered ok nl False (Some (Item cJSON_NULL vs num s cs)) 0 f = None"
  using assms by (simp add: cJSON_PrintBuffered_def print_item_def pr_put_def pr_then_def ensure_def ensure_grow_def Let_def)

section \<open>Properties\<close>

text \<open>Integers as the numbers of the examples.\<close>

definition demo_lib :: "int numlib" where
  "demo_lib = \<lparr>nl_special = (\<lambda>_. False), nl_g15 = c_itoa, nl_g17 = c_itoa, nl_scan = c_atoi, nl_eq = (=), nl_point = 0x2E\<rparr>"

definition demo_item :: "int item" where
  "demo_item = Item cJSON_Object None 0 None
     [Item cJSON_Number None 7 (Some (ascii ''a'')) [], Item cJSON_Array None 0 (Some (ascii ''b'')) [Item cJSON_String (Some [0x22, 0x01]) 0 None []]]"

lemma demo_digit: "c_itoa 7 = [0x37]" "c_itoa 0 = [0x30]" "c_atoi [0x37] = Some 7" "c_atoi [0x30] = Some 0"
  by code_simp+

lemma demo_chars: "number_chars demo_lib 7 = [0x37]" "number_chars demo_lib 0 = [0x30]" "nl_point demo_lib = 0x2E"
  by (simp_all add: number_chars_def demo_lib_def demo_digit)

lemma demo_ok: "item_ok demo_lib demo_item" "json_item demo_lib 1000 demo_item" "item_types demo_item" "it_string demo_item = None"
proof -
  have "number_json demo_lib 7" by (simp add: number_json_def number_text_def demo_chars) code_simp
  then show "json_item demo_lib 1000 demo_item" by (simp add: demo_item_def)
  then show "item_types demo_item" by (rule json_item_types)
  show "item_ok demo_lib demo_item" by (simp add: demo_item_def c_text_def demo_chars ascii_def)
qed (simp add: demo_item_def)

lemma demo_escaped: "escaped [0x22, 0x01] = [0x5C, 0x22, 0x5C, 0x75, 0x30, 0x30, 0x30, 0x31]" "escaped [0x61] = [0x61]" "escaped [0x62] = [0x62]"
  by code_simp+

lemma demo_text: "render demo_lib False 0 demo_item =
    [0x7B, 0x22, 0x61, 0x22, 0x3A, 0x37, 0x2C, 0x22, 0x62, 0x22, 0x3A, 0x5B, 0x22, 0x5C, 0x22, 0x5C, 0x75, 0x30, 0x30, 0x30, 0x31, 0x22, 0x5D, 0x7D]"
  by (simp add: demo_item_def number_text_def demo_chars ascii_def render_string_def demo_escaped del: escaped_simps)

lemma demo_length: "length (render demo_lib False 0 demo_item) = 24"
  by (simp add: demo_text)

text \<open>
  C19 (refinement). Printing an item whose texts end at their first zero, whose numbers fit into the 26 bytes for them and whose raw items have a text (\<open>item_ok\<close>; a raw item
  without text is printed with undefined behaviour, \<open>raw_without_text\<close>), formatted or not, with \<open>realloc\<close> or with hooks that lack it, and whichever allocations fail, never leaves the
  buffer, never gives it back twice and reads only bytes that were written: the result is \<open>NULL\<close> or a block that begins with exactly the reference text of the item and
  a zero. It is not \<open>NULL\<close> when the allocations succeed, all types are known and the text is shorter than \<open>INT_MAX - 1\<close>.
\<close>

theorem print_renders:
  assumes "item_ok nl it"
  shows "\<exists>r. (if f then cJSON_Print ok nl realloc (Some it) else cJSON_PrintUnformatted ok nl realloc (Some it)) = Some r \<and>
    (r \<noteq> None \<longrightarrow> take (length (render nl f 0 it) + 1) (the r) = map Some (render nl f 0 it @ [0])) \<and>
    ((\<forall>k. ok k) \<and> item_types it \<and> length (render nl f 0 it) + 2 \<le> INT_MAX \<longrightarrow> r \<noteq> None)"
  using print_text [OF assms, of ok realloc f] by (cases f) (simp_all add: cJSON_Print_def cJSON_PrintUnformatted_def)

theorem print_renders_witness:
  "\<exists>r. cJSON_PrintUnformatted (\<lambda>_. True) demo_lib True (Some demo_item) = Some r \<and> r \<noteq> None \<and>
    take 25 (the r) = map Some ([0x7B, 0x22, 0x61, 0x22, 0x3A, 0x37, 0x2C, 0x22, 0x62, 0x22, 0x3A, 0x5B, 0x22, 0x5C, 0x22, 0x5C, 0x75, 0x30, 0x30, 0x30, 0x31, 0x22, 0x5D, 0x7D] @ [0])"
proof -
  have l: "length (render demo_lib False 0 demo_item) + 1 = 25" "length (render demo_lib False 0 demo_item) + 2 \<le> INT_MAX" by (simp_all add: demo_length)
  show ?thesis using print_renders [OF demo_ok(1), of False "\<lambda>_. True" True, unfolded l(1), unfolded demo_text] demo_ok(3) l(2) [unfolded demo_text]
    unfolding if_False by blast
qed

text \<open>
  C37 (bounds). \<open>cJSON_PrintPreallocated\<close> never writes outside of the caller's memory of \<open>len\<close> bytes; when it returns true the memory begins with the
  reference text and a zero, and it does return true when \<open>len\<close> is at least the length of the text plus two.
\<close>

theorem preallocated_fits:
  assumes "item_ok nl it" and "length cs = nat len" and "0 \<le> len" and "len \<le> int INT_MAX"
  shows "\<exists>mem r. cJSON_PrintPreallocated ok nl realloc (Some it) (Some cs) len f = Some (mem, r) \<and>
    (r \<longrightarrow> (\<exists>blk. mem = Pr_block blk \<and> take (length (render nl f 0 it) + 1) blk = map Some (render nl f 0 it @ [0]))) \<and>
    (item_types it \<and> int (length (render nl f 0 it)) + 2 \<le> len \<longrightarrow> r)"
proof -
  let ?p = "\<lparr>pr_buffer = Pr_block cs, pr_length = nat len, pr_offset = 0, pr_depth = 0, pr_noalloc = True, pr_format = f, pr_reallocate = realloc, pr_allocs = 0\<rparr>"
  have "pr_wf cs ?p" using assms(2) by (simp add: pr_wf_def)
  from print_value_start [OF assms(1) this, of f ok] obtain q r where q: "print_item ok nl (Some it) ?p = Some (q, r)" "r \<longrightarrow> left_text 0 f [] (render nl f 0 it) q"
      "item_types it \<and> room ok ?p (length (render nl f 0 it) + 2) \<longrightarrow> r" by auto
  have "room ok ?p (length (render nl f 0 it) + 2)" if "int (length (render nl f 0 it)) + 2 \<le> len" using that assms(4) by (simp add: room_def)
  moreover have "\<exists>blk. pr_buffer q = Pr_block blk \<and> take (length (render nl f 0 it) + 1) blk = map Some (render nl f 0 it @ [0])" if r
    using q(2) that by (auto simp: left_text_def pending_def filled_def pr_wf_def)
  ultimately show ?thesis using q(1,3) assms(3) by (auto simp: cJSON_PrintPreallocated_def)
qed

theorem preallocated_fits_witness:
  "\<exists>mem. cJSON_PrintPreallocated (\<lambda>_. True) demo_lib True (Some demo_item) (Some (replicate 26 None)) 26 False = Some (mem, True)"
  using preallocated_fits [OF demo_ok(1), of "replicate 26 None" 26 "\<lambda>_. True" True False] by (auto simp: demo_length demo_ok(3))

text \<open>
  C18 (roundtrip). Printing and then parsing gives the item back, numbers included: for an item without name that JSON can express (plain types, texts of strings without zero
  bytes, numbers whose text is a number, names exactly in objects, at most 1000 levels), formatted or not, \<open>cJSON_Parse\<close> on the printed text returns an item with the same
  types, texts, names and children, in which \<open>valuedouble\<close> of every number compares equal to the number printed. Of the conversions of the C library it relies on what
  \<open>conversions_ok\<close> says.
\<close>

theorem print_parse_roundtrip:
  assumes "item_ok nl it" and "json_item nl CJSON_NESTING_LIMIT it" and "it_string it = None" and "length (render nl f 0 it) + 2 \<le> INT_MAX" and "\<forall>k. ok k"
    and "\<forall>d\<in>item_numbers it. conversions_ok nl strtod d"
  shows "\<exists>t rest v. print ok nl realloc (Some it) f = Some (Some (map Some (t @ [0]) @ rest)) \<and> cJSON_Parse (\<lambda>_. True) (t @ [0]) = Some (Some v) \<and>
    same_item nc strtod (nl_eq nl) it v"
proof -
  let ?t = "render nl f 0 it"
  obtain blk where b: "print ok nl realloc (Some it) f = Some (Some blk)" "take (length ?t + 1) blk = map Some (?t @ [0])"
    using print_text [OF assms(1), of ok realloc f] assms(4,5) json_item_types [OF assms(2)] by auto
  have "json_value CJSON_NESTING_LIMIT (reparsed nl it) ?t" using item_text [OF assms(2,1)] not_named [OF assms(3)] by simp
  from text_parsed [OF this le_refl fmt_ws(5), of "[]" "[]"] have "cJSON_Parse (\<lambda>_. True) (?t @ [0]) = Some (Some (reparsed nl it))" by simp
  moreover have "same_item nc strtod (nl_eq nl) it (reparsed nl it)" by (rule reparsed_same [OF assms(2,6)])
  ultimately show ?thesis using b(1) take_split [OF b(2)] by metis
qed

definition demo_strtod :: "u8 list \<Rightarrow> int" where
  "demo_strtod t = (case c_atoi t of None \<Rightarrow> 0 | Some n \<Rightarrow> n)"

definition demo_numconv :: "int numconv" where
  "demo_numconv = \<lparr>nc_zero = 0, nc_ge_max = (\<lambda>n. 2147483647 \<le> n), nc_le_min = (\<lambda>n. n \<le> - 2147483648), nc_trunc = id, nc_of_int = id\<rparr>"

theorem print_parse_roundtrip_witness:
  "\<exists>t rest v. print (\<lambda>_. True) demo_lib True (Some demo_item) False = Some (Some (map Some (t @ [0]) @ rest)) \<and> cJSON_Parse (\<lambda>_. True) (t @ [0]) = Some (Some v) \<and>
    map cj_type (cj_child v) = [cJSON_Number, cJSON_Array] \<and> cj_valuedouble demo_numconv demo_strtod (hd (cj_child v)) = 7"
proof -
  have "localized demo_lib t = t" for t by (auto simp: localized_def demo_lib_def intro!: map_idI)
  then have "conversions_ok demo_lib demo_strtod 7" by (simp add: conversions_ok_def demo_strtod_def demo_lib_def demo_digit)
  then have c: "\<forall>d\<in>item_numbers demo_item. conversions_ok demo_lib demo_strtod d" by (simp add: demo_item_def)
  obtain t rest v where v: "print (\<lambda>_. True) demo_lib True (Some demo_item) False = Some (Some (map Some (t @ [0]) @ rest))" "cJSON_Parse (\<lambda>_. True) (t @ [0]) = Some (Some v)"
    "same_item demo_numconv demo_strtod (nl_eq demo_lib) demo_item v"
    using print_parse_roundtrip [OF demo_ok(1,2,4) _ _ c, of False "\<lambda>_. True" True demo_numconv] by (auto simp: demo_length)
  have n: "map cj_type (cj_child v) = [cJSON_Number, cJSON_Array]" "cj_valuedouble demo_numconv demo_strtod (hd (cj_child v)) = 7"
    using v(3) by (auto simp: demo_item_def demo_lib_def list_all2_Cons1)
  show ?thesis by (intro exI conjI, rule v(1), rule v(2), rule n(1), rule n(2))
qed

end
