(* ===== verification/Cjson_Minify.thy ===== *)
theory Cjson_Minify
  imports Cjson_Grammar
begin

unbundle bit_operations_syntax

text \<open>
  \<open>cJSON_Minify\<close> of \<^verbatim>\<open>src/com/cJSON.c\<close>, which removes white space and comments from a text in place. The memory is a list of bytes with the text
  at its beginning; \<open>None\<close> is an access behind its end. The properties: what the code does on every text, and that the parser finds
  the same value afterwards.
\<close>

section \<open>The code\<close>

partial_function (option) skip_line :: "u8 list \<Rightarrow> nat \<Rightarrow> nat option" where
  "skip_line cs j = do {
     c \<leftarrow> nth_opt cs j;
     if c \<noteq> 0 \<and> c \<noteq> 0x0A then skip_line cs (j + 1) else Some j
   }"

partial_function (option) skip_comment :: "u8 list \<Rightarrow> nat \<Rightarrow> nat option" where
  "skip_comment cs j = do {
     c \<leftarrow> nth_opt cs j;
     if c = 0 then Some (j + 2)
     else if c = 0x2A then do {
       c1 \<leftarrow> nth_opt cs (j + 1);
       if c1 = 0x2F then Some (j + 2) else skip_comment cs (j + 1)
     }
     else skip_comment cs (j + 1)
   }"

text \<open>The loops carry the memory, the index \<open>json\<close> that is read next and the index \<open>into\<close> that is written next.\<close>

partial_function (option) copy_literal :: "u8 list \<Rightarrow> nat \<Rightarrow> nat \<Rightarrow> (u8 list \<times> nat \<times> nat) option" where
  "copy_literal cs json into = do {
     c \<leftarrow> nth_opt cs json;
     if c \<noteq> 0 \<and> c \<noteq> 0x22 then
       (if c = 0x5C then do {
          cs1 \<leftarrow> upd_opt cs into c;
          c1 \<leftarrow> nth_opt cs1 (json + 1);
          cs2 \<leftarrow> upd_opt cs1 (into + 1) c1;
          copy_literal cs2 (json + 2) (into + 2)
        }
        else do { cs1 \<leftarrow> upd_opt cs into c; copy_literal cs1 (json + 1) (into + 1) })
     else do { cs1 \<leftarrow> upd_opt cs into c; Some (cs1, json + 1, into + 1) }
   }"

partial_function (option) minify_loop :: "u8 list \<Rightarrow> nat \<Rightarrow> nat \<Rightarrow> u8 list option" where
  "minify_loop cs json into = do {
     c \<leftarrow> nth_opt cs json;
     if c = 0 then upd_opt cs into 0
     else if c = 0x20 \<or> c = 0x09 \<or> c = 0x0D \<or> c = 0x0A then minify_loop cs (json + 1) into
     else do {
       c1 \<leftarrow> (if c = 0x2F then nth_opt cs (json + 1) else Some 0);
       if c = 0x2F \<and> c1 = 0x2F then do { j \<leftarrow> skip_line cs json; minify_loop cs j into }
       else if c = 0x2F \<and> c1 = 0x2A then do { j \<leftarrow> skip_comment cs json; minify_loop cs j into }
       else if c = 0x22 then do {
         cs1 \<leftarrow> upd_opt cs into c;
         (cs2, j, i) \<leftarrow> copy_literal cs1 (json + 1) (into + 1);
         minify_loop cs2 j i
       }
       else do { cs1 \<leftarrow> upd_opt cs into c; minify_loop cs1 (json + 1) (into + 1) }
     }
   }"

text \<open>The text may be \<open>NULL\<close>.\<close>

definition cJSON_Minify :: "u8 list option \<Rightarrow> u8 list option option" where
  "cJSON_Minify json = (case json of None \<Rightarrow> Some None | Some cs \<Rightarrow> map_option Some (minify_loop cs 0 0))"

section \<open>A reference on texts\<close>

text \<open>A string literal behind its opening quote, and what follows it; what follows a comment.\<close>

fun min_string :: "u8 list \<Rightarrow> (u8 list \<times> u8 list) option" where
  "min_string [] = None"
| "min_string (c # s) =
     (if c = 0x22 then Some ([c], s)
      else if c = 0x5C then (case s of [] \<Rightarrow> None | d # r \<Rightarrow> map_option (\<lambda>(l, r'). (c # d # l, r')) (min_string r))
      else map_option (\<lambda>(l, r). (c # l, r)) (min_string s))"

fun min_comment :: "u8 list \<Rightarrow> u8 list option" where
  "min_comment [] = None"
| "min_comment (c # s) = (if c = 0x2A \<and> s \<noteq> [] \<and> hd s = 0x2F then Some (tl s) else min_comment s)"

lemma min_string_shorter: "min_string s = Some (l, r) \<Longrightarrow> length r < length s"
proof (induction s arbitrary: l r rule: min_string.induct)
  case (2 c s)
  then show ?case by (auto split: if_splits list.splits) fastforce+
qed simp

lemma min_comment_shorter: "min_comment s = Some r \<Longrightarrow> length r < length s"
  by (induction s) (auto split: if_splits)

text \<open>The text without white space and comments; \<open>None\<close> when a string or a comment does not end.\<close>

function min_text :: "u8 list \<Rightarrow> u8 list option" where
  "min_text [] = Some []"
| "min_text (c # s) =
     (if c = 0x20 \<or> c = 0x09 \<or> c = 0x0D \<or> c = 0x0A then min_text s
      else if c = 0x2F \<and> s \<noteq> [] \<and> hd s = 0x2F then min_text (dropWhile (\<lambda>c. c \<noteq> 0x0A) s)
      else if c = 0x2F \<and> s \<noteq> [] \<and> hd s = 0x2A then (case min_comment s of None \<Rightarrow> None | Some r \<Rightarrow> min_text r)
      else if c = 0x22 then (case min_string s of None \<Rightarrow> None | Some (l, r) \<Rightarrow> map_option (\<lambda>o1. c # l @ o1) (min_text r))
      else map_option (Cons c) (min_text s))"
  by pat_completeness auto
termination
  by (relation "measure length") (auto simp: le_imp_less_Suc length_dropWhile_le dest: min_string_shorter min_comment_shorter)

declare min_text.simps [simp del]

section \<open>The code in place\<close>

text \<open>The memory while the code runs: the output, and behind it what stood there at first.\<close>

definition over :: "u8 list \<Rightarrow> u8 list \<Rightarrow> u8 list" where
  "over out cs = out @ drop (length out) cs"

lemma over_read: "length out \<le> j \<Longrightarrow> length out \<le> length cs \<Longrightarrow> nth_opt (over out cs) j = nth_opt cs j"
  by (simp add: over_def nth_opt_def nth_append)

lemma over_write: "length out < length cs \<Longrightarrow> upd_opt (over out cs) (length out) c = Some (over (out @ [c]) cs)"
  by (simp add: over_def upd_opt_def list_update_append Cons_nth_drop_Suc [symmetric] del: Cons_nth_drop_Suc)

lemma nth_opt_drop: "drop j cs = c # s \<Longrightarrow> nth_opt cs j = Some c \<and> j < length cs \<and> drop (j + 1) cs = s"
proof -
  assume h: "drop j cs = c # s"
  then have l: "j < length cs" by (metis drop_eq_Nil2 leI list.distinct(1))
  then show ?thesis using h by (simp add: nth_opt_def Cons_nth_drop_Suc [symmetric])
qed

lemma skip_line_ref:
  assumes "drop j cs = s @ 0 # rest" and "0 \<notin> set s" and "length out \<le> j" and "length out \<le> length cs"
  shows "\<exists>k. skip_line (over out cs) j = Some k \<and> j \<le> k \<and> drop k cs = dropWhile (\<lambda>c. c \<noteq> 0x0A) s @ 0 # rest"
  using assms
proof (induction s arbitrary: j)
  case Nil
  then show ?case using nth_opt_drop [of j cs 0 rest] by (subst skip_line.simps) (simp add: over_read)
next
  case (Cons c s)
  then have n: "nth_opt cs j = Some c" "drop (j + 1) cs = s @ 0 # rest" using nth_opt_drop [of j cs c] by auto
  show ?case
  proof (cases "c = 0x0A")
    case True
    then show ?thesis using Cons.prems n by (subst skip_line.simps) (simp add: over_read)
  next
    case False
    obtain k where "skip_line (over out cs) (j + 1) = Some k" "j + 1 \<le> k" "drop k cs = dropWhile (\<lambda>c. c \<noteq> 0x0A) s @ 0 # rest"
      using Cons.IH [OF n(2)] Cons.prems by auto
    moreover have "skip_line (over out cs) j = skip_line (over out cs) (j + 1)" using False Cons.prems n(1) by (subst skip_line.simps) (simp add: over_read)
    ultimately show ?thesis using False by auto
  qed
qed

lemma skip_comment_ref:
  assumes "drop j cs = s @ 0 # rest" and "0 \<notin> set s" and "length out \<le> j" and "length out \<le> length cs"
  shows "\<exists>k. skip_comment (over out cs) j = Some k \<and> j \<le> k \<and>
    (case min_comment s of None \<Rightarrow> k = j + length s + 2 | Some r \<Rightarrow> drop k cs = r @ 0 # rest \<and> 0 \<notin> set r)"
  using assms
proof (induction s arbitrary: j)
  case Nil
  then show ?case using nth_opt_drop [of j cs 0 rest] by (subst skip_comment.simps) (simp add: over_read)
next
  case (Cons c s)
  then have n: "nth_opt cs j = Some c" "drop (j + 1) cs = s @ 0 # rest" "c \<noteq> 0" using nth_opt_drop [of j cs c] by auto
  obtain k where k: "skip_comment (over out cs) (j + 1) = Some k" "j + 1 \<le> k"
      "case min_comment s of None \<Rightarrow> k = j + 1 + length s + 2 | Some r \<Rightarrow> drop k cs = r @ 0 # rest \<and> 0 \<notin> set r"
    using Cons.IH [OF n(2)] Cons.prems by auto
  show ?case
  proof (cases "c = 0x2A \<and> s \<noteq> [] \<and> hd s = 0x2F")
    case True
    then obtain s' where s: "s = 0x2F # s'" by (cases s) auto
    have "nth_opt cs (j + 1) = Some 0x2F" "drop (j + 2) cs = s' @ 0 # rest" using nth_opt_drop [of "j + 1" cs "0x2F" "s' @ 0 # rest"] n(2) s by auto
    then have "skip_comment (over out cs) j = Some (j + 2)" using True n Cons.prems by (subst skip_comment.simps) (simp add: over_read)
    then show ?thesis using True s \<open>drop (j + 2) cs = s' @ 0 # rest\<close> Cons.prems(2) by auto
  next
    case False
    obtain d r where d: "s @ 0 # rest = d # r" "c = 0x2A \<longrightarrow> d \<noteq> 0x2F" using False by (cases s) auto
    then have "nth_opt cs (j + 1) = Some d" using nth_opt_drop [of "j + 1" cs d r] n(2) by simp
    then have e: "skip_comment (over out cs) j = skip_comment (over out cs) (j + 1)" using d(2) n Cons.prems by (subst skip_comment.simps) (simp add: over_read)
    have m: "min_comment (c # s) = min_comment s" using False by auto
    show ?thesis unfolding e m using k by (auto split: option.splits)
  qed
qed

lemma copy_literal_ref:
  assumes "drop j cs = s @ 0 # rest" and "0 \<notin> set s" and "length out \<le> j"
  shows "case min_string s of
      Some (l, r) \<Rightarrow> copy_literal (over out cs) j (length out) = Some (over (out @ l) cs, j + length l, length (out @ l)) \<and>
        drop (j + length l) cs = r @ 0 # rest \<and> 0 \<notin> set r
    | None \<Rightarrow> rest = [] \<longrightarrow> (\<forall>x. copy_literal (over out cs) j (length out) = Some x \<longrightarrow> length (fst x) = length cs \<and> length cs \<le> fst (snd x))"
  using assms
proof (induction s arbitrary: j out rule: min_string.induct)
  case 1
  then have n: "nth_opt cs j = Some 0" "j < length cs" "drop (j + 1) cs = rest" using nth_opt_drop [of j cs 0 rest] by auto
  have o1: "length out < length cs" using n(2) 1(3) by simp
  have "copy_literal (over out cs) j (length out) = Some (over (out @ [0]) cs, j + 1, length out + 1)"
    using n(1) 1(3) o1 over_write [OF o1, of 0] by (subst copy_literal.simps) (simp add: over_read)
  moreover have "length (over (out @ [0]) cs) = length cs" using o1 by (simp add: over_def)
  moreover have "rest = [] \<longrightarrow> length cs \<le> j + 1" using n(3) by auto
  ultimately show ?case by simp
next
  case (2 c s)
  then have n: "nth_opt cs j = Some c" "drop (j + 1) cs = s @ 0 # rest" "c \<noteq> 0" "j < length cs" using nth_opt_drop [of j cs c] by auto
  have o1: "length out < length cs" using n(4) 2(5) by simp
  note w = over_write [OF o1, of c]
  consider "c = 0x22" | "c = 0x5C" "s = []" | d r where "c = 0x5C" "s = d # r" | "c \<noteq> 0x22" "c \<noteq> 0x5C" by (cases s) auto
  then show ?case
  proof cases
    case 1
    then have "copy_literal (over out cs) j (length out) = Some (over (out @ [c]) cs, j + 1, length out + 1)"
      using n(1) 2(5) o1 w by (subst copy_literal.simps) (simp add: over_read)
    then show ?thesis using 1 n(2) 2(4) by simp
  next
    case e: 2
    have z: "nth_opt cs (j + 1) = Some 0" "j + 1 < length cs" "drop (j + 2) cs = rest" using nth_opt_drop [of "j + 1" cs 0 rest] n(2) e(2) by auto
    have "upd_opt (over (out @ [c]) cs) (length (out @ [c])) 0 = Some (over ((out @ [c]) @ [0]) cs)" by (rule over_write) (use z(2) 2(5) in simp)
    then have "copy_literal (over out cs) j (length out) = copy_literal (over (out @ [c, 0]) cs) (j + 2) (length out + 2)"
      using n(1,3) 2(5) o1 w z(1) e(1) over_read [of "out @ [c]" "j + 1" cs] z(2) by (subst copy_literal.simps) (simp add: over_read)
    moreover have "copy_literal (over (out @ [c, 0]) cs) (j + 2) (length out + 2) = None" if "rest = []"
    proof -
      have "length (over (out @ [c, 0]) cs) \<le> j + 2" using z 2(5) that by (simp add: over_def)
      then show ?thesis by (subst copy_literal.simps) (simp add: nth_opt_def)
    qed
    ultimately show ?thesis using e by auto
  next
    case (3 d r)
    have z: "nth_opt cs (j + 1) = Some d" "j + 1 < length cs" "drop (j + 2) cs = r @ 0 # rest" using nth_opt_drop [of "j + 1" cs d "r @ 0 # rest"] n(2) 3(2) by auto
    have "upd_opt (over (out @ [c]) cs) (length (out @ [c])) d = Some (over ((out @ [c]) @ [d]) cs)" by (rule over_write) (use z(2) 2(5) in simp)
    then have E: "copy_literal (over out cs) j (length out) = copy_literal (over (out @ [c, d]) cs) (j + 2) (length (out @ [c, d]))"
      using n(1,3) 2(5) o1 w z(1) 3(1) over_read [of "out @ [c]" "j + 1" cs] z(2) by (subst copy_literal.simps) (simp add: over_read)
    have m: "min_string (c # s) = map_option (\<lambda>(l, r'). (c # d # l, r')) (min_string r)" using 3 by simp
    have "c \<noteq> 0x22" using 3 by simp
    from 2(1) [OF this 3(1,2) z(3), of "out @ [c, d]"] 2(4,5) 3(2) show ?thesis unfolding E m
      by (cases "min_string r") (auto simp: add.assoc)
  next
    case 4
    then have E: "copy_literal (over out cs) j (length out) = copy_literal (over (out @ [c]) cs) (j + 1) (length (out @ [c]))"
      using n(1,3) 2(5) o1 w by (subst copy_literal.simps) (simp add: over_read)
    have m: "min_string (c # s) = map_option (\<lambda>(l, r). (c # l, r)) (min_string s)" using 4 by simp
    from 2(2) [OF 4 n(2), of "out @ [c]"] 2(4,5) show ?thesis unfolding E m
      by (cases "min_string s") auto
  qed
qed

lemma loop_beyond: "length cs \<le> j \<Longrightarrow> minify_loop cs j i = None"
  by (subst minify_loop.simps) (simp add: nth_opt_def)

lemma over_length: "length out \<le> length cs \<Longrightarrow> length (over out cs) = length cs"
  by (simp add: over_def)

lemma minify_loop_ref:
  assumes "drop j cs = s @ 0 # rest" and "0 \<notin> set s" and "length out \<le> j"
  shows "case min_text s of
      Some t \<Rightarrow> minify_loop (over out cs) j (length out) = Some (over (out @ t @ [0]) cs)
    | None \<Rightarrow> rest = [] \<longrightarrow> minify_loop (over out cs) j (length out) = None"
  using assms
proof (induction s arbitrary: j out rule: min_text.induct)
  case 1
  then have n: "nth_opt cs j = Some 0" "j < length cs" using nth_opt_drop [of j cs 0 rest] by auto
  have o1: "length out < length cs" using n(2) 1(3) by simp
  show ?case using n(1) 1(3) over_write [OF o1, of 0] o1 by (subst minify_loop.simps) (simp add: over_read min_text.simps)
next
  case (2 c s)
  then have n: "nth_opt cs j = Some c" "drop (j + 1) cs = s @ 0 # rest" "c \<noteq> 0" "j < length cs" using nth_opt_drop [of j cs c] by auto
  have o1: "length out < length cs" using n(4) 2(8) by simp
  note r = over_read [OF 2(8), of cs]
  have r1: "nth_opt (over out cs) (j + 1) = nth_opt cs (j + 1)" using 2(8) o1 by (simp add: over_read)
  let ?M = "minify_loop (over out cs) j (length out)"
  obtain d q where d: "s @ 0 # rest = d # q" by (cases s) auto
  have c1: "nth_opt cs (j + 1) = Some d" using nth_opt_drop [of "j + 1" cs d q] n(2) d by simp
  have ds: "d = 0x2F \<longleftrightarrow> s \<noteq> [] \<and> hd s = 0x2F" "d = 0x2A \<longleftrightarrow> s \<noteq> [] \<and> hd s = 0x2A" using d by (cases s; auto)+
  consider (ws) "c = 0x20 \<or> c = 0x09 \<or> c = 0x0D \<or> c = 0x0A" | (line) "c = 0x2F" "d = 0x2F" | (comment) "c = 0x2F" "d = 0x2A" | (str) "c = 0x22"
    | (other) "\<not> (c = 0x20 \<or> c = 0x09 \<or> c = 0x0D \<or> c = 0x0A)" "c \<noteq> 0x22" "c = 0x2F \<longrightarrow> d \<noteq> 0x2F \<and> d \<noteq> 0x2A" by blast
  then show ?case
  proof cases
    case ws
    then have "?M = minify_loop (over out cs) (j + 1) (length out)" using n(1,3) r o1 by (subst minify_loop.simps) auto
    moreover have "min_text (c # s) = min_text s" using ws by (auto simp: min_text.simps)
    ultimately show ?thesis using 2(1) [OF ws n(2), of out] 2(7,8) by (cases "min_text s") simp_all
  next
    case line
    then have "\<exists>s'. s = 0x2F # s'" using ds by (cases s) auto
    have z: "0 \<notin> set (c # s)" "length out \<le> length cs" "drop j cs = (c # s) @ 0 # rest" using 2(6,7) o1 by auto
    obtain k where k: "skip_line (over out cs) j = Some k" "j \<le> k" "drop k cs = dropWhile (\<lambda>c. c \<noteq> 0x0A) s @ 0 # rest"
      using skip_line_ref [OF z(3,1) 2(8) z(2)] line by auto
    have "?M = minify_loop (over out cs) k (length out)" using n(1,3) r r1 o1 line c1 k(1) by (subst minify_loop.simps) simp
    moreover have "min_text (c # s) = min_text (dropWhile (\<lambda>c. c \<noteq> 0x0A) s)" using line ds by (simp add: min_text.simps)
    moreover have "0 \<notin> set (dropWhile (\<lambda>c. c \<noteq> 0x0A) s)" using z(1) by (auto dest: set_dropWhileD)
    ultimately show ?thesis using 2(2) [OF _ _ k(3), of out] line ds k(2) 2(8) by (cases "min_text (dropWhile (\<lambda>c. c \<noteq> 0x0A) s)") simp_all
  next
    case comment
    have z: "0 \<notin> set (c # s)" "length out \<le> length cs" "drop j cs = (c # s) @ 0 # rest" using 2(6,7) o1 by auto
    have mc: "min_comment (c # s) = min_comment s" using comment by simp
    obtain k where k: "skip_comment (over out cs) j = Some k" "j \<le> k"
        "case min_comment s of None \<Rightarrow> k = j + length (c # s) + 2 | Some r \<Rightarrow> drop k cs = r @ 0 # rest \<and> 0 \<notin> set r"
      using skip_comment_ref [OF z(3,1) 2(8) z(2)] unfolding mc by auto
    have M: "?M = minify_loop (over out cs) k (length out)" using n(1,3) r r1 o1 comment c1 k(1) by (subst minify_loop.simps) simp
    have T: "min_text (c # s) = (case min_comment s of None \<Rightarrow> None | Some r \<Rightarrow> min_text r)" using comment ds by (simp add: min_text.simps)
    show ?thesis
    proof (cases "min_comment s")
      case None
      have "length cs = j + length (c # s) + 1 + length rest" using arg_cong [OF z(3), of length] n(4) by simp
      then have "?M = None" if "rest = []" unfolding M using k(3) None that by (intro loop_beyond) (simp only: over_length [OF z(2)], simp)
      then show ?thesis unfolding T None by simp
    next
      case (Some u)
      then show ?thesis using 2(3) [OF _ _ _ Some, of k out] comment ds k 2(8) unfolding M T by (cases "min_text u") simp_all
    qed
  next
    case str
    have M: "?M = do { (cs2, j, i) \<leftarrow> copy_literal (over (out @ [c]) cs) (j + 1) (length (out @ [c])); minify_loop cs2 j i }"
      using n(1,3) r o1 str over_write [OF o1, of c] by (subst minify_loop.simps) simp
    have T: "min_text (c # s) = (case min_string s of None \<Rightarrow> None | Some (l, r) \<Rightarrow> map_option (\<lambda>o1. c # l @ o1) (min_text r))" using str by (cases "min_string s") (auto simp: min_text.simps)
    have L: "case min_string s of
      Some (l, r) \<Rightarrow> copy_literal (over (out @ [c]) cs) (j + 1) (length (out @ [c])) = Some (over ((out @ [c]) @ l) cs, j + 1 + length l, length ((out @ [c]) @ l)) \<and>
        drop (j + 1 + length l) cs = r @ 0 # rest \<and> 0 \<notin> set r
    | None \<Rightarrow> rest = [] \<longrightarrow> (\<forall>x. copy_literal (over (out @ [c]) cs) (j + 1) (length (out @ [c])) = Some x \<longrightarrow> length (fst x) = length cs \<and> length cs \<le> fst (snd x))"
      by (rule copy_literal_ref [OF n(2)]) (use 2(7,8) in simp_all)
    show ?thesis
    proof (cases "min_string s")
      case None
      have "?M = None" if "rest = []"
      proof (cases "copy_literal (over (out @ [c]) cs) (j + 1) (length (out @ [c]))")
        case (Some x)
        then show ?thesis using L None that loop_beyond [of "fst x" "fst (snd x)" "snd (snd x)"] unfolding M by (cases x) auto
      qed (simp add: M)
      then show ?thesis unfolding T None by simp
    next
      case (Some x)
      obtain l u where x: "x = (l, u)" by (cases x)
      have k: "copy_literal (over (out @ [c]) cs) (j + 1) (length (out @ [c])) = Some (over (out @ c # l) cs, j + 1 + length l, length (out @ c # l))"
          "drop (j + 1 + length l) cs = u @ 0 # rest" "0 \<notin> set u" using L Some x by auto
      have "case min_text u of Some t \<Rightarrow> minify_loop (over (out @ c # l) cs) (j + 1 + length l) (length (out @ c # l)) = Some (over ((out @ c # l) @ t @ [0]) cs)
        | None \<Rightarrow> rest = [] \<longrightarrow> minify_loop (over (out @ c # l) cs) (j + 1 + length l) (length (out @ c # l)) = None"
        by (rule 2(4) [OF _ _ _ _ Some x [symmetric] k(2,3)]) (use str 2(8) in simp_all)
      then show ?thesis unfolding M T Some x k(1) by (cases "min_text u") auto
    qed
  next
    case other
    then have M: "?M = minify_loop (over (out @ [c]) cs) (j + 1) (length (out @ [c]))"
      using n(1,3) r r1 o1 c1 over_write [OF o1, of c] by (subst minify_loop.simps) auto
    have T: "min_text (c # s) = map_option (Cons c) (min_text s)" using other ds by (auto simp: min_text.simps)
    have "case min_text s of Some t \<Rightarrow> minify_loop (over (out @ [c]) cs) (j + 1) (length (out @ [c])) = Some (over ((out @ [c]) @ t @ [0]) cs)
        | None \<Rightarrow> rest = [] \<longrightarrow> minify_loop (over (out @ [c]) cs) (j + 1) (length (out @ [c])) = None"
      by (rule 2(5) [OF _ _ _ _ n(2)]) (use other ds 2(7,8) in auto)
    then show ?thesis unfolding M T by (cases "min_text s") auto
  qed
qed

end
