(* ===== verification/Cjson_Minify_Props.thy ===== *)
theory Cjson_Minify_Props
  imports Cjson_Minify
begin

unbundle bit_operations_syntax

text \<open>Properties of \<open>cJSON_Minify\<close>: it agrees with the reference on every text, and the parser finds the same value afterwards.\<close>

section \<open>JSON texts\<close>

text \<open>\<open>compact t t'\<close>: wherever the text \<open>t\<close> stands between tokens, \<open>t'\<close> is left of it.\<close>

definition compact :: "u8 list \<Rightarrow> u8 list \<Rightarrow> bool" where
  "compact t t' \<longleftrightarrow> (\<forall>s. min_text (t @ s) = map_option ((@) t') (min_text s))"

lemma compact_append:
  assumes "compact a a'" and "compact b b'"
  shows "compact (a @ b) (a' @ b')"
  unfolding compact_def
proof
  fix s
  show "min_text ((a @ b) @ s) = map_option ((@) (a' @ b')) (min_text s)" using assms by (cases "min_text s") (simp_all add: compact_def)
qed

lemma compact_nil: "compact [] []"
  unfolding compact_def
proof
  fix s
  show "min_text ([] @ s) = map_option ((@) []) (min_text s)" by (cases "min_text s") simp_all
qed

lemma compact_char:
  assumes "c \<notin> {0x20, 0x09, 0x0D, 0x0A, 0x2F, 0x22}"
  shows "compact [c] [c]"
  unfolding compact_def
proof
  fix s
  show "min_text ([c] @ s) = map_option ((@) [c]) (min_text s)" using assms by (cases "min_text s") (simp_all add: min_text.simps(2))
qed

lemma compact_plain:
  assumes "\<forall>c\<in>set t. c \<notin> {0x20, 0x09, 0x0D, 0x0A, 0x2F, 0x22}"
  shows "compact t t"
  using assms
proof (induction t)
  case (Cons c t)
  have "compact ([c] @ t) ([c] @ t)" by (rule compact_append) (use Cons compact_char in auto)
  then show ?case by simp
qed (rule compact_nil)

lemma compact_ws:
  assumes "\<forall>c\<in>set w. c \<in> {0x20, 0x09, 0x0D, 0x0A}"
  shows "compact w []"
  using assms
proof (induction w)
  case (Cons c w)
  have "min_text (c # s) = min_text s" for s using Cons.prems by (auto simp: min_text.simps(2))
  then show ?case using Cons by (auto simp: compact_def)
qed (rule compact_nil)

lemma min_string_plain: "0x22 \<notin> set hs \<Longrightarrow> 0x5C \<notin> set hs \<Longrightarrow> min_string (hs @ r) = map_option (\<lambda>(l, r'). (hs @ l, r')) (min_string r)"
proof (induction hs)
  case Nil
  then show ?case by (cases "min_string r") auto
next
  case (Cons h hs)
  then show ?case by (cases "min_string r") auto
qed

lemma min_string_chars: "json_chars s n \<Longrightarrow> min_string (n @ 0x22 # r) = Some (n @ [0x22], r)"
proof (induction rule: json_chars.induct)
  case (chars_unicode hs cp bs s t)
  then have "0x22 \<notin> set hs" "0x5C \<notin> set hs" using hex_digit_plain by fastforce+
  then show ?case using chars_unicode min_string_plain [of hs "t @ 0x22 # r"] by simp
next
  case (chars_surrogates hs ls hi lo bs s t)
  then have "0x22 \<notin> set hs" "0x5C \<notin> set hs" "0x22 \<notin> set ls" "0x5C \<notin> set ls" using hex_digit_plain by fastforce+
  then show ?case using chars_surrogates min_string_plain [of hs "0x5C # 0x75 # ls @ t @ 0x22 # r"] min_string_plain [of ls "t @ 0x22 # r"] by simp
qed auto

lemma compact_string:
  assumes "json_chars s n"
  shows "compact (0x22 # n @ [0x22]) (0x22 # n @ [0x22])"
proof -
  have "min_text ((0x22 # n @ [0x22]) @ r) = map_option ((@) (0x22 # n @ [0x22])) (min_text r)" for r
    using min_string_chars [OF assms, of r] by (cases "min_text r") (simp_all add: min_text.simps(2))
  then show ?thesis unfolding compact_def by blast
qed

text \<open>White space of a text is that of JSON.\<close>

definition plain_space :: "u8 list \<Rightarrow> bool" where
  "plain_space t \<longleftrightarrow> (\<forall>c\<in>set t. c < 0x20 \<longrightarrow> c \<in> {0x09, 0x0A, 0x0D})"

lemma plain_space_append [simp]: "plain_space [] \<longleftrightarrow> True" "plain_space (a @ b) \<longleftrightarrow> plain_space a \<and> plain_space b"
    "plain_space (c # b) \<longleftrightarrow> (c < 0x20 \<longrightarrow> c \<in> {0x09, 0x0A, 0x0D}) \<and> plain_space b"
  by (auto simp: plain_space_def)

lemma space_compact:
  assumes "json_ws w" and "plain_space w"
  shows "compact w []"
proof (rule compact_ws, rule ballI)
  fix c
  assume c: "c \<in> set w"
  then have "c \<le> 0x20" using assms(1) by (auto simp: json_ws_def)
  then show "c \<in> {0x20, 0x09, 0x0D, 0x0A}" using assms(2) c by (auto simp: plain_space_def order_le_less)
qed

lemma token: "compact [c] [c]" if "c \<in> {0x5B, 0x5D, 0x7B, 0x7D, 0x2C, 0x3A}"
  by (rule compact_char) (use that in auto)

lemma compact_value:
  "json_value d v t \<Longrightarrow> plain_space t \<longrightarrow> (\<exists>t'. json_value d v t' \<and> compact t t')"
  "json_elems d vs t \<Longrightarrow> plain_space t \<longrightarrow> (\<exists>t'. json_elems d vs t' \<and> compact t t')"
  "json_members d vs t \<Longrightarrow> plain_space t \<longrightarrow> (\<exists>t'. json_members d vs t' \<and> compact t t')"
proof (induction rule: json_value_json_elems_json_members.inducts)
  case (v_null d)
  show ?case using json_value_json_elems_json_members.v_null compact_plain [of "ascii ''null''"] by (auto simp: ascii_def)
next
  case (v_false d)
  show ?case using json_value_json_elems_json_members.v_false compact_plain [of "ascii ''false''"] by (auto simp: ascii_def)
next
  case (v_true d)
  show ?case using json_value_json_elems_json_members.v_true compact_plain [of "ascii ''true''"] by (auto simp: ascii_def)
next
  case (v_string s t d)
  then show ?case using json_value_json_elems_json_members.v_string compact_string by blast
next
  case (v_number t c r d)
  have "x \<notin> {0x20, 0x09, 0x0D, 0x0A, 0x2F, 0x22}" if "number_char x" for x using that by (auto simp: number_char_def c_isdigit_def word_le_nat_alt)
  then have "compact t t" using v_number by (intro compact_plain) blast
  then show ?case using json_value_json_elems_json_members.v_number [OF v_number] by blast
next
  case (v_array0 w d)
  show ?case
  proof
    assume "plain_space (0x5B # w @ [0x5D])"
    then have "compact ([0x5B] @ w @ [0x5D]) ([0x5B] @ [] @ [0x5D])" by (intro compact_append token space_compact v_array0) auto
    moreover have "json_value (Suc d) (CJSON cJSON_Array None [] None []) (0x5B # [] @ [0x5D])"
      by (rule json_value_json_elems_json_members.v_array0) (simp add: json_ws_def)
    ultimately show "\<exists>t'. json_value (Suc d) (CJSON cJSON_Array None [] None []) t' \<and> compact (0x5B # w @ [0x5D]) t'" by auto
  qed
next
  case (v_array d vs t)
  show ?case
  proof
    assume "plain_space (0x5B # t @ [0x5D])"
    then obtain t' where t': "json_elems d vs t'" "compact t t'" using v_array.IH by auto
    have "compact ([0x5B] @ t @ [0x5D]) ([0x5B] @ t' @ [0x5D])" by (intro compact_append token t') auto
    then show "\<exists>t'. json_value (Suc d) (CJSON cJSON_Array None [] None vs) t' \<and> compact (0x5B # t @ [0x5D]) t'"
      using json_value_json_elems_json_members.v_array [OF t'(1)] by auto
  qed
next
  case (v_object0 w d)
  show ?case
  proof
    assume "plain_space (0x7B # w @ [0x7D])"
    then have "compact ([0x7B] @ w @ [0x7D]) ([0x7B] @ [] @ [0x7D])" by (intro compact_append token space_compact v_object0) auto
    moreover have "json_value (Suc d) (CJSON cJSON_Object None [] None []) (0x7B # [] @ [0x7D])"
      by (rule json_value_json_elems_json_members.v_object0) (simp add: json_ws_def)
    ultimately show "\<exists>t'. json_value (Suc d) (CJSON cJSON_Object None [] None []) t' \<and> compact (0x7B # w @ [0x7D]) t'" by auto
  qed
next
  case (v_object d vs t)
  show ?case
  proof
    assume "plain_space (0x7B # t @ [0x7D])"
    then obtain t' where t': "json_members d vs t'" "compact t t'" using v_object.IH by auto
    have "compact ([0x7B] @ t @ [0x7D]) ([0x7B] @ t' @ [0x7D])" by (intro compact_append token t') auto
    then show "\<exists>t'. json_value (Suc d) (CJSON cJSON_Object None [] None vs) t' \<and> compact (0x7B # t @ [0x7D]) t'"
      using json_value_json_elems_json_members.v_object [OF t'(1)] by auto
  qed
next
  case (e_one w1 d v t w2)
  show ?case
  proof
    assume p: "plain_space (w1 @ t @ w2)"
    then obtain t' where t': "json_value d v t'" "compact t t'" using e_one.IH by auto
    have "compact (w1 @ t @ w2) ([] @ t' @ [])" by (intro compact_append space_compact t' e_one) (use p in auto)
    moreover have "json_elems d [v] ([] @ t' @ [])" by (rule json_value_json_elems_json_members.e_one [OF _ t'(1)]) (simp_all add: json_ws_def)
    ultimately show "\<exists>t'. json_elems d [v] t' \<and> compact (w1 @ t @ w2) t'" by blast
  qed
next
  case (e_more w1 d v t w2 vs r)
  show ?case
  proof
    assume p: "plain_space (w1 @ t @ w2 @ 0x2C # r)"
    then obtain t' r' where t': "json_value d v t'" "compact t t'" "json_elems d vs r'" "compact r r'" using e_more.IH by auto
    have "compact (w1 @ t @ w2 @ [0x2C] @ r) ([] @ t' @ [] @ [0x2C] @ r')" by (intro compact_append space_compact token t' e_more) (use p in auto)
    moreover have "json_elems d (v # vs) ([] @ t' @ [] @ 0x2C # r')" by (rule json_value_json_elems_json_members.e_more [OF _ t'(1) _ t'(3)]) (simp_all add: json_ws_def)
    ultimately show "\<exists>t'. json_elems d (v # vs) t' \<and> compact (w1 @ t @ w2 @ 0x2C # r) t'" by auto
  qed
next
  case (m_one w1 s n w2 w3 d v t w4)
  show ?case
  proof
    assume p: "plain_space (w1 @ 0x22 # n @ 0x22 # w2 @ 0x3A # w3 @ t @ w4)"
    then obtain t' where t': "json_value d v t'" "compact t t'" using m_one.IH by auto
    have "compact (w1 @ (0x22 # n @ [0x22]) @ w2 @ [0x3A] @ w3 @ t @ w4) ([] @ (0x22 # n @ [0x22]) @ [] @ [0x3A] @ [] @ t' @ [])"
      by (intro compact_append space_compact token compact_string [OF m_one.hyps(2)] t' m_one) (use p in auto)
    moreover have "json_members d [with_name s v] ([] @ 0x22 # n @ 0x22 # [] @ 0x3A # [] @ t' @ [])"
      by (rule json_value_json_elems_json_members.m_one [OF _ m_one.hyps(2) _ _ t'(1)]) (simp_all add: json_ws_def)
    ultimately show "\<exists>t'. json_members d [with_name s v] t' \<and> compact (w1 @ 0x22 # n @ 0x22 # w2 @ 0x3A # w3 @ t @ w4) t'" by auto
  qed
next
  case (m_more w1 s n w2 w3 d v t w4 vs r)
  show ?case
  proof
    assume p: "plain_space (w1 @ 0x22 # n @ 0x22 # w2 @ 0x3A # w3 @ t @ w4 @ 0x2C # r)"
    then obtain t' r' where t': "json_value d v t'" "compact t t'" "json_members d vs r'" "compact r r'" using m_more.IH by auto
    have "compact (w1 @ (0x22 # n @ [0x22]) @ w2 @ [0x3A] @ w3 @ t @ w4 @ [0x2C] @ r) ([] @ (0x22 # n @ [0x22]) @ [] @ [0x3A] @ [] @ t' @ [] @ [0x2C] @ r')"
      by (intro compact_append space_compact token compact_string [OF m_more.hyps(2)] t' m_more) (use p in auto)
    moreover have "json_members d (with_name s v # vs) ([] @ 0x22 # n @ 0x22 # [] @ 0x3A # [] @ t' @ [] @ 0x2C # r')"
      by (rule json_value_json_elems_json_members.m_more [OF _ m_more.hyps(2) _ _ t'(1) _ t'(3)]) (simp_all add: json_ws_def)
    ultimately show "\<exists>t'. json_members d (with_name s v # vs) t' \<and> compact (w1 @ 0x22 # n @ 0x22 # w2 @ 0x3A # w3 @ t @ w4 @ 0x2C # r) t'" by auto
  qed
qed

section \<open>Properties\<close>

lemma minify_text:
  assumes "0 \<notin> set t"
  shows "case min_text t of
      Some o1 \<Rightarrow> cJSON_Minify (Some (t @ 0 # rest)) = Some (Some (o1 @ 0 # drop (length o1 + 1) (t @ 0 # rest)))
    | None \<Rightarrow> rest = [] \<longrightarrow> cJSON_Minify (Some (t @ 0 # rest)) = None"
  using minify_loop_ref [of 0 "t @ 0 # rest" t rest "[]"] assms
  by (cases "min_text t") (simp_all add: cJSON_Minify_def over_def)

text \<open>
  C38 (equivalence). On memory that holds a zero-terminated text and nothing else, \<open>cJSON_Minify\<close> returns exactly when every string literal and every comment of the text ends,
  and then it leaves the text that the reference gives, a zero, and the old bytes behind it; otherwise it reads behind the terminating zero, which
  is undefined behaviour.
\<close>

theorem minify_reference:
  assumes "0 \<notin> set t"
  shows "cJSON_Minify (Some (t @ [0])) = map_option (\<lambda>o1. Some (o1 @ 0 # drop (length o1 + 1) (t @ [0]))) (min_text t)"
  using minify_text [OF assms, of "[]"] by (cases "min_text t") simp_all

theorem minify_reference_witness:
  "cJSON_Minify (Some ([0x5B, 0x20, 0x22, 0x20, 0x22, 0x2F, 0x2A, 0x20, 0x2A, 0x2F, 0x5D] @ [0])) =
     Some (Some ([0x5B, 0x22, 0x20, 0x22, 0x5D] @ 0 # [0x2A, 0x20, 0x2A, 0x2F, 0x5D, 0])) \<and>
   cJSON_Minify (Some ([0x5B, 0x22, 0x5D] @ [0])) = None"
proof -
  have m: "min_text [0x5B, 0x20, 0x22, 0x20, 0x22, 0x2F, 0x2A, 0x20, 0x2A, 0x2F, 0x5D] = Some [0x5B, 0x22, 0x20, 0x22, 0x5D]" "min_text [0x5B, 0x22, 0x5D] = None"
    by (simp_all add: min_text.simps)
  show ?thesis using minify_reference [of "[0x5B, 0x20, 0x22, 0x20, 0x22, 0x2F, 0x2A, 0x20, 0x2A, 0x2F, 0x5D]"] minify_reference [of "[0x5B, 0x22, 0x5D]"] by (simp add: m)
qed

text \<open>
  C39 (equivalence). Minifying does not change what a JSON text means: on a text of the reference syntax (numbers of at most 63 characters, escapes of single characters, of code
  points other than zero and of surrogate pairs, at most 1000 levels) whose white space is that of JSON, \<open>cJSON_Minify\<close> returns, and \<open>cJSON_Parse\<close> gives the same item
  for the memory before and after it, with the same characters of every number.
\<close>

theorem minify_keeps_value:
  assumes "json_value d v t" and "d \<le> CJSON_NESTING_LIMIT" and "plain_space t"
  shows "\<exists>m. cJSON_Minify (Some (t @ 0 # memory)) = Some (Some m) \<and> cJSON_Parse (\<lambda>_. True) m = Some (Some v) \<and>
    cJSON_Parse (\<lambda>_. True) (t @ 0 # memory) = Some (Some v)"
proof -
  obtain t' where t': "json_value d v t'" "compact t t'" using compact_value(1) [OF assms(1)] assms(3) by blast
  have "min_text t = Some t'" using t'(2) [unfolded compact_def, rule_format, of "[]"] by (simp add: min_text.simps)
  moreover have "0 \<notin> set t" using value_text(1) [OF assms(1)] by blast
  ultimately have "cJSON_Minify (Some (t @ 0 # memory)) = Some (Some (t' @ 0 # drop (length t' + 1) (t @ 0 # memory)))"
    using minify_text [of t memory] by simp
  moreover have "json_ws []" by (simp add: json_ws_def)
  then have "cJSON_Parse (\<lambda>_. True) (u @ 0 # mem) = Some (Some v)" if "json_value d v u" for u mem
    using text_parsed [OF that assms(2), of "[]" "[]" mem] by simp
  ultimately show ?thesis using t'(1) assms(1) by blast
qed

theorem minify_keeps_value_witness:
  "\<exists>m. cJSON_Minify (Some ([0x5B, 0x20, 0x31, 0x2E, 0x35, 0x0A, 0x5D] @ 0 # [7])) = Some (Some m) \<and>
    cJSON_Parse (\<lambda>_. True) m = Some (Some (CJSON cJSON_Array None [] None [CJSON cJSON_Number None [0x31, 0x2E, 0x35] None []])) \<and>
    cJSON_Parse (\<lambda>_. True) ([0x5B, 0x20, 0x31, 0x2E, 0x35, 0x0A, 0x5D] @ 0 # [7]) = Some (Some (CJSON cJSON_Array None [] None [CJSON cJSON_Number None [0x31, 0x2E, 0x35] None []]))"
proof -
  have n: "\<forall>x\<in>set [0x31, 0x2E, 0x35]. number_char x" "strtod_length [0x31, 0x2E, 0x35] = length ([0x31, 0x2E, 0x35] :: u8 list)" "c_isdigit 0x31" by code_simp+
  have "json_value 0 (CJSON cJSON_Number None [0x31, 0x2E, 0x35] None []) [0x31, 0x2E, 0x35]" by (rule v_number [OF refl _ n(1) _ n(2)]) (use n(3) in simp_all)
  then have "json_value (Suc 0) (CJSON cJSON_Array None [] None [CJSON cJSON_Number None [0x31, 0x2E, 0x35] None []]) (0x5B # ([0x20] @ [0x31, 0x2E, 0x35] @ [0x0A]) @ [0x5D])"
    by (intro v_array e_one) (simp_all add: json_ws_def)
  then have j: "json_value (Suc 0) (CJSON cJSON_Array None [] None [CJSON cJSON_Number None [0x31, 0x2E, 0x35] None []]) [0x5B, 0x20, 0x31, 0x2E, 0x35, 0x0A, 0x5D]" by simp
  show ?thesis by (rule minify_keeps_value [OF j]) simp_all
qed

end
