(* ===== verification/Cjson_Heap.thy ===== *)
theory Cjson_Heap
  imports Cjson_Print
begin

unbundle bit_operations_syntax

text \<open>
  Items of \<^verbatim>\<open>src/com/cJSON.c\<close> in memory: deleting, creating, looking up, and changing the children of an item. Every access to an item
  or a string that is not allocated is undefined (\<open>None\<close>), so is giving something back twice. \<open>jh_malloc\<close> is what \<open>malloc\<close> returns in the
  following calls; when it is empty memory is used up.
\<close>

section \<open>Memory\<close>

abbreviation (input) cJSON_Invalid :: u32 where "cJSON_Invalid \<equiv> 0x0"
abbreviation (input) cJSON_IsReference :: u32 where "cJSON_IsReference \<equiv> 256"
abbreviation (input) cJSON_StringIsConst :: u32 where "cJSON_StringIsConst \<equiv> 512"

record 'n jnode =
  jn_next :: addr
  jn_prev :: addr
  jn_child :: addr
  jn_type :: u32
  jn_valuestring :: addr
  jn_valueint :: int
  jn_valuedouble :: 'n
  jn_string :: addr

text \<open>Items, strings that \<open>malloc\<close> gave, and strings of the program that are never given back.\<close>

record 'n jheap =
  jh_items :: "addr \<Rightarrow> 'n jnode option"
  jh_strs :: "addr \<Rightarrow> u8 list option"
  jh_consts :: "addr \<Rightarrow> u8 list option"
  jh_malloc :: "addr list"

definition jset :: "'n jheap \<Rightarrow> addr \<Rightarrow> ('n jnode \<Rightarrow> 'n jnode) \<Rightarrow> 'n jheap option" where
  "jset h a f = map_option (\<lambda>n. h\<lparr>jh_items := (jh_items h)(a \<mapsto> f n)\<rparr>) (jh_items h a)"

definition free_item :: "'n jheap \<Rightarrow> addr \<Rightarrow> 'n jheap option" where
  "free_item h a = map_option (\<lambda>_. h\<lparr>jh_items := (jh_items h)(a := None)\<rparr>) (jh_items h a)"

definition free_str :: "'n jheap \<Rightarrow> addr \<Rightarrow> 'n jheap option" where
  "free_str h a = map_option (\<lambda>_. h\<lparr>jh_strs := (jh_strs h)(a := None)\<rparr>) (jh_strs h a)"

definition read_str :: "'n jheap \<Rightarrow> addr \<Rightarrow> u8 list option" where
  "read_str h a = (case jh_strs h a of Some s \<Rightarrow> Some s | None \<Rightarrow> jh_consts h a)"

definition malloc :: "'n jheap \<Rightarrow> 'n jheap \<times> addr" where
  "malloc h = (case jh_malloc h of [] \<Rightarrow> (h, NULL) | a # r \<Rightarrow> (h\<lparr>jh_malloc := r\<rparr>, a))"

section \<open>New items and strings\<close>

definition zero_node :: "'n numconv \<Rightarrow> 'n jnode" where
  "zero_node nc = \<lparr>jn_next = NULL, jn_prev = NULL, jn_child = NULL, jn_type = 0, jn_valuestring = NULL, jn_valueint = 0, jn_valuedouble = nc_zero nc, jn_string = NULL\<rparr>"

definition new_item :: "'n numconv \<Rightarrow> 'n jheap \<Rightarrow> 'n jheap \<times> addr" where
  "new_item nc h = (let (h1, node) = malloc h in
     if node \<noteq> NULL then (h1\<lparr>jh_items := (jh_items h1)(node \<mapsto> zero_node nc)\<rparr>, node) else (h1, NULL))"

definition cJSON_strdup :: "'n jheap \<Rightarrow> addr \<Rightarrow> ('n jheap \<times> addr) option" where
  "cJSON_strdup h string =
     (if string = NULL then Some (h, NULL)
      else do {
        s \<leftarrow> read_str h string;
        (let (h1, copy) = malloc h in
         Some (if copy = NULL then (h1, NULL) else (h1\<lparr>jh_strs := (jh_strs h1)(copy \<mapsto> s)\<rparr>, copy)))
      })"

section \<open>Deleting\<close>

definition free_string_unless :: "u32 \<Rightarrow> ('n jnode \<Rightarrow> addr) \<Rightarrow> addr \<Rightarrow> 'n jheap \<Rightarrow> 'n jheap option" where
  "free_string_unless flag field item h = do {
     n \<leftarrow> jh_items h item;
     if jn_type n AND flag = 0 \<and> field n \<noteq> NULL then free_str h (field n) else Some h
   }"

partial_function (option) cJSON_Delete :: "'n jheap \<Rightarrow> addr \<Rightarrow> 'n jheap option" where
  "cJSON_Delete h item =
     (if item = NULL then Some h
      else do {
        n \<leftarrow> jh_items h item;
        h1 \<leftarrow> (if jn_type n AND cJSON_IsReference = 0 \<and> jn_child n \<noteq> NULL then cJSON_Delete h (jn_child n) else Some h);
        h2 \<leftarrow> free_string_unless cJSON_IsReference jn_valuestring item h1;
        h3 \<leftarrow> free_string_unless cJSON_StringIsConst jn_string item h2;
        h4 \<leftarrow> free_item h3 item;
        cJSON_Delete h4 (jn_next n)
      })"

section \<open>Looking up\<close>

partial_function (option) size_loop :: "'n jheap \<Rightarrow> addr \<Rightarrow> nat \<Rightarrow> nat option" where
  "size_loop h child k = (if child = NULL then Some k else do { n \<leftarrow> jh_items h child; size_loop h (jn_next n) (k + 1) })"

text \<open>The size is converted to \<open>int\<close>.\<close>

definition cJSON_GetArraySize :: "'n jheap \<Rightarrow> addr \<Rightarrow> int option" where
  "cJSON_GetArraySize h array =
     (if array = NULL then Some 0
      else do { n \<leftarrow> jh_items h array; k \<leftarrow> size_loop h (jn_child n) 0; Some (sint (of_nat k :: u32)) })"

partial_function (option) item_loop :: "'n jheap \<Rightarrow> addr \<Rightarrow> nat \<Rightarrow> addr option" where
  "item_loop h current_child index =
     (if current_child \<noteq> NULL \<and> 0 < index then do { n \<leftarrow> jh_items h current_child; item_loop h (jn_next n) (index - 1) } else Some current_child)"

definition get_array_item :: "'n jheap \<Rightarrow> addr \<Rightarrow> nat \<Rightarrow> addr option" where
  "get_array_item h array index = (if array = NULL then Some NULL else do { n \<leftarrow> jh_items h array; item_loop h (jn_child n) index })"

definition cJSON_GetArrayItem :: "'n jheap \<Rightarrow> addr \<Rightarrow> int \<Rightarrow> addr option" where
  "cJSON_GetArrayItem h array index = (if index < 0 then Some NULL else get_array_item h array (nat index))"

text \<open>The comparison of names; the texts are those before the terminating zeros.\<close>

fun strcmp_loop :: "u8 list \<Rightarrow> u8 list \<Rightarrow> int" where
  "strcmp_loop [] [] = 0"
| "strcmp_loop [] (d # t) = - uint (c_tolower d)"
| "strcmp_loop (c # s) [] = uint (c_tolower c)"
| "strcmp_loop (c # s) (d # t) = (if c_tolower c = c_tolower d then strcmp_loop s t else uint (c_tolower c) - uint (c_tolower d))"

definition case_insensitive_strcmp :: "'n jheap \<Rightarrow> addr \<Rightarrow> addr \<Rightarrow> int option" where
  "case_insensitive_strcmp h string1 string2 =
     (if string1 = NULL \<or> string2 = NULL then Some 1
      else if string1 = string2 then Some 0
      else do { s \<leftarrow> read_str h string1; t \<leftarrow> read_str h string2; Some (strcmp_loop s t) })"

text \<open>\<open>strcmp\<close> on a name that is \<open>NULL\<close> is undefined.\<close>

definition names_differ :: "'n jheap \<Rightarrow> bool \<Rightarrow> addr \<Rightarrow> addr \<Rightarrow> bool option" where
  "names_differ h case_sensitive name string =
     (if case_sensitive then do { s \<leftarrow> read_str h name; t \<leftarrow> (if string = NULL then None else read_str h string); Some (s \<noteq> t) }
      else do { d \<leftarrow> case_insensitive_strcmp h name string; Some (d \<noteq> 0) })"

partial_function (option) lookup_loop :: "'n jheap \<Rightarrow> bool \<Rightarrow> addr \<Rightarrow> addr \<Rightarrow> addr option" where
  "lookup_loop h case_sensitive name current_element =
     (if current_element = NULL then Some NULL
      else do {
        n \<leftarrow> jh_items h current_element;
        differ \<leftarrow> names_differ h case_sensitive name (jn_string n);
        if differ then lookup_loop h case_sensitive name (jn_next n) else Some current_element
      })"

definition get_object_item :: "'n jheap \<Rightarrow> addr \<Rightarrow> addr \<Rightarrow> bool \<Rightarrow> addr option" where
  "get_object_item h object name case_sensitive =
     (if object = NULL \<or> name = NULL then Some NULL else do { n \<leftarrow> jh_items h object; lookup_loop h case_sensitive name (jn_child n) })"

definition cJSON_GetObjectItem :: "'n jheap \<Rightarrow> addr \<Rightarrow> addr \<Rightarrow> addr option" where
  "cJSON_GetObjectItem h object string = get_object_item h object string False"

definition cJSON_HasObjectItem :: "'n jheap \<Rightarrow> addr \<Rightarrow> addr \<Rightarrow> int option" where
  "cJSON_HasObjectItem h object string = do { p \<leftarrow> cJSON_GetObjectItem h object string; Some (if p \<noteq> NULL then 1 else 0) }"

section \<open>Adding children\<close>

definition suffix_object :: "'n jheap \<Rightarrow> addr \<Rightarrow> addr \<Rightarrow> 'n jheap option" where
  "suffix_object h prev item = do { h1 \<leftarrow> jset h prev (jn_next_update (\<lambda>_. item)); jset h1 item (jn_prev_update (\<lambda>_. prev)) }"

text \<open>The copy of the structure shares the children and the text of the item.\<close>

definition create_reference :: "'n numconv \<Rightarrow> 'n jheap \<Rightarrow> addr \<Rightarrow> ('n jheap \<times> addr) option" where
  "create_reference nc h item =
     (if item = NULL then Some (h, NULL)
      else (let (h1, reference) = new_item nc h in
        if reference = NULL then Some (h1, NULL)
        else do {
          n \<leftarrow> jh_items h1 item;
          h2 \<leftarrow> jset h1 reference (\<lambda>_. n\<lparr>jn_string := NULL, jn_type := jn_type n OR cJSON_IsReference, jn_next := NULL, jn_prev := NULL\<rparr>);
          Some (h2, reference)
        }))"

partial_function (option) last_loop :: "'n jheap \<Rightarrow> addr \<Rightarrow> addr option" where
  "last_loop h child = do { n \<leftarrow> jh_items h child; if jn_next n \<noteq> NULL then last_loop h (jn_next n) else Some child }"

definition cJSON_AddItemToArray :: "'n jheap \<Rightarrow> addr \<Rightarrow> addr \<Rightarrow> 'n jheap option" where
  "cJSON_AddItemToArray h array item =
     (if item = NULL \<or> array = NULL then Some h
      else do {
        n \<leftarrow> jh_items h array;
        if jn_child n = NULL then jset h array (jn_child_update (\<lambda>_. item))
        else do { child \<leftarrow> last_loop h (jn_child n); suffix_object h child item }
      })"

definition cJSON_AddItemToObjectCS :: "'n jheap \<Rightarrow> addr \<Rightarrow> addr \<Rightarrow> addr \<Rightarrow> 'n jheap option" where
  "cJSON_AddItemToObjectCS h object string item =
     (if item = NULL \<or> string = NULL then Some h
      else do {
        h1 \<leftarrow> free_string_unless cJSON_StringIsConst jn_string item h;
        h2 \<leftarrow> jset h1 item (\<lambda>n. n\<lparr>jn_string := string, jn_type := jn_type n OR cJSON_StringIsConst\<rparr>);
        cJSON_AddItemToArray h2 object item
      })"

definition cJSON_AddItemToObject :: "'n jheap \<Rightarrow> addr \<Rightarrow> addr \<Rightarrow> addr \<Rightarrow> 'n jheap option" where
  "cJSON_AddItemToObject h object string item =
     (if item = NULL then Some h
      else do {
        (h1, copy) \<leftarrow> cJSON_strdup h string;
        h2 \<leftarrow> cJSON_AddItemToObjectCS h1 object copy item;
        jset h2 item (\<lambda>n. n\<lparr>jn_type := jn_type n AND NOT cJSON_StringIsConst\<rparr>)
      })"

definition cJSON_AddItemReferenceToArray :: "'n numconv \<Rightarrow> 'n jheap \<Rightarrow> addr \<Rightarrow> addr \<Rightarrow> 'n jheap option" where
  "cJSON_AddItemReferenceToArray nc h array item =
     (if array = NULL then Some h else do { (h1, r) \<leftarrow> create_reference nc h item; cJSON_AddItemToArray h1 array r })"

definition cJSON_AddItemReferenceToObject :: "'n numconv \<Rightarrow> 'n jheap \<Rightarrow> addr \<Rightarrow> addr \<Rightarrow> addr \<Rightarrow> 'n jheap option" where
  "cJSON_AddItemReferenceToObject nc h object string item =
     (if object = NULL \<or> string = NULL then Some h else do { (h1, r) \<leftarrow> create_reference nc h item; cJSON_AddItemToObject h1 object string r })"

section \<open>Removing, inserting and replacing children\<close>

definition cJSON_DetachItemViaPointer :: "'n jheap \<Rightarrow> addr \<Rightarrow> addr \<Rightarrow> ('n jheap \<times> addr) option" where
  "cJSON_DetachItemViaPointer h parent item =
     (if parent = NULL \<or> item = NULL then Some (h, NULL)
      else do {
        n \<leftarrow> jh_items h item;
        h1 \<leftarrow> (if jn_prev n \<noteq> NULL then jset h (jn_prev n) (jn_next_update (\<lambda>_. jn_next n)) else Some h);
        n1 \<leftarrow> jh_items h1 item;
        h2 \<leftarrow> (if jn_next n1 \<noteq> NULL then jset h1 (jn_next n1) (jn_prev_update (\<lambda>_. jn_prev n1)) else Some h1);
        p \<leftarrow> jh_items h2 parent;
        n2 \<leftarrow> jh_items h2 item;
        h3 \<leftarrow> (if item = jn_child p then jset h2 parent (jn_child_update (\<lambda>_. jn_next n2)) else Some h2);
        h4 \<leftarrow> jset h3 item (\<lambda>n. n\<lparr>jn_prev := NULL, jn_next := NULL\<rparr>);
        Some (h4, item)
      })"

definition cJSON_DetachItemFromArray :: "'n jheap \<Rightarrow> addr \<Rightarrow> int \<Rightarrow> ('n jheap \<times> addr) option" where
  "cJSON_DetachItemFromArray h array which =
     (if which < 0 then Some (h, NULL) else do { item \<leftarrow> get_array_item h array (nat which); cJSON_DetachItemViaPointer h array item })"

definition cJSON_DeleteItemFromArray :: "'n jheap \<Rightarrow> addr \<Rightarrow> int \<Rightarrow> 'n jheap option" where
  "cJSON_DeleteItemFromArray h array which = do { (h1, item) \<leftarrow> cJSON_DetachItemFromArray h array which; cJSON_Delete h1 item }"

definition detach_from_object :: "'n jheap \<Rightarrow> addr \<Rightarrow> addr \<Rightarrow> bool \<Rightarrow> ('n jheap \<times> addr) option" where
  "detach_from_object h object string case_sensitive = do {
     to_detach \<leftarrow> get_object_item h object string case_sensitive;
     cJSON_DetachItemViaPointer h object to_detach
   }"

definition delete_from_object :: "'n jheap \<Rightarrow> addr \<Rightarrow> addr \<Rightarrow> bool \<Rightarrow> 'n jheap option" where
  "delete_from_object h object string case_sensitive = do { (h1, item) \<leftarrow> detach_from_object h object string case_sensitive; cJSON_Delete h1 item }"

definition cJSON_InsertItemInArray :: "'n jheap \<Rightarrow> addr \<Rightarrow> int \<Rightarrow> addr \<Rightarrow> 'n jheap option" where
  "cJSON_InsertItemInArray h array which newitem =
     (if which < 0 then Some h
      else do {
        after_inserted \<leftarrow> get_array_item h array (nat which);
        if after_inserted = NULL then cJSON_AddItemToArray h array newitem
        else do {
          h1 \<leftarrow> jset h newitem (jn_next_update (\<lambda>_. after_inserted));
          a \<leftarrow> jh_items h1 after_inserted;
          h2 \<leftarrow> jset h1 newitem (jn_prev_update (\<lambda>_. jn_prev a));
          h3 \<leftarrow> jset h2 after_inserted (jn_prev_update (\<lambda>_. newitem));
          p \<leftarrow> jh_items h3 array;
          if after_inserted = jn_child p then jset h3 array (jn_child_update (\<lambda>_. newitem))
          else do { n \<leftarrow> jh_items h3 newitem; jset h3 (jn_prev n) (jn_next_update (\<lambda>_. newitem)) }
        }
      })"

definition cJSON_ReplaceItemViaPointer :: "'n jheap \<Rightarrow> addr \<Rightarrow> addr \<Rightarrow> addr \<Rightarrow> ('n jheap \<times> bool) option" where
  "cJSON_ReplaceItemViaPointer h parent item replacement =
     (if parent = NULL \<or> replacement = NULL \<or> item = NULL then Some (h, False)
      else if replacement = item then Some (h, True)
      else do {
        n \<leftarrow> jh_items h item;
        h1 \<leftarrow> jset h replacement (\<lambda>r. r\<lparr>jn_next := jn_next n, jn_prev := jn_prev n\<rparr>);
        r \<leftarrow> jh_items h1 replacement;
        h2 \<leftarrow> (if jn_next r \<noteq> NULL then jset h1 (jn_next r) (jn_prev_update (\<lambda>_. replacement)) else Some h1);
        r2 \<leftarrow> jh_items h2 replacement;
        h3 \<leftarrow> (if jn_prev r2 \<noteq> NULL then jset h2 (jn_prev r2) (jn_next_update (\<lambda>_. replacement)) else Some h2);
        p \<leftarrow> jh_items h3 parent;
        h4 \<leftarrow> (if jn_child p = item then jset h3 parent (jn_child_update (\<lambda>_. replacement)) else Some h3);
        h5 \<leftarrow> jset h4 item (\<lambda>n. n\<lparr>jn_next := NULL, jn_prev := NULL\<rparr>);
        h6 \<leftarrow> cJSON_Delete h5 item;
        Some (h6, True)
      })"

definition cJSON_ReplaceItemInArray :: "'n jheap \<Rightarrow> addr \<Rightarrow> int \<Rightarrow> addr \<Rightarrow> 'n jheap option" where
  "cJSON_ReplaceItemInArray h array which newitem =
     (if which < 0 then Some h
      else do { item \<leftarrow> get_array_item h array (nat which); (h1, _) \<leftarrow> cJSON_ReplaceItemViaPointer h array item newitem; Some h1 })"

definition replace_item_in_object :: "'n jheap \<Rightarrow> addr \<Rightarrow> addr \<Rightarrow> addr \<Rightarrow> bool \<Rightarrow> ('n jheap \<times> bool) option" where
  "replace_item_in_object h object string replacement case_sensitive =
     (if replacement = NULL \<or> string = NULL then Some (h, False)
      else do {
        h1 \<leftarrow> free_string_unless cJSON_StringIsConst jn_string replacement h;
        (h2, copy) \<leftarrow> cJSON_strdup h1 string;
        h3 \<leftarrow> jset h2 replacement (\<lambda>n. n\<lparr>jn_string := copy, jn_type := jn_type n AND NOT cJSON_StringIsConst\<rparr>);
        item \<leftarrow> get_object_item h3 object string case_sensitive;
        (h4, _) \<leftarrow> cJSON_ReplaceItemViaPointer h3 object item replacement;
        Some (h4, True)
      })"

end
