(* ===== verification/Cjson_Chain.thy ===== *)
theory Cjson_Chain
  imports Cjson_Heap
begin

unbundle bit_operations_syntax

text \<open>
  The chain of the children of an item: what adding, inserting, detaching and replacing do to the list of the children, and deleting a tree of items.
\<close>

section \<open>Chains\<close>

text \<open>\<open>chain N pv a xs z\<close>: from \<open>a\<close> the links lead through \<open>xs\<close> to \<open>z\<close>; the node before is \<open>pv\<close>.\<close>

fun chain :: "(addr \<Rightarrow> 'n jnode option) \<Rightarrow> addr \<Rightarrow> addr \<Rightarrow> addr list \<Rightarrow> addr \<Rightarrow> bool" where
  "chain N pv a [] z \<longleftrightarrow> a = z"
| "chain N pv a (x # xs) z \<longleftrightarrow> a = x \<and> x \<noteq> NULL \<and> (\<exists>n. N x = Some n \<and> jn_prev n = pv \<and> chain N x (jn_next n) xs z)"

text \<open>The last node of a chain, or the node before it when it is empty.\<close>

definition chain_end :: "addr \<Rightarrow> addr list \<Rightarrow> addr" where
  "chain_end pv xs = (if xs = [] then pv else last xs)"

lemma chain_end_simps [simp]: "chain_end pv [] = pv" "chain_end pv (x # xs) = chain_end x xs" "chain_end pv (xs @ [y]) = y"
  by (simp_all add: chain_end_def)

text \<open>Chains as other chains see them: the links of a node.\<close>

definition links :: "(addr \<Rightarrow> 'n jnode option) \<Rightarrow> addr \<Rightarrow> (addr \<times> addr) option" where
  "links N a = map_option (\<lambda>n. (jn_prev n, jn_next n)) (N a)"

lemma chain_cons: "chain N pv a (x # xs) z \<longleftrightarrow> a = x \<and> x \<noteq> NULL \<and> (\<exists>nx. links N x = Some (pv, nx) \<and> chain N x nx xs z)"
  by (auto simp: links_def)

declare chain.simps(2) [simp del]

lemma chain_cong: "(\<And>x. x \<in> set xs \<Longrightarrow> links N' x = links N x) \<Longrightarrow> chain N' pv a xs z = chain N pv a xs z"
  by (induction xs arbitrary: pv a) (auto simp: chain_cons)

lemma chain_append: "chain N pv a (xs @ ys) z \<longleftrightarrow> (\<exists>m. chain N pv a xs m \<and> chain N (chain_end pv xs) m ys z)"
  by (induction xs arbitrary: pv a) (auto simp: chain_cons)

lemma chain_first: "chain N pv a xs NULL \<Longrightarrow> a = (if xs = [] then NULL else hd xs) \<and> NULL \<notin> set xs"
  by (induction xs arbitrary: pv a) (auto simp: chain_cons)

lemma chain_alloc: "chain N pv a xs z \<Longrightarrow> x \<in> set xs \<Longrightarrow> N x \<noteq> None"
  by (induction xs arbitrary: pv a) (auto simp: chain_cons links_def)

lemma chain_nonnull: "chain N pv a xs z \<Longrightarrow> NULL \<notin> set xs"
  by (induction xs arbitrary: pv a) (auto simp: chain_cons)

text \<open>Redirecting the link at the end of a chain, and the link back at its beginning.\<close>

lemma chain_redirect:
  assumes "chain N pv a xs m" and "xs \<noteq> []" and "distinct xs" and "links N' (last xs) = map_option (\<lambda>(p, _). (p, z)) (links N (last xs))"
    and "\<And>x. x \<in> set xs \<Longrightarrow> x \<noteq> last xs \<Longrightarrow> links N' x = links N x"
  shows "chain N' pv a xs z"
proof -
  obtain ys y where xs: "xs = ys @ [y]" using assms(2) by (cases xs rule: rev_cases) auto
  then obtain u where u: "chain N pv a ys u" "chain N (chain_end pv ys) u [y] m" using assms(1) by (auto simp: chain_append)
  have "chain N' pv a ys u" using u(1) chain_cong [of ys N' N] assms(3,5) xs by auto
  moreover have "chain N' (chain_end pv ys) u [y] z" using u(2) assms(4) xs by (auto simp: chain_cons)
  ultimately show ?thesis unfolding xs chain_append by blast
qed

lemma chain_back:
  assumes "chain N pv a xs z" and "xs \<noteq> []" and "distinct xs" and "links N' (hd xs) = map_option (\<lambda>(_, n). (pv', n)) (links N (hd xs))"
    and "\<And>x. x \<in> set xs \<Longrightarrow> x \<noteq> hd xs \<Longrightarrow> links N' x = links N x"
  shows "chain N' pv' a xs z"
proof -
  obtain y ys where xs: "xs = y # ys" using assms(2) by (cases xs) auto
  obtain u where u: "a = y" "y \<noteq> NULL" "links N y = Some (pv, u)" "chain N y u ys z" using assms(1) xs by (auto simp: chain_cons)
  have "chain N' y u ys z = chain N y u ys z" by (rule chain_cong) (use assms(3,5) xs in auto)
  then show ?thesis using u assms(4) xs by (auto simp: chain_cons)
qed

text \<open>Putting two chains together.\<close>

lemma chain_glue:
  assumes "chain N pv a ys m" and "chain N q b zs z" and "distinct (ys @ zs)"
    and "ys \<noteq> [] \<Longrightarrow> links N' (last ys) = map_option (\<lambda>(p, _). (p, b)) (links N (last ys))"
    and "zs \<noteq> [] \<Longrightarrow> links N' (hd zs) = map_option (\<lambda>(_, n). (chain_end pv ys, n)) (links N (hd zs))"
    and "\<And>x. x \<in> set ys \<Longrightarrow> x \<noteq> last ys \<Longrightarrow> links N' x = links N x" and "\<And>x. x \<in> set zs \<Longrightarrow> x \<noteq> hd zs \<Longrightarrow> links N' x = links N x"
  shows "chain N' pv (if ys = [] then b else a) (ys @ zs) z"
proof -
  have Y: "chain N' pv (if ys = [] then b else a) ys b"
  proof (cases "ys = []")
    case False
    then show ?thesis using chain_redirect [OF assms(1) False _ assms(4) [OF False] assms(6)] assms(3) by simp
  qed simp
  have Z: "chain N' (chain_end pv ys) b zs z"
  proof (cases "zs = []")
    case True
    then show ?thesis using assms(2) by simp
  next
    case False
    then show ?thesis using chain_back [OF assms(2) False _ assms(5) [OF False] assms(7)] assms(3) by simp
  qed
  show ?thesis unfolding chain_append using Y Z by blast
qed

section \<open>Children\<close>

text \<open>
  What an item is apart from its place; nothing else of any item has changed, except for the first child of \<open>p\<close>.
\<close>

definition payload :: "'n jnode \<Rightarrow> 'n jnode" where
  "payload n = n\<lparr>jn_next := NULL, jn_prev := NULL\<rparr>"

definition same_but :: "addr \<Rightarrow> (addr \<Rightarrow> 'n jnode option) \<Rightarrow> (addr \<Rightarrow> 'n jnode option) \<Rightarrow> bool" where
  "same_but p N N' \<longleftrightarrow> (\<forall>a. a \<noteq> p \<longrightarrow> map_option payload (N' a) = map_option payload (N a)) \<and>
     map_option (\<lambda>n. payload (n\<lparr>jn_child := NULL\<rparr>)) (N' p) = map_option (\<lambda>n. payload (n\<lparr>jn_child := NULL\<rparr>)) (N p)"

definition same_out :: "addr set \<Rightarrow> (addr \<Rightarrow> 'n jnode option) \<Rightarrow> (addr \<Rightarrow> 'n jnode option) \<Rightarrow> bool" where
  "same_out A N N' \<longleftrightarrow> (\<forall>a. a \<notin> A \<longrightarrow> N' a = N a)"

lemma same_but_refl: "same_but p N N"
  by (simp add: same_but_def)

lemma same_but_trans: "same_but p N N' \<Longrightarrow> same_but p N' N'' \<Longrightarrow> same_but p N N''"
  by (simp add: same_but_def)

lemma same_but_upd:
  assumes "same_but p M N" and "N a = Some n" and "payload n' = payload n \<or> a = p \<and> payload (n'\<lparr>jn_child := NULL\<rparr>) = payload (n\<lparr>jn_child := NULL\<rparr>)"
  shows "same_but p M (N(a \<mapsto> n'))"
proof -
  have "payload (n'\<lparr>jn_child := NULL\<rparr>) = payload (n\<lparr>jn_child := NULL\<rparr>)" if "payload n' = payload n"
    using arg_cong [OF that, of "jn_child_update (\<lambda>_. NULL)"] by (cases n; cases n') (simp add: payload_def)
  then show ?thesis using assms by (auto simp: same_but_def)
qed

lemma payload_simps [simp]: "payload (jn_next_update f n) = payload n" "payload (jn_prev_update g n) = payload n"
  by (cases n; simp add: payload_def)+

lemma links_upd [simp]: "links (N(a \<mapsto> n)) = (links N)(a \<mapsto> (jn_prev n, jn_next n))"
  by (rule ext) (simp add: links_def)

lemma links_SomeD: "links N a = Some (p, q) \<Longrightarrow> \<exists>n. N a = Some n \<and> jn_prev n = p \<and> jn_next n = q"
  by (auto simp: links_def)

definition children :: "'n jheap \<Rightarrow> addr \<Rightarrow> addr list \<Rightarrow> bool" where
  "children h p xs \<longleftrightarrow> p \<noteq> NULL \<and> distinct (p # xs) \<and> (\<exists>n. jh_items h p = Some n \<and> chain (jh_items h) NULL (jn_child n) xs NULL)"

lemma jset_Some: "jh_items h a = Some n \<Longrightarrow> jset h a f = Some (h\<lparr>jh_items := (jh_items h)(a \<mapsto> f n)\<rparr>)"
  by (simp add: jset_def)

lemma item_loop_chain:
  "chain (jh_items h) pv a xs NULL \<Longrightarrow> item_loop h a k = Some (if k < length xs then xs ! k else NULL)"
proof (induction xs arbitrary: pv a k)
  case Nil
  then show ?case by (simp add: item_loop.simps)
next
  case (Cons x xs)
  then obtain n where n: "a = x" "x \<noteq> NULL" "jh_items h x = Some n" "chain (jh_items h) x (jn_next n) xs NULL" by (auto simp: chain.simps(2))
  show ?case
  proof (cases k)
    case 0
    then show ?thesis using n by (simp add: item_loop.simps)
  next
    case (Suc j)
    then show ?thesis using n Cons.IH [OF n(4), of j] by (subst item_loop.simps) simp
  qed
qed

lemma size_loop_chain: "chain (jh_items h) pv a xs NULL \<Longrightarrow> size_loop h a k = Some (k + length xs)"
proof (induction xs arbitrary: pv a k)
  case Nil
  then show ?case by (simp add: size_loop.simps)
next
  case (Cons x xs)
  then obtain n where n: "a = x" "x \<noteq> NULL" "jh_items h x = Some n" "chain (jh_items h) x (jn_next n) xs NULL" by (auto simp: chain.simps(2))
  then show ?case using Cons.IH [OF n(4), of "k + 1"] by (subst size_loop.simps) simp
qed

lemma last_loop_chain: "chain (jh_items h) pv a xs NULL \<Longrightarrow> xs \<noteq> [] \<Longrightarrow> last_loop h a = Some (last xs)"
proof (induction xs arbitrary: pv a)
  case (Cons x xs)
  then obtain n where n: "a = x" "x \<noteq> NULL" "jh_items h x = Some n" "chain (jh_items h) x (jn_next n) xs NULL" by (auto simp: chain.simps(2))
  show ?case
  proof (cases "xs = []")
    case True
    then show ?thesis using n by (subst last_loop.simps) simp
  next
    case False
    then have "jn_next n \<noteq> NULL" using n(4) by (cases xs) (auto simp: chain_cons)
    then show ?thesis using n Cons.IH [OF n(4) False] False by (subst last_loop.simps) simp
  qed
qed simp

lemma children_reads:
  assumes "children h p xs"
  shows "get_array_item h p k = Some (if k < length xs then xs ! k else NULL)" and "cJSON_GetArraySize h p = Some (sint (of_nat (length xs) :: u32))"
proof -
  obtain n where n: "p \<noteq> NULL" "jh_items h p = Some n" "chain (jh_items h) NULL (jn_child n) xs NULL" using assms by (auto simp: children_def)
  show "get_array_item h p k = Some (if k < length xs then xs ! k else NULL)" using n item_loop_chain [OF n(3)] by (simp add: get_array_item_def)
  show "cJSON_GetArraySize h p = Some (sint (of_nat (length xs) :: u32))" using n size_loop_chain [OF n(3), of 0] by (simp add: cJSON_GetArraySize_def)
qed

text \<open>The parts of a chain around one child.\<close>

lemma children_split:
  assumes "children h p (ys @ x # zs)"
  shows "\<exists>n nx. jh_items h p = Some n \<and> p \<noteq> NULL \<and> x \<noteq> NULL \<and> distinct (p # ys @ x # zs) \<and> chain (jh_items h) NULL (jn_child n) ys x \<and>
    links (jh_items h) x = Some (chain_end NULL ys, nx) \<and> chain (jh_items h) x nx zs NULL \<and> (ys = [] \<longleftrightarrow> jn_child n = x) \<and> NULL \<notin> set (ys @ zs) \<and>
    (ys = [] \<longleftrightarrow> chain_end NULL ys = NULL) \<and> nx = (if zs = [] then NULL else hd zs)"
proof -
  obtain n where n: "p \<noteq> NULL" "distinct (p # ys @ x # zs)" "jh_items h p = Some n" "chain (jh_items h) NULL (jn_child n) (ys @ x # zs) NULL"
    using assms by (auto simp: children_def)
  then obtain nx where c: "chain (jh_items h) NULL (jn_child n) ys x" "x \<noteq> NULL" "links (jh_items h) x = Some (chain_end NULL ys, nx)" "chain (jh_items h) x nx zs NULL"
    by (auto simp: chain_append chain_cons)
  have "NULL \<notin> set (ys @ x # zs)" using chain_nonnull [OF n(4)] .
  moreover have "ys = [] \<longleftrightarrow> jn_child n = x" using c(1) n(2) by (cases ys) (auto simp: chain_cons)
  moreover have "ys = [] \<longleftrightarrow> chain_end NULL ys = NULL" using calculation(1) by (cases ys rule: rev_cases) auto
  moreover have "nx = (if zs = [] then NULL else hd zs)" using chain_first [OF c(4)] by simp
  ultimately show ?thesis using n c by auto
qed

text \<open>An item that is in no chain.\<close>

definition loose :: "'n jheap \<Rightarrow> addr \<Rightarrow> bool" where
  "loose h a \<longleftrightarrow> links (jh_items h) a = Some (NULL, NULL)"

lemma childrenI:
  assumes "p \<noteq> NULL" and "distinct (p # xs)" and "N p = Some n" and "chain N NULL (jn_child n) xs NULL"
  shows "children (h\<lparr>jh_items := N\<rparr>) p xs"
  using assms by (auto simp: children_def)

lemma add_children:
  assumes "children h p xs" and "item \<notin> set (p # xs)" and "item \<noteq> NULL" and "loose h item"
  shows "\<exists>N. cJSON_AddItemToArray h p item = Some (h\<lparr>jh_items := N\<rparr>) \<and> children (h\<lparr>jh_items := N\<rparr>) p (xs @ [item]) \<and> same_but p (jh_items h) N \<and>
    same_out (set (p # xs @ [item])) (jh_items h) N \<and> links N p = links (jh_items h) p"
proof -
  obtain n where n: "p \<noteq> NULL" "distinct (p # xs)" "jh_items h p = Some n" "chain (jh_items h) NULL (jn_child n) xs NULL" using assms(1) by (auto simp: children_def)
  obtain i where i: "jh_items h item = Some i" "jn_prev i = NULL" "jn_next i = NULL" using assms(4) links_SomeD [of "jh_items h" item NULL NULL] by (auto simp: loose_def)
  have ci: "chain (jh_items h) NULL item [item] NULL" using assms(3) i by (simp add: chain_cons links_def)
  show ?thesis
  proof (cases "xs = []")
    case True
    let ?N = "(jh_items h)(p \<mapsto> n\<lparr>jn_child := item\<rparr>)"
    have "cJSON_AddItemToArray h p item = Some (h\<lparr>jh_items := ?N\<rparr>)" using n True assms(3) by (simp add: cJSON_AddItemToArray_def jset_Some)
    moreover have "children (h\<lparr>jh_items := ?N\<rparr>) p [item]" by (rule childrenI) (use n(1) assms(2,3) i in \<open>auto simp: chain_cons links_def\<close>)
    moreover have "same_but p (jh_items h) ?N" by (rule same_but_upd, rule same_but_refl, rule n(3)) (simp add: payload_def)
    moreover have "same_out (set (p # xs @ [item])) (jh_items h) ?N" by (simp add: same_out_def)
    moreover have "links ?N p = links (jh_items h) p" using n(3) by (simp add: links_def)
    ultimately show ?thesis using True by auto
  next
    case False
    define y where "y = last xs"
    have y: "y \<in> set xs" "y \<noteq> item" "y \<noteq> p" using False assms(2) n(2) by (auto simp: y_def)
    obtain b where b: "jh_items h y = Some b" using chain_alloc [OF n(4) y(1)] by auto
    let ?N = "(jh_items h)(y \<mapsto> b\<lparr>jn_next := item\<rparr>, item \<mapsto> i\<lparr>jn_prev := y\<rparr>)"
    have c0: "jn_child n \<noteq> NULL" using chain_first [OF n(4)] False by (metis list.set_sel(1))
    have "cJSON_AddItemToArray h p item = Some (h\<lparr>jh_items := ?N\<rparr>)"
      using n c0 assms(3) last_loop_chain [OF n(4) False] b i(1) y(2)
      by (simp add: cJSON_AddItemToArray_def suffix_object_def jset_Some y_def [symmetric] del: fun_upd_apply) (simp add: jset_Some)
    moreover have "chain ?N NULL (if xs = [] then item else jn_child n) (xs @ [item]) NULL"
      by (rule chain_glue [OF n(4) ci]) (use n(2) assms(2) b i y y_def in \<open>auto simp: links_def chain_end_def\<close>)
    then have "children (h\<lparr>jh_items := ?N\<rparr>) p (xs @ [item])" by (intro childrenI [of _ _ _ n]) (use n False assms(2) y(3) in auto)
    moreover have "same_but p (jh_items h) ?N" by (intro same_but_upd same_but_refl) (use b i y in auto)
    moreover have "same_out (set (p # xs @ [item])) (jh_items h) ?N" using y(1) by (auto simp: same_out_def)
    moreover have "links ?N p = links (jh_items h) p" using y(3) assms(2) by (simp add: links_def)
    ultimately show ?thesis by blast
  qed
qed

lemma detach_children:
  assumes "children h p (ys @ x # zs)"
  shows "\<exists>N. cJSON_DetachItemViaPointer h p x = Some (h\<lparr>jh_items := N\<rparr>, x) \<and> children (h\<lparr>jh_items := N\<rparr>) p (ys @ zs) \<and> loose (h\<lparr>jh_items := N\<rparr>) x \<and>
    same_but p (jh_items h) N \<and> same_out (set (p # ys @ x # zs)) (jh_items h) N"
proof -
  let ?N = "jh_items h" and ?pv = "chain_end NULL ys"
  from children_split [OF assms] obtain n nx where c: "?N p = Some n" "p \<noteq> NULL" "x \<noteq> NULL" "distinct (p # ys @ x # zs)" "chain ?N NULL (jn_child n) ys x"
      "links ?N x = Some (?pv, nx)" "chain ?N x nx zs NULL" "ys = [] \<longleftrightarrow> jn_child n = x" "NULL \<notin> set (ys @ zs)" "ys = [] \<longleftrightarrow> ?pv = NULL"
      "nx = (if zs = [] then NULL else hd zs)"
    by (elim exE conjE) (rule that)
  obtain i where i: "?N x = Some i" "jn_prev i = ?pv" "jn_next i = nx" using links_SomeD [OF c(6)] by blast
  have pv: "?pv \<in> set ys" "?pv = last ys" "?pv \<noteq> x" "?pv \<noteq> p" if "ys \<noteq> []"
  proof -
    show l: "?pv = last ys" using that by (simp add: chain_end_def)
    show m: "?pv \<in> set ys" unfolding l using that by simp
    show "?pv \<noteq> x" "?pv \<noteq> p" using m c(4) by auto
  qed
  have nxz: "nx \<in> set zs" "nx = hd zs" "nx \<noteq> x" "nx \<noteq> p" "nx \<noteq> NULL" "nx \<noteq> ?pv" if "zs \<noteq> []"
  proof -
    show m: "nx \<in> set zs" "nx = hd zs" using that c(11) by simp_all
    show "nx \<noteq> x" "nx \<noteq> p" "nx \<noteq> NULL" using m(1) c(4,9) by auto
    have "nx \<notin> set ys" using m(1) c(4) by auto
    then show "nx \<noteq> ?pv" using pv(1) c(10) \<open>nx \<noteq> NULL\<close> by metis
  qed
  define N1 where "N1 = (if ys = [] then ?N else ?N(?pv \<mapsto> (the (?N ?pv))\<lparr>jn_next := nx\<rparr>))"
  define N2 where "N2 = (if zs = [] then N1 else N1(nx \<mapsto> (the (N1 nx))\<lparr>jn_prev := ?pv\<rparr>))"
  define N3 where "N3 = (if ys = [] then N2(p \<mapsto> n\<lparr>jn_child := nx\<rparr>) else N2)"
  define N4 where "N4 = N3(x \<mapsto> i\<lparr>jn_prev := NULL, jn_next := NULL\<rparr>)"
  have al: "?N ?pv \<noteq> None" if "ys \<noteq> []" using chain_alloc [OF c(5) pv(1) [OF that]] .
  have al2: "?N nx \<noteq> None" if "zs \<noteq> []" using chain_alloc [OF c(7) nxz(1) [OF that]] .
  have v1: "N1 x = Some i" "N1 p = Some n" "zs \<noteq> [] \<Longrightarrow> N1 nx = ?N nx" using i(1) c(1) pv(3,4) nxz(6) by (auto simp: N1_def)
  have v2: "N2 x = Some i" "N2 p = Some n" using v1(1,2) nxz(3,4) by (auto simp: N2_def)
  have v3: "N3 x = Some i" using v2 c(4) by (auto simp: N3_def)
  have s1: "(if jn_prev i \<noteq> NULL then jset h (jn_prev i) (jn_next_update (\<lambda>_. jn_next i)) else Some h) = Some (h\<lparr>jh_items := N1\<rparr>)"
    using i(2,3) c(10) al by (auto simp: N1_def jset_def)
  have s2: "(if jn_next i \<noteq> NULL then jset (h\<lparr>jh_items := N1\<rparr>) (jn_next i) (jn_prev_update (\<lambda>_. jn_prev i)) else Some (h\<lparr>jh_items := N1\<rparr>)) = Some (h\<lparr>jh_items := N2\<rparr>)"
    using i(2,3) c(11) al2 nxz(5) v1(3) by (auto simp: N2_def jset_def)
  have s3: "(if x = jn_child n then jset (h\<lparr>jh_items := N2\<rparr>) p (jn_child_update (\<lambda>_. jn_next i)) else Some (h\<lparr>jh_items := N2\<rparr>)) = Some (h\<lparr>jh_items := N3\<rparr>)"
    using i(3) c(8) v2(2) by (auto simp: N3_def jset_def)
  have s4: "jset (h\<lparr>jh_items := N3\<rparr>) x (\<lambda>n. n\<lparr>jn_prev := NULL, jn_next := NULL\<rparr>) = Some (h\<lparr>jh_items := N4\<rparr>)"
    using v3 by (simp add: N4_def jset_def)
  have D: "cJSON_DetachItemViaPointer h p x = Some (h\<lparr>jh_items := N4\<rparr>, x)"
    unfolding cJSON_DetachItemViaPointer_def using c(2,3) i(1) v1(1) v2 s1 s2 s3 s4 by (simp del: not_None_eq)
  have l1: "links N1 a = (if ys \<noteq> [] \<and> a = ?pv then map_option (\<lambda>(q, _). (q, nx)) (links ?N a) else links ?N a)" for a
    using al by (auto simp: N1_def links_def)
  have l2: "links N2 a = (if zs \<noteq> [] \<and> a = nx then map_option (\<lambda>(_, m). (?pv, m)) (links N1 a) else links N1 a)" for a
    using al2 v1(3) by (auto simp: N2_def links_def)
  have l4: "links N4 a = links N2 a" if "a \<noteq> x" for a using that v2(2) by (auto simp: N4_def N3_def links_def)
  have dz: "a \<noteq> x" "ys \<noteq> [] \<Longrightarrow> a \<noteq> ?pv" if "a \<in> set zs" for a using that c(4) pv(1) by auto
  have dy: "a \<noteq> x" "zs \<noteq> [] \<Longrightarrow> a \<noteq> nx" if "a \<in> set ys" for a using that c(4) nxz(1) by auto
  have G: "chain N4 NULL (if ys = [] then nx else jn_child n) (ys @ zs) NULL"
  proof (rule chain_glue [OF c(5,7)])
    show "distinct (ys @ zs)" using c(4) by simp
    show "links N4 (last ys) = map_option (\<lambda>(p, _). (p, nx)) (links ?N (last ys))" if "ys \<noteq> []"
    proof -
      have y: "last ys \<in> set ys" using that by simp
      have "links N2 (last ys) = links N1 (last ys)" using l2 [of "last ys"] dy(2) [OF y] by auto
      then show ?thesis using l4 [OF dy(1) [OF y]] l1 [of "last ys"] pv(2) [OF that] that by simp
    qed
    show "links N4 (hd zs) = map_option (\<lambda>(_, n). (?pv, n)) (links ?N (hd zs))" if "zs \<noteq> []"
    proof -
      have z: "hd zs \<in> set zs" using that by simp
      have "links N1 (hd zs) = links ?N (hd zs)" using l1 [of "hd zs"] dz(2) [OF z] by auto
      then show ?thesis using l4 [OF dz(1) [OF z]] l2 [of "hd zs"] nxz(2) [OF that] that by simp
    qed
    show "links N4 a = links ?N a" if "a \<in> set ys" "a \<noteq> last ys" for a using l4 [OF dy(1) [OF that(1)]] l2 [of a] l1 [of a] dy(2) [OF that(1)] pv(2) that by (auto split: if_splits)
    show "links N4 a = links ?N a" if "a \<in> set zs" "a \<noteq> hd zs" for a using l4 [OF dz(1) [OF that(1)]] l2 [of a] l1 [of a] dz(2) [OF that(1)] nxz(2) that by (auto split: if_splits)
  qed
  have p4: "N4 p = Some (if ys = [] then n\<lparr>jn_child := nx\<rparr> else n)" using c(4) v2(2) by (auto simp: N4_def N3_def)
  have "children (h\<lparr>jh_items := N4\<rparr>) p (ys @ zs)"
    by (rule childrenI, rule c(2), use c(4) in simp, rule p4) (use G in \<open>cases "ys = []"; simp\<close>)
  moreover have "loose (h\<lparr>jh_items := N4\<rparr>) x" by (simp add: loose_def N4_def links_def)
  moreover have "same_but p ?N N4"
  proof -
    have t1: "same_but p ?N N1"
    proof (cases "ys = []")
      case False
      then obtain b where b: "?N ?pv = Some b" using al by auto
      have "same_but p ?N (?N(?pv \<mapsto> b\<lparr>jn_next := nx\<rparr>))" by (rule same_but_upd [OF same_but_refl [of p ?N] b]) simp
      then show ?thesis using False b by (simp add: N1_def)
    qed (simp add: N1_def same_but_refl)
    have t2: "same_but p ?N N2"
    proof (cases "zs = []")
      case False
      then obtain b where b: "N1 nx = Some b" using al2 v1(3) by auto
      have "same_but p ?N (N1(nx \<mapsto> b\<lparr>jn_prev := ?pv\<rparr>))" by (rule same_but_upd [OF t1 b]) simp
      then show ?thesis using False b by (simp add: N2_def)
    qed (use t1 in \<open>simp add: N2_def\<close>)
    have "same_but p ?N (N2(p \<mapsto> n\<lparr>jn_child := nx\<rparr>))" by (rule same_but_upd [OF t2 v2(2)]) (simp add: payload_def)
    then have t3: "same_but p ?N N3" using t2 by (simp add: N3_def)
    show ?thesis unfolding N4_def by (rule same_but_upd [OF t3 v3]) simp
  qed
  moreover have "same_out (set (p # ys @ x # zs)) ?N N4" using pv(1) nxz(1) by (auto simp: same_out_def N4_def N3_def N2_def N1_def)
  ultimately show ?thesis using D by blast
qed

text \<open>The chain before a node is redirected to another one.\<close>

lemma chain_before:
  assumes "chain N pv a ys m" and "distinct ys" and "\<And>x. x \<in> set ys \<Longrightarrow> x \<noteq> chain_end pv ys \<Longrightarrow> links N' x = links N x"
    and "ys \<noteq> [] \<Longrightarrow> links N' (chain_end pv ys) = map_option (\<lambda>(p, _). (p, b)) (links N (chain_end pv ys))"
  shows "chain N' pv (if ys = [] then b else a) ys b"
proof (cases "ys = []")
  case False
  then have e: "chain_end pv ys = last ys" by (simp add: chain_end_def)
  show ?thesis using chain_redirect [OF assms(1) False assms(2) assms(4) [OF False, unfolded e]] assms(3) False unfolding e by simp
qed simp

lemma insert_children:
  assumes "children h p (ys @ x # zs)" and "new \<notin> set (p # ys @ x # zs)" and "new \<noteq> NULL" and "jh_items h new \<noteq> None"
  shows "\<exists>N. cJSON_InsertItemInArray h p (int (length ys)) new = Some (h\<lparr>jh_items := N\<rparr>) \<and> children (h\<lparr>jh_items := N\<rparr>) p (ys @ new # x # zs) \<and> same_but p (jh_items h) N \<and>
    same_out (set (p # ys @ new # x # zs)) (jh_items h) N"
proof -
  let ?N = "jh_items h" and ?pv = "chain_end NULL ys"
  from children_split [OF assms(1)] obtain n nx where c: "?N p = Some n" "p \<noteq> NULL" "x \<noteq> NULL" "distinct (p # ys @ x # zs)" "chain ?N NULL (jn_child n) ys x"
      "links ?N x = Some (?pv, nx)" "chain ?N x nx zs NULL" "ys = [] \<longleftrightarrow> jn_child n = x" "NULL \<notin> set (ys @ zs)" "ys = [] \<longleftrightarrow> ?pv = NULL"
      "nx = (if zs = [] then NULL else hd zs)"
    by (elim exE conjE) (rule that)
  obtain i where i: "?N x = Some i" "jn_prev i = ?pv" "jn_next i = nx" using links_SomeD [OF c(6)] by blast
  obtain w where w: "?N new = Some w" using assms(4) by auto
  have pv: "?pv \<noteq> x" "?pv \<noteq> p" "?pv \<noteq> new" "?N ?pv \<noteq> None" if "ys \<noteq> []"
  proof -
    have "?pv \<in> set ys" using that by (simp add: chain_end_def)
    then show "?pv \<noteq> x" "?pv \<noteq> p" "?pv \<noteq> new" "?N ?pv \<noteq> None" using c(4) assms(2) chain_alloc [OF c(5)] by auto
  qed
  have d: "x \<noteq> p" "new \<noteq> p" "new \<noteq> x" using c(4) assms(2) by auto
  define N3 where "N3 = ?N(new \<mapsto> w\<lparr>jn_next := x, jn_prev := ?pv\<rparr>, x \<mapsto> i\<lparr>jn_prev := new\<rparr>)"
  define N4 where "N4 = (if ys = [] then N3(p \<mapsto> n\<lparr>jn_child := new\<rparr>) else N3(?pv \<mapsto> (the (N3 ?pv))\<lparr>jn_next := new\<rparr>))"
  have p3: "N3 p = Some n" "ys \<noteq> [] \<Longrightarrow> N3 ?pv = ?N ?pv" using d c(1) pv by (auto simp: N3_def)
  have g: "get_array_item h p (length ys) = Some x" using children_reads(1) [OF assms(1), of "length ys"] by simp
  have "cJSON_InsertItemInArray h p (int (length ys)) new = Some (h\<lparr>jh_items := N4\<rparr>)"
  proof -
    have s1: "jset h new (jn_next_update (\<lambda>_. x)) = Some (h\<lparr>jh_items := ?N(new \<mapsto> w\<lparr>jn_next := x\<rparr>)\<rparr>)" using w by (simp add: jset_Some)
    have s2: "jset (h\<lparr>jh_items := ?N(new \<mapsto> w\<lparr>jn_next := x\<rparr>)\<rparr>) new (jn_prev_update (\<lambda>_. jn_prev i)) = Some (h\<lparr>jh_items := ?N(new \<mapsto> w\<lparr>jn_next := x, jn_prev := ?pv\<rparr>)\<rparr>)"
      using i(2) by (simp add: jset_Some)
    have s3: "jset (h\<lparr>jh_items := ?N(new \<mapsto> w\<lparr>jn_next := x, jn_prev := ?pv\<rparr>)\<rparr>) x (jn_prev_update (\<lambda>_. new)) = Some (h\<lparr>jh_items := N3\<rparr>)"
      using i(1) d(3) by (simp add: jset_def N3_def)
    have s4: "(if x = jn_child n then jset (h\<lparr>jh_items := N3\<rparr>) p (jn_child_update (\<lambda>_. new)) else do { m \<leftarrow> N3 new; jset (h\<lparr>jh_items := N3\<rparr>) (jn_prev m) (jn_next_update (\<lambda>_. new)) }) =
        Some (h\<lparr>jh_items := N4\<rparr>)"
    proof (cases "ys = []")
      case True
      then show ?thesis using c(8) p3(1) by (simp add: N4_def jset_Some)
    next
      case False
      have "N3 new = Some (w\<lparr>jn_next := x, jn_prev := ?pv\<rparr>)" using d(3) by (simp add: N3_def)
      moreover obtain b where "N3 ?pv = Some b" using p3(2) [OF False] pv(4) [OF False] by auto
      moreover have "x \<noteq> jn_child n" using c(8) False by auto
      ultimately show ?thesis using False by (simp add: N4_def jset_Some)
    qed
    show ?thesis unfolding cJSON_InsertItemInArray_def
      using c(3) g s1 s2 s3 s4 i(1) d(3) p3(1) by (cases "x = jn_child n") simp_all
  qed
  moreover have "children (h\<lparr>jh_items := N4\<rparr>) p (ys @ new # x # zs)"
  proof -
    have l: "links N4 a = (if a = new then Some (?pv, x) else if a = x then Some (new, nx) else if ys \<noteq> [] \<and> a = ?pv then map_option (\<lambda>(q, _). (q, new)) (links ?N a) else links ?N a)" for a
      using d p3 pv i(3) c(1) by (auto simp: N4_def N3_def links_def)
    have "links N4 a = links ?N a" if "a \<in> set zs" for a
    proof -
      have "a \<noteq> new" "a \<noteq> x" "a \<notin> set ys" using that assms(2) c(4) by auto
      then show ?thesis using l [of a] by (auto simp: chain_end_def split: if_splits)
    qed
    then have z: "chain N4 x nx zs NULL" using c(7) chain_cong [of zs N4 ?N] by simp
    have "chain N4 new x (x # zs) NULL" using z l [of x] c(3) d(3) by (simp add: chain_cons)
    then have r: "chain N4 ?pv new (new # x # zs) NULL" using l [of new] assms(3) by (simp add: chain_cons)
    have y: "chain N4 NULL (if ys = [] then new else jn_child n) ys new"
    proof (rule chain_before [OF c(5)])
      show "distinct ys" using c(4) by simp
      show "links N4 a = links ?N a" if "a \<in> set ys" "a \<noteq> ?pv" for a
      proof -
        have "a \<noteq> new" "a \<noteq> x" using that assms(2) c(4) by auto
        then show ?thesis using l [of a] that(2) by simp
      qed
      show "links N4 ?pv = map_option (\<lambda>(p, _). (p, new)) (links ?N ?pv)" if "ys \<noteq> []" using l [of ?pv] pv(1,3) [OF that] that by simp
    qed
    have ch: "chain N4 NULL (if ys = [] then new else jn_child n) (ys @ new # x # zs) NULL" unfolding chain_append using y r by blast
    have p4: "N4 p = Some (if ys = [] then n\<lparr>jn_child := new\<rparr> else n)" using p3(1) pv(2) by (auto simp: N4_def)
    have dd: "distinct (p # ys @ new # x # zs)" using c(4) assms(2) by auto
    show ?thesis by (rule childrenI, rule c(2), rule dd, rule p4) (use ch in \<open>cases "ys = []"; simp\<close>)
  qed
  moreover have "same_but p ?N N4"
  proof -
    have t1: "same_but p ?N (?N(new \<mapsto> w\<lparr>jn_next := x, jn_prev := ?pv\<rparr>))" by (rule same_but_upd [OF same_but_refl [of p ?N] w]) simp
    have t3: "same_but p ?N N3" unfolding N3_def by (rule same_but_upd [OF t1, of x i]) (use i(1) d(3) in simp_all)
    show ?thesis
    proof (cases "ys = []")
      case True
      have "same_but p ?N (N3(p \<mapsto> n\<lparr>jn_child := new\<rparr>))" by (rule same_but_upd [OF t3 p3(1)]) (simp add: payload_def)
      then show ?thesis using True by (simp add: N4_def)
    next
      case False
      then obtain b where b: "N3 ?pv = Some b" using p3(2) pv(4) by auto
      have "same_but p ?N (N3(?pv \<mapsto> b\<lparr>jn_next := new\<rparr>))" by (rule same_but_upd [OF t3 b]) simp
      then show ?thesis using False b by (simp add: N4_def)
    qed
  qed
  moreover have "same_out (set (p # ys @ new # x # zs)) ?N N4"
  proof -
    have "?pv \<in> set ys" if "ys \<noteq> []" using that by (simp add: chain_end_def)
    then show ?thesis by (auto simp: same_out_def N4_def N3_def)
  qed
  ultimately show ?thesis by blast
qed

text \<open>Replacing, up to the deletion of the old item.\<close>

lemma replace_children:
  assumes "children h p (ys @ x # zs)" and "r \<notin> set (p # ys @ x # zs)" and "r \<noteq> NULL" and "jh_items h r \<noteq> None"
  shows "\<exists>N. cJSON_ReplaceItemViaPointer h p x r = map_option (\<lambda>h6. (h6, True)) (cJSON_Delete (h\<lparr>jh_items := N\<rparr>) x) \<and>
    children (h\<lparr>jh_items := N\<rparr>) p (ys @ r # zs) \<and> loose (h\<lparr>jh_items := N\<rparr>) x \<and> same_but p (jh_items h) N"
proof -
  let ?N = "jh_items h" and ?pv = "chain_end NULL ys"
  from children_split [OF assms(1)] obtain n nx where c: "?N p = Some n" "p \<noteq> NULL" "x \<noteq> NULL" "distinct (p # ys @ x # zs)" "chain ?N NULL (jn_child n) ys x"
      "links ?N x = Some (?pv, nx)" "chain ?N x nx zs NULL" "ys = [] \<longleftrightarrow> jn_child n = x" "NULL \<notin> set (ys @ zs)" "ys = [] \<longleftrightarrow> ?pv = NULL"
      "nx = (if zs = [] then NULL else hd zs)"
    by (elim exE conjE) (rule that)
  obtain i where i: "?N x = Some i" "jn_prev i = ?pv" "jn_next i = nx" using links_SomeD [OF c(6)] by blast
  obtain w where w: "?N r = Some w" using assms(4) by auto
  have pv: "?pv \<noteq> x" "?pv \<noteq> p" "?pv \<noteq> r" "?pv \<notin> set zs" "?N ?pv \<noteq> None" if "ys \<noteq> []"
  proof -
    have "?pv \<in> set ys" using that by (simp add: chain_end_def)
    then show "?pv \<noteq> x" "?pv \<noteq> p" "?pv \<noteq> r" "?pv \<notin> set zs" "?N ?pv \<noteq> None" using c(4) assms(2) chain_alloc [OF c(5)] by auto
  qed
  have nxz: "nx \<in> set zs" "nx = hd zs" "nx \<noteq> x" "nx \<noteq> p" "nx \<noteq> NULL" "nx \<noteq> r" "?N nx \<noteq> None" if "zs \<noteq> []"
  proof -
    show m: "nx \<in> set zs" "nx = hd zs" using that c(11) by simp_all
    show "nx \<noteq> x" "nx \<noteq> p" "nx \<noteq> NULL" "nx \<noteq> r" "?N nx \<noteq> None" using m(1) c(4,9) assms(2) chain_alloc [OF c(7)] by auto
  qed
  have d: "x \<noteq> p" "r \<noteq> p" "r \<noteq> x" using c(4) assms(2) by auto
  define w' where "w' = w\<lparr>jn_next := nx, jn_prev := ?pv\<rparr>"
  have w': "jn_next w' = nx" "jn_prev w' = ?pv" "payload w' = payload w" by (simp_all add: w'_def)
  define N1 where "N1 = ?N(r \<mapsto> w')"
  define N2 where "N2 = (if zs = [] then N1 else N1(nx \<mapsto> (the (?N nx))\<lparr>jn_prev := r\<rparr>))"
  define N3 where "N3 = (if ys = [] then N2 else N2(?pv \<mapsto> (the (?N ?pv))\<lparr>jn_next := r\<rparr>))"
  define N4 where "N4 = (if ys = [] then N3(p \<mapsto> n\<lparr>jn_child := r\<rparr>) else N3)"
  define N5 where "N5 = N4(x \<mapsto> i\<lparr>jn_next := NULL, jn_prev := NULL\<rparr>)"
  have np: "ys \<noteq> [] \<Longrightarrow> zs \<noteq> [] \<Longrightarrow> ?pv \<noteq> nx" using pv(4) nxz(1) by blast
  have v1: "N1 r = Some w'" "zs \<noteq> [] \<Longrightarrow> N1 nx = ?N nx" using nxz(6) by (auto simp: N1_def)
  have v2: "N2 r = Some w'" "ys \<noteq> [] \<Longrightarrow> N2 ?pv = ?N ?pv" using v1 nxz(6) pv(3) np by (auto simp: N2_def N1_def)
  have v3: "N3 p = Some n" "N3 x = Some i" using d c(1) i(1) nxz(3,4) pv(1,2) by (auto simp: N3_def N2_def N1_def)
  have v4: "N4 x = Some i" using v3(2) d(1) by (simp add: N4_def)
  have s1: "jset h r (\<lambda>m. m\<lparr>jn_next := jn_next i, jn_prev := jn_prev i\<rparr>) = Some (h\<lparr>jh_items := N1\<rparr>)" using w i by (simp add: jset_Some N1_def w'_def)
  have s2: "(if jn_next w' \<noteq> NULL then jset (h\<lparr>jh_items := N1\<rparr>) (jn_next w') (jn_prev_update (\<lambda>_. r)) else Some (h\<lparr>jh_items := N1\<rparr>)) = Some (h\<lparr>jh_items := N2\<rparr>)"
    using c(11) nxz(5,7) v1(2) w' by (auto simp: N2_def jset_def)
  have s3: "(if jn_prev w' \<noteq> NULL then jset (h\<lparr>jh_items := N2\<rparr>) (jn_prev w') (jn_next_update (\<lambda>_. r)) else Some (h\<lparr>jh_items := N2\<rparr>)) = Some (h\<lparr>jh_items := N3\<rparr>)"
    using c(10) pv(5) v2(2) w' by (auto simp: N3_def jset_def)
  have s4: "(if jn_child n = x then jset (h\<lparr>jh_items := N3\<rparr>) p (jn_child_update (\<lambda>_. r)) else Some (h\<lparr>jh_items := N3\<rparr>)) = Some (h\<lparr>jh_items := N4\<rparr>)"
    using c(8) v3(1) by (auto simp: N4_def jset_def)
  have s5: "jset (h\<lparr>jh_items := N4\<rparr>) x (\<lambda>n. n\<lparr>jn_next := NULL, jn_prev := NULL\<rparr>) = Some (h\<lparr>jh_items := N5\<rparr>)" using v4 by (simp add: N5_def jset_def)
  have "cJSON_ReplaceItemViaPointer h p x r = do { h6 \<leftarrow> cJSON_Delete (h\<lparr>jh_items := N5\<rparr>) x; Some (h6, True) }"
  proof -
    have e: "jh_items (h\<lparr>jh_items := M\<rparr>) = M" for M by simp
    have nn: "(p = NULL \<or> r = NULL \<or> x = NULL) = False" "(r = x) = False" using c(2,3) assms(3) d(3) by auto
    show ?thesis unfolding cJSON_ReplaceItemViaPointer_def
      by (simp only: nn i(1) s1 e v1(1) s2 v2(1) s3 v3(1) s4 s5 bind.bind_lunit if_False)
  qed
  moreover have "\<dots> = map_option (\<lambda>h6. (h6, True)) (cJSON_Delete (h\<lparr>jh_items := N5\<rparr>) x)" by (cases "cJSON_Delete (h\<lparr>jh_items := N5\<rparr>) x") simp_all
  moreover have "children (h\<lparr>jh_items := N5\<rparr>) p (ys @ r # zs)"
  proof -
    have l: "links N5 a = (if a = x then Some (NULL, NULL) else if ys \<noteq> [] \<and> a = ?pv then map_option (\<lambda>(q, _). (q, r)) (links ?N a)
        else if zs \<noteq> [] \<and> a = nx then map_option (\<lambda>(_, q). (r, q)) (links ?N a) else if a = r then Some (?pv, nx) else links ?N a)" for a
      using d pv(1,2,5) nxz(3,4,7) c(1) np w' by (auto simp: N5_def N4_def N3_def N2_def N1_def links_def)
    have z: "chain N5 r nx zs NULL"
    proof (cases "zs = []")
      case False
      have zz: "a \<noteq> x" "a \<noteq> r" "ys \<noteq> [] \<Longrightarrow> a \<noteq> ?pv" if "a \<in> set zs" for a using that c(4) assms(2) pv(4) by auto
      show ?thesis
      proof (rule chain_back [OF c(7) False])
        show "distinct zs" using c(4) by simp
        show "links N5 (hd zs) = map_option (\<lambda>(_, n). (r, n)) (links ?N (hd zs))"
          using l [of nx] zz [OF nxz(1) [OF False]] False nxz(2) [OF False] by (auto split: if_splits)
        show "links N5 a = links ?N a" if "a \<in> set zs" "a \<noteq> hd zs" for a using l [of a] zz [OF that(1)] that(2) nxz(2) [OF False] by (auto split: if_splits)
      qed
    qed (use c(11) in simp)
    have "links N5 r = Some (?pv, nx)" using l [of r] d(3) pv(3) nxz(6) by (auto split: if_splits)
    then have b: "chain N5 ?pv r (r # zs) NULL" using z assms(3) by (simp add: chain_cons)
    have y: "chain N5 NULL (if ys = [] then r else jn_child n) ys r"
    proof (rule chain_before [OF c(5)])
      show "distinct ys" using c(4) by simp
      show "links N5 a = links ?N a" if "a \<in> set ys" "a \<noteq> ?pv" for a
      proof -
        have "a \<noteq> x" "a \<noteq> r" "zs \<noteq> [] \<Longrightarrow> a \<noteq> nx" using that(1) c(4) assms(2) nxz(1) by auto
        then show ?thesis using l [of a] that(2) by (auto split: if_splits)
      qed
      show "links N5 ?pv = map_option (\<lambda>(p, _). (p, r)) (links ?N ?pv)" if "ys \<noteq> []" using l [of ?pv] pv(1) [OF that] that by simp
    qed
    have ch: "chain N5 NULL (if ys = [] then r else jn_child n) (ys @ r # zs) NULL" unfolding chain_append using y b by blast
    have p5: "N5 p = Some (if ys = [] then n\<lparr>jn_child := r\<rparr> else n)" using v3(1) d(1) by (simp add: N5_def N4_def)
    have dd: "distinct (p # ys @ r # zs)" using c(4) assms(2) by auto
    show ?thesis by (rule childrenI, rule c(2), rule dd, rule p5) (use ch in \<open>cases "ys = []"; simp\<close>)
  qed
  moreover have "loose (h\<lparr>jh_items := N5\<rparr>) x" by (simp add: loose_def N5_def)
  moreover have "same_but p ?N N5"
  proof -
    have t1: "same_but p ?N N1" unfolding N1_def by (rule same_but_upd [OF same_but_refl [of p ?N] w]) (simp add: w'(3))
    have t2: "same_but p ?N N2"
    proof (cases "zs = []")
      case False
      then obtain b where b: "?N nx = Some b" using nxz(7) by auto
      have "same_but p ?N (N1(nx \<mapsto> b\<lparr>jn_prev := r\<rparr>))" by (rule same_but_upd [OF t1, of nx b]) (use b v1(2) False in simp_all)
      then show ?thesis using False b by (simp add: N2_def)
    qed (use t1 in \<open>simp add: N2_def\<close>)
    have t3: "same_but p ?N N3"
    proof (cases "ys = []")
      case False
      then obtain b where b: "?N ?pv = Some b" using pv(5) by auto
      have "same_but p ?N (N2(?pv \<mapsto> b\<lparr>jn_next := r\<rparr>))" by (rule same_but_upd [OF t2, of ?pv b]) (use b v2(2) False in simp_all)
      then show ?thesis using False b by (simp add: N3_def)
    qed (use t2 in \<open>simp add: N3_def\<close>)
    have "same_but p ?N (N3(p \<mapsto> n\<lparr>jn_child := r\<rparr>))" by (rule same_but_upd [OF t3 v3(1)]) (simp add: payload_def)
    then have t4: "same_but p ?N N4" using t3 by (simp add: N4_def)
    show ?thesis unfolding N5_def by (rule same_but_upd [OF t4 v4]) simp
  qed
  ultimately show ?thesis by metis
qed

end
