(* ===== verification/Cjson_Delete.thy ===== *)
theory Cjson_Delete
  imports Cjson_Chain
begin

unbundle bit_operations_syntax

text \<open>Trees of items in memory, and their deletion: exactly the items and strings that belong to the tree are given back, each of them once.\<close>

section \<open>Trees in memory\<close>

datatype jtree = JT (jt_root: addr) (jt_children: "jtree list")

fun jt_nodes :: "jtree \<Rightarrow> addr list" where
  "jt_nodes (JT a ts) = a # concat (map jt_nodes ts)"

text \<open>The strings an item owns.\<close>

definition own_strings :: "'n jnode \<Rightarrow> addr list" where
  "own_strings n = (if jn_type n AND cJSON_IsReference = 0 \<and> jn_valuestring n \<noteq> NULL then [jn_valuestring n] else []) @
     (if jn_type n AND cJSON_StringIsConst = 0 \<and> jn_string n \<noteq> NULL then [jn_string n] else [])"

fun jt_strings :: "(addr \<Rightarrow> 'n jnode option) \<Rightarrow> jtree \<Rightarrow> addr list" where
  "jt_strings N (JT a ts) = (case N a of None \<Rightarrow> [] | Some n \<Rightarrow> own_strings n) @ concat (map (jt_strings N) ts)"

text \<open>A reference does not own its children.\<close>

fun jt_in :: "(addr \<Rightarrow> 'n jnode option) \<Rightarrow> jtree \<Rightarrow> bool" where
  "jt_in N (JT a ts) \<longleftrightarrow> (\<exists>n. N a = Some n \<and>
     (if jn_type n AND cJSON_IsReference = 0 then chain N NULL (jn_child n) (map jt_root ts) NULL else ts = [])) \<and> (\<forall>t\<in>set ts. jt_in N t)"

definition forest :: "'n jheap \<Rightarrow> jtree list \<Rightarrow> bool" where
  "forest h ts \<longleftrightarrow> (\<forall>t\<in>set ts. jt_in (jh_items h) t) \<and> distinct (concat (map jt_nodes ts)) \<and>
     distinct (concat (map (jt_strings (jh_items h)) ts)) \<and> set (concat (map (jt_strings (jh_items h)) ts)) \<subseteq> dom (jh_strs h)"

lemma root_node: "jt_root t \<in> set (jt_nodes t)"
  by (cases t) simp

lemma links_cong: "N' x = N x \<Longrightarrow> links N' x = links N x"
  by (simp add: links_def)

lemma jt_cong:
  assumes "\<And>a. a \<in> set (jt_nodes t) \<Longrightarrow> N' a = N a"
  shows "jt_in N' t = jt_in N t" and "jt_strings N' t = jt_strings N t"
proof -
  have "jt_in N' t = jt_in N t \<and> jt_strings N' t = jt_strings N t" using assms
  proof (induction t)
    case (JT a ts)
    have e: "N' a = N a" using JT.prems by simp
    have i: "jt_in N' t = jt_in N t" "jt_strings N' t = jt_strings N t" if "t \<in> set ts" for t using JT.IH [OF that] JT.prems that by auto
    have "links N' x = links N x" if "x \<in> set (map jt_root ts)" for x using that JT.prems root_node by (intro links_cong) auto
    then have "chain N' NULL c (map jt_root ts) NULL = chain N NULL c (map jt_root ts) NULL" for c by (intro chain_cong)
    moreover have "map (jt_strings N') ts = map (jt_strings N) ts" using i(2) by simp
    ultimately show ?case using i(1) e by (simp del: map_eq_conv)
  qed
  then show "jt_in N' t = jt_in N t" "jt_strings N' t = jt_strings N t" by simp_all
qed

lemma forest_cong:
  assumes "forest h ts" and "\<And>a. a \<in> set (concat (map jt_nodes ts)) \<Longrightarrow> jh_items h' a = jh_items h a"
    and "set (concat (map (jt_strings (jh_items h)) ts)) \<subseteq> dom (jh_strs h')"
  shows "forest h' ts" and "map (jt_strings (jh_items h')) ts = map (jt_strings (jh_items h)) ts"
proof -
  have c: "jt_in (jh_items h') t = jt_in (jh_items h) t" "jt_strings (jh_items h') t = jt_strings (jh_items h) t" if "t \<in> set ts" for t
    using jt_cong [of t "jh_items h'" "jh_items h"] assms(2) that by auto
  then show m: "map (jt_strings (jh_items h')) ts = map (jt_strings (jh_items h)) ts" by simp
  show "forest h' ts" using assms(1,3) c(1) unfolding forest_def m by simp
qed

text \<open>The memory without some items and strings.\<close>

definition without :: "'n jheap \<Rightarrow> addr list \<Rightarrow> addr list \<Rightarrow> 'n jheap" where
  "without h as ss = h\<lparr>jh_items := (jh_items h) |` (- set as), jh_strs := (jh_strs h) |` (- set ss)\<rparr>"

lemma without_simps [simp]: "jh_items (without h as ss) = (jh_items h) |` (- set as)" "jh_strs (without h as ss) = (jh_strs h) |` (- set ss)"
    "jh_consts (without h as ss) = jh_consts h" "jh_malloc (without h as ss) = jh_malloc h"
  by (simp_all add: without_def)

lemma without_without: "without (without h as ss) bs us = without h (as @ bs) (ss @ us)"
  by (cases h) (simp add: without_def Int_commute)

lemma without_nil [simp]: "without h [] [] = h"
  by (cases h) (simp add: without_def restrict_map_def)

lemma without_cong: "set as = set bs \<Longrightarrow> set ss = set us \<Longrightarrow> without h as ss = without h bs us"
  by (simp add: without_def)

lemma free_item_without: "jh_items h a \<noteq> None \<Longrightarrow> free_item h a = Some (without h [a] [])"
  by (cases h) (auto simp: free_item_def without_def restrict_map_def)

lemma free_str_without: "jh_strs h s \<noteq> None \<Longrightarrow> free_str h s = Some (without h [] [s])"
  by (cases h) (auto simp: free_str_def without_def restrict_map_def)

section \<open>Deleting\<close>

lemma own_freed:
  assumes "jh_items h a = Some n" and "distinct (own_strings n)" and "set (own_strings n) \<subseteq> dom (jh_strs h)"
  shows "do { h2 \<leftarrow> free_string_unless cJSON_IsReference jn_valuestring a h; h3 \<leftarrow> free_string_unless cJSON_StringIsConst jn_string a h2; free_item h3 a } =
    Some (without h [a] (own_strings n))"
proof -
  let ?u = "if jn_type n AND cJSON_IsReference = 0 \<and> jn_valuestring n \<noteq> NULL then [jn_valuestring n] else []"
  let ?v = "if jn_type n AND cJSON_StringIsConst = 0 \<and> jn_string n \<noteq> NULL then [jn_string n] else []"
  have o: "own_strings n = ?u @ ?v" by (simp add: own_strings_def)
  have u: "free_string_unless cJSON_IsReference jn_valuestring a h = Some (without h [] ?u)"
    using assms(1,3) free_str_without [of h "jn_valuestring n"] by (auto simp: free_string_unless_def o split: if_splits)
  have i: "jh_items (without h [] ?u) a = Some n" using assms(1) by simp
  have "jh_strs (without h [] ?u) (jn_string n) \<noteq> None" if "?v \<noteq> []" using assms(2,3) that by (auto simp: o restrict_map_def split: if_splits)
  then have v: "free_string_unless cJSON_StringIsConst jn_string a (without h [] ?u) = Some (without (without h [] ?u) [] ?v)"
    using i free_str_without [of "without h [] ?u" "jn_string n"] by (auto simp: free_string_unless_def)
  show ?thesis unfolding u bind.bind_lunit v using assms(1) free_item_without [of "without (without h [] ?u) [] ?v" a] by (simp add: without_without o)
qed

lemma delete_forest:
  assumes "forest h ts" and "chain (jh_items h) pv a (map jt_root ts) NULL"
  shows "cJSON_Delete h a = Some (without h (concat (map jt_nodes ts)) (concat (map (jt_strings (jh_items h)) ts)))"
  using assms
proof (induction "length (concat (map jt_nodes ts))" arbitrary: ts h pv a rule: less_induct)
  case less
  show ?case
  proof (cases ts)
    case Nil
    then show ?thesis using less.prems(2) by (simp add: cJSON_Delete.simps)
  next
    case (Cons t rest)
    obtain x us where t: "t = JT x us" by (cases t)
    let ?N = "jh_items h"
    let ?un = "concat (map jt_nodes us)" and ?us = "concat (map (jt_strings ?N) us)" and ?rn = "concat (map jt_nodes rest)" and ?rs = "concat (map (jt_strings ?N) rest)"
    obtain n where n: "a = x" "x \<noteq> NULL" "?N x = Some n" "jn_prev n = pv" "chain ?N x (jn_next n) (map jt_root rest) NULL"
      using less.prems(2) by (auto simp: Cons t chain.simps(2))
    have k: "if jn_type n AND cJSON_IsReference = 0 then chain ?N NULL (jn_child n) (map jt_root us) NULL else us = []"
      using less.prems(1) n(3) by (auto simp: forest_def Cons t)
    have d: "distinct (x # ?un @ ?rn)" "distinct (own_strings n @ ?us @ ?rs)" "set (own_strings n @ ?us @ ?rs) \<subseteq> dom (jh_strs h)"
      using less.prems(1) n(3) by (auto simp: forest_def Cons t)
    have fu: "forest h us" and fr: "forest h rest" using less.prems(1) n(3) by (auto simp: forest_def Cons t)
    let ?h1 = "without h ?un ?us"
    have s1: "(if jn_type n AND cJSON_IsReference = 0 \<and> jn_child n \<noteq> NULL then cJSON_Delete h (jn_child n) else Some h) = Some ?h1"
    proof (cases "jn_type n AND cJSON_IsReference = 0 \<and> jn_child n \<noteq> NULL")
      case True
      then have "chain ?N NULL (jn_child n) (map jt_root us) NULL" using k by simp
      from less.hyps [OF _ fu this] show ?thesis using True by (simp add: Cons t)
    next
      case False
      have "us = []"
      proof (cases "jn_type n AND cJSON_IsReference = 0")
        case True
        then have "chain ?N NULL NULL (map jt_root us) NULL" using k False by simp
        then show ?thesis by (cases us) (auto simp: chain_cons)
      qed (use k in simp)
      then show ?thesis using False by auto
    qed
    have i1: "jh_items ?h1 x = Some n" using n(3) d(1) by simp
    have o: "set (own_strings n) \<subseteq> dom (jh_strs ?h1)" using d(2,3) by (auto simp: restrict_map_def dom_def)
    have s2: "do { h2 \<leftarrow> free_string_unless cJSON_IsReference jn_valuestring x ?h1; h3 \<leftarrow> free_string_unless cJSON_StringIsConst jn_string x h2; free_item h3 x } =
        Some (without h (?un @ [x]) (?us @ own_strings n))"
      using own_freed [OF i1 _ o] d(2) by (simp add: without_without)
    let ?h4 = "without h (?un @ [x]) (?us @ own_strings n)"
    have e4: "jh_items ?h4 b = ?N b" if "b \<in> set ?rn" for b using that d(1) by (auto simp: restrict_map_def)
    have ss: "set ?rs \<subseteq> dom (jh_strs ?h4)" using d(2,3) by (auto simp: restrict_map_def dom_def)
    have f4: "forest ?h4 rest" "map (jt_strings (jh_items ?h4)) rest = map (jt_strings ?N) rest" using forest_cong [OF fr, of ?h4] e4 ss by blast+
    have "links (jh_items ?h4) b = links ?N b" if "b \<in> set (map jt_root rest)" for b
      using that e4 root_node by (intro links_cong) fastforce
    then have c4: "chain (jh_items ?h4) x (jn_next n) (map jt_root rest) NULL" using n(5) chain_cong [of "map jt_root rest" "jh_items ?h4" ?N] by blast
    have s4: "cJSON_Delete ?h4 (jn_next n) = Some (without ?h4 ?rn ?rs)"
      using less.hyps [OF _ f4(1) c4] unfolding f4(2) by (simp add: Cons t)
    have "cJSON_Delete h a = do { h1 \<leftarrow> (if jn_type n AND cJSON_IsReference = 0 \<and> jn_child n \<noteq> NULL then cJSON_Delete h (jn_child n) else Some h);
        h4 \<leftarrow> do { h2 \<leftarrow> free_string_unless cJSON_IsReference jn_valuestring x h1; h3 \<leftarrow> free_string_unless cJSON_StringIsConst jn_string x h2; free_item h3 x };
        cJSON_Delete h4 (jn_next n) }"
      using n(1-3) by (subst cJSON_Delete.simps) simp
    also have "\<dots> = Some (without ?h4 ?rn ?rs)" unfolding s1 bind.bind_lunit s2 s4 ..
    also have "\<dots> = Some (without h (concat (map jt_nodes ts)) (concat (map (jt_strings ?N) ts)))"
      unfolding without_without by (rule arg_cong [of _ _ Some], rule without_cong) (use n(3) in \<open>auto simp: Cons t\<close>)
    finally show ?thesis .
  qed
qed

end
