(* ===== verification/Cjson_Array_Props.thy ===== *)
theory Cjson_Array_Props
  imports Cjson_Delete
begin

unbundle bit_operations_syntax

text \<open>The children of an item as a list: sequences of additions, insertions and removals, and the deletion of a tree of items.\<close>

section \<open>Operations on children\<close>

datatype array_op = Add_Item addr | Insert_Item int addr | Detach_Item int

text \<open>The code; a removal gives the item that was removed.\<close>

fun array_step :: "addr \<Rightarrow> array_op \<Rightarrow> 'n jheap \<Rightarrow> ('n jheap \<times> addr) option" where
  "array_step p (Add_Item i) h = do { h1 \<leftarrow> cJSON_AddItemToArray h p i; Some (h1, NULL) }"
| "array_step p (Insert_Item k i) h = do { h1 \<leftarrow> cJSON_InsertItemInArray h p k i; Some (h1, NULL) }"
| "array_step p (Detach_Item k) h = cJSON_DetachItemFromArray h p k"

fun array_run :: "addr \<Rightarrow> array_op list \<Rightarrow> 'n jheap \<Rightarrow> ('n jheap \<times> addr list) option" where
  "array_run p [] h = Some (h, [])"
| "array_run p (c # cs) h = do { (h1, r) \<leftarrow> array_step p c h; (h2, rs) \<leftarrow> array_run p cs h1; Some (h2, r # rs) }"

text \<open>The same on the list of the children and the set of the items that are in no list.\<close>

definition insert_at :: "nat \<Rightarrow> 'a \<Rightarrow> 'a list \<Rightarrow> 'a list" where
  "insert_at k x xs = take k xs @ x # drop k xs"

fun list_op :: "array_op \<Rightarrow> addr list \<times> addr set \<Rightarrow> (addr list \<times> addr set) \<times> addr" where
  "list_op (Add_Item i) (xs, L) = ((xs @ [i], L - {i}), NULL)"
| "list_op (Insert_Item k i) (xs, L) = (if k < 0 then (xs, L) else (insert_at (nat k) i xs, L - {i}), NULL)"
| "list_op (Detach_Item k) (xs, L) =
     (if 0 \<le> k \<and> nat k < length xs then ((take (nat k) xs @ drop (Suc (nat k)) xs, insert (xs ! nat k) L), xs ! nat k) else ((xs, L), NULL))"

fun list_run :: "array_op list \<Rightarrow> addr list \<times> addr set \<Rightarrow> (addr list \<times> addr set) \<times> addr list" where
  "list_run [] s = (s, [])"
| "list_run (c # cs) s = (let (s1, r) = list_op c s; (s2, rs) = list_run cs s1 in (s2, r # rs))"

text \<open>Only items that are in no list are put into the list.\<close>

fun op_allowed :: "array_op \<Rightarrow> addr set \<Rightarrow> bool" where
  "op_allowed (Add_Item i) L \<longleftrightarrow> i \<in> L"
| "op_allowed (Insert_Item k i) L \<longleftrightarrow> i \<in> L"
| "op_allowed (Detach_Item k) L \<longleftrightarrow> True"

fun ops_allowed :: "array_op list \<Rightarrow> addr list \<times> addr set \<Rightarrow> bool" where
  "ops_allowed [] s \<longleftrightarrow> True"
| "ops_allowed (c # cs) s \<longleftrightarrow> op_allowed c (snd s) \<and> ops_allowed cs (fst (list_op c s))"

definition array_rep :: "'n jheap \<Rightarrow> addr \<Rightarrow> addr list \<times> addr set \<Rightarrow> bool" where
  "array_rep h p s \<longleftrightarrow> children h p (fst s) \<and> NULL \<notin> snd s \<and> p \<notin> snd s \<and> set (fst s) \<inter> snd s = {} \<and> (\<forall>a\<in>snd s. loose h a)"

lemma array_repE:
  assumes "array_rep h p (xs, L)"
  shows "children h p xs" and "NULL \<notin> L" and "p \<notin> L" and "set xs \<inter> L = {}" and "\<And>a. a \<in> L \<Longrightarrow> loose h a"
  using assms by (auto simp: array_rep_def)

lemma loose_same: "same_out A (jh_items h) (jh_items h') \<Longrightarrow> a \<notin> A \<Longrightarrow> loose h a \<Longrightarrow> loose h' a"
  by (simp add: loose_def links_def same_out_def)

lemma array_add:
  assumes "array_rep h p (xs, L)" and "i \<in> L"
  shows "\<exists>N. cJSON_AddItemToArray h p i = Some (h\<lparr>jh_items := N\<rparr>) \<and> array_rep (h\<lparr>jh_items := N\<rparr>) p (xs @ [i], L - {i}) \<and> same_but p (jh_items h) N"
proof -
  note r = array_repE [OF assms(1)]
  have "i \<notin> set (p # xs)" "i \<noteq> NULL" using r(2-4) assms(2) by auto
  from add_children [OF r(1) this r(5) [OF assms(2)]] obtain N where N: "cJSON_AddItemToArray h p i = Some (h\<lparr>jh_items := N\<rparr>)"
    "children (h\<lparr>jh_items := N\<rparr>) p (xs @ [i])" "same_but p (jh_items h) N" "same_out (set (p # xs @ [i])) (jh_items h) N" by blast
  have "loose (h\<lparr>jh_items := N\<rparr>) a" if "a \<in> L - {i}" for a
    by (rule loose_same [of "set (p # xs @ [i])" h]) (use N(4) r(3-5) that in auto)
  then have "array_rep (h\<lparr>jh_items := N\<rparr>) p (xs @ [i], L - {i})" using N(2) r(2-4) by (auto simp: array_rep_def)
  then show ?thesis using N(1,3) by blast
qed

lemma array_insert:
  assumes "array_rep h p (xs, L)" and "i \<in> L"
  shows "\<exists>N. cJSON_InsertItemInArray h p k i = Some (h\<lparr>jh_items := N\<rparr>) \<and> array_rep (h\<lparr>jh_items := N\<rparr>) p (fst (list_op (Insert_Item k i) (xs, L))) \<and> same_but p (jh_items h) N"
proof (cases "0 \<le> k \<and> nat k < length xs")
  case True
  note r = array_repE [OF assms(1)]
  define ys x zs where "ys = take (nat k) xs" and "x = xs ! nat k" and "zs = drop (Suc (nat k)) xs"
  have xs: "xs = ys @ x # zs" "drop (nat k) xs = x # zs" "k = int (length ys)" using True by (simp_all add: ys_def x_def zs_def id_take_nth_drop Cons_nth_drop_Suc)
  have "i \<notin> set (p # ys @ x # zs)" "i \<noteq> NULL" "jh_items h i \<noteq> None" using r(2-4) r(5) [OF assms(2)] assms(2) unfolding xs(1) by (auto simp: loose_def links_def)
  from insert_children [OF r(1) [unfolded xs(1)] this] obtain N where N: "cJSON_InsertItemInArray h p k i = Some (h\<lparr>jh_items := N\<rparr>)"
    "children (h\<lparr>jh_items := N\<rparr>) p (ys @ i # x # zs)" "same_but p (jh_items h) N" "same_out (set (p # ys @ i # x # zs)) (jh_items h) N" using xs(3) by blast
  have "loose (h\<lparr>jh_items := N\<rparr>) a" if "a \<in> L - {i}" for a
    by (rule loose_same [of "set (p # ys @ i # x # zs)" h]) (use N(4) r(3-5) that xs(1) in auto)
  moreover have "fst (list_op (Insert_Item k i) (xs, L)) = (ys @ i # x # zs, L - {i})" using True by (simp add: insert_at_def xs(2) ys_def [symmetric])
  ultimately have "array_rep (h\<lparr>jh_items := N\<rparr>) p (fst (list_op (Insert_Item k i) (xs, L)))" using N(2) r(2-4) xs(1) by (auto simp: array_rep_def)
  then show ?thesis using N(1,3) by blast
next
  case False
  show ?thesis
  proof (cases "k < 0")
    case True
    then have "cJSON_InsertItemInArray h p k i = Some (h\<lparr>jh_items := jh_items h\<rparr>)" by (simp add: cJSON_InsertItemInArray_def)
    then show ?thesis using True assms(1) same_but_refl by (intro exI [of _ "jh_items h"]) simp
  next
    case F: False
    then have "cJSON_InsertItemInArray h p k i = cJSON_AddItemToArray h p i"
      using False children_reads(1) [OF array_repE(1) [OF assms(1)], of "nat k"] by (simp add: cJSON_InsertItemInArray_def)
    moreover have "fst (list_op (Insert_Item k i) (xs, L)) = (xs @ [i], L - {i})" using False F by (simp add: insert_at_def)
    ultimately show ?thesis using array_add [OF assms] by simp
  qed
qed

lemma array_detach:
  assumes "array_rep h p (xs, L)"
  shows "\<exists>N. cJSON_DetachItemFromArray h p k = Some (h\<lparr>jh_items := N\<rparr>, snd (list_op (Detach_Item k) (xs, L))) \<and>
    array_rep (h\<lparr>jh_items := N\<rparr>) p (fst (list_op (Detach_Item k) (xs, L))) \<and> same_but p (jh_items h) N"
proof (cases "0 \<le> k \<and> nat k < length xs")
  case True
  note r = array_repE [OF assms(1)]
  define ys x zs where "ys = take (nat k) xs" and "x = xs ! nat k" and "zs = drop (Suc (nat k)) xs"
  have xs: "xs = ys @ x # zs" using True by (simp add: ys_def x_def zs_def id_take_nth_drop)
  from detach_children [OF r(1) [unfolded xs]] obtain N where N: "cJSON_DetachItemViaPointer h p x = Some (h\<lparr>jh_items := N\<rparr>, x)"
    "children (h\<lparr>jh_items := N\<rparr>) p (ys @ zs)" "loose (h\<lparr>jh_items := N\<rparr>) x" "same_but p (jh_items h) N" "same_out (set (p # ys @ x # zs)) (jh_items h) N" by blast
  have "loose (h\<lparr>jh_items := N\<rparr>) a" if "a \<in> L" for a
    by (rule loose_same [of "set (p # ys @ x # zs)" h]) (use N(5) r(3-5) that xs in auto)
  moreover have "fst (list_op (Detach_Item k) (xs, L)) = (ys @ zs, insert x L)" "snd (list_op (Detach_Item k) (xs, L)) = x" using True by (simp_all add: ys_def x_def zs_def)
  moreover have "distinct (p # xs)" "NULL \<notin> set xs" using r(1) chain_nonnull [of _ _ _ xs NULL] by (auto simp: children_def)
  ultimately have a: "array_rep (h\<lparr>jh_items := N\<rparr>) p (fst (list_op (Detach_Item k) (xs, L)))" using N(2,3) r(2-4) xs by (auto simp: array_rep_def)
  have "cJSON_DetachItemFromArray h p k = Some (h\<lparr>jh_items := N\<rparr>, snd (list_op (Detach_Item k) (xs, L)))"
    using True N(1) children_reads(1) [OF r(1), of "nat k"] by (simp add: cJSON_DetachItemFromArray_def x_def)
  then show ?thesis using N(4) a by blast
next
  case False
  have "cJSON_DetachItemFromArray h p k = Some (h\<lparr>jh_items := jh_items h\<rparr>, NULL)"
    using False children_reads(1) [OF array_repE(1) [OF assms], of "nat k"] by (auto simp: cJSON_DetachItemFromArray_def cJSON_DetachItemViaPointer_def)
  then show ?thesis using False assms same_but_refl by (intro exI [of _ "jh_items h"]) auto
qed

lemma array_step_refines:
  assumes "array_rep h p s" and "op_allowed c (snd s)"
  shows "\<exists>N. array_step p c h = Some (h\<lparr>jh_items := N\<rparr>, snd (list_op c s)) \<and> array_rep (h\<lparr>jh_items := N\<rparr>) p (fst (list_op c s)) \<and> same_but p (jh_items h) N"
proof -
  obtain xs L where s: "s = (xs, L)" by (cases s)
  show ?thesis
  proof (cases c)
    case (Add_Item i)
    then show ?thesis using array_add [of h p xs L i] assms by (auto simp: s)
  next
    case (Insert_Item k i)
    then show ?thesis using array_insert [of h p xs L i k] assms by (auto simp: s)
  next
    case (Detach_Item k)
    then show ?thesis using array_detach [of h p xs L k] assms by (auto simp: s simp del: list_op.simps)
  qed
qed

section \<open>Sequences of operations\<close>

text \<open>
  C21 (refinement). On an item whose children are a list, every sequence of \<open>cJSON_AddItemToArray\<close>, \<open>cJSON_InsertItemInArray\<close> and
  \<open>cJSON_DetachItemFromArray\<close> in which only items outside of the list are put in is defined, gives the items the same sequence on a list gives, and leaves the
  children that list; \<open>cJSON_GetArrayItem\<close> and \<open>cJSON_GetArraySize\<close> then read that list. Apart from the links of siblings and the first child of the item no item changes.
\<close>

theorem array_ops_refine:
  assumes "array_rep h p s" and "ops_allowed cs s"
  shows "\<exists>N. array_run p cs h = Some (h\<lparr>jh_items := N\<rparr>, snd (list_run cs s)) \<and> array_rep (h\<lparr>jh_items := N\<rparr>) p (fst (list_run cs s)) \<and> same_but p (jh_items h) N \<and>
    (\<forall>k. cJSON_GetArrayItem (h\<lparr>jh_items := N\<rparr>) p k = Some (if 0 \<le> k \<and> nat k < length (fst (fst (list_run cs s))) then fst (fst (list_run cs s)) ! nat k else NULL)) \<and>
    (length (fst (fst (list_run cs s))) < 2 ^ 31 \<longrightarrow> cJSON_GetArraySize (h\<lparr>jh_items := N\<rparr>) p = Some (int (length (fst (fst (list_run cs s))))))"
proof -
  have "\<exists>N. array_run p cs h = Some (h\<lparr>jh_items := N\<rparr>, snd (list_run cs s)) \<and> array_rep (h\<lparr>jh_items := N\<rparr>) p (fst (list_run cs s)) \<and> same_but p (jh_items h) N"
    using assms
  proof (induction cs arbitrary: h s)
    case Nil
    then show ?case using same_but_refl by (intro exI [of _ "jh_items h"]) simp
  next
    case (Cons c cs)
    obtain N where N: "array_step p c h = Some (h\<lparr>jh_items := N\<rparr>, snd (list_op c s))" "array_rep (h\<lparr>jh_items := N\<rparr>) p (fst (list_op c s))" "same_but p (jh_items h) N"
      using array_step_refines [OF Cons.prems(1)] Cons.prems(2) by auto
    from Cons.IH [OF N(2)] Cons.prems(2) obtain M where "array_run p cs (h\<lparr>jh_items := N\<rparr>) = Some (h\<lparr>jh_items := M\<rparr>, snd (list_run cs (fst (list_op c s))))"
      "array_rep (h\<lparr>jh_items := M\<rparr>) p (fst (list_run cs (fst (list_op c s))))" "same_but p N M" by auto
    then show ?case using N same_but_trans [OF N(3)] by (intro exI [of _ M]) (simp add: case_prod_unfold Let_def)
  qed
  then obtain N where N: "array_run p cs h = Some (h\<lparr>jh_items := N\<rparr>, snd (list_run cs s))" "array_rep (h\<lparr>jh_items := N\<rparr>) p (fst (list_run cs s))" "same_but p (jh_items h) N"
    by blast
  have c: "children (h\<lparr>jh_items := N\<rparr>) p (fst (fst (list_run cs s)))" using N(2) by (simp add: array_rep_def)
  have small: "sint (of_nat n :: u32) = int n" if "n < 2 ^ 31" for n
  proof -
    have "sint (of_nat n :: u32) = signed_take_bit 31 (int n)" by (simp add: signed_of_nat)
    also have "\<dots> = int n" using that by (simp add: signed_take_bit_int_eq_self)
    finally show ?thesis .
  qed
  show ?thesis using N children_reads [OF c] small by (intro exI [of _ N]) (auto simp: cJSON_GetArrayItem_def)
qed

definition demo_node :: "addr \<Rightarrow> addr \<Rightarrow> addr \<Rightarrow> u32 \<Rightarrow> addr \<Rightarrow> addr \<Rightarrow> int jnode" where
  "demo_node nx pv ch ty vs str = \<lparr>jn_next = nx, jn_prev = pv, jn_child = ch, jn_type = ty, jn_valuestring = vs, jn_valueint = 0, jn_valuedouble = 0, jn_string = str\<rparr>"

text \<open>The array 1 has the children 2 and 3; 4 and 5 are in no list. 2 is a string and owns a name as well, the name of 3 is a constant.\<close>

definition demo_items :: "int jheap" where
  "demo_items = \<lparr>jh_items = [1 \<mapsto> demo_node 0 0 2 cJSON_Array 0 0, 2 \<mapsto> demo_node 3 0 0 cJSON_String 20 21, 3 \<mapsto> demo_node 0 2 0 (cJSON_Number OR cJSON_StringIsConst) 0 30,
     4 \<mapsto> demo_node 0 0 0 cJSON_NULL 0 0, 5 \<mapsto> demo_node 0 0 0 cJSON_True 0 0],
   jh_strs = [20 \<mapsto> ascii ''text'', 21 \<mapsto> ascii ''key''], jh_consts = [30 \<mapsto> ascii ''name''], jh_malloc = []\<rparr>"

lemmas demo_simps = demo_items_def demo_node_def

lemma array_ops_refine_witness:
  "\<exists>N. array_run 1 [Add_Item 4, Insert_Item 1 5, Detach_Item 0, Detach_Item 7] demo_items = Some (demo_items\<lparr>jh_items := N\<rparr>, [0, 0, 2, 0]) \<and>
    cJSON_GetArrayItem (demo_items\<lparr>jh_items := N\<rparr>) 1 0 = Some 5 \<and> cJSON_GetArraySize (demo_items\<lparr>jh_items := N\<rparr>) 1 = Some 3"
proof -
  have r: "array_rep demo_items 1 ([2, 3], {4, 5})" by (simp add: array_rep_def children_def chain_cons links_def loose_def demo_simps)
  have l: "list_run [Add_Item 4, Insert_Item 1 5, Detach_Item 0, Detach_Item 7] ([2, 3], {4, 5}) = (([5, 3, 4], {4, 5} - {4} - {5} \<union> {2}), [0, 0, 2, 0])"
    by (simp add: insert_at_def)
  have a: "ops_allowed [Add_Item 4, Insert_Item 1 5, Detach_Item 0, Detach_Item 7] ([2, 3], {4, 5})" by (simp add: insert_at_def)
  obtain N where "array_run 1 [Add_Item 4, Insert_Item 1 5, Detach_Item 0, Detach_Item 7] demo_items = Some (demo_items\<lparr>jh_items := N\<rparr>, [0, 0, 2, 0])"
    "\<And>k. cJSON_GetArrayItem (demo_items\<lparr>jh_items := N\<rparr>) 1 k = Some (if 0 \<le> k \<and> nat k < 3 then [5, 3, 4] ! nat k else NULL)"
    "cJSON_GetArraySize (demo_items\<lparr>jh_items := N\<rparr>) 1 = Some 3"
    using array_ops_refine [OF r a] unfolding l by auto
  then show ?thesis by (intro exI [of _ N]) simp
qed

section \<open>Deleting a tree\<close>

text \<open>
  C23 (safety). \<open>cJSON_Delete\<close> on an item without siblings behind it, the root of a tree in memory, is defined: it gives back exactly the items of the tree
  and the strings they own, each of them once, and neither the names that are constants nor what references only share; nothing else changes.
\<close>

theorem delete_frees_tree:
  assumes "forest h [t]" and "jt_root t \<noteq> NULL" and "links (jh_items h) (jt_root t) = Some (pv, NULL)"
  shows "cJSON_Delete h (jt_root t) = Some (h\<lparr>jh_items := (jh_items h) |` (- set (jt_nodes t)), jh_strs := (jh_strs h) |` (- set (jt_strings (jh_items h) t))\<rparr>)"
proof -
  have "chain (jh_items h) pv (jt_root t) (map jt_root [t]) NULL" using assms(2,3) by (simp add: chain_cons)
  from delete_forest [OF assms(1) this] show ?thesis by (simp add: without_def)
qed

lemma delete_frees_tree_witness:
  "\<exists>h. cJSON_Delete demo_items 1 = Some h \<and> dom (jh_items h) = {4, 5} \<and> dom (jh_strs h) = {} \<and> jh_consts h 30 = Some (ascii ''name'')"
proof -
  have f: "forest demo_items [JT 1 [JT 2 [], JT 3 []]]" by (simp add: forest_def chain_cons links_def own_strings_def demo_simps)
  have "links (jh_items demo_items) (jt_root (JT 1 [JT 2 [], JT 3 []])) = Some (0, NULL)" by (simp add: links_def demo_simps)
  from delete_frees_tree [OF f _ this] show ?thesis by (simp add: own_strings_def demo_simps) (auto simp: restrict_map_def dom_def split: if_splits)
qed

section \<open>Names\<close>

text \<open>
  When the copy of the name fails, \<open>cJSON_AddItemToObject\<close> does not add the item, but it still takes the flag of a constant name from it: the item now claims
  to own its constant name, and deleting it gives back memory that was never allocated.
\<close>

lemma add_object_keeps_const_name:
  assumes "jh_malloc h = []" and "read_str h string \<noteq> None" and "item \<noteq> NULL" and "jh_items h item = Some n" and "jn_type n = cJSON_NULL OR cJSON_StringIsConst"
    and "jn_child n = NULL" and "jn_valuestring n = NULL" and "jn_string n \<noteq> NULL" and "jh_strs h (jn_string n) = None"
  shows "\<exists>h'. cJSON_AddItemToObject h object string item = Some h' \<and> cJSON_Delete h' item = None"
proof -
  let ?n = "n\<lparr>jn_type := jn_type n AND NOT cJSON_StringIsConst\<rparr>"
  have "cJSON_strdup h string = Some (h, NULL)" using assms(1,2) by (auto simp: cJSON_strdup_def malloc_def)
  then have "cJSON_AddItemToObject h object string item = Some (h\<lparr>jh_items := (jh_items h)(item \<mapsto> ?n)\<rparr>)"
    using assms(3,4) by (simp add: cJSON_AddItemToObject_def cJSON_AddItemToObjectCS_def jset_def)
  moreover have "cJSON_Delete (h\<lparr>jh_items := (jh_items h)(item \<mapsto> ?n)\<rparr>) item = None"
    using assms(3-9) by (subst cJSON_Delete.simps) (simp add: free_string_unless_def free_str_def)
  ultimately show ?thesis by blast
qed

text \<open>\<open>cJSON_ReplaceItemInObject\<close> under the name that the replacement has and owns reads the name after it was given back.\<close>

lemma replace_by_own_name_undefined:
  assumes "jh_items h replacement = Some n" and "replacement \<noteq> NULL" and "jn_type n AND cJSON_StringIsConst = 0" and "jn_string n \<noteq> NULL"
    and "jh_consts h (jn_string n) = None"
  shows "replace_item_in_object h object (jn_string n) replacement case_sensitive = None"
  using assms by (cases "jh_strs h (jn_string n)") (simp_all add: replace_item_in_object_def free_string_unless_def free_str_def cJSON_strdup_def read_str_def)

end
