(* ===== verification/Cjson_Create.thy ===== *)
theory Cjson_Create
  imports Cjson_Heap
begin

unbundle bit_operations_syntax

text \<open>
  Creating, copying and comparing items in \<^verbatim>\<open>src/com/cJSON.c\<close>, on the memory of \<^verbatim>\<open>Cjson_Heap\<close>.
\<close>

section \<open>Kinds of items\<close>

definition masked_type :: "'n jheap \<Rightarrow> addr \<Rightarrow> u32 \<Rightarrow> bool option" where
  "masked_type h item ty = (if item = NULL then Some False else do { n \<leftarrow> jh_items h item; Some (jn_type n AND 0xFF = ty) })"

definition cJSON_IsInvalid :: "'n jheap \<Rightarrow> addr \<Rightarrow> bool option" where
  "cJSON_IsInvalid h item = masked_type h item cJSON_Invalid"

definition cJSON_IsFalse :: "'n jheap \<Rightarrow> addr \<Rightarrow> bool option" where
  "cJSON_IsFalse h item = masked_type h item cJSON_False"

definition cJSON_IsTrue :: "'n jheap \<Rightarrow> addr \<Rightarrow> bool option" where
  "cJSON_IsTrue h item = masked_type h item cJSON_True"

definition cJSON_IsBool :: "'n jheap \<Rightarrow> addr \<Rightarrow> bool option" where
  "cJSON_IsBool h item = (if item = NULL then Some False else do { n \<leftarrow> jh_items h item; Some (jn_type n AND (cJSON_True OR cJSON_False) \<noteq> 0) })"

definition cJSON_IsNumber :: "'n jheap \<Rightarrow> addr \<Rightarrow> bool option" where
  "cJSON_IsNumber h item = masked_type h item cJSON_Number"

definition cJSON_IsString :: "'n jheap \<Rightarrow> addr \<Rightarrow> bool option" where
  "cJSON_IsString h item = masked_type h item cJSON_String"

definition cJSON_IsArray :: "'n jheap \<Rightarrow> addr \<Rightarrow> bool option" where
  "cJSON_IsArray h item = masked_type h item cJSON_Array"

definition cJSON_IsObject :: "'n jheap \<Rightarrow> addr \<Rightarrow> bool option" where
  "cJSON_IsObject h item = masked_type h item cJSON_Object"

definition cJSON_IsRaw :: "'n jheap \<Rightarrow> addr \<Rightarrow> bool option" where
  "cJSON_IsRaw h item = masked_type h item cJSON_Raw"

section \<open>New items\<close>

text \<open>\<open>cJSON_CreateNull\<close>, \<open>cJSON_CreateTrue\<close> and the others that only set a type.\<close>

definition create_typed :: "'n numconv \<Rightarrow> u32 \<Rightarrow> 'n jheap \<Rightarrow> ('n jheap \<times> addr) option" where
  "create_typed nc ty h = (let (h1, item) = new_item nc h in
     if item \<noteq> NULL then do { h2 \<leftarrow> jset h1 item (jn_type_update (\<lambda>_. ty)); Some (h2, item) } else Some (h1, item))"

definition cJSON_CreateNull :: "'n numconv \<Rightarrow> 'n jheap \<Rightarrow> ('n jheap \<times> addr) option" where
  "cJSON_CreateNull nc h = create_typed nc cJSON_NULL h"

definition cJSON_CreateTrue :: "'n numconv \<Rightarrow> 'n jheap \<Rightarrow> ('n jheap \<times> addr) option" where
  "cJSON_CreateTrue nc h = create_typed nc cJSON_True h"

definition cJSON_CreateFalse :: "'n numconv \<Rightarrow> 'n jheap \<Rightarrow> ('n jheap \<times> addr) option" where
  "cJSON_CreateFalse nc h = create_typed nc cJSON_False h"

definition cJSON_CreateBool :: "'n numconv \<Rightarrow> int \<Rightarrow> 'n jheap \<Rightarrow> ('n jheap \<times> addr) option" where
  "cJSON_CreateBool nc b h = create_typed nc (if b \<noteq> 0 then cJSON_True else cJSON_False) h"

definition cJSON_CreateArray :: "'n numconv \<Rightarrow> 'n jheap \<Rightarrow> ('n jheap \<times> addr) option" where
  "cJSON_CreateArray nc h = create_typed nc cJSON_Array h"

definition cJSON_CreateObject :: "'n numconv \<Rightarrow> 'n jheap \<Rightarrow> ('n jheap \<times> addr) option" where
  "cJSON_CreateObject nc h = create_typed nc cJSON_Object h"

definition cJSON_CreateNumber :: "'n numconv \<Rightarrow> 'n \<Rightarrow> 'n jheap \<Rightarrow> ('n jheap \<times> addr) option" where
  "cJSON_CreateNumber nc num h = (let (h1, item) = new_item nc h in
     if item \<noteq> NULL then do { h2 \<leftarrow> jset h1 item (\<lambda>n. n\<lparr>jn_type := cJSON_Number, jn_valuedouble := num, jn_valueint := saturated nc num\<rparr>); Some (h2, item) }
     else Some (h1, item))"

text \<open>\<open>cJSON_CreateString\<close> and \<open>cJSON_CreateRaw\<close>.\<close>

definition create_text :: "'n numconv \<Rightarrow> u32 \<Rightarrow> addr \<Rightarrow> 'n jheap \<Rightarrow> ('n jheap \<times> addr) option" where
  "create_text nc ty string h = (let (h1, item) = new_item nc h in
     if item \<noteq> NULL then do {
       h2 \<leftarrow> jset h1 item (jn_type_update (\<lambda>_. ty));
       (h3, copy) \<leftarrow> cJSON_strdup h2 string;
       h4 \<leftarrow> jset h3 item (jn_valuestring_update (\<lambda>_. copy));
       if copy = NULL then do { h5 \<leftarrow> cJSON_Delete h4 item; Some (h5, NULL) } else Some (h4, item)
     } else Some (h1, item))"

definition cJSON_CreateString :: "'n numconv \<Rightarrow> addr \<Rightarrow> 'n jheap \<Rightarrow> ('n jheap \<times> addr) option" where
  "cJSON_CreateString nc string h = create_text nc cJSON_String string h"

definition cJSON_CreateRaw :: "'n numconv \<Rightarrow> addr \<Rightarrow> 'n jheap \<Rightarrow> ('n jheap \<times> addr) option" where
  "cJSON_CreateRaw nc raw h = create_text nc cJSON_Raw raw h"

section \<open>Arrays of new items\<close>

text \<open>The loop of \<open>cJSON_CreateIntArray\<close> and its siblings; it still has to read \<open>k\<close> elements, the last item made is \<open>p\<close>.\<close>

fun create_loop :: "('x \<Rightarrow> 'n jheap \<Rightarrow> ('n jheap \<times> addr) option) \<Rightarrow> nat \<Rightarrow> 'x list \<Rightarrow> bool \<Rightarrow> addr \<Rightarrow> addr \<Rightarrow> 'n jheap \<Rightarrow> ('n jheap \<times> addr) option" where
  "create_loop create 0 xs is_first p a h = Some (h, a)"
| "create_loop create (Suc k) [] is_first p a h = None"
| "create_loop create (Suc k) (x # xs) is_first p a h = do {
     (h1, n) \<leftarrow> create x h;
     if n = NULL then do { h2 \<leftarrow> cJSON_Delete h1 a; Some (h2, NULL) }
     else do {
       h2 \<leftarrow> (if is_first then jset h1 a (jn_child_update (\<lambda>_. n)) else suffix_object h1 p n);
       create_loop create k xs False n a h2
     }
   }"

text \<open>The elements are \<open>None\<close> for a pointer that is \<open>NULL\<close>; reading behind them is undefined.\<close>

definition create_array_of :: "('x \<Rightarrow> 'n jheap \<Rightarrow> ('n jheap \<times> addr) option) \<Rightarrow> 'n numconv \<Rightarrow> 'x list option \<Rightarrow> int \<Rightarrow> 'n jheap \<Rightarrow> ('n jheap \<times> addr) option" where
  "create_array_of create nc xs count h =
     (if count < 0 then Some (h, NULL)
      else case xs of None \<Rightarrow> Some (h, NULL) | Some ys \<Rightarrow> do {
        (h1, a) \<leftarrow> cJSON_CreateArray nc h;
        if a = NULL then Some (h1, NULL) else create_loop create (nat count) ys True NULL a h1
      })"

definition cJSON_CreateIntArray :: "'n numconv \<Rightarrow> int list option \<Rightarrow> int \<Rightarrow> 'n jheap \<Rightarrow> ('n jheap \<times> addr) option" where
  "cJSON_CreateIntArray nc numbers count h = create_array_of (\<lambda>i. cJSON_CreateNumber nc (nc_of_int nc i)) nc numbers count h"

definition cJSON_CreateFloatArray :: "'n numconv \<Rightarrow> ('f \<Rightarrow> 'n) \<Rightarrow> 'f list option \<Rightarrow> int \<Rightarrow> 'n jheap \<Rightarrow> ('n jheap \<times> addr) option" where
  "cJSON_CreateFloatArray nc of_float numbers count h = create_array_of (\<lambda>x. cJSON_CreateNumber nc (of_float x)) nc numbers count h"

definition cJSON_CreateDoubleArray :: "'n numconv \<Rightarrow> 'n list option \<Rightarrow> int \<Rightarrow> 'n jheap \<Rightarrow> ('n jheap \<times> addr) option" where
  "cJSON_CreateDoubleArray nc numbers count h = create_array_of (cJSON_CreateNumber nc) nc numbers count h"

definition cJSON_CreateStringArray :: "'n numconv \<Rightarrow> addr list option \<Rightarrow> int \<Rightarrow> 'n jheap \<Rightarrow> ('n jheap \<times> addr) option" where
  "cJSON_CreateStringArray nc strings count h = create_array_of (cJSON_CreateString nc) nc strings count h"

section \<open>Copies\<close>

text \<open>The jump to \<open>fail\<close>.\<close>

definition duplicate_fail :: "'n jheap \<Rightarrow> addr \<Rightarrow> ('n jheap \<times> addr) option" where
  "duplicate_fail h newitem = do { h1 \<leftarrow> (if newitem \<noteq> NULL then cJSON_Delete h newitem else Some h); Some (h1, NULL) }"

text \<open>The part before the children; a text is copied when there is one, and a failure is seen by the copy being \<open>NULL\<close>.\<close>

definition duplicate_item :: "'n numconv \<Rightarrow> 'n jheap \<Rightarrow> addr \<Rightarrow> ('n jheap \<times> addr) option" where
  "duplicate_item nc h item =
     (if item = NULL then duplicate_fail h NULL
      else (let (h1, newitem) = new_item nc h in
        if newitem = NULL then duplicate_fail h1 NULL
        else do {
          i \<leftarrow> jh_items h1 item;
          h2 \<leftarrow> jset h1 newitem (\<lambda>n. n\<lparr>jn_type := jn_type i AND NOT cJSON_IsReference, jn_valueint := jn_valueint i, jn_valuedouble := jn_valuedouble i\<rparr>);
          (h3, vs) \<leftarrow> (if jn_valuestring i \<noteq> NULL then cJSON_strdup h2 (jn_valuestring i) else Some (h2, NULL));
          h4 \<leftarrow> jset h3 newitem (jn_valuestring_update (\<lambda>_. vs));
          if jn_valuestring i \<noteq> NULL \<and> vs = NULL then duplicate_fail h4 newitem
          else do {
            (h5, name) \<leftarrow> (if jn_string i = NULL then Some (h4, NULL)
              else if jn_type i AND cJSON_StringIsConst \<noteq> 0 then Some (h4, jn_string i) else cJSON_strdup h4 (jn_string i));
            h6 \<leftarrow> jset h5 newitem (jn_string_update (\<lambda>_. name));
            if jn_string i \<noteq> NULL \<and> name = NULL then duplicate_fail h6 newitem else Some (h6, newitem)
          }
        }))"

text \<open>The loop over the children, with the recursive call for each child written out.\<close>

partial_function (option) duplicate_loop :: "'n numconv \<Rightarrow> 'n jheap \<Rightarrow> addr \<Rightarrow> addr \<Rightarrow> addr \<Rightarrow> ('n jheap \<times> addr) option" where
  "duplicate_loop nc h newitem child next =
     (if child = NULL then Some (h, newitem)
      else do {
        (h0, c) \<leftarrow> duplicate_item nc h child;
        (h1, newchild) \<leftarrow> (if c = NULL then Some (h0, c) else do { n \<leftarrow> jh_items h0 child; duplicate_loop nc h0 c (jn_child n) NULL });
        if newchild = NULL then duplicate_fail h1 newitem
        else do {
          h2 \<leftarrow> (if next \<noteq> NULL then suffix_object h1 next newchild else jset h1 newitem (jn_child_update (\<lambda>_. newchild)));
          n \<leftarrow> jh_items h2 child;
          duplicate_loop nc h2 newitem (jn_next n) newchild
        }
      })"

definition cJSON_Duplicate :: "'n numconv \<Rightarrow> 'n jheap \<Rightarrow> addr \<Rightarrow> bool \<Rightarrow> ('n jheap \<times> addr) option" where
  "cJSON_Duplicate nc h item recurse = do {
     (h1, newitem) \<leftarrow> duplicate_item nc h item;
     if newitem = NULL \<or> \<not> recurse then Some (h1, newitem)
     else do { n \<leftarrow> jh_items h1 item; duplicate_loop nc h1 newitem (jn_child n) NULL }
   }"

lemma duplicate_loop_calls:
  "duplicate_loop nc h newitem child next =
     (if child = NULL then Some (h, newitem)
      else do {
        (h1, newchild) \<leftarrow> cJSON_Duplicate nc h child True;
        if newchild = NULL then duplicate_fail h1 newitem
        else do {
          h2 \<leftarrow> (if next \<noteq> NULL then suffix_object h1 next newchild else jset h1 newitem (jn_child_update (\<lambda>_. newchild)));
          n \<leftarrow> jh_items h2 child;
          duplicate_loop nc h2 newitem (jn_next n) newchild
        }
      })"
  by (subst duplicate_loop.simps) (simp add: cJSON_Duplicate_def case_prod_unfold cong: if_cong)

section \<open>Comparison\<close>

text \<open>The calls of the comparison: of two items, of two chains in step, and of every item of a chain with the item of its name in an object.\<close>

datatype compare_call = Compare_Items addr addr | Compare_Arrays addr addr | Compare_Members addr addr

definition valid_kind :: "u32 \<Rightarrow> bool" where
  "valid_kind ty \<longleftrightarrow> ty = cJSON_False \<or> ty = cJSON_True \<or> ty = cJSON_NULL \<or> ty = cJSON_Number \<or> ty = cJSON_String \<or> ty = cJSON_Raw \<or> ty = cJSON_Array \<or> ty = cJSON_Object"

text \<open>\<open>eq\<close> is the comparison of two numbers with \<open>==\<close>.\<close>

definition compare_strings :: "'n jheap \<Rightarrow> addr \<Rightarrow> addr \<Rightarrow> bool option" where
  "compare_strings h a b = (if a = NULL \<or> b = NULL then Some False else do { s \<leftarrow> read_str h a; t \<leftarrow> read_str h b; Some (s = t) })"

partial_function (option) compare_run :: "('n \<Rightarrow> 'n \<Rightarrow> bool) \<Rightarrow> 'n jheap \<Rightarrow> bool \<Rightarrow> compare_call \<Rightarrow> bool option" where
  "compare_run eq h case_sensitive call = (case call of
     Compare_Items a b \<Rightarrow>
       (if a = NULL \<or> b = NULL then Some False
        else do {
          m \<leftarrow> jh_items h a;
          n \<leftarrow> jh_items h b;
          invalid \<leftarrow> cJSON_IsInvalid h a;
          if jn_type m AND 0xFF \<noteq> jn_type n AND 0xFF \<or> invalid then Some False
          else if \<not> valid_kind (jn_type m AND 0xFF) then Some False
          else if a = b then Some True
          else if jn_type m AND 0xFF = cJSON_Number then Some (eq (jn_valuedouble m) (jn_valuedouble n))
          else if jn_type m AND 0xFF = cJSON_String \<or> jn_type m AND 0xFF = cJSON_Raw then compare_strings h (jn_valuestring m) (jn_valuestring n)
          else if jn_type m AND 0xFF = cJSON_Array then compare_run eq h case_sensitive (Compare_Arrays (jn_child m) (jn_child n))
          else if jn_type m AND 0xFF = cJSON_Object then do {
            r \<leftarrow> compare_run eq h case_sensitive (Compare_Members (jn_child m) b);
            if \<not> r then Some False else compare_run eq h case_sensitive (Compare_Members (jn_child n) a)
          }
          else Some True
        })
   | Compare_Arrays a_element b_element \<Rightarrow>
       (if a_element \<noteq> NULL \<and> b_element \<noteq> NULL then do {
          r \<leftarrow> compare_run eq h case_sensitive (Compare_Items a_element b_element);
          if \<not> r then Some False
          else do { m \<leftarrow> jh_items h a_element; n \<leftarrow> jh_items h b_element; compare_run eq h case_sensitive (Compare_Arrays (jn_next m) (jn_next n)) }
        } else Some (a_element = b_element))
   | Compare_Members a_element b \<Rightarrow>
       (if a_element = NULL then Some True
        else do {
          m \<leftarrow> jh_items h a_element;
          b_element \<leftarrow> get_object_item h b (jn_string m) case_sensitive;
          if b_element = NULL then Some False
          else do {
            r \<leftarrow> compare_run eq h case_sensitive (Compare_Items a_element b_element);
            if \<not> r then Some False else compare_run eq h case_sensitive (Compare_Members (jn_next m) b)
          }
        }))"

definition cJSON_Compare :: "('n \<Rightarrow> 'n \<Rightarrow> bool) \<Rightarrow> 'n jheap \<Rightarrow> addr \<Rightarrow> addr \<Rightarrow> bool \<Rightarrow> bool option" where
  "cJSON_Compare eq h a b case_sensitive = compare_run eq h case_sensitive (Compare_Items a b)"

end
