(* ===== verification/Cjson_Duplicate.thy ===== *)
theory Cjson_Duplicate
  imports Cjson_Delete Cjson_Create
begin

unbundle bit_operations_syntax

text \<open>
  \<open>cJSON_Duplicate\<close> on trees in memory: the value of a tree, what it means that a second tree is a fresh copy, and that a copy that fails leaves the memory as it was.
\<close>

section \<open>The value of a tree\<close>

definition text_at :: "'n jheap \<Rightarrow> addr \<Rightarrow> u8 list option" where
  "text_at h a = (if a = NULL then None else read_str h a)"

type_synonym 'n item_data = "u32 \<times> u8 list option \<times> int \<times> 'n \<times> u8 list option"

definition data_at :: "'n jheap \<Rightarrow> addr \<Rightarrow> 'n item_data option" where
  "data_at h a = map_option (\<lambda>n. (jn_type n AND NOT cJSON_IsReference, text_at h (jn_valuestring n), jn_valueint n, jn_valuedouble n, text_at h (jn_string n))) (jh_items h a)"

datatype 'n jvalue = JV (jv_data: "'n item_data") (jv_children: "'n jvalue list")

fun jt_value :: "'n jheap \<Rightarrow> jtree \<Rightarrow> 'n jvalue" where
  "jt_value h (JT a ts) = JV (the (data_at h a)) (map (jt_value h) ts)"

text \<open>The items of a tree, here also those below references, and their texts.\<close>

fun jt_shape :: "(addr \<Rightarrow> 'n jnode option) \<Rightarrow> jtree \<Rightarrow> bool" where
  "jt_shape N (JT a ts) \<longleftrightarrow> a \<noteq> NULL \<and> (\<exists>n. N a = Some n \<and> chain N NULL (jn_child n) (map jt_root ts) NULL) \<and> (\<forall>t\<in>set ts. jt_shape N t)"

definition texts_ok :: "'n jheap \<Rightarrow> addr \<Rightarrow> bool" where
  "texts_ok h a \<longleftrightarrow> (\<forall>n. jh_items h a = Some n \<longrightarrow>
     (jn_valuestring n \<noteq> NULL \<longrightarrow> read_str h (jn_valuestring n) \<noteq> None) \<and> (jn_string n \<noteq> NULL \<longrightarrow> read_str h (jn_string n) \<noteq> None))"

definition jt_ok :: "'n jheap \<Rightarrow> jtree \<Rightarrow> bool" where
  "jt_ok h t \<longleftrightarrow> jt_shape (jh_items h) t \<and> (\<forall>a\<in>set (jt_nodes t). texts_ok h a)"

definition not_reference :: "(addr \<Rightarrow> 'n jnode option) \<Rightarrow> addr \<Rightarrow> bool" where
  "not_reference N a \<longleftrightarrow> (\<forall>n. N a = Some n \<longrightarrow> jn_type n AND cJSON_IsReference = 0)"

lemma jt_value_cong: "(\<And>a. a \<in> set (jt_nodes t) \<Longrightarrow> data_at h' a = data_at h a) \<Longrightarrow> jt_value h' t = jt_value h t"
  by (induction t) auto

lemma jt_shape_in: "jt_shape N t \<Longrightarrow> (\<And>a. a \<in> set (jt_nodes t) \<Longrightarrow> not_reference N a) \<Longrightarrow> jt_in N t"
proof (induction t)
  case (JT a ts)
  then obtain n where n: "N a = Some n" "chain N NULL (jn_child n) (map jt_root ts) NULL" by auto
  have "jt_in N t" if "t \<in> set ts" for t using JT.IH [OF that] JT.prems that by auto
  moreover have "jn_type n AND cJSON_IsReference = 0" using JT.prems(2) [of a] n(1) by (simp add: not_reference_def)
  ultimately show ?case using n by auto
qed

lemma jt_shape_alloc: "jt_shape N t \<Longrightarrow> a \<in> set (jt_nodes t) \<Longrightarrow> N a \<noteq> None \<and> a \<noteq> NULL"
  by (induction t) auto

lemma jt_shape_cong:
  assumes "\<And>a. a \<in> set (jt_nodes t) \<Longrightarrow> N' a = N a"
  shows "jt_shape N' t = jt_shape N t"
  using assms
proof (induction t)
  case (JT c us)
  have "links N' x = links N x" if "x \<in> set (map jt_root us)" for x using that JT.prems root_node by (intro links_cong) auto
  then have "chain N' NULL k (map jt_root us) NULL = chain N NULL k (map jt_root us) NULL" for k by (intro chain_cong)
  moreover have "jt_shape N' v = jt_shape N v" if "v \<in> set us" for v using JT.IH [OF that] JT.prems that by auto
  ultimately show ?case using JT.prems [of c] by simp
qed

text \<open>A tree keeps its form when the links of its root change, and no other item of it.\<close>

lemma jt_relink:
  assumes "map_option payload (N' (jt_root t)) = map_option payload (N (jt_root t))" and "\<And>a. a \<in> set (jt_nodes t) \<Longrightarrow> a \<noteq> jt_root t \<Longrightarrow> N' a = N a"
    and "distinct (jt_nodes t)"
  shows "jt_shape N' t = jt_shape N t" and "jt_strings N' t = jt_strings N t"
proof -
  obtain a ts where t: "t = JT a ts" by (cases t)
  have i: "N' b = N b" if "u \<in> set ts" "b \<in> set (jt_nodes u)" for u b using assms(2,3) that by (force simp: t)
  have s: "jt_shape N' u = jt_shape N u" "jt_strings N' u = jt_strings N u" if "u \<in> set ts" for u
  proof -
    show "jt_shape N' u = jt_shape N u" using jt_shape_cong [of u N' N] i [OF that] by blast
    show "jt_strings N' u = jt_strings N u" using jt_cong(2) [of u N' N] i [OF that] by blast
  qed
  have "links N' x = links N x" if "x \<in> set (map jt_root ts)" for x using that i root_node by (intro links_cong) auto
  then have c: "chain N' NULL k (map jt_root ts) NULL = chain N NULL k (map jt_root ts) NULL" for k by (intro chain_cong)
  have "map (jt_strings N') ts = map (jt_strings N) ts" using s(2) by simp
  moreover have "case_option [] own_strings (N' a) = case_option [] own_strings (N a)" "N' a = None \<longleftrightarrow> N a = None" "map_option jn_child (N' a) = map_option jn_child (N a)"
  proof -
    have p: "map_option payload (N' a) = map_option payload (N a)" using assms(1) by (simp add: t)
    have "own_strings n = own_strings (payload n)" "jn_child n = jn_child (payload n)" for n :: "'a jnode" by (simp_all add: own_strings_def payload_def)
    then show "case_option [] own_strings (N' a) = case_option [] own_strings (N a)" "N' a = None \<longleftrightarrow> N a = None" "map_option jn_child (N' a) = map_option jn_child (N a)"
      using p by (cases "N' a"; cases "N a"; metis option.simps map_option_eq_Some)+
  qed
  ultimately show "jt_shape N' t = jt_shape N t" "jt_strings N' t = jt_strings N t" using s(1) c by (auto simp: t simp del: map_eq_conv)
qed

section \<open>Fresh copies\<close>

text \<open>What \<open>malloc\<close> is going to give is in no use.\<close>

definition fresh_malloc :: "'n jheap \<Rightarrow> bool" where
  "fresh_malloc h \<longleftrightarrow> distinct (filter (\<lambda>a. a \<noteq> NULL) (jh_malloc h)) \<and>
     (\<forall>a\<in>set (jh_malloc h). a \<noteq> NULL \<longrightarrow> jh_items h a = None \<and> jh_strs h a = None \<and> jh_consts h a = None)"

text \<open>From \<open>h0\<close> to \<open>h\<close> the calls of \<open>malloc\<close> that gave \<open>pre\<close> made the tree \<open>t\<close>, and nothing else happened.\<close>

definition copy_of :: "'n jheap \<Rightarrow> 'n jheap \<Rightarrow> addr list \<Rightarrow> jtree \<Rightarrow> bool" where
  "copy_of h0 h pre t \<longleftrightarrow> jh_malloc h0 = pre @ jh_malloc h \<and> jh_consts h = jh_consts h0 \<and>
     set (jt_nodes t) \<union> set (jt_strings (jh_items h) t) \<subseteq> set pre - {NULL} \<and>
     (\<forall>a. a \<notin> set (jt_nodes t) \<longrightarrow> jh_items h a = jh_items h0 a) \<and> (\<forall>a. a \<notin> set (jt_strings (jh_items h) t) \<longrightarrow> jh_strs h a = jh_strs h0 a) \<and>
     forest h [t] \<and> loose h (jt_root t) \<and> jt_ok h t \<and> (\<forall>a\<in>set (jt_nodes t). not_reference (jh_items h) a)"

lemma fresh_mem: "fresh_malloc h \<Longrightarrow> a \<in> set (jh_malloc h) \<Longrightarrow> a \<noteq> NULL \<Longrightarrow> jh_items h a = None \<and> jh_strs h a = None \<and> jh_consts h a = None"
  by (simp add: fresh_malloc_def)

lemma copy_fresh:
  assumes "fresh_malloc h0" and "copy_of h0 h pre t"
  shows "fresh_malloc h"
proof -
  have m: "jh_malloc h0 = pre @ jh_malloc h" using assms(2) by (simp add: copy_of_def)
  have d: "a \<notin> set pre" if "a \<in> set (jh_malloc h)" "a \<noteq> NULL" for a using assms(1) that by (auto simp: fresh_malloc_def m)
  have "jh_items h a = None \<and> jh_strs h a = None \<and> jh_consts h a = None" if "a \<in> set (jh_malloc h)" "a \<noteq> NULL" for a
  proof -
    have "a \<notin> set (jt_nodes t)" "a \<notin> set (jt_strings (jh_items h) t)" using d [OF that] assms(2) by (auto simp: copy_of_def)
    then show ?thesis using assms(2) fresh_mem [OF assms(1), of a] that m by (simp add: copy_of_def)
  qed
  then show ?thesis using assms(1) by (auto simp: fresh_malloc_def m)
qed

lemma copy_old:
  assumes "fresh_malloc h0" and "copy_of h0 h pre t"
  shows "jh_items h0 a \<noteq> None \<Longrightarrow> jh_items h a = jh_items h0 a" and "read_str h0 a \<noteq> None \<Longrightarrow> a \<noteq> NULL \<Longrightarrow> read_str h a = read_str h0 a"
    and "a \<in> set (jt_nodes t) \<Longrightarrow> jh_items h0 a = None" and "a \<in> set (jt_strings (jh_items h) t) \<Longrightarrow> jh_strs h0 a = None"
proof -
  have new: "jh_items h0 b = None \<and> jh_strs h0 b = None \<and> jh_consts h0 b = None" if "b \<in> set (jt_nodes t) \<union> set (jt_strings (jh_items h) t)" for b
  proof -
    have "b \<in> set (jh_malloc h0)" "b \<noteq> NULL" using that assms(2) by (auto simp: copy_of_def)
    then show ?thesis using fresh_mem [OF assms(1)] by blast
  qed
  show "jh_items h a = jh_items h0 a" if "jh_items h0 a \<noteq> None" using new [of a] that assms(2) by (auto simp: copy_of_def)
  show "a \<in> set (jt_nodes t) \<Longrightarrow> jh_items h0 a = None" "a \<in> set (jt_strings (jh_items h) t) \<Longrightarrow> jh_strs h0 a = None" using new by blast+
  show "read_str h a = read_str h0 a" if "read_str h0 a \<noteq> None" "a \<noteq> NULL"
  proof -
    have "a \<notin> set (jt_strings (jh_items h) t)" using new [of a] that(1) by (auto simp: read_str_def)
    then have "jh_strs h a = jh_strs h0 a" "jh_consts h = jh_consts h0" using assms(2) by (simp_all add: copy_of_def)
    then show ?thesis by (simp add: read_str_def split: option.split)
  qed
qed

text \<open>Deleting a copy gives the memory back.\<close>

lemma copy_deleted:
  assumes "fresh_malloc h0" and "copy_of h0 h pre t"
  shows "cJSON_Delete (h\<lparr>jh_malloc := m\<rparr>) (jt_root t) = Some (h0\<lparr>jh_malloc := m\<rparr>)"
proof -
  have c: "forest (h\<lparr>jh_malloc := m\<rparr>) [t]" "links (jh_items h) (jt_root t) = Some (NULL, NULL)" "jt_ok h t"
    using assms(2) by (auto simp: copy_of_def forest_def loose_def)
  have "jt_root t \<noteq> NULL" using jt_shape_alloc [of "jh_items h" t "jt_root t"] c(3) root_node by (auto simp: jt_ok_def)
  then have "chain (jh_items (h\<lparr>jh_malloc := m\<rparr>)) NULL (jt_root t) (map jt_root [t]) NULL" using c(2) by (simp add: chain_cons)
  from delete_forest [OF c(1) this]
  have "cJSON_Delete (h\<lparr>jh_malloc := m\<rparr>) (jt_root t) = Some (without (h\<lparr>jh_malloc := m\<rparr>) (jt_nodes t) (jt_strings (jh_items h) t))" by simp
  moreover have "jh_items h |` (- set (jt_nodes t)) = jh_items h0"
    using copy_old(3) [OF assms] assms(2) by (intro ext) (auto simp: restrict_map_def copy_of_def)
  moreover have "jh_strs h |` (- set (jt_strings (jh_items h) t)) = jh_strs h0"
    using copy_old(4) [OF assms] assms(2) by (intro ext) (auto simp: restrict_map_def copy_of_def)
  moreover have "jh_consts h = jh_consts h0" using assms(2) by (simp add: copy_of_def)
  ultimately show ?thesis by (simp add: without_def)
qed

text \<open>Old trees keep their value.\<close>

lemma copy_value:
  assumes "fresh_malloc h0" and "copy_of h0 h pre t" and "jt_ok h0 u"
  shows "jt_ok h u" and "jt_value h u = jt_value h0 u" and "a \<in> set (jt_nodes u) \<Longrightarrow> jh_items h a = jh_items h0 a"
proof -
  have i: "jh_items h a = jh_items h0 a" if "a \<in> set (jt_nodes u)" for a
    using copy_old(1) [OF assms(1,2)] jt_shape_alloc that assms(3) unfolding jt_ok_def by blast
  then show "a \<in> set (jt_nodes u) \<Longrightarrow> jh_items h a = jh_items h0 a" .
  have t: "texts_ok h a \<and> data_at h a = data_at h0 a" if "a \<in> set (jt_nodes u)" for a
  proof -
    have "texts_ok h0 a" using that assms(3) by (simp add: jt_ok_def)
    then show ?thesis using i [OF that] copy_old(2) [OF assms(1,2)] by (cases "jh_items h0 a") (auto simp: texts_ok_def data_at_def text_at_def)
  qed
  show "jt_value h u = jt_value h0 u" by (rule jt_value_cong) (use t in blast)
  have "jt_shape (jh_items h) u = jt_shape (jh_items h0) u" by (rule jt_shape_cong) (rule i)
  then show "jt_ok h u" using t i assms(3) by (auto simp: jt_ok_def)
qed

section \<open>The copy of one item\<close>

lemma copy_leafI:
  assumes "jh_malloc h0 = pre @ jh_malloc h" and "jh_consts h = jh_consts h0" and "jh_items h = (jh_items h0)(r \<mapsto> n)" and "distinct (own_strings n)"
    and "set (r # own_strings n) \<subseteq> set pre - {NULL}" and "\<And>a. a \<notin> set (own_strings n) \<Longrightarrow> jh_strs h a = jh_strs h0 a" and "set (own_strings n) \<subseteq> dom (jh_strs h)"
    and "jn_next n = NULL" and "jn_prev n = NULL" and "jn_child n = NULL" and "jn_type n AND cJSON_IsReference = 0" and "texts_ok h r"
  shows "copy_of h0 h pre (JT r [])"
  using assms by (simp add: copy_of_def forest_def loose_def links_def jt_ok_def not_reference_def)

lemma jheap_malloc_only:
  fixes h h' :: "'n jheap"
  shows "jh_items h' = jh_items h \<Longrightarrow> jh_strs h' = jh_strs h \<Longrightarrow> jh_consts h' = jh_consts h \<Longrightarrow> h' = h\<lparr>jh_malloc := jh_malloc h'\<rparr>"
  by (cases h; cases h') simp

lemma strdup_copies:
  assumes "s \<noteq> NULL \<Longrightarrow> read_str h s \<noteq> None"
  shows "\<exists>h' c pre. (if s \<noteq> NULL then cJSON_strdup h s else Some (h, NULL)) = Some (h', c) \<and> jh_malloc h = pre @ jh_malloc h' \<and> jh_items h' = jh_items h \<and> jh_consts h' = jh_consts h \<and>
    (if c = NULL then jh_strs h' = jh_strs h \<and> (s \<noteq> NULL \<longrightarrow> NULL \<in> set pre \<or> jh_malloc h' = [])
     else s \<noteq> NULL \<and> pre = [c] \<and> jh_strs h' = (jh_strs h)(c := read_str h s))"
proof (cases "s = NULL")
  case False
  then obtain t where t: "read_str h s = Some t" using assms by auto
  show ?thesis
  proof (cases "jh_malloc h")
    case Nil
    then show ?thesis using False t by (intro exI [of _ h] exI [of _ NULL] exI [of _ "[]"]) (simp add: cJSON_strdup_def malloc_def)
  next
    case (Cons c m)
    show ?thesis
    proof (cases "c = NULL")
      case True
      then show ?thesis using False t Cons by (intro exI [of _ "h\<lparr>jh_malloc := m\<rparr>"] exI [of _ NULL] exI [of _ "[NULL]"]) (simp add: cJSON_strdup_def malloc_def)
    next
      case c: False
      then show ?thesis using False t Cons
        by (intro exI [of _ "h\<lparr>jh_malloc := m, jh_strs := (jh_strs h)(c \<mapsto> t)\<rparr>"] exI [of _ c] exI [of _ "[c]"]) (simp add: cJSON_strdup_def malloc_def)
    qed
  qed
qed simp

text \<open>What a call that makes a copy has done.\<close>

definition copied :: "'n jheap \<Rightarrow> ('n jheap \<times> addr) option \<Rightarrow> (jtree \<Rightarrow> 'n jheap \<Rightarrow> bool) \<Rightarrow> bool" where
  "copied h res Q \<longleftrightarrow> (\<exists>h' r pre. res = Some (h', r) \<and>
     (if r = NULL then jh_malloc h = pre @ jh_malloc h' \<and> h' = h\<lparr>jh_malloc := jh_malloc h'\<rparr> \<and> (NULL \<in> set pre \<or> jh_malloc h' = [])
      else \<exists>t. copy_of h h' pre t \<and> jt_root t = r \<and> Q t h'))"

lemma copied_fail:
  assumes "jh_malloc h = pre @ jh_malloc h'" and "h' = h\<lparr>jh_malloc := jh_malloc h'\<rparr>" and "NULL \<in> set pre \<or> jh_malloc h' = []"
  shows "copied h (Some (h', NULL)) Q"
  unfolding copied_def using assms by (intro exI [of _ h'] exI [of _ NULL] exI [of _ pre]) simp

lemma copied_ok: "copy_of h h' pre t \<Longrightarrow> Q t h' \<Longrightarrow> copied h (Some (h', jt_root t)) Q"
  unfolding copied_def using root_node [of t] by (intro exI [of _ h'] exI [of _ "jt_root t"] exI [of _ pre]) (auto simp: copy_of_def)

text \<open>When a call of \<open>malloc\<close> has failed, the half-made copy is given back.\<close>

lemma copied_given_back:
  assumes "fresh_malloc h" and "copy_of h h1 pre t" and "h' = h1\<lparr>jh_malloc := jh_malloc h'\<rparr>" and "jh_malloc h1 = pre' @ jh_malloc h'" and "NULL \<in> set pre' \<or> jh_malloc h' = []"
  shows "copied h (duplicate_fail h' (jt_root t)) Q"
proof -
  have "jt_root t \<noteq> NULL" using assms(2) root_node [of t] by (auto simp: copy_of_def)
  moreover have "cJSON_Delete h' (jt_root t) = Some (h\<lparr>jh_malloc := jh_malloc h'\<rparr>)" using copy_deleted [OF assms(1,2), of "jh_malloc h'"] assms(3) by simp
  ultimately have "duplicate_fail h' (jt_root t) = Some (h\<lparr>jh_malloc := jh_malloc h'\<rparr>, NULL)" by (simp add: duplicate_fail_def)
  moreover have "copied h (Some (h\<lparr>jh_malloc := jh_malloc h'\<rparr>, NULL)) Q"
    by (rule copied_fail [of _ "pre @ pre'"]) (use assms(2,4,5) in \<open>auto simp: copy_of_def\<close>)
  ultimately show ?thesis by simp
qed

lemma flag_simps: "((x :: u32) AND - 257) AND cJSON_StringIsConst = x AND cJSON_StringIsConst" "((x :: u32) AND - 257) AND cJSON_IsReference = 0" "((x :: u32) AND - 257) AND - 257 = x AND - 257"
  by (simp_all add: and.assoc)

text \<open>A new item with a copy of a text in one of its fields.\<close>

lemma duplicate_item_copied:
  assumes "fresh_malloc h" and "jh_items h a = Some i" and "a \<noteq> NULL" and "texts_ok h a"
  shows "copied h (duplicate_item nc h a) (\<lambda>t h'. jt_children t = [] \<and> data_at h' (jt_root t) = data_at h a)"
proof (cases "jh_malloc h")
  case Nil
  have "duplicate_item nc h a = Some (h, NULL)" using Nil assms(3) by (simp add: duplicate_item_def new_item_def malloc_def duplicate_fail_def)
  then show ?thesis using copied_fail [of h "[]" h] Nil by simp
next
  case (Cons x m)
  show ?thesis
  proof (cases "x = NULL")
    case True
    have "duplicate_item nc h a = Some (h\<lparr>jh_malloc := m\<rparr>, NULL)" using Cons True assms(3) by (simp add: duplicate_item_def new_item_def malloc_def duplicate_fail_def)
    then show ?thesis using copied_fail [of h "[NULL]" "h\<lparr>jh_malloc := m\<rparr>"] Cons True by simp
  next
    case x: False
    let ?zn = "zero_node nc" and ?Q = "\<lambda>t h'. jt_children t = [] \<and> data_at h' (jt_root t) = data_at h a"
    have nx: "jh_items h x = None" "x \<noteq> a" using fresh_mem [OF assms(1), of x] Cons x assms(2) by auto
    define n2 where "n2 = ?zn\<lparr>jn_type := jn_type i AND NOT cJSON_IsReference, jn_valueint := jn_valueint i, jn_valuedouble := jn_valuedouble i\<rparr>"
    define h2 where "h2 = h\<lparr>jh_items := (jh_items h)(x \<mapsto> n2), jh_malloc := m\<rparr>"
    have f2: "jn_type n2 = jn_type i AND NOT cJSON_IsReference" "jn_next n2 = NULL" "jn_prev n2 = NULL" "jn_child n2 = NULL" "jn_valuestring n2 = NULL" "jn_string n2 = NULL"
        "jn_valueint n2 = jn_valueint i" "jn_valuedouble n2 = jn_valuedouble i"
      by (simp_all add: n2_def zero_node_def)
    have own2: "own_strings n2 = []" by (simp add: own_strings_def f2)
    have c2: "copy_of h h2 [x] (JT x [])" by (rule copy_leafI) (use Cons x f2 own2 in \<open>auto simp: h2_def texts_ok_def flag_simps\<close>)
    note old2 = copy_old [OF assms(1) c2] and fr2 = copy_fresh [OF assms(1) c2]
    have rv: "read_str h2 (jn_valuestring i) \<noteq> None" if "jn_valuestring i \<noteq> NULL" using old2(2) assms(2,4) that by (simp add: texts_ok_def)
    from strdup_copies [of "jn_valuestring i" h2, OF rv] obtain h3 vs pre1 where
      s3: "(if jn_valuestring i \<noteq> NULL then cJSON_strdup h2 (jn_valuestring i) else Some (h2, NULL)) = Some (h3, vs)"
      and m3: "jh_malloc h2 = pre1 @ jh_malloc h3" "jh_items h3 = jh_items h2" "jh_consts h3 = jh_consts h2"
      and v3: "if vs = NULL then jh_strs h3 = jh_strs h2 \<and> (jn_valuestring i \<noteq> NULL \<longrightarrow> NULL \<in> set pre1 \<or> jh_malloc h3 = [])
        else jn_valuestring i \<noteq> NULL \<and> pre1 = [vs] \<and> jh_strs h3 = (jh_strs h2)(vs := read_str h2 (jn_valuestring i))"
      by blast
    define n4 where "n4 = n2\<lparr>jn_valuestring := vs\<rparr>"
    define h4 where "h4 = h3\<lparr>jh_items := (jh_items h)(x \<mapsto> n4)\<rparr>"
    have s4: "jset h3 x (jn_valuestring_update (\<lambda>_. vs)) = Some h4" using m3(2) by (simp add: jset_def h2_def h4_def n4_def)
    have start: "duplicate_item nc h a = (if jn_valuestring i \<noteq> NULL \<and> vs = NULL then duplicate_fail h4 x else do {
        (h5, name) \<leftarrow> (if jn_string i = NULL then Some (h4, NULL)
          else if jn_type i AND cJSON_StringIsConst \<noteq> 0 then Some (h4, jn_string i) else cJSON_strdup h4 (jn_string i));
        h6 \<leftarrow> jset h5 x (jn_string_update (\<lambda>_. name));
        if jn_string i \<noteq> NULL \<and> name = NULL then duplicate_fail h6 x else Some (h6, x) })"
    proof -
      have n: "new_item nc h = (h\<lparr>jh_items := (jh_items h)(x \<mapsto> ?zn), jh_malloc := m\<rparr>, x)" using Cons x by (simp add: new_item_def malloc_def)
      have j: "jset (h\<lparr>jh_items := (jh_items h)(x \<mapsto> ?zn), jh_malloc := m\<rparr>) x (\<lambda>n. n\<lparr>jn_type := jn_type i AND NOT cJSON_IsReference, jn_valueint := jn_valueint i, jn_valuedouble := jn_valuedouble i\<rparr>) = Some h2"
        by (simp add: jset_def h2_def n2_def)
      have ia: "jh_items (h\<lparr>jh_items := (jh_items h)(x \<mapsto> ?zn), jh_malloc := m\<rparr>) a = Some i" using nx(2) assms(2) by simp
      show ?thesis unfolding duplicate_item_def n Let_def prod.case ia bind.bind_lunit j s3 s4 using assms(3) x by simp
    qed
    show ?thesis
    proof (cases "jn_valuestring i \<noteq> NULL \<and> vs = NULL")
      case True
      have "h4 = h2\<lparr>jh_malloc := jh_malloc h4\<rparr>"
      proof -
        have "n2\<lparr>jn_valuestring := jn_valuestring n2\<rparr> = n2" by simp
        then have "n4 = n2" using True f2(5) by (simp add: n4_def)
        then show ?thesis by (intro jheap_malloc_only) (use True v3 m3 in \<open>simp_all add: h4_def h2_def\<close>)
      qed
      from copied_given_back [OF assms(1) c2 this] m3(1) v3 True have "copied h (duplicate_fail h4 (jt_root (JT x []))) ?Q" by (auto simp: h4_def)
      then show ?thesis using True by (simp add: start)
    next
      case V: False
      note start = start [unfolded if_not_P [OF V]]
      have f4: "jn_type n4 = jn_type i AND NOT cJSON_IsReference" "jn_next n4 = NULL" "jn_prev n4 = NULL" "jn_child n4 = NULL" "jn_valuestring n4 = vs" "jn_string n4 = NULL"
        "jn_valueint n4 = jn_valueint i" "jn_valuedouble n4 = jn_valuedouble i" by (simp_all add: n4_def f2)
      have own4: "own_strings n4 = (if vs = NULL then [] else [vs])" by (simp add: own_strings_def f4 flag_simps)
      have S4: "jh_strs h4 = (if vs = NULL then jh_strs h else (jh_strs h)(vs := read_str h2 (jn_valuestring i)))" "vs \<noteq> NULL \<Longrightarrow> vs \<in> set pre1"
          "jh_items h4 = (jh_items h)(x \<mapsto> n4)" "jh_consts h4 = jh_consts h" "jh_malloc h = (x # pre1) @ jh_malloc h4"
        using v3 m3 Cons by (auto simp: h4_def h2_def split: if_splits)
      have c4: "copy_of h h4 (x # pre1) (JT x [])"
        by (rule copy_leafI [of _ _ _ _ n4]) (use S4 x f4 own4 rv v3 in \<open>auto simp: texts_ok_def read_str_def flag_simps split: if_splits option.splits\<close>)
      have rn: "read_str h4 (jn_string i) = read_str h (jn_string i)" "read_str h4 (jn_string i) \<noteq> None" if "jn_string i \<noteq> NULL"
        using copy_old(2) [OF assms(1) c4] assms(2,4) that by (simp_all add: texts_ok_def)
      note fr4 = copy_fresh [OF assms(1) c4]
      have ending: "copied h (do { h6 \<leftarrow> jset h5 x (jn_string_update (\<lambda>_. name)); if jn_string i \<noteq> NULL \<and> name = NULL then duplicate_fail h6 x else Some (h6, x) }) ?Q"
        if h5: "jh_malloc h4 = pre2 @ jh_malloc h5" "jh_items h5 = jh_items h4" "jh_consts h5 = jh_consts h4"
          and S5: "jh_strs h5 = (if name \<noteq> NULL \<and> jn_type i AND cJSON_StringIsConst = 0 then (jh_strs h4)(name := read_str h (jn_string i)) else jh_strs h4)"
          and nm: "name \<noteq> NULL \<Longrightarrow> jn_string i \<noteq> NULL \<and> (if jn_type i AND cJSON_StringIsConst = 0 then name \<in> set pre2 else name = jn_string i)"
          and fl: "jn_string i \<noteq> NULL \<and> name = NULL \<Longrightarrow> NULL \<in> set pre2 \<or> jh_malloc h5 = []"
        for h5 name pre2
      proof -
        define n6 where "n6 = n4\<lparr>jn_string := name\<rparr>"
        define h6 where "h6 = h5\<lparr>jh_items := (jh_items h)(x \<mapsto> n6)\<rparr>"
        have s6: "jset h5 x (jn_string_update (\<lambda>_. name)) = Some h6" using h5(2) S4(3) by (simp add: jset_def h6_def n6_def)
        show ?thesis
        proof (cases "jn_string i \<noteq> NULL \<and> name = NULL")
          case True
          have "h6 = h4\<lparr>jh_malloc := jh_malloc h6\<rparr>"
          proof -
            have "n4\<lparr>jn_string := jn_string n4\<rparr> = n4" by simp
            then have "n6 = n4" using True f4(6) by (simp add: n6_def)
            then show ?thesis by (intro jheap_malloc_only) (use True h5 S5 S4 in \<open>simp_all add: h6_def\<close>)
          qed
          from copied_given_back [OF assms(1) c4 this] h5(1) fl [OF True] have "copied h (duplicate_fail h6 (jt_root (JT x []))) ?Q" by (auto simp: h6_def)
          then show ?thesis using True s6 by simp
        next
          case N: False
          have f6: "jn_type n6 = jn_type i AND NOT cJSON_IsReference" "jn_next n6 = NULL" "jn_prev n6 = NULL" "jn_child n6 = NULL" "jn_valuestring n6 = vs" "jn_string n6 = name"
            "jn_valueint n6 = jn_valueint i" "jn_valuedouble n6 = jn_valuedouble i" by (simp_all add: n6_def f4)
          have I6: "jh_items h6 = (jh_items h)(x \<mapsto> n6)" "jh_strs h6 = jh_strs h5" "jh_consts h6 = jh_consts h" "jh_malloc h = (x # pre1 @ pre2) @ jh_malloc h6"
            using h5 S4 by (simp_all add: h6_def)
          have own6: "own_strings n6 = (if vs = NULL then [] else [vs]) @ (if name \<noteq> NULL \<and> jn_type i AND cJSON_StringIsConst = 0 then [name] else [])"
            by (simp add: own_strings_def f6 flag_simps)
          have vs: "jh_strs h4 vs = read_str h (jn_valuestring i)" "read_str h (jn_valuestring i) \<noteq> None" if "vs \<noteq> NULL"
            using S4(1) that v3 rv old2(2) [of "jn_valuestring i"] assms(2,4) by (auto simp: texts_ok_def)
          have ne: "name \<noteq> vs" if "vs \<noteq> NULL" "name \<noteq> NULL" "jn_type i AND cJSON_StringIsConst = 0"
          proof -
            have "name \<in> set (jh_malloc h4)" using nm that h5(1) by simp
            then show ?thesis using fresh_mem [OF fr4, of name] that vs by auto
          qed
          have tv: "jh_strs h6 vs = read_str h (jn_valuestring i)" if "vs \<noteq> NULL" using that vs ne S5 I6(2) by auto
          have tn: "read_str h6 name = read_str h (jn_string i)" if "name \<noteq> NULL"
          proof (cases "jn_type i AND cJSON_StringIsConst = 0")
            case True
            then show ?thesis using that S5 I6(2) nm rn by (auto simp: read_str_def split: option.split)
          next
            case False
            then have "read_str h6 name = read_str h4 name" using S5 I6(2,3) S4(4) by (simp add: read_str_def split: option.split)
            then show ?thesis using that nm rn False by auto
          qed
          have rv6: "read_str h6 vs = read_str h (jn_valuestring i)" if "vs \<noteq> NULL" using tv [OF that] vs(2) [OF that] by (auto simp: read_str_def)
          have "copy_of h h6 (x # pre1 @ pre2) (JT x [])"
          proof (rule copy_leafI [of _ _ _ _ n6])
            show "distinct (own_strings n6)" using ne by (auto simp: own6)
            show "set (x # own_strings n6) \<subseteq> set (x # pre1 @ pre2) - {NULL}" using x nm S4(2) by (auto simp: own6 split: if_splits)
            show "jh_strs h6 a = jh_strs h a" if "a \<notin> set (own_strings n6)" for a using that S4(1) S5 I6(2) by (auto simp: own6 split: if_splits)
            show "set (own_strings n6) \<subseteq> dom (jh_strs h6)" using tv vs(2) S5 I6(2) nm rn by (auto simp: own6 split: if_splits)
            show "texts_ok h6 x" using tn rv6 vs(2) nm rn by (auto simp: texts_ok_def I6 f6)
          qed (use I6 f6 flag_simps in auto)
          moreover have "data_at h6 x = data_at h a"
          proof -
            have "text_at h6 vs = text_at h (jn_valuestring i)" using rv6 v3 V by (cases "vs = NULL") (auto simp: text_at_def)
            moreover have "text_at h6 name = text_at h (jn_string i)" using tn nm N by (cases "name = NULL") (auto simp: text_at_def)
            ultimately show ?thesis using assms(2) by (simp add: data_at_def I6 f6 flag_simps)
          qed
          ultimately have "copied h (Some (h6, jt_root (JT x []))) ?Q" by (intro copied_ok) simp_all
          then show ?thesis using N s6 by (auto simp del: word_neq_0_conv)
        qed
      qed
      show ?thesis
      proof (cases "jn_type i AND cJSON_StringIsConst = 0 \<and> jn_string i \<noteq> NULL")
        case True
        from strdup_copies [of "jn_string i" h4, OF rn(2)] obtain h5 name pre2 where
          s5: "(if jn_string i \<noteq> NULL then cJSON_strdup h4 (jn_string i) else Some (h4, NULL)) = Some (h5, name)"
          and m5: "jh_malloc h4 = pre2 @ jh_malloc h5" "jh_items h5 = jh_items h4" "jh_consts h5 = jh_consts h4"
          and v5: "if name = NULL then jh_strs h5 = jh_strs h4 \<and> (jn_string i \<noteq> NULL \<longrightarrow> NULL \<in> set pre2 \<or> jh_malloc h5 = [])
            else jn_string i \<noteq> NULL \<and> pre2 = [name] \<and> jh_strs h5 = (jh_strs h4)(name := read_str h4 (jn_string i))"
          by blast
        have "copied h (do { h6 \<leftarrow> jset h5 x (jn_string_update (\<lambda>_. name)); if jn_string i \<noteq> NULL \<and> name = NULL then duplicate_fail h6 x else Some (h6, x) }) ?Q"
          by (rule ending [OF m5]) (use v5 True rn(1) in \<open>auto split: if_splits\<close>)
        then show ?thesis using True s5 by (simp add: start)
      next
        case False
        have "copied h (do { h6 \<leftarrow> jset h4 x (jn_string_update (\<lambda>_. jn_string i)); if jn_string i \<noteq> NULL \<and> jn_string i = NULL then duplicate_fail h6 x else Some (h6, x) }) ?Q"
          by (rule ending [of "[]"]) (use False in auto)
        then show ?thesis using False by (auto simp: start)
      qed
    qed
  qed
qed

section \<open>The loop over the children\<close>

text \<open>Linking siblings and the first child changes neither the data nor the strings of an item.\<close>

definition core :: "'n jnode \<Rightarrow> 'n jnode" where
  "core n = payload (n\<lparr>jn_child := NULL\<rparr>)"

lemma same_but_core:
  assumes "same_but p N N'"
  shows "map_option core (N' a) = map_option core (N a)"
proof (cases "a = p")
  case False
  have "core n = core (payload n)" for n :: "'a jnode" by (simp add: core_def payload_def)
  then have c: "map_option core M = map_option core (map_option payload M)" for M :: "'a jnode option" by (cases M) simp_all
  have "map_option payload (N' a) = map_option payload (N a)" using assms False by (simp add: same_but_def)
  then show ?thesis unfolding c [of "N' a"] c [of "N a"] by (rule arg_cong)
next
  case True
  then show ?thesis using assms unfolding same_but_def core_def by blast
qed

lemma core_fields:
  fixes m n :: "'n jnode"
  assumes "core m = core n"
  shows "jn_type m = jn_type n" "jn_valuestring m = jn_valuestring n" "jn_valueint m = jn_valueint n" "jn_valuedouble m = jn_valuedouble n" "jn_string m = jn_string n"
  using assms by (cases m; cases n; simp add: core_def payload_def)+

lemma same_but_node:
  assumes "same_but p (jh_items h) N"
  shows "data_at (h\<lparr>jh_items := N\<rparr>) a = data_at h a" and "texts_ok (h\<lparr>jh_items := N\<rparr>) a = texts_ok h a" and "not_reference N a = not_reference (jh_items h) a"
    and "case_option [] own_strings (N a) = case_option [] own_strings (jh_items h a)"
proof -
  have r: "read_str (h\<lparr>jh_items := N\<rparr>) = read_str h" "text_at (h\<lparr>jh_items := N\<rparr>) = text_at h" by (simp_all add: fun_eq_iff read_str_def text_at_def split: option.split)
  have "map_option core (N a) = map_option core (jh_items h a)" by (rule same_but_core [OF assms])
  then consider "N a = None" "jh_items h a = None" | m n where "N a = Some m" "jh_items h a = Some n" "core m = core n"
    by (cases "N a"; cases "jh_items h a") auto
  then have "data_at (h\<lparr>jh_items := N\<rparr>) a = data_at h a \<and> texts_ok (h\<lparr>jh_items := N\<rparr>) a = texts_ok h a \<and> not_reference N a = not_reference (jh_items h) a \<and>
      case_option [] own_strings (N a) = case_option [] own_strings (jh_items h a)"
  proof cases
    case (2 m n)
    then show ?thesis using core_fields [OF 2(3)] by (simp add: data_at_def texts_ok_def not_reference_def own_strings_def r)
  qed (simp add: data_at_def texts_ok_def not_reference_def)
  then show "data_at (h\<lparr>jh_items := N\<rparr>) a = data_at h a" "texts_ok (h\<lparr>jh_items := N\<rparr>) a = texts_ok h a" "not_reference N a = not_reference (jh_items h) a"
      "case_option [] own_strings (N a) = case_option [] own_strings (jh_items h a)"
    by blast+
qed

lemma inner_no_root:
  assumes "distinct (concat (map jt_nodes us))" and "u \<in> set us" and "b \<in> set (jt_nodes u)" and "b \<noteq> jt_root u"
  shows "b \<notin> set (map jt_root us)"
proof
  assume "b \<in> set (map jt_root us)"
  then obtain v where v: "v \<in> set us" "b = jt_root v" by auto
  have "v \<noteq> u" using v(2) assms(4) by auto
  then have "set (jt_nodes v) \<inter> set (jt_nodes u) = {}" using assms(1,2) v(1)
    by (induction us) fastforce+
  then show False using assms(3) v(2) root_node by blast
qed

text \<open>The step of the loop that links a child is an addition.\<close>

lemma link_is_add:
  assumes "children h p xs" and "c \<noteq> NULL"
  shows "(if (if xs = [] then NULL else last xs) \<noteq> NULL then suffix_object h (if xs = [] then NULL else last xs) c else jset h p (jn_child_update (\<lambda>_. c))) = cJSON_AddItemToArray h p c"
proof -
  obtain n where n: "p \<noteq> NULL" "jh_items h p = Some n" "chain (jh_items h) NULL (jn_child n) xs NULL" using assms(1) by (auto simp: children_def)
  show ?thesis
  proof (cases "xs = []")
    case True
    then show ?thesis using n assms(2) by (simp add: cJSON_AddItemToArray_def)
  next
    case False
    have "jn_child n \<noteq> NULL" "last xs \<noteq> NULL" using chain_first [OF n(3)] False by (metis list.set_sel(1), metis last_in_set)
    then show ?thesis using n assms(2) False last_loop_chain [OF n(3) False] by (simp add: cJSON_AddItemToArray_def)
  qed
qed

lemma roots_in: "set (map jt_root us) \<subseteq> set (concat (map jt_nodes us))"
  using root_node by auto

lemma roots_distinct: "distinct (concat (map jt_nodes us)) \<Longrightarrow> distinct (map jt_root us)"
proof (induction us)
  case (Cons u us)
  then have "set (jt_nodes u) \<inter> set (concat (map jt_nodes us)) = {}" "distinct (map jt_root us)" by simp_all
  then have "jt_root u \<notin> set (map jt_root us)" using root_node [of u] roots_in [of us] by blast
  then show ?case using Cons by simp
qed simp

lemma copyD:
  assumes "copy_of h0 h pre t"
  shows "jh_malloc h0 = pre @ jh_malloc h" and "jh_consts h = jh_consts h0" and "set (jt_nodes t) \<subseteq> set pre - {NULL}" and "set (jt_strings (jh_items h) t) \<subseteq> set pre - {NULL}"
    and "\<And>a. a \<notin> set (jt_nodes t) \<Longrightarrow> jh_items h a = jh_items h0 a" and "\<And>a. a \<notin> set (jt_strings (jh_items h) t) \<Longrightarrow> jh_strs h a = jh_strs h0 a"
    and "distinct (jt_nodes t)" and "distinct (jt_strings (jh_items h) t)" and "set (jt_strings (jh_items h) t) \<subseteq> dom (jh_strs h)"
    and "loose h (jt_root t)" and "jt_ok h t" and "\<And>a. a \<in> set (jt_nodes t) \<Longrightarrow> not_reference (jh_items h) a"
  using assms by (auto simp: copy_of_def forest_def)

lemma copyI:
  assumes "jh_malloc h0 = pre @ jh_malloc h" and "jh_consts h = jh_consts h0" and "set (jt_nodes t) \<subseteq> set pre - {NULL}" and "set (jt_strings (jh_items h) t) \<subseteq> set pre - {NULL}"
    and "\<And>a. a \<notin> set (jt_nodes t) \<Longrightarrow> jh_items h a = jh_items h0 a" and "\<And>a. a \<notin> set (jt_strings (jh_items h) t) \<Longrightarrow> jh_strs h a = jh_strs h0 a"
    and "distinct (jt_nodes t)" and "distinct (jt_strings (jh_items h) t)" and "set (jt_strings (jh_items h) t) \<subseteq> dom (jh_strs h)"
    and "loose h (jt_root t)" and "jt_ok h t" and "\<And>a. a \<in> set (jt_nodes t) \<Longrightarrow> not_reference (jh_items h) a"
  shows "copy_of h0 h pre t"
proof -
  have "jt_in (jh_items h) t" using assms(11,12) jt_shape_in by (auto simp: jt_ok_def)
  then show ?thesis using assms by (simp add: copy_of_def forest_def)
qed

text \<open>A copy with one more child; everything apart from links and first children is as before the link was made.\<close>

lemma copy_append:
  assumes fr: "fresh_malloc h0" and R: "copy_of h0 h pre (JT r ds)" and C: "copy_of h h1 pre1 c"
  shows "\<exists>N. cJSON_AddItemToArray h1 r (jt_root c) = Some (h1\<lparr>jh_items := N\<rparr>) \<and> copy_of h0 (h1\<lparr>jh_items := N\<rparr>) (pre @ pre1) (JT r (ds @ [c])) \<and> same_but r (jh_items h1) N"
proof -
  note [simp del] = jt_strings.simps
  note frh = copy_fresh [OF fr R]
  let ?us = "ds @ [c]"
  have Rok: "jt_ok h (JT r ds)" using R by (simp add: copy_of_def)
  note old = copy_value [OF frh C Rok]
  have Rr: "r \<noteq> NULL" "\<exists>n. jh_items h1 r = Some n \<and> chain (jh_items h1) NULL (jn_child n) (map jt_root ds) NULL" "\<And>t. t \<in> set ds \<Longrightarrow> jt_shape (jh_items h1) t"
    using old(1) by (auto simp: jt_ok_def)
  have sR: "jt_strings (jh_items h1) (JT r ds) = jt_strings (jh_items h) (JT r ds)" by (rule jt_cong(2)) (rule old(3))
  have dn: "distinct (jt_nodes (JT r ds) @ jt_nodes c)"
  proof -
    have "set (jt_nodes (JT r ds)) \<inter> set (jt_nodes c) = {}" using copy_old(3) [OF frh C] jt_shape_alloc Rok unfolding jt_ok_def by blast
    then show ?thesis unfolding distinct_append using copyD(7) [OF R] copyD(7) [OF C] by blast
  qed
  have ds_: "distinct (jt_strings (jh_items h) (JT r ds) @ jt_strings (jh_items h1) c)"
  proof -
    have "set (jt_strings (jh_items h) (JT r ds)) \<subseteq> dom (jh_strs h)" by (rule copyD(9) [OF R])
    then have "set (jt_strings (jh_items h) (JT r ds)) \<inter> set (jt_strings (jh_items h1) c) = {}" using copy_old(4) [OF frh C] by blast
    then show ?thesis unfolding distinct_append using copyD(8) [OF R] copyD(8) [OF C] by blast
  qed
  have ch: "children h1 r (map jt_root ds)"
  proof -
    have "r \<notin> set (map jt_root ds)" "distinct (map jt_root ds)" using dn roots_distinct [of ds] roots_in [of ds] by auto
    then show ?thesis using Rr(1,2) unfolding children_def by auto
  qed
  have rs: "set (r # map jt_root ds) \<subseteq> set (jt_nodes (JT r ds))" using root_node by auto
  have cn: "jt_root c \<notin> set (r # map jt_root ds)" "jt_root c \<noteq> NULL" "loose h1 (jt_root c)"
  proof -
    show "jt_root c \<notin> set (r # map jt_root ds)" using dn root_node [of c] rs unfolding distinct_append by blast
    show "jt_root c \<noteq> NULL" using jt_shape_alloc [of "jh_items h1" c "jt_root c"] root_node copyD(11) [OF C] by (simp add: jt_ok_def)
  qed (rule copyD(10) [OF C])
  from add_children [OF ch cn] obtain N where N: "cJSON_AddItemToArray h1 r (jt_root c) = Some (h1\<lparr>jh_items := N\<rparr>)"
    "children (h1\<lparr>jh_items := N\<rparr>) r (map jt_root ?us)" "same_but r (jh_items h1) N" "same_out (set (r # map jt_root ?us)) (jh_items h1) N"
    "links N r = links (jh_items h1) r"
    by auto
  let ?h2 = "h1\<lparr>jh_items := N\<rparr>"
  note same = same_but_node [OF N(3)]
  have du: "distinct (r # concat (map jt_nodes ?us))" using dn by simp
  have rel: "jt_shape N t = jt_shape (jh_items h1) t" "jt_strings N t = jt_strings (jh_items h1) t" if "t \<in> set ?us" for t
  proof -
    have "jt_root t \<in> set (concat (map jt_nodes ?us))" by (rule subsetD [OF roots_in]) (use that in auto)
    then have "jt_root t \<noteq> r" using du by (auto simp del: concat_append map_append)
    moreover have "distinct (jt_nodes t)" using du that by (auto simp: distinct_concat_iff)
    ultimately have t: "jt_root t \<noteq> r" "distinct (jt_nodes t)" .
    have p: "map_option payload (N (jt_root t)) = map_option payload (jh_items h1 (jt_root t))" using N(3) t(1) by (simp add: same_but_def)
    have i: "N a = jh_items h1 a" if a: "a \<in> set (jt_nodes t)" "a \<noteq> jt_root t" for a
    proof -
      have "a \<notin> set (map jt_root ?us)" using inner_no_root [of ?us t a] du that \<open>t \<in> set ?us\<close> by simp
      moreover have "a \<noteq> r" using du a(1) \<open>t \<in> set ?us\<close> by auto
      ultimately show ?thesis using N(4) by (simp add: same_out_def)
    qed
    show "jt_shape N t = jt_shape (jh_items h1) t" "jt_strings N t = jt_strings (jh_items h1) t" using jt_relink [where N' = N and N = "jh_items h1", OF p i t(2)] by blast+
  qed
  have str: "jt_strings N (JT r ?us) = jt_strings (jh_items h) (JT r ds) @ jt_strings (jh_items h1) c"
  proof -
    have m: "map (jt_strings N) ds = map (jt_strings (jh_items h1)) ds" "jt_strings N c = jt_strings (jh_items h1) c" using rel(2) by simp_all
    have "jt_strings N (JT r ?us) = jt_strings (jh_items h1) (JT r ds) @ jt_strings (jh_items h1) c"
      unfolding jt_strings.simps same(4) [of r] map_append concat_append m(1) by (simp add: m(2))
    then show ?thesis unfolding sR .
  qed
  have nodes: "jt_nodes (JT r ?us) = jt_nodes (JT r ds) @ jt_nodes c" by simp
  have "copy_of h0 ?h2 (pre @ pre1) (JT r ?us)"
  proof (rule copyI)
    show "jh_malloc h0 = (pre @ pre1) @ jh_malloc ?h2" "jh_consts ?h2 = jh_consts h0" using copyD(1,2) [OF R] copyD(1,2) [OF C] by simp_all
    show "set (jt_nodes (JT r ?us)) \<subseteq> set (pre @ pre1) - {NULL}" unfolding nodes using copyD(3) [OF R] copyD(3) [OF C] by auto
    show "set (jt_strings (jh_items ?h2) (JT r ?us)) \<subseteq> set (pre @ pre1) - {NULL}" using copyD(4) [OF R] copyD(4) [OF C] str by auto
    show "jh_items ?h2 a = jh_items h0 a" if "a \<notin> set (jt_nodes (JT r ?us))" for a
    proof -
      have a: "a \<notin> set (jt_nodes (JT r ds))" "a \<notin> set (jt_nodes c)" "a \<notin> set (r # map jt_root ?us)" using that root_node by (auto simp: nodes)
      have "N a = jh_items h1 a" using N(4) a(3) by (simp add: same_out_def)
      then show ?thesis using copyD(5) [OF R a(1)] copyD(5) [OF C a(2)] by simp
    qed
    show "jh_strs ?h2 a = jh_strs h0 a" if "a \<notin> set (jt_strings (jh_items ?h2) (JT r ?us))" for a
    proof -
      have a: "a \<notin> set (jt_strings (jh_items h) (JT r ds))" "a \<notin> set (jt_strings (jh_items h1) c)" using that str by auto
      show ?thesis using copyD(6) [OF R a(1)] copyD(6) [OF C a(2)] by simp
    qed
    show "distinct (jt_nodes (JT r ?us))" unfolding nodes by (rule dn)
    show "distinct (jt_strings (jh_items ?h2) (JT r ?us))" using ds_ str by simp
    show "set (jt_strings (jh_items ?h2) (JT r ?us)) \<subseteq> dom (jh_strs ?h2)"
    proof -
      have "jh_strs h1 a = jh_strs h a" if "a \<in> set (jt_strings (jh_items h) (JT r ds))" for a
        by (rule copyD(6) [OF C]) (use that ds_ in auto)
      then show ?thesis using copyD(9) [OF R] copyD(9) [OF C] str by (auto simp: dom_def subset_eq)
    qed
    show "loose ?h2 (jt_root (JT r ?us))"
    proof -
      have "loose h r" using copyD(10) [OF R] by simp
      moreover have "jh_items h1 r = jh_items h r" using old(3) by simp
      ultimately show ?thesis using N(5) by (simp add: loose_def links_def)
    qed
    show "jt_ok ?h2 (JT r ?us)"
    proof -
      have "jt_shape (jh_items h1) t" if "t \<in> set ?us" for t using that Rr(3) copyD(11) [OF C] by (auto simp: jt_ok_def)
      then have "jt_shape N (JT r ?us)" using Rr(1) N(2) rel(1) by (auto simp: children_def)
      moreover have "texts_ok ?h2 a" if "a \<in> set (jt_nodes (JT r ?us))" for a
        using that same(2) old(1) copyD(11) [OF C] unfolding nodes by (auto simp: jt_ok_def)
      ultimately show ?thesis by (simp add: jt_ok_def)
    qed
    show "not_reference (jh_items ?h2) a" if "a \<in> set (jt_nodes (JT r ?us))" for a
    proof (cases "a \<in> set (jt_nodes c)")
      case True
      then show ?thesis using copyD(12) [OF C] same(3) by simp
    next
      case False
      then have "a \<in> set (jt_nodes (JT r ds))" using that nodes by auto
      then show ?thesis using copyD(12) [OF R] old(3) same(3) [of a] by (simp add: not_reference_def)
    qed
  qed
  then show ?thesis using N by blast
qed

lemma copiedE:
  assumes "copied h res Q"
  obtains (failed) h' pre where "res = Some (h', NULL)" "jh_malloc h = pre @ jh_malloc h'" "h' = h\<lparr>jh_malloc := jh_malloc h'\<rparr>" "NULL \<in> set pre \<or> jh_malloc h' = []"
  | (made) h' pre t where "res = Some (h', jt_root t)" "jt_root t \<noteq> NULL" "copy_of h h' pre t" "Q t h'"
  using assms unfolding copied_def by (metis (no_types, lifting))

lemma jt_ok_sub: "jt_ok h (JT a ts) \<Longrightarrow> t \<in> set ts \<Longrightarrow> jt_ok h t"
  by (auto simp: jt_ok_def)

lemma duplicate_loop_copied:
  assumes "\<And>u h. u \<in> set us \<Longrightarrow> fresh_malloc h \<Longrightarrow> jt_ok h u \<Longrightarrow> copied h (cJSON_Duplicate nc h (jt_root u) True) (\<lambda>t h'. jt_value h' t = jt_value h u)"
    and "fresh_malloc h0" and "\<And>u. u \<in> set us \<Longrightarrow> jt_ok h0 u" and "copy_of h0 h pre (JT r ds)" and "chain (jh_items h0) pv a (map jt_root us) NULL"
  shows "copied h0 (duplicate_loop nc h r a (if ds = [] then NULL else last (map jt_root ds)))
    (\<lambda>t h'. jt_value h' t = JV (the (data_at h r)) (map (jt_value h) ds @ map (jt_value h0) us))"
  using assms
proof (induction us arbitrary: h pre ds pv a)
  case Nil
  then have "a = NULL" by simp
  then have "duplicate_loop nc h r a (if ds = [] then NULL else last (map jt_root ds)) = Some (h, jt_root (JT r ds))" by (subst duplicate_loop.simps) simp
  then show ?case using copied_ok [OF Nil.prems(4)] by simp
next
  case (Cons u us)
  note frh = copy_fresh [OF Cons.prems(2,4)]
  obtain n where n: "a = jt_root u" "a \<noteq> NULL" "jh_items h0 a = Some n" "chain (jh_items h0) a (jn_next n) (map jt_root us) NULL"
    using Cons.prems(5) by (auto simp: chain.simps(2))
  let ?next = "if ds = [] then NULL else last (map jt_root ds)" and ?Q = "\<lambda>t h'. jt_value h' t = JV (the (data_at h r)) (map (jt_value h) ds @ map (jt_value h0) (u # us))"
  note uo = copy_value [OF Cons.prems(2,4) Cons.prems(3) [of u, OF list.set_intros(1)]]
  from Cons.prems(1) [OF list.set_intros(1) frh uo(1)] show ?case
  proof (cases rule: copiedE)
    case (failed h1 pre1)
    have "duplicate_loop nc h r a ?next = duplicate_fail h1 (jt_root (JT r ds))" using n(1,2) failed(1) by (subst duplicate_loop_calls) simp
    then show ?thesis using copied_given_back [OF Cons.prems(2,4) failed(3,2,4)] by simp
  next
    case (made h1 pre1 c)
    obtain N where N: "cJSON_AddItemToArray h1 r (jt_root c) = Some (h1\<lparr>jh_items := N\<rparr>)" "copy_of h0 (h1\<lparr>jh_items := N\<rparr>) (pre @ pre1) (JT r (ds @ [c]))" "same_but r (jh_items h1) N"
      using copy_append [OF Cons.prems(2,4) made(3)] by blast
    let ?h2 = "h1\<lparr>jh_items := N\<rparr>"
    have ok: "jt_ok h (JT r ds)" by (rule copyD(11) [OF Cons.prems(4)])
    note old = copy_value [OF frh made(3)]
    have d: "data_at ?h2 b = data_at h1 b" for b by (rule same_but_node(1) [OF N(3)])
    have v: "jt_value ?h2 t = jt_value h1 t" for t by (rule jt_value_cong) (rule d)
    have ch: "children h1 r (map jt_root ds)"
    proof -
      have "jt_nodes (JT r ds) = r # concat (map jt_nodes ds)" by simp
      then have "distinct (r # map jt_root ds)" using copyD(7) [OF Cons.prems(4)] roots_distinct [of ds] roots_in [of ds] by auto
      then show ?thesis using old(1) [OF ok] unfolding children_def by (auto simp: jt_ok_def)
    qed
    have lk: "(if ?next \<noteq> NULL then suffix_object h1 ?next (jt_root c) else jset h1 r (jn_child_update (\<lambda>_. jt_root c))) = Some ?h2"
      using link_is_add [OF ch made(2)] N(1) by (cases "ds = []") (auto split: if_splits)
    have "jh_items ?h2 a = Some n" using copy_old(1) [OF Cons.prems(2) N(2), of a] n(3) by simp
    then have "duplicate_loop nc h r a ?next = duplicate_loop nc ?h2 r (jn_next n) (jt_root c)"
      using n(1,2) made(1,2) lk by (subst duplicate_loop_calls) simp
    moreover have c: "copied h0 (duplicate_loop nc ?h2 r (jn_next n) (if ds @ [c] = [] then NULL else last (map jt_root (ds @ [c]))))
      (\<lambda>t h'. jt_value h' t = JV (the (data_at ?h2 r)) (map (jt_value ?h2) (ds @ [c]) @ map (jt_value h0) us))"
      by (rule Cons.IH [OF Cons.prems(1) Cons.prems(2) Cons.prems(3) N(2) n(4)]) simp_all
    moreover have e: "JV (the (data_at ?h2 r)) (map (jt_value ?h2) (ds @ [c]) @ map (jt_value h0) us) = JV (the (data_at h r)) (map (jt_value h) ds @ map (jt_value h0) (u # us))"
    proof -
      have "jt_value h1 (JT r ds) = jt_value h (JT r ds)" by (rule old(2) [OF ok])
      then show ?thesis using made(4) uo(2) d v by simp
    qed
    ultimately show ?thesis using c [unfolded e] by simp
  qed
qed

lemma duplicate_copied:
  "fresh_malloc h \<Longrightarrow> jt_ok h t \<Longrightarrow> copied h (cJSON_Duplicate nc h (jt_root t) True) (\<lambda>u h'. jt_value h' u = jt_value h t)"
proof (induction t arbitrary: h)
  case (JT a ts)
  obtain n where n: "a \<noteq> NULL" "jh_items h a = Some n" "chain (jh_items h) NULL (jn_child n) (map jt_root ts) NULL" "texts_ok h a" using JT.prems(2) by (auto simp: jt_ok_def)
  from duplicate_item_copied [OF JT.prems(1) n(2,1,4), of nc] show ?case
  proof (cases rule: copiedE)
    case (failed h' pre)
    then show ?thesis using copied_fail [OF failed(2,3,4)] by (simp add: cJSON_Duplicate_def)
  next
    case (made h' pre c)
    then obtain r where r: "c = JT r []" by (cases c) simp
    have "jh_items h' a = Some n" using copy_old(1) [OF JT.prems(1) made(3), of a] n(2) by simp
    then have e: "cJSON_Duplicate nc h (jt_root (JT a ts)) True = duplicate_loop nc h' r (jn_child n) NULL"
      using made(1,2) r by (simp add: cJSON_Duplicate_def)
    note loop = duplicate_loop_copied [of ts nc h h' pre r "[]", OF JT.IH JT.prems(1) jt_ok_sub [OF JT.prems(2)] made(3) [unfolded r] n(3)]
    have "copied h (duplicate_loop nc h' r (jn_child n) NULL) (\<lambda>u h''. jt_value h'' u = JV (the (data_at h' r)) (map (jt_value h) ts))"
      using loop by simp
    then show ?thesis unfolding e using made(4) r by simp
  qed
qed

section \<open>Copies of trees\<close>

text \<open>
  C20 (roundtrip). \<open>cJSON_Duplicate\<close> of a tree, with its children, is defined whichever calls of \<open>malloc\<close> fail. Either one of them failed, and the items and strings are exactly those
  before the call; or it gives a tree with the same value as the original (the type without the flag of a reference), made only of memory that \<open>malloc\<close> gave, the original keeps its
  value, and \<open>cJSON_Delete\<close> of the copy gives back exactly what the copy took.
\<close>

theorem duplicate_copies:
  assumes "fresh_malloc h" and "jt_ok h t"
  shows "\<exists>h' r. cJSON_Duplicate nc h (jt_root t) True = Some (h', r) \<and>
    (if r = NULL then h' = h\<lparr>jh_malloc := jh_malloc h'\<rparr> \<and> (\<exists>pre. jh_malloc h = pre @ jh_malloc h' \<and> (NULL \<in> set pre \<or> jh_malloc h' = []))
     else \<exists>u. jt_root u = r \<and> jt_ok h' u \<and> forest h' [u] \<and> jt_value h' u = jt_value h t \<and> set (jt_nodes u) \<subseteq> set (jh_malloc h) \<and> jt_value h' t = jt_value h t \<and>
       cJSON_Delete h' r = Some (h\<lparr>jh_malloc := jh_malloc h'\<rparr>))"
  using duplicate_copied [OF assms, of nc]
proof (cases rule: copiedE)
  case (failed h' pre)
  then show ?thesis by (intro exI [of _ h'] exI [of _ NULL]) auto
next
  case (made h' pre u)
  have "cJSON_Delete h' (jt_root u) = Some (h\<lparr>jh_malloc := jh_malloc h'\<rparr>)" using copy_deleted [OF assms(1) made(3), of "jh_malloc h'"] by simp
  moreover have "set (jt_nodes u) \<subseteq> set (jh_malloc h)" using copyD(1,3) [OF made(3)] by auto
  moreover have "forest h' [u]" using made(3) by (simp add: copy_of_def)
  ultimately show ?thesis using made(1,2,4) copyD(11) [OF made(3)] copy_value(2) [OF assms(1) made(3) assms(2)]
    by (intro exI [of _ h'] exI [of _ "jt_root u"]) auto
qed

text \<open>The array 1 with a string as its only child; 40 to 44 are free.\<close>

definition demo_copy :: "addr list \<Rightarrow> int jheap" where
  "demo_copy m = \<lparr>jh_items = [1 \<mapsto> \<lparr>jn_next = 0, jn_prev = 0, jn_child = 2, jn_type = cJSON_Array, jn_valuestring = 0, jn_valueint = 0, jn_valuedouble = 0, jn_string = 0\<rparr>,
     2 \<mapsto> \<lparr>jn_next = 0, jn_prev = 0, jn_child = 0, jn_type = cJSON_String OR cJSON_StringIsConst, jn_valuestring = 20, jn_valueint = 0, jn_valuedouble = 0, jn_string = 30\<rparr>],
   jh_strs = [20 \<mapsto> ascii ''text''], jh_consts = [30 \<mapsto> ascii ''name''], jh_malloc = m\<rparr>"

definition demo_conv :: "int numconv" where
  "demo_conv = \<lparr>nc_zero = 0, nc_ge_max = (\<lambda>n. 2147483647 \<le> n), nc_le_min = (\<lambda>n. n \<le> - 2147483648), nc_trunc = id, nc_of_int = id\<rparr>"

lemmas demo_run = cJSON_Duplicate_def duplicate_item_def new_item_def malloc_def jset_def cJSON_strdup_def read_str_def duplicate_fail_def demo_copy_def demo_conv_def zero_node_def

lemma duplicate_copies_witness:
  "\<exists>h' h''. cJSON_Duplicate demo_conv (demo_copy [40, 41, 42, 43]) 1 True = Some (h', 40) \<and> jh_malloc h' = [43] \<and> cJSON_Delete h' 40 = Some h'' \<and>
    jh_items h'' = jh_items (demo_copy []) \<and> cJSON_Duplicate demo_conv (demo_copy [40, 41, 0]) 1 True = Some (demo_copy [], 0)"
proof -
  let ?t = "JT 1 [JT 2 []]"
  have ok: "jt_ok (demo_copy m) ?t" for m by (simp add: jt_ok_def chain_cons links_def texts_ok_def read_str_def demo_copy_def)
  have f: "fresh_malloc (demo_copy [40, 41, 42, 43])" "fresh_malloc (demo_copy [40, 41, 0])" by (simp_all add: fresh_malloc_def demo_copy_def)
  have run: "\<exists>h'. cJSON_Duplicate demo_conv (demo_copy [40, 41, 42, 43]) 1 True = Some (h', 40) \<and> jh_malloc h' = [43]"
    by (simp add: demo_run duplicate_loop.simps [of _ _ _ 0] duplicate_loop.simps [of _ _ _ 2])
  have bad: "\<exists>h'. cJSON_Duplicate demo_conv (demo_copy [40, 41, 0]) 1 True = Some (h', 0) \<and> jh_malloc h' = []"
    by (simp add: demo_run duplicate_loop.simps [of _ _ _ 0] duplicate_loop.simps [of _ _ _ 2] cJSON_Delete.simps [of _ 41] cJSON_Delete.simps [of _ 40] cJSON_Delete.simps [of _ 0] free_string_unless_def free_item_def)
  show ?thesis using duplicate_copies [OF f(1) ok, of demo_conv] duplicate_copies [OF f(2) ok, of demo_conv] run bad by (auto simp: demo_copy_def)
qed

end
