(* ===== verification/Cjson_Compare.thy ===== *)
theory Cjson_Compare
  imports Cjson_Duplicate
begin

unbundle bit_operations_syntax

text \<open>
  \<open>cJSON_Compare\<close> and the lookup of members by name, against definitions on the values of trees.
\<close>

section \<open>Equality of values\<close>

definition jv_kind :: "'n jvalue \<Rightarrow> u32" where
  "jv_kind v = fst (jv_data v) AND 0xFF"

definition jv_text :: "'n jvalue \<Rightarrow> u8 list option" where
  "jv_text v = fst (snd (jv_data v))"

definition jv_number :: "'n jvalue \<Rightarrow> 'n" where
  "jv_number v = fst (snd (snd (snd (jv_data v))))"

definition jv_name :: "'n jvalue \<Rightarrow> u8 list option" where
  "jv_name v = snd (snd (snd (snd (jv_data v))))"

definition same_text :: "bool \<Rightarrow> u8 list \<Rightarrow> u8 list \<Rightarrow> bool" where
  "same_text case_sensitive s t \<longleftrightarrow> (if case_sensitive then s = t else map c_tolower s = map c_tolower t)"

definition same_name :: "bool \<Rightarrow> 'n jvalue \<Rightarrow> 'n jvalue \<Rightarrow> bool" where
  "same_name case_sensitive v w = (case (jv_name v, jv_name w) of (Some s, Some t) \<Rightarrow> same_text case_sensitive s t | _ \<Rightarrow> False)"

lemma child_smaller: "x \<in> set (jv_children v) \<Longrightarrow> size x < size v"
  by (cases v) (auto dest: size_list_estimation' [where f = size, OF _ order_refl])

lemma find_mem: "find P xs = Some x \<Longrightarrow> x \<in> set xs"
  by (auto simp: find_Some_iff)

lemma zip_smaller: "p \<in> set (zip (jv_children v) (jv_children w)) \<Longrightarrow> size (fst p) + size (snd p) < size v + size w"
  by (cases p) (auto dest!: in_set_zipE child_smaller intro!: add_less_mono elim!: in_set_zipE)

lemma find_smaller:
  assumes "find P (jv_children w) = Some y" and "x \<in> set (jv_children v)"
  shows "size x + size y < size v + size w" and "size x + size y < size w + size v"
  using child_smaller [OF find_mem [OF assms(1)]] child_smaller [OF assms(2)] by simp_all

text \<open>Arrays are compared in order, objects in both directions, each member with the first member of its name on the other side.\<close>

function jv_equal :: "('n \<Rightarrow> 'n \<Rightarrow> bool) \<Rightarrow> bool \<Rightarrow> 'n jvalue \<Rightarrow> 'n jvalue \<Rightarrow> bool" where
  "jv_equal eq cs v w \<longleftrightarrow> jv_kind v = jv_kind w \<and> valid_kind (jv_kind v) \<and>
     (if jv_kind v = cJSON_Number then eq (jv_number v) (jv_number w)
      else if jv_kind v = cJSON_String \<or> jv_kind v = cJSON_Raw then jv_text v \<noteq> None \<and> jv_text v = jv_text w
      else if jv_kind v = cJSON_Array then
        length (jv_children v) = length (jv_children w) \<and> (\<forall>p\<in>set (zip (jv_children v) (jv_children w)). jv_equal eq cs (fst p) (snd p))
      else if jv_kind v = cJSON_Object then
        (\<forall>x\<in>set (jv_children v). case find (same_name cs x) (jv_children w) of None \<Rightarrow> False | Some y \<Rightarrow> jv_equal eq cs x y) \<and>
        (\<forall>y\<in>set (jv_children w). case find (same_name cs y) (jv_children v) of None \<Rightarrow> False | Some x \<Rightarrow> jv_equal eq cs y x)
      else True)"
  by pat_completeness auto
termination
  by (relation "measure (\<lambda>(eq, cs, v, w). size v + size w)") (simp_all add: zip_smaller case_prod_unfold find_smaller)

declare jv_equal.simps [simp del]

lemma strcmp_loop_zero: "strcmp_loop s t = 0 \<longleftrightarrow> map c_tolower s = map c_tolower t" if "0 \<notin> set s" "0 \<notin> set t"
  using that
  by (induction s t rule: strcmp_loop.induct) (auto simp: unsigned_eq_0_iff word_uint_eq_iff [symmetric])

section \<open>Reading a tree\<close>

text \<open>The children of an object have names, and names are texts without zeros.\<close>

fun jv_named :: "'n jvalue \<Rightarrow> bool" where
  "jv_named (JV d vs) \<longleftrightarrow> (jv_kind (JV d vs) = cJSON_Object \<longrightarrow> (\<forall>v\<in>set vs. jv_name v \<noteq> None \<and> 0 \<notin> set (the (jv_name v)))) \<and> (\<forall>v\<in>set vs. jv_named v)"

lemma low_bits: "((x :: u32) AND - 257) AND 0xFF = x AND 0xFF"
  by (simp add: and.assoc)

lemma tree_root:
  assumes "jt_ok h t"
  obtains n where "jt_root t \<noteq> NULL" "jh_items h (jt_root t) = Some n" "jv_kind (jt_value h t) = jn_type n AND 0xFF" "jv_text (jt_value h t) = text_at h (jn_valuestring n)"
    "jv_number (jt_value h t) = jn_valuedouble n" "jv_name (jt_value h t) = text_at h (jn_string n)" "jv_children (jt_value h t) = map (jt_value h) (jt_children t)"
    "chain (jh_items h) NULL (jn_child n) (map jt_root (jt_children t)) NULL" "texts_ok h (jt_root t)"
proof -
  obtain a ts where t: "t = JT a ts" by (cases t)
  obtain n where n: "a \<noteq> NULL" "jh_items h a = Some n" "chain (jh_items h) NULL (jn_child n) (map jt_root ts) NULL" "texts_ok h a" using assms by (auto simp: jt_ok_def t)
  show thesis by (rule that [of n]) (use n in \<open>simp_all add: t data_at_def jv_kind_def jv_text_def jv_number_def jv_name_def low_bits\<close>)
qed

lemma text_at_read: "text_at h a = Some s \<longleftrightarrow> a \<noteq> NULL \<and> read_str h a = Some s"
  by (simp add: text_at_def)

lemma names_differ_text:
  assumes "text_at h a = Some s" and "text_at h b = Some t" and "0 \<notin> set s" and "0 \<notin> set t"
  shows "names_differ h cs a b = Some (\<not> same_text cs s t)"
  using assms by (auto simp: names_differ_def case_insensitive_strcmp_def same_text_def text_at_read strcmp_loop_zero)

lemma lookup_chain:
  assumes "chain (jh_items h) pv a (map jt_root us) NULL" and "\<And>u. u \<in> set us \<Longrightarrow> jt_ok h u \<and> jv_name (jt_value h u) \<noteq> None \<and> 0 \<notin> set (the (jv_name (jt_value h u)))"
    and "text_at h name = Some s" and "0 \<notin> set s"
  shows "lookup_loop h cs name a = Some (case find (\<lambda>u. same_text cs s (the (jv_name (jt_value h u)))) us of None \<Rightarrow> NULL | Some u \<Rightarrow> jt_root u)"
  using assms(1,2)
proof (induction us arbitrary: pv a)
  case Nil
  then show ?case by (simp add: lookup_loop.simps)
next
  case (Cons u us)
  obtain n where n: "a = jt_root u" "a \<noteq> NULL" "jh_items h a = Some n" "chain (jh_items h) a (jn_next n) (map jt_root us) NULL" using Cons.prems(1) by (auto simp: chain.simps(2))
  obtain t where t: "jv_name (jt_value h u) = Some t" "0 \<notin> set t" using Cons.prems(2) [of u] by auto
  have "jt_ok h u" using Cons.prems(2) [of u] by simp
  then obtain m where "jh_items h (jt_root u) = Some m" "jv_name (jt_value h u) = text_at h (jn_string m)" by (rule tree_root)
  then have "text_at h (jn_string n) = Some t" using n t by simp
  then have "names_differ h cs name (jn_string n) = Some (\<not> same_text cs s t)" using names_differ_text [OF assms(3) _ assms(4) t(2)] by blast
  then show ?case using n t(1) Cons.IH [OF n(4)] Cons.prems(2) by (subst lookup_loop.simps) simp
qed

lemma find_map: "find P (map f xs) = map_option f (find (\<lambda>x. P (f x)) xs)"
  by (induction xs) auto

text \<open>The lookup of the name of one item among the members of another.\<close>

lemma member_lookup:
  assumes "jt_ok h u" and "\<And>v. v \<in> set (jt_children u) \<Longrightarrow> jv_name (jt_value h v) \<noteq> None \<and> 0 \<notin> set (the (jv_name (jt_value h v)))"
    and "jv_name (jt_value h t) = Some s" and "0 \<notin> set s" and "text_at h name = Some s"
  shows "get_object_item h (jt_root u) name cs = Some (case find (\<lambda>v. same_name cs (jt_value h t) (jt_value h v)) (jt_children u) of None \<Rightarrow> NULL | Some v \<Rightarrow> jt_root v)"
proof -
  from assms(1) obtain n where n: "jt_root u \<noteq> NULL" "jh_items h (jt_root u) = Some n" "chain (jh_items h) NULL (jn_child n) (map jt_root (jt_children u)) NULL" by (rule tree_root)
  have k: "jt_ok h v" if "v \<in> set (jt_children u)" for v using assms(1) that by (cases u) (auto simp: jt_ok_def)
  have "find (\<lambda>v. same_name cs (jt_value h t) (jt_value h v)) (jt_children u) = find (\<lambda>v. same_text cs s (the (jv_name (jt_value h v)))) (jt_children u)"
    by (rule find_cong, rule refl) (use assms(2,3) in \<open>force simp: same_name_def split: option.split\<close>)
  then show ?thesis using n lookup_chain [OF n(3) _ assms(5,4), of cs] k assms(2,5) by (auto simp: get_object_item_def text_at_read)
qed

section \<open>The loops of the comparison\<close>

lemma compare_arrays:
  assumes "\<And>t u. t \<in> set ts \<Longrightarrow> u \<in> set us \<Longrightarrow> compare_run eq h cs (Compare_Items (jt_root t) (jt_root u)) = Some (jv_equal eq cs (jt_value h t) (jt_value h u))"
    and "chain (jh_items h) pv a (map jt_root ts) NULL" and "chain (jh_items h) pw b (map jt_root us) NULL"
  shows "compare_run eq h cs (Compare_Arrays a b) =
    Some (length ts = length us \<and> (\<forall>p\<in>set (zip ts us). jv_equal eq cs (jt_value h (fst p)) (jt_value h (snd p))))"
  using assms
proof (induction ts us arbitrary: pv pw a b rule: list_induct2')
  case (4 t ts u us)
  obtain m n where mn: "a = jt_root t" "b = jt_root u" "a \<noteq> NULL" "b \<noteq> NULL" "jh_items h a = Some m" "jh_items h b = Some n"
      "chain (jh_items h) a (jn_next m) (map jt_root ts) NULL" "chain (jh_items h) b (jn_next n) (map jt_root us) NULL"
    using 4(3,4) by (auto simp: chain.simps(2))
  have "compare_run eq h cs (Compare_Items a b) = Some (jv_equal eq cs (jt_value h t) (jt_value h u))" using 4(2) [of t u] mn by simp
  moreover have "compare_run eq h cs (Compare_Arrays (jn_next m) (jn_next n)) =
      Some (length ts = length us \<and> (\<forall>p\<in>set (zip ts us). jv_equal eq cs (jt_value h (fst p)) (jt_value h (snd p))))"
    by (rule 4(1) [OF _ mn(7,8)]) (rule 4(2); simp)
  ultimately show ?case using mn(3-6) by (subst compare_run.simps) simp
qed (subst compare_run.simps, auto simp: chain.simps(2))+

lemma compare_members:
  assumes "\<And>t v. t \<in> set ts \<Longrightarrow> v \<in> set (jt_children u) \<Longrightarrow> compare_run eq h cs (Compare_Items (jt_root t) (jt_root v)) = Some (jv_equal eq cs (jt_value h t) (jt_value h v))"
    and "chain (jh_items h) pv a (map jt_root ts) NULL" and "\<And>t. t \<in> set ts \<Longrightarrow> jt_ok h t \<and> jv_name (jt_value h t) \<noteq> None \<and> 0 \<notin> set (the (jv_name (jt_value h t)))"
    and "jt_ok h u" and "\<And>v. v \<in> set (jt_children u) \<Longrightarrow> jt_root v \<noteq> NULL \<and> jv_name (jt_value h v) \<noteq> None \<and> 0 \<notin> set (the (jv_name (jt_value h v)))"
  shows "compare_run eq h cs (Compare_Members a (jt_root u)) =
    Some (\<forall>t\<in>set ts. case find (\<lambda>v. same_name cs (jt_value h t) (jt_value h v)) (jt_children u) of None \<Rightarrow> False | Some v \<Rightarrow> jv_equal eq cs (jt_value h t) (jt_value h v))"
  using assms(1-3)
proof (induction ts arbitrary: pv a)
  case Nil
  then show ?case by (subst compare_run.simps) simp
next
  case (Cons t ts)
  obtain n where n: "a = jt_root t" "a \<noteq> NULL" "jh_items h a = Some n" "chain (jh_items h) a (jn_next n) (map jt_root ts) NULL" using Cons.prems(2) by (auto simp: chain.simps(2))
  have t: "jt_ok h t" "\<exists>s. jv_name (jt_value h t) = Some s \<and> 0 \<notin> set s" using Cons.prems(3) [of t] by auto
  then obtain s where s: "jv_name (jt_value h t) = Some s" "0 \<notin> set s" by blast
  from t(1) obtain m where "jh_items h (jt_root t) = Some m" "jv_name (jt_value h t) = text_at h (jn_string m)" by (rule tree_root)
  then have "text_at h (jn_string n) = Some s" using n s by simp
  then have g: "get_object_item h (jt_root u) (jn_string n) cs =
      Some (case find (\<lambda>v. same_name cs (jt_value h t) (jt_value h v)) (jt_children u) of None \<Rightarrow> NULL | Some v \<Rightarrow> jt_root v)"
    using member_lookup [OF assms(4) _ s] assms(5) by blast
  have r: "compare_run eq h cs (Compare_Members (jn_next n) (jt_root u)) =
    Some (\<forall>t\<in>set ts. case find (\<lambda>v. same_name cs (jt_value h t) (jt_value h v)) (jt_children u) of None \<Rightarrow> False | Some v \<Rightarrow> jv_equal eq cs (jt_value h t) (jt_value h v))"
    by (rule Cons.IH [OF _ n(4)]) (use Cons.prems(1,3) in auto)
  show ?case
  proof (cases "find (\<lambda>v. same_name cs (jt_value h t) (jt_value h v)) (jt_children u)")
    case None
    then show ?thesis using n(2,3) g by (subst compare_run.simps) simp
  next
    case (Some v)
    have v: "v \<in> set (jt_children u)" using find_mem [OF Some] .
    have "compare_run eq h cs (Compare_Items a (jt_root v)) = Some (jv_equal eq cs (jt_value h t) (jt_value h v))" using Cons.prems(1) [of t v] v n(1) by simp
    then show ?thesis using n(2,3) g r Some assms(5) [OF v] by (subst compare_run.simps) simp
  qed
qed

section \<open>The comparison\<close>

lemma compare_items:
  assumes "jt_ok h t" and "jt_ok h u" and "set (jt_nodes t) \<inter> set (jt_nodes u) = {}" and "jv_named (jt_value h t)" and "jv_named (jt_value h u)"
  shows "compare_run eq h cs (Compare_Items (jt_root t) (jt_root u)) = Some (jv_equal eq cs (jt_value h t) (jt_value h u))"
  using assms
proof (induction "size t + size u" arbitrary: t u rule: less_induct)
  case less
  from less.prems(1) obtain m where m: "jt_root t \<noteq> NULL" "jh_items h (jt_root t) = Some m" "jv_kind (jt_value h t) = jn_type m AND 0xFF" "jv_text (jt_value h t) = text_at h (jn_valuestring m)"
    "jv_number (jt_value h t) = jn_valuedouble m" "jv_name (jt_value h t) = text_at h (jn_string m)" "jv_children (jt_value h t) = map (jt_value h) (jt_children t)"
    "chain (jh_items h) NULL (jn_child m) (map jt_root (jt_children t)) NULL" "texts_ok h (jt_root t)" by (rule tree_root)
  from less.prems(2) obtain n where n: "jt_root u \<noteq> NULL" "jh_items h (jt_root u) = Some n" "jv_kind (jt_value h u) = jn_type n AND 0xFF" "jv_text (jt_value h u) = text_at h (jn_valuestring n)"
    "jv_number (jt_value h u) = jn_valuedouble n" "jv_name (jt_value h u) = text_at h (jn_string n)" "jv_children (jt_value h u) = map (jt_value h) (jt_children u)"
    "chain (jh_items h) NULL (jn_child n) (map jt_root (jt_children u)) NULL" "texts_ok h (jt_root u)" by (rule tree_root)
  have ne: "jt_root t \<noteq> jt_root u" using less.prems(3) root_node [of t] root_node [of u] by auto
  have sub: "jt_ok h v \<and> jv_named (jt_value h v) \<and> size v < size w \<and> set (jt_nodes v) \<subseteq> set (jt_nodes w) \<and> jt_root v \<noteq> NULL"
    if "jt_ok h w" "jv_named (jt_value h w)" "v \<in> set (jt_children w)" for v w
  proof -
    obtain a ws where w: "w = JT a ws" by (cases w)
    have "jt_ok h v" using that jt_ok_sub w by auto
    moreover have "jt_root v \<noteq> NULL" using calculation jt_shape_alloc root_node by (auto simp: jt_ok_def)
    moreover have "size v < size w" using that(3) size_list_estimation' [of v ws "size v" size] by (simp add: w)
    ultimately show ?thesis using that w by auto
  qed
  note st = sub [OF less.prems(1,4)] and su = sub [OF less.prems(2,5)]
  have down: "compare_run eq h cs (Compare_Items (jt_root v) (jt_root w)) = Some (jv_equal eq cs (jt_value h v) (jt_value h w))"
    if "v \<in> set (jt_children t)" "w \<in> set (jt_children u)" for v w
    by (rule less.hyps) (use st [OF that(1)] su [OF that(2)] less.prems(3) in auto)
  have up: "compare_run eq h cs (Compare_Items (jt_root w) (jt_root v)) = Some (jv_equal eq cs (jt_value h w) (jt_value h v))"
    if "v \<in> set (jt_children t)" "w \<in> set (jt_children u)" for v w
    by (rule less.hyps) (use st [OF that(1)] su [OF that(2)] less.prems(3) in auto)
  have nm: "jv_name (jt_value h v) \<noteq> None \<and> 0 \<notin> set (the (jv_name (jt_value h v)))"
    if "jv_named (jt_value h w)" "jv_kind (jt_value h w) = cJSON_Object" "v \<in> set (jt_children w)" for v w
    using that by (cases w) auto
  let ?k = "jn_type m AND 0xFF" and ?V = "jt_value h" and ?call = "\<lambda>c. compare_run eq h cs c"
  have run: "?call (Compare_Items (jt_root t) (jt_root u)) =
      (if ?k \<noteq> jn_type n AND 0xFF \<or> \<not> valid_kind ?k then Some False
       else if ?k = cJSON_Number then Some (eq (jn_valuedouble m) (jn_valuedouble n))
       else if ?k = cJSON_String \<or> ?k = cJSON_Raw then compare_strings h (jn_valuestring m) (jn_valuestring n)
       else if ?k = cJSON_Array then ?call (Compare_Arrays (jn_child m) (jn_child n))
       else if ?k = cJSON_Object then do {
         r \<leftarrow> ?call (Compare_Members (jn_child m) (jt_root u));
         if \<not> r then Some False else ?call (Compare_Members (jn_child n) (jt_root t)) }
       else Some True)"
    using m(1,2) n(1,2) ne by (subst compare_run.simps) (simp add: cJSON_IsInvalid_def masked_type_def valid_kind_def)
  show ?case
  proof (cases "?k \<noteq> jn_type n AND 0xFF \<or> \<not> valid_kind ?k")
    case True
    then show ?thesis unfolding run jv_equal.simps [of eq cs "?V t" "?V u"] m(3) n(3) by auto
  next
    case False
    then have K: "jn_type n AND 0xFF = ?k" "valid_kind ?k" by simp_all
    consider "?k = cJSON_Number" | "?k = cJSON_String \<or> ?k = cJSON_Raw" | "?k = cJSON_Array" | "?k = cJSON_Object" | "?k \<notin> {cJSON_Number, cJSON_String, cJSON_Raw, cJSON_Array, cJSON_Object}" by auto
    then show ?thesis
    proof cases
      case 1
      then show ?thesis using K by (simp add: run jv_equal.simps [of eq cs "?V t" "?V u"] m(3,5) n(3,5))
    next
      case 2
      have "compare_strings h (jn_valuestring m) (jn_valuestring n) = Some (jv_text (?V t) \<noteq> None \<and> jv_text (?V t) = jv_text (?V u))"
        using m(2,9) n(2,9) by (auto simp: compare_strings_def m(4) n(4) text_at_def texts_ok_def)
      then show ?thesis using 2 K by (auto simp: run jv_equal.simps [of eq cs "?V t" "?V u"] m(3) n(3))
    next
      case 3
      have "?call (Compare_Arrays (jn_child m) (jn_child n)) = Some (length (jt_children t) = length (jt_children u) \<and>
          (\<forall>p\<in>set (zip (jt_children t) (jt_children u)). jv_equal eq cs (?V (fst p)) (?V (snd p))))"
        by (rule compare_arrays [OF down m(8) n(8)])
      moreover have "(\<forall>p\<in>set (zip (map ?V (jt_children t)) (map ?V (jt_children u))). jv_equal eq cs (fst p) (snd p)) =
          (\<forall>p\<in>set (zip (jt_children t) (jt_children u)). jv_equal eq cs (?V (fst p)) (?V (snd p)))"
        by (simp add: zip_map_map case_prod_unfold)
      ultimately show ?thesis using 3 K by (simp add: run jv_equal.simps [of eq cs "?V t" "?V u"] m(3,7) n(3,7))
    next
      case 4
      have kt: "jv_kind (?V t) = cJSON_Object" "jv_kind (?V u) = cJSON_Object" using 4 K m(3) n(3) by simp_all
      note nt = nm [OF less.prems(4) kt(1)] and nu = nm [OF less.prems(5) kt(2)]
      have a: "?call (Compare_Members (jn_child m) (jt_root u)) =
          Some (\<forall>v\<in>set (jt_children t). case find (\<lambda>w. same_name cs (?V v) (?V w)) (jt_children u) of None \<Rightarrow> False | Some w \<Rightarrow> jv_equal eq cs (?V v) (?V w))"
        by (rule compare_members [OF down m(8) _ less.prems(2)]) (use st su nt nu in auto)
      have b: "?call (Compare_Members (jn_child n) (jt_root t)) =
          Some (\<forall>w\<in>set (jt_children u). case find (\<lambda>v. same_name cs (?V w) (?V v)) (jt_children t) of None \<Rightarrow> False | Some v \<Rightarrow> jv_equal eq cs (?V w) (?V v))"
        by (rule compare_members [OF up n(8) _ less.prems(1)]) (use st su nt nu in auto)
      have c: "(\<forall>x\<in>set (map ?V xs). case find (same_name cs x) (map ?V ys) of None \<Rightarrow> False | Some y \<Rightarrow> jv_equal eq cs x y) =
          (\<forall>v\<in>set xs. case find (\<lambda>w. same_name cs (?V v) (?V w)) ys of None \<Rightarrow> False | Some w \<Rightarrow> jv_equal eq cs (?V v) (?V w))" for xs ys
        by (simp add: find_map case_map_option split: option.split)
      have "jv_equal eq cs (?V t) (?V u) \<longleftrightarrow>
          (\<forall>v\<in>set (jt_children t). case find (\<lambda>w. same_name cs (?V v) (?V w)) (jt_children u) of None \<Rightarrow> False | Some w \<Rightarrow> jv_equal eq cs (?V v) (?V w)) \<and>
          (\<forall>w\<in>set (jt_children u). case find (\<lambda>v. same_name cs (?V w) (?V v)) (jt_children t) of None \<Rightarrow> False | Some v \<Rightarrow> jv_equal eq cs (?V w) (?V v))"
        unfolding jv_equal.simps [of eq cs "?V t" "?V u"] kt m(7) n(7) c by (simp add: valid_kind_def)
      then show ?thesis using 4 K by (simp add: run a b)
    next
      case 5
      then show ?thesis using K by (simp add: run jv_equal.simps [of eq cs "?V t" "?V u"] m(3) n(3))
    qed
  qed
qed

text \<open>
  C22 (equivalence). On two trees that share no item, whose objects have only named members, \<open>cJSON_Compare\<close> is defined and gives exactly \<open>jv_equal\<close> of their values:
  equal kinds, equal numbers, equal texts, arrays equal element by element, and objects in which each member of either side equals the first member of its name on the other.
\<close>

theorem compare_matches_values:
  assumes "jt_ok h t" and "jt_ok h u" and "set (jt_nodes t) \<inter> set (jt_nodes u) = {}" and "jv_named (jt_value h t)" and "jv_named (jt_value h u)"
  shows "cJSON_Compare eq h (jt_root t) (jt_root u) cs = Some (jv_equal eq cs (jt_value h t) (jt_value h u))"
  unfolding cJSON_Compare_def by (rule compare_items [OF assms])

text \<open>Two objects with the same two members in a different order, and a third with a name in capital letters.\<close>

definition demo_member :: "addr \<Rightarrow> addr \<Rightarrow> addr \<Rightarrow> addr \<Rightarrow> u32 \<Rightarrow> int \<Rightarrow> int jnode" where
  "demo_member nx pv ch str ty num = \<lparr>jn_next = nx, jn_prev = pv, jn_child = ch, jn_type = ty, jn_valuestring = 0, jn_valueint = num, jn_valuedouble = num, jn_string = str\<rparr>"

definition demo_objects :: "int jheap" where
  "demo_objects = \<lparr>jh_items = [1 \<mapsto> demo_member 0 0 2 0 cJSON_Object 0, 2 \<mapsto> demo_member 3 0 0 30 cJSON_Number 5, 3 \<mapsto> demo_member 0 2 0 31 cJSON_NULL 0,
     11 \<mapsto> demo_member 0 0 12 0 cJSON_Object 0, 12 \<mapsto> demo_member 13 0 0 31 cJSON_NULL 0, 13 \<mapsto> demo_member 0 12 0 32 cJSON_Number 5],
   jh_strs = Map.empty, jh_consts = [30 \<mapsto> ascii ''ab'', 31 \<mapsto> ascii ''c'', 32 \<mapsto> ascii ''AB''], jh_malloc = []\<rparr>"

lemma compare_matches_values_witness:
  "cJSON_Compare (=) demo_objects 1 11 False = Some True \<and> cJSON_Compare (=) demo_objects 1 11 True = Some False"
proof -
  let ?t = "JT 1 [JT 2 [], JT 3 []]" and ?u = "JT 11 [JT 12 [], JT 13 []]"
  note d = demo_objects_def demo_member_def and k = jv_kind_def jv_name_def jv_number_def data_at_def text_at_def read_str_def
  have ok: "jt_ok demo_objects ?t" "jt_ok demo_objects ?u" by (simp_all add: jt_ok_def chain_cons links_def texts_ok_def read_str_def d)
  have nm: "jv_named (jt_value demo_objects ?t)" "jv_named (jt_value demo_objects ?u)" by (simp_all add: k d ascii_def)
  have e: "jv_equal (=) False (jt_value demo_objects ?t) (jt_value demo_objects ?u)" "\<not> jv_equal (=) True (jt_value demo_objects ?t) (jt_value demo_objects ?u)"
    by (simp_all add: jv_equal.simps [of "(=)"] k d same_name_def same_text_def valid_kind_def ascii_def c_tolower_def)
  show ?thesis using compare_matches_values [OF ok _ nm, of "(=)" False] compare_matches_values [OF ok _ nm, of "(=)" True] e by simp
qed

section \<open>Copies are equal\<close>

definition name_key :: "bool \<Rightarrow> 'n jvalue \<Rightarrow> u8 list option" where
  "name_key cs v = map_option (\<lambda>s. if cs then s else map c_tolower s) (jv_name v)"

text \<open>Values that the comparison finds equal to themselves: known kinds, numbers equal to themselves, texts, and members of different names.\<close>

fun jv_regular :: "('n \<Rightarrow> 'n \<Rightarrow> bool) \<Rightarrow> bool \<Rightarrow> 'n jvalue \<Rightarrow> bool" where
  "jv_regular eq cs (JV d vs) \<longleftrightarrow> valid_kind (jv_kind (JV d vs)) \<and> (jv_kind (JV d vs) = cJSON_Number \<longrightarrow> eq (jv_number (JV d vs)) (jv_number (JV d vs))) \<and>
     (jv_kind (JV d vs) = cJSON_String \<or> jv_kind (JV d vs) = cJSON_Raw \<longrightarrow> jv_text (JV d vs) \<noteq> None) \<and>
     (jv_kind (JV d vs) = cJSON_Object \<longrightarrow> distinct (map (name_key cs) vs)) \<and> (\<forall>v\<in>set vs. jv_regular eq cs v)"

lemma same_name_key: "same_name cs v w \<longleftrightarrow> jv_name v \<noteq> None \<and> jv_name w \<noteq> None \<and> name_key cs v = name_key cs w"
  by (auto simp: same_name_def name_key_def same_text_def split: option.splits)

lemma find_own_name:
  assumes "distinct (map (name_key cs) vs)" and "x \<in> set vs" and "jv_name x \<noteq> None"
  shows "find (same_name cs x) vs = Some x"
  using assms(1,2)
proof (induction vs)
  case (Cons v vs)
  then show ?case using assms(3) by (cases "x = v") (auto simp: same_name_key image_iff)
qed simp

lemma regular_equal: "jv_regular eq cs v \<Longrightarrow> jv_named v \<Longrightarrow> jv_equal eq cs v v"
proof (induction v)
  case (JV d vs)
  have i: "jv_equal eq cs v v" if "v \<in> set vs" for v using JV.IH [OF that] JV.prems that by auto
  have "find (same_name cs x) vs = Some x" if "x \<in> set vs" "jv_kind (JV d vs) = cJSON_Object" for x
    by (rule find_own_name) (use JV.prems that in auto)
  moreover have "jv_equal eq cs (fst p) (snd p)" if "p \<in> set (zip vs vs)" for p using that i by (auto simp: zip_same_conv_map)
  ultimately show ?case using JV.prems i by (subst jv_equal.simps) (simp add: case_prod_unfold)
qed

lemma repeated_name_unequal:
  "\<not> jv_equal (=) cs (JV (cJSON_Object, None, 0, 0, None) [JV (cJSON_Number, None, 1, 1 :: int, Some [0x61]) [], JV (cJSON_Number, None, 2, 2, Some [0x61]) []])
     (JV (cJSON_Object, None, 0, 0, None) [JV (cJSON_Number, None, 1, 1, Some [0x61]) [], JV (cJSON_Number, None, 2, 2, Some [0x61]) []])"
  by (simp add: jv_equal.simps [of "(=)"] jv_kind_def jv_name_def jv_number_def same_name_def same_text_def valid_kind_def)

text \<open>
  C40 (functional). A copy that \<open>cJSON_Duplicate\<close> makes of a tree compares equal to the original, when the tree has only known kinds, numbers equal to themselves, texts in its
  strings and different names in its objects. Without the last condition it need not (\<open>repeated_name_unequal\<close>): of two members of one name only the first is ever found.
\<close>

theorem copy_compares_equal:
  assumes "fresh_malloc h" and "jt_ok h t" and "jv_named (jt_value h t)" and "jv_regular eq cs (jt_value h t)" and "cJSON_Duplicate nc h (jt_root t) True = Some (h', r)" and "r \<noteq> NULL"
  shows "cJSON_Compare eq h' (jt_root t) r cs = Some True"
proof -
  from duplicate_copied [OF assms(1,2), of nc] obtain pre u where u: "r = jt_root u" "copy_of h h' pre u" "jt_value h' u = jt_value h t"
    by (rule copiedE) (use assms(5,6) in auto)
  note old = copy_value [OF assms(1) u(2) assms(2)]
  have "set (jt_nodes t) \<inter> set (jt_nodes u) = {}"
    using copy_old(3) [OF assms(1) u(2)] jt_shape_alloc assms(2) unfolding jt_ok_def by blast
  from compare_items [OF old(1) copyD(11) [OF u(2)] this] show ?thesis
    using assms(3,4) u(1,3) old(2) regular_equal by (simp add: cJSON_Compare_def)
qed

lemma copy_compares_equal_witness:
  "\<exists>h'. cJSON_Duplicate demo_conv (demo_copy [40, 41, 42, 43]) 1 True = Some (h', 40) \<and> cJSON_Compare (=) h' 1 40 True = Some True"
proof -
  let ?t = "JT 1 [JT 2 []]" and ?h = "demo_copy [40, 41, 42, 43]"
  note k = jv_kind_def jv_text_def data_at_def text_at_def read_str_def demo_copy_def
  have ok: "jt_ok ?h ?t" by (simp add: jt_ok_def chain_cons links_def texts_ok_def read_str_def demo_copy_def)
  have f: "fresh_malloc ?h" by (simp add: fresh_malloc_def demo_copy_def)
  have v: "jv_named (jt_value ?h ?t)" "jv_regular (=) True (jt_value ?h ?t)" by (simp_all add: k valid_kind_def)
  obtain h' where "cJSON_Duplicate demo_conv ?h (jt_root ?t) True = Some (h', 40)"
    by (simp add: demo_run duplicate_loop.simps [of _ _ _ 0] duplicate_loop.simps [of _ _ _ 2])
  from copy_compares_equal [OF f ok v this] this show ?thesis by simp
qed

end
