(* ===== verification/Spec2Isabelle.thy ===== *)
theory Spec2Isabelle
  imports Consumer_Props Rbtree_Props List_Props Hlist_Props Cjson_Print_Props Cjson_Minify_Props Cjson_Array_Props Cjson_Compare
begin

text \<open>
  A verification development for the consumer agent of a service mesh, written in C
  (\<^verbatim>\<open>src/src/main/c\<close>; file names below are relative to this directory).

  \<^bold>\<open>The program.\<close> A consumer sends HTTP requests to the agent on its own machine. The agent reads the name of the wanted
  service from the form in the request, asks etcd once per service which provider agents offer it, connects to them, chooses
  the endpoint with the least load, and forwards the form in a frame of its own binary protocol on the connection to that
  agent. Frames carry a request number; when the frame with the same number comes back, its text becomes the HTTP response.
  The parts:

  \<^item> \<^verbatim>\<open>src/core/consumer-agent.c\<close>: the handler of HTTP requests and the listener for answers, which connect the other parts;
  \<^item> \<^verbatim>\<open>src/core/http-server.c\<close>: the HTTP server, with an accept thread, event loops and a pool of I/O threads;
  \<^item> \<^verbatim>\<open>src/core/agent-client-manager.c\<close>: connections to provider agents (channels), with a write queue each, the encoding and
    reassembly of frames and the table of waiting requests;
  \<^item> \<^verbatim>\<open>src/core/service-discovery.c\<close>, \<^verbatim>\<open>src/core/etcdctl.c\<close>: the table of services, the search in etcd, the choice of an endpoint;
  \<^item> \<^verbatim>\<open>src/com/tdpool.c\<close>: thread pools with a ring of calls, used by the servers and the client manager;
  \<^item> \<^verbatim>\<open>src/com/mmpool.c\<close>: memory pools with size classes, from which channels, nodes and buffers come;
  \<^item> \<^verbatim>\<open>src/com/cJSON.c\<close>: the JSON library that reads etcd's answers;
  \<^item> \<^verbatim>\<open>src/com/rbtree.c\<close>, \<^verbatim>\<open>inc/com/list.h\<close>: containers that come with the program.

  \<^bold>\<open>How C is modelled.\<close> Integers are words of their width (\<open>u8\<close>, \<open>u32\<close>, \<open>u64\<close>, \<open>addr\<close>) with wrap-around; signed values are read by \<open>sint\<close>
  or kept as \<open>int\<close> with the overflow written out. A structure is a record or, in a heap of many nodes, a map from addresses to records. The outcome
  of code is an option: \<open>None\<close> is undefined behaviour (an access to memory that is not allocated, beyond an array or
  not initialised) or, for loops defined by \<open>partial_function (option)\<close>, a loop that does not end; every theorem that gives a result
  therefore also says that the code is defined and returns. Error returns are values (\<open>-1\<close>, \<open>0\<close>, \<open>NULL\<close>) as in the code. What the system does
  (\<open>malloc\<close>, sockets, epoll, libcurl) is an argument of the operations or a list of outcomes in store (\<^verbatim>\<open>Io\<close>); nothing is assumed of it
  except where a theorem says so. Operations under a lock are one step; where threads interleave between locks the steps are an
  \<open>inductive\<close> relation (thread pool, write queue of a channel).

  \<^bold>\<open>The theories.\<close>

  \<^item> \<^verbatim>\<open>Prelude\<close>: types, collections of simplification rules, general lemmas. \<^verbatim>\<open>Cstr\<close>: string functions of the C library on byte arrays.
    \<^verbatim>\<open>Io\<close>: non-blocking sockets. \<^verbatim>\<open>F32\<close>: the single-precision arithmetic of the load balancer.
  \<^item> \<^verbatim>\<open>Circ_List\<close>: circular lists on a heap; the interfaces \<open>circ_link\<close> (an insertion) and \<open>circ_heap\<close> (also a removal), interpreted as \<open>mm\<close>
    for the free lists of the memory pool, \<open>sl\<close> for the endpoints of a service and \<open>lh\<close> for the list macros.
  \<^item> \<^verbatim>\<open>Ring_Queue\<close>: arrays used as rings; the interface \<open>ring_queue\<close>, interpreted as \<open>cq\<close> for the calls of a thread pool and \<open>wq\<close> for the
    write queue of a channel.
  \<^item> \<^verbatim>\<open>Mmpool\<close>, \<^verbatim>\<open>Mmpool_Correct\<close>, \<^verbatim>\<open>Mmpool_Worker\<close>, \<^verbatim>\<open>Mmpool_Props\<close>: the memory pool. Its representation invariant holds in every
    reachable state, \<open>mmpl_getmem\<close> and \<open>mmpl_rlsmem\<close> implement an abstract pool, blocks are large enough, destroying a pool frees every
    free block once. The release of old blocks reads an uninitialised cell in states that are characterised exactly; a pool with one client
    that holds one block at a time never gets there.
  \<^item> \<^verbatim>\<open>Tdpool\<close>, \<^verbatim>\<open>Tdpool_Correct\<close>, \<^verbatim>\<open>Tdpool_Props\<close>: the thread pool. Under every interleaving of callers and workers each
    submitted call is started once, and all are started in the end, as long as the ring is not overrun; an overrun loses the oldest call.
  \<^item> \<^verbatim>\<open>Acm\<close>, \<^verbatim>\<open>Acm_Codec\<close>, \<^verbatim>\<open>Acm_Write\<close>, \<^verbatim>\<open>Acm_Read\<close>, \<^verbatim>\<open>Acm_Requests\<close>, \<^verbatim>\<open>Acm_Conn\<close>, \<^verbatim>\<open>Acm_Props\<close>: the agent client manager. Heads of
    frames are encoded without loss; the bytes a channel sends are a prefix of the queued frames; no wake-up is lost; the read thread delivers the
    messages of a stream however it is cut; a response goes to the listener of its request unless two waiting requests share an entry.
  \<^item> \<^verbatim>\<open>Http\<close>, \<^verbatim>\<open>Http_Decode\<close>, \<^verbatim>\<open>Http_Read\<close>, \<^verbatim>\<open>Http_Request\<close>, \<^verbatim>\<open>Http_Response\<close>, \<^verbatim>\<open>Http_Server\<close>, \<^verbatim>\<open>Http_Start\<close>, \<^verbatim>\<open>Http_Props\<close>: the HTTP
    server. The decoder follows a reference parser of one byte at a time; a request in any segmentation is delivered once with its body; the response is
    sent whole however the socket splits it; starting, accepting and the dispatch of events.
  \<^item> \<^verbatim>\<open>Cjson\<close>, \<^verbatim>\<open>Cjson_Parse\<close>, \<^verbatim>\<open>Cjson_Safe\<close>, \<^verbatim>\<open>Cjson_Grammar\<close>, \<^verbatim>\<open>Cjson_Props\<close>: the JSON parser. It is safe on every text and for all
    failures of allocations, and reads the texts of a grammar given by rules; nesting is bounded by \<open>CJSON_NESTING_LIMIT\<close> as in the code, which is
    also the depth to which the recursion of the model unfolds. A parsed number is kept as the characters that \<open>strtod\<close> converts; what \<open>strtod\<close> makes of
    them is an argument of \<open>cj_valuedouble\<close> and \<open>cj_valueint\<close>. The interface \<open>safe_parser\<close> is what the loops over elements rely on, interpreted as \<open>pv\<close>.
  \<^item> \<^verbatim>\<open>Cjson_Print\<close>, \<^verbatim>\<open>Cjson_Render\<close>, \<^verbatim>\<open>Cjson_Printer\<close>, \<^verbatim>\<open>Cjson_Roundtrip\<close>, \<^verbatim>\<open>Cjson_Print_Props\<close>: the JSON printer with its
    growing buffer, which is given back exactly once. On every item whose texts end at a zero, whose numbers fit into 26 bytes and
    whose raw items have a text (\<open>item_ok\<close>), and for all failures of allocations, it stays in the buffer and gives \<open>NULL\<close> or the reference
    text \<open>render\<close>; the parser reads back the item, with numbers that compare equal. Here an item carries its number, of any type: what the C library
    does with numbers is the record \<open>numlib\<close>, an argument of the printers; \<open>conversions_ok\<close> says what the round trip relies on.
  \<^item> \<^verbatim>\<open>Cjson_Minify\<close>, \<^verbatim>\<open>Cjson_Minify_Props\<close>: removing white space and comments in place, against a reference on texts; the item read from a text stays, with the
    characters of its numbers.
  \<^item> \<^verbatim>\<open>Cjson_Heap\<close>, \<^verbatim>\<open>Cjson_Create\<close>, \<^verbatim>\<open>Cjson_Chain\<close>, \<^verbatim>\<open>Cjson_Delete\<close>, \<^verbatim>\<open>Cjson_Array_Props\<close>, \<^verbatim>\<open>Cjson_Duplicate\<close>,
    \<^verbatim>\<open>Cjson_Compare\<close>: JSON items in
    memory, with their links, owned and constant names and references, and the results of \<open>malloc\<close> as a list. Deleting gives back exactly a tree, once;
    adding, inserting and detaching children act as on a list; a copy has the value of the original and deleting it restores the memory, as a failed copy does.
    comparing gives the equality of the values, and a copy is equal to its original when names do not repeat. Creating items is modelled by definitions only.
  \<^item> \<^verbatim>\<open>Sd\<close>, \<^verbatim>\<open>Sd_List\<close>, \<^verbatim>\<open>Sd_Select\<close>, \<^verbatim>\<open>Sd_Find\<close>, \<^verbatim>\<open>Sd_Register\<close>, \<^verbatim>\<open>Sd_Props\<close>: service discovery. The chosen endpoint has the exactly least
    quotient of open requests and load level; a search registers what etcd announces and keeps the nodes well formed; failed searches.
  \<^item> \<^verbatim>\<open>Consumer\<close>, \<^verbatim>\<open>Consumer_Props\<close>: the agent. A form that arrives in any segmentation is queued as one frame on the channel of a least
    loaded endpoint, and the answer comes back as the response on the connection of the request: the composition of all parts above.
  \<^item> \<^verbatim>\<open>Rbtree\<close>, \<^verbatim>\<open>Rbtree_Heap\<close>, \<^verbatim>\<open>Rbtree_Mirror\<close>, \<^verbatim>\<open>Rbtree_Inv\<close>, \<^verbatim>\<open>Rbtree_Insert\<close>, \<^verbatim>\<open>Rbtree_Fixup\<close>, \<^verbatim>\<open>Rbtree_Delete\<close>,
    \<^verbatim>\<open>Rbtree_Props\<close>: the red-black tree with parent pointers and a sentinel. Insertion and deletion return and keep the invariants; sequences of
    operations behave as a map (interface \<open>keyed_store\<close>, interpreted as \<open>rb\<close>); a search ends after a logarithmic number
    of rounds of its loop.
  \<^item> \<^verbatim>\<open>List_Head\<close>, \<^verbatim>\<open>List_Props\<close>, \<^verbatim>\<open>Hlist_Props\<close>: the list macros. Sequences of operations on circular lists and on the chains of hash
    tables behave as on lists of nodes; splicing joins lists.

  \<^bold>\<open>Bounds.\<close> No fuel is used: loops are structural, have a termination proof, or are partial functions whose results are proved to exist.
  The bounds in hypotheses are those of the code: sizes of arrays and buffers, 64-bit counters that have not wrapped, the nesting limit.

  \<^bold>\<open>Not modelled.\<close> Logging (\<^verbatim>\<open>src/com/log.c\<close>) only writes to syslog and no other part depends on it; the configuration files are empty; the
  main program calls \<open>cagent_start\<close>, which is modelled, and sleeps. Of the JSON library: the version string, the choice of the allocation functions and, in the
  parser, the decimal point of the locale. The Java
  programs of the repository (the provider side) are separate programs.
\<close>

end
